(* ===== verification/Prelude.thy ===== *)
theory Prelude
  imports Main "HOL-Library.Word" "HOL-Library.List_Lexorder" "HOL-Library.Char_ord"
begin

text \<open>
  Shared vocabulary of the development: the Rust types the components use (bytes, byte
  vectors, strings, results), the pieces of the Rust standard library the sources call
  (slicing, chunking, \<open>to_be_bytes\<close>, decimal formatting, ASCII classification), and the
  generic lemmas about them.  Lemma collections declared here are used by the component
  theories as \<open>simp add:\<close> sets.
\<close>

named_theorems result_simps "rewriting of the result type"
named_theorems std_simps "behaviour of the standard-library helpers"

section \<open>Types\<close>

type_synonym byte = "8 word"
type_synonym bytes = "byte list"
type_synonym u64 = "64 word"

text \<open>\<open>Np2pError\<close>: one constructor per variant; a wrapped foreign error is its rendering.\<close>

datatype np2p_error =
    Io string
  | Crypto string
  | Serialization string
  | Network string
  | Protocol string
  | Connect string
  | Connection string
  | Write string
  | Read string
  | ErasureCoding string
  | Identity string
  | Storage string
  | Internal string
  | UnknownMessage string

text \<open>\<open>Result<T, E>\<close> is the sum type, \<open>Inl\<close> being the error.\<close>

abbreviation Err :: "'e \<Rightarrow> 'e + 'a" where "Err \<equiv> Inl"
abbreviation Ok :: "'a \<Rightarrow> 'e + 'a" where "Ok \<equiv> Inr"

type_synonym 'a result = "np2p_error + 'a"

text \<open>The \<open>?\<close> operator, and \<open>map_err\<close>.\<close>

fun bind_res :: "'e + 'a \<Rightarrow> ('a \<Rightarrow> 'e + 'b) \<Rightarrow> 'e + 'b" where
  "bind_res (Inl e) f = Inl e"
| "bind_res (Inr x) f = f x"

fun map_err :: "('e \<Rightarrow> 'f) \<Rightarrow> 'e + 'a \<Rightarrow> 'f + 'a" where
  "map_err g (Inl e) = Inl (g e)"
| "map_err g (Inr x) = Inr x"

fun is_ok :: "'e + 'a \<Rightarrow> bool" where
  "is_ok (Inl e) = False"
| "is_ok (Inr x) = True"

lemma bind_res_Ok_iff [result_simps]:
  "bind_res m f = Inr y \<longleftrightarrow> (\<exists>x. m = Inr x \<and> f x = Inr y)"
  by (cases m) auto

lemma bind_res_Err_iff [result_simps]:
  "bind_res m f = Inl e \<longleftrightarrow> m = Inl e \<or> (\<exists>x. m = Inr x \<and> f x = Inl e)"
  by (cases m) auto

lemma map_err_Ok_iff [result_simps]: "map_err g m = Inr y \<longleftrightarrow> m = Inr y"
  by (cases m) auto

lemma map_err_Err_iff [result_simps]: "map_err g m = Inl e \<longleftrightarrow> (\<exists>d. m = Inl d \<and> e = g d)"
  by (cases m) auto

lemma is_ok_iff: "is_ok m \<longleftrightarrow> (\<exists>x. m = Inr x)"
  by (cases m) auto

fun_cases bind_res_OkE: "bind_res m f = Inr y"

section \<open>Outcomes with panics\<close>

text \<open>A panic, for instance of an out-of-range slice, is an outcome of its own.\<close>

datatype 'a outcome = Panic | Done 'a

fun bind_out :: "'a outcome \<Rightarrow> ('a \<Rightarrow> 'b outcome) \<Rightarrow> 'b outcome" where
  "bind_out Panic f = Panic"
| "bind_out (Done x) f = f x"

definition of_slice :: "'a option \<Rightarrow> 'a outcome" where
  "of_slice x = (case x of None \<Rightarrow> Panic | Some y \<Rightarrow> Done y)"

section \<open>Formatting\<close>

text \<open>Decimal rendering of an unsigned integer (\<open>{}\<close> in \<open>format!\<close>).\<close>

definition digit_char :: "nat \<Rightarrow> char" where
  "digit_char d = char_of (48 + d)"

fun show_nat :: "nat \<Rightarrow> string" where
  "show_nat n = (if n < 10 then [digit_char n] else show_nat (n div 10) @ [digit_char (n mod 10)])"

declare show_nat.simps [simp del]

fun read_digits :: "nat \<Rightarrow> string \<Rightarrow> nat" where
  "read_digits acc [] = acc"
| "read_digits acc (c # cs) = read_digits (10 * acc + (of_char c - 48)) cs"

lemma digit_char_eval [std_simps]:
  "digit_char 0 = CHR ''0''" "digit_char (Suc 0) = CHR ''1''" "digit_char 1 = CHR ''1''"
  "digit_char 2 = CHR ''2''" "digit_char 3 = CHR ''3''" "digit_char 4 = CHR ''4''"
  "digit_char 5 = CHR ''5''" "digit_char 6 = CHR ''6''" "digit_char 7 = CHR ''7''"
  "digit_char 8 = CHR ''8''" "digit_char 9 = CHR ''9''"
  by (simp_all add: digit_char_def char_of_def bit_Suc_0_iff)

lemma read_digits_append: "read_digits acc (xs @ ys) = read_digits (read_digits acc xs) ys"
  by (induction xs arbitrary: acc) auto

lemma of_char_digit: "d < 10 \<Longrightarrow> (of_char (digit_char d) :: nat) = 48 + d"
  by (simp add: digit_char_def of_char_of)

lemma read_show_nat [std_simps]: "read_digits 0 (show_nat n) = n"
proof (induction n rule: show_nat.induct)
  case (1 n)
  show ?case
  proof (cases "n < 10")
    case True
    then show ?thesis by (simp add: show_nat.simps[of n] of_char_digit)
  next
    case False
    then show ?thesis
      using 1 by (simp add: show_nat.simps[of n] read_digits_append of_char_digit)
  qed
qed

lemma show_nat_inj: "show_nat a = show_nat b \<longleftrightarrow> a = b"
  by (metis read_show_nat)

lemma show_nat_digits: "c \<in> set (show_nat n) \<Longrightarrow> 48 \<le> (of_char c :: nat) \<and> (of_char c :: nat) \<le> 57"
proof (induction n rule: show_nat.induct)
  case (1 n)
  then show ?case
    by (subst (asm) (2) show_nat.simps) (auto simp: of_char_digit split: if_splits)
qed

section \<open>Strings as bytes, ASCII classes\<close>

text \<open>\<open>str::as_bytes\<close>.\<close>

definition str_bytes :: "string \<Rightarrow> bytes" where
  "str_bytes s = map (\<lambda>c. word_of_nat (of_char c)) s"

lemma of_char_word_inj: "(word_of_nat (of_char c) :: byte) = word_of_nat (of_char d) \<longleftrightarrow> c = d"
proof -
  have *: "unat (word_of_nat (of_char x) :: byte) = of_char x" for x :: char
    by (simp add: unat_of_nat)
  show ?thesis by (metis * char_of_char)
qed

lemma str_bytes_inj: "str_bytes s = str_bytes t \<longleftrightarrow> s = t"
  unfolding str_bytes_def
  by (rule inj_map_eq_map) (simp add: inj_on_def of_char_word_inj)

lemma length_str_bytes [simp]: "length (str_bytes s) = length s"
  by (simp add: str_bytes_def)

lemma str_bytes_append: "str_bytes (s @ t) = str_bytes s @ str_bytes t"
  by (simp add: str_bytes_def)

text \<open>\<open>u8::is_ascii_hexdigit\<close>, \<open>char::is_ascii_hexdigit\<close>.\<close>

definition is_hexdigit :: "char \<Rightarrow> bool" where
  "is_hexdigit c = (let n = (of_char c :: nat) in
     (48 \<le> n \<and> n \<le> 57) \<or> (65 \<le> n \<and> n \<le> 70) \<or> (97 \<le> n \<and> n \<le> 102))"

text \<open>\<open>char::to_ascii_lowercase\<close>.\<close>

definition ascii_lower :: "char \<Rightarrow> char" where
  "ascii_lower c = (let n = (of_char c :: nat) in if 65 \<le> n \<and> n \<le> 90 then char_of (n + 32) else c)"

definition is_lower_hex :: "char \<Rightarrow> bool" where
  "is_lower_hex c = (let n = (of_char c :: nat) in (48 \<le> n \<and> n \<le> 57) \<or> (97 \<le> n \<and> n \<le> 102))"

lemma is_lower_hex_hexdigit: "is_lower_hex c \<Longrightarrow> is_hexdigit c"
  by (auto simp: is_lower_hex_def is_hexdigit_def Let_def)

lemma ascii_lower_lower_hex: "is_lower_hex c \<Longrightarrow> ascii_lower c = c"
  by (auto simp: is_lower_hex_def ascii_lower_def Let_def)

section \<open>Slices and chunks\<close>

text \<open>\<open>&xs[a..b]\<close>; \<open>None\<close> is the panic on an out-of-range slice.\<close>

definition slice :: "'a list \<Rightarrow> nat \<Rightarrow> nat \<Rightarrow> 'a list option" where
  "slice xs a b = (if a \<le> b \<and> b \<le> length xs then Some (take (b - a) (drop a xs)) else None)"

lemma slice_length: "slice xs a b = Some ys \<Longrightarrow> length ys = b - a"
  by (auto simp: slice_def split: if_splits)

lemma slice_nth: "slice xs a b = Some ys \<Longrightarrow> i < b - a \<Longrightarrow> ys ! i = xs ! (a + i)"
  by (auto simp: slice_def split: if_splits)

lemma slice_append [std_simps]:
  "slice (xs @ ys @ zs) (length xs) (length xs + length ys) = Some ys"
  by (simp add: slice_def)

lemma slice_mid: "xs = a @ b @ c \<Longrightarrow> i = length a \<Longrightarrow> j = i + length b \<Longrightarrow> slice xs i j = Some b"
  by (simp add: slice_append)

text \<open>\<open>slice::get\<close>.\<close>

definition get_idx :: "'a list \<Rightarrow> nat \<Rightarrow> 'a option" where
  "get_idx xs i = (if i < length xs then Some (xs ! i) else None)"

text \<open>\<open>[T]::chunks_exact\<close>: full chunks only.  A chunk size of 0 panics in Rust; the callers
  below never pass it.\<close>

fun chunks_exact :: "nat \<Rightarrow> 'a list \<Rightarrow> 'a list list" where
  "chunks_exact n xs = (if n = 0 \<or> length xs < n then [] else take n xs # chunks_exact n (drop n xs))"

declare chunks_exact.simps [simp del]

text \<open>\<open>[T]::chunks\<close>: the last chunk may be shorter.\<close>

fun chunks_of :: "nat \<Rightarrow> 'a list \<Rightarrow> 'a list list" where
  "chunks_of n xs = (if n = 0 \<or> xs = [] then [] else take n xs # chunks_of n (drop n xs))"

declare chunks_of.simps [simp del]

lemma chunks_exact_props:
  assumes "0 < n" "length xs = k * n"
  shows "length (chunks_exact n xs) = k" "concat (chunks_exact n xs) = xs"
    "\<forall>c\<in>set (chunks_exact n xs). length c = n"
proof -
  have *: "length (chunks_exact n xs) = k \<and> concat (chunks_exact n xs) = xs
     \<and> (\<forall>c\<in>set (chunks_exact n xs). length c = n)"
    using assms
  proof (induction k arbitrary: xs)
    case 0
    then show ?case by (simp add: chunks_exact.simps)
  next
    case (Suc k)
    then have len: "length (drop n xs) = k * n" "n \<le> length xs" by simp_all
    have "chunks_exact n xs = take n xs # chunks_exact n (drop n xs)"
      using Suc.prems(1) len(2) by (subst chunks_exact.simps) simp
    moreover note Suc.IH[OF Suc.prems(1) len(1)]
    moreover have "length (take n xs) = n" using len(2) by simp
    ultimately show ?case by (metis append_take_drop_id concat.simps(2) length_Cons set_ConsD)
  qed
  show "length (chunks_exact n xs) = k" by (rule conjunct1[OF *])
  show "concat (chunks_exact n xs) = xs" by (rule conjunct1[OF conjunct2[OF *]])
  show "\<forall>c\<in>set (chunks_exact n xs). length c = n" by (rule conjunct2[OF conjunct2[OF *]])
qed

lemma concat_chunks_of: "0 < n \<Longrightarrow> concat (chunks_of n xs) = xs"
proof (induction n xs rule: chunks_of.induct)
  case (1 n xs)
  show ?case
  proof (cases "xs = []")
    case False
    with 1 show ?thesis by (subst chunks_of.simps) simp
  qed (subst chunks_of.simps, simp)
qed

lemma chunks_of_sizes: "c \<in> set (chunks_of n xs) \<Longrightarrow> 0 < length c \<and> length c \<le> n"
proof (induction n xs rule: chunks_of.induct)
  case (1 n xs)
  then show ?case
    by (cases "n = 0 \<or> xs = []") (auto simp: chunks_of.simps[of n xs])
qed

text \<open>\<open>usize::div_ceil\<close>.\<close>

definition div_ceil :: "nat \<Rightarrow> nat \<Rightarrow> nat" where
  "div_ceil a b = (a + b - 1) div b"

lemma div_ceil_ge: "0 < b \<Longrightarrow> a \<le> div_ceil a b * b"
proof -
  assume b: "0 < b"
  have "a + b - 1 = div_ceil a b * b + (a + b - 1) mod b"
    unfolding div_ceil_def by (metis div_mult_mod_eq)
  moreover have "(a + b - 1) mod b < b" using b by simp
  ultimately show ?thesis by linarith
qed

lemma div_ceil_pos: "0 < b \<Longrightarrow> 0 < a \<Longrightarrow> 0 < div_ceil a b"
  using div_ceil_ge[of b a] by (cases "div_ceil a b") auto

text \<open>\<open>Vec::resize\<close>.\<close>

definition resize :: "nat \<Rightarrow> 'a \<Rightarrow> 'a list \<Rightarrow> 'a list" where
  "resize n v xs = take n xs @ replicate (n - length xs) v"

lemma length_resize [simp]: "length (resize n v xs) = n"
  by (simp add: resize_def)

lemma take_resize: "length xs \<le> n \<Longrightarrow> take (length xs) (resize n v xs) = xs"
  by (simp add: resize_def)

section \<open>Integers as bytes\<close>

text \<open>\<open>u64::to_be_bytes\<close> and \<open>u64::from_le_bytes\<close>.\<close>

definition u64_be :: "u64 \<Rightarrow> bytes" where
  "u64_be w = map (\<lambda>i. ucast (drop_bit (56 - 8 * i) w)) [0..<8]"

definition u64_of_le :: "bytes \<Rightarrow> u64" where
  "u64_of_le bs = foldr (\<lambda>b acc. ucast b + push_bit 8 acc) bs 0"

lemma length_u64_be [simp]: "length (u64_be w) = 8"
  by (simp add: u64_be_def)

lemma u64_be_inj: "u64_be v = u64_be w \<longleftrightarrow> v = w"
proof
  assume eq: "u64_be v = u64_be w"
  show "v = w"
  proof (rule bit_word_eqI)
    fix n assume n: "n < LENGTH(64)"
    let ?i = "7 - n div 8"
    have i: "?i < 8" using n by simp
    have "u64_be v ! ?i = u64_be w ! ?i" using eq by simp
    then have e: "(ucast (drop_bit (56 - 8 * ?i) v) :: byte) = ucast (drop_bit (56 - 8 * ?i) w)"
      using i by (simp add: u64_be_def)
    have s: "56 - 8 * ?i = 8 * (n div 8)"
      using n by simp
    have "bit (ucast (drop_bit (8 * (n div 8)) v) :: byte) (n mod 8)
        = bit (ucast (drop_bit (8 * (n div 8)) w) :: byte) (n mod 8)"
      using e unfolding s by simp
    then show "bit v n \<longleftrightarrow> bit w n"
      by (simp add: bit_ucast_iff bit_drop_bit_eq)
  qed
qed simp

text \<open>\<open>u64::abs_diff\<close>.\<close>

definition abs_diff :: "u64 \<Rightarrow> u64 \<Rightarrow> nat" where
  "abs_diff a b = (if a \<le> b then unat (b - a) else unat (a - b))"

lemma abs_diff_le_iff:
  "abs_diff a b \<le> k \<longleftrightarrow> unat a \<le> unat b + k \<and> unat b \<le> unat a + k"
proof (cases "a \<le> b")
  case True
  then have "unat a \<le> unat b" "unat (b - a) = unat b - unat a"
    by (simp_all add: word_le_nat_alt unat_sub)
  then show ?thesis using True by (auto simp: abs_diff_def)
next
  case False
  then have "b \<le> a" by simp
  then have "unat b \<le> unat a" "unat (a - b) = unat a - unat b"
    by (simp_all add: word_le_nat_alt unat_sub)
  then show ?thesis using False by (auto simp: abs_diff_def)
qed

section \<open>List facts shared by the components\<close>

lemma append_eq_lengthI:
  "length a = length c \<Longrightarrow> a @ b = c @ d \<longleftrightarrow> a = c \<and> b = d"
  by simp

lemma filter_Some_count: "length (filter (\<lambda>x. x \<noteq> None) (map Some xs)) = length xs"
  by (induction xs) auto

lemma sort_key_set [simp]: "set (sort_key f xs) = set xs"
  by simp

end
