(* ===== verification/Externals.thy ===== *)
theory Externals
  imports Prelude
begin

text \<open>
  The crates the sources link against, as a record of functions that every definition using
  one of them takes as an argument: BLAKE3, ChaCha20-Poly1305, Ed25519, Argon2id, the
  \<open>hex\<close> crate and the Reed-Solomon codec.  Nothing is assumed of them by the definitions.
  The predicates of this theory name the documented behaviour that individual theorems rely
  on; the theory \<open>Externals_Model\<close> shows that they can hold together.
\<close>

record ext =
  blake3 :: "bytes \<Rightarrow> bytes"
  hex_encode :: "bytes \<Rightarrow> string"
  hex_decode :: "string \<Rightarrow> bytes option"
  aead_seal :: "bytes \<Rightarrow> bytes \<Rightarrow> bytes \<Rightarrow> string + bytes"
  aead_open :: "bytes \<Rightarrow> bytes \<Rightarrow> bytes \<Rightarrow> string + bytes"
  ed_public :: "bytes \<Rightarrow> bytes"
  ed_sign :: "bytes \<Rightarrow> bytes \<Rightarrow> bytes"
  ed_point_ok :: "bytes \<Rightarrow> bool"
  ed_verify :: "bytes \<Rightarrow> bytes \<Rightarrow> bytes \<Rightarrow> bool"
  argon2id :: "bytes \<Rightarrow> bytes \<Rightarrow> bytes"
  rs_new :: "nat \<Rightarrow> nat \<Rightarrow> string + unit"
  rs_encode :: "nat \<Rightarrow> nat \<Rightarrow> bytes list \<Rightarrow> string + bytes list"
  rs_reconstruct :: "nat \<Rightarrow> nat \<Rightarrow> bytes option list \<Rightarrow> string + bytes option list"

section \<open>Documented behaviour\<close>

text \<open>\<open>blake3::hash\<close> and the Argon2id derivation used here return 32 bytes.\<close>

definition blake3_ok :: "ext \<Rightarrow> bool" where
  "blake3_ok E \<longleftrightarrow> (\<forall>x. length (blake3 E x) = 32)"

definition argon2_ok :: "ext \<Rightarrow> bool" where
  "argon2_ok E \<longleftrightarrow> (\<forall>p s. length (argon2id E p s) = 32)"

text \<open>\<open>hex::encode\<close> writes two lower-case digits per byte; \<open>hex::decode\<close> accepts exactly the
  even-length strings of hexadecimal digits, in either case, and inverts it.\<close>

definition hex_ok :: "ext \<Rightarrow> bool" where
  "hex_ok E \<longleftrightarrow>
     (\<forall>b. length (hex_encode E b) = 2 * length b \<and> list_all is_lower_hex (hex_encode E b)
        \<and> hex_decode E (hex_encode E b) = Some b)
   \<and> (\<forall>s. (hex_decode E s \<noteq> None) = (even (length s) \<and> list_all is_hexdigit s))
   \<and> (\<forall>s b. hex_decode E s = Some b \<longrightarrow> hex_encode E b = map ascii_lower s)"

text \<open>ChaCha20-Poly1305: with a 32-byte key and a 12-byte nonce, any message up to the
  documented limit is sealed into a ciphertext 16 bytes longer, which opens to the message.\<close>

definition aead_max :: nat where
  "aead_max = 274877906880"

definition aead_ok :: "ext \<Rightarrow> bool" where
  "aead_ok E \<longleftrightarrow> (\<forall>k n m. length k = 32 \<longrightarrow> length n = 12 \<longrightarrow> length m \<le> aead_max \<longrightarrow>
     (\<exists>c. aead_seal E k n m = Inr c \<and> aead_open E k n c = Inr m \<and> length c = length m + 16))"

text \<open>Opening is authenticated: only what sealing the plaintext would produce opens.\<close>

definition aead_auth :: "ext \<Rightarrow> bool" where
  "aead_auth E \<longleftrightarrow> (\<forall>k n c m. length k = 32 \<longrightarrow> length n = 12 \<longrightarrow>
     aead_open E k n c = Inr m \<longrightarrow> aead_seal E k n m = Inr c)"

text \<open>Ed25519: keys are 32 bytes, signatures 64, and a signature verifies under its key.\<close>

definition ed25519_ok :: "ext \<Rightarrow> bool" where
  "ed25519_ok E \<longleftrightarrow> (\<forall>s m. length s = 32 \<longrightarrow>
     length (ed_public E s) = 32 \<and> ed_point_ok E (ed_public E s) \<and>
     length (ed_sign E s m) = 64 \<and> ed_verify E (ed_public E s) m (ed_sign E s m))"

text \<open>The Reed-Solomon codec for one choice of counts: it can be built, encoding keeps the data
  shards and their size, and any \<open>d\<close> surviving shards of a codeword determine the rest.\<close>

definition same_size :: "nat \<Rightarrow> bytes list \<Rightarrow> bool" where
  "same_size n xs \<longleftrightarrow> (\<forall>x\<in>set xs. length x = n)"

definition survivors :: "bytes list \<Rightarrow> bytes option list \<Rightarrow> bool" where
  "survivors ys zs \<longleftrightarrow> list_all2 (\<lambda>y z. z = None \<or> z = Some y) ys zs"

definition present :: "'a option list \<Rightarrow> nat" where
  "present zs = length (filter (\<lambda>z. z \<noteq> None) zs)"

definition rs_ok :: "ext \<Rightarrow> nat \<Rightarrow> nat \<Rightarrow> bool" where
  "rs_ok E d p \<longleftrightarrow> rs_new E d p = Inr () \<and>
     (\<forall>n xs. 0 < n \<longrightarrow> length xs = d + p \<longrightarrow> same_size n xs \<longrightarrow>
        (\<exists>ys. rs_encode E d p xs = Inr ys \<and> length ys = d + p \<and> same_size n ys \<and> take d ys = take d xs \<and>
           (\<forall>zs. survivors ys zs \<longrightarrow> d \<le> present zs \<longrightarrow> rs_reconstruct E d p zs = Inr (map Some ys))))"

section \<open>Consequences used throughout\<close>

lemma blake3_len: "blake3_ok E \<Longrightarrow> length (blake3 E x) = 32"
  by (simp add: blake3_ok_def)

lemma hex_decode_encode: "hex_ok E \<Longrightarrow> hex_decode E (hex_encode E b) = Some b"
  by (simp add: hex_ok_def)

lemma hex_encode_len: "hex_ok E \<Longrightarrow> length (hex_encode E b) = 2 * length b"
  by (simp add: hex_ok_def)

lemma hex_encode_lower: "hex_ok E \<Longrightarrow> list_all is_lower_hex (hex_encode E b)"
  by (simp add: hex_ok_def)

lemma hex_encode_hexdigits: "hex_ok E \<Longrightarrow> list_all is_hexdigit (hex_encode E b)"
  using hex_encode_lower[of E b] by (auto simp: list_all_iff is_lower_hex_hexdigit)

lemma hex_encode_inj: "hex_ok E \<Longrightarrow> hex_encode E a = hex_encode E b \<longleftrightarrow> a = b"
  by (metis hex_decode_encode option.inject)

lemma hex_decode_Some_encode: "hex_ok E \<Longrightarrow> hex_decode E s = Some b \<Longrightarrow> hex_encode E b = map ascii_lower s"
  by (simp add: hex_ok_def)

lemma hex_decode_ex: "hex_ok E \<Longrightarrow> even (length s) \<Longrightarrow> list_all is_hexdigit s \<Longrightarrow> \<exists>b. hex_decode E s = Some b"
  by (auto simp: hex_ok_def)

lemma hex_decode_len: "hex_ok E \<Longrightarrow> hex_decode E s = Some b \<Longrightarrow> length s = 2 * length b"
  by (metis hex_decode_Some_encode hex_encode_len length_map)

lemma aead_seal_ok:
  assumes "aead_ok E" "length k = 32" "length n = 12" "length m \<le> aead_max"
  obtains c where "aead_seal E k n m = Inr c" "aead_open E k n c = Inr m" "length c = length m + 16"
  using assms unfolding aead_ok_def by blast

lemma rs_ok_new: "rs_ok E d p \<Longrightarrow> rs_new E d p = Inr ()"
  by (simp add: rs_ok_def)

lemma rs_ok_encode:
  assumes "rs_ok E d p" "0 < n" "length xs = d + p" "same_size n xs"
  obtains ys where "rs_encode E d p xs = Inr ys" "length ys = d + p" "same_size n ys" "take d ys = take d xs"
    "\<forall>zs. survivors ys zs \<longrightarrow> d \<le> present zs \<longrightarrow> rs_reconstruct E d p zs = Inr (map Some ys)"
  using assms unfolding rs_ok_def by blast

lemma survivors_length: "survivors ys zs \<Longrightarrow> length zs = length ys"
  by (simp add: survivors_def list_all2_lengthD)

lemma survivors_map_Some: "survivors ys (map Some ys)"
  by (simp add: survivors_def list_all2_conv_all_nth)

lemma present_map_Some: "present (map Some ys) = length ys"
  by (simp add: present_def)

end
