(* ===== verification/Externals_Model.thy ===== *)
theory Externals_Model
  imports Externals
begin

unbundle bit_operations_syntax

text \<open>
  One concrete instance of the library record, on which every documented behaviour of the
  theory \<open>Externals\<close> holds at once.  Witnesses evaluate the model on it.  It is not a model
  of the crates: its digest is a truncation and its cipher the identity with a zero tag.  The
  erasure code, however, is a genuine three-plus-two MDS code (two parities over GF(4), four
  field elements to a byte pair of nibbles), so that the losses the program tolerates can be
  exhibited.
\<close>

section \<open>Digest, cipher, signature\<close>

definition toy_blake3 :: "bytes \<Rightarrow> bytes" where
  "toy_blake3 x = take 32 (x @ replicate 32 0)"

definition toy_seal :: "bytes \<Rightarrow> bytes \<Rightarrow> bytes \<Rightarrow> string + bytes" where
  "toy_seal k n m = Inr (m @ replicate 16 0)"

definition toy_open :: "bytes \<Rightarrow> bytes \<Rightarrow> bytes \<Rightarrow> string + bytes" where
  "toy_open k n c =
     (if 16 \<le> length c \<and> drop (length c - 16) c = replicate 16 0
      then Inr (take (length c - 16) c) else Inl ''aead::Error'')"

definition toy_pad :: "nat \<Rightarrow> bytes \<Rightarrow> bytes" where
  "toy_pad n m = take n (m @ replicate n 0)"

definition toy_verify :: "bytes \<Rightarrow> bytes \<Rightarrow> bytes \<Rightarrow> bool" where
  "toy_verify k m s = (s = toy_pad 64 m)"

section \<open>Hexadecimal\<close>

definition hex_char :: "nat \<Rightarrow> char" where
  "hex_char n = (if n < 10 then char_of (48 + n) else char_of (87 + n))"

definition hex_val :: "char \<Rightarrow> nat option" where
  "hex_val c = (let n = (of_char c :: nat) in
     if 48 \<le> n \<and> n \<le> 57 then Some (n - 48)
     else if 65 \<le> n \<and> n \<le> 70 then Some (n - 55)
     else if 97 \<le> n \<and> n \<le> 102 then Some (n - 87)
     else None)"

fun toy_hex_encode :: "bytes \<Rightarrow> string" where
  "toy_hex_encode [] = []"
| "toy_hex_encode (b # bs) = hex_char (unat b div 16) # hex_char (unat b mod 16) # toy_hex_encode bs"

fun toy_hex_decode :: "string \<Rightarrow> bytes option" where
  "toy_hex_decode [] = Some []"
| "toy_hex_decode [c] = None"
| "toy_hex_decode (c # d # s) =
     (case (hex_val c, hex_val d, toy_hex_decode s) of
        (Some h, Some l, Some bs) \<Rightarrow> Some (word_of_nat (16 * h + l) # bs)
      | _ \<Rightarrow> None)"

lemma of_char_hex_char: "n < 16 \<Longrightarrow> (of_char (hex_char n) :: nat) = (if n < 10 then 48 + n else 87 + n)"
  by (auto simp: hex_char_def of_char_of)

lemma hex_val_char: "n < 16 \<Longrightarrow> hex_val (hex_char n) = Some n"
  by (simp add: hex_val_def of_char_hex_char Let_def)

lemma hex_char_lower: "n < 16 \<Longrightarrow> is_lower_hex (hex_char n)"
  by (simp add: is_lower_hex_def of_char_hex_char Let_def)

lemma hex_val_hexdigit: "(hex_val c \<noteq> None) = is_hexdigit c"
  by (auto simp: hex_val_def is_hexdigit_def Let_def)

lemma hex_val_lt: "hex_val c = Some n \<Longrightarrow> n < 16"
  by (auto simp: hex_val_def Let_def split: if_splits)

lemma hex_char_val: "hex_val c = Some n \<Longrightarrow> hex_char n = ascii_lower c"
  by (auto simp: hex_val_def hex_char_def ascii_lower_def Let_def split: if_splits)

lemma unat_byte_lt: "unat (b :: byte) < 256"
  using unsigned_less[of b] by simp

lemma unat_byte_of_nat: "n < 256 \<Longrightarrow> unat (word_of_nat n :: byte) = n"
  by (simp add: unat_of_nat)

lemma toy_hex_lower: "list_all is_lower_hex (toy_hex_encode b)"
proof (induction b)
  case (Cons x b)
  have "unat x div 16 < 16" using unat_byte_lt[of x] by linarith
  with Cons show ?case by (simp add: hex_char_lower)
qed simp

lemma toy_hex_roundtrip: "toy_hex_decode (toy_hex_encode b) = Some b"
proof (induction b)
  case (Cons x b)
  have "unat x div 16 < 16" using unat_byte_lt[of x] by linarith
  with Cons show ?case by (simp add: hex_val_char)
qed simp

lemma toy_hex_len: "length (toy_hex_encode b) = 2 * length b"
  by (induction b) auto

lemma toy_hex_dom: "(toy_hex_decode s \<noteq> None) = (even (length s) \<and> list_all is_hexdigit s)"
  by (induction s rule: toy_hex_decode.induct)
    (auto simp: hex_val_hexdigit[symmetric] split: option.splits)

lemma toy_hex_decode_encode: "toy_hex_decode s = Some b \<Longrightarrow> toy_hex_encode b = map ascii_lower s"
proof (induction s arbitrary: b rule: toy_hex_decode.induct)
  case (3 c d s)
  then obtain h l bs where hl: "hex_val c = Some h" "hex_val d = Some l" "toy_hex_decode s = Some bs"
    and b: "b = word_of_nat (16 * h + l) # bs"
    by (auto split: option.splits)
  have lt: "h < 16" "l < 16" using hl hex_val_lt by auto
  then have u: "unat (word_of_nat (16 * h + l) :: byte) = 16 * h + l"
    by (intro unat_byte_of_nat) simp
  have "toy_hex_encode bs = map ascii_lower s"
    using "3.IH" hl by blast
  moreover have "(16 * h + l) div 16 = h" "(16 * h + l) mod 16 = l" using lt by simp_all
  ultimately show ?case
    unfolding b using hl by (simp add: u hex_char_val del: of_nat_add of_nat_mult)
qed simp_all

section \<open>A three-plus-two erasure code\<close>

text \<open>Multiplication by the generator of GF(4), on the two nibbles of a byte.\<close>

definition mulw :: "byte \<Rightarrow> byte" where
  "mulw b = push_bit 4 (b XOR drop_bit 4 b) OR drop_bit 4 b"

definition vxor :: "bytes \<Rightarrow> bytes \<Rightarrow> bytes" where
  "vxor = map2 (\<lambda>x y. x XOR y)"

definition vmul :: "bytes \<Rightarrow> bytes" where
  "vmul = map mulw"

definition parity_p :: "bytes \<Rightarrow> bytes \<Rightarrow> bytes \<Rightarrow> bytes" where
  "parity_p a b c = vxor a (vxor b c)"

definition parity_q :: "bytes \<Rightarrow> bytes \<Rightarrow> bytes \<Rightarrow> bytes" where
  "parity_q a b c = vxor a (vxor (vmul b) (vmul (vmul c)))"

definition toy_rs_new :: "nat \<Rightarrow> nat \<Rightarrow> string + unit" where
  "toy_rs_new d p = (if d = 3 \<and> p = 2 then Inr () else Inl ''unsupported shard counts'')"

fun toy_rs_encode :: "nat \<Rightarrow> nat \<Rightarrow> bytes list \<Rightarrow> string + bytes list" where
  "toy_rs_encode d p [a, b, c, x, y] = Inr [a, b, c, parity_p a b c, parity_q a b c]"
| "toy_rs_encode d p xs = Inl ''wrong number of shards''"

fun toy_data :: "bytes option list \<Rightarrow> (bytes \<times> bytes \<times> bytes) option" where
  "toy_data [Some a, Some b, Some c, p, q] = Some (a, b, c)"
| "toy_data [Some a, Some b, None, Some p, q] = Some (a, b, vxor p (vxor a b))"
| "toy_data [Some a, None, Some c, Some p, q] = Some (a, vxor p (vxor a c), c)"
| "toy_data [None, Some b, Some c, Some p, q] = Some (vxor p (vxor b c), b, c)"
| "toy_data [Some a, Some b, None, None, Some q] = Some (a, b, vmul (vxor q (vxor a (vmul b))))"
| "toy_data [Some a, None, Some c, None, Some q] =
     Some (a, vmul (vmul (vxor q (vxor a (vmul (vmul c))))), c)"
| "toy_data [None, Some b, Some c, None, Some q] = Some (vxor q (vxor (vmul b) (vmul (vmul c))), b, c)"
| "toy_data [None, None, Some c, Some p, Some q] =
     (let s = vxor p c; t = vxor q (vmul (vmul c)); b = vmul (vxor s t) in Some (vxor s b, b, c))"
| "toy_data [None, Some b, None, Some p, Some q] =
     (let s = vxor p b; t = vxor q (vmul b); c = vmul (vmul (vxor s t)) in Some (vxor s c, b, c))"
| "toy_data [Some a, None, None, Some p, Some q] =
     (let s = vxor p a; t = vxor q a; c = vmul (vxor s (vmul (vmul t))) in Some (a, vxor s c, c))"
| "toy_data zs = None"

definition toy_rs_reconstruct :: "nat \<Rightarrow> nat \<Rightarrow> bytes option list \<Rightarrow> string + bytes option list" where
  "toy_rs_reconstruct d p zs =
     (case toy_data zs of
        None \<Rightarrow> Inl ''too few shards present''
      | Some (a, b, c) \<Rightarrow> Inr (map Some [a, b, c, parity_p a b c, parity_q a b c]))"

lemma bit_mulw: "bit (mulw b) n = (if n < 4 then bit b (n + 4) else n < 8 \<and> (bit b (n - 4) \<noteq> bit b n))"
proof -
  have hi: "bit b m \<Longrightarrow> m < 8" for m using bit_imp_le_length[of b m] by simp
  show ?thesis
    by (auto simp: mulw_def bit_or_iff bit_push_bit_iff bit_xor_iff bit_drop_bit_eq add.commute
        dest: hi)
qed

lemma mulw_xor: "mulw (a XOR b) = mulw a XOR mulw b"
  by (rule bit_word_eqI) (auto simp: bit_mulw bit_xor_iff)

lemma mulw_mulw: "mulw (mulw a) = mulw a XOR a"
proof (rule bit_word_eqI)
  fix n assume "n < LENGTH(8)"
  then show "bit (mulw (mulw a)) n \<longleftrightarrow> bit (mulw a XOR a) n"
    by (cases "n < 4") (auto simp: bit_mulw bit_xor_iff)
qed

lemma xor_cancel_left: "(a :: byte) XOR (a XOR b) = b"
  by (simp add: xor.assoc[symmetric])

lemmas xor_ac = xor.assoc xor.commute xor.left_commute xor_cancel_left

lemma length_vxor [simp]: "length (vxor a b) = min (length a) (length b)"
  by (simp add: vxor_def)

lemma length_vmul [simp]: "length (vmul a) = length a"
  by (simp add: vmul_def)

lemma nth_vxor [simp]: "i < length a \<Longrightarrow> i < length b \<Longrightarrow> vxor a b ! i = a ! i XOR b ! i"
  by (simp add: vxor_def)

lemma nth_vmul [simp]: "i < length a \<Longrightarrow> vmul a ! i = mulw (a ! i)"
  by (simp add: vmul_def)

lemma vec_eqI: "length x = n \<Longrightarrow> length y = n \<Longrightarrow> (\<And>i. i < n \<Longrightarrow> x ! i = y ! i) \<Longrightarrow> x = (y :: bytes)"
  by (metis nth_equalityI)

lemmas code_simps = parity_p_def parity_q_def mulw_xor mulw_mulw xor_ac

text \<open>The nine recovery equations: one lost data shard through either parity, two through both.\<close>

lemma recover_one:
  assumes "length a = n" "length b = n" "length c = n"
  shows "vxor (parity_p a b c) (vxor a b) = c" "vxor (parity_p a b c) (vxor a c) = b"
    "vxor (parity_p a b c) (vxor b c) = a"
    "vmul (vxor (parity_q a b c) (vxor a (vmul b))) = c"
    "vmul (vmul (vxor (parity_q a b c) (vxor a (vmul (vmul c))))) = b"
    "vxor (parity_q a b c) (vxor (vmul b) (vmul (vmul c))) = a"
  by (rule vec_eqI[of _ n]; simp add: assms code_simps)+

lemma recover_two:
  assumes "length a = n" "length b = n" "length c = n"
  shows "vmul (vxor (vxor (parity_p a b c) c) (vxor (parity_q a b c) (vmul (vmul c)))) = b"
    "vmul (vmul (vxor (vxor (parity_p a b c) b) (vxor (parity_q a b c) (vmul b)))) = c"
    "vmul (vxor (vxor (parity_p a b c) a) (vmul (vmul (vxor (parity_q a b c) a)))) = c"
    "vxor (vxor (parity_p a b c) c) b = a" "vxor (vxor (parity_p a b c) b) c = a"
    "vxor (vxor (parity_p a b c) a) c = b"
  by (rule vec_eqI[of _ n]; simp add: assms code_simps)+

lemma toy_data_survivors:
  assumes "length a = n" "length b = n" "length c = n"
    and "survivors [a, b, c, parity_p a b c, parity_q a b c] zs" and "3 \<le> present zs"
  shows "toy_data zs = Some (a, b, c)"
proof -
  obtain z1 z2 z3 z4 z5 where zs: "zs = [z1, z2, z3, z4, z5]"
    and z: "z1 = None \<or> z1 = Some a" "z2 = None \<or> z2 = Some b" "z3 = None \<or> z3 = Some c"
      "z4 = None \<or> z4 = Some (parity_p a b c)" "z5 = None \<or> z5 = Some (parity_q a b c)"
    using assms(4) by (auto simp: survivors_def list_all2_Cons1)
  show ?thesis
    using z assms(5) unfolding zs present_def
    by (elim disjE) (simp_all add: Let_def recover_one[OF assms(1-3)] recover_two[OF assms(1-3)])
qed

lemma toy_rs_ok:
  assumes "rs_new E 3 2 = toy_rs_new 3 2" "rs_encode E 3 2 = toy_rs_encode 3 2"
    "rs_reconstruct E 3 2 = toy_rs_reconstruct 3 2"
  shows "rs_ok E 3 2"
proof -
  have "\<exists>ys. toy_rs_encode 3 2 xs = Inr ys \<and> length ys = 5 \<and> same_size n ys \<and> take 3 ys = take 3 xs \<and>
      (\<forall>zs. survivors ys zs \<longrightarrow> 3 \<le> present zs \<longrightarrow> toy_rs_reconstruct 3 2 zs = Inr (map Some ys))"
    if len: "length xs = 5" and size: "same_size n xs" for n xs
  proof -
    obtain a b c x y where xs: "xs = [a, b, c, x, y]"
      using len by (auto simp: numeral_eq_Suc length_Suc_conv)
    have l: "length a = n" "length b = n" "length c = n"
      using size unfolding xs same_size_def by simp_all
    then have "same_size n [a, b, c, parity_p a b c, parity_q a b c]"
      by (simp add: same_size_def parity_p_def parity_q_def)
    then show ?thesis
      unfolding xs using toy_data_survivors[OF l] by (simp add: toy_rs_reconstruct_def)
  qed
  then show ?thesis
    unfolding rs_ok_def by (simp add: assms toy_rs_new_def)
qed

section \<open>The instance\<close>

definition toy_ext :: ext where
  "toy_ext = \<lparr> blake3 = toy_blake3, hex_encode = toy_hex_encode, hex_decode = toy_hex_decode,
     aead_seal = toy_seal, aead_open = toy_open,
     ed_public = toy_pad 32, ed_sign = (\<lambda>s m. toy_pad 64 m), ed_point_ok = (\<lambda>k. True), ed_verify = toy_verify,
     argon2id = (\<lambda>p s. toy_blake3 (p @ s)),
     rs_new = toy_rs_new, rs_encode = toy_rs_encode, rs_reconstruct = toy_rs_reconstruct \<rparr>"

lemma toy_blake3_ok [simp]: "blake3_ok toy_ext"
  by (auto simp: blake3_ok_def toy_ext_def toy_blake3_def min_def)

lemma toy_argon2_ok [simp]: "argon2_ok toy_ext"
  by (auto simp: argon2_ok_def toy_ext_def toy_blake3_def min_def)

lemma toy_hex_ok [simp]: "hex_ok toy_ext"
  unfolding hex_ok_def toy_ext_def
  by (simp add: toy_hex_len toy_hex_lower toy_hex_roundtrip toy_hex_dom[simplified] toy_hex_decode_encode)

lemma toy_aead_ok [simp]: "aead_ok toy_ext"
  by (simp add: aead_ok_def toy_ext_def toy_seal_def toy_open_def)

lemma toy_aead_auth [simp]: "aead_auth toy_ext"
  by (auto simp: aead_auth_def toy_ext_def toy_seal_def toy_open_def split: if_splits)
    (metis append_take_drop_id)

lemma toy_ed25519_ok [simp]: "ed25519_ok toy_ext"
  by (auto simp: ed25519_ok_def toy_ext_def toy_verify_def toy_pad_def min_def)

lemma toy_ext_rs_ok [simp]: "rs_ok toy_ext 3 2"
  by (rule toy_rs_ok) (simp_all add: toy_ext_def)

end
