(* ===== verification/Encryption.thy ===== *)
theory Encryption
  imports Externals_Model
begin

text \<open>
  \<open>np2p/src/storage/encryption.rs\<close>: ChaCha20-Poly1305 with a nonce derived from the key, the
  caller's context and the content.  The interface the rest of the program uses, a sealed
  envelope that opens to what was sealed, is the locale \<open>envelope\<close>.
\<close>

section \<open>The interface\<close>

locale envelope =
  fixes usable :: "ext \<Rightarrow> bool"
    and fits :: "bytes \<Rightarrow> bytes \<Rightarrow> bool"
    and seal :: "ext \<Rightarrow> bytes \<Rightarrow> bytes \<Rightarrow> bytes \<Rightarrow> bytes result"
    and unseal :: "ext \<Rightarrow> bytes \<Rightarrow> bytes \<Rightarrow> bytes result"
  assumes seal_total: "usable E \<Longrightarrow> fits data key \<Longrightarrow> \<exists>c. seal E data key ctx = Ok c \<and> c \<noteq> []"
    and unseal_seal: "usable E \<Longrightarrow> fits data key \<Longrightarrow> seal E data key ctx = Ok c \<Longrightarrow> unseal E c key = Ok data"
begin

lemma sealed_determines_data:
  assumes "usable E" "fits d1 key" "fits d2 key" "seal E d1 key c1 = Ok c" "seal E d2 key c2 = Ok c"
  shows "d1 = d2"
  using unseal_seal[OF assms(1,2,4)] unseal_seal[OF assms(1,3,5)] by simp

end

section \<open>Operations\<close>

definition KEY_SIZE :: nat where "KEY_SIZE = 32"
definition NONCE_SIZE :: nat where "NONCE_SIZE = 12"

definition bad_key_size :: "bytes \<Rightarrow> np2p_error" where
  "bad_key_size key_bytes =
     Crypto (''Invalid key size: expected '' @ show_nat KEY_SIZE @ '', got '' @ show_nat (length key_bytes))"

definition derive_nonce :: "ext \<Rightarrow> bytes \<Rightarrow> bytes \<Rightarrow> bytes \<Rightarrow> bytes" where
  "derive_nonce E data key_bytes nonce_context =
     (let content_hash = blake3 E data;
          nonce_input = key_bytes @ nonce_context @ content_hash;
          nonce_hash = blake3 E nonce_input
      in take NONCE_SIZE nonce_hash)"

definition encrypt :: "ext \<Rightarrow> bytes \<Rightarrow> bytes \<Rightarrow> bytes \<Rightarrow> bytes result" where
  "encrypt E data key_bytes nonce_context =
     (if length key_bytes \<noteq> KEY_SIZE then Err (bad_key_size key_bytes)
      else let nonce_bytes = derive_nonce E data key_bytes nonce_context in
        bind_res
          (map_err (\<lambda>e. Crypto (''Encryption failed: '' @ e)) (aead_seal E key_bytes nonce_bytes data))
          (\<lambda>ciphertext. Ok (nonce_bytes @ ciphertext)))"

definition decrypt :: "ext \<Rightarrow> bytes \<Rightarrow> bytes \<Rightarrow> bytes result" where
  "decrypt E encrypted_data key_bytes =
     (if length key_bytes \<noteq> KEY_SIZE then Err (bad_key_size key_bytes)
      else if length encrypted_data < NONCE_SIZE
      then Err (Crypto ''Encrypted data too short to contain a nonce'')
      else let nonce_bytes = take NONCE_SIZE encrypted_data;
               ciphertext = drop NONCE_SIZE encrypted_data
           in map_err (\<lambda>e. Crypto (''Decryption failed (likely invalid key or corrupted data): '' @ e))
                (aead_open E key_bytes nonce_bytes ciphertext))"

section \<open>Lemmas\<close>

definition sealable :: "bytes \<Rightarrow> bytes \<Rightarrow> bool" where
  "sealable data key_bytes \<longleftrightarrow> length key_bytes = KEY_SIZE \<and> length data \<le> aead_max"

definition cipher_ok :: "ext \<Rightarrow> bool" where
  "cipher_ok E \<longleftrightarrow> blake3_ok E \<and> aead_ok E"

lemma derive_nonce_length: "blake3_ok E \<Longrightarrow> length (derive_nonce E data key ctx) = 12"
  by (simp add: derive_nonce_def Let_def NONCE_SIZE_def blake3_len)

lemma encrypt_ok:
  assumes "cipher_ok E" "sealable data key"
  obtains c where "encrypt E data key ctx = Ok (derive_nonce E data key ctx @ c)"
    "aead_open E key (derive_nonce E data key ctx) c = Inr data" "length c = length data + 16"
proof -
  have "length (derive_nonce E data key ctx) = 12"
    using assms(1) by (simp add: cipher_ok_def derive_nonce_length)
  then obtain c where "aead_seal E key (derive_nonce E data key ctx) data = Inr c"
    "aead_open E key (derive_nonce E data key ctx) c = Inr data" "length c = length data + 16"
    using aead_seal_ok[of E key "derive_nonce E data key ctx" data] assms
    by (auto simp: cipher_ok_def sealable_def KEY_SIZE_def)
  then show thesis
    using that assms(2) by (simp add: encrypt_def sealable_def Let_def)
qed

lemma encrypt_length:
  assumes "cipher_ok E" "sealable data key" "encrypt E data key ctx = Ok c"
  shows "length c = length data + 28"
proof -
  obtain c' where "encrypt E data key ctx = Ok (derive_nonce E data key ctx @ c')" "length c' = length data + 16"
    by (rule encrypt_ok[OF assms(1,2), of ctx])
  then show ?thesis using assms(1,3) by (auto simp: cipher_ok_def derive_nonce_length)
qed

lemma decrypt_encrypt:
  assumes "cipher_ok E" "sealable data key" "encrypt E data key ctx = Ok c"
  shows "decrypt E c key = Ok data"
proof -
  obtain c' where "encrypt E data key ctx = Ok (derive_nonce E data key ctx @ c')"
    "aead_open E key (derive_nonce E data key ctx) c' = Inr data"
    by (rule encrypt_ok[OF assms(1,2), of ctx])
  moreover have "length (derive_nonce E data key ctx) = NONCE_SIZE"
    using assms(1) by (simp add: cipher_ok_def derive_nonce_length NONCE_SIZE_def)
  ultimately show ?thesis
    using assms(2,3) by (auto simp: decrypt_def sealable_def)
qed

lemma encrypt_nonce:
  assumes "blake3_ok E" "encrypt E data key ctx = Ok c"
  shows "take NONCE_SIZE c = derive_nonce E data key ctx" "length key = KEY_SIZE"
  using assms
  by (auto simp: encrypt_def Let_def NONCE_SIZE_def derive_nonce_length result_simps split: if_splits)

interpretation np2p_envelope: envelope cipher_ok sealable encrypt decrypt
proof (unfold_locales, goal_cases)
  case (1 E data key ctx)
  then show ?case
    using encrypt_ok[OF 1, of ctx] encrypt_length[OF 1, of ctx] by (metis add_is_0 length_0_conv zero_neq_numeral)
next
  case (2 E data key ctx c)
  then show ?case by (rule decrypt_encrypt)
qed

lemma toy_cipher_ok [simp]: "cipher_ok toy_ext"
  by (simp add: cipher_ok_def)

end
