(* ===== verification/Erasure.thy ===== *)
theory Erasure
  imports Externals_Model
begin

text \<open>
  \<open>np2p/src/storage/erasure.rs\<close>: padding, splitting and Reed-Solomon coding of one blob, and
  its reconstruction from the surviving shards.  The locale \<open>erasure_code\<close> is the contract
  the storage engine and the upload and restore paths rely on.
\<close>

section \<open>The interface\<close>

locale erasure_code =
  fixes usable :: "ext \<Rightarrow> nat \<Rightarrow> nat \<Rightarrow> bool"
    and split :: "ext \<Rightarrow> bytes \<Rightarrow> nat \<Rightarrow> nat \<Rightarrow> bytes list result"
    and join :: "ext \<Rightarrow> bytes option list \<Rightarrow> nat \<Rightarrow> nat \<Rightarrow> nat \<Rightarrow> bytes result"
  assumes split_total: "usable E d p \<Longrightarrow> 0 < d \<Longrightarrow> data \<noteq> [] \<Longrightarrow>
      \<exists>ys. split E data d p = Ok ys \<and> length ys = d + p"
    and join_split: "usable E d p \<Longrightarrow> split E data d p = Ok ys \<Longrightarrow> survivors ys zs \<Longrightarrow> d \<le> present zs \<Longrightarrow>
      join E zs (length data) d p = Ok data"
    and join_few: "length zs = d + p \<Longrightarrow> present zs < d \<Longrightarrow> \<exists>m. join E zs n d p = Err (ErasureCoding m)"
begin

lemma join_all:
  assumes "usable E d p" "split E data d p = Ok ys" "length ys = d + p"
  shows "join E (map Some ys) (length data) d p = Ok data"
  using join_split[OF assms(1,2) survivors_map_Some] assms(3) by (simp add: present_map_Some)

end

section \<open>Operations\<close>

definition DATA_SHARDS :: nat where "DATA_SHARDS = 3"
definition PARITY_SHARDS :: nat where "PARITY_SHARDS = 2"
definition TOTAL_SHARDS :: nat where "TOTAL_SHARDS = DATA_SHARDS + PARITY_SHARDS"

definition shard :: "ext \<Rightarrow> bytes \<Rightarrow> nat \<Rightarrow> nat \<Rightarrow> bytes list result" where
  "shard E data data_shards parity_shards =
     (if data = [] then Err (ErasureCoding ''Cannot shard empty data'')
      else if data_shards = 0 then Err (ErasureCoding ''Data shards count must be positive'')
      else bind_res
        (map_err (\<lambda>e. ErasureCoding (''Failed to initialize ReedSolomon: '' @ e)) (rs_new E data_shards parity_shards))
        (\<lambda>_. let shard_size = div_ceil (length data) data_shards;
                 total_data_size = shard_size * data_shards;
                 padded_data = resize total_data_size 0 data;
                 shards = chunks_exact shard_size padded_data @ replicate parity_shards (replicate shard_size 0)
             in map_err (\<lambda>e. ErasureCoding (''Encoding failed: '' @ e)) (rs_encode E data_shards parity_shards shards)))"

definition reconstruct :: "ext \<Rightarrow> bytes option list \<Rightarrow> nat \<Rightarrow> nat \<Rightarrow> nat \<Rightarrow> bytes result" where
  "reconstruct E shards original_size data_shards parity_shards =
     (let total_shards = data_shards + parity_shards in
      if length shards \<noteq> total_shards
      then Err (ErasureCoding (''Expected '' @ show_nat total_shards @ '' shards, got '' @ show_nat (length shards)))
      else let present_count = present shards in
      if present_count < data_shards
      then Err (ErasureCoding (''Not enough shards for reconstruction: need '' @ show_nat data_shards
                 @ '', got '' @ show_nat present_count))
      else bind_res
        (map_err (\<lambda>e. ErasureCoding (''Failed to initialize ReedSolomon: '' @ e)) (rs_new E data_shards parity_shards))
        (\<lambda>_. bind_res
          (map_err (\<lambda>e. ErasureCoding (''Reconstruction failed: '' @ e)) (rs_reconstruct E data_shards parity_shards shards))
          (\<lambda>shards. let result = concat (List.map_filter id (take data_shards shards))
                    in Ok (take original_size result))))"

section \<open>Lemmas\<close>

lemma map_filter_map_Some: "List.map_filter id (map Some xs) = xs"
  by (induction xs) (simp_all add: List.map_filter_simps)

text \<open>What \<open>shard\<close> hands to the encoder: exactly \<open>d + p\<close> equally long buffers, the first \<open>d\<close> of
  which are the padded data.\<close>

lemma shard_buffers:
  fixes data :: bytes and p :: nat
  assumes "data \<noteq> []" "0 < d"
  defines "s \<equiv> div_ceil (length data) d"
  defines "padded \<equiv> resize (s * d) 0 data"
  defines "bufs \<equiv> chunks_exact s padded @ replicate p (replicate s 0)"
  shows "0 < s" "length bufs = d + p" "same_size s bufs" "concat (take d bufs) = padded"
    "take (length data) padded = data"
proof -
  show s: "0 < s" using assms by (simp add: div_ceil_pos)
  have len: "length padded = d * s" by (simp add: padded_def)
  note ch = chunks_exact_props[OF s len]
  show "length bufs = d + p" using ch(1) by (simp add: bufs_def)
  show "same_size s bufs" using ch(3) by (auto simp: same_size_def bufs_def)
  show "concat (take d bufs) = padded" using ch(1,2) by (simp add: bufs_def)
  show "take (length data) padded = data"
    unfolding padded_def s_def by (rule take_resize) (rule div_ceil_ge[OF assms(2)])
qed

lemma shard_ok:
  assumes "rs_ok E d p" "0 < d" "data \<noteq> []"
  obtains ys where "shard E data d p = Ok ys" "length ys = d + p"
    "same_size (div_ceil (length data) d) ys"
    "take (length data) (concat (take d ys)) = data"
    "\<forall>zs. survivors ys zs \<longrightarrow> d \<le> present zs \<longrightarrow> rs_reconstruct E d p zs = Inr (map Some ys)"
proof -
  let ?s = "div_ceil (length data) d"
  let ?bufs = "chunks_exact ?s (resize (?s * d) 0 data) @ replicate p (replicate ?s 0)"
  note b = shard_buffers(1)[OF assms(3,2)] shard_buffers(2-4)[OF assms(3,2), where p = p]
    shard_buffers(5)[OF assms(3,2)]
  obtain ys where ys: "rs_encode E d p ?bufs = Inr ys" "length ys = d + p" "same_size ?s ys"
    "take d ys = take d ?bufs"
    "\<forall>zs. survivors ys zs \<longrightarrow> d \<le> present zs \<longrightarrow> rs_reconstruct E d p zs = Inr (map Some ys)"
    by (rule rs_ok_encode[OF assms(1) b(1) b(2) b(3)])
  have "shard E data d p = Ok ys"
    using assms(2,3) ys(1) by (simp add: shard_def Let_def rs_ok_new[OF assms(1)])
  then show thesis
    using that ys b(4,5) by metis
qed

lemma reconstruct_shard:
  assumes "rs_ok E d p" "shard E data d p = Ok ys" "survivors ys zs" "d \<le> present zs"
  shows "reconstruct E zs (length data) d p = Ok data"
proof -
  have pre: "data \<noteq> []" "0 < d" using assms(2) by (auto simp: shard_def split: if_splits)
  obtain ys' where "shard E data d p = Ok ys'" "length ys' = d + p"
    "take (length data) (concat (take d ys')) = data"
    "\<forall>zs. survivors ys' zs \<longrightarrow> d \<le> present zs \<longrightarrow> rs_reconstruct E d p zs = Inr (map Some ys')"
    using shard_ok[OF assms(1) pre(2,1)] by metis
  moreover from this assms(2) have "ys' = ys" by simp
  ultimately show ?thesis
    using assms survivors_length[OF assms(3)]
    by (simp add: reconstruct_def Let_def rs_ok_new take_map map_filter_map_Some)
qed

lemma reconstruct_few:
  assumes "length zs = d + p" "present zs < d"
  shows "reconstruct E zs n d p = Err (ErasureCoding (''Not enough shards for reconstruction: need ''
    @ show_nat d @ '', got '' @ show_nat (present zs)))"
  using assms by (simp add: reconstruct_def)

interpretation np2p_erasure: erasure_code rs_ok shard reconstruct
proof (unfold_locales, goal_cases)
  case (1 E d p data)
  then show ?case using shard_ok[OF 1] by metis
next
  case (2 E d p data ys zs)
  then show ?case by (rule reconstruct_shard)
next
  case (3 zs d p E n)
  then show ?case using reconstruct_few by blast
qed

end
