(* ===== verification/Engine.thy ===== *)
theory Engine
  imports Encryption Erasure
begin

text \<open>
  \<open>np2p/src/storage/mod.rs\<close>: \<open>StorageEngine\<close>, which encrypts and then shards a file, and
  reverses both.  Its correctness is proved once, in the locale \<open>backup_pipeline\<close>, from the
  two contracts of its parts.
\<close>

section \<open>The pipeline over any envelope and any erasure code\<close>

locale backup_pipeline = env: envelope usable fits seal unseal + code: erasure_code codec split join
  for usable fits seal unseal codec split join
begin

lemma pipeline_roundtrip:
  assumes "usable E" "codec E d p" "0 < d" "fits data key"
  shows "\<exists>c ys. seal E data key ctx = Ok c \<and> split E c d p = Ok ys \<and> length ys = d + p \<and>
     (\<forall>zs. survivors ys zs \<longrightarrow> d \<le> present zs \<longrightarrow>
        bind_res (join E zs (length c) d p) (\<lambda>e. unseal E e key) = Ok data)"
proof -
  obtain c where c: "seal E data key ctx = Ok c" "c \<noteq> []"
    using env.seal_total[OF assms(1,4)] by blast
  obtain ys where ys: "split E c d p = Ok ys" "length ys = d + p"
    using code.split_total[OF assms(2,3) c(2)] by blast
  show ?thesis
    using c ys code.join_split[OF assms(2) ys(1)] env.unseal_seal[OF assms(1,4) c(1)] by auto
qed

lemma pipeline_few:
  assumes "length zs = d + p" "present zs < d"
  shows "\<exists>m. bind_res (join E zs n d p) f = Err (ErasureCoding m)"
  using code.join_few[OF assms] by (metis bind_res.simps(1))

end

interpretation engine: backup_pipeline cipher_ok sealable encrypt decrypt rs_ok shard reconstruct
  by unfold_locales

section \<open>Operations\<close>

definition process_for_backup :: "ext \<Rightarrow> bytes \<Rightarrow> bytes \<Rightarrow> bytes \<Rightarrow> nat \<Rightarrow> nat \<Rightarrow> (bytes list \<times> nat) result" where
  "process_for_backup E data key nonce_context data_shards parity_shards =
     bind_res (encrypt E data key nonce_context) (\<lambda>encrypted.
       let encrypted_size = length encrypted in
       bind_res (shard E encrypted data_shards parity_shards) (\<lambda>shards.
         Ok (shards, encrypted_size)))"

definition restore_from_backup :: "ext \<Rightarrow> bytes option list \<Rightarrow> nat \<Rightarrow> bytes \<Rightarrow> nat \<Rightarrow> nat \<Rightarrow> bytes result" where
  "restore_from_backup E shards encrypted_size key data_shards parity_shards =
     bind_res (reconstruct E shards encrypted_size data_shards parity_shards) (\<lambda>encrypted.
       bind_res (decrypt E encrypted key) (\<lambda>plaintext. Ok plaintext))"

section \<open>Lemmas\<close>

lemma bind_res_Ok_right [simp]: "bind_res m Inr = m"
  by (cases m) simp_all

lemma process_for_backup_ok:
  assumes "cipher_ok E" "rs_ok E d p" "0 < d" "sealable data key"
  obtains ys where "process_for_backup E data key ctx d p = Ok (ys, length data + 28)" "length ys = d + p"
    "same_size (div_ceil (length data + 28) d) ys"
    "\<And>zs. survivors ys zs \<Longrightarrow> d \<le> present zs \<Longrightarrow>
       restore_from_backup E zs (length data + 28) key d p = Ok data"
proof -
  obtain c ys where c: "encrypt E data key ctx = Ok c" and ys: "shard E c d p = Ok ys" "length ys = d + p"
    and r: "\<And>zs. survivors ys zs \<Longrightarrow> d \<le> present zs \<Longrightarrow>
        bind_res (reconstruct E zs (length c) d p) (\<lambda>e. decrypt E e key) = Ok data"
    using engine.pipeline_roundtrip[OF assms, of ctx] by blast
  have len: "length c = length data + 28" using encrypt_length[OF assms(1,4) c] .
  then have "c \<noteq> []" by auto
  then have "same_size (div_ceil (length c) d) ys"
    using shard_ok[OF assms(2,3)] ys(1) by (metis Inr_inject)
  then show thesis
    using that[of ys] c ys r len by (simp add: process_for_backup_def restore_from_backup_def)
qed

section \<open>Properties\<close>

text \<open>C1. Backup and restore of a file are inverse under the loss of shards: for a 32-byte key and
  any data the cipher accepts, \<open>process_for_backup\<close> succeeds with \<open>d + p\<close> shards of equal size
  and the encrypted size, and from every selection of at least \<open>d\<close> of those shards
  \<open>restore_from_backup\<close> returns exactly the original data.\<close>

theorem backup_restore_roundtrip:
  assumes "cipher_ok E" "rs_ok E d p" "0 < d" "length key = 32" "length data \<le> aead_max"
  shows "\<exists>ys. process_for_backup E data key ctx d p = Ok (ys, length data + 28) \<and> length ys = d + p
     \<and> same_size (div_ceil (length data + 28) d) ys
     \<and> (\<forall>zs. survivors ys zs \<and> d \<le> present zs \<longrightarrow>
          restore_from_backup E zs (length data + 28) key d p = Ok data)"
proof -
  have "sealable data key" using assms(4,5) by (simp add: sealable_def KEY_SIZE_def)
  then show ?thesis using process_for_backup_ok[OF assms(1-3)] by metis
qed

theorem backup_restore_roundtrip_witness:
  "\<exists>ys. process_for_backup toy_ext [7, 8, 9] (replicate 32 1) [5] 3 2 = Ok (ys, 31) \<and> length ys = 5
     \<and> restore_from_backup toy_ext [None, Some (ys ! 1), None, Some (ys ! 3), Some (ys ! 4)] 31 (replicate 32 1) 3 2
       = Ok [7, 8, 9]"
proof -
  obtain ys where ys: "process_for_backup toy_ext [7, 8, 9] (replicate 32 1) [5] 3 2 = Ok (ys, 31)" "length ys = 5"
    "\<And>zs. survivors ys zs \<and> 3 \<le> present zs \<Longrightarrow> restore_from_backup toy_ext zs 31 (replicate 32 1) 3 2 = Ok [7, 8, 9]"
    using backup_restore_roundtrip[of toy_ext 3 2 "replicate 32 1" "[7, 8, 9]" "[5]"] by (auto simp: aead_max_def)
  obtain a b c e f where "ys = [a, b, c, e, f]"
    using ys(2) by (auto simp: numeral_eq_Suc length_Suc_conv)
  then have "survivors ys [None, Some (ys ! 1), None, Some (ys ! 3), Some (ys ! 4)]
      \<and> 3 \<le> present [None, Some (ys ! 1), None, Some (ys ! 3), Some (ys ! 4)]"
    by (simp add: survivors_def present_def)
  with ys show ?thesis by blast
qed

text \<open>Restoring fails cleanly when the shards do not suffice: a vector of the wrong length, or
  fewer than \<open>d\<close> shards present, is answered with the erasure-coding error that names the
  numbers, before the codec is consulted and whatever it would do.\<close>

theorem restore_rejects_insufficient:
  "(length zs \<noteq> d + p \<longrightarrow> restore_from_backup E zs n key d p =
      Err (ErasureCoding (''Expected '' @ show_nat (d + p) @ '' shards, got '' @ show_nat (length zs))))
   \<and> (length zs = d + p \<and> present zs < d \<longrightarrow> restore_from_backup E zs n key d p =
      Err (ErasureCoding (''Not enough shards for reconstruction: need '' @ show_nat d @ '', got '' @ show_nat (present zs))))"
  by (auto simp: restore_from_backup_def reconstruct_few reconstruct_def)

theorem restore_rejects_insufficient_witness:
  "restore_from_backup toy_ext [Some [1], None, None, Some [2], None] 3 [] 3 2 =
      Err (ErasureCoding ''Not enough shards for reconstruction: need 3, got 2'')
   \<and> restore_from_backup toy_ext [Some [1]] 3 [] 3 2 = Err (ErasureCoding ''Expected 5 shards, got 1'')"
  using restore_rejects_insufficient[of "[Some [1], None, None, Some [2], None]" 3 2 toy_ext 3 "[]"]
    restore_rejects_insufficient[of "[Some [1]]" 3 2 toy_ext 3 "[]"]
  by (simp add: present_def show_nat.simps std_simps numeral_2_eq_2[symmetric])

text \<open>A repeated nonce is a hash collision: if two different plaintexts encrypted under one
  key and one context come out with the same nonce, then BLAKE3 collides on the plaintexts or its
  12-byte prefix collides on two different nonce inputs.  So the catastrophic case for
  ChaCha20-Poly1305 is reduced to the collision resistance of the hash.\<close>

theorem nonce_reuse_is_collision:
  assumes "blake3_ok E" "encrypt E d1 key ctx = Ok c1" "encrypt E d2 key ctx = Ok c2"
    and "d1 \<noteq> d2" "take NONCE_SIZE c1 = take NONCE_SIZE c2"
  shows "blake3 E d1 = blake3 E d2
     \<or> (\<exists>x y. x \<noteq> y \<and> take 12 (blake3 E x) = take 12 (blake3 E y) \<and>
          x = key @ ctx @ blake3 E d1 \<and> y = key @ ctx @ blake3 E d2)"
proof -
  have "derive_nonce E d1 key ctx = derive_nonce E d2 key ctx"
    using encrypt_nonce(1)[OF assms(1,2)] encrypt_nonce(1)[OF assms(1,3)] assms(5) by simp
  then show ?thesis by (auto simp: derive_nonce_def Let_def NONCE_SIZE_def)
qed

theorem nonce_reuse_is_collision_witness:
  "blake3 toy_ext [1] = blake3 toy_ext [2]
     \<or> (\<exists>x y. x \<noteq> y \<and> take 12 (blake3 toy_ext x) = take 12 (blake3 toy_ext y) \<and>
          x = replicate 32 0 @ [] @ blake3 toy_ext [1] \<and> y = replicate 32 0 @ [] @ blake3 toy_ext [2])"
proof (rule nonce_reuse_is_collision)
  show "blake3_ok toy_ext" by simp
  show "encrypt toy_ext [1] (replicate 32 0) [] = Ok (replicate 12 0 @ [1] @ replicate 16 0)"
    "encrypt toy_ext [2] (replicate 32 0) [] = Ok (replicate 12 0 @ [2] @ replicate 16 0)"
    by (simp_all add: encrypt_def derive_nonce_def Let_def KEY_SIZE_def NONCE_SIZE_def toy_ext_def
        toy_blake3_def toy_seal_def)
qed (simp_all add: NONCE_SIZE_def)

end
