(* ===== verification/Disk.thy ===== *)
theory Disk
  imports Externals_Model "HOL-Library.AList"
begin

text \<open>
  \<open>np2p/src/storage/disk.rs\<close>: \<open>DiskStorage\<close>, the node-local store of shards.  The file system
  below \<open>base_path\<close> is a list of files keyed by directory and name; the operations of
  \<open>DiskStorage\<close> are written over the individual file-system calls they make, each of which may
  fail (the fault function of the environment), so that every \<open>?\<close> of the source is a branch.
  Abstractly the store is a map from shard hashes to contents; the locale \<open>shard_store\<close> is that
  contract, and \<open>crash_reach\<close> describes what a crash in the middle of an operation leaves.
\<close>

section \<open>The file system\<close>

type_synonym path = "string \<times> string"

record dfile =
  fcontent :: bytes
  fsynced :: bool
  fmtime :: nat

record fs =
  fs_entries :: "(path \<times> dfile) list"
  fs_dirs :: "string list"

datatype fs_op =
    MkDir string
  | CreateF path
  | AppendF path bytes
  | SyncF path
  | RenameF path path
  | RemoveF path
  | OpenF path
  | WriteF path bytes

definition lookup :: "fs \<Rightarrow> path \<Rightarrow> dfile option" where
  "lookup f p = map_of (fs_entries f) p"

definition put_file :: "fs \<Rightarrow> path \<Rightarrow> dfile \<Rightarrow> fs" where
  "put_file f p x = f\<lparr>fs_entries := AList.update p x (fs_entries f)\<rparr>"

definition drop_file :: "fs \<Rightarrow> path \<Rightarrow> fs" where
  "drop_file f p = f\<lparr>fs_entries := AList.delete p (fs_entries f)\<rparr>"

definition enoent :: string where
  "enoent = ''No such file or directory (os error 2)''"

definition dir_exists :: "fs \<Rightarrow> string \<Rightarrow> bool" where
  "dir_exists f d = (d \<in> set (fs_dirs f))"

text \<open>The effect of one call, at time \<open>t\<close>, when the operating system does not fail it.\<close>

fun exec :: "nat \<Rightarrow> fs \<Rightarrow> fs_op \<Rightarrow> string + fs" where
  "exec t f (MkDir d) = Inr (f\<lparr>fs_dirs := List.insert d (fs_dirs f)\<rparr>)"
| "exec t f (CreateF p) =
     (if dir_exists f (fst p) then Inr (put_file f p \<lparr>fcontent = [], fsynced = False, fmtime = t\<rparr>) else Inl enoent)"
| "exec t f (AppendF p bs) =
     (if dir_exists f (fst p)
      then Inr (put_file f p (case lookup f p of
                  None \<Rightarrow> \<lparr>fcontent = bs, fsynced = False, fmtime = t\<rparr>
                | Some x \<Rightarrow> \<lparr>fcontent = fcontent x @ bs, fsynced = False, fmtime = t\<rparr>))
      else Inl enoent)"
| "exec t f (SyncF p) =
     (case lookup f p of None \<Rightarrow> Inl enoent | Some x \<Rightarrow> Inr (put_file f p (x\<lparr>fsynced := True\<rparr>)))"
| "exec t f (RenameF p q) =
     (case lookup f p of
        None \<Rightarrow> Inl enoent
      | Some x \<Rightarrow> if dir_exists f (fst q) then Inr (put_file (drop_file f p) q x) else Inl enoent)"
| "exec t f (RemoveF p) = (case lookup f p of None \<Rightarrow> Inl enoent | Some x \<Rightarrow> Inr (drop_file f p))"
| "exec t f (OpenF p) = (case lookup f p of None \<Rightarrow> Inl enoent | Some x \<Rightarrow> Inr f)"
| "exec t f (WriteF p bs) =
     (if dir_exists f (fst p) then Inr (put_file f p \<lparr>fcontent = bs, fsynced = False, fmtime = t\<rparr>) else Inl enoent)"

text \<open>What a failing call may leave behind: a write may have written a prefix.\<close>

fun partial_exec :: "nat \<Rightarrow> fs \<Rightarrow> fs_op \<Rightarrow> nat \<Rightarrow> fs" where
  "partial_exec t f (AppendF p bs) n = (case exec t f (AppendF p (take n bs)) of Inl e \<Rightarrow> f | Inr f' \<Rightarrow> f')"
| "partial_exec t f (WriteF p bs) n = (case exec t f (WriteF p (take n bs)) of Inl e \<Rightarrow> f | Inr f' \<Rightarrow> f')"
| "partial_exec t f op n = f"

text \<open>The environment of an operation: the clocks, \<open>statvfs\<close>, the process id, and the faults.\<close>

record io_env =
  io_now :: nat
  io_avail :: "string + nat"
  io_pid :: nat
  io_nanos :: nat
  io_fault :: "fs_op \<Rightarrow> (string \<times> nat) option"

fun run_ops :: "io_env \<Rightarrow> fs \<Rightarrow> fs_op list \<Rightarrow> (string + unit) \<times> fs" where
  "run_ops io f [] = (Inr (), f)"
| "run_ops io f (op # ops) =
     (case io_fault io op of
        Some (e, n) \<Rightarrow> (Inl e, partial_exec (io_now io) f op n)
      | None \<Rightarrow> (case exec (io_now io) f op of
                   Inl e \<Rightarrow> (Inl e, f)
                 | Inr f' \<Rightarrow> run_ops io f' ops))"

section \<open>DiskStorage\<close>

text \<open>The struct (its files) and the process-wide counter of \<open>unique_temp_sibling\<close>.\<close>

record disk =
  d_fs :: fs
  d_seq :: u64

definition MAX_SHARD_BYTES :: nat where
  "MAX_SHARD_BYTES = 8 * 2 ^ 30"

definition ensure_sufficient_space :: "io_env \<Rightarrow> unit result" where
  "ensure_sufficient_space io =
     (case io_avail io of
        Inr a \<Rightarrow> if a < 100 * 1024 * 1024
               then Err (Storage (''Insufficient disk space on node: '' @ show_nat a @ '' bytes available''))
               else Ok ()
      | Inl e \<Rightarrow> Err (Storage (''Cannot determine free space on node: '' @ e)))"

definition available_space :: "io_env \<Rightarrow> nat" where
  "available_space io = (case io_avail io of Inr a \<Rightarrow> a | Inl e \<Rightarrow> 0)"

definition get_shard_path :: "ext \<Rightarrow> bytes \<Rightarrow> path" where
  "get_shard_path E shard_hash =
     (let hash_hex = hex_encode E shard_hash in (take 2 hash_hex, drop 2 hash_hex))"

definition temp_path :: "ext \<Rightarrow> bytes \<Rightarrow> path" where
  "temp_path E temp_id =
     (let hash_hex = hex_encode E temp_id in (take 2 hash_hex, drop 2 hash_hex @ ''.tmp''))"

definition unique_temp_sibling :: "io_env \<Rightarrow> disk \<Rightarrow> path \<Rightarrow> path \<times> disk" where
  "unique_temp_sibling io d final_path =
     ((fst final_path, snd final_path @ ''.'' @ show_nat (io_pid io) @ ''.'' @ show_nat (io_nanos io) @ ''.''
         @ show_nat (unat (d_seq d)) @ ''.tmp''),
      d\<lparr>d_seq := d_seq d + 1\<rparr>)"

text \<open>\<open>if !parent.exists() { create_dir_all(parent)? }\<close>\<close>

definition ensure_dir :: "io_env \<Rightarrow> disk \<Rightarrow> string \<Rightarrow> unit result \<times> disk" where
  "ensure_dir io d parent =
     (if dir_exists (d_fs d) parent then (Ok (), d)
      else (case run_ops io (d_fs d) [MkDir parent] of
              (r, f) \<Rightarrow> (map_err Io r, d\<lparr>d_fs := f\<rparr>)))"

text \<open>The durable write sequence of \<open>store\<close>: temp file, contents, fsync, rename.\<close>

definition store_ops :: "path \<Rightarrow> path \<Rightarrow> bytes \<Rightarrow> fs_op list" where
  "store_ops tmp path data = [CreateF tmp, AppendF tmp data, SyncF tmp, RenameF tmp path]"

definition store :: "ext \<Rightarrow> io_env \<Rightarrow> disk \<Rightarrow> bytes \<Rightarrow> bytes \<Rightarrow> unit result \<times> disk" where
  "store E io d shard_hash data =
     (case ensure_sufficient_space io of
        Inl e \<Rightarrow> (Err e, d)
      | Inr _ \<Rightarrow>
        let path = get_shard_path E shard_hash in
        (case ensure_dir io d (fst path) of
           (Inl e, d1) \<Rightarrow> (Err e, d1)
         | (Inr _, d1) \<Rightarrow>
           let (tmp, d2) = unique_temp_sibling io d1 path in
           (case run_ops io (d_fs d2) (store_ops tmp path data) of
              (Inr _, f) \<Rightarrow> (Ok (), d2\<lparr>d_fs := f\<rparr>)
            | (Inl e, f) \<Rightarrow> (Err (Io e), d2\<lparr>d_fs := snd (run_ops io f [RemoveF tmp])\<rparr>))))"

definition store_stream_chunk :: "io_env \<Rightarrow> disk \<Rightarrow> path \<Rightarrow> bytes \<Rightarrow> unit result \<times> disk" where
  "store_stream_chunk io d tmp data =
     (if length data > MAX_SHARD_BYTES
      then (Err (Storage (''Shard chunk exceeds MAX_SHARD_BYTES ('' @ show_nat MAX_SHARD_BYTES @ '' bytes)'')), d)
      else case ensure_sufficient_space io of
        Inl e \<Rightarrow> (Err e, d)
      | Inr _ \<Rightarrow>
        (case ensure_dir io d (fst tmp) of
           (Inl e, d1) \<Rightarrow> (Err e, d1)
         | (Inr _, d1) \<Rightarrow>
           (case run_ops io (d_fs d1) [AppendF tmp data] of
              (r, f) \<Rightarrow> (map_err Io r, d1\<lparr>d_fs := f\<rparr>))))"

definition finalize_ops :: "path \<Rightarrow> path \<Rightarrow> fs_op list" where
  "finalize_ops tmp final_path = [OpenF tmp, SyncF tmp, RenameF tmp final_path]"

definition finalize_stream_temp :: "ext \<Rightarrow> io_env \<Rightarrow> disk \<Rightarrow> path \<Rightarrow> bytes \<Rightarrow> unit result \<times> disk" where
  "finalize_stream_temp E io d tmp shard_hash =
     (let final_path = get_shard_path E shard_hash in
      case ensure_dir io d (fst final_path) of
        (Inl e, d1) \<Rightarrow> (Err e, d1)
      | (Inr _, d1) \<Rightarrow>
        (case run_ops io (d_fs d1) (finalize_ops tmp final_path) of
           (r, f) \<Rightarrow> (map_err Io r, d1\<lparr>d_fs := f\<rparr>)))"

text \<open>\<open>remove_file\<close> whose result is ignored, as the callers use it on temp files.\<close>

definition remove_quietly :: "io_env \<Rightarrow> disk \<Rightarrow> path \<Rightarrow> disk" where
  "remove_quietly io d p = d\<lparr>d_fs := snd (run_ops io (d_fs d) [RemoveF p])\<rparr>"

definition exists_shard :: "ext \<Rightarrow> disk \<Rightarrow> bytes \<Rightarrow> bool" where
  "exists_shard E d shard_hash = (lookup (d_fs d) (get_shard_path E shard_hash) \<noteq> None)"

definition get_shard :: "ext \<Rightarrow> io_env \<Rightarrow> disk \<Rightarrow> bytes \<Rightarrow> bytes option result" where
  "get_shard E io d shard_hash =
     (let path = get_shard_path E shard_hash in
      case lookup (d_fs d) path of
        None \<Rightarrow> Ok None
      | Some x \<Rightarrow> (case io_fault io (OpenF path) of Some (e, n) \<Rightarrow> Err (Io e) | None \<Rightarrow> Ok (Some (fcontent x))))"

text \<open>The opened handle is its contents; the size is the metadata's.\<close>

definition open_shard_file :: "ext \<Rightarrow> io_env \<Rightarrow> disk \<Rightarrow> bytes \<Rightarrow> (bytes \<times> nat) option result" where
  "open_shard_file E io d shard_hash =
     (let path = get_shard_path E shard_hash in
      case lookup (d_fs d) path of
        None \<Rightarrow> Ok None
      | Some x \<Rightarrow> (case io_fault io (OpenF path) of
                     Some (e, n) \<Rightarrow> Err (Io e)
                   | None \<Rightarrow> Ok (Some (fcontent x, length (fcontent x)))))"

definition delete_shard :: "ext \<Rightarrow> io_env \<Rightarrow> disk \<Rightarrow> bytes \<Rightarrow> unit result \<times> disk" where
  "delete_shard E io d shard_hash =
     (let path = get_shard_path E shard_hash in
      if lookup (d_fs d) path \<noteq> None
      then (case run_ops io (d_fs d) [RemoveF path] of (r, f) \<Rightarrow> (map_err Io r, d\<lparr>d_fs := f\<rparr>))
      else (Ok (), d))"

definition ends_with :: "string \<Rightarrow> string \<Rightarrow> bool" where
  "ends_with s t = (length t \<le> length s \<and> drop (length s - length t) s = t)"

text \<open>One pass of \<open>cleanup_stale_temp_files\<close> over the entries, counting the files removed.\<close>

fun cleanup_entries :: "io_env \<Rightarrow> nat \<Rightarrow> (path \<times> dfile) list \<Rightarrow> fs \<Rightarrow> nat \<Rightarrow> nat \<times> fs" where
  "cleanup_entries io max_age [] f count = (count, f)"
| "cleanup_entries io max_age ((p, x) # es) f count =
     (if ends_with (snd p) ''.tmp'' \<and> fmtime x \<le> io_now io \<and> max_age \<le> io_now io - fmtime x
      then (case run_ops io f [RemoveF p] of
              (Inr _, f') \<Rightarrow> cleanup_entries io max_age es f' (count + 1)
            | (Inl _, f') \<Rightarrow> cleanup_entries io max_age es f' count)
      else cleanup_entries io max_age es f count)"

definition cleanup_stale_temp_files :: "io_env \<Rightarrow> disk \<Rightarrow> nat \<Rightarrow> nat result \<times> disk" where
  "cleanup_stale_temp_files io d max_age =
     (case cleanup_entries io max_age (fs_entries (d_fs d)) (d_fs d) 0 of
        (count, f) \<Rightarrow> (Ok count, d\<lparr>d_fs := f\<rparr>))"

text \<open>\<open>format!("{:02x}", i)\<close>\<close>

definition hex_digit_lower :: "nat \<Rightarrow> char" where
  "hex_digit_lower n = (if n < 10 then char_of (48 + n) else char_of (87 + n))"

definition hex2 :: "nat \<Rightarrow> string" where
  "hex2 i = [hex_digit_lower (i div 16), hex_digit_lower (i mod 16)]"

definition list_prefix :: "ext \<Rightarrow> disk \<Rightarrow> string \<Rightarrow> bytes list" where
  "list_prefix E d p =
     List.map_filter (\<lambda>((dir, name_str), x).
        if dir \<noteq> p \<or> ends_with name_str ''.tmp'' \<or> length name_str \<noteq> 62 then None
        else (case hex_decode E (p @ name_str) of
                None \<Rightarrow> None
              | Some hash_bytes \<Rightarrow> if length hash_bytes = 32 then Some hash_bytes else None))
       (fs_entries (d_fs d))"

definition all_prefixes :: "string list" where
  "all_prefixes = map hex2 [0..<256]"

definition list_shards :: "ext \<Rightarrow> disk \<Rightarrow> string option \<Rightarrow> bytes list result" where
  "list_shards E d pfx =
     (let prefixes = (case pfx of Some p \<Rightarrow> [p] | None \<Rightarrow> all_prefixes);
          hashes = concat (map (\<lambda>p. if dir_exists (d_fs d) p then list_prefix E d p else []) prefixes)
      in Ok (sort hashes))"

definition pinned_path :: "ext \<Rightarrow> string \<Rightarrow> path" where
  "pinned_path E name = (''pinned'', hex_encode E (blake3 E (str_bytes name)))"

definition store_pinned :: "ext \<Rightarrow> io_env \<Rightarrow> disk \<Rightarrow> string \<Rightarrow> bytes \<Rightarrow> unit result \<times> disk" where
  "store_pinned E io d name data =
     (let path = pinned_path E name in
      case ensure_dir io d (fst path) of
        (Inl e, d1) \<Rightarrow> (Err e, d1)
      | (Inr _, d1) \<Rightarrow>
        (case run_ops io (d_fs d1) [WriteF path data] of
           (r, f) \<Rightarrow> (map_err Io r, d1\<lparr>d_fs := f\<rparr>)))"

definition get_pinned :: "ext \<Rightarrow> io_env \<Rightarrow> disk \<Rightarrow> string \<Rightarrow> bytes option result" where
  "get_pinned E io d name =
     (let path = pinned_path E name in
      case lookup (d_fs d) path of
        None \<Rightarrow> Ok None
      | Some x \<Rightarrow> (case io_fault io (OpenF path) of Some (e, n) \<Rightarrow> Err (Io e) | None \<Rightarrow> Ok (Some (fcontent x))))"

text \<open>\<open>DiskStorage::new\<close>: opens the directory and purges temp files older than an hour.\<close>

definition disk_new :: "io_env \<Rightarrow> bool \<Rightarrow> fs \<Rightarrow> disk result" where
  "disk_new io base_exists f =
     (case (if base_exists then None else io_fault io (MkDir [])) of
        Some (e, n) \<Rightarrow> Err (Io e)
      | None \<Rightarrow> Ok (snd (cleanup_stale_temp_files io \<lparr>d_fs = f, d_seq = 0\<rparr> 3600)))"

section \<open>Files and frames\<close>

named_theorems fs_simps "lookups after file-system updates"

lemma lookup_put_file [fs_simps]: "lookup (put_file f p x) q = (if q = p then Some x else lookup f q)"
  by (simp add: lookup_def put_file_def update_conv')

lemma lookup_drop_file [fs_simps]: "lookup (drop_file f p) q = (if q = p then None else lookup f q)"
  by (simp add: lookup_def drop_file_def delete_conv')

lemma lookup_dirs [fs_simps]: "lookup (f\<lparr>fs_dirs := ds\<rparr>) q = lookup f q"
  by (simp add: lookup_def)

lemma dir_exists_put_drop [fs_simps]:
  "dir_exists (put_file f p x) q = dir_exists f q" "dir_exists (drop_file f p) q = dir_exists f q"
  by (simp_all add: dir_exists_def put_file_def drop_file_def)

text \<open>The paths an operation may change.\<close>

fun touched :: "fs_op \<Rightarrow> path set" where
  "touched (CreateF p) = {p}"
| "touched (AppendF p bs) = {p}"
| "touched (SyncF p) = {p}"
| "touched (RenameF p q) = {p, q}"
| "touched (RemoveF p) = {p}"
| "touched (WriteF p bs) = {p}"
| "touched op = {}"

lemma exec_frame: "exec t f op = Inr f' \<Longrightarrow> p \<notin> touched op \<Longrightarrow> lookup f' p = lookup f p"
  by (cases op) (auto simp: fs_simps split: if_splits option.splits)

lemma partial_exec_frame: "p \<notin> touched op \<Longrightarrow> lookup (partial_exec t f op n) p = lookup f p"
  by (cases op) (auto simp: fs_simps)

lemma run_ops_frame:
  "\<forall>op\<in>set ops. p \<notin> touched op \<Longrightarrow> lookup (snd (run_ops io f ops)) p = lookup f p"
proof (induction ops arbitrary: f)
  case (Cons op ops)
  then show ?case
    by (auto simp: partial_exec_frame exec_frame split: option.splits sum.splits)
qed simp

lemma run_ops_Ok_Cons:
  "run_ops io f (op # ops) = (Inr u, f') \<longleftrightarrow>
     io_fault io op = None \<and> (\<exists>f1. exec (io_now io) f op = Inr f1 \<and> run_ops io f1 ops = (Inr u, f'))"
  by (auto split: option.splits sum.splits)

section \<open>Paths\<close>

definition is_temp :: "path \<Rightarrow> bool" where
  "is_temp p = ends_with (snd p) ''.tmp''"

lemma ends_with_append [simp]: "ends_with (s @ t) t"
  by (simp add: ends_with_def)

lemma ends_with_append_left: "ends_with b t \<Longrightarrow> ends_with (a @ b) t"
  by (auto simp: ends_with_def)

lemma ends_with_Cons: "ends_with b t \<Longrightarrow> ends_with (c # b) t"
  using ends_with_append_left[of b t "[c]"] by simp

lemma ends_with_refl [simp]: "ends_with t t"
  by (simp add: ends_with_def)

lemma lower_hex_not_tmp: "list_all is_lower_hex s \<Longrightarrow> \<not> ends_with s ''.tmp''"
proof
  assume hex: "list_all is_lower_hex s" and "ends_with s ''.tmp''"
  then have "drop (length s - length ''.tmp'') s = ''.tmp''" unfolding ends_with_def by blast
  then have "CHR ''.'' \<in> set s" by (metis in_set_dropD list.set_intros(1))
  with hex have "is_lower_hex (CHR ''.'')" by (auto simp: list_all_iff)
  then show False by (simp add: is_lower_hex_def Let_def)
qed

lemma shard_path_inj: "hex_ok E \<Longrightarrow> get_shard_path E a = get_shard_path E b \<longleftrightarrow> a = b"
  by (metis (no_types, lifting) append_take_drop_id get_shard_path_def hex_encode_inj prod.inject)

lemma shard_path_not_temp: "hex_ok E \<Longrightarrow> \<not> is_temp (get_shard_path E h)"
proof -
  assume "hex_ok E"
  then have "list_all is_lower_hex (drop 2 (hex_encode E h))"
    using hex_encode_lower[of E h] by (metis append_take_drop_id list_all_append)
  then show ?thesis by (simp add: is_temp_def get_shard_path_def Let_def lower_hex_not_tmp)
qed

lemma temp_path_temp: "is_temp (temp_path E h)"
  by (simp add: is_temp_def temp_path_def Let_def)

lemma sibling_temp: "unique_temp_sibling io d p = (tmp, d') \<Longrightarrow> is_temp tmp \<and> fst tmp = fst p \<and> d_fs d' = d_fs d"
  unfolding unique_temp_sibling_def is_temp_def
  by (auto intro!: ends_with_append_left)
    (rule ends_with_Cons, rule ends_with_append_left, rule ends_with_Cons, rule ends_with_append_left,
      rule ends_with_Cons, rule ends_with_append)

lemma shard_path_not_pinned: "get_shard_path E h \<noteq> pinned_path E n"
proof
  assume "get_shard_path E h = pinned_path E n"
  then have "length (take 2 (hex_encode E h)) = length ''pinned''"
    by (simp add: get_shard_path_def pinned_path_def Let_def)
  then show False by simp
qed

lemma pinned_path_not_temp: "hex_ok E \<Longrightarrow> \<not> is_temp (pinned_path E n)"
  by (simp add: is_temp_def pinned_path_def lower_hex_not_tmp hex_encode_lower)

section \<open>The abstract view\<close>

definition shard_at :: "ext \<Rightarrow> disk \<Rightarrow> bytes \<Rightarrow> bytes option" where
  "shard_at E d h = map_option fcontent (lookup (d_fs d) (get_shard_path E h))"

definition temp_at :: "disk \<Rightarrow> path \<Rightarrow> bytes option" where
  "temp_at d p = map_option fcontent (lookup (d_fs d) p)"

lemma shard_at_cong:
  "(\<And>h. lookup (d_fs d') (get_shard_path E h) = lookup (d_fs d) (get_shard_path E h)) \<Longrightarrow> shard_at E d' = shard_at E d"
  by (rule ext) (simp add: shard_at_def)

lemma shard_at_update:
  assumes "lookup (d_fs d') (get_shard_path E h) = Some x"
    and "\<And>k. k \<noteq> h \<Longrightarrow> lookup (d_fs d') (get_shard_path E k) = lookup (d_fs d) (get_shard_path E k)"
  shows "shard_at E d' = (shard_at E d)(h \<mapsto> fcontent x)"
  by (rule ext) (simp add: shard_at_def assms)

lemma ensure_dir_fs:
  assumes "ensure_dir io d p = (r, d')"
  shows "lookup (d_fs d') q = lookup (d_fs d) q" "d_seq d' = d_seq d" "r = Inr u \<Longrightarrow> dir_exists (d_fs d') p"
  using assms
  by (auto simp: ensure_dir_def fs_simps dir_exists_def split: if_splits option.splits sum.splits prod.splits)

lemma store_ops_Err:
  assumes "run_ops io f (store_ops tmp path data) = (Inl e, f')" "q \<noteq> tmp"
  shows "lookup f' q = lookup f q"
  using assms
  by (auto simp: store_ops_def fs_simps split: if_splits option.splits sum.splits)

lemma store_ops_Ok:
  assumes "run_ops io f (store_ops tmp path data) = (Inr u, f')" "tmp \<noteq> path"
  shows "lookup f' path = Some \<lparr>fcontent = data, fsynced = True, fmtime = io_now io\<rparr>"
    "q \<noteq> tmp \<Longrightarrow> q \<noteq> path \<Longrightarrow> lookup f' q = lookup f q"
  using assms
  by (auto simp: store_ops_def fs_simps split: if_splits option.splits sum.splits)

lemma finalize_ops_Err:
  assumes "run_ops io f (finalize_ops tmp path) = (Inl e, f')" "q \<noteq> tmp"
  shows "lookup f' q = lookup f q"
  using assms
  by (auto simp: finalize_ops_def fs_simps split: if_splits option.splits sum.splits)

lemma finalize_ops_Ok:
  assumes "run_ops io f (finalize_ops tmp path) = (Inr u, f')" "tmp \<noteq> path"
  shows "\<exists>x. lookup f tmp = Some x \<and> lookup f' path = Some (x\<lparr>fsynced := True\<rparr>)"
    "q \<noteq> tmp \<Longrightarrow> q \<noteq> path \<Longrightarrow> lookup f' q = lookup f q" "lookup f' tmp = None"
  using assms
  by (auto simp: finalize_ops_def fs_simps split: if_splits option.splits sum.splits)

section \<open>The contract of the store\<close>

text \<open>A store of shards seen as a map.  Writing and deleting are atomic: either the reported success
  and the updated map, or an error and an unchanged map.\<close>

locale shard_store =
  fixes good :: "ext \<Rightarrow> bool"
    and view :: "ext \<Rightarrow> 'd \<Rightarrow> bytes \<Rightarrow> bytes option"
    and put :: "ext \<Rightarrow> io_env \<Rightarrow> 'd \<Rightarrow> bytes \<Rightarrow> bytes \<Rightarrow> unit result \<times> 'd"
    and del :: "ext \<Rightarrow> io_env \<Rightarrow> 'd \<Rightarrow> bytes \<Rightarrow> unit result \<times> 'd"
    and fetch :: "ext \<Rightarrow> io_env \<Rightarrow> 'd \<Rightarrow> bytes \<Rightarrow> bytes option result"
  assumes put_atomic: "good E \<Longrightarrow> put E io d h v = (r, d') \<Longrightarrow>
      (r = Ok () \<and> view E d' = (view E d)(h \<mapsto> v)) \<or> (\<exists>e. r = Err e \<and> view E d' = view E d)"
    and del_atomic: "good E \<Longrightarrow> del E io d h = (r, d') \<Longrightarrow>
      (r = Ok () \<and> view E d' = (view E d)(h := None)) \<or> (\<exists>e. r = Err e \<and> view E d' = view E d)"
    and fetch_view: "good E \<Longrightarrow> fetch E io d h = Ok x \<Longrightarrow> x = view E d h"
begin

text \<open>Content addressing: what is stored under a hash has that hash.\<close>

definition addressed :: "ext \<Rightarrow> 'd \<Rightarrow> bool" where
  "addressed E d \<longleftrightarrow> (\<forall>h v. view E d h = Some v \<longrightarrow> blake3 E v = h)"

lemma put_addressed:
  assumes "good E" "addressed E d" "put E io d h v = (r, d')" "blake3 E v = h"
  shows "addressed E d'"
  using put_atomic[OF assms(1,3)] assms(2,4) by (auto simp: addressed_def split: if_splits)

lemma del_addressed:
  assumes "good E" "addressed E d" "del E io d h = (r, d')"
  shows "addressed E d'"
  using del_atomic[OF assms(1,3)] assms(2) by (auto simp: addressed_def split: if_splits)

lemma put_fetch:
  assumes "good E" "put E io d h v = (Ok (), d')" "fetch E io' d' h = Ok x"
  shows "x = Some v"
  using put_atomic[OF assms(1,2)] fetch_view[OF assms(1,3)] by simp

end

text \<open>A store that also takes shards in pieces: a temp object is grown, then committed under a hash
  or discarded; only the commit changes the map, and it moves exactly what was collected.\<close>

locale stream_store = shard_store good view put del fetch
  for good :: "ext \<Rightarrow> bool" and view :: "ext \<Rightarrow> 'd \<Rightarrow> bytes \<Rightarrow> bytes option" and put del fetch +
  fixes temp :: "path \<Rightarrow> bool"
    and partial :: "'d \<Rightarrow> path \<Rightarrow> bytes option"
    and grow :: "io_env \<Rightarrow> 'd \<Rightarrow> path \<Rightarrow> bytes \<Rightarrow> unit result \<times> 'd"
    and commit :: "ext \<Rightarrow> io_env \<Rightarrow> 'd \<Rightarrow> path \<Rightarrow> bytes \<Rightarrow> unit result \<times> 'd"
    and discard :: "io_env \<Rightarrow> 'd \<Rightarrow> path \<Rightarrow> 'd"
  assumes grow_view: "good E \<Longrightarrow> temp p \<Longrightarrow> grow io d p v = (r, d') \<Longrightarrow> view E d' = view E d"
    and grow_partial: "grow io d p v = (Ok (), d') \<Longrightarrow>
      partial d' p = Some (case partial d p of None \<Rightarrow> v | Some u \<Rightarrow> u @ v)"
    and grow_other: "grow io d p v = (r, d') \<Longrightarrow> q \<noteq> p \<Longrightarrow> partial d' q = partial d q"
    and commit_atomic: "good E \<Longrightarrow> temp p \<Longrightarrow> commit E io d p h = (r, d') \<Longrightarrow>
      (r = Ok () \<and> (\<exists>v. partial d p = Some v \<and> view E d' = (view E d)(h \<mapsto> v)))
      \<or> (\<exists>e. r = Err e \<and> view E d' = view E d)"
    and discard_view: "good E \<Longrightarrow> temp p \<Longrightarrow> view E (discard io d p) = view E d"
    and discard_other: "q \<noteq> p \<Longrightarrow> partial (discard io d p) q = partial d q"
begin

lemma commit_addressed:
  assumes "good E" "temp p" "addressed E d" "commit E io d p h = (r, d')"
    and "\<And>v. partial d p = Some v \<Longrightarrow> blake3 E v = h"
  shows "addressed E d'"
  using commit_atomic[OF assms(1,2,4)] assms(3,5) by (auto simp: addressed_def split: if_splits)

lemma grow_addressed:
  assumes "good E" "temp p" "addressed E d" "grow io d p v = (r, d')"
  shows "addressed E d'"
  using grow_view[OF assms(1,2,4)] assms(3) by (simp add: addressed_def)

lemma discard_addressed:
  assumes "good E" "temp p" "addressed E d"
  shows "addressed E (discard io d p)"
  using discard_view[OF assms(1,2)] assms(3) by (simp add: addressed_def)

end

section \<open>DiskStorage meets the contract\<close>

lemma store_atomic_view:
  assumes "hex_ok E" "store E io d h data = (r, d')"
  shows "(r = Ok () \<and> shard_at E d' = (shard_at E d)(h \<mapsto> data))
     \<or> (\<exists>e. r = Err e \<and> shard_at E d' = shard_at E d)"
proof (cases "ensure_sufficient_space io")
  case (Inl e)
  then have "r = Err e" "d' = d" using assms(2) by (simp_all add: store_def)
  then show ?thesis by blast
next
  case (Inr u)
  let ?p = "get_shard_path E h"
  obtain r1 d1 where d1: "ensure_dir io d (fst ?p) = (r1, d1)" by fastforce
  obtain tmp d2 where d2: "unique_temp_sibling io d1 ?p = (tmp, d2)" by fastforce
  obtain r3 f3 where r3: "run_ops io (d_fs d2) (store_ops tmp ?p data) = (r3, f3)" by fastforce
  note pre = ensure_dir_fs[OF d1] sibling_temp[OF d2]
  have ne: "tmp \<noteq> get_shard_path E k" for k
    using pre shard_path_not_temp[OF assms(1)] by metis
  have base: "lookup (d_fs d2) q = lookup (d_fs d) q" for q using pre by simp
  show ?thesis
  proof (cases r1)
    case (Inl e)
    then have "r = Err e" "d' = d1" using assms(2) d1 Inr by (simp_all add: store_def Let_def)
    then show ?thesis using shard_at_cong pre(1) by blast
  next
    case r1: (Inr u1)
    show ?thesis
    proof (cases r3)
      case (Inr u3)
      then have "d' = d2\<lparr>d_fs := f3\<rparr>" "r = Ok ()"
        using assms(2) d1 d2 r3 r1 \<open>ensure_sufficient_space io = Inr u\<close> by (auto simp: store_def Let_def)
      moreover have "shard_at E (d2\<lparr>d_fs := f3\<rparr>) = (shard_at E d)(h \<mapsto> data)"
        using shard_at_update[of "d2\<lparr>d_fs := f3\<rparr>" E h _ d] store_ops_Ok(1)[OF r3[unfolded Inr] ne]
          store_ops_Ok(2)[OF r3[unfolded Inr] ne, OF ne[symmetric]]
        by (simp add: base shard_path_inj[OF assms(1)])
      ultimately show ?thesis by blast
    next
      case (Inl e)
      then have "d' = d2\<lparr>d_fs := snd (run_ops io f3 [RemoveF tmp])\<rparr>" "r = Err (Io e)"
        using assms(2) d1 d2 r3 r1 \<open>ensure_sufficient_space io = Inr u\<close> by (auto simp: store_def Let_def)
      moreover have "lookup (snd (run_ops io f3 [RemoveF tmp])) (get_shard_path E k) = lookup (d_fs d) (get_shard_path E k)" for k
        using store_ops_Err[OF r3[unfolded Inl], of "get_shard_path E k"] ne[of k] base
        by (subst run_ops_frame) auto
      ultimately show ?thesis by (auto intro!: shard_at_cong)
    qed
  qed
qed

lemma delete_atomic_view:
  assumes "hex_ok E" "delete_shard E io d h = (r, d')"
  shows "(r = Ok () \<and> shard_at E d' = (shard_at E d)(h := None))
     \<or> (\<exists>e. r = Err e \<and> shard_at E d' = shard_at E d)"
  using assms
  by (auto simp: delete_shard_def shard_at_def fun_eq_iff Let_def fs_simps shard_path_inj
      split: if_splits option.splits prod.splits)

lemma get_shard_view: "get_shard E io d h = Ok x \<Longrightarrow> x = shard_at E d h"
  by (auto simp: get_shard_def shard_at_def Let_def split: option.splits)

lemma chunk_view:
  assumes "store_stream_chunk io d p v = (r, d')" "q \<noteq> p"
  shows "lookup (d_fs d') q = lookup (d_fs d) q"
  using assms
  by (auto simp: store_stream_chunk_def fs_simps ensure_dir_fs partial_exec_frame
      split: if_splits option.splits sum.splits prod.splits)

lemma chunk_grows:
  assumes "store_stream_chunk io d p v = (Ok (), d')"
  shows "temp_at d' p = Some (case temp_at d p of None \<Rightarrow> v | Some u \<Rightarrow> u @ v)"
  using assms
  by (auto simp: store_stream_chunk_def temp_at_def fs_simps ensure_dir_fs result_simps
      split: if_splits option.splits sum.splits prod.splits)

lemma finalize_atomic_view:
  assumes "hex_ok E" "is_temp p" "finalize_stream_temp E io d p h = (r, d')"
  shows "(r = Ok () \<and> (\<exists>v. temp_at d p = Some v \<and> shard_at E d' = (shard_at E d)(h \<mapsto> v)))
     \<or> (\<exists>e. r = Err e \<and> shard_at E d' = shard_at E d)"
proof -
  let ?f = "get_shard_path E h"
  obtain r1 d1 where d1: "ensure_dir io d (fst ?f) = (r1, d1)" by fastforce
  obtain r2 f2 where r2: "run_ops io (d_fs d1) (finalize_ops p ?f) = (r2, f2)" by fastforce
  have ne: "p \<noteq> get_shard_path E k" for k using shard_path_not_temp[OF assms(1)] assms(2) by metis
  note pre = ensure_dir_fs(1)[OF d1]
  show ?thesis
  proof (cases r1)
    case (Inl e)
    then have "r = Err e" "d' = d1" using assms(3) d1 by (simp_all add: finalize_stream_temp_def Let_def)
    then show ?thesis using shard_at_cong pre by blast
  next
    case r1: (Inr u)
    then have d': "d' = d1\<lparr>d_fs := f2\<rparr>" "r = map_err Io r2"
      using assms(3) d1 r2 by (auto simp: finalize_stream_temp_def Let_def)
    show ?thesis
    proof (cases r2)
      case (Inl e)
      then show ?thesis
        using d' finalize_ops_Err[OF r2[unfolded Inl] ne[symmetric]] pre by (auto intro!: shard_at_cong)
    next
      case (Inr u2)
      note ok = finalize_ops_Ok[OF r2[unfolded Inr] ne]
      from ok(1) obtain x where x: "lookup (d_fs d1) p = Some x" "lookup f2 ?f = Some (x\<lparr>fsynced := True\<rparr>)" by blast
      have "shard_at E d' = (shard_at E d)(h \<mapsto> fcontent x)"
        using shard_at_update[of d' E h "x\<lparr>fsynced := True\<rparr>" d] x(2) ok(2)[OF ne[symmetric]] pre
        by (simp add: d' shard_path_inj[OF assms(1)])
      then show ?thesis using d' Inr x pre by (auto simp: temp_at_def)
    qed
  qed
qed

lemma remove_quietly_frame: "q \<noteq> p \<Longrightarrow> lookup (d_fs (remove_quietly io d p)) q = lookup (d_fs d) q"
  by (simp add: remove_quietly_def run_ops_frame del: run_ops.simps)

interpretation disk: stream_store hex_ok shard_at store delete_shard get_shard
  is_temp temp_at store_stream_chunk finalize_stream_temp remove_quietly
proof (unfold_locales, goal_cases)
  case (1 E io d h v r d')
  then show ?case by (rule store_atomic_view)
next
  case (2 E io d h r d')
  then show ?case by (rule delete_atomic_view)
next
  case (3 E io d h x)
  then show ?case by (simp add: get_shard_view)
next
  case (4 E p io d v r d')
  then show ?case by (metis chunk_view shard_at_cong shard_path_not_temp)
next
  case (5 io d p v d')
  then show ?case by (rule chunk_grows)
next
  case (6 io d p v r d' q)
  then show ?case by (simp add: temp_at_def chunk_view)
next
  case (7 E p io d h r d')
  then show ?case by (rule finalize_atomic_view)
next
  case (8 E p io d)
  then show ?case by (metis remove_quietly_frame shard_at_cong shard_path_not_temp)
next
  case (9 q p io d)
  then show ?case by (simp add: temp_at_def remove_quietly_frame)
qed

section \<open>Frames of whole operations\<close>

lemma store_frame:
  assumes "store E io d h v = (r, d')" "q \<noteq> get_shard_path E h"
    and "q \<noteq> fst (unique_temp_sibling io d (get_shard_path E h))"
  shows "lookup (d_fs d') q = lookup (d_fs d) q"
proof -
  let ?p = "get_shard_path E h"
  obtain r1 d1 where d1: "ensure_dir io d (fst ?p) = (r1, d1)" by fastforce
  obtain tmp d2 where d2: "unique_temp_sibling io d1 ?p = (tmp, d2)" by fastforce
  note pre = ensure_dir_fs[OF d1] sibling_temp[OF d2]
  have "tmp = fst (unique_temp_sibling io d ?p)"
    using d2 ensure_dir_fs(2)[OF d1] by (auto simp: unique_temp_sibling_def)
  then have ne: "q \<noteq> tmp" using assms(3) by simp
  have f3: "lookup (snd (run_ops io (d_fs d2) (store_ops tmp ?p v))) q = lookup (d_fs d2) q"
    by (rule run_ops_frame) (use ne assms(2) in \<open>auto simp: store_ops_def\<close>)
  have f4: "lookup (snd (run_ops io f [RemoveF tmp])) q = lookup f q" for f
    by (rule run_ops_frame) (use ne in auto)
  show ?thesis
    using assms(1) d1 d2 f3 f4 pre
    by (auto simp: store_def Let_def simp del: run_ops.simps split: sum.splits prod.splits)
qed

lemma delete_frame: "delete_shard E io d h = (r, d') \<Longrightarrow> q \<noteq> get_shard_path E h \<Longrightarrow> lookup (d_fs d') q = lookup (d_fs d) q"
  using run_ops_frame[of "[RemoveF (get_shard_path E h)]" q io "d_fs d"]
  by (auto simp: delete_shard_def Let_def simp del: run_ops.simps split: if_splits prod.splits)

lemma pinned_frame:
  assumes "store_pinned E io d n v = (r, d')" "q \<noteq> pinned_path E n"
  shows "lookup (d_fs d') q = lookup (d_fs d) q"
proof -
  obtain r1 d1 where d1: "ensure_dir io d (fst (pinned_path E n)) = (r1, d1)" by fastforce
  have "lookup (snd (run_ops io (d_fs d1) [WriteF (pinned_path E n) v])) q = lookup (d_fs d1) q"
    by (rule run_ops_frame) (use assms(2) in auto)
  then show ?thesis
    using assms(1) d1 ensure_dir_fs(1)[OF d1]
    by (auto simp: store_pinned_def Let_def simp del: run_ops.simps split: sum.splits prod.splits)
qed

lemma finalize_frame:
  assumes "finalize_stream_temp E io d p h = (r, d')" "q \<noteq> p" "q \<noteq> get_shard_path E h"
  shows "lookup (d_fs d') q = lookup (d_fs d) q"
proof -
  obtain r1 d1 where d1: "ensure_dir io d (fst (get_shard_path E h)) = (r1, d1)" by fastforce
  have "lookup (snd (run_ops io (d_fs d1) (finalize_ops p (get_shard_path E h)))) q = lookup (d_fs d1) q"
    by (rule run_ops_frame) (use assms(2,3) in \<open>auto simp: finalize_ops_def\<close>)
  then show ?thesis
    using assms(1) d1 ensure_dir_fs(1)[OF d1]
    by (auto simp: finalize_stream_temp_def Let_def simp del: run_ops.simps split: sum.splits prod.splits)
qed

lemma sibling_not_temp_path:
  assumes "hex_ok E"
  shows "temp_path E i \<noteq> fst (unique_temp_sibling io d p)"
proof
  assume "temp_path E i = fst (unique_temp_sibling io d p)"
  then have "drop 2 (hex_encode E i) @ ''.tmp'' = (snd p @ ''.'' @ show_nat (io_pid io) @ ''.'' @ show_nat (io_nanos io)
      @ ''.'' @ show_nat (unat (d_seq d))) @ ''.tmp''"
    by (simp add: temp_path_def unique_temp_sibling_def Let_def)
  then have "CHR ''.'' \<in> set (drop 2 (hex_encode E i))" by (simp only: append_same_eq) simp
  then have "is_lower_hex (CHR ''.'')"
    using hex_encode_lower[OF assms, of i] by (auto simp: list_all_iff dest: in_set_dropD)
  then show False by (simp add: is_lower_hex_def Let_def)
qed

lemma temp_path_ne:
  assumes "hex_ok E"
  shows "temp_path E i \<noteq> get_shard_path E h" "temp_path E i \<noteq> pinned_path E n"
  using shard_path_not_temp[OF assms] pinned_path_not_temp[OF assms] temp_path_temp by metis+

section \<open>Crashes\<close>

text \<open>The states a crash can leave while a sequence of calls runs: before any of them, after any
  prefix of them, or with a write half done.\<close>

inductive crash_reach :: "nat \<Rightarrow> fs \<Rightarrow> fs_op list \<Rightarrow> fs \<Rightarrow> bool" for t where
  here: "crash_reach t f ops f"
| partly: "crash_reach t f (op # ops) (partial_exec t f op n)"
| step: "exec t f op = Inr f1 \<Longrightarrow> crash_reach t f1 ops f' \<Longrightarrow> crash_reach t f (op # ops) f'"

inductive_simps crash_reach_Nil: "crash_reach t f [] f'"
inductive_simps crash_reach_Cons: "crash_reach t f (op # ops) f'"

lemma store_crash_lookup:
  assumes "crash_reach t f (store_ops tmp path data) f'" "tmp \<noteq> path" "q \<noteq> tmp"
  shows "lookup f' q = lookup f q \<or>
    (q = path \<and> lookup f' q = Some \<lparr>fcontent = data, fsynced = True, fmtime = t\<rparr>)"
  using assms unfolding store_ops_def
  by (auto simp: crash_reach_Nil crash_reach_Cons fs_simps split: if_splits option.splits)

section \<open>Well-formed stores\<close>

definition ok_path :: "ext \<Rightarrow> path \<Rightarrow> bool" where
  "ok_path E p \<longleftrightarrow> is_temp p \<or> fst p = ''pinned'' \<or> (\<exists>h. length h = 32 \<and> p = get_shard_path E h)"

definition fs_wf :: "ext \<Rightarrow> fs \<Rightarrow> bool" where
  "fs_wf E f \<longleftrightarrow> distinct (map fst (fs_entries f))
     \<and> (\<forall>p. lookup f p \<noteq> None \<longrightarrow> ok_path E p \<and> dir_exists f (fst p))"

lemma distinct_put_drop:
  "distinct (map fst (fs_entries f)) \<Longrightarrow> distinct (map fst (fs_entries (put_file f p x)))"
  "distinct (map fst (fs_entries f)) \<Longrightarrow> distinct (map fst (fs_entries (drop_file f p)))"
  by (simp_all add: put_file_def drop_file_def distinct_update distinct_delete)

lemma put_file_wf: "fs_wf E f \<Longrightarrow> ok_path E p \<Longrightarrow> dir_exists f (fst p) \<Longrightarrow> fs_wf E (put_file f p x)"
  by (auto simp: fs_wf_def distinct_put_drop fs_simps)

lemma drop_file_wf: "fs_wf E f \<Longrightarrow> fs_wf E (drop_file f p)"
  by (auto simp: fs_wf_def distinct_put_drop fs_simps)

lemma mkdir_wf: "fs_wf E f \<Longrightarrow> fs_wf E (f\<lparr>fs_dirs := List.insert d (fs_dirs f)\<rparr>)"
  by (auto simp: fs_wf_def fs_simps dir_exists_def)

lemma exec_wf:
  assumes "fs_wf E f" "\<forall>p\<in>touched op. ok_path E p" "exec t f op = Inr f'"
  shows "fs_wf E f'"
proof -
  have dir: "lookup f (a, b) = Some x \<Longrightarrow> dir_exists f a" for a b x
    using assms(1) unfolding fs_wf_def by (metis fst_conv option.discI)
  show ?thesis
    using assms
    by (cases op) (auto simp: fs_simps dest: dir intro!: put_file_wf drop_file_wf mkdir_wf split: if_splits option.splits)
qed

lemma partial_exec_wf:
  assumes "fs_wf E f" "\<forall>p\<in>touched op. ok_path E p"
  shows "fs_wf E (partial_exec t f op n)"
proof (cases op)
  case (AppendF p bs)
  then show ?thesis
    using exec_wf[of E f "AppendF p (take n bs)" t] assms by (auto simp del: exec.simps split: sum.split)
next
  case (WriteF p bs)
  then show ?thesis
    using exec_wf[of E f "WriteF p (take n bs)" t] assms by (auto simp del: exec.simps split: sum.split)
qed (use assms in auto)

lemma run_ops_wf:
  "fs_wf E f \<Longrightarrow> \<forall>op\<in>set ops. \<forall>p\<in>touched op. ok_path E p \<Longrightarrow> run_ops io f ops = (r, f') \<Longrightarrow> fs_wf E f'"
proof (induction ops arbitrary: f)
  case (Cons op ops)
  then show ?case
    using exec_wf[of E f op] partial_exec_wf[of E f op]
    by (fastforce split: option.splits sum.splits prod.splits)
qed simp

lemma ensure_dir_wf: "fs_wf E (d_fs d) \<Longrightarrow> ensure_dir io d p = (r, d') \<Longrightarrow> fs_wf E (d_fs d')"
  using run_ops_wf[of E "d_fs d" "[MkDir p]" io]
  by (auto simp: ensure_dir_def split: if_splits prod.splits)

lemmas ok_paths = ok_path_def temp_path_temp sibling_temp

lemma store_wf:
  assumes "fs_wf E (d_fs d)" "length h = 32" "store E io d h v = (r, d')"
  shows "fs_wf E (d_fs d')"
proof -
  let ?p = "get_shard_path E h"
  obtain r1 d1 where d1: "ensure_dir io d (fst ?p) = (r1, d1)" by fastforce
  obtain tmp d2 where d2: "unique_temp_sibling io d1 ?p = (tmp, d2)" by fastforce
  obtain r3 f3 where r3: "run_ops io (d_fs d2) (store_ops tmp ?p v) = (r3, f3)" by fastforce
  obtain r4 f4 where r4: "run_ops io f3 [RemoveF tmp] = (r4, f4)" by fastforce
  have t: "is_temp tmp" "d_fs d2 = d_fs d1" using sibling_temp[OF d2] by auto
  have wf1: "fs_wf E (d_fs d1)" using ensure_dir_wf[OF assms(1) d1] .
  have wf3: "fs_wf E f3"
    by (rule run_ops_wf[OF _ _ r3]) (use wf1 t assms(2) in \<open>auto simp: store_ops_def ok_path_def\<close>)
  have "fs_wf E f4" by (rule run_ops_wf[OF wf3 _ r4]) (use t in \<open>auto simp: ok_path_def\<close>)
  then show ?thesis
    using assms wf1 wf3 d1 d2 r3 r4
    by (auto simp: store_def Let_def split: sum.splits simp del: run_ops.simps)
qed

lemma chunk_wf:
  assumes "fs_wf E (d_fs d)" "is_temp p" "store_stream_chunk io d p v = (r, d')"
  shows "fs_wf E (d_fs d')"
  using assms run_ops_wf[where ops = "[AppendF p v]" and E = E and io = io] ensure_dir_wf[OF assms(1)]
  by (fastforce simp: store_stream_chunk_def ok_path_def simp del: run_ops.simps split: if_splits sum.splits prod.splits)

lemma finalize_wf:
  assumes "fs_wf E (d_fs d)" "is_temp p" "length h = 32" "finalize_stream_temp E io d p h = (r, d')"
  shows "fs_wf E (d_fs d')"
proof -
  let ?p = "get_shard_path E h"
  obtain r1 d1 where d1: "ensure_dir io d (fst ?p) = (r1, d1)" by fastforce
  obtain r2 f2 where r2: "run_ops io (d_fs d1) (finalize_ops p ?p) = (r2, f2)" by fastforce
  have wf1: "fs_wf E (d_fs d1)" using ensure_dir_wf[OF assms(1) d1] .
  have "fs_wf E f2"
    by (rule run_ops_wf[OF wf1 _ r2]) (use assms(2,3) in \<open>auto simp: finalize_ops_def ok_path_def\<close>)
  then show ?thesis
    using assms(4) wf1 d1 r2 by (auto simp: finalize_stream_temp_def Let_def split: sum.splits)
qed

lemma pinned_wf:
  assumes "fs_wf E (d_fs d)" "store_pinned E io d n v = (r, d')"
  shows "fs_wf E (d_fs d')"
  using assms run_ops_wf[where ops = "[WriteF (pinned_path E n) v]" and E = E and io = io] ensure_dir_wf[OF assms(1)]
  by (fastforce simp: store_pinned_def ok_path_def pinned_path_def Let_def
      simp del: run_ops.simps split: sum.splits prod.splits)

lemma remove_wf: "fs_wf E f \<Longrightarrow> run_ops io f [RemoveF p] = (r, f') \<Longrightarrow> fs_wf E f'"
  by (auto intro: drop_file_wf split: option.splits)

lemma delete_wf: "fs_wf E (d_fs d) \<Longrightarrow> delete_shard E io d h = (r, d') \<Longrightarrow> fs_wf E (d_fs d')"
  by (auto simp: delete_shard_def Let_def simp del: run_ops.simps intro: remove_wf split: if_splits prod.splits)

lemma remove_quietly_wf: "fs_wf E (d_fs d) \<Longrightarrow> fs_wf E (d_fs (remove_quietly io d p))"
  by (simp add: remove_quietly_def del: run_ops.simps) (metis prod.collapse remove_wf)

lemma cleanup_entries_wf: "fs_wf E f \<Longrightarrow> cleanup_entries io a es f c = (n, f') \<Longrightarrow> fs_wf E f'"
proof (induction io a es f c arbitrary: n f' rule: cleanup_entries.induct)
  case (2 io a p x es f c)
  obtain r f1 where r: "run_ops io f [RemoveF p] = (r, f1)" by fastforce
  note wf1 = remove_wf[OF "2.prems"(1) r]
  show ?case
    using 2 r wf1 by (cases r) (auto simp del: run_ops.simps split: if_splits)
qed simp

section \<open>Reachable stores\<close>

inductive disk_reach :: "ext \<Rightarrow> disk \<Rightarrow> bool" for E where
  fresh: "disk_reach E \<lparr>d_fs = \<lparr>fs_entries = [], fs_dirs = []\<rparr>, d_seq = n\<rparr>"
| store: "disk_reach E d \<Longrightarrow> length h = 32 \<Longrightarrow> store E io d h v = (r, d') \<Longrightarrow> disk_reach E d'"
| chunk: "disk_reach E d \<Longrightarrow> store_stream_chunk io d (temp_path E i) v = (r, d') \<Longrightarrow> disk_reach E d'"
| finalize: "disk_reach E d \<Longrightarrow> length h = 32 \<Longrightarrow> finalize_stream_temp E io d (temp_path E i) h = (r, d') \<Longrightarrow> disk_reach E d'"
| discard: "disk_reach E d \<Longrightarrow> disk_reach E (remove_quietly io d (temp_path E i))"
| delete: "disk_reach E d \<Longrightarrow> delete_shard E io d h = (r, d') \<Longrightarrow> disk_reach E d'"
| pinned: "disk_reach E d \<Longrightarrow> store_pinned E io d n v = (r, d') \<Longrightarrow> disk_reach E d'"
| cleanup: "disk_reach E d \<Longrightarrow> cleanup_stale_temp_files io d a = (r', d') \<Longrightarrow> disk_reach E d'"

lemma disk_reach_wf: "disk_reach E d \<Longrightarrow> fs_wf E (d_fs d)"
proof (induction rule: disk_reach.induct)
  case (fresh n)
  then show ?case by (simp add: fs_wf_def lookup_def)
next
  case (cleanup d io a r' d')
  then show ?case by (auto simp: cleanup_stale_temp_files_def intro: cleanup_entries_wf split: prod.splits)
qed (auto intro: store_wf chunk_wf finalize_wf remove_quietly_wf delete_wf pinned_wf temp_path_temp)

section \<open>Listing\<close>

lemma distinct_concat_map:
  assumes "distinct ps" "\<And>p. p \<in> set ps \<Longrightarrow> distinct (g p)"
    and "\<And>p q x. p \<in> set ps \<Longrightarrow> q \<in> set ps \<Longrightarrow> x \<in> set (g p) \<Longrightarrow> x \<in> set (g q) \<Longrightarrow> p = q"
  shows "distinct (concat (map g ps))"
  using assms
proof (induction ps)
  case (Cons p ps)
  moreover have "set (g p) \<inter> set (concat (map g ps)) = {}"
    using Cons.prems(1,3) by fastforce
  ultimately show ?case by simp
qed simp

lemma set_map_filter: "set (List.map_filter g xs) = {y. \<exists>x\<in>set xs. g x = Some y}"
  by (auto simp: List.map_filter_def intro!: rev_image_eqI)

lemma distinct_map_filter:
  assumes "distinct xs" "\<And>x x' y. x \<in> set xs \<Longrightarrow> x' \<in> set xs \<Longrightarrow> g x = Some y \<Longrightarrow> g x' = Some y \<Longrightarrow> x = x'"
  shows "distinct (List.map_filter g xs)"
  using assms by (auto simp: List.map_filter_def distinct_map inj_on_def)

lemma hex2_inj: "i < 256 \<Longrightarrow> j < 256 \<Longrightarrow> hex2 i = hex2 j \<Longrightarrow> i = j"
proof -
  assume ij: "i < 256" "j < 256" and eq: "hex2 i = hex2 j"
  have c: "(of_char (hex_digit_lower n) :: nat) = (if n < 10 then 48 + n else 87 + n)" if "n < 16" for n
    using that by (auto simp: hex_digit_lower_def of_char_of)
  have d: "m = n" if "m < 16" "n < 16" "hex_digit_lower m = hex_digit_lower n" for m n
  proof -
    have "(if m < 10 then 48 + m else 87 + m) = (if n < 10 then 48 + n else 87 + n)"
      using c[OF that(1)] c[OF that(2)] that(3) by metis
    then show ?thesis using that(1,2) by (auto split: if_splits)
  qed
  have "i div 16 = j div 16" "i mod 16 = j mod 16"
    using eq ij by (auto simp: hex2_def intro!: d)
  then show ?thesis by (metis div_mult_mod_eq)
qed

lemma lower_hex_pair: "is_lower_hex a \<Longrightarrow> is_lower_hex b \<Longrightarrow> \<exists>i<256. [a, b] = hex2 i"
proof -
  have d: "\<exists>n<16. hex_digit_lower n = c" if "is_lower_hex c" for c
  proof -
    let ?n = "of_char c :: nat"
    let ?k = "if ?n \<le> 57 then ?n - 48 else ?n - 87"
    have r: "(48 \<le> ?n \<and> ?n \<le> 57) \<or> (97 \<le> ?n \<and> ?n \<le> 102)"
      using that by (auto simp: is_lower_hex_def Let_def)
    then have "hex_digit_lower ?k = char_of ?n" "?k < 16" by (auto simp: hex_digit_lower_def)
    then show ?thesis by (metis char_of_char)
  qed
  assume "is_lower_hex a" "is_lower_hex b"
  then obtain m n where mn: "m < 16" "n < 16" "hex_digit_lower m = a" "hex_digit_lower n = b" using d by metis
  then have "hex2 (16 * m + n) = [a, b]" "16 * m + n < 256" by (simp_all add: hex2_def)
  then show ?thesis by metis
qed

lemma shard_path_dir:
  assumes "hex_ok E" "length h = 32"
  shows "\<exists>i<256. fst (get_shard_path E h) = hex2 i"
proof -
  obtain a b r where "hex_encode E h = a # b # r"
    using hex_encode_len[OF assms(1), of h] assms(2) by (cases "hex_encode E h" rule: remdups_adj.cases) auto
  then show ?thesis
    using hex_encode_lower[OF assms(1), of h] lower_hex_pair[of a b] by (auto simp: get_shard_path_def)
qed

lemma entry_shard_path:
  assumes "fs_wf E f" "length p = 2" "((p, m), y) \<in> set (fs_entries f)" "\<not> ends_with m ''.tmp''"
  shows "lookup f (p, m) \<noteq> None \<and> (\<exists>k. (p, m) = get_shard_path E k \<and> p @ m = hex_encode E k)"
proof -
  have lk: "lookup f (p, m) \<noteq> None"
    using assms(3) by (auto simp: lookup_def map_of_eq_None_iff intro: rev_image_eqI)
  then have "ok_path E (p, m)" using assms(1) unfolding fs_wf_def by blast
  moreover have "p \<noteq> ''pinned''" using assms(2) by auto
  ultimately obtain k where "(p, m) = get_shard_path E k"
    using assms(4) unfolding ok_path_def is_temp_def by auto
  then show ?thesis using lk by (auto simp: get_shard_path_def Let_def)
qed

lemma list_prefix_mem:
  assumes "hex_ok E" "fs_wf E (d_fs d)" "length p = 2"
  shows "h \<in> set (list_prefix E d p) \<longleftrightarrow> length h = 32 \<and> fst (get_shard_path E h) = p \<and> exists_shard E d h"
proof
  assume "h \<in> set (list_prefix E d p)"
  then obtain name x where e: "((p, name), x) \<in> set (fs_entries (d_fs d))" "\<not> ends_with name ''.tmp''"
    "length name = 62" and dec: "hex_decode E (p @ name) = Some h" "length h = 32"
    by (auto simp: list_prefix_def set_map_filter split: if_splits option.splits)
  obtain k where lk: "lookup (d_fs d) (p, name) \<noteq> None" and k: "(p, name) = get_shard_path E k" "p @ name = hex_encode E k"
    using entry_shard_path[OF assms(2,3) e(1,2)] by blast
  then have "k = h" using dec hex_decode_encode[OF assms(1), of k] by simp
  then show "length h = 32 \<and> fst (get_shard_path E h) = p \<and> exists_shard E d h"
    using k dec lk by (auto simp: exists_shard_def dest: sym)
next
  assume r: "length h = 32 \<and> fst (get_shard_path E h) = p \<and> exists_shard E d h"
  then obtain x where x: "(get_shard_path E h, x) \<in> set (fs_entries (d_fs d))"
    by (auto simp: exists_shard_def lookup_def dest: map_of_SomeD)
  have path: "get_shard_path E h = (p, drop 2 (hex_encode E h))" "p @ drop 2 (hex_encode E h) = hex_encode E h"
    using r by (auto simp: get_shard_path_def Let_def)
  have "\<not> ends_with (drop 2 (hex_encode E h)) ''.tmp''"
    using shard_path_not_temp[OF assms(1), of h] path(1) by (simp add: is_temp_def)
  moreover have "length (drop 2 (hex_encode E h)) = 62"
    using hex_encode_len[OF assms(1), of h] r by simp
  ultimately show "h \<in> set (list_prefix E d p)"
    using x r path hex_decode_encode[OF assms(1), of h]
    by (auto simp: list_prefix_def set_map_filter intro!: bexI[of _ "(get_shard_path E h, x)"])
qed

lemma list_prefix_distinct:
  assumes "hex_ok E" "fs_wf E (d_fs d)" "length p = 2"
  shows "distinct (list_prefix E d p)"
  unfolding list_prefix_def
proof (rule distinct_map_filter, goal_cases)
  case 1
  then show ?case using assms(2) by (auto simp: fs_wf_def distinct_map)
next
  case (2 e e' h)
  obtain n x n' x' where e: "e = ((p, n), x)" "e' = ((p, n'), x')" "hex_decode E (p @ n) = Some h" "hex_decode E (p @ n') = Some h"
    "\<not> ends_with n ''.tmp''" "\<not> ends_with n' ''.tmp''"
    using 2(3,4) by (auto split: if_splits option.splits prod.splits)
  have path: "(p, m) = get_shard_path E h" if "((p, m), y) \<in> set (fs_entries (d_fs d))" "hex_decode E (p @ m) = Some h"
    "\<not> ends_with m ''.tmp''" for m y
    using entry_shard_path[OF assms(2,3) that(1,3)] that(2) hex_decode_encode[OF assms(1)]
    by (metis option.inject)
  have "n = n'" using path[of n x] path[of n' x'] e 2(1,2) by (metis prod.inject)
  moreover have "distinct (map fst (fs_entries (d_fs d)))" using assms(2) by (simp add: fs_wf_def)
  ultimately show ?case using e(1,2) 2(1,2) by (metis eq_key_imp_eq_value)
qed

lemma set_all_prefixes: "p \<in> set all_prefixes \<longleftrightarrow> (\<exists>i<256. p = hex2 i)"
  by (auto simp only: all_prefixes_def set_map set_upt image_iff Bex_def atLeastLessThan_iff)

lemma distinct_all_prefixes: "distinct all_prefixes"
  unfolding all_prefixes_def
  by (simp only: distinct_map distinct_upt set_upt inj_on_def Ball_def atLeastLessThan_iff) (blast intro: hex2_inj)

lemma list_shards_wf:
  assumes "hex_ok E" "fs_wf E (d_fs d)"
  shows "list_shards E d None = Ok (sorted_list_of_set {h. length h = 32 \<and> exists_shard E d h})"
proof -
  let ?g = "\<lambda>p. if dir_exists (d_fs d) p then list_prefix E d p else []"
  let ?hs = "concat (map ?g all_prefixes)"
  have len: "length (hex2 i) = 2" for i by (simp add: hex2_def)
  have dist: "distinct ?hs"
  proof (rule distinct_concat_map)
    show "distinct all_prefixes" by (rule distinct_all_prefixes)
    show "distinct (?g p)" if "p \<in> set all_prefixes" for p
      using that list_prefix_distinct[OF assms] len by (auto simp: set_all_prefixes)
    show "p = q" if "p \<in> set all_prefixes" "q \<in> set (all_prefixes)" "x \<in> set (?g p)" "x \<in> set (?g q)" for p q x
    proof -
      have "length p = 2" "length q = 2" using that(1,2) len by (auto simp: set_all_prefixes)
      then show ?thesis using that(3,4) list_prefix_mem[OF assms] by (metis empty_iff empty_set)
    qed
  qed
  have "set ?hs = {h. length h = 32 \<and> exists_shard E d h}" (is "_ = ?S")
  proof (intro set_eqI iffI)
    fix h assume "h \<in> set ?hs"
    then show "h \<in> ?S" using list_prefix_mem[OF assms len] by (auto simp: set_all_prefixes split: if_splits)
  next
    fix h assume h: "h \<in> ?S"
    then obtain i where i: "i < 256" "fst (get_shard_path E h) = hex2 i" using shard_path_dir[OF assms(1)] by blast
    have "dir_exists (d_fs d) (hex2 i)"
      using h i(2) assms(2) unfolding fs_wf_def exists_shard_def by (metis (mono_tags) mem_Collect_eq)
    then show "h \<in> set ?hs" using i h list_prefix_mem[OF assms len[of i], of h]
      by (auto simp: set_all_prefixes intro!: bexI[of _ "hex2 i"])
  qed
  moreover have "sorted_list_of_set (set ?hs) = sort ?hs"
    using dist by (simp only: sorted_list_of_set_sort_remdups distinct_remdups_id)
  ultimately have "sort ?hs = sorted_list_of_set ?S" by (simp only:)
  then show ?thesis by (simp add: list_shards_def Let_def)
qed

section \<open>Cleanup\<close>

definition stale :: "io_env \<Rightarrow> nat \<Rightarrow> path \<times> dfile \<Rightarrow> bool" where
  "stale io max_age e \<longleftrightarrow> is_temp (fst e) \<and> fmtime (snd e) \<le> io_now io \<and> max_age \<le> io_now io - fmtime (snd e)"

lemma cleanup_entries_exact:
  assumes "\<And>op. io_fault io op = None" "distinct (map fst es)" "\<And>p x. (p, x) \<in> set es \<Longrightarrow> lookup f p = Some x"
  shows "fst (cleanup_entries io a es f c) = c + length (filter (stale io a) es)
    \<and> (\<forall>q. lookup (snd (cleanup_entries io a es f c)) q =
         (if \<exists>x. (q, x) \<in> set es \<and> stale io a (q, x) then None else lookup f q))"
  using assms(2,3)
proof (induction es arbitrary: f c)
  case (Cons e es)
  obtain p x where e: "e = (p, x)" by (cases e)
  have px: "lookup f p = Some x" using Cons.prems(2) e by simp
  show ?case
  proof (cases "stale io a (p, x)")
    case False
    then have "cleanup_entries io a (e # es) f c = cleanup_entries io a es f c"
      by (auto simp: e stale_def is_temp_def)
    then show ?thesis using Cons.IH[of f c] Cons.prems False e by auto
  next
    case True
    then have "cleanup_entries io a (e # es) f c = cleanup_entries io a es (drop_file f p) (c + 1)"
      using px by (simp add: e stale_def is_temp_def assms(1))
    moreover have "lookup (drop_file f p) q = Some y" if "(q, y) \<in> set es" for q y
    proof -
      have "q \<noteq> p" using that Cons.prems(1) e by (auto simp: image_iff)
      then show ?thesis using that Cons.prems(2)[of q y] by (simp add: fs_simps)
    qed
    ultimately show ?thesis
      using Cons.IH[of "drop_file f p" "c + 1"] Cons.prems True e by (auto simp: fs_simps)
  qed
qed simp

lemma cleanup_entries_shards:
  assumes "\<not> is_temp q"
  shows "lookup (snd (cleanup_entries io a es f c)) q = lookup f q"
proof (induction io a es f c rule: cleanup_entries.induct)
  case (2 io a p x es f c)
  obtain r f1 where r: "run_ops io f [RemoveF p] = (r, f1)" by fastforce
  have "lookup f1 q = lookup f q" if "is_temp p"
    using run_ops_frame[of "[RemoveF p]" q io f] r that assms by (auto simp del: run_ops.simps)
  then show ?case
    using 2 r by (cases r) (auto simp: is_temp_def simp del: run_ops.simps)
qed simp

lemma exists_shard_iff: "exists_shard E d h \<longleftrightarrow> shard_at E d h \<noteq> None"
  by (simp add: exists_shard_def shard_at_def)

lemma singleton_by_length:
  "(\<And>h. P h \<longleftrightarrow> h = x) \<Longrightarrow> length x = n \<Longrightarrow> {h :: bytes. length h = n \<and> P h} = {x}"
  by auto

section \<open>A quiet environment, for examples\<close>

definition quiet_io :: io_env where
  "quiet_io = \<lparr>io_now = 10, io_avail = Inr 500000000, io_pid = 7, io_nanos = 1, io_fault = (\<lambda>_. None)\<rparr>"

definition fresh_disk :: disk where
  "fresh_disk = \<lparr>d_fs = \<lparr>fs_entries = [], fs_dirs = []\<rparr>, d_seq = 0\<rparr>"

lemma shard_at_fresh [simp]: "shard_at E fresh_disk h = None"
  by (simp add: shard_at_def fresh_disk_def lookup_def)

lemma quiet_io_simps [simp]: "io_fault quiet_io op = None" "io_avail quiet_io = Inr 500000000" "io_now quiet_io = 10"
  by (simp_all add: quiet_io_def)

lemma store_succeeds:
  assumes "\<And>op. io_fault io op = None" "io_avail io = Inr a" "100 * 1024 * 1024 \<le> a"
  shows "fst (store E io d h data) = Ok ()"
proof -
  have "\<exists>d1. ensure_dir io d p = (Ok (), d1) \<and> dir_exists (d_fs d1) p" for p
    by (auto simp: ensure_dir_def assms(1) dir_exists_def)
  then obtain d1 where d1: "ensure_dir io d (fst (get_shard_path E h)) = (Ok (), d1)"
    "dir_exists (d_fs d1) (fst (get_shard_path E h))" by blast
  obtain tmp d2 where d2: "unique_temp_sibling io d1 (get_shard_path E h) = (tmp, d2)" by fastforce
  have "\<exists>f. run_ops io (d_fs d2) (store_ops tmp (get_shard_path E h) data) = (Inr (), f)"
    using sibling_temp[OF d2] d1(2) by (simp add: store_ops_def assms(1) fs_simps)
  then show ?thesis
    using assms(2,3) d1(1) d2 by (auto simp: store_def ensure_sufficient_space_def)
qed

section \<open>Properties\<close>

text \<open>C5. Storing a shard is all-or-nothing under every pattern of I/O failures: either the call
  reports success and the shard map is updated at exactly that hash, so that a later read of the
  hash returns the data, or it reports an error and no stored shard has changed.  With enough
  free space and no I/O failure the call does succeed.\<close>

theorem store_all_or_nothing:
  assumes "hex_ok E" "store E io d h data = (r, d')"
  shows "(r = Ok () \<and> shard_at E d' = (shard_at E d)(h \<mapsto> data) \<and>
            (\<forall>io2 x. get_shard E io2 d' h = Ok x \<longrightarrow> x = Some data)
          \<or> (\<exists>e. r = Err e \<and> shard_at E d' = shard_at E d))
     \<and> ((\<forall>op. io_fault io op = None) \<and> (\<exists>a. io_avail io = Inr a \<and> 104857600 \<le> a) \<longrightarrow> r = Ok ())"
proof (intro conjI)
  show "r = Ok () \<and> shard_at E d' = (shard_at E d)(h \<mapsto> data) \<and>
            (\<forall>io2 x. get_shard E io2 d' h = Ok x \<longrightarrow> x = Some data)
          \<or> (\<exists>e. r = Err e \<and> shard_at E d' = shard_at E d)"
    using disk.put_atomic[OF assms] disk.fetch_view[OF assms(1)] by fastforce
  show "(\<forall>op. io_fault io op = None) \<and> (\<exists>a. io_avail io = Inr a \<and> 104857600 \<le> a) \<longrightarrow> r = Ok ()"
    using store_succeeds[of io _ E d h data] assms(2) by auto
qed

theorem store_all_or_nothing_witness:
  "\<exists>d'. store toy_ext quiet_io fresh_disk (replicate 32 1) [9] = (Ok (), d')
     \<and> shard_at toy_ext d' = (shard_at toy_ext fresh_disk)(replicate 32 1 \<mapsto> [9])"
proof -
  obtain r d' where s: "store toy_ext quiet_io fresh_disk (replicate 32 1) [9] = (r, d')" by fastforce
  then show ?thesis using store_all_or_nothing[OF toy_hex_ok s] by auto
qed

text \<open>C6. A crash at any point of the durable write of \<open>store\<close>, including in the middle of writing
  the temp file, leaves every shard path as it was or, for the shard being written, the complete
  and fsynced new contents: no truncated or unsynced shard is ever visible.\<close>

theorem store_crash_safe:
  assumes "hex_ok E" "unique_temp_sibling io d (get_shard_path E h) = (tmp, d1)"
    and "crash_reach t f (store_ops tmp (get_shard_path E h) data) f'"
  shows "lookup f' (get_shard_path E k) = lookup f (get_shard_path E k)
     \<or> (k = h \<and> lookup f' (get_shard_path E k) = Some \<lparr>fcontent = data, fsynced = True, fmtime = t\<rparr>)"
proof -
  have "is_temp tmp" using sibling_temp[OF assms(2)] by blast
  then have ne: "get_shard_path E j \<noteq> tmp" for j using shard_path_not_temp[OF assms(1)] by metis
  show ?thesis
    using store_crash_lookup[OF assms(3) ne[symmetric] ne] shard_path_inj[OF assms(1)] by blast
qed

theorem store_crash_safe_witness:
  "let p = get_shard_path toy_ext (replicate 32 1);
       tmp = fst (unique_temp_sibling quiet_io fresh_disk p);
       f0 = \<lparr>fs_entries = [], fs_dirs = [fst p]\<rparr>;
       f1 = partial_exec 5 \<lparr>fs_entries = [(tmp, \<lparr>fcontent = [], fsynced = False, fmtime = 5\<rparr>)], fs_dirs = [fst p]\<rparr>
              (AppendF tmp [1, 2, 3]) 2
   in crash_reach 5 f0 (store_ops tmp p [1, 2, 3]) f1 \<and> lookup f1 p = None"
proof -
  define p where "p = get_shard_path toy_ext (replicate 32 1)"
  obtain tmp d1 where u: "unique_temp_sibling quiet_io fresh_disk p = (tmp, d1)" by fastforce
  define f0 where "f0 = \<lparr>fs_entries = [] :: (path \<times> dfile) list, fs_dirs = [fst p]\<rparr>"
  define g where "g = \<lparr>fs_entries = [(tmp, \<lparr>fcontent = [], fsynced = False, fmtime = 5\<rparr>)], fs_dirs = [fst p]\<rparr>"
  have "exec 5 f0 (CreateF tmp) = Inr g"
    using sibling_temp[OF u] by (simp add: f0_def g_def dir_exists_def put_file_def)
  then have c: "crash_reach 5 f0 (store_ops tmp p [1, 2, 3]) (partial_exec 5 g (AppendF tmp [1, 2, 3]) 2)"
    unfolding store_ops_def by (rule crash_reach.step) (rule crash_reach.partly)
  have "partial_exec 5 g (AppendF tmp [1, 2, 3]) 2 = put_file g tmp \<lparr>fcontent = [1, 2], fsynced = False, fmtime = 5\<rparr>"
    using sibling_temp[OF u] by (simp add: g_def dir_exists_def lookup_def)
  moreover have "tmp \<noteq> p" using sibling_temp[OF u] shard_path_not_temp[OF toy_hex_ok] unfolding p_def by metis
  moreover from this have "lookup g p = None" by (simp add: g_def lookup_def)
  ultimately have "lookup (partial_exec 5 g (AppendF tmp [1, 2, 3]) 2) p \<noteq> Some \<lparr>fcontent = [1, 2, 3], fsynced = True, fmtime = 5\<rparr>"
    by (simp add: fs_simps del: partial_exec.simps)
  then have "lookup (partial_exec 5 g (AppendF tmp [1, 2, 3]) 2) p = lookup f0 p"
    using store_crash_safe[OF toy_hex_ok u[unfolded p_def] c[unfolded p_def], of "replicate 32 1"] unfolding p_def by blast
  then show ?thesis
    using c u unfolding Let_def p_def[symmetric] by (simp add: f0_def g_def lookup_def del: partial_exec.simps)
qed

text \<open>In every store that the operations can produce, with whatever failures happened on the way,
  listing all shards returns each stored 32-byte hash exactly once, in ascending order, and nothing
  else: temp files and pinned objects never show up.\<close>

theorem list_shards_exact:
  assumes "hex_ok E" "disk_reach E d"
  shows "list_shards E d None = Ok (sorted_list_of_set {h. length h = 32 \<and> exists_shard E d h})"
  by (rule list_shards_wf[OF assms(1) disk_reach_wf[OF assms(2)]])

theorem list_shards_exact_witness:
  "list_shards toy_ext fresh_disk None = Ok (sorted_list_of_set {h. length h = 32 \<and> exists_shard toy_ext fresh_disk h})
   \<and> (\<exists>d. store toy_ext quiet_io fresh_disk (replicate 32 1) [9] = (Ok (), d)
        \<and> list_shards toy_ext d None = Ok [replicate 32 1])"
proof
  have fresh: "disk_reach toy_ext fresh_disk" unfolding fresh_disk_def by (rule disk_reach.fresh)
  then show "list_shards toy_ext fresh_disk None = Ok (sorted_list_of_set {h. length h = 32 \<and> exists_shard toy_ext fresh_disk h})"
    by (rule list_shards_exact[OF toy_hex_ok])
  have "fst (store toy_ext quiet_io fresh_disk (replicate 32 1) [9]) = Ok ()"
    by (rule store_succeeds[where a = 500000000]) simp_all
  then obtain d where s: "store toy_ext quiet_io fresh_disk (replicate 32 1) [9] = (Ok (), d)"
    by (metis prod.collapse)
  have "shard_at toy_ext d = (shard_at toy_ext fresh_disk)(replicate 32 1 \<mapsto> [9])"
    using store_atomic_view[OF toy_hex_ok s] by auto
  then have "exists_shard toy_ext d h \<longleftrightarrow> h = replicate 32 1" for h
    by (simp add: exists_shard_iff)
  then have "{h. length h = 32 \<and> exists_shard toy_ext d h} = {replicate 32 1}"
    by (rule singleton_by_length) simp
  moreover have "disk_reach toy_ext d" by (rule disk_reach.store[OF fresh _ s]) simp
  ultimately have "list_shards toy_ext d None = Ok (sorted_list_of_set {replicate 32 1})"
    using list_shards_exact[OF toy_hex_ok] by (simp only:)
  moreover have "sorted_list_of_set {x} = [x]" for x :: bytes by simp
  ultimately show "\<exists>d. store toy_ext quiet_io fresh_disk (replicate 32 1) [9] = (Ok (), d)
        \<and> list_shards toy_ext d None = Ok [replicate 32 1]" using s by metis
qed

text \<open>The startup sweep of temp files removes exactly the \<open>.tmp\<close> files at least as old as the limit
  (never one dated in the future), reports how many, and touches nothing else; even when removals
  fail, no shard and no pinned object is affected.\<close>

theorem cleanup_exact:
  assumes "hex_ok E" "disk_reach E d" "cleanup_stale_temp_files io d max_age = (r, d')"
  shows "shard_at E d' = shard_at E d \<and> get_pinned E io2 d' n = get_pinned E io2 d n
    \<and> ((\<forall>op. io_fault io op = None) \<longrightarrow>
         r = Ok (length (filter (stale io max_age) (fs_entries (d_fs d))))
         \<and> (\<forall>p. lookup (d_fs d') p = (case lookup (d_fs d) p of None \<Rightarrow> None
                | Some x \<Rightarrow> if stale io max_age (p, x) then None else Some x)))"
proof (intro conjI impI)
  have d': "d_fs d' = snd (cleanup_entries io max_age (fs_entries (d_fs d)) (d_fs d) 0)"
    "r = Ok (fst (cleanup_entries io max_age (fs_entries (d_fs d)) (d_fs d) 0))"
    using assms(3) by (auto simp: cleanup_stale_temp_files_def split: prod.splits)
  have frame: "\<not> is_temp q \<Longrightarrow> lookup (d_fs d') q = lookup (d_fs d) q" for q
    unfolding d' by (rule cleanup_entries_shards)
  show "shard_at E d' = shard_at E d"
    by (rule shard_at_cong) (rule frame[OF shard_path_not_temp[OF assms(1)]])
  show "get_pinned E io2 d' n = get_pinned E io2 d n"
    by (simp add: get_pinned_def frame[OF pinned_path_not_temp[OF assms(1)]])
  assume nf: "\<forall>op. io_fault io op = None"
  have dist: "distinct (map fst (fs_entries (d_fs d)))"
    using disk_reach_wf[OF assms(2)] by (simp add: fs_wf_def)
  then have lk: "(p, x) \<in> set (fs_entries (d_fs d)) \<longleftrightarrow> lookup (d_fs d) p = Some x" for p x
    by (simp add: lookup_def)
  have ex: "fst (cleanup_entries io max_age (fs_entries (d_fs d)) (d_fs d) 0) = 0 + length (filter (stale io max_age) (fs_entries (d_fs d)))
    \<and> (\<forall>q. lookup (snd (cleanup_entries io max_age (fs_entries (d_fs d)) (d_fs d) 0)) q =
         (if \<exists>x. (q, x) \<in> set (fs_entries (d_fs d)) \<and> stale io max_age (q, x) then None else lookup (d_fs d) q))"
    by (rule cleanup_entries_exact) (use nf dist lk in auto)
  then show "r = Ok (length (filter (stale io max_age) (fs_entries (d_fs d))))" using d' by simp
  show "\<forall>p. lookup (d_fs d') p = (case lookup (d_fs d) p of None \<Rightarrow> None
                | Some x \<Rightarrow> if stale io max_age (p, x) then None else Some x)"
    using ex unfolding d'(1) by (auto simp: lk split: option.splits)
qed

theorem cleanup_exact_witness:
  "shard_at toy_ext (snd (cleanup_stale_temp_files quiet_io fresh_disk 3600)) = shard_at toy_ext fresh_disk
   \<and> fst (cleanup_stale_temp_files quiet_io fresh_disk 3600) = Ok 0"
proof -
  obtain r d' where c: "cleanup_stale_temp_files quiet_io fresh_disk 3600 = (r, d')" by fastforce
  have "disk_reach toy_ext fresh_disk" unfolding fresh_disk_def by (rule disk_reach.fresh)
  from cleanup_exact[OF toy_hex_ok this c, of quiet_io "[]"] c show ?thesis
    by (simp add: fresh_disk_def)
qed

end
