(* ===== verification/Der.thy ===== *)
theory Der
  imports Externals_Model
begin

unbundle bit_operations_syntax

text \<open>
  The DER walk of \<open>np2p/src/crypto/identity.rs\<close>: \<open>read_tlv\<close>, \<open>sequence_children\<close>,
  \<open>parse_ed25519_spki\<close> and \<open>extract_public_key\<close>.  Slicing is partial in Rust, so the functions
  that slice return an outcome in which a panic is a value of its own; the theorems show that it
  does not arise.  The small encoders are those of the module's tests and serve to state what the
  walk returns on real certificates.
\<close>

section \<open>The walk\<close>

type_synonym tlv = "byte \<times> nat \<times> nat"

fun read_len :: "bytes \<Rightarrow> nat \<Rightarrow> nat \<Rightarrow> nat \<Rightarrow> (nat \<times> nat) option" where
  "read_len der 0 p l = Some (l, p)"
| "read_len der (Suc n) p l =
     (case get_idx der p of None \<Rightarrow> None | Some b \<Rightarrow> read_len der n (p + 1) (l * 256 + unat b))"

definition read_tlv :: "bytes \<Rightarrow> nat \<Rightarrow> tlv option" where
  "read_tlv der pos =
     (case get_idx der pos of None \<Rightarrow> None | Some tag \<Rightarrow>
      (case get_idx der (pos + 1) of None \<Rightarrow> None | Some first \<Rightarrow>
       (case (if first AND 0x80 = 0 then Some (unat first, pos + 2)
              else let n = unat (first AND 0x7f) in
                   if n = 0 \<or> n > 4 then None else read_len der n (pos + 2) 0)
        of None \<Rightarrow> None
         | Some (len, value_start) \<Rightarrow>
             if value_start + len > length der then None else Some (tag, value_start, len))))"

lemma read_len_pos: "read_len der n p l = Some (len, v) \<Longrightarrow> v = p + n"
  by (induction n arbitrary: p l) (fastforce split: option.splits)+

lemma read_tlv_bounds:
  assumes "read_tlv der pos = Some (tag, vs, vl)"
  shows "pos + 2 \<le> vs" "vs + vl \<le> length der" "pos < length der" "tag = der ! pos"
  using assms
  by (auto simp: read_tlv_def get_idx_def Let_def dest: read_len_pos split: option.splits if_splits)

function sequence_children :: "bytes \<Rightarrow> nat \<Rightarrow> nat \<Rightarrow> tlv list" where
  "sequence_children der pos stop =
     (if pos < stop then
        (case read_tlv der pos of
           Some (tag, vs, vl) \<Rightarrow> (tag, vs, vl) # sequence_children der (vs + vl) stop
         | None \<Rightarrow> [])
      else [])"
  by pat_completeness auto
termination
  by (relation "measure (\<lambda>(der, pos, stop). stop - pos)") (auto dest: read_tlv_bounds(1))

declare sequence_children.simps [simp del]

definition seq_children :: "bytes \<Rightarrow> nat \<Rightarrow> nat \<Rightarrow> tlv list" where
  "seq_children der value_start value_len = sequence_children der value_start (value_start + value_len)"

definition parse_ed25519_spki :: "bytes \<Rightarrow> byte \<Rightarrow> nat \<Rightarrow> nat \<Rightarrow> bytes option outcome" where
  "parse_ed25519_spki der tag val len =
     (if tag \<noteq> 0x30 then Done None
      else let spki = seq_children der val len in
      if length spki \<noteq> 2 then Done None
      else let (alg_tag, alg_val, alg_len) = spki ! 0; (bit_tag, bit_val, bit_len) = spki ! 1 in
      if alg_tag \<noteq> 0x30 \<or> bit_tag \<noteq> 0x03 then Done None
      else let alg = seq_children der alg_val alg_len in
      (case alg of
         [] \<Rightarrow> Done None
       | (oid_tag, oid_val, oid_len) # _ \<Rightarrow>
           if oid_tag \<noteq> 0x06 then Done None
           else bind_out (of_slice (slice der oid_val (oid_val + oid_len))) (\<lambda>oid.
             if oid \<noteq> [0x2b, 0x65, 0x70] then Done None
             else bind_out (of_slice (slice der bit_val (bit_val + bit_len))) (\<lambda>bit_string.
               if bit_len < 33 then Done None
               else bind_out (of_slice (get_idx bit_string 0)) (\<lambda>unused.
                 if unused \<noteq> 0 then Done None
                 else bind_out (of_slice (slice bit_string 1 33)) (\<lambda>key. Done (Some key)))))))"

text \<open>The loop over the two candidate positions.\<close>

fun try_positions :: "bytes \<Rightarrow> tlv list \<Rightarrow> nat list \<Rightarrow> bytes option outcome" where
  "try_positions der tbs [] = Done None"
| "try_positions der tbs (idx # idxs) =
     (case get_idx tbs idx of
        None \<Rightarrow> try_positions der tbs idxs
      | Some (tag, val, len) \<Rightarrow>
          bind_out (parse_ed25519_spki der tag val len) (\<lambda>r.
            case r of Some key \<Rightarrow> Done (Some key) | None \<Rightarrow> try_positions der tbs idxs))"

definition extract_public_key :: "bytes \<Rightarrow> bytes option outcome" where
  "extract_public_key cert_der =
     (case read_tlv cert_der 0 of
        None \<Rightarrow> Done None
      | Some (outer_tag, cert_val, cert_len) \<Rightarrow>
          if outer_tag \<noteq> 0x30 then Done None
          else (case seq_children cert_der cert_val cert_len of
                  [] \<Rightarrow> Done None
                | (_, tbs_val, tbs_len) # _ \<Rightarrow>
                    try_positions cert_der (seq_children cert_der tbs_val tbs_len) [6, 5]))"

lemma sequence_children_step:
  "read_tlv der pos = Some (t, vs, vl) \<Longrightarrow> pos < stop \<Longrightarrow>
     sequence_children der pos stop = (t, vs, vl) # sequence_children der (vs + vl) stop"
  by (subst sequence_children.simps) simp

section \<open>Every element found lies inside the buffer\<close>

lemma sequence_children_bounds:
  "(tag, vs, vl) \<in> set (sequence_children der pos e) \<Longrightarrow> vs + vl \<le> length der"
proof (induction der pos e rule: sequence_children.induct)
  case (1 der pos e)
  show ?case
  proof (cases "read_tlv der pos")
    case None
    then have "sequence_children der pos e = []" by (subst sequence_children.simps) simp
    then show ?thesis using "1.prems" by simp
  next
    case (Some x)
    obtain t v l where x: "x = (t, v, l)" by (cases x)
    have "sequence_children der pos e = (if pos < e then (t, v, l) # sequence_children der (v + l) e else [])"
      using Some by (subst sequence_children.simps) (simp add: x)
    then show ?thesis
      using "1.prems" "1.IH" Some read_tlv_bounds(2)[of der pos t v l] by (auto simp: x split: if_splits)
  qed
qed

lemma seq_children_bounds: "(tag, vs, vl) \<in> set (seq_children der v l) \<Longrightarrow> vs + vl \<le> length der"
  by (simp add: seq_children_def sequence_children_bounds)

lemma parse_spki_done: "\<exists>r. parse_ed25519_spki der tag val len = Done r \<and> (\<forall>k. r = Some k \<longrightarrow> length k = 32)"
proof -
  let ?s = "seq_children der val len"
  consider (no) "tag \<noteq> 0x30 \<or> length ?s \<noteq> 2" | (two) "tag = 0x30" "length ?s = 2" by blast
  then show ?thesis
  proof cases
    case no
    then show ?thesis by (auto simp: parse_ed25519_spki_def)
  next
    case two
    obtain at av al bt bv bl where s: "?s = [(at, av, al), (bt, bv, bl)]"
      using two(2) by (cases ?s rule: remdups_adj.cases) auto
    have b: "bv + bl \<le> length der" using seq_children_bounds[of bt bv bl der val len] s by simp
    show ?thesis
    proof (cases "seq_children der av al")
      case Nil
      then show ?thesis using two s by (simp add: parse_ed25519_spki_def)
    next
      case (Cons o' os)
      obtain ot ov ol where o: "o' = (ot, ov, ol)" by (cases o')
      have "ov + ol \<le> length der" using seq_children_bounds[of ot ov ol der av al] Cons o by simp
      then show ?thesis
        using two s b Cons o
        by (auto simp: parse_ed25519_spki_def slice_def of_slice_def get_idx_def)
    qed
  qed
qed

lemma try_positions_done:
  "\<exists>r. try_positions der tbs idxs = Done r \<and> (\<forall>k. r = Some k \<longrightarrow> length k = 32)"
proof (induction idxs)
  case (Cons i idxs)
  show ?case
  proof (cases "get_idx tbs i")
    case (Some x)
    obtain t v l where x: "x = (t, v, l)" by (cases x)
    obtain r where "parse_ed25519_spki der t v l = Done r" "\<forall>k. r = Some k \<longrightarrow> length k = 32"
      using parse_spki_done by blast
    then show ?thesis using Some x Cons by (cases r) auto
  qed (use Cons in auto)
qed simp

lemma extract_done: "\<exists>r. extract_public_key der = Done r \<and> (\<forall>k. r = Some k \<longrightarrow> length k = 32)"
  using try_positions_done[of der _ "[6, 5]"]
  by (auto simp: extract_public_key_def split: option.splits list.splits simp del: try_positions.simps)

section \<open>Encoding\<close>

definition der_len :: "nat \<Rightarrow> bytes" where
  "der_len len =
     (if len < 0x80 then [word_of_nat len]
      else if len < 0x100 then [0x81, word_of_nat len]
      else [0x82, word_of_nat (len div 256), word_of_nat (len mod 256)])"

definition enc :: "byte \<times> bytes \<Rightarrow> bytes" where
  "enc f = fst f # der_len (length (snd f)) @ snd f"

definition der_seq :: "bytes list \<Rightarrow> bytes" where
  "der_seq children = enc (0x30, concat children)"

definition der_oid :: "bytes \<Rightarrow> bytes" where
  "der_oid content = enc (0x06, content)"

definition der_ed25519_alg :: bytes where
  "der_ed25519_alg = der_seq [der_oid [0x2b, 0x65, 0x70]]"

definition der_bitstring :: "bytes \<Rightarrow> byte \<Rightarrow> bytes" where
  "der_bitstring key unused_bits = enc (0x03, unused_bits # key)"

definition der_ed25519_spki :: "bytes \<Rightarrow> bytes" where
  "der_ed25519_spki key = der_seq [der_ed25519_alg, der_bitstring key 0]"

text \<open>A field of a certificate that the walk can step over.\<close>

definition small :: "byte \<times> bytes \<Rightarrow> bool" where
  "small f \<longleftrightarrow> length (snd f) < 65536"

lemma get_idx_app [simp]: "get_idx (xs @ y # ys) (length xs) = Some y"
  by (simp add: get_idx_def)

lemma get_idx_skip: "get_idx (xs @ ys) (length xs + i) = get_idx ys i"
  by (simp add: get_idx_def nth_append)

lemma byte_and_80: "w AND 0x80 = 0 \<longleftrightarrow> unat w < 128" for w :: byte
proof -
  have "w AND 2 ^ 7 = 0 \<longleftrightarrow> \<not> bit w 7" by (rule and_exp_eq_0_iff_not_bit)
  moreover have "bit w 7 \<longleftrightarrow> odd (unat w div 2 ^ 7)"
    by (metis bit_iff_odd bit_unsigned_iff possible_bit_nat)
  moreover have "unat w < 256" by (rule unat_byte_lt)
  moreover have "even (unat w div 128) \<longleftrightarrow> unat w < 128" if "unat w < 256"
  proof -
    have "unat w div 128 = (if unat w < 128 then 0 else 1)"
      using that by (auto intro!: div_nat_eqI)
    then show ?thesis by simp
  qed
  ultimately show ?thesis by simp
qed

lemma byte_and_7f: "unat (w AND 0x7f) = unat w mod 128" for w :: byte
proof -
  have "w AND mask 7 = take_bit 7 w" by (simp add: take_bit_eq_mask)
  then have "unat (w AND 0x7f) = unat (take_bit 7 w)" by (simp add: mask_eq_exp_minus_1)
  also have "\<dots> = take_bit 7 (unat w)" by (rule unsigned_take_bit_eq)
  also have "\<dots> = unat w mod 128" by (simp add: take_bit_eq_mod)
  finally show ?thesis .
qed

lemma long_form:
  "(0x81 AND 0x80 = (0 :: byte)) = False" "unat (0x81 AND 0x7f :: byte) = 1"
  "(0x82 AND 0x80 = (0 :: byte)) = False" "unat (0x82 AND 0x7f :: byte) = 2"
  by (simp_all add: byte_and_80 byte_and_7f)

lemma read_len_one:
  "read_len der 1 p l = (case get_idx der p of None \<Rightarrow> None | Some b \<Rightarrow> Some (l * 256 + unat b, p + 1))"
  by (simp split: option.split)

lemma read_len_two:
  "read_len der 2 p l =
     (case get_idx der p of None \<Rightarrow> None | Some b \<Rightarrow>
      (case get_idx der (p + 1) of None \<Rightarrow> None | Some c \<Rightarrow> Some ((l * 256 + unat b) * 256 + unat c, p + 2)))"
  by (simp add: numeral_2_eq_2 split: option.split)

lemma length_der_len: "1 \<le> length (der_len n) \<and> length (der_len n) \<le> 3"
  by (simp add: der_len_def)

lemma read_tlv_enc:
  assumes "small f"
  shows "read_tlv (pre @ enc f @ post) (length pre)
    = Some (fst f, length pre + 1 + length (der_len (length (snd f))), length (snd f))"
proof -
  obtain t c where f: "f = (t, c)" by (cases f)
  let ?n = "length c"
  have n: "?n < 65536" using assms by (simp add: small_def f)
  have u: "unat (word_of_nat m :: byte) = m" if "m < 256" for m using that by (rule unat_byte_of_nat)
  let ?der = "pre @ enc f @ post"
  consider "?n < 128" | "128 \<le> ?n" "?n < 256" | "256 \<le> ?n" by linarith
  then show ?thesis
  proof cases
    case 1
    then show ?thesis
      by (simp add: f enc_def der_len_def read_tlv_def byte_and_80 u get_idx_def nth_append)
  next
    case 2
    have d: "?der = pre @ [t, 0x81, word_of_nat ?n] @ c @ post" using 2 by (simp add: f enc_def der_len_def)
    have g: "get_idx ?der (length pre) = Some t" "get_idx ?der (length pre + 1) = Some 0x81"
      "get_idx ?der (length pre + 2) = Some (word_of_nat ?n)"
      unfolding d by (simp_all add: get_idx_def nth_append)
    have "read_len ?der 1 (length pre + 2) 0 = Some (?n, length pre + 3)"
      unfolding read_len_one g by (simp only: option.case u[OF 2(2)]) simp
    moreover have "length ?der = length pre + 3 + ?n + length post" unfolding d by simp
    ultimately show ?thesis
      unfolding read_tlv_def g using 2 by (simp add: long_form f der_len_def del: length_append read_len.simps)
  next
    case 3
    have m: "?n div 256 < 256" "?n mod 256 < 256" using n by auto
    have d: "?der = pre @ [t, 0x82, word_of_nat (?n div 256), word_of_nat (?n mod 256)] @ c @ post"
      using 3 by (simp add: f enc_def der_len_def)
    have g: "get_idx ?der (length pre) = Some t" "get_idx ?der (length pre + 1) = Some 0x82"
      "get_idx ?der (length pre + 2) = Some (word_of_nat (?n div 256))"
      "get_idx ?der (length pre + 2 + 1) = Some (word_of_nat (?n mod 256))"
      unfolding d by (simp_all add: get_idx_def nth_append)
    have "read_len ?der 2 (length pre + 2) 0 = Some (?n, length pre + 4)"
      unfolding read_len_two g by (simp only: option.case u[OF m(1)] u[OF m(2)]) simp
    moreover have "length ?der = length pre + 4 + ?n + length post" unfolding d by simp
    ultimately show ?thesis
      unfolding read_tlv_def g using 3 by (simp add: long_form f der_len_def del: length_append read_len.simps)
  qed
qed

text \<open>Where the children of a sequence of encoded fields lie.\<close>

fun layout :: "nat \<Rightarrow> (byte \<times> bytes) list \<Rightarrow> tlv list" where
  "layout p [] = []"
| "layout p (f # fs) =
     (fst f, p + 1 + length (der_len (length (snd f))), length (snd f)) # layout (p + length (enc f)) fs"

lemma length_layout [simp]: "length (layout p fs) = length fs"
  by (induction fs arbitrary: p) auto

lemma length_enc: "length (enc f) = 1 + length (der_len (length (snd f))) + length (snd f)"
  by (simp add: enc_def)

lemma sequence_children_enc:
  assumes "list_all small fs"
  shows "sequence_children (pre @ concat (map enc fs) @ post) (length pre) (length pre + length (concat (map enc fs)))
    = layout (length pre) fs"
  using assms
proof (induction fs arbitrary: pre)
  case Nil
  then show ?case by (simp add: sequence_children.simps)
next
  case (Cons f fs)
  let ?der = "pre @ concat (map enc (f # fs)) @ post"
  have t: "read_tlv ?der (length pre) = Some (fst f, length pre + 1 + length (der_len (length (snd f))), length (snd f))"
    using read_tlv_enc[of f pre "concat (map enc fs) @ post"] Cons.prems by simp
  have "sequence_children ?der (length pre) (length pre + length (concat (map enc (f # fs))))
    = (fst f, length pre + 1 + length (der_len (length (snd f))), length (snd f))
      # sequence_children ?der (length pre + length (enc f)) (length pre + length (concat (map enc (f # fs))))"
    using sequence_children_step[OF t, of "length pre + length (concat (map enc (f # fs)))"]
    by (simp add: length_enc ac_simps)
  also have "sequence_children ?der (length pre + length (enc f)) (length pre + length (concat (map enc (f # fs))))
    = layout (length pre + length (enc f)) fs"
    using Cons.IH[of "pre @ enc f"] Cons.prems by (simp add: ac_simps)
  finally show ?case by simp
qed

lemma seq_children_enc:
  assumes "list_all small fs" "der = pre @ concat (map enc fs) @ post"
  shows "seq_children der (length pre) (length (concat (map enc fs))) = layout (length pre) fs"
  unfolding seq_children_def assms(2) by (rule sequence_children_enc[OF assms(1)])

text \<open>The key is recovered from its SubjectPublicKeyInfo wherever that lies in the buffer.\<close>

definition oid_field :: "byte \<times> bytes" where "oid_field = (0x06, [0x2b, 0x65, 0x70])"
definition alg_field :: "byte \<times> bytes" where "alg_field = (0x30, enc oid_field)"
definition key_field :: "bytes \<Rightarrow> byte \<times> bytes" where "key_field key = (0x03, 0 # key)"
definition spki_field :: "bytes \<Rightarrow> byte \<times> bytes" where
  "spki_field key = (0x30, enc alg_field @ enc (key_field key))"

lemma enc_spki_field: "enc (spki_field key) = der_ed25519_spki key"
  by (simp add: der_ed25519_spki_def der_seq_def spki_field_def der_ed25519_alg_def der_oid_def
      der_bitstring_def alg_field_def key_field_def oid_field_def)

lemma hdr_small:
  "enc oid_field = [0x06, 3, 0x2b, 0x65, 0x70]"
  "enc alg_field = [0x30, 5, 0x06, 3, 0x2b, 0x65, 0x70]"
  "length key = 32 \<Longrightarrow> enc (key_field key) = [0x03, 33, 0] @ key"
  "length key = 32 \<Longrightarrow> spki_field key = (0x30, [0x30, 5, 0x06, 3, 0x2b, 0x65, 0x70, 0x03, 33, 0] @ key)"
  by (simp_all add: enc_def oid_field_def alg_field_def key_field_def spki_field_def der_len_def)

lemma field_small: "small oid_field" "small alg_field" "length key = 32 \<Longrightarrow> small (key_field key)"
  by (simp_all add: small_def oid_field_def alg_field_def key_field_def enc_def der_len_def)

lemma parse_spki_enc:
  assumes "length key = 32" "der = pre @ enc (spki_field key) @ post"
  shows "parse_ed25519_spki der 0x30 (length pre + 2) (length (snd (spki_field key))) = Done (Some key)"
proof -
  have e: "enc (spki_field key) = [0x30, 42] @ enc alg_field @ enc (key_field key)"
    unfolding enc_def[of "spki_field key"] using assms(1) by (simp add: hdr_small der_len_def)
  have c1: "seq_children der (length pre + 2) (length (snd (spki_field key)))
      = [(0x30, length pre + 4, 5), (0x03, length pre + 11, 33)]"
  proof -
    have "seq_children der (length (pre @ [0x30, 42])) (length (concat (map enc [alg_field, key_field key])))
        = layout (length (pre @ [0x30, 42])) [alg_field, key_field key]"
      by (rule seq_children_enc[where post = post])
        (use assms e in \<open>simp_all add: field_small hdr_small\<close>)
    then show ?thesis
      using assms(1) by (simp add: spki_field_def alg_field_def key_field_def hdr_small der_len_def length_enc)
  qed
  have c2: "seq_children der (length pre + 4) 5 = [(0x06, length pre + 6, 3)]"
  proof -
    have "seq_children der (length (pre @ [0x30, 42, 0x30, 5])) (length (concat (map enc [oid_field])))
        = layout (length (pre @ [0x30, 42, 0x30, 5])) [oid_field]"
      by (rule seq_children_enc[where post = "enc (key_field key) @ post"])
        (use assms e in \<open>simp_all add: field_small hdr_small\<close>)
    moreover have "length (concat (map enc [oid_field])) = 5" by (simp add: hdr_small)
    ultimately show ?thesis by (simp add: oid_field_def der_len_def add.commute eval_nat_numeral)
  qed
  have der: "der = (pre @ [0x30, 42, 0x30, 5, 0x06, 3]) @ [0x2b, 0x65, 0x70] @ ([0x03, 33, 0] @ key @ post)"
    "der = (pre @ [0x30, 42, 0x30, 5, 0x06, 3, 0x2b, 0x65, 0x70, 0x03, 33]) @ ([0] @ key) @ post"
    using assms e by (simp_all add: hdr_small)
  have s1: "slice der (length pre + 6) (9 + length pre) = Some [0x2b, 0x65, 0x70]"
    by (rule slice_mid[OF der(1)]) simp_all
  have s2: "slice der (length pre + 11) (44 + length pre) = Some ([0] @ key)"
    by (rule slice_mid[OF der(2)]) (simp_all add: assms(1))
  show ?thesis
    using assms(1) unfolding parse_ed25519_spki_def c1
    by (simp add: c2 s1 s2 of_slice_def get_idx_def) (simp add: slice_def)
qed

section \<open>Certificates\<close>

text \<open>An X.509 certificate: the to-be-signed sequence of fields, then whatever follows it.\<close>

definition certificate :: "(byte \<times> bytes) list \<Rightarrow> (byte \<times> bytes) list \<Rightarrow> bytes" where
  "certificate tbs rest = der_seq (der_seq (map enc tbs) # map enc rest)"

lemma layout_nth:
  "i < length fs \<Longrightarrow> layout p fs ! i =
     (fst (fs ! i), p + length (concat (map enc (take i fs))) + 1 + length (der_len (length (snd (fs ! i)))),
      length (snd (fs ! i)))"
  by (induction fs arbitrary: p i) (auto simp: nth_Cons ac_simps split: nat.splits)

lemma parse_spki_layout:
  assumes "der = pre @ concat (map enc fs) @ post" "i < length fs" "fs ! i = spki_field key" "length key = 32"
    and "layout (length pre) fs ! i = (tag, val, len)"
  shows "parse_ed25519_spki der tag val len = Done (Some key)"
proof -
  let ?p = "pre @ concat (map enc (take i fs))"
  have "concat (map enc fs) = concat (map enc (take i fs)) @ enc (fs ! i) @ concat (map enc (drop (Suc i) fs))"
    using id_take_nth_drop[OF assms(2)] by (metis concat.simps(2) concat_append list.simps(9) map_append)
  then have der: "der = ?p @ enc (spki_field key) @ concat (map enc (drop (Suc i) fs)) @ post"
    using assms(1,3) by simp
  have "length (der_len (length (snd (spki_field key)))) = 1"
    using assms(4) by (simp add: hdr_small der_len_def)
  then have "tag = 0x30" "val = length ?p + 2" "len = length (snd (spki_field key))"
    using assms(5) layout_nth[OF assms(2), of "length pre"] assms(3)
    by (auto simp: spki_field_def)
  then show ?thesis using parse_spki_enc[OF assms(4) der] by simp
qed

lemma extract_certificate:
  assumes "list_all small tbs" "list_all small rest"
    and "length (concat (map enc tbs)) < 65536" "length (concat (der_seq (map enc tbs) # map enc rest)) < 65536"
  obtains pre post where "certificate tbs rest = pre @ concat (map enc tbs) @ post"
    "extract_public_key (certificate tbs rest) = try_positions (certificate tbs rest) (layout (length pre) tbs) [6, 5]"
proof -
  let ?T = "(0x30 :: byte, concat (map enc tbs))"
  let ?body = "concat (map enc (?T # rest))"
  let ?C = "(0x30 :: byte, ?body)"
  let ?h = "0x30 # der_len (length ?body)"
  let ?ht = "0x30 # der_len (length (concat (map enc tbs)))"
  have c: "certificate tbs rest = enc ?C" by (simp add: certificate_def der_seq_def)
  have smallC: "small ?C" "list_all small (?T # rest)"
    using assms by (simp_all add: small_def der_seq_def)
  have r: "read_tlv (certificate tbs rest) 0 = Some (0x30, length ?h, length ?body)"
    using read_tlv_enc[OF smallC(1), of "[]" "[]"] by (simp add: c)
  have c1: "certificate tbs rest = ?h @ ?body @ []" by (simp add: c enc_def)
  have ch: "seq_children (certificate tbs rest) (length ?h) (length ?body) = layout (length ?h) (?T # rest)"
    by (rule seq_children_enc[OF smallC(2) c1])
  have c2: "certificate tbs rest = (?h @ ?ht) @ concat (map enc tbs) @ concat (map enc rest)"
    unfolding c1 by (simp add: enc_def)
  have ch2: "seq_children (certificate tbs rest) (length (?h @ ?ht)) (length (concat (map enc tbs))) = layout (length (?h @ ?ht)) tbs"
    by (rule seq_children_enc[OF assms(1) c2])
  have "extract_public_key (certificate tbs rest) = try_positions (certificate tbs rest) (layout (length (?h @ ?ht)) tbs) [6, 5]"
    unfolding extract_public_key_def r using ch ch2
    by (simp del: try_positions.simps)
  then show thesis using that c2 by blast
qed

text \<open>A SubjectPublicKeyInfo of another algorithm.\<close>

definition ec_key_field :: "byte \<times> bytes" where
  "ec_key_field = (0x30, enc (0x30, enc (0x06, [0x2a, 0x86, 0x48, 0xce, 0x3d, 0x02, 0x01])) @ enc (0x03, 0 # replicate 65 4))"

section \<open>Properties\<close>

text \<open>On any byte string whatsoever, a peer's malformed certificate included, the extraction of the
  public key terminates without an out-of-range access, and a key it returns has 32 bytes.\<close>

theorem extract_public_key_never_panics:
  "\<exists>r. extract_public_key cert_der = Done r \<and> (r = None \<or> (\<exists>k. r = Some k \<and> length k = 32))"
  using extract_done[of cert_der] by (metis option.exhaust)

text \<open>The key is read at its grammar position and nowhere else: for a certificate whose seventh
  to-be-signed field is an Ed25519 SubjectPublicKeyInfo (version present), or whose sixth and last
  is (version absent), the extraction returns that key, whatever bytes all other fields contain.
  A victim's key planted in an issuer, a subject or an extension of such a certificate is ignored.\<close>

theorem extract_public_key_positions:
  assumes "list_all small tbs" "list_all small rest" "length key = 32"
    and "length (concat (map enc tbs)) < 65536" "length (concat (der_seq (map enc tbs) # map enc rest)) < 65536"
    and "(6 < length tbs \<and> tbs ! 6 = spki_field key) \<or> (length tbs = 6 \<and> tbs ! 5 = spki_field key)"
  shows "extract_public_key (certificate tbs rest) = Done (Some key)"
proof -
  obtain pre post where c: "certificate tbs rest = pre @ concat (map enc tbs) @ post"
    and e: "extract_public_key (certificate tbs rest) = try_positions (certificate tbs rest) (layout (length pre) tbs) [6, 5]"
    by (rule extract_certificate[OF assms(1,2,4,5)])
  note p = parse_spki_layout[OF c _ _ assms(3)]
  show ?thesis
    using assms(6)
  proof
    assume h: "6 < length tbs \<and> tbs ! 6 = spki_field key"
    obtain t v l where l: "layout (length pre) tbs ! 6 = (t, v, l)" by (cases "layout (length pre) tbs ! 6")
    show ?thesis unfolding e using p[of 6, OF _ _ l] h l by (simp add: get_idx_def)
  next
    assume h: "length tbs = 6 \<and> tbs ! 5 = spki_field key"
    obtain t v l where l: "layout (length pre) tbs ! 5 = (t, v, l)" by (cases "layout (length pre) tbs ! 5")
    show ?thesis unfolding e using p[of 5, OF _ _ l] h l by (simp add: get_idx_def)
  qed
qed

theorem extract_public_key_positions_witness:
  "extract_public_key
     (certificate [(0xA0, [2, 1, 2]), (2, [1]), (0x30, []), (0x30, snd (spki_field (replicate 32 0x11))), (0x30, []),
        spki_field (replicate 32 0x11), spki_field (replicate 32 7)] [(0x30, []), (3, [0])])
   = Done (Some (replicate 32 7))"
  by (rule extract_public_key_positions)
    (simp_all add: small_def spki_field_def enc_def alg_field_def key_field_def oid_field_def der_len_def der_seq_def)

text \<open>The walk does not look at the version field before choosing the position: when the seventh
  field is not an Ed25519 key (here an EC key) it tries the sixth, which in a version-3 certificate
  is the subject, and returns a key planted there.\<close>

theorem extract_falls_back_to_subject:
  "extract_public_key
     (certificate [(0xA0, [2, 1, 2]), (2, [1]), (0x30, []), (0x30, []), (0x30, []),
        spki_field (replicate 32 0x11), ec_key_field] [])
   = Done (Some (replicate 32 0x11))"
  by code_simp

end
