(* ===== verification/Identity.thy ===== *)
theory Identity
  imports Der
begin

text \<open>
  The rest of \<open>np2p/src/crypto/identity.rs\<close>: node identities, Ed25519 signatures, the shard tokens
  that authorize an operation on a shard, and the pinning of a peer's certificate to the node id it
  was dialed by.  The clock is an argument.
\<close>

section \<open>NodeIdentity\<close>

definition NODE_ID_LENGTH :: nat where "NODE_ID_LENGTH = 32"

record node_identity =
  signing_key :: bytes

definition from_secret :: "ext \<Rightarrow> string \<Rightarrow> node_identity" where
  "from_secret E secret = \<lparr>signing_key = blake3 E (str_bytes (''reminisce-p2p-identity:'' @ secret))\<rparr>"

definition from_secret_hardened :: "ext \<Rightarrow> string \<Rightarrow> node_identity" where
  "from_secret_hardened E secret =
     \<lparr>signing_key = argon2id E (str_bytes secret) (str_bytes ''reminisce-p2p-identity-v2'')\<rparr>"

definition from_secret_bytes :: "bytes \<Rightarrow> node_identity result" where
  "from_secret_bytes bs =
     (if length bs \<noteq> 32
      then Err (Identity (''Invalid secret key size: expected 32, got '' @ show_nat (length bs)))
      else Ok \<lparr>signing_key = bs\<rparr>)"

definition node_id :: "ext \<Rightarrow> node_identity \<Rightarrow> bytes" where
  "node_id E i = ed_public E (signing_key i)"

definition sign :: "ext \<Rightarrow> node_identity \<Rightarrow> bytes \<Rightarrow> bytes" where
  "sign E i msg = ed_sign E (signing_key i) msg"

definition verify_signature :: "ext \<Rightarrow> bytes \<Rightarrow> bytes \<Rightarrow> bytes \<Rightarrow> bool" where
  "verify_signature E node_id_bytes msg signature_bytes =
     (if length node_id_bytes \<noteq> 32 then False
      else if length signature_bytes \<noteq> 64 then False
      else if \<not> ed_point_ok E node_id_bytes then False
      else ed_verify E node_id_bytes msg signature_bytes)"

section \<open>Shard tokens\<close>

datatype shard_op = OpStore | OpRetrieve | OpDelete | OpList

fun op_tag :: "shard_op \<Rightarrow> byte" where
  "op_tag OpStore = 0x01"
| "op_tag OpRetrieve = 0x02"
| "op_tag OpDelete = 0x03"
| "op_tag OpList = 0x04"

record shard_token =
  owner_node_id :: bytes
  timestamp :: u64
  signature :: bytes

definition token_msg :: "shard_op \<Rightarrow> bytes \<Rightarrow> u64 \<Rightarrow> bytes" where
  "token_msg op shard_hash ts = [op_tag op] @ shard_hash @ u64_be ts"

definition create_shard_token :: "ext \<Rightarrow> u64 \<Rightarrow> node_identity \<Rightarrow> shard_op \<Rightarrow> bytes \<Rightarrow> shard_token" where
  "create_shard_token E clock i op shard_hash =
     (let msg_to_sign = token_msg op shard_hash clock
      in \<lparr>owner_node_id = node_id E i, timestamp = clock, signature = sign E i msg_to_sign\<rparr>)"

definition verify_shard_token :: "ext \<Rightarrow> u64 \<Rightarrow> shard_token \<Rightarrow> shard_op \<Rightarrow> bytes \<Rightarrow> bytes option \<Rightarrow> bool" where
  "verify_shard_token E clock token op shard_hash allowed_owner_id =
     (if (case allowed_owner_id of Some allowed \<Rightarrow> owner_node_id token \<noteq> allowed | None \<Rightarrow> False) then False
      else if abs_diff clock (timestamp token) > 300 then False
      else verify_signature E (owner_node_id token) (token_msg op shard_hash (timestamp token)) (signature token))"

section \<open>Certificate pinning\<close>

definition quote :: string where "quote = [CHR 0x27]"
definition em_dash :: string where "em_dash = [CHR 0xE2, CHR 0x80, CHR 0x94]"

definition sni_for_node_id :: "string \<Rightarrow> string result" where
  "sni_for_node_id nid =
     (if length nid \<noteq> 64 \<or> \<not> list_all is_hexdigit nid
      then Err (Crypto (''Connection server name must be a 64-hex Node ID, got '' @ quote @ nid @ quote))
      else Ok (take 32 nid @ ''.'' @ drop 32 nid))"

datatype server_name = DnsName string | OtherName

definition strip_dots :: "string \<Rightarrow> string" where
  "strip_dots s = filter (\<lambda>c. c \<noteq> CHR ''.'') s"

definition verify_server_cert :: "ext \<Rightarrow> bytes \<Rightarrow> server_name \<Rightarrow> (string + unit) outcome" where
  "verify_server_cert E end_entity name =
     bind_out (extract_public_key end_entity) (\<lambda>k. Done
       (case k of
          None \<Rightarrow> Err ''Invalid or missing Ed25519 public key in certificate''
        | Some pubkey \<Rightarrow>
            (case name of
               OtherName \<Rightarrow> Err ''Unsupported server name (expected hex Node ID)''
             | DnsName name_str_encoded \<Rightarrow>
                 let name_str = strip_dots name_str_encoded in
                 if length name_str \<noteq> 64 \<or> \<not> list_all is_hexdigit name_str
                 then Err (''Server name '' @ quote @ name_str @ quote @ '' does not encode a 64-hex Node ID ''
                        @ em_dash @ '' refusing unverified connection'')
                 else (case hex_decode E name_str of
                         None \<Rightarrow> Err ''Failed to decode server name as hex''
                       | Some expected_key_bytes \<Rightarrow>
                           if pubkey \<noteq> expected_key_bytes
                           then Err ''Certificate public key does not match expected Node ID''
                           else Ok ()))))"

section \<open>Lemmas\<close>

lemma op_tag_inj: "op_tag a = op_tag b \<longleftrightarrow> a = b"
  by (cases a; cases b) auto

text \<open>The signed message determines the operation, the 32-byte hash and the time.\<close>

lemma token_msg_inj:
  assumes "length h = length h'" "token_msg op h ts = token_msg op' h' ts'"
  shows "op = op' \<and> h = h' \<and> ts = ts'"
  using assms by (simp add: token_msg_def op_tag_inj u64_be_inj)

lemma strip_dots_hex: "list_all is_hexdigit s \<Longrightarrow> strip_dots s = s"
  unfolding strip_dots_def
  by (rule filter_True) (auto simp: list_all_iff is_hexdigit_def Let_def dest!: bspec)

lemma strip_dots_sni:
  assumes "sni_for_node_id nid = Ok name"
  shows "strip_dots name = nid" "length nid = 64" "list_all is_hexdigit nid"
proof -
  show nid: "length nid = 64" "list_all is_hexdigit nid"
    using assms by (auto simp: sni_for_node_id_def split: if_splits)
  have name: "name = take 32 nid @ ''.'' @ drop 32 nid"
    using assms by (auto simp: sni_for_node_id_def split: if_splits)
  have "list_all is_hexdigit (take 32 nid)" "list_all is_hexdigit (drop 32 nid)"
    using nid(2) by (metis append_take_drop_id list_all_append)+
  from this[THEN strip_dots_hex] show "strip_dots name = nid"
    unfolding name by (simp add: strip_dots_def)
qed

section \<open>Properties\<close>

text \<open>C24. A token made by a node for an operation and a shard is accepted for that operation and shard by
  any verifier whose clock is within five minutes of the maker's, in either direction, and that
  either pins no owner or pins this node; outside the window it is rejected.\<close>

theorem shard_token_window:
  assumes "ed25519_ok E" "length (signing_key i) = 32"
    and "allowed = None \<or> allowed = Some (node_id E i)"
  shows "verify_shard_token E clock (create_shard_token E made i op h) op h allowed
     \<longleftrightarrow> unat clock \<le> unat made + 300 \<and> unat made \<le> unat clock + 300"
proof -
  have "verify_signature E (node_id E i) m (sign E i m)" for m
    using assms(1,2) by (simp add: verify_signature_def node_id_def sign_def ed25519_ok_def)
  then show ?thesis
    using assms(3) abs_diff_le_iff[of clock made 300]
    by (auto simp: verify_shard_token_def create_shard_token_def Let_def)
qed

theorem shard_token_window_witness:
  "verify_shard_token toy_ext 1300 (create_shard_token toy_ext 1000 (from_secret toy_ext ''s'') OpStore (replicate 32 1)) OpStore
      (replicate 32 1) None
   \<and> \<not> verify_shard_token toy_ext 1301 (create_shard_token toy_ext 1000 (from_secret toy_ext ''s'') OpStore (replicate 32 1)) OpStore
      (replicate 32 1) None"
proof -
  have "length (signing_key (from_secret toy_ext ''s'')) = 32"
    by (simp add: from_secret_def blake3_len)
  note t = shard_token_window[OF toy_ed25519_ok this, of None _ 1000 OpStore "replicate 32 1"]
  show ?thesis using t[of 1300] t[of 1301] by (simp del: replicate.simps)
qed


text \<open>The verifier of the example accepts exactly the signature of one issued token.\<close>

definition one_token_ext :: ext where
  "one_token_ext = toy_ext\<lparr>ed_verify := (\<lambda>k m s. m = token_msg OpRetrieve (replicate 32 1) 1000 \<and> s = replicate 64 5)\<rparr>"

definition example_token :: shard_token where
  "example_token = \<lparr>owner_node_id = replicate 32 9, timestamp = 1000, signature = replicate 64 5\<rparr>"


text \<open>C25. Dialing a node by its id and the check of the certificate it presents fit together: for the
  server name that \<open>sni_for_node_id\<close> builds from an id, the verifier accepts a certificate exactly
  when the Ed25519 key extracted from it is the one the id spells in hexadecimal; an id that is not
  64 hexadecimal digits never yields a server name at all.\<close>

theorem certificate_pin:
  assumes "hex_ok E"
  shows "(\<forall>name. sni_for_node_id nid = Ok name \<longrightarrow>
            (verify_server_cert E cert (DnsName name) = Done (Ok ()) \<longleftrightarrow>
             (\<exists>k. extract_public_key cert = Done (Some k) \<and> hex_encode E k = map ascii_lower nid)))
     \<and> (is_ok (sni_for_node_id nid) \<longleftrightarrow> length nid = 64 \<and> list_all is_hexdigit nid)"
proof (intro conjI allI impI)
  show "is_ok (sni_for_node_id nid) \<longleftrightarrow> length nid = 64 \<and> list_all is_hexdigit nid"
    by (simp add: sni_for_node_id_def)
  fix name assume s: "sni_for_node_id nid = Ok name"
  note n = strip_dots_sni[OF s]
  obtain b where b: "hex_decode E nid = Some b" using hex_decode_ex[OF assms, of nid] n(2,3) by auto
  have enc: "hex_encode E k = map ascii_lower nid \<longleftrightarrow> k = b" for k
    using hex_decode_Some_encode[OF assms b] hex_encode_inj[OF assms] by metis
  obtain r where r: "extract_public_key cert = Done r" using extract_done by blast
  show "verify_server_cert E cert (DnsName name) = Done (Ok ()) \<longleftrightarrow>
      (\<exists>k. extract_public_key cert = Done (Some k) \<and> hex_encode E k = map ascii_lower nid)"
    unfolding verify_server_cert_def r enc
    using n b by (auto simp: Let_def split: option.splits)
qed

theorem certificate_pin_witness:
  "verify_server_cert toy_ext
     (certificate [(2, [1]), (0x30, []), (0x30, []), (0x30, []), (0x30, []), spki_field (replicate 32 0xaa)] [])
     (DnsName (replicate 32 (CHR ''a'') @ ''.'' @ replicate 32 (CHR ''a''))) = Done (Ok ())
   \<and> \<not> is_ok (sni_for_node_id ''abc'')"
proof -
  let ?cert = "certificate [(2, [1]), (0x30, []), (0x30, []), (0x30, []), (0x30, []), spki_field (replicate 32 0xaa)] []"
  let ?nid = "replicate 64 (CHR ''a'')"
  have s: "sni_for_node_id ?nid = Ok (replicate 32 (CHR ''a'') @ ''.'' @ replicate 32 (CHR ''a''))"
    by (simp add: sni_for_node_id_def list_all_iff is_hexdigit_def)
  have "extract_public_key ?cert = Done (Some (replicate 32 0xaa))" by code_simp
  moreover have "hex_encode toy_ext (replicate 32 0xaa) = map ascii_lower ?nid" by code_simp
  ultimately show ?thesis
    using certificate_pin[OF toy_hex_ok, of ?nid ?cert] s
      certificate_pin[OF toy_hex_ok, of "''abc''" "[]"] by simp
qed

end
