(* ===== verification/Wire.thy ===== *)
theory Wire
  imports Identity
begin

text \<open>
  \<open>np2p/src/network/protocol.rs\<close>: the message type of the peer-to-peer protocol and its framing,
  a four-byte big-endian length followed by the serialized message.  Serialization is the
  \<open>bincode\<close> crate, a parameter; a stream is the list of bytes still to be read from it.
\<close>

section \<open>Messages\<close>

datatype msg =
    Handshake bytes string
  | HandshakeAck bytes
  | StoreShardRequest bytes bytes shard_token
  | StoreShardResponse bytes bool nat
  | RetrieveShardRequest bytes shard_token
  | RetrieveShardResponse bytes "bytes option"
  | Heartbeat nat
  | RegisterNode string nat string
  | GetPeers string
  | PeerList "(string \<times> string) list"
  | RelayRequest string bytes
  | RelayResponse bytes
  | TunnelRegister string
  | TunnelChallenge bytes
  | TunnelChallengeResponse bytes
  | TunnelAccepted
  | NodeChannelRegister string
  | NodeChannelChallenge bytes
  | NodeChannelChallengeResponse bytes
  | NodeChannelAccepted
  | MsgError nat string
  | StoreShardStreamInit bytes byte nat nat shard_token
  | StoreShardStreamAck bool
  | StoreShardChunk bytes
  | StoreShardStreamFinal bytes
  | StoreShardStreamResponse bool nat
  | DeleteShardRequest bytes shard_token
  | DeleteShardResponse bytes bool
  | StorePinnedObject string bytes shard_token
  | StorePinnedResponse bool
  | GetPinnedObject string shard_token
  | PinnedObjectResponse "bytes option"
  | ListShardsRequest "string option" shard_token
  | ListShardsResponse "string option" "bytes list" nat
  | RetrieveShardStreamInit bytes shard_token
  | RetrieveShardStreamAck bool nat
  | RetrieveShardChunk bytes
  | RetrieveShardStreamFinal bytes

section \<open>Framing\<close>

record bincode =
  serialize :: "msg \<Rightarrow> string + bytes"
  deserialize :: "bytes \<Rightarrow> string + msg"

text \<open>The documented behaviour of the serializer: what it writes it reads back.\<close>

definition bincode_ok :: "bincode \<Rightarrow> bool" where
  "bincode_ok B \<longleftrightarrow> (\<forall>m bs. serialize B m = Inr bs \<longrightarrow> deserialize B bs = Inr m)"

definition MAX_MESSAGE_LEN :: nat where
  "MAX_MESSAGE_LEN = 128 * 1024 * 1024"

text \<open>\<open>u32::to_be_bytes\<close> and \<open>u32::from_be_bytes\<close>.\<close>

definition u32_be :: "nat \<Rightarrow> bytes" where
  "u32_be n = [word_of_nat (n div 16777216 mod 256), word_of_nat (n div 65536 mod 256),
     word_of_nat (n div 256 mod 256), word_of_nat (n mod 256)]"

definition u32_of_be :: "bytes \<Rightarrow> nat" where
  "u32_of_be bs = foldl (\<lambda>acc b. acc * 256 + unat b) 0 bs"

text \<open>\<open>Protocol::send\<close>: the bytes written to the stream, or the error before anything is written.\<close>

definition send_frame :: "bincode \<Rightarrow> msg \<Rightarrow> bytes result" where
  "send_frame B m =
     bind_res (map_err Serialization (serialize B m)) (\<lambda>bs.
       if length bs \<ge> 2 ^ 32
       then Err (Protocol (''Message too large to frame ('' @ show_nat (length bs) @ '' bytes)''))
       else let len = length bs in
       if len > MAX_MESSAGE_LEN
       then Err (Network (''Refusing to send '' @ show_nat len @ ''-byte message: exceeds MAX_MESSAGE_LEN (''
              @ show_nat MAX_MESSAGE_LEN @ '' bytes)''))
       else Ok (u32_be len @ bs))"

definition read_exact :: "nat \<Rightarrow> bytes \<Rightarrow> (bytes \<times> bytes) result" where
  "read_exact n stream =
     (if length stream < n then Err (Read (''stream finished early ('' @ show_nat (length stream) @ '' bytes read)''))
      else Ok (take n stream, drop n stream))"

text \<open>\<open>str::contains\<close>.\<close>

fun contains :: "string \<Rightarrow> string \<Rightarrow> bool" where
  "contains [] pat = (pat = [])"
| "contains (c # cs) pat = (take (length pat) (c # cs) = pat \<or> contains cs pat)"

definition receive_error :: "string \<Rightarrow> np2p_error" where
  "receive_error e = (if contains e ''expected a variant index'' then UnknownMessage e else Serialization e)"

text \<open>\<open>Protocol::receive\<close>: the message and what is left of the stream.\<close>

definition receive_frame :: "bincode \<Rightarrow> bytes \<Rightarrow> (msg \<times> bytes) result" where
  "receive_frame B stream =
     bind_res (read_exact 4 stream) (\<lambda>(len_buf, stream1).
       let len = u32_of_be len_buf in
       if len > MAX_MESSAGE_LEN
       then Err (Network (''Peer declared '' @ show_nat len @ ''-byte message, exceeding MAX_MESSAGE_LEN (''
              @ show_nat MAX_MESSAGE_LEN @ '' bytes) '' @ em_dash @ '' rejecting without allocating''))
       else bind_res (read_exact len stream1) (\<lambda>(buf, stream2).
         bind_res (map_err receive_error (deserialize B buf)) (\<lambda>m. Ok (m, stream2))))"

text \<open>A whole conversation: messages sent one after the other, and read back one after the other.\<close>

fun send_frames :: "bincode \<Rightarrow> msg list \<Rightarrow> bytes result" where
  "send_frames B [] = Ok []"
| "send_frames B (m # ms) = bind_res (send_frame B m) (\<lambda>b. bind_res (send_frames B ms) (\<lambda>bs. Ok (b @ bs)))"

fun receive_frames :: "bincode \<Rightarrow> nat \<Rightarrow> bytes \<Rightarrow> (msg list \<times> bytes) result" where
  "receive_frames B 0 s = Ok ([], s)"
| "receive_frames B (Suc n) s =
     bind_res (receive_frame B s) (\<lambda>(m, s1). bind_res (receive_frames B n s1) (\<lambda>(ms, s2). Ok (m # ms, s2)))"

section \<open>The interface\<close>

text \<open>A channel of framed messages over a byte stream: what one end writes the other end reads, frame by
  frame, however many frames follow.\<close>

locale framing =
  fixes lawful :: "'lib \<Rightarrow> bool"
    and write_msg :: "'lib \<Rightarrow> 'm \<Rightarrow> bytes result"
    and read_msg :: "'lib \<Rightarrow> bytes \<Rightarrow> ('m \<times> bytes) result"
  assumes read_write: "lawful B \<Longrightarrow> write_msg B m = Ok bs \<Longrightarrow> read_msg B (bs @ rest) = Ok (m, rest)"
begin

text \<open>Frames cannot be confused: a stream determines its first message and its remainder.\<close>

lemma frame_unique:
  assumes "lawful B" "write_msg B m = Ok bs" "write_msg B m' = Ok bs'" "bs @ rest = bs' @ rest'"
  shows "m = m' \<and> rest = rest'"
  using read_write[OF assms(1,2), of rest] read_write[OF assms(1,3), of rest'] assms(4) by simp

end

section \<open>Lemmas\<close>

lemma length_u32_be [simp]: "length (u32_be n) = 4"
  by (simp add: u32_be_def)

lemma u32_roundtrip: "n < 2 ^ 32 \<Longrightarrow> u32_of_be (u32_be n) = n"
proof -
  assume n: "n < 2 ^ 32"
  have u: "unat (word_of_nat (m mod 256) :: byte) = m mod 256" for m
    by (rule unat_byte_of_nat) simp
  define a b c where "a = n div 256" and "b = a div 256" and "c = b div 256"
  have d: "n div 65536 = b" "n div 16777216 = c"
    by (simp_all add: a_def b_def c_def div_mult2_eq[symmetric])
  have c: "c mod 256 = c" using n by (simp add: d(2)[symmetric] div_less_iff_less_mult)
  have "u32_of_be (u32_be n) = ((c mod 256 * 256 + b mod 256) * 256 + a mod 256) * 256 + n mod 256"
    unfolding u32_of_be_def u32_be_def d a_def[symmetric] by (simp only: foldl.simps u) simp
  also have "\<dots> = n"
    unfolding c unfolding c_def b_def a_def by (simp only: div_mult_mod_eq)
  finally show ?thesis .
qed

lemma read_exact_append: "length a = n \<Longrightarrow> read_exact n (a @ b) = Ok (a, b)"
  by (simp add: read_exact_def)

lemma receive_send_frame:
  assumes "bincode_ok B" "send_frame B m = Ok bs"
  shows "receive_frame B (bs @ rest) = Ok (m, rest)"
proof -
  obtain b where b: "serialize B m = Inr b" "length b \<le> MAX_MESSAGE_LEN" "bs = u32_be (length b) @ b"
    using assms(2) by (auto simp: send_frame_def result_simps Let_def split: if_splits)
  have "length b < 2 ^ 32" using b(2) by (simp add: MAX_MESSAGE_LEN_def)
  then show ?thesis
    using b assms(1)
    by (simp add: receive_frame_def read_exact_append u32_roundtrip bincode_ok_def)
qed

interpretation wire: framing bincode_ok send_frame receive_frame
  by unfold_locales (rule receive_send_frame)

lemma receive_send_frames:
  "bincode_ok B \<Longrightarrow> send_frames B ms = Ok bs \<Longrightarrow> receive_frames B (length ms) (bs @ rest) = Ok (ms, rest)"
proof (induction ms arbitrary: bs)
  case (Cons m ms)
  then obtain b bs' where "send_frame B m = Ok b" "send_frames B ms = Ok bs'" "bs = b @ bs'"
    by (auto simp: result_simps)
  then show ?case using Cons wire.read_write[of B m b "bs' @ rest"] by simp
qed simp

definition unit_bincode :: bincode where
  "unit_bincode = \<lparr>serialize = (\<lambda>m. if m = TunnelAccepted then Inr [7] else Inl ''unsupported''),
     deserialize = (\<lambda>bs. if bs = [7] then Inr TunnelAccepted else Inl ''expected a variant index'')\<rparr>"

section \<open>Properties\<close>

text \<open>Messages survive the wire: whenever a sequence of messages can be framed, reading that many
  frames from the resulting stream, with anything following, returns exactly the messages and
  leaves exactly what follows.\<close>

theorem frames_roundtrip:
  assumes "bincode_ok B" "send_frames B ms = Ok bs"
  shows "receive_frames B (length ms) (bs @ rest) = Ok (ms, rest)"
  by (rule receive_send_frames[OF assms])

theorem frames_roundtrip_witness:
  "receive_frames unit_bincode 2 ([0, 0, 0, 1, 7] @ [0, 0, 0, 1, 7] @ [42]) = Ok ([TunnelAccepted, TunnelAccepted], [42])"
proof -
  have "bincode_ok unit_bincode" by (simp add: bincode_ok_def unit_bincode_def)
  moreover have "send_frames unit_bincode [TunnelAccepted, TunnelAccepted] = Ok [0, 0, 0, 1, 7, 0, 0, 0, 1, 7]"
    by (simp add: send_frame_def unit_bincode_def MAX_MESSAGE_LEN_def u32_be_def)
  ultimately show ?thesis
    using frames_roundtrip[of unit_bincode "[TunnelAccepted, TunnelAccepted]" "[0, 0, 0, 1, 7, 0, 0, 0, 1, 7]" "[42]"]
    by (simp add: numeral_2_eq_2)
qed

text \<open>A frame that declares more than the 128 MiB cap is refused from its four length bytes alone,
  whatever follows them, and no end ever writes such a frame: every byte sequence that sending
  produces is at most the cap plus the four length bytes.\<close>

theorem oversized_frames_rejected:
  "(MAX_MESSAGE_LEN < u32_of_be hdr \<and> length hdr = 4 \<longrightarrow>
      receive_frame B (hdr @ body) = Err (Network (''Peer declared '' @ show_nat (u32_of_be hdr)
        @ ''-byte message, exceeding MAX_MESSAGE_LEN ('' @ show_nat MAX_MESSAGE_LEN @ '' bytes) '' @ em_dash
        @ '' rejecting without allocating'')))
   \<and> (send_frame B m = Ok bs \<longrightarrow> length bs \<le> MAX_MESSAGE_LEN + 4)"
  by (auto simp: receive_frame_def read_exact_append send_frame_def result_simps Let_def split: if_splits)

theorem oversized_frames_rejected_witness:
  "receive_frame unit_bincode ([0xff, 0xff, 0xff, 0xff] @ [1, 2, 3]) = Err (Network (''Peer declared '' @ show_nat 4294967295
        @ ''-byte message, exceeding MAX_MESSAGE_LEN ('' @ show_nat MAX_MESSAGE_LEN @ '' bytes) '' @ em_dash
        @ '' rejecting without allocating''))"
proof -
  have "u32_of_be [0xff, 0xff, 0xff, 0xff] = 4294967295" by (simp add: u32_of_be_def)
  then show ?thesis
    using oversized_frames_rejected[of "[0xff, 0xff, 0xff, 0xff]" unit_bincode "[1, 2, 3]" undefined undefined]
    by (simp add: MAX_MESSAGE_LEN_def)
qed

end
