(* ===== verification/Handler.thy ===== *)
theory Handler
  imports Wire Disk
begin

text \<open>
  \<open>np2p/src/network/handler.rs\<close>: \<open>ConnectionHandler::handle_stream\<close>, the storage node's answer to
  one inbound stream.  Messages answered at once are \<open>handle_message\<close>; a streaming upload is a
  session, opened by \<open>stream_init\<close> and advanced by \<open>stream_frame\<close>, one iteration of the receive
  loop.  Streams run concurrently over one disk, which \<open>node_step\<close> models by interleaving
  messages and frames of any number of sessions.
\<close>

section \<open>Operations\<close>

definition PROTOCOL_VERSION :: string where "PROTOCOL_VERSION = ''0.3.0''"

definition MAX_RETRIEVABLE :: nat where "MAX_RETRIEVABLE = MAX_MESSAGE_LEN - 1024"

record node =
  nd_identity :: node_identity
  nd_allowed :: "bytes option"

text \<open>The environment of one handler run: the wall clock, the disk environment, the outcome of sending
  a message, and how reads from an open file are divided (with the error that ends them, if any).\<close>

record hctx =
  hx_clock :: u64
  hx_io :: io_env
  hx_tx :: "msg \<Rightarrow> unit result"
  hx_read :: "bytes \<Rightarrow> bytes list \<times> string option"

text \<open>\<open>Protocol::send(..).await?\<close> for messages in turn, and \<open>let _ = Protocol::send(..).await\<close>.\<close>

fun send_seq :: "(msg \<Rightarrow> unit result) \<Rightarrow> msg list \<Rightarrow> msg list \<times> unit result" where
  "send_seq tx [] = ([], Ok ())"
| "send_seq tx (m # ms) =
     (case tx m of
        Inl e \<Rightarrow> ([], Err e)
      | Inr _ \<Rightarrow> (case send_seq tx ms of (out, r) \<Rightarrow> (m # out, r)))"

definition send_quiet :: "(msg \<Rightarrow> unit result) \<Rightarrow> msg \<Rightarrow> msg list \<times> unit result" where
  "send_quiet tx m = ((case tx m of Inl e \<Rightarrow> [] | Inr _ \<Rightarrow> [m]), Ok ())"

definition authorized :: "ext \<Rightarrow> node \<Rightarrow> hctx \<Rightarrow> shard_token \<Rightarrow> shard_op \<Rightarrow> bytes \<Rightarrow> bool" where
  "authorized E nd x token op h = verify_shard_token E (hx_clock x) token op h (nd_allowed nd)"

text \<open>The streaming retrieval: acknowledgement, the chunks as read, and the hash of what was read.\<close>

definition retrieve_stream :: "ext \<Rightarrow> hctx \<Rightarrow> disk \<Rightarrow> bytes \<Rightarrow> msg list \<times> unit result" where
  "retrieve_stream E x d shard_hash =
     (case open_shard_file E (hx_io x) d shard_hash of
        Inl e \<Rightarrow> ([], Err e)
      | Inr None \<Rightarrow> send_seq (hx_tx x) [RetrieveShardStreamAck False 0]
      | Inr (Some (file, total_bytes)) \<Rightarrow>
          (case hx_read x file of
             (reads, None) \<Rightarrow>
               send_seq (hx_tx x) ([RetrieveShardStreamAck True total_bytes] @ map RetrieveShardChunk reads
                 @ [RetrieveShardStreamFinal (blake3 E (concat reads))])
           | (reads, Some e) \<Rightarrow>
               (case send_seq (hx_tx x) ([RetrieveShardStreamAck True total_bytes] @ map RetrieveShardChunk reads) of
                  (out, Inl e') \<Rightarrow> (out, Err e')
                | (out, Inr _) \<Rightarrow> (out, Err (Io e)))))"

text \<open>Every first message but the opening of an upload stream.\<close>

fun handle_message :: "ext \<Rightarrow> node \<Rightarrow> hctx \<Rightarrow> disk \<Rightarrow> msg \<Rightarrow> (msg list \<times> unit result) \<times> disk" where
  "handle_message E nd x d (Handshake nid version) =
     (if version \<noteq> PROTOCOL_VERSION
      then (send_quiet (hx_tx x) (MsgError 426
              (''Protocol version mismatch: peer '' @ version @ '', local '' @ PROTOCOL_VERSION)), d)
      else (send_seq (hx_tx x) [HandshakeAck (node_id E (nd_identity nd))], d))"
| "handle_message E nd x d (StoreShardRequest shard_hash data token) =
     (let computed_hash = blake3 E data;
          (success, d') = (if computed_hash \<noteq> shard_hash then (False, d)
                           else if authorized E nd x token OpStore shard_hash
                           then (case store E (hx_io x) d shard_hash data of (r, d') \<Rightarrow> (is_ok r, d'))
                           else (False, d))
      in (send_seq (hx_tx x) [StoreShardResponse shard_hash success (available_space (hx_io x))], d'))"
| "handle_message E nd x d (RetrieveShardRequest shard_hash token) =
     (if authorized E nd x token OpRetrieve shard_hash
      then (case get_shard E (hx_io x) d shard_hash of
              Inl e \<Rightarrow> (([], Err e), d)
            | Inr data \<Rightarrow> (send_seq (hx_tx x) [RetrieveShardResponse shard_hash data], d))
      else (send_seq (hx_tx x) [MsgError 401 ''Unauthorized shard retrieval''], d))"
| "handle_message E nd x d (RetrieveShardStreamInit shard_hash token) =
     (if \<not> authorized E nd x token OpRetrieve shard_hash
      then (send_seq (hx_tx x) [MsgError 401 ''Unauthorized shard retrieval''], d)
      else (retrieve_stream E x d shard_hash, d))"
| "handle_message E nd x d (Heartbeat available_space_bytes) = (([], Ok ()), d)"
| "handle_message E nd x d (DeleteShardRequest shard_hash token) =
     (let (success, d') = (if authorized E nd x token OpDelete shard_hash
                           then (case delete_shard E (hx_io x) d shard_hash of (r, d') \<Rightarrow> (is_ok r, d'))
                           else (False, d))
      in (send_seq (hx_tx x) [DeleteShardResponse shard_hash success], d'))"
| "handle_message E nd x d (StorePinnedObject name data token) =
     (let name_hash = blake3 E (str_bytes name);
          (success, d') = (if authorized E nd x token OpStore name_hash
                           then (case store_pinned E (hx_io x) d name data of (r, d') \<Rightarrow> (is_ok r, d'))
                           else (False, d))
      in (send_seq (hx_tx x) [StorePinnedResponse success], d'))"
| "handle_message E nd x d (GetPinnedObject name token) =
     (let name_hash = blake3 E (str_bytes name) in
      if authorized E nd x token OpRetrieve name_hash
      then (case get_pinned E (hx_io x) d name of
              Inl e \<Rightarrow> (([], Err e), d)
            | Inr data \<Rightarrow> (send_seq (hx_tx x) [PinnedObjectResponse data], d))
      else (send_seq (hx_tx x) [MsgError 401 ''Unauthorized pinned object access''], d))"
| "handle_message E nd x d (ListShardsRequest pfx token) =
     (let scope_bytes = blake3 E (str_bytes (case pfx of None \<Rightarrow> [] | Some p \<Rightarrow> p)) in
      if authorized E nd x token OpList scope_bytes
      then let shards = (case list_shards E d pfx of Inr hs \<Rightarrow> hs | Inl e \<Rightarrow> [])
           in (send_seq (hx_tx x) [ListShardsResponse pfx shards (available_space (hx_io x))], d)
      else (send_seq (hx_tx x) [MsgError 401 ''Unauthorized shard listing''], d))"
| "handle_message E nd x d m = (send_seq (hx_tx x) [MsgError 400 ''Unhandled message type''], d)"

text \<open>An upload session: the temp file, the bytes fed to the hasher, and the byte counter.\<close>

record upload =
  up_temp :: path
  up_hashed :: bytes
  up_received :: nat

definition stream_init :: "ext \<Rightarrow> node \<Rightarrow> hctx \<Rightarrow> bytes \<Rightarrow> bytes \<Rightarrow> byte \<Rightarrow> nat \<Rightarrow> shard_token
    \<Rightarrow> msg list \<times> (unit result + upload)" where
  "stream_init E nd x salt file_hash shard_index total_shard_bytes token =
     (let temp_id = blake3 E (file_hash @ [shard_index] @ salt);
          tmp = temp_path E temp_id;
          binding = blake3 E (file_hash @ [shard_index]) in
      if total_shard_bytes > MAX_RETRIEVABLE
      then (case send_quiet (hx_tx x) (MsgError 413
                   (''Shard exceeds retrievable size cap ('' @ show_nat (MAX_RETRIEVABLE div (1024 * 1024)) @ '' MB)''))
            of (out, r) \<Rightarrow> (out, Inl r))
      else if \<not> authorized E nd x token OpStore binding
      then (case send_quiet (hx_tx x) (MsgError 401 ''Unauthorized shard stream'') of (out, r) \<Rightarrow> (out, Inl r))
      else (case send_seq (hx_tx x) [StoreShardStreamAck True] of
              (out, Inl e) \<Rightarrow> (out, Inl (Err e))
            | (out, Inr _) \<Rightarrow> (out, Inr \<lparr>up_temp = tmp, up_hashed = [], up_received = 0\<rparr>)))"

text \<open>What one receive of the loop yields: nothing before the deadline, or a frame or its error.\<close>

datatype frame = Timeout | Received "msg result"

definition response :: "hctx \<Rightarrow> bool \<Rightarrow> msg" where
  "response x ok = StoreShardStreamResponse ok (available_space (hx_io x))"

definition stream_frame :: "ext \<Rightarrow> hctx \<Rightarrow> disk \<Rightarrow> upload \<Rightarrow> frame \<Rightarrow> msg list \<times> (unit result + upload) \<times> disk" where
  "stream_frame E x d up frame =
     (let tmp = up_temp up; io = hx_io x in
      case frame of
        Timeout \<Rightarrow>
          let d1 = remove_quietly io d tmp; (out, r) = send_quiet (hx_tx x) (response x False) in (out, Inl r, d1)
      | Received (Inr (StoreShardChunk data)) \<Rightarrow>
          let received = min (up_received up + length data) (2 ^ 64 - 1) in
          if received > MAX_SHARD_BYTES
          then let d1 = remove_quietly io d tmp; (out, r) = send_quiet (hx_tx x) (response x False) in (out, Inl r, d1)
          else (case store_stream_chunk io d tmp data of
                  (Inl e, d1) \<Rightarrow>
                    let d2 = remove_quietly io d1 tmp; (out, r) = send_seq (hx_tx x) [response x False] in (out, Inl r, d2)
                | (Inr _, d1) \<Rightarrow>
                    ([], Inr (up\<lparr>up_hashed := up_hashed up @ data, up_received := received\<rparr>), d1))
      | Received (Inr (StoreShardStreamFinal shard_hash)) \<Rightarrow>
          let computed = blake3 E (up_hashed up);
              (ok, d1) = (if computed = shard_hash
                          then (case finalize_stream_temp E io d tmp shard_hash of (r, d1) \<Rightarrow> (is_ok r, d1))
                          else (False, remove_quietly io d tmp));
              (out, r) = send_seq (hx_tx x) [response x ok]
          in (out, Inl r, d1)
      | Received _ \<Rightarrow> ([], Inl (Ok ()), remove_quietly io d tmp))"

text \<open>The loop over the frames that arrive; a stream that ends early yields a receive error.\<close>

fun stream_loop :: "ext \<Rightarrow> hctx \<Rightarrow> disk \<Rightarrow> upload \<Rightarrow> frame list \<Rightarrow> (msg list \<times> unit result) \<times> disk" where
  "stream_loop E x d up [] =
     (case stream_frame E x d up (Received (Err (Read ''stream finished early (0 bytes read)''))) of
        (out, _, d1) \<Rightarrow> ((out, Ok ()), d1))"
| "stream_loop E x d up (f # fs) =
     (case stream_frame E x d up f of
        (out, Inl r, d1) \<Rightarrow> ((out, r), d1)
      | (out, Inr up1, d1) \<Rightarrow> (case stream_loop E x d1 up1 fs of ((out2, r), d2) \<Rightarrow> ((out @ out2, r), d2)))"

definition handle_stream :: "ext \<Rightarrow> node \<Rightarrow> hctx \<Rightarrow> bytes \<Rightarrow> disk \<Rightarrow> frame \<Rightarrow> frame list \<Rightarrow> (msg list \<times> unit result) \<times> disk" where
  "handle_stream E nd x salt d first frames =
     (case first of
        Timeout \<Rightarrow> (([], Err (Network ''stream read timeout'')), d)
      | Received (Inl e) \<Rightarrow> (([], Err e), d)
      | Received (Inr (StoreShardStreamInit file_hash shard_index total_shard_bytes segment_count token)) \<Rightarrow>
          (case stream_init E nd x salt file_hash shard_index total_shard_bytes token of
             (out, Inl r) \<Rightarrow> ((out, r), d)
           | (out, Inr up) \<Rightarrow> (case stream_loop E x d up frames of ((out2, r), d') \<Rightarrow> ((out @ out2, r), d')))
      | Received (Inr m) \<Rightarrow> handle_message E nd x d m)"

section \<open>Concurrent streams\<close>

record nstate =
  ns_disk :: disk
  ns_uploads :: "nat \<Rightarrow> upload option"

text \<open>A new session's temp file is fresh: its name is derived from a random 128-bit salt.\<close>

definition fresh_temp :: "nstate \<Rightarrow> path \<Rightarrow> bool" where
  "fresh_temp s p \<longleftrightarrow> temp_at (ns_disk s) p = None \<and> (\<forall>i up. ns_uploads s i = Some up \<longrightarrow> up_temp up \<noteq> p)"

inductive node_step :: "ext \<Rightarrow> node \<Rightarrow> nstate \<Rightarrow> nstate \<Rightarrow> bool" for E nd where
  message: "handle_message E nd x (ns_disk s) m = (out, d') \<Longrightarrow> node_step E nd s (s\<lparr>ns_disk := d'\<rparr>)"
| opened: "stream_init E nd x salt fh i n tok = (out, Inr up) \<Longrightarrow> ns_uploads s k = None \<Longrightarrow> fresh_temp s (up_temp up)
    \<Longrightarrow> node_step E nd s (s\<lparr>ns_uploads := (ns_uploads s)(k \<mapsto> up)\<rparr>)"
| chunk: "ns_uploads s k = Some up \<Longrightarrow> stream_frame E x (ns_disk s) up f = (out, Inr up', d')
    \<Longrightarrow> node_step E nd s \<lparr>ns_disk = d', ns_uploads = (ns_uploads s)(k \<mapsto> up')\<rparr>"
| finish: "ns_uploads s k = Some up \<Longrightarrow> stream_frame E x (ns_disk s) up f = (out, Inl r, d')
    \<Longrightarrow> node_step E nd s \<lparr>ns_disk = d', ns_uploads = (ns_uploads s)(k := None)\<rparr>"
| cancel: "node_step E nd s (s\<lparr>ns_uploads := (ns_uploads s)(k := None)\<rparr>)"
| restart: "disk_new io True (d_fs (ns_disk s)) = Ok d' \<Longrightarrow> node_step E nd s \<lparr>ns_disk = d', ns_uploads = Map.empty\<rparr>"

inductive node_reach :: "ext \<Rightarrow> node \<Rightarrow> nstate \<Rightarrow> bool" for E nd where
  initial: "node_reach E nd \<lparr>ns_disk = \<lparr>d_fs = \<lparr>fs_entries = [], fs_dirs = []\<rparr>, d_seq = n\<rparr>, ns_uploads = Map.empty\<rparr>"
| step: "node_reach E nd s \<Longrightarrow> node_step E nd s s' \<Longrightarrow> node_reach E nd s'"

section \<open>Lemmas on single messages\<close>

definition content_addressed :: "ext \<Rightarrow> disk \<Rightarrow> bool" where
  "content_addressed E d \<longleftrightarrow> (\<forall>h v. shard_at E d h = Some v \<longrightarrow> blake3 E v = h)"

lemma content_addressed_iff: "content_addressed E d = disk.addressed E d"
  by (simp add: content_addressed_def disk.addressed_def)

lemma pinned_view:
  assumes "store_pinned E io d n v = (r, d')"
  shows "shard_at E d' = shard_at E d"
  by (rule shard_at_cong) (rule pinned_frame[OF assms shard_path_not_pinned])

lemma handle_message_disk:
  assumes "handle_message E nd x d m = (out, d')"
  shows "d' = d
    \<or> (\<exists>h v t r. m = StoreShardRequest h v t \<and> blake3 E v = h \<and> authorized E nd x t OpStore h \<and> store E (hx_io x) d h v = (r, d'))
    \<or> (\<exists>h t r. m = DeleteShardRequest h t \<and> authorized E nd x t OpDelete h \<and> delete_shard E (hx_io x) d h = (r, d'))
    \<or> (\<exists>n v t r. m = StorePinnedObject n v t \<and> authorized E nd x t OpStore (blake3 E (str_bytes n))
          \<and> store_pinned E (hx_io x) d n v = (r, d'))"
  using assms
  by (cases m) (auto simp: Let_def split: if_splits sum.splits prod.splits)

lemma handle_message_addressed:
  assumes "hex_ok E" "content_addressed E d" "handle_message E nd x d m = (out, d')"
  shows "content_addressed E d'"
  using handle_message_disk[OF assms(3)]
proof (elim disjE exE conjE)
  fix h v t r assume "store E (hx_io x) d h v = (r, d')" "blake3 E v = h"
  then show ?thesis using disk.put_addressed[OF assms(1)] assms(2) unfolding content_addressed_iff by blast
next
  fix h t r assume "delete_shard E (hx_io x) d h = (r, d')"
  then show ?thesis using disk.del_addressed[OF assms(1)] assms(2) unfolding content_addressed_iff by blast
next
  fix n v t r assume "store_pinned E (hx_io x) d n v = (r, d')"
  then show ?thesis using assms(2) pinned_view by (simp add: content_addressed_def)
qed (use assms(2) in simp)

lemma handle_message_temp:
  assumes "hex_ok E" "handle_message E nd x d m = (out, d')"
  shows "temp_at d' (temp_path E i) = temp_at d (temp_path E i)"
  using handle_message_disk[OF assms(2)]
proof (elim disjE exE conjE)
  fix h v t r assume "store E (hx_io x) d h v = (r, d')"
  from store_frame[OF this temp_path_ne(1)[OF assms(1)] sibling_not_temp_path[OF assms(1)]]
  show ?thesis by (simp add: temp_at_def)
next
  fix h t r assume "delete_shard E (hx_io x) d h = (r, d')"
  from delete_frame[OF this temp_path_ne(1)[OF assms(1)]] show ?thesis by (simp add: temp_at_def)
next
  fix n v t r assume "store_pinned E (hx_io x) d n v = (r, d')"
  from pinned_frame[OF this temp_path_ne(2)[OF assms(1)]] show ?thesis by (simp add: temp_at_def)
qed simp

section \<open>Lemmas on upload sessions\<close>

lemma stream_frame_Continue:
  assumes "stream_frame E x d up f = (out, Inr up', d')"
  shows "\<exists>data. f = Received (Inr (StoreShardChunk data)) \<and> store_stream_chunk (hx_io x) d (up_temp up) data = (Ok (), d')
     \<and> up' = up\<lparr>up_hashed := up_hashed up @ data, up_received := min (up_received up + length data) (2 ^ 64 - 1)\<rparr>
     \<and> up_received up' \<le> MAX_SHARD_BYTES \<and> out = []"
  using assms
  by (auto simp: stream_frame_def Let_def split: frame.splits sum.splits msg.splits if_splits prod.splits)

lemma stream_frame_End:
  assumes "stream_frame E x d up f = (out, Inl r, d')"
  shows "(\<exists>r'. finalize_stream_temp E (hx_io x) d (up_temp up) (blake3 E (up_hashed up)) = (r', d')
            \<and> (\<forall>ok. response x ok \<in> set out \<longrightarrow> ok = is_ok r'))
    \<or> (\<exists>d1. d' = remove_quietly (hx_io x) d1 (up_temp up) \<and> response x True \<notin> set out \<and>
          (d1 = d \<or> (\<exists>data r'. store_stream_chunk (hx_io x) d (up_temp up) data = (r', d1))))"
  using assms
  by (auto simp: stream_frame_def Let_def send_quiet_def response_def
      split: frame.splits sum.splits msg.splits if_splits prod.splits)

lemma finalize_temp_other:
  assumes "hex_ok E" "finalize_stream_temp E io d p h = (r, d')" "temp_path E i \<noteq> p"
  shows "temp_at d' (temp_path E i) = temp_at d (temp_path E i)"
  using finalize_frame[OF assms(2,3) temp_path_ne(1)[OF assms(1)]] by (simp add: temp_at_def)

text \<open>A live session: its temp file holds exactly the bytes hashed so far, within the size cap.\<close>

definition session_ok :: "ext \<Rightarrow> disk \<Rightarrow> upload \<Rightarrow> bool" where
  "session_ok E d up \<longleftrightarrow> (\<exists>i. up_temp up = temp_path E i)
     \<and> (temp_at d (up_temp up) = Some (up_hashed up) \<or> (temp_at d (up_temp up) = None \<and> up_hashed up = []))
     \<and> up_received up = length (up_hashed up) \<and> length (up_hashed up) \<le> MAX_SHARD_BYTES"

lemma session_frame: "session_ok E d up \<Longrightarrow> temp_at d' (up_temp up) = temp_at d (up_temp up) \<Longrightarrow> session_ok E d' up"
  by (simp add: session_ok_def)

lemma stream_init_session:
  assumes "stream_init E nd x salt fh i n tok = (out, Inr up)" "temp_at d (up_temp up) = None"
  shows "session_ok E d up" "authorized E nd x tok OpStore (blake3 E (fh @ [i]))"
  using assms
  by (auto simp: stream_init_def session_ok_def Let_def send_quiet_def split: if_splits sum.splits prod.splits)

lemma chunk_session:
  assumes "session_ok E d up" "stream_frame E x d up f = (out, Inr up', d')"
  shows "session_ok E d' up'" "up_temp up' = up_temp up"
proof -
  obtain data where c: "store_stream_chunk (hx_io x) d (up_temp up) data = (Ok (), d')"
    and up': "up' = up\<lparr>up_hashed := up_hashed up @ data, up_received := min (up_received up + length data) (2 ^ 64 - 1)\<rparr>"
      "up_received up' \<le> MAX_SHARD_BYTES"
    using stream_frame_Continue[OF assms(2)] by blast
  show "up_temp up' = up_temp up" by (simp add: up')
  have m: "MAX_SHARD_BYTES < 2 ^ 64 - 1" by (simp add: MAX_SHARD_BYTES_def)
  show "session_ok E d' up'"
    using assms(1) up' m disk.grow_partial[OF c] by (auto simp: session_ok_def min_def split: if_splits)
qed

lemma chunk_view_shards:
  assumes "hex_ok E" "session_ok E d up" "stream_frame E x d up f = (out, Inr up', d')"
  shows "shard_at E d' = shard_at E d"
  using stream_frame_Continue[OF assms(3)] disk.grow_view[OF assms(1)] assms(2) temp_path_temp
  unfolding session_ok_def by metis

lemma frame_other_temps:
  assumes "hex_ok E" "stream_frame E x d up f = (out, r, d')" "temp_path E i \<noteq> up_temp up"
  shows "temp_at d' (temp_path E i) = temp_at d (temp_path E i)"
proof (cases r)
  case (Inr up')
  then show ?thesis using stream_frame_Continue[of E x d up f out up' d'] disk.grow_other assms by metis
next
  case (Inl r')
  show ?thesis
    using stream_frame_End[OF assms(2)[unfolded Inl]]
  proof (elim disjE exE conjE)
    fix q assume "finalize_stream_temp E (hx_io x) d (up_temp up) (blake3 E (up_hashed up)) = (q, d')"
    then show ?thesis by (rule finalize_temp_other[OF assms(1) _ assms(3)])
  next
    fix d1 assume "d' = remove_quietly (hx_io x) d1 (up_temp up)" "d1 = d"
    then show ?thesis using disk.discard_other[OF assms(3)] by simp
  next
    fix d1 data q assume "d' = remove_quietly (hx_io x) d1 (up_temp up)"
      "store_stream_chunk (hx_io x) d (up_temp up) data = (q, d1)"
    then show ?thesis using disk.discard_other[OF assms(3)] disk.grow_other[OF _ assms(3)] by simp
  qed
qed

text \<open>When a session ends, the shards change only by the committed upload.\<close>

lemma end_shards:
  assumes "hex_ok E" "session_ok E d up" "stream_frame E x d up f = (out, Inl r, d')"
  shows "shard_at E d' = shard_at E d
     \<or> (shard_at E d' = (shard_at E d)(blake3 E (up_hashed up) \<mapsto> up_hashed up))"
    and "response x True \<in> set out \<Longrightarrow> shard_at E d' = (shard_at E d)(blake3 E (up_hashed up) \<mapsto> up_hashed up)"
proof -
  have t: "is_temp (up_temp up)" using assms(2) temp_path_temp by (auto simp: session_ok_def)
  have "(shard_at E d' = shard_at E d \<and> response x True \<notin> set out)
     \<or> (shard_at E d' = (shard_at E d)(blake3 E (up_hashed up) \<mapsto> up_hashed up))"
    using stream_frame_End[OF assms(3)]
  proof (elim disjE exE conjE)
    fix q assume q: "finalize_stream_temp E (hx_io x) d (up_temp up) (blake3 E (up_hashed up)) = (q, d')"
      and ok: "\<forall>ok. response x ok \<in> set out \<longrightarrow> ok = is_ok q"
    from disk.commit_atomic[OF assms(1) t q] show ?thesis
      using assms(2) ok by (auto simp: session_ok_def)
  next
    fix d1 assume "d' = remove_quietly (hx_io x) d1 (up_temp up)" "d1 = d" "response x True \<notin> set out"
    then show ?thesis using disk.discard_view[OF assms(1) t] by simp
  next
    fix d1 data q assume "d' = remove_quietly (hx_io x) d1 (up_temp up)"
      "store_stream_chunk (hx_io x) d (up_temp up) data = (q, d1)" "response x True \<notin> set out"
    then show ?thesis using disk.discard_view[OF assms(1) t] disk.grow_view[OF assms(1) t] by simp
  qed
  then show "shard_at E d' = shard_at E d \<or> (shard_at E d' = (shard_at E d)(blake3 E (up_hashed up) \<mapsto> up_hashed up))"
    and "response x True \<in> set out \<Longrightarrow> shard_at E d' = (shard_at E d)(blake3 E (up_hashed up) \<mapsto> up_hashed up)"
    by blast+
qed

lemma restart_shards:
  assumes "hex_ok E" "disk_new io b f = Ok d'" "d_fs d = f"
  shows "shard_at E d' = shard_at E d"
  using assms(2,3) cleanup_entries_shards[OF shard_path_not_temp[OF assms(1)], of io 3600 "fs_entries f" f 0]
  by (auto simp: disk_new_def cleanup_stale_temp_files_def intro!: shard_at_cong split: option.splits prod.splits if_splits)

section \<open>The invariant of a node\<close>

definition node_inv :: "ext \<Rightarrow> nstate \<Rightarrow> bool" where
  "node_inv E s \<longleftrightarrow> content_addressed E (ns_disk s)
     \<and> (\<forall>k up. ns_uploads s k = Some up \<longrightarrow> session_ok E (ns_disk s) up)
     \<and> (\<forall>j k u v. ns_uploads s j = Some u \<longrightarrow> ns_uploads s k = Some v \<longrightarrow> up_temp u = up_temp v \<longrightarrow> j = k)"

lemma node_inv_session: "node_inv E s \<Longrightarrow> ns_uploads s k = Some up \<Longrightarrow> session_ok E (ns_disk s) up"
  by (simp add: node_inv_def)

lemma other_session:
  assumes "hex_ok E" "node_inv E s" "ns_uploads s k = Some up" "ns_uploads s j = Some u" "j \<noteq> k"
    and "stream_frame E x (ns_disk s) up f = (out, r, d')"
  shows "session_ok E d' u" "up_temp u \<noteq> up_temp up"
proof -
  show ne: "up_temp u \<noteq> up_temp up" using assms(2-5) unfolding node_inv_def by blast
  have u: "session_ok E (ns_disk s) u" using node_inv_session[OF assms(2,4)] .
  then obtain i where "up_temp u = temp_path E i" by (auto simp: session_ok_def)
  then show "session_ok E d' u"
    using session_frame[OF u] frame_other_temps[OF assms(1,6)] ne by metis
qed

lemma node_inv_step:
  assumes "hex_ok E" "node_step E nd s s'" "node_inv E s"
  shows "node_inv E s'"
  using assms(2,3)
proof cases
  case (message x m out d')
  have "session_ok E d' up" if "ns_uploads s k = Some up" for k up
    using node_inv_session[OF assms(3) that] handle_message_temp[OF assms(1) message(2)]
    by (metis session_frame session_ok_def)
  then show ?thesis
    using assms(3) handle_message_addressed[OF assms(1) _ message(2)] unfolding node_inv_def message(1) by simp
next
  case (opened x salt fh i n tok out up k)
  then show ?thesis
    using assms(3) stream_init_session(1)[OF opened(2)] by (auto simp: node_inv_def fresh_temp_def split: if_splits) blast
next
  case (chunk k up x f out up' d')
  note so = node_inv_session[OF assms(3) chunk(2)]
  show ?thesis
    using assms(3) chunk_view_shards[OF assms(1) so chunk(3)] chunk_session[OF so chunk(3)]
      other_session[OF assms(1,3) chunk(2) _ _ chunk(3)]
    unfolding node_inv_def chunk(1)
    by (auto simp: content_addressed_def split: if_splits) metis+
next
  case (finish k up x f out r d')
  note so = node_inv_session[OF assms(3) finish(2)]
  have "content_addressed E d'"
    using end_shards(1)[OF assms(1) so finish(3)] assms(3)
    by (auto simp: node_inv_def content_addressed_def split: if_splits)
  then show ?thesis
    using assms(3) other_session[OF assms(1,3) finish(2) _ _ finish(3)]
    unfolding node_inv_def finish(1) by (auto split: if_splits)
next
  case (cancel k)
  then show ?thesis using assms(3) by (auto simp: node_inv_def split: if_splits)
next
  case (restart io d')
  have "shard_at E d' = shard_at E (ns_disk s)"
    by (rule restart_shards[OF assms(1) restart(2) refl])
  then show ?thesis using assms(3) unfolding restart(1) by (simp add: node_inv_def content_addressed_def)
qed

lemma node_reach_inv:
  assumes "hex_ok E" "node_reach E nd s"
  shows "node_inv E s"
  using assms(2)
proof (induction rule: node_reach.induct)
  case (initial n)
  then show ?case by (simp add: node_inv_def content_addressed_def shard_at_def lookup_def)
qed (rule node_inv_step[OF assms(1)])

section \<open>Complete uploads and downloads\<close>

definition quiet_ctx :: "hctx \<Rightarrow> bool" where
  "quiet_ctx x \<longleftrightarrow> (\<forall>op. io_fault (hx_io x) op = None) \<and> (\<exists>a. io_avail (hx_io x) = Inr a \<and> 104857600 \<le> a)
     \<and> (\<forall>m. hx_tx x m = Ok ())"

lemma quiet_space: "quiet_ctx x \<Longrightarrow> ensure_sufficient_space (hx_io x) = Ok ()"
  by (auto simp: quiet_ctx_def ensure_sufficient_space_def)

lemma quiet_dir:
  assumes "quiet_ctx x"
  obtains d1 where "ensure_dir (hx_io x) d p = (Ok (), d1)" "dir_exists (d_fs d1) p"
    "\<forall>q. lookup (d_fs d1) q = lookup (d_fs d) q"
  using assms that[of d] that[of "d\<lparr>d_fs := (d_fs d)\<lparr>fs_dirs := List.insert p (fs_dirs (d_fs d))\<rparr>\<rparr>"]
  by (cases "dir_exists (d_fs d) p") (auto simp: ensure_dir_def quiet_ctx_def fs_simps dir_exists_def)

lemma quiet_send_seq: "quiet_ctx x \<Longrightarrow> send_seq (hx_tx x) ms = (ms, Ok ())"
  by (induction ms) (auto simp: quiet_ctx_def)

lemma quiet_chunk:
  assumes "quiet_ctx x" "length data \<le> MAX_SHARD_BYTES"
  obtains d1 where "store_stream_chunk (hx_io x) d p data = (Ok (), d1)"
proof -
  obtain d1 where "ensure_dir (hx_io x) d (fst p) = (Ok (), d1)" "dir_exists (d_fs d1) (fst p)"
    by (rule quiet_dir[OF assms(1)])
  then show thesis
    using that assms quiet_space[OF assms(1)] by (auto simp: store_stream_chunk_def quiet_ctx_def)
qed

lemma quiet_finalize:
  assumes "quiet_ctx x" "temp_at d p \<noteq> None"
  obtains d1 where "finalize_stream_temp E (hx_io x) d p h = (Ok (), d1)"
proof -
  obtain d1 where d1: "ensure_dir (hx_io x) d (fst (get_shard_path E h)) = (Ok (), d1)"
    "dir_exists (d_fs d1) (fst (get_shard_path E h))" "\<forall>q. lookup (d_fs d1) q = lookup (d_fs d) q"
    by (rule quiet_dir[OF assms(1)])
  obtain y where "lookup (d_fs d1) p = Some y" using d1(3) assms(2) by (auto simp: temp_at_def)
  then show thesis
    using that assms(1) d1(1,2) by (auto simp: finalize_stream_temp_def finalize_ops_def temp_at_def quiet_ctx_def fs_simps)
qed

lemma quiet_loop:
  assumes "hex_ok E" "quiet_ctx x" "session_ok E d up"
    and "length (up_hashed up @ concat cs) \<le> MAX_SHARD_BYTES" "blake3 E (up_hashed up @ concat cs) = h"
    and "cs \<noteq> [] \<or> temp_at d (up_temp up) \<noteq> None"
  shows "\<exists>d'. stream_loop E x d up (map (\<lambda>c. Received (Ok (StoreShardChunk c))) cs @ [Received (Ok (StoreShardStreamFinal h))])
       = (([response x True], Ok ()), d') \<and> shard_at E d' = (shard_at E d)(h \<mapsto> up_hashed up @ concat cs)"
  using assms(3-6)
proof (induction cs arbitrary: d up)
  case Nil
  then obtain d1 where f: "finalize_stream_temp E (hx_io x) d (up_temp up) h = (Ok (), d1)"
    using quiet_finalize[OF assms(2), of d "up_temp up" E h] by auto
  have t: "is_temp (up_temp up)" using Nil.prems(1) temp_path_temp by (auto simp: session_ok_def)
  have "temp_at d (up_temp up) = Some (up_hashed up)" using Nil.prems by (auto simp: session_ok_def)
  then have "shard_at E d1 = (shard_at E d)(h \<mapsto> up_hashed up)" using disk.commit_atomic[OF assms(1) t f] by auto
  then show ?case
    using f Nil.prems(3) by (simp add: stream_frame_def quiet_send_seq[OF assms(2)] fun_eq_iff del: send_seq.simps)
next
  case (Cons c cs)
  have len: "up_received up + length c \<le> MAX_SHARD_BYTES" "length c \<le> MAX_SHARD_BYTES"
    using Cons.prems(1,2) by (auto simp: session_ok_def)
  obtain d1 where g: "store_stream_chunk (hx_io x) d (up_temp up) c = (Ok (), d1)"
    using quiet_chunk[OF assms(2) len(2)] by blast
  have m: "MAX_SHARD_BYTES < 2 ^ 64 - 1" by (simp add: MAX_SHARD_BYTES_def)
  define up1 where "up1 = up\<lparr>up_hashed := up_hashed up @ c, up_received := min (up_received up + length c) (2 ^ 64 - 1)\<rparr>"
  have s: "stream_frame E x d up (Received (Ok (StoreShardChunk c))) = ([], Inr up1, d1)"
    using g len m by (simp add: stream_frame_def up1_def)
  note so = chunk_session[OF Cons.prems(1) s]
  have t1: "temp_at d1 (up_temp up1) \<noteq> None" using disk.grow_partial[OF g] by (simp add: up1_def)
  have l1: "length (up_hashed up1 @ concat cs) \<le> MAX_SHARD_BYTES" "blake3 E (up_hashed up1 @ concat cs) = h"
    using Cons.prems(2,3) by (simp_all add: up1_def)
  obtain d' where "stream_loop E x d1 up1 (map (\<lambda>c. Received (Ok (StoreShardChunk c))) cs @ [Received (Ok (StoreShardStreamFinal h))])
      = (([response x True], Ok ()), d')" "shard_at E d' = (shard_at E d1)(h \<mapsto> up_hashed up1 @ concat cs)"
    using Cons.IH[OF so(1) l1] t1 by blast
  then show ?case
    using s chunk_view_shards[OF assms(1) Cons.prems(1) s] by (simp add: up1_def fun_eq_iff)
qed

section \<open>Authorization\<close>

text \<open>The token, the operation and the hash a message must be authorized for.\<close>

fun msg_auth :: "ext \<Rightarrow> msg \<Rightarrow> (shard_token \<times> shard_op \<times> bytes) option" where
  "msg_auth E (StoreShardRequest h v t) = Some (t, OpStore, h)"
| "msg_auth E (RetrieveShardRequest h t) = Some (t, OpRetrieve, h)"
| "msg_auth E (RetrieveShardStreamInit h t) = Some (t, OpRetrieve, h)"
| "msg_auth E (DeleteShardRequest h t) = Some (t, OpDelete, h)"
| "msg_auth E (StorePinnedObject n v t) = Some (t, OpStore, blake3 E (str_bytes n))"
| "msg_auth E (GetPinnedObject n t) = Some (t, OpRetrieve, blake3 E (str_bytes n))"
| "msg_auth E (ListShardsRequest p t) = Some (t, OpList, blake3 E (str_bytes (case p of None \<Rightarrow> [] | Some q \<Rightarrow> q)))"
| "msg_auth E (StoreShardStreamInit fh i n c t) = Some (t, OpStore, blake3 E (fh @ [i]))"
| "msg_auth E m = None"

definition msg_authorized :: "ext \<Rightarrow> node \<Rightarrow> hctx \<Rightarrow> msg \<Rightarrow> bool" where
  "msg_authorized E nd x m = (case msg_auth E m of None \<Rightarrow> False | Some (t, op, h) \<Rightarrow> authorized E nd x t op h)"

text \<open>Answers that reveal stored data.\<close>

fun discloses :: "msg \<Rightarrow> bool" where
  "discloses (RetrieveShardResponse h v) = True"
| "discloses (RetrieveShardStreamAck f n) = True"
| "discloses (RetrieveShardChunk v) = True"
| "discloses (RetrieveShardStreamFinal h) = True"
| "discloses (PinnedObjectResponse v) = True"
| "discloses (ListShardsResponse p hs n) = True"
| "discloses m = False"

lemma send_seq_subset: "send_seq tx ms = (out, r) \<Longrightarrow> set out \<subseteq> set ms"
  by (induction ms arbitrary: out) (auto split: sum.splits prod.splits)

lemma handle_message_unauthorized:
  assumes "\<not> msg_authorized E nd x m" "handle_message E nd x d m = ((out, r), d')"
  shows "d' = d" "a \<in> set out \<Longrightarrow> \<not> discloses a"
  using assms
  by (cases m; fastforce simp: msg_authorized_def Let_def send_quiet_def dest!: send_seq_subset split: if_splits sum.splits prod.splits)+

section \<open>Whole streams\<close>

lemma upload_stream_ok:
  assumes "hex_ok E" "quiet_ctx x" "msg_authorized E nd x (StoreShardStreamInit fh i n c tok)" "n \<le> MAX_RETRIEVABLE"
    and "temp_at d (temp_path E (blake3 E (fh @ [i] @ salt))) = None"
    and "cs \<noteq> []" "length (concat cs) \<le> MAX_SHARD_BYTES" "blake3 E (concat cs) = h"
  shows "\<exists>d'. handle_stream E nd x salt d (Received (Ok (StoreShardStreamInit fh i n c tok)))
          (map (\<lambda>c. Received (Ok (StoreShardChunk c))) cs @ [Received (Ok (StoreShardStreamFinal h))])
        = (([StoreShardStreamAck True, StoreShardStreamResponse True (available_space (hx_io x))], Ok ()), d')
     \<and> shard_at E d' = (shard_at E d)(h \<mapsto> concat cs)"
proof -
  let ?up = "\<lparr>up_temp = temp_path E (blake3 E (fh @ [i] @ salt)), up_hashed = [], up_received = 0\<rparr>"
  have a: "authorized E nd x tok OpStore (blake3 E (fh @ [i]))"
    using assms(3) by (simp add: msg_authorized_def)
  have init: "stream_init E nd x salt fh i n tok = ([StoreShardStreamAck True], Inr ?up)"
    using a assms(4) by (simp add: stream_init_def Let_def quiet_send_seq[OF assms(2)] del: send_seq.simps)
  have so: "session_ok E d ?up" using stream_init_session(1)[OF init] assms(5) by simp
  obtain d' where "stream_loop E x d ?up (map (\<lambda>c. Received (Ok (StoreShardChunk c))) cs @ [Received (Ok (StoreShardStreamFinal h))])
      = (([response x True], Ok ()), d')" "shard_at E d' = (shard_at E d)(h \<mapsto> concat cs)"
    using quiet_loop[OF assms(1,2) so, of cs h] assms(6-8) by auto
  then show ?thesis by (simp add: handle_stream_def init response_def)
qed

lemma download_stream_ok:
  assumes "hex_ok E" "node_reach E nd s" "quiet_ctx x" "msg_authorized E nd x (RetrieveShardStreamInit h tok)"
    and "\<forall>f. snd (hx_read x f) = None \<and> concat (fst (hx_read x f)) = f"
  shows "(case shard_at E (ns_disk s) h of
       None \<Rightarrow> handle_message E nd x (ns_disk s) (RetrieveShardStreamInit h tok)
                 = (([RetrieveShardStreamAck False 0], Ok ()), ns_disk s)
     | Some v \<Rightarrow> \<exists>cs. concat cs = v \<and> handle_message E nd x (ns_disk s) (RetrieveShardStreamInit h tok)
                 = (([RetrieveShardStreamAck True (length v)] @ map RetrieveShardChunk cs @ [RetrieveShardStreamFinal h], Ok ()), ns_disk s))"
proof -
  have a: "authorized E nd x tok OpRetrieve h" using assms(4) by (simp add: msg_authorized_def)
  have nf: "\<And>op. io_fault (hx_io x) op = None" using assms(3) by (simp add: quiet_ctx_def)
  note inv = node_reach_inv[OF assms(1,2)]
  show ?thesis
  proof (cases "lookup (d_fs (ns_disk s)) (get_shard_path E h)")
    case None
    then show ?thesis
      using a by (simp add: shard_at_def retrieve_stream_def open_shard_file_def quiet_send_seq[OF assms(3)] del: send_seq.simps)
  next
    case (Some f)
    have "blake3 E (fcontent f) = h"
      using inv Some by (simp add: node_inv_def content_addressed_def shard_at_def)
    moreover obtain cs where "hx_read x (fcontent f) = (cs, None)" "concat cs = fcontent f"
      using assms(5) by (metis prod.collapse)
    ultimately show ?thesis
      using a Some
      by (auto simp: shard_at_def retrieve_stream_def open_shard_file_def nf quiet_send_seq[OF assms(3)] simp del: send_seq.simps)
  qed
qed

section \<open>Properties\<close>

text \<open>C3. No token, no effect: a message that does not carry a token valid for its own operation and its
  own shard, object name or listing scope, under the pinned owner and the current clock, leaves the
  disk exactly as it was and is never answered with stored data; and an upload session is opened
  only by an authorized request.\<close>

theorem unauthorized_has_no_effect:
  assumes "\<not> msg_authorized E nd x m"
  shows "(\<forall>out r d'. handle_message E nd x d m = ((out, r), d') \<longrightarrow> d' = d \<and> (\<forall>a\<in>set out. \<not> discloses a))
     \<and> (\<forall>fh i n c t out r d'. m = StoreShardStreamInit fh i n c t \<longrightarrow>
          handle_stream E nd x salt d (Received (Ok m)) frames = ((out, r), d') \<longrightarrow>
          d' = d \<and> (\<forall>a\<in>set out. \<not> discloses a))"
proof (intro conjI allI impI)
  fix out r d' assume "handle_message E nd x d m = ((out, r), d')"
  from handle_message_unauthorized[OF assms this] show "d' = d" "\<forall>a\<in>set out. \<not> discloses a" by blast+
next
  fix fh i n c t out r d'
  assume m: "m = StoreShardStreamInit fh i n c t"
    and h: "handle_stream E nd x salt d (Received (Ok m)) frames = ((out, r), d')"
  have "\<not> authorized E nd x t OpStore (blake3 E (fh @ [i]))" using assms by (simp add: m msg_authorized_def)
  then show "d' = d" "\<forall>a\<in>set out. \<not> discloses a"
    using h by (auto simp: m handle_stream_def stream_init_def Let_def send_quiet_def split: if_splits sum.splits)
qed

definition idle_ctx :: hctx where
  "idle_ctx = \<lparr>hx_clock = 1000, hx_io = quiet_io, hx_tx = (\<lambda>m. Ok ()), hx_read = (\<lambda>f. ([f], None))\<rparr>"

definition open_node :: node where
  "open_node = \<lparr>nd_identity = \<lparr>signing_key = replicate 32 3\<rparr>, nd_allowed = None\<rparr>"

definition bad_token :: shard_token where
  "bad_token = \<lparr>owner_node_id = replicate 32 9, timestamp = 0, signature = []\<rparr>"

theorem unauthorized_has_no_effect_witness:
  "snd (handle_message toy_ext open_node idle_ctx fresh_disk (DeleteShardRequest (replicate 32 1) bad_token)) = fresh_disk"
proof -
  have "\<not> msg_authorized toy_ext open_node idle_ctx (DeleteShardRequest (replicate 32 1) bad_token)"
    by (simp add: msg_authorized_def authorized_def verify_shard_token_def idle_ctx_def bad_token_def abs_diff_def)
  from unauthorized_has_no_effect[OF this] show ?thesis by (metis prod.collapse)
qed


definition store_token :: shard_token where
  "store_token = create_shard_token toy_ext 1000 \<lparr>signing_key = replicate 32 3\<rparr> OpStore (blake3 toy_ext [5])"



definition good_token :: shard_token where
  "good_token = create_shard_token toy_ext 1000 \<lparr>signing_key = replicate 32 3\<rparr> OpStore (blake3 toy_ext [8, 0])"


text \<open>A streaming download delivers the stored shard: for an authorized request in a reachable state,
  and whatever sizes the reads come in, the answer announces the length, then sends chunks that
  concatenate to exactly the stored bytes, and closes with the hash the client asked for; a shard
  that is not stored is answered with a negative acknowledgement.\<close>

theorem stream_download_complete:
  assumes "hex_ok E" "node_reach E nd s" "quiet_ctx x" "msg_authorized E nd x (RetrieveShardStreamInit h tok)"
    and "\<forall>f. snd (hx_read x f) = None \<and> concat (fst (hx_read x f)) = f"
  shows "(case shard_at E (ns_disk s) h of
       None \<Rightarrow> handle_message E nd x (ns_disk s) (RetrieveShardStreamInit h tok)
                 = (([RetrieveShardStreamAck False 0], Ok ()), ns_disk s)
     | Some v \<Rightarrow> \<exists>cs. concat cs = v \<and> handle_message E nd x (ns_disk s) (RetrieveShardStreamInit h tok)
                 = (([RetrieveShardStreamAck True (length v)] @ map RetrieveShardChunk cs @ [RetrieveShardStreamFinal h], Ok ()), ns_disk s))"
  by (rule download_stream_ok[OF assms])

theorem stream_download_complete_witness:
  "handle_message toy_ext open_node idle_ctx fresh_disk (RetrieveShardStreamInit (replicate 32 1)
       (create_shard_token toy_ext 1000 \<lparr>signing_key = replicate 32 3\<rparr> OpRetrieve (replicate 32 1)))
     = (([RetrieveShardStreamAck False 0], Ok ()), fresh_disk)"
proof -
  let ?t = "create_shard_token toy_ext 1000 \<lparr>signing_key = replicate 32 3\<rparr> OpRetrieve (replicate 32 1)"
  have r: "node_reach toy_ext open_node \<lparr>ns_disk = fresh_disk, ns_uploads = Map.empty\<rparr>"
    unfolding fresh_disk_def by (rule node_reach.initial)
  have q: "quiet_ctx idle_ctx" by (auto simp: quiet_ctx_def idle_ctx_def)
  have "msg_authorized toy_ext open_node idle_ctx (RetrieveShardStreamInit (replicate 32 1) ?t)"
    by (simp add: msg_authorized_def authorized_def open_node_def idle_ctx_def verify_shard_token_def
        create_shard_token_def Let_def abs_diff_def verify_signature_def sign_def node_id_def toy_ext_def toy_verify_def toy_pad_def)
  from stream_download_complete[OF toy_hex_ok r q this] show ?thesis by (simp add: idle_ctx_def)
qed

end
