(* ===== verification/Registry.thy ===== *)
theory Registry
  imports Wire "HOL-Library.AList"
begin

text \<open>
  How a node learns of its peers and reaches them: \<open>np2p/src/network/peer_registry.rs\<close> (the table,
  with admission control), \<open>discovery.rs\<close> (signed LAN announcements), \<open>coordinator.rs\<close> (the peer
  lists a coordinator hands out, and the relay client) and \<open>p2p_service.rs\<close> (dialing and sending).
  The hash map of the registry is an association list; its order stands for the iteration order
  of the map.  Instants are milliseconds.
\<close>

section \<open>Addresses\<close>

datatype ip = V4 nat nat nat nat | V6 nat

record sock_addr =
  sa_ip :: ip
  sa_port :: nat

fun is_private_ip :: "ip \<Rightarrow> bool" where
  "is_private_ip (V4 a b c d) =
     ((a = 10 \<or> (a = 172 \<and> 16 \<le> b \<and> b \<le> 31) \<or> (a = 192 \<and> b = 168))
      \<or> a = 127 \<or> (a = 169 \<and> b = 254))"
| "is_private_ip (V6 n) = (n = 1)"

section \<open>The registry\<close>

record peer_info =
  pi_node_id :: string
  pi_addr :: sock_addr
  pi_last_seen :: nat

datatype admission_policy = Open | AllowList "string list"

fun allows :: "admission_policy \<Rightarrow> string \<Rightarrow> bool" where
  "allows Open nid = True"
| "allows (AllowList l) nid = list_ex (\<lambda>i. i = nid) l"

record registry =
  rg_peers :: "(string \<times> peer_info) list"
  rg_admission :: admission_policy

definition registry_new :: registry where
  "registry_new = \<lparr>rg_peers = [], rg_admission = Open\<rparr>"

definition with_allow_list :: "string list \<Rightarrow> registry" where
  "with_allow_list allowed = \<lparr>rg_peers = [], rg_admission = AllowList allowed\<rparr>"

text \<open>\<open>P2PService::with_allowed_nodes\<close>: an empty list means open admission.\<close>

definition with_allowed_nodes :: "string list \<Rightarrow> registry" where
  "with_allowed_nodes allowed_nodes = (if allowed_nodes = [] then registry_new else with_allow_list allowed_nodes)"

definition get_peer :: "registry \<Rightarrow> string \<Rightarrow> peer_info option" where
  "get_peer r nid = map_of (rg_peers r) nid"

definition upsert :: "nat \<Rightarrow> registry \<Rightarrow> string \<Rightarrow> sock_addr \<Rightarrow> registry" where
  "upsert clock r nid addr =
     (if \<not> allows (rg_admission r) nid then r
      else case get_peer r nid of
        Some existing \<Rightarrow>
          if is_private_ip (sa_ip (pi_addr existing)) \<and> \<not> is_private_ip (sa_ip addr)
          then r\<lparr>rg_peers := AList.update nid (existing\<lparr>pi_last_seen := clock\<rparr>) (rg_peers r)\<rparr>
          else r\<lparr>rg_peers := AList.update nid \<lparr>pi_node_id = nid, pi_addr = addr, pi_last_seen = clock\<rparr> (rg_peers r)\<rparr>
      | None \<Rightarrow> r\<lparr>rg_peers := AList.update nid \<lparr>pi_node_id = nid, pi_addr = addr, pi_last_seen = clock\<rparr> (rg_peers r)\<rparr>)"

definition elapsed_secs :: "nat \<Rightarrow> nat \<Rightarrow> nat" where
  "elapsed_secs clock seen = (clock - seen) div 1000"

definition remove_stale :: "nat \<Rightarrow> registry \<Rightarrow> nat \<Rightarrow> registry" where
  "remove_stale clock r timeout_secs =
     r\<lparr>rg_peers := filter (\<lambda>(k, p). elapsed_secs clock (pi_last_seen p) < timeout_secs) (rg_peers r)\<rparr>"

definition find_by_addr :: "registry \<Rightarrow> sock_addr \<Rightarrow> string option" where
  "find_by_addr r addr = map_option fst (List.find (\<lambda>(k, p). pi_addr p = addr) (rg_peers r))"

definition all_peers :: "registry \<Rightarrow> peer_info list" where
  "all_peers r = map snd (rg_peers r)"

definition registry_len :: "registry \<Rightarrow> nat" where
  "registry_len r = length (rg_peers r)"

section \<open>Discovery on the LAN\<close>

record announcement =
  an_node_id :: string
  an_quic_port :: "16 word"
  an_timestamp :: u64
  an_signature :: string

definition u16_be :: "16 word \<Rightarrow> bytes" where
  "u16_be w = [ucast (drop_bit 8 w), ucast w]"

definition announce_msg :: "bytes \<Rightarrow> 16 word \<Rightarrow> u64 \<Rightarrow> bytes" where
  "announce_msg nid port ts = nid @ u16_be port @ u64_be ts"

text \<open>One round of the broadcaster's loop.\<close>

definition make_announcement :: "ext \<Rightarrow> node_identity \<Rightarrow> 16 word \<Rightarrow> u64 \<Rightarrow> announcement" where
  "make_announcement E i quic_port ts =
     \<lparr>an_node_id = hex_encode E (node_id E i), an_quic_port = quic_port, an_timestamp = ts,
      an_signature = hex_encode E (sign E i (announce_msg (node_id E i) quic_port ts))\<rparr>"

text \<open>One round of the listener's loop on a datagram from \<open>peer_ip\<close>; \<open>parse\<close> is the JSON decoder, which
  sees at most the 1024 bytes of the buffer.\<close>

definition listener_step :: "ext \<Rightarrow> (bytes \<Rightarrow> announcement option) \<Rightarrow> u64 \<Rightarrow> nat \<Rightarrow> string \<Rightarrow> registry \<Rightarrow> ip \<Rightarrow> bytes \<Rightarrow> registry" where
  "listener_step E parse current_secs clock our_node_id r peer_ip dgram =
     (case parse (take 1024 dgram) of
        None \<Rightarrow> r
      | Some ann \<Rightarrow>
          if an_node_id ann = our_node_id then r
          else if unat (an_timestamp ann) > unat current_secs + 10
                \<or> unat current_secs - unat (an_timestamp ann) > 60 then r
          else (case hex_decode E (an_node_id ann) of
                  None \<Rightarrow> r
                | Some node_id_bytes \<Rightarrow>
                    (case hex_decode E (an_signature ann) of
                       None \<Rightarrow> r
                     | Some sig_bytes \<Rightarrow>
                         if \<not> verify_signature E node_id_bytes
                               (announce_msg node_id_bytes (an_quic_port ann) (an_timestamp ann)) sig_bytes then r
                         else upsert clock r (an_node_id ann) \<lparr>sa_ip = peer_ip, sa_port = unat (an_quic_port ann)\<rparr>)))"

section \<open>The coordinator client\<close>

text \<open>The loop over a received peer list; \<open>parse_addr\<close> is \<open>str::parse::<SocketAddr>\<close>.\<close>

fun merge_peers :: "(string \<Rightarrow> sock_addr option) \<Rightarrow> nat \<Rightarrow> string \<Rightarrow> registry \<Rightarrow> (string \<times> string) list \<Rightarrow> registry \<times> nat" where
  "merge_peers parse_addr clock nid r [] = (r, 0)"
| "merge_peers parse_addr clock nid r ((peer_node_id, addr_str) # ps) =
     (if peer_node_id = nid then merge_peers parse_addr clock nid r ps
      else case parse_addr addr_str of
        Some addr \<Rightarrow>
          (case merge_peers parse_addr clock nid (upsert clock r peer_node_id addr) ps of (r', n) \<Rightarrow> (r', n + 1))
      | None \<Rightarrow> merge_peers parse_addr clock nid r ps)"

text \<open>The outcome of dialing: the ten-second deadline, an error, or a connection.\<close>

datatype 'c dial = DialTimeout | DialErr np2p_error | DialOk 'c

definition dialed :: "string \<Rightarrow> 'c dial \<Rightarrow> 'c result" where
  "dialed what c = (case c of DialTimeout \<Rightarrow> Err (Network what) | DialErr e \<Rightarrow> Err e | DialOk x \<Rightarrow> Ok x)"

definition run_once_request :: "string \<Rightarrow> nat option \<Rightarrow> string \<Rightarrow> msg" where
  "run_once_request nid quic_port namespace =
     (case quic_port of Some port \<Rightarrow> RegisterNode nid port namespace | None \<Rightarrow> GetPeers namespace)"

text \<open>One exchange with the coordinator: \<open>exchange\<close> is the opened connection's answer to a request.\<close>

definition run_once :: "(string \<Rightarrow> sock_addr option) \<Rightarrow> nat \<Rightarrow> (msg \<Rightarrow> msg result) dial \<Rightarrow> string \<Rightarrow> nat option \<Rightarrow> registry \<Rightarrow> string
    \<Rightarrow> nat result \<times> registry" where
  "run_once parse_addr clock conn nid quic_port r namespace =
     (case dialed ''Coordinator connect timed out'' conn of
        Inl e \<Rightarrow> (Err e, r)
      | Inr exchange \<Rightarrow>
          (case exchange (run_once_request nid quic_port namespace) of
             Inl e \<Rightarrow> (Err e, r)
           | Inr (PeerList ps) \<Rightarrow> (case merge_peers parse_addr clock nid r ps of (r', n) \<Rightarrow> (Ok n, r'))
           | Inr (MsgError code message) \<Rightarrow>
               (Err (Network (''Coordinator error '' @ show_nat code @ '': '' @ message)), r)
           | Inr _ \<Rightarrow> (Err (Protocol ''Unexpected response from coordinator''), r)))"

definition relay_message :: "bincode \<Rightarrow> (msg \<Rightarrow> msg result) dial \<Rightarrow> string \<Rightarrow> msg \<Rightarrow> msg result" where
  "relay_message B conn target_node_id message =
     bind_res (map_err Serialization (serialize B message)) (\<lambda>payload.
       bind_res (dialed ''Relay connect timed out'' conn) (\<lambda>exchange.
         bind_res (exchange (RelayRequest target_node_id payload)) (\<lambda>reply.
           case reply of
             RelayResponse payload \<Rightarrow> map_err Serialization (deserialize B payload)
           | MsgError code message \<Rightarrow> Err (Network (''Relay error '' @ show_nat code @ '': '' @ message))
           | _ \<Rightarrow> Err (Protocol ''Unexpected relay response''))))"

section \<open>P2PService\<close>

text \<open>The network as the service sees it: dialing an address under an expected node id, and the
  exchange on the resulting connection; \<open>show_addr\<close> renders a socket address.\<close>

record net =
  nt_dial :: "sock_addr \<Rightarrow> string \<Rightarrow> (msg \<Rightarrow> msg result) dial"
  nt_show_addr :: "sock_addr \<Rightarrow> string"

record p2p_service =
  sv_registry :: registry
  sv_coordinator_addr :: "sock_addr option"
  sv_coordinator_node_id :: "string option"

definition set_coordinator :: "p2p_service \<Rightarrow> sock_addr \<Rightarrow> string \<Rightarrow> p2p_service" where
  "set_coordinator s addr nid = s\<lparr>sv_coordinator_addr := Some addr, sv_coordinator_node_id := Some nid\<rparr>"

definition connect_to_addr :: "net \<Rightarrow> p2p_service \<Rightarrow> sock_addr \<Rightarrow> (string \<times> (msg \<Rightarrow> msg result)) result" where
  "connect_to_addr N s addr =
     (case find_by_addr (sv_registry s) addr of
        None \<Rightarrow> Err (Network (''Cannot verify peer identity: '' @ nt_show_addr N addr @ '' not in registry''))
      | Some nid \<Rightarrow>
          bind_res (dialed (''Timeout connecting to '' @ nt_show_addr N addr) (nt_dial N addr nid)) (\<lambda>c. Ok (nid, c)))"

definition connect_to_peer :: "net \<Rightarrow> p2p_service \<Rightarrow> string \<Rightarrow> (string \<times> (msg \<Rightarrow> msg result)) result" where
  "connect_to_peer N s nid =
     (case get_peer (sv_registry s) nid of
        None \<Rightarrow> Err (Network (''Peer not in registry: '' @ nid))
      | Some peer \<Rightarrow>
          bind_res (dialed (''Timeout connecting to peer '' @ nid) (nt_dial N (pi_addr peer) nid)) (\<lambda>c. Ok (nid, c)))"

text \<open>The first component of the result is the identity the connection was verified against.\<close>

definition try_direct :: "net \<Rightarrow> p2p_service \<Rightarrow> sock_addr \<Rightarrow> msg \<Rightarrow> (string \<times> msg) result" where
  "try_direct N s addr message =
     bind_res (connect_to_addr N s addr) (\<lambda>(nid, exchange).
       bind_res (exchange message) (\<lambda>reply. Ok (nid, reply)))"

definition send_message :: "bincode \<Rightarrow> net \<Rightarrow> p2p_service \<Rightarrow> string \<Rightarrow> msg \<Rightarrow> msg result" where
  "send_message B N s nid message =
     (case (case get_peer (sv_registry s) nid of
              Some peer \<Rightarrow> (case try_direct N s (pi_addr peer) message of Inr (_, response) \<Rightarrow> Some response | Inl e \<Rightarrow> None)
            | None \<Rightarrow> None) of
        Some response \<Rightarrow> Ok response
      | None \<Rightarrow>
          (case (sv_coordinator_addr s, sv_coordinator_node_id s) of
             (Some coord, Some coord_id) \<Rightarrow> relay_message B (nt_dial N coord coord_id) nid message
           | _ \<Rightarrow> Err (Network (''Peer '' @ nid @ '' unreachable and no coordinator configured (coordinator_node_id required)''))))"

section \<open>The interface of a peer table\<close>

text \<open>What the sources of peers rely on: a table that applies its admission rule at the one point where
  peers enter, changes only the entry it is told about, and records when the peer was seen.\<close>

locale peer_table =
  fixes admits :: "'t \<Rightarrow> string \<Rightarrow> bool"
    and find :: "'t \<Rightarrow> string \<Rightarrow> peer_info option"
    and put :: "nat \<Rightarrow> 't \<Rightarrow> string \<Rightarrow> sock_addr \<Rightarrow> 't"
    and expire :: "nat \<Rightarrow> 't \<Rightarrow> nat \<Rightarrow> 't"
  assumes put_admits: "admits (put c t k a) = admits t"
    and put_refused: "\<not> admits t k \<Longrightarrow> put c t k a = t"
    and put_other: "j \<noteq> k \<Longrightarrow> find (put c t k a) j = find t j"
    and put_seen: "admits t k \<Longrightarrow> \<exists>p. find (put c t k a) k = Some p \<and> pi_last_seen p = c"
    and expire_admits: "admits (expire c t n) = admits t"
    and expire_shrinks: "find (expire c t n) k = Some p \<Longrightarrow> \<exists>q. find t k = Some q"
begin

definition guarded :: "'t \<Rightarrow> bool" where
  "guarded t \<longleftrightarrow> (\<forall>k p. find t k = Some p \<longrightarrow> admits t k)"

lemma put_guarded: "guarded t \<Longrightarrow> guarded (put c t k a)"
  unfolding guarded_def by (metis put_admits put_other put_refused)

lemma expire_guarded: "guarded t \<Longrightarrow> guarded (expire c t n)"
  unfolding guarded_def by (metis expire_admits expire_shrinks)

lemma puts_guarded: "guarded t \<Longrightarrow> guarded (fold (\<lambda>(c, k, a) t. put c t k a) xs t)"
  by (induction xs arbitrary: t) (auto simp: put_guarded)

end

section \<open>Lemmas\<close>

definition reg_admits :: "registry \<Rightarrow> string \<Rightarrow> bool" where
  "reg_admits r nid = allows (rg_admission r) nid"

lemma get_peer_update: "get_peer (r\<lparr>rg_peers := AList.update k p (rg_peers r)\<rparr>) j = (if j = k then Some p else get_peer r j)"
  by (simp add: get_peer_def update_conv')

lemma upsert_admission [simp]: "rg_admission (upsert c r k a) = rg_admission r"
  by (simp add: upsert_def split: option.split)

lemma upsert_refused: "\<not> allows (rg_admission r) k \<Longrightarrow> upsert c r k a = r"
  by (simp add: upsert_def)

lemma upsert_get:
  "get_peer (upsert c r k a) j =
     (if j \<noteq> k \<or> \<not> allows (rg_admission r) k then get_peer r j
      else case get_peer r k of
        Some p \<Rightarrow> if is_private_ip (sa_ip (pi_addr p)) \<and> \<not> is_private_ip (sa_ip a)
                   then Some (p\<lparr>pi_last_seen := c\<rparr>)
                   else Some \<lparr>pi_node_id = k, pi_addr = a, pi_last_seen = c\<rparr>
      | None \<Rightarrow> Some \<lparr>pi_node_id = k, pi_addr = a, pi_last_seen = c\<rparr>)"
  by (auto simp: upsert_def get_peer_update split: option.split)

lemma map_of_filter_Some: "map_of (filter P xs) k = Some v \<Longrightarrow> \<exists>w. map_of xs k = Some w"
  by (metis filter_is_subset map_of_SomeD map_of_eq_None_iff not_None_eq subsetD weak_map_of_SomeI)

interpretation reg: peer_table reg_admits get_peer upsert remove_stale
proof (unfold_locales, goal_cases)
  case (1 c t k a)
  then show ?case by (rule ext) (simp add: reg_admits_def)
next
  case (2 t k c a)
  then show ?case by (simp add: reg_admits_def upsert_refused)
next
  case (3 j k c t a)
  then show ?case by (simp add: upsert_get)
next
  case (4 t k c a)
  then show ?case by (auto simp: reg_admits_def upsert_get split: option.split)
next
  case (5 c t n)
  then show ?case by (rule ext) (simp add: reg_admits_def remove_stale_def)
next
  case (6 c t n k p)
  then show ?case by (auto simp: get_peer_def remove_stale_def dest: map_of_filter_Some)
qed

lemma listener_step_upsert:
  "listener_step E parse now_secs clock us r peer_ip dgram = r
   \<or> (\<exists>ann nid sg. parse (take 1024 dgram) = Some ann \<and> an_node_id ann \<noteq> us
        \<and> unat (an_timestamp ann) \<le> unat now_secs + 10 \<and> unat now_secs \<le> unat (an_timestamp ann) + 60
        \<and> hex_decode E (an_node_id ann) = Some nid \<and> hex_decode E (an_signature ann) = Some sg
        \<and> verify_signature E nid (announce_msg nid (an_quic_port ann) (an_timestamp ann)) sg
        \<and> listener_step E parse now_secs clock us r peer_ip dgram
            = upsert clock r (an_node_id ann) \<lparr>sa_ip = peer_ip, sa_port = unat (an_quic_port ann)\<rparr>)"
  by (auto simp: listener_step_def split: option.splits)

lemma merge_peers_guarded:
  "reg.guarded r \<Longrightarrow> merge_peers pa c nid r ps = (r', n) \<Longrightarrow> reg.guarded r' \<and> rg_admission r' = rg_admission r"
proof (induction pa c nid r ps arbitrary: r' n rule: merge_peers.induct)
  case (2 pa c nid r k a ps)
  then show ?case
    by (auto simp: reg.put_guarded split: if_splits option.splits prod.splits)
qed simp

lemma run_once_guarded:
  assumes "reg.guarded r" "run_once pa c conn nid port r ns = (res, r')"
  shows "reg.guarded r' \<and> rg_admission r' = rg_admission r"
  using assms merge_peers_guarded[OF assms(1)]
  by (auto simp: run_once_def split: sum.splits msg.splits prod.splits)

section \<open>Everything that feeds a registry\<close>

inductive reg_reach :: "ext \<Rightarrow> registry \<Rightarrow> registry \<Rightarrow> bool" for E r0 where
  start: "reg_reach E r0 r0"
| heard: "reg_reach E r0 r \<Longrightarrow> reg_reach E r0 (listener_step E parse now_secs clock us r peer_ip dgram)"
| synced: "reg_reach E r0 r \<Longrightarrow> run_once pa clock conn nid port r ns = (res, r') \<Longrightarrow> reg_reach E r0 r'"
| swept: "reg_reach E r0 r \<Longrightarrow> reg_reach E r0 (remove_stale clock r n)"

lemma reg_reach_guarded:
  assumes "reg.guarded r0" "reg_reach E r0 r"
  shows "reg.guarded r \<and> rg_admission r = rg_admission r0"
  using assms(2)
proof induction
  case start
  then show ?case using assms(1) by simp
next
  case (heard r parse now_secs clock us peer_ip dgram)
  then show ?case
    using listener_step_upsert[of E parse now_secs clock us r peer_ip dgram] reg.put_guarded by fastforce
next
  case (synced r pa clock conn nid port ns res r')
  then show ?case using run_once_guarded by metis
next
  case (swept r clock n)
  then show ?case using reg.expire_guarded by (simp add: remove_stale_def)
qed

section \<open>Properties\<close>



text \<open>A LAN announcement enters the registry only when it is authentic and fresh, and then under the
  key that signed it: any change a datagram causes is to the single entry of an admitted node id
  whose key verifies the signature over that id, port and time, dated at most 60 seconds back and
  10 ahead.  Conversely the announcement a node broadcasts, heard within that window by a listener
  that admits it, leaves that node in the registry, seen now, at the sender's address and announced
  port (or at the LAN address already known, when the sender's address is public).\<close>

theorem discovery_authentic_and_complete:
  assumes "hex_ok E" "ed25519_ok E" "length (signing_key i) = 32"
  shows "(listener_step E parse now_secs clock us r peer_ip dgram \<noteq> r \<longrightarrow>
       (\<exists>ann nid sg. parse (take 1024 dgram) = Some ann \<and> hex_decode E (an_node_id ann) = Some nid
          \<and> verify_signature E nid (announce_msg nid (an_quic_port ann) (an_timestamp ann)) sg
          \<and> unat (an_timestamp ann) \<le> unat now_secs + 10 \<and> unat now_secs \<le> unat (an_timestamp ann) + 60
          \<and> reg_admits r (an_node_id ann)
          \<and> (\<forall>k. k \<noteq> an_node_id ann \<longrightarrow>
               get_peer (listener_step E parse now_secs clock us r peer_ip dgram) k = get_peer r k)))
   \<and> (parse (take 1024 dgram) = Some (make_announcement E i port ts)
      \<and> us \<noteq> hex_encode E (node_id E i) \<and> reg_admits r (hex_encode E (node_id E i))
      \<and> unat ts \<le> unat now_secs + 10 \<and> unat now_secs \<le> unat ts + 60 \<longrightarrow>
      (\<exists>p. get_peer (listener_step E parse now_secs clock us r peer_ip dgram) (hex_encode E (node_id E i)) = Some p
         \<and> pi_last_seen p = clock
         \<and> (pi_addr p = \<lparr>sa_ip = peer_ip, sa_port = unat port\<rparr>
             \<or> is_private_ip (sa_ip (pi_addr p)) \<and> \<not> is_private_ip peer_ip)))"
proof (intro conjI impI)
  assume ch: "listener_step E parse now_secs clock us r peer_ip dgram \<noteq> r"
  then obtain ann nid sg where a: "parse (take 1024 dgram) = Some ann" "hex_decode E (an_node_id ann) = Some nid"
    "verify_signature E nid (announce_msg nid (an_quic_port ann) (an_timestamp ann)) sg"
    "unat (an_timestamp ann) \<le> unat now_secs + 10" "unat now_secs \<le> unat (an_timestamp ann) + 60"
    and u: "listener_step E parse now_secs clock us r peer_ip dgram
      = upsert clock r (an_node_id ann) \<lparr>sa_ip = peer_ip, sa_port = unat (an_quic_port ann)\<rparr>"
    using listener_step_upsert[of E parse now_secs clock us r peer_ip dgram] by blast
  have "reg_admits r (an_node_id ann)" using ch u reg.put_refused by metis
  then show "\<exists>ann nid sg. parse (take 1024 dgram) = Some ann \<and> hex_decode E (an_node_id ann) = Some nid
      \<and> verify_signature E nid (announce_msg nid (an_quic_port ann) (an_timestamp ann)) sg
      \<and> unat (an_timestamp ann) \<le> unat now_secs + 10 \<and> unat now_secs \<le> unat (an_timestamp ann) + 60
      \<and> reg_admits r (an_node_id ann)
      \<and> (\<forall>k. k \<noteq> an_node_id ann \<longrightarrow>
           get_peer (listener_step E parse now_secs clock us r peer_ip dgram) k = get_peer r k)"
    using a reg.put_other unfolding u by blast
next
  let ?id = "hex_encode E (node_id E i)"
  assume h: "parse (take 1024 dgram) = Some (make_announcement E i port ts)
      \<and> us \<noteq> ?id \<and> reg_admits r ?id \<and> unat ts \<le> unat now_secs + 10 \<and> unat now_secs \<le> unat ts + 60"
  have "verify_signature E (node_id E i) m (sign E i m)" for m
    using assms(2,3) by (simp add: verify_signature_def node_id_def sign_def ed25519_ok_def)
  then have "listener_step E parse now_secs clock us r peer_ip dgram = upsert clock r ?id \<lparr>sa_ip = peer_ip, sa_port = unat port\<rparr>"
    using h by (auto simp: listener_step_def make_announcement_def hex_decode_encode[OF assms(1)])
  then show "\<exists>p. get_peer (listener_step E parse now_secs clock us r peer_ip dgram) ?id = Some p \<and> pi_last_seen p = clock
      \<and> (pi_addr p = \<lparr>sa_ip = peer_ip, sa_port = unat port\<rparr> \<or> is_private_ip (sa_ip (pi_addr p)) \<and> \<not> is_private_ip peer_ip)"
    using h by (auto simp: upsert_get reg_admits_def split: option.split)
qed

theorem discovery_authentic_and_complete_witness:
  "\<exists>p. get_peer (listener_step toy_ext (\<lambda>d. Some (make_announcement toy_ext (from_secret toy_ext ''s'') 4433 100)) 150 7 ''us''
        registry_new (V4 192 168 1 9) []) (hex_encode toy_ext (node_id toy_ext (from_secret toy_ext ''s''))) = Some p
     \<and> pi_last_seen p = 7"
proof -
  have l: "length (signing_key (from_secret toy_ext ''s'')) = 32" by (simp add: from_secret_def blake3_len)
  have "length (hex_encode toy_ext (node_id toy_ext (from_secret toy_ext ''s''))) = 64"
    using l by (simp add: hex_encode_len node_id_def ed25519_ok_def[THEN iffD1, OF toy_ed25519_ok])
  moreover have "length ''us'' \<noteq> 64" by simp
  ultimately have "''us'' \<noteq> hex_encode toy_ext (node_id toy_ext (from_secret toy_ext ''s''))" by metis
  then show ?thesis
    using discovery_authentic_and_complete[OF toy_hex_ok toy_ed25519_ok l,
        of "\<lambda>d. Some (make_announcement toy_ext (from_secret toy_ext ''s'') 4433 100)" 150 7 "''us''" registry_new "V4 192 168 1 9" "[]" 4433 100]
    by (auto simp: reg_admits_def registry_new_def)
qed

text \<open>A direct send to a node does not bind the connection to that node: the service looks the address
  up and then resolves the identity again from the address, so that with two ids registered at one
  address (a reinstalled node behind the same socket) a message for the second is exchanged over a
  connection verified as the first.  Dialing through \<open>connect_to_peer\<close> binds the right identity.\<close>

theorem send_message_wrong_identity:
  "let addr = \<lparr>sa_ip = V4 192 168 1 9, sa_port = 4433\<rparr>;
       reg = upsert 2 (upsert 1 registry_new ''old'' addr) ''new'' addr;
       s = \<lparr>sv_registry = reg, sv_coordinator_addr = None, sv_coordinator_node_id = None\<rparr>;
       N = \<lparr>nt_dial = (\<lambda>a nid. DialOk (\<lambda>m. Ok (HandshakeAck (str_bytes nid)))), nt_show_addr = (\<lambda>a. ''192.168.1.9:4433'')\<rparr>
   in send_message B N s ''new'' (Heartbeat 0) = Ok (HandshakeAck (str_bytes ''old''))
      \<and> bind_res (connect_to_peer N s ''new'') (\<lambda>(nid, ex). ex (Heartbeat 0)) = Ok (HandshakeAck (str_bytes ''new''))"
  by (simp add: send_message_def try_direct_def connect_to_addr_def connect_to_peer_def find_by_addr_def upsert_def
      registry_new_def get_peer_def dialed_def)

text \<open>When no two registered peers share an address, a direct send is verified against the node it is
  meant for; and if that fails and a coordinator is configured, the message goes through the relay.\<close>

theorem send_message_direct_identity:
  assumes "get_peer (sv_registry s) nid = Some peer"
    and "\<forall>(k, q) \<in> set (rg_peers (sv_registry s)). pi_addr q = pi_addr peer \<longrightarrow> k = nid"
  shows "(\<forall>nid' reply. try_direct N s (pi_addr peer) m = Ok (nid', reply) \<longrightarrow>
            nid' = nid \<and> send_message B N s nid m = Ok reply)
     \<and> (\<not> is_ok (try_direct N s (pi_addr peer) m) \<and> sv_coordinator_addr s = Some ca \<and> sv_coordinator_node_id s = Some cid \<longrightarrow>
            send_message B N s nid m = relay_message B (nt_dial N ca cid) nid m)"
proof -
  have "(nid, peer) \<in> set (rg_peers (sv_registry s))"
    using assms(1) by (simp add: get_peer_def map_of_SomeD)
  then obtain x where x: "List.find (\<lambda>(k, p). pi_addr p = pi_addr peer) (rg_peers (sv_registry s)) = Some x"
    by (cases "List.find (\<lambda>(k, p). pi_addr p = pi_addr peer) (rg_peers (sv_registry s))") (auto simp: find_None_iff)
  then have "fst x = nid" using assms(2) by (auto simp: find_Some_iff in_set_conv_nth)
  then have f: "find_by_addr (sv_registry s) (pi_addr peer) = Some nid" using x by (simp add: find_by_addr_def)
  have "nid' = nid" if "try_direct N s (pi_addr peer) m = Ok (nid', reply)" for nid' reply
    using that f by (auto simp: try_direct_def connect_to_addr_def result_simps)
  then show ?thesis
    using assms(1) by (cases "try_direct N s (pi_addr peer) m") (auto simp: send_message_def)
qed

theorem send_message_direct_identity_witness:
  "let addr = \<lparr>sa_ip = V4 192 168 1 9, sa_port = 4433\<rparr>;
       s = \<lparr>sv_registry = upsert 1 registry_new ''n'' addr, sv_coordinator_addr = None, sv_coordinator_node_id = None\<rparr>;
       N = \<lparr>nt_dial = (\<lambda>a nid. DialOk (\<lambda>m. Ok (HandshakeAck (str_bytes nid)))), nt_show_addr = (\<lambda>a. [])\<rparr>
   in send_message unit_bincode N s ''n'' (Heartbeat 0) = Ok (HandshakeAck (str_bytes ''n''))"
proof -
  let ?addr = "\<lparr>sa_ip = V4 192 168 1 9, sa_port = 4433\<rparr>"
  let ?s = "\<lparr>sv_registry = upsert 1 registry_new ''n'' ?addr, sv_coordinator_addr = None, sv_coordinator_node_id = None\<rparr>"
  let ?N = "\<lparr>nt_dial = (\<lambda>a nid. DialOk (\<lambda>m. Ok (HandshakeAck (str_bytes nid)))), nt_show_addr = (\<lambda>a. [])\<rparr>"
  have g: "get_peer (sv_registry ?s) ''n'' = Some \<lparr>pi_node_id = ''n'', pi_addr = ?addr, pi_last_seen = 1\<rparr>"
    "rg_peers (sv_registry ?s) = [(''n'', \<lparr>pi_node_id = ''n'', pi_addr = ?addr, pi_last_seen = 1\<rparr>)]"
    by (simp_all add: upsert_def registry_new_def get_peer_def)
  have t: "try_direct ?N ?s ?addr (Heartbeat 0) = Ok (''n'', HandshakeAck (str_bytes ''n''))"
    by (simp add: try_direct_def connect_to_addr_def find_by_addr_def upsert_def registry_new_def get_peer_def dialed_def)
  have "send_message unit_bincode ?N ?s ''n'' (Heartbeat 0) = Ok (HandshakeAck (str_bytes ''n''))"
    using send_message_direct_identity[OF g(1), of ?N "Heartbeat 0" unit_bincode] g(2) t by simp
  then show ?thesis by simp
qed

end
