(* ===== verification/Retry.thy ===== *)
theory Retry
  imports Registry Complex_Main
begin

text \<open>
  Loops that try again: \<open>ReconnectBackoff\<close> (\<open>np2p/src/network/utils.rs\<close>), the reverse-channel and
  tunnel clients that use it (\<open>channel.rs\<close>, \<open>tunnel.rs\<close>), and the background worker loop with its
  load-dependent limits (\<open>src/system_utils.rs\<close>).  Floating-point quantities are rationals; times are
  whole seconds in the first and milliseconds in the second.
\<close>

section \<open>The interface\<close>

text \<open>A retry policy whose waiting level doubles on every failure up to a cap.\<close>

locale retry_policy =
  fixes level :: "'s \<Rightarrow> nat" and cap :: "'s \<Rightarrow> nat" and fail :: "'s \<Rightarrow> 's" and sane :: "'s \<Rightarrow> bool"
  assumes fail_level: "sane s \<Longrightarrow> level (fail s) = min (2 * level s) (cap s)"
    and fail_cap: "cap (fail s) = cap s"
    and fail_sane: "sane s \<Longrightarrow> sane (fail s)"
begin

lemma fails_level:
  assumes "sane s" "level s \<le> cap s"
  shows "sane ((fail ^^ n) s) \<and> cap ((fail ^^ n) s) = cap s \<and> level ((fail ^^ n) s) = min (2 ^ n * level s) (cap s)"
proof (induction n)
  case 0
  then show ?case using assms by simp
next
  case (Suc n)
  then show ?case using fail_level[of "(fail ^^ n) s"] by (auto simp: fail_cap fail_sane min_def)
qed

lemma fail_le_cap: "sane s \<Longrightarrow> level (fail s) \<le> cap s"
  by (simp add: fail_level)

end

section \<open>ReconnectBackoff\<close>

record backoff =
  bo_initial :: nat
  bo_max :: nat
  bo_current :: nat

definition backoff_new :: "nat \<Rightarrow> nat \<Rightarrow> backoff" where
  "backoff_new initial_secs max_secs =
     \<lparr>bo_initial = max initial_secs 1, bo_max = max max_secs 1, bo_current = max initial_secs 1\<rparr>"

definition backoff_reset :: "backoff \<Rightarrow> backoff" where
  "backoff_reset b = b\<lparr>bo_current := bo_initial b\<rparr>"

definition skip_to_max :: "backoff \<Rightarrow> backoff" where
  "skip_to_max b = b\<lparr>bo_current := bo_max b\<rparr>"

definition advance :: "backoff \<Rightarrow> backoff" where
  "advance b = b\<lparr>bo_current := min (min (bo_current b * 2) (2 ^ 64 - 1)) (bo_max b)\<rparr>"

definition next_delay :: "rat \<Rightarrow> backoff \<Rightarrow> nat \<times> backoff" where
  "next_delay jitter b =
     (let base = bo_current b;
          secs = nat (max 1 (round (of_nat base * (1 + jitter))))
      in (secs, advance b))"

section \<open>The channel and tunnel clients\<close>

text \<open>The coordinator as a session sees it: opening the stream, sending, the reply to what has been sent
  so far, and the error that finally ends the wait for further streams.\<close>

record session_peer =
  sp_open :: "unit result"
  sp_tx :: "msg \<Rightarrow> unit result"
  sp_rx :: "msg list \<Rightarrow> msg result"
  sp_end :: np2p_error

definition run_channel :: "ext \<Rightarrow> (msg \<Rightarrow> string) \<Rightarrow> string \<Rightarrow> node_identity \<Rightarrow> session_peer dial \<Rightarrow> unit result" where
  "run_channel E show_msg nid i conn =
     bind_res (dialed ''Channel connect timed out'' conn) (\<lambda>c.
     bind_res (sp_open c) (\<lambda>_.
     bind_res (sp_tx c (NodeChannelRegister nid)) (\<lambda>_.
     bind_res (sp_rx c [NodeChannelRegister nid]) (\<lambda>m1.
       case m1 of
         NodeChannelChallenge nonce \<Rightarrow>
           let reply = NodeChannelChallengeResponse (sign E i nonce) in
           bind_res (sp_tx c reply) (\<lambda>_.
           bind_res (sp_rx c [NodeChannelRegister nid, reply]) (\<lambda>m2.
             case m2 of
               NodeChannelAccepted \<Rightarrow> Err (sp_end c)
             | MsgError code message \<Rightarrow>
                 Err (Protocol (''Coordinator rejected channel: '' @ show_nat code @ '' '' @ message))
             | other \<Rightarrow> Err (Protocol (''Expected NodeChannelAccepted, got '' @ show_msg other))))
       | other \<Rightarrow> Err (Protocol (''Expected NodeChannelChallenge, got '' @ show_msg other))))))"

definition run_tunnel :: "ext \<Rightarrow> (msg \<Rightarrow> string) \<Rightarrow> string \<Rightarrow> node_identity \<Rightarrow> session_peer dial \<Rightarrow> unit result" where
  "run_tunnel E show_msg nid i conn =
     bind_res (dialed ''Tunnel connect timed out'' conn) (\<lambda>c.
     bind_res (sp_open c) (\<lambda>_.
     bind_res (sp_tx c (TunnelRegister nid)) (\<lambda>_.
     bind_res (sp_rx c [TunnelRegister nid]) (\<lambda>m1.
       case m1 of
         TunnelChallenge nonce \<Rightarrow>
           let reply = TunnelChallengeResponse (sign E i nonce) in
           bind_res (sp_tx c reply) (\<lambda>_.
           bind_res (sp_rx c [TunnelRegister nid, reply]) (\<lambda>m2.
             case m2 of
               TunnelAccepted \<Rightarrow> Err (sp_end c)
             | MsgError code message \<Rightarrow>
                 Err (Protocol (''Coordinator rejected tunnel: '' @ show_nat code @ '' '' @ message))
             | other \<Rightarrow> Err (Protocol (''Expected TunnelAccepted, got '' @ show_msg other))))
       | other \<Rightarrow> Err (Protocol (''Expected TunnelChallenge, got '' @ show_msg other))))))"

text \<open>The reconnect loop of both clients: what the result of a session does to the backoff, and the
  delays slept between sessions.\<close>

definition after_session :: "backoff \<Rightarrow> unit result \<Rightarrow> backoff" where
  "after_session b r =
     (case r of
        Inr _ \<Rightarrow> backoff_reset b
      | Inl (UnknownMessage m) \<Rightarrow> skip_to_max b
      | Inl e \<Rightarrow> b)"

fun client_loop :: "backoff \<Rightarrow> (unit result \<times> rat) list \<Rightarrow> nat list \<times> backoff" where
  "client_loop b [] = ([], b)"
| "client_loop b ((r, jitter) # rs) =
     (case next_delay jitter (after_session b r) of
        (delay, b1) \<Rightarrow> (case client_loop b1 rs of (ds, b2) \<Rightarrow> (delay # ds, b2)))"

definition RECONNECT_DELAY_SECS :: nat where "RECONNECT_DELAY_SECS = 5"
definition MAX_RECONNECT_DELAY_SECS :: nat where "MAX_RECONNECT_DELAY_SECS = 60"

section \<open>Background workers\<close>

datatype work_result = DidWork | Idle | WorkFailed | Panicked

datatype shutdown_phase = AtStart | DuringTask | AfterTask | DuringSleep

definition next_interval :: "nat \<Rightarrow> nat \<Rightarrow> nat \<Rightarrow> work_result \<Rightarrow> nat" where
  "next_interval min_interval max_interval current r =
     (case r of
        DidWork \<Rightarrow> min_interval
      | Idle \<Rightarrow> min (current * 2) max_interval
      | WorkFailed \<Rightarrow> min (current * 2) max_interval
      | Panicked \<Rightarrow> min (current * 2) max_interval)"

text \<open>Each round: how its task ended and where, if at all, the shutdown token fired.  The result is the
  list of completed sleeps.\<close>

fun worker_rounds :: "nat \<Rightarrow> nat \<Rightarrow> nat \<Rightarrow> (work_result \<times> shutdown_phase option) list \<Rightarrow> nat list" where
  "worker_rounds mn mx current [] = []"
| "worker_rounds mn mx current ((r, shutdown) # rounds) =
     (case shutdown of
        Some phase \<Rightarrow> []
      | None \<Rightarrow> let current' = next_interval mn mx current r in current' # worker_rounds mn mx current' rounds)"

definition run_worker_loop :: "nat \<Rightarrow> nat \<Rightarrow> (work_result \<times> shutdown_phase option) list \<Rightarrow> nat list" where
  "run_worker_loop min_interval max_interval rounds = worker_rounds min_interval max_interval min_interval rounds"

record concurrency_limits =
  cl_verification :: nat
  cl_embedding :: nat
  cl_face_detection :: nat
  cl_description :: nat
  cl_gpu_overloaded :: bool

definition is_overloaded :: "concurrency_limits \<Rightarrow> bool" where
  "is_overloaded l = (cl_verification l = 0)"

definition clamp :: "nat \<Rightarrow> nat \<Rightarrow> nat \<Rightarrow> nat" where
  "clamp lo hi n = max lo (min hi n)"

definition normalized_load :: "rat \<Rightarrow> nat \<Rightarrow> rat" where
  "normalized_load load_average cpu_count = load_average / max (of_nat cpu_count) 1"

definition calculate_worker_concurrency :: "rat \<Rightarrow> nat \<Rightarrow> nat \<Rightarrow> concurrency_limits" where
  "calculate_worker_concurrency load_average gpu_load cpu_count =
     (let nload = normalized_load load_average cpu_count;
          gpu_overloaded = (gpu_load > 90) in
      if nload > 12 / 10
      then \<lparr>cl_verification = 0, cl_embedding = 0, cl_face_detection = 0, cl_description = 0, cl_gpu_overloaded = gpu_overloaded\<rparr>
      else
        let base = max (of_nat cpu_count * (7 / 10)) 1;
            load_multiplier = (if nload > 9 / 10 then 1 / 2 else if nload > 7 / 10 then 3 / 4 else if nload > 1 / 2 then 9 / 10 else 1);
            ai_multiplier = (if gpu_load > 80 then 3 / 10 else if gpu_load > 50 then 6 / 10 else 1);
            available = max (base * load_multiplier) (1 :: rat)
        in \<lparr>cl_verification = clamp 2 16 (nat \<lceil>available * (3 / 2)\<rceil>),
            cl_embedding = clamp 1 10 (nat \<lceil>available * ai_multiplier\<rceil>),
            cl_face_detection = clamp 1 8 (nat \<lceil>available * (3 / 4) * ai_multiplier\<rceil>),
            cl_description = clamp 1 4 (nat (max \<lceil>available * (1 / 4) * ai_multiplier\<rceil> 1)),
            cl_gpu_overloaded = gpu_overloaded\<rparr>)"

definition calculate_parallel_batch_size :: "nat \<Rightarrow> rat \<Rightarrow> nat \<Rightarrow> int" where
  "calculate_parallel_batch_size concurrency load_average cpu_count =
     (let nload = normalized_load load_average cpu_count in
      if nload > 3 / 2 then 0
      else let multiplier = (if nload > 1 then 2 else if nload > 7 / 10 then 3 else 5)
           in max 3 (min 50 (int (concurrency * multiplier))))"

definition adjust_batch_size :: "rat \<Rightarrow> int" where
  "adjust_batch_size load_average =
     (if load_average > 3 then 0 else if load_average > 2 then 1 else if load_average > 1 then 2 else 3)"

section \<open>Lemmas\<close>

definition backoff_sane :: "backoff \<Rightarrow> bool" where
  "backoff_sane b \<longleftrightarrow> bo_max b < 2 ^ 64 \<and> 1 \<le> bo_current b \<and> 1 \<le> bo_max b"

interpretation reconnect: retry_policy bo_current bo_max advance backoff_sane
  by unfold_locales (auto simp: advance_def backoff_sane_def)

record worker_state =
  ws_max :: nat
  ws_current :: nat

definition worker_fail :: "worker_state \<Rightarrow> worker_state" where
  "worker_fail w = w\<lparr>ws_current := next_interval 0 (ws_max w) (ws_current w) WorkFailed\<rparr>"

interpretation worker: retry_policy ws_current ws_max worker_fail "\<lambda>w. True"
  by unfold_locales (auto simp: worker_fail_def next_interval_def)

lemma round_bounds: "of_int (round x) \<le> x + 1 / 2" "x < of_int (round x) + 1 / (2 :: rat)"
  unfolding round_def by linarith+

lemma next_delay_bounds:
  assumes "- 1 / 5 \<le> jitter" "jitter < 1 / 5" "1 \<le> bo_current b"
  shows "1 \<le> fst (next_delay jitter b)" "10 * fst (next_delay jitter b) \<le> 12 * bo_current b + 5"
    "8 * bo_current b \<le> 10 * fst (next_delay jitter b) + 5"
proof -
  let ?b = "of_nat (bo_current b) :: rat"
  let ?x = "?b * (1 + jitter)"
  let ?s = "fst (next_delay jitter b)"
  have b: "1 \<le> ?b" using assms(3) by simp
  have lo: "?b * (4 / 5) \<le> ?x" using assms(1) b by (intro mult_left_mono) auto
  have hi: "?x \<le> ?b * (6 / 5)" using assms(2) b by (intro mult_left_mono) auto
  have s: "int ?s = max 1 (round ?x)" by (simp add: next_delay_def)
  show "1 \<le> ?s" using s by linarith
  have r: "of_int (round ?x) \<le> ?b * (6 / 5) + 1 / 2" "?b * (4 / 5) < of_int (round ?x) + 1 / (2 :: rat)"
    using round_bounds[of ?x] lo hi by linarith+
  have "(of_int (int ?s) :: rat) \<le> ?b * (6 / 5) + 1 / 2"
    using r(1) b unfolding s by (auto simp: max_def)
  then have "of_int (10 * int ?s) \<le> (of_int (12 * int (bo_current b) + 5) :: rat)" by simp
  then have "10 * int ?s \<le> 12 * int (bo_current b) + 5" by (simp only: of_int_le_iff)
  then show "10 * ?s \<le> 12 * bo_current b + 5" by linarith
  have "?b * (4 / 5) < of_int (int ?s) + 1 / (2 :: rat)"
    using r(2) unfolding s by (auto simp: max_def)
  then have "of_int (8 * int (bo_current b)) < (of_int (10 * int ?s + 5) :: rat)" by simp
  then have "8 * int (bo_current b) < 10 * int ?s + 5" by (simp only: of_int_less_iff)
  then show "8 * bo_current b \<le> 10 * ?s + 5" by linarith
qed

lemma channel_never_ok: "run_channel E sh nid i conn \<noteq> Ok ()"
  by (auto simp: run_channel_def Let_def result_simps split: msg.splits)

lemma tunnel_never_ok: "run_tunnel E sh nid i conn \<noteq> Ok ()"
  by (auto simp: run_tunnel_def Let_def result_simps split: msg.splits)

lemma after_session_grows:
  assumes "backoff_sane b" "bo_current b \<le> bo_max b" "r \<noteq> Ok ()"
  shows "bo_current b \<le> bo_current (after_session b r)" "bo_current (after_session b r) \<le> bo_max b"
    "backoff_sane (after_session b r)" "bo_max (after_session b r) = bo_max b"
  using assms by (auto simp: after_session_def skip_to_max_def backoff_sane_def split: sum.splits np2p_error.splits)

lemma client_loop_grows:
  assumes "backoff_sane b" "bo_current b \<le> bo_max b" "\<forall>(r, j) \<in> set rs. r \<noteq> Ok ()"
  shows "min (2 ^ length rs * bo_current b) (bo_max b) \<le> bo_current (snd (client_loop b rs))"
  using assms
proof (induction rs arbitrary: b)
  case (Cons x rs)
  obtain r j where x: "x = (r, j)" by (cases x)
  let ?a = "after_session b r"
  note g = after_session_grows[OF Cons.prems(1,2), of r]
  have rne: "r \<noteq> Ok ()" using Cons.prems(3) x by simp
  have adv: "bo_current (advance ?a) = min (2 * bo_current ?a) (bo_max b)" "bo_max (advance ?a) = bo_max b" "backoff_sane (advance ?a)"
    using reconnect.fail_level[of ?a] reconnect.fail_cap[of ?a] reconnect.fail_sane[of ?a] g rne by auto
  have "min (2 ^ length rs * bo_current (advance ?a)) (bo_max b) \<le> bo_current (snd (client_loop (advance ?a) rs))"
    using Cons.IH[of "advance ?a"] adv Cons.prems(3) by simp
  moreover have "min (2 ^ length (x # rs) * bo_current b) (bo_max b) \<le> min (2 ^ length rs * bo_current (advance ?a)) (bo_max b)"
  proof -
    have "2 * (2 ^ length rs * bo_current b) \<le> 2 ^ length rs * (2 * bo_current ?a)" using g(1) rne by simp
    then have "min (2 ^ length (x # rs) * bo_current b) (bo_max b) \<le> min (2 ^ length rs * (2 * bo_current ?a)) (bo_max b)"
      by (intro min.mono) (simp_all add: mult.assoc)
    also have "min (2 ^ length rs * (2 * bo_current ?a)) (bo_max b) \<le> 2 ^ length rs * min (2 * bo_current ?a) (bo_max b)"
      using mult_le_mono1[of 1 "2 ^ length rs" "bo_max b"] by (cases "2 * bo_current ?a \<le> bo_max b") (auto intro: min.coboundedI2)
    finally show ?thesis unfolding adv(1) by simp
  qed
  ultimately have "min (2 ^ length (x # rs) * bo_current b) (bo_max b) \<le> bo_current (snd (client_loop (advance ?a) rs))"
    by linarith
  moreover have "snd (client_loop b (x # rs)) = snd (client_loop (advance ?a) rs)"
    by (simp add: x next_delay_def Let_def split: prod.split)
  ultimately show ?case by simp
qed simp

lemma worker_rounds_bounds:
  assumes "mn \<le> mx" "mn \<le> cur" "cur \<le> mx" "d \<in> set (worker_rounds mn mx cur rounds)"
  shows "mn \<le> d \<and> d \<le> mx"
  using assms
proof (induction mn mx cur rounds rule: worker_rounds.induct)
  case (2 mn mx cur r sd rounds)
  have "mn \<le> next_interval mn mx cur r" "next_interval mn mx cur r \<le> mx"
    using "2.prems"(1-3) by (auto simp: next_interval_def split: work_result.split)
  then show ?case using 2 by (auto simp: Let_def split: option.splits)
qed simp

lemma worker_rounds_idle:
  "n < length rs \<Longrightarrow> \<forall>r\<in>set rs. r \<noteq> DidWork \<Longrightarrow>
     worker_rounds mn mx cur (map (\<lambda>r. (r, None)) rs) ! n = ws_current ((worker_fail ^^ Suc n) \<lparr>ws_max = mx, ws_current = cur\<rparr>)"
proof (induction rs arbitrary: cur n)
  case (Cons r rs)
  have ni: "next_interval mn mx cur r = min (cur * 2) mx"
    using Cons.prems(2) by (cases r) (auto simp: next_interval_def)
  have wf: "worker_fail \<lparr>ws_max = mx, ws_current = cur\<rparr> = \<lparr>ws_max = mx, ws_current = min (cur * 2) mx\<rparr>"
    by (simp add: worker_fail_def next_interval_def)
  show ?case
    using Cons.IH[of "n - 1" "min (cur * 2) mx"] Cons.prems wf
    by (cases n) (simp_all add: ni funpow_swap1 Let_def)
qed simp

lemma description_le:
  fixes a m :: rat
  assumes "1 \<le> a" "0 < m"
  shows "clamp 1 4 (nat (max \<lceil>a * (1 / 4) * m\<rceil> 1)) \<le> clamp 1 10 (nat \<lceil>a * m\<rceil>)"
proof -
  have "a * (1 / 4) * m \<le> a * m" using assms by simp
  then have "\<lceil>a * (1 / 4) * m\<rceil> \<le> \<lceil>a * m\<rceil>" by (rule ceiling_mono)
  moreover have "1 \<le> \<lceil>a * m\<rceil>" using assms by simp
  ultimately have "nat (max \<lceil>a * (1 / 4) * m\<rceil> 1) \<le> nat \<lceil>a * m\<rceil>" by (intro nat_mono) simp
  then show ?thesis by (simp add: clamp_def) linarith
qed

lemma normal_limits:
  assumes "\<not> normalized_load load cpus > 12 / 10"
  shows "\<exists>(a :: rat) m. 1 \<le> a \<and> 0 < m \<and> calculate_worker_concurrency load gpu cpus =
      \<lparr>cl_verification = clamp 2 16 (nat \<lceil>a * (3 / 2)\<rceil>), cl_embedding = clamp 1 10 (nat \<lceil>a * m\<rceil>),
       cl_face_detection = clamp 1 8 (nat \<lceil>a * (3 / 4) * m\<rceil>),
       cl_description = clamp 1 4 (nat (max \<lceil>a * (1 / 4) * m\<rceil> 1)), cl_gpu_overloaded = (gpu > 90)\<rparr>"
  unfolding calculate_worker_concurrency_def Let_def if_not_P[OF assms]
  by (rule exI, rule exI, rule conjI[rotated], rule conjI[rotated], rule refl) auto

lemma batch_range:
  "calculate_parallel_batch_size c load cpus = 0 \<and> normalized_load load cpus > 3 / 2
    \<or> calculate_parallel_batch_size c load cpus \<in> {3..50} \<and> normalized_load load cpus \<le> 3 / 2"
  by (cases "normalized_load load cpus > 3 / 2") (auto simp: calculate_parallel_batch_size_def Let_def)

section \<open>Properties\<close>

text \<open>Retry delays are bounded and grow as documented: after any number of consecutive failures the
  base delay is the initial one doubled that often, capped at the maximum, and the delay slept
  stays within 20% of the base (up to rounding to whole seconds) and is never zero.\<close>

theorem backoff_delays:
  assumes "1 \<le> initial" "initial \<le> mx" "mx < 2 ^ 64" "- 1 / 5 \<le> jitter" "jitter < 1 / 5"
  shows "let b = (advance ^^ n) (backoff_new initial mx) in
       bo_current b = min (2 ^ n * initial) mx
     \<and> 1 \<le> fst (next_delay jitter b)
     \<and> 10 * fst (next_delay jitter b) \<le> 12 * bo_current b + 5
     \<and> 8 * bo_current b \<le> 10 * fst (next_delay jitter b) + 5"
proof -
  have s: "backoff_sane (backoff_new initial mx)" "bo_current (backoff_new initial mx) \<le> bo_max (backoff_new initial mx)"
    using assms(1-3) by (auto simp: backoff_sane_def backoff_new_def)
  note f = reconnect.fails_level[OF s, of n]
  have c: "bo_current ((advance ^^ n) (backoff_new initial mx)) = min (2 ^ n * initial) mx"
    using f assms(1,2) by (simp add: backoff_new_def)
  have "1 \<le> bo_current ((advance ^^ n) (backoff_new initial mx))" using f unfolding backoff_sane_def by (elim conjE)
  from next_delay_bounds[OF assms(4,5) this] c show ?thesis by (simp add: Let_def)
qed

theorem backoff_delays_witness:
  "let b = (advance ^^ 3) (backoff_new 5 60) in
     bo_current b = 40 \<and> 1 \<le> fst (next_delay (1 / 10) b) \<and> 10 * fst (next_delay (1 / 10) b) \<le> 485"
  using backoff_delays[of 5 60 "1 / 10" 3] by (simp add: Let_def)

text \<open>A completed session never resets the backoff: the session functions of the reverse channel and
  of the tunnel end with an error in every case, also after a successful registration that served
  for any length of time, so the reset of the reconnect loop is unreachable and the base delay
  after any history of sessions is at least the initial delay doubled once per session, up to the
  cap: after four sessions, however long each lived, the client waits about a minute.\<close>

theorem sessions_never_reset_backoff:
  assumes "\<forall>(r, j) \<in> set rs. (\<exists>conn. r = run_channel E sh nid i conn) \<or> (\<exists>conn. r = run_tunnel E sh nid i conn)"
  shows "min (2 ^ length rs * RECONNECT_DELAY_SECS) MAX_RECONNECT_DELAY_SECS
      \<le> bo_current (snd (client_loop (backoff_new RECONNECT_DELAY_SECS MAX_RECONNECT_DELAY_SECS) rs))"
proof -
  have "\<forall>(r, j) \<in> set rs. r \<noteq> Ok ()" using assms channel_never_ok tunnel_never_ok by fastforce
  from client_loop_grows[OF _ _ this, of "backoff_new RECONNECT_DELAY_SECS MAX_RECONNECT_DELAY_SECS"]
  show ?thesis by (simp add: backoff_new_def backoff_sane_def RECONNECT_DELAY_SECS_def MAX_RECONNECT_DELAY_SECS_def)
qed

text \<open>A coordinator that challenges, accepts, and later loses the connection.\<close>

definition kind_peer :: session_peer where
  "kind_peer = \<lparr>sp_open = Ok (), sp_tx = (\<lambda>m. Ok ()),
     sp_rx = (\<lambda>sent. if length sent = 1 then Ok (NodeChannelChallenge [1]) else Ok NodeChannelAccepted),
     sp_end = Connection ''lost''\<rparr>"

theorem sessions_never_reset_backoff_witness:
  "run_channel toy_ext (\<lambda>m. []) ''n'' (from_secret toy_ext ''s'') (DialOk kind_peer) = Err (Connection ''lost'')
   \<and> 60 \<le> bo_current (snd (client_loop (backoff_new RECONNECT_DELAY_SECS MAX_RECONNECT_DELAY_SECS)
         (replicate 4 (run_channel toy_ext (\<lambda>m. []) ''n'' (from_secret toy_ext ''s'') (DialOk kind_peer), 0))))"
proof
  show "run_channel toy_ext (\<lambda>m. []) ''n'' (from_secret toy_ext ''s'') (DialOk kind_peer) = Err (Connection ''lost'')"
    by (simp add: run_channel_def dialed_def kind_peer_def)
  show "60 \<le> bo_current (snd (client_loop (backoff_new RECONNECT_DELAY_SECS MAX_RECONNECT_DELAY_SECS)
      (replicate 4 (run_channel toy_ext (\<lambda>m. []) ''n'' (from_secret toy_ext ''s'') (DialOk kind_peer), 0))))"
    using sessions_never_reset_backoff[where rs = "replicate 4 (run_channel toy_ext (\<lambda>m. []) ''n'' (from_secret toy_ext ''s'') (DialOk kind_peer), 0)"
        and E = toy_ext and sh = "\<lambda>m. []" and nid = "''n''" and i = "from_secret toy_ext ''s''"]
    by (auto simp: RECONNECT_DELAY_SECS_def MAX_RECONNECT_DELAY_SECS_def)
qed

text \<open>A background worker keeps its pace within bounds: every sleep of the loop lies between the
  minimum and the maximum interval, a run of idle, failed or panicking rounds doubles it up to the
  maximum, doing work returns it to the minimum, and once shutdown fires, in whatever phase of a
  round, there is no further sleep.\<close>

theorem worker_loop_pace:
  assumes "mn \<le> mx"
  shows "(\<forall>d\<in>set (run_worker_loop mn mx rounds). mn \<le> d \<and> d \<le> mx)
     \<and> (\<forall>rs n. n < length rs \<and> (\<forall>r\<in>set rs. r \<noteq> DidWork) \<longrightarrow>
          run_worker_loop mn mx (map (\<lambda>r. (r, None)) rs) ! n = min (2 ^ Suc n * mn) mx)
     \<and> next_interval mn mx cur DidWork = mn
     \<and> run_worker_loop mn mx (pre @ (r, Some phase) # post) = run_worker_loop mn mx pre"
proof (intro conjI allI impI ballI)
  fix d assume "d \<in> set (run_worker_loop mn mx rounds)"
  from worker_rounds_bounds[OF assms _ _ this[unfolded run_worker_loop_def]] assms
  show "mn \<le> d" "d \<le> mx" by auto
next
  fix rs n assume h: "n < length rs \<and> (\<forall>r\<in>set rs. r \<noteq> DidWork)"
  then show "run_worker_loop mn mx (map (\<lambda>r. (r, None)) rs) ! n = min (2 ^ Suc n * mn) mx"
    using worker_rounds_idle[of n rs mn mx mn] worker.fails_level[of "\<lparr>ws_max = mx, ws_current = mn\<rparr>" "Suc n"] assms
    by (simp add: run_worker_loop_def del: funpow.simps)
next
  show "next_interval mn mx cur DidWork = mn" by (simp add: next_interval_def)
  have "worker_rounds mn mx c (pre @ (r, Some phase) # post) = worker_rounds mn mx c pre" for c
    by (induction mn mx c pre rule: worker_rounds.induct) (auto simp: Let_def split: option.split)
  then show "run_worker_loop mn mx (pre @ (r, Some phase) # post) = run_worker_loop mn mx pre"
    by (simp add: run_worker_loop_def)
qed

theorem worker_loop_pace_witness:
  "run_worker_loop 10 50 (map (\<lambda>r. (r, None)) [Idle, Panicked, WorkFailed]) ! 2 = 50"
  using worker_loop_pace[of 10 50 "[]" 0 "[]" Idle AtStart "[]"]
  by (auto dest!: spec[of _ "[Idle, Panicked, WorkFailed]"] spec[of _ 2])

text \<open>Worker concurrency is safe at every load: either all limits are zero, exactly when the normalized
  load exceeds 120%, or they lie in their documented ranges; and a batch is empty above 150% load
  and otherwise between 3 and 50.\<close>

theorem worker_limits:
  "let l = calculate_worker_concurrency load gpu cpus in
     (if normalized_load load cpus > 12 / 10
      then is_overloaded l \<and> cl_embedding l = 0 \<and> cl_face_detection l = 0 \<and> cl_description l = 0
      else \<not> is_overloaded l \<and> cl_verification l \<in> {2..16} \<and> cl_embedding l \<in> {1..10}
         \<and> cl_face_detection l \<in> {1..8} \<and> cl_description l \<in> {1..4}
         \<and> cl_description l \<le> cl_embedding l)
     \<and> (cl_gpu_overloaded l \<longleftrightarrow> gpu > 90)
     \<and> (calculate_parallel_batch_size c load cpus = 0 \<and> normalized_load load cpus > 3 / 2
        \<or> calculate_parallel_batch_size c load cpus \<in> {3..50} \<and> normalized_load load cpus \<le> 3 / 2)"
proof (cases "normalized_load load cpus > 12 / 10")
  case True
  then show ?thesis
    using batch_range[of c load cpus]
    by (simp add: calculate_worker_concurrency_def Let_def is_overloaded_def)
next
  case False
  obtain a m :: rat where l: "calculate_worker_concurrency load gpu cpus =
      \<lparr>cl_verification = clamp 2 16 (nat \<lceil>a * (3 / 2)\<rceil>), cl_embedding = clamp 1 10 (nat \<lceil>a * m\<rceil>),
       cl_face_detection = clamp 1 8 (nat \<lceil>a * (3 / 4) * m\<rceil>),
       cl_description = clamp 1 4 (nat (max \<lceil>a * (1 / 4) * m\<rceil> 1)), cl_gpu_overloaded = (gpu > 90)\<rparr>" "1 \<le> a" "0 < m"
    using normal_limits[OF False, of gpu] by blast
  have "cl_verification (calculate_worker_concurrency load gpu cpus) \<in> {2..16}" unfolding l by (simp add: clamp_def)
  then show ?thesis
    using batch_range[of c load cpus] description_le[OF l(2,3)] False
    by (simp add: l is_overloaded_def) (simp add: clamp_def)
qed

end
