(* ===== verification/Coordinator.thy ===== *)
theory Coordinator
  imports Retry
begin

text \<open>
  The coordinator (\<open>coordinator/src\<close>): the peer table and its file (\<open>peers.rs\<close>), the per-address
  request limit, registration and relaying (\<open>handler.rs\<close>), the authenticated tunnel and channel
  registrations and the clean-up task (\<open>main.rs\<close>), and the routing and copying of the reverse
  tunnel (\<open>tunnel.rs\<close>).  Instants are milliseconds on a clock that may reach back before its origin,
  wall-clock times are seconds; hash maps are association lists.  A connection is its stable id.
\<close>

section \<open>The peer table and its file\<close>

record peer_entry =
  pe_node_id :: string
  pe_ip :: ip
  pe_quic_port :: nat
  pe_last_seen :: int

type_synonym peer_map = "((string \<times> string) \<times> peer_entry) list"

record persisted_peer =
  pp_namespace :: string
  pp_node_id :: string
  pp_ip :: string
  pp_quic_port :: nat
  pp_last_seen_secs :: nat

text \<open>Rendering and parsing of IP addresses, the JSON codec, and the earliest instant the platform
  represents.\<close>

record platform =
  show_ip :: "ip \<Rightarrow> string"
  parse_ip :: "string \<Rightarrow> ip option"
  to_json :: "persisted_peer list \<Rightarrow> bytes"
  from_json :: "bytes \<Rightarrow> persisted_peer list option"
  instant_min :: int

definition platform_ok :: "platform \<Rightarrow> bool" where
  "platform_ok P \<longleftrightarrow> (\<forall>a. parse_ip P (show_ip P a) = Some a) \<and> (\<forall>l. from_json P (to_json P l) = Some l)"

definition age_ms :: "int \<Rightarrow> int \<Rightarrow> nat" where
  "age_ms now seen = nat (now - seen)"

definition age_secs :: "int \<Rightarrow> int \<Rightarrow> nat" where
  "age_secs now seen = age_ms now seen div 1000"

definition checked_sub :: "platform \<Rightarrow> int \<Rightarrow> nat \<Rightarrow> int option" where
  "checked_sub P t secs = (if t - 1000 * int secs < instant_min P then None else Some (t - 1000 * int secs))"

definition load_peer :: "platform \<Rightarrow> int \<Rightarrow> nat \<Rightarrow> persisted_peer \<Rightarrow> peer_map \<Rightarrow> peer_map" where
  "load_peer P now current_secs p m =
     (case parse_ip P (pp_ip p) of
        None \<Rightarrow> m
      | Some addr \<Rightarrow>
          let elapsed = current_secs - pp_last_seen_secs p;
              last_seen = (case checked_sub P now elapsed of Some t \<Rightarrow> t | None \<Rightarrow> now)
          in AList.update (pp_namespace p, pp_node_id p)
               \<lparr>pe_node_id = pp_node_id p, pe_ip = addr, pe_quic_port = pp_quic_port p, pe_last_seen = last_seen\<rparr> m)"

text \<open>\<open>load_persisted_peers\<close>: no file, an unreadable one and one that does not parse all give the empty table.\<close>

definition load_persisted_peers :: "platform \<Rightarrow> int \<Rightarrow> nat \<Rightarrow> bool \<Rightarrow> (string \<rightharpoonup> bytes) \<Rightarrow> peer_map" where
  "load_persisted_peers P now current_secs open_ok dir =
     (case dir ''peers.json'' of
        None \<Rightarrow> []
      | Some bs \<Rightarrow>
          if \<not> open_ok then []
          else (case from_json P bs of None \<Rightarrow> [] | Some l \<Rightarrow> fold (load_peer P now current_secs) l []))"

definition persisted_of :: "platform \<Rightarrow> int \<Rightarrow> nat \<Rightarrow> (string \<times> string) \<times> peer_entry \<Rightarrow> persisted_peer" where
  "persisted_of P now current_secs e =
     (case e of ((ns, _), p) \<Rightarrow>
        \<lparr>pp_namespace = ns, pp_node_id = pe_node_id p, pp_ip = show_ip P (pe_ip p), pp_quic_port = pe_quic_port p,
         pp_last_seen_secs = current_secs - age_secs now (pe_last_seen p)\<rparr>)"

text \<open>The part of \<open>save_persisted_peers\<close> that runs in the caller: the snapshot.\<close>

definition snapshot :: "platform \<Rightarrow> int \<Rightarrow> nat \<Rightarrow> peer_map \<Rightarrow> persisted_peer list" where
  "snapshot P now current_secs m = map (persisted_of P now current_secs) m"

text \<open>The part that runs later on a blocking thread, under the lock, as the sequence of directory states it
  goes through; \<open>sv_write\<close> is what of the document reaches the file when writing fails.\<close>

record save_io =
  sv_create :: bool
  sv_write :: "bytes option"
  sv_rename :: bool
  sv_remove :: bool

definition temp_name :: "nat \<Rightarrow> string" where
  "temp_name rnd = ''peers.'' @ show_nat rnd @ ''.tmp''"

definition save_states :: "platform \<Rightarrow> save_io \<Rightarrow> nat \<Rightarrow> persisted_peer list \<Rightarrow> (string \<rightharpoonup> bytes) \<Rightarrow> (string \<rightharpoonup> bytes) list" where
  "save_states P io rnd l dir =
     (let temp = temp_name rnd in
      if \<not> sv_create io then [dir]
      else let d1 = dir(temp \<mapsto> []) in
      case sv_write io of
        Some partial \<Rightarrow> [dir, d1, d1(temp \<mapsto> partial)]
      | None \<Rightarrow>
          let d2 = d1(temp \<mapsto> to_json P l) in
          if sv_rename io then [dir, d1, d2, (d2(temp := None))(''peers.json'' \<mapsto> to_json P l)]
          else if sv_remove io then [dir, d1, d2, d2(temp := None)]
          else [dir, d1, d2])"

definition save_persisted_peers :: "platform \<Rightarrow> save_io \<Rightarrow> nat \<Rightarrow> persisted_peer list \<Rightarrow> (string \<rightharpoonup> bytes) \<Rightarrow> (string \<rightharpoonup> bytes)" where
  "save_persisted_peers P io rnd l dir = last (save_states P io rnd l dir)"

definition current_peer_list :: "platform \<Rightarrow> int \<Rightarrow> peer_map \<Rightarrow> string \<Rightarrow> nat \<Rightarrow> (string \<times> string) list" where
  "current_peer_list P now m namespace ttl =
     map (\<lambda>(_, p). (pe_node_id p, show_ip P (pe_ip p) @ '':'' @ show_nat (pe_quic_port p)))
       (filter (\<lambda>((ns, _), p). ns = namespace \<and> age_secs now (pe_last_seen p) < ttl) m)"

definition cleanup_peers :: "int \<Rightarrow> nat \<Rightarrow> peer_map \<Rightarrow> peer_map \<times> nat" where
  "cleanup_peers now ttl m =
     (let m' = filter (\<lambda>(_, p). age_secs now (pe_last_seen p) < ttl) m in (m', length m - length m'))"

section \<open>The request limit\<close>

type_synonym rate_table = "(ip \<times> (nat \<times> int)) list"

definition WINDOW :: nat where "WINDOW = 1000"
definition MAX_PER_WINDOW :: nat where "MAX_PER_WINDOW = 20"

definition prune :: "int \<Rightarrow> rate_table \<Rightarrow> rate_table" where
  "prune now m = (if length m > 100000 then filter (\<lambda>(_, (_, last)). age_ms now last < 60000) m else m)"

text \<open>\<open>RateLimiter::allow\<close>; the counter is a \<open>u32\<close>.\<close>

definition allow :: "int \<Rightarrow> rate_table \<Rightarrow> ip \<Rightarrow> bool \<times> rate_table" where
  "allow now tab addr =
     (let m = prune now tab;
          e0 = (case map_of m addr of Some e \<Rightarrow> e | None \<Rightarrow> (0, now));
          e1 = (if age_ms now (snd e0) \<ge> WINDOW then (0, now) else e0);
          n = (fst e1 + 1) mod 2 ^ 32
      in (n \<le> MAX_PER_WINDOW, AList.update addr (n, snd e1) m))"

section \<open>Tunnel and channel registrations\<close>

type_synonym conn = nat
type_synonym conn_map = "(string \<times> conn) list"

definition remove_same :: "string \<Rightarrow> conn \<Rightarrow> conn_map \<Rightarrow> conn_map" where
  "remove_same nid c m =
     (if (case map_of m nid of Some d \<Rightarrow> d = c | None \<Rightarrow> False) then AList.delete nid m else m)"

text \<open>What follows the first message of a tunnel connection: the replies sent, and the map.  \<open>challenge_sent\<close>
  is whether the challenge could be sent, \<open>rx\<close> what was received after it.\<close>

definition accept_tunnel :: "ext \<Rightarrow> string option \<Rightarrow> bool \<Rightarrow> string \<Rightarrow> bytes \<Rightarrow> bool \<Rightarrow> msg result \<Rightarrow> conn \<Rightarrow> conn_map \<Rightarrow> msg list \<times> conn_map" where
  "accept_tunnel E allowed allow_any nid nonce challenge_sent rx c tunnels =
     (if (case allowed of Some a \<Rightarrow> nid \<noteq> a | None \<Rightarrow> False)
      then ([MsgError 403 ''Node ID not allowed''], tunnels)
      else if allowed = None \<and> \<not> allow_any
      then ([MsgError 403 (''Tunnel registration disabled '' @ em_dash @ '' set --allowed-tunnel-node-id'')], tunnels)
      else if \<not> challenge_sent then ([TunnelChallenge nonce], tunnels)
      else case rx of
        Inr (TunnelChallengeResponse sig) \<Rightarrow>
          (case hex_decode E nid of
             None \<Rightarrow> ([TunnelChallenge nonce], tunnels)
           | Some node_id_bytes \<Rightarrow>
               if \<not> verify_signature E node_id_bytes nonce sig
               then ([TunnelChallenge nonce, MsgError 401 ''Signature verification failed''], tunnels)
               else ([TunnelChallenge nonce, TunnelAccepted], AList.update nid c tunnels))
      | _ \<Rightarrow> ([TunnelChallenge nonce], tunnels))"

definition accept_channel :: "ext \<Rightarrow> string \<Rightarrow> bytes \<Rightarrow> bool \<Rightarrow> msg result \<Rightarrow> conn \<Rightarrow> conn_map \<Rightarrow> msg list \<times> conn_map" where
  "accept_channel E nid nonce challenge_sent rx c channels =
     (if \<not> challenge_sent then ([NodeChannelChallenge nonce], channels)
      else case rx of
        Inr (NodeChannelChallengeResponse sig) \<Rightarrow>
          (case hex_decode E nid of
             None \<Rightarrow> ([NodeChannelChallenge nonce], channels)
           | Some node_id_bytes \<Rightarrow>
               if \<not> verify_signature E node_id_bytes nonce sig
               then ([NodeChannelChallenge nonce, MsgError 401 ''Signature verification failed''], channels)
               else ([NodeChannelChallenge nonce, NodeChannelAccepted], AList.update nid c channels))
      | _ \<Rightarrow> ([NodeChannelChallenge nonce], channels))"

text \<open>The connection an incoming client is piped to.\<close>

definition route_tunnel :: "string option \<Rightarrow> conn_map \<Rightarrow> conn option" where
  "route_tunnel allowed tunnels =
     (case allowed of Some nid \<Rightarrow> map_of tunnels nid | None \<Rightarrow> (case tunnels of [] \<Rightarrow> None | (_, c) # _ \<Rightarrow> Some c))"

text \<open>\<open>copy_with_idle\<close>: each event is how long it took and what the read gave; a write may fail.\<close>

datatype read_event = Chunk bytes | ReadFailed string

definition TUNNEL_IDLE_TIMEOUT :: nat where "TUNNEL_IDLE_TIMEOUT = 1800000"

fun copy_with_idle :: "nat \<Rightarrow> (nat \<times> read_event \<times> (string + unit)) list \<Rightarrow> nat \<Rightarrow> bytes \<Rightarrow> bytes \<times> (string + nat) option" where
  "copy_with_idle idle [] copied out = (out, None)"
| "copy_with_idle idle ((delay, ev, wr) # evs) copied out =
     (if delay \<ge> idle then (out, Some (Err ''tunnel idle timeout''))
      else case ev of
        ReadFailed e \<Rightarrow> (out, Some (Err e))
      | Chunk bs \<Rightarrow>
          let buf = take 65536 bs in
          if buf = [] then (out, Some (Ok copied))
          else (case wr of
                  Inl e \<Rightarrow> (out, Some (Err e))
                | Inr _ \<Rightarrow> copy_with_idle idle evs (copied + length buf) (out @ buf)))"

section \<open>Relaying\<close>

definition MAX_RELAY_PAYLOAD :: nat where "MAX_RELAY_PAYLOAD = 128 * 1024 * 1024"

text \<open>A stream to the target: opening it, the two writes, and what comes back for what was written, a
  sequence of bytes that then either ends or stalls past the deadline.\<close>

datatype reply = Finished bytes | Stalled bytes

record link =
  lk_open :: "string + unit"
  lk_write :: "bytes \<Rightarrow> string + unit"
  lk_reply :: "bytes \<Rightarrow> reply"

text \<open>\<open>read_exact\<close> into a zeroed buffer: what it leaves in the buffer when the stream ends early.\<close>

datatype read_out = ReadTimeout | ReadErr nat bytes | ReadOk bytes reply

definition early_msg :: "nat \<Rightarrow> string" where
  "early_msg n = ''stream finished early ('' @ show_nat n @ '' bytes read)''"

fun read_into :: "nat \<Rightarrow> reply \<Rightarrow> read_out" where
  "read_into n (Finished s) =
     (if n \<le> length s then ReadOk (take n s) (Finished (drop n s)) else ReadErr (length s) (s @ replicate (n - length s) 0))"
| "read_into n (Stalled s) =
     (if n \<le> length s then ReadOk (take n s) (Stalled (drop n s)) else ReadTimeout)"

text \<open>The answer over a reverse channel: only the deadline is checked, not the result of the read.\<close>

definition relay_via_channel :: "link \<Rightarrow> bytes \<Rightarrow> msg list" where
  "relay_via_channel l payload =
     (case lk_open l of
        Inl e \<Rightarrow> [MsgError 503 e]
      | Inr _ \<Rightarrow>
          let len = u32_be (length payload) in
          if \<not> is_ok (lk_write l len) \<or> \<not> is_ok (lk_write l payload) then []
          else
            let body = (\<lambda>len_buf rest.
                  let resp_len = u32_of_be len_buf in
                  if resp_len > MAX_RELAY_PAYLOAD then []
                  else (case read_into resp_len rest of
                          ReadTimeout \<Rightarrow> []
                        | ReadErr _ resp_payload \<Rightarrow> [RelayResponse resp_payload]
                        | ReadOk resp_payload _ \<Rightarrow> [RelayResponse resp_payload])) in
            (case read_into 4 (lk_reply l (len @ payload)) of
               ReadTimeout \<Rightarrow> []
             | ReadErr _ len_buf \<Rightarrow> body len_buf (Finished [])
             | ReadOk len_buf rest \<Rightarrow> body len_buf rest))"

text \<open>The exchange over a direct connection; \<open>None\<close> is the deadline.\<close>

definition direct_exchange :: "link \<Rightarrow> bytes \<Rightarrow> (string + bytes) option" where
  "direct_exchange l payload =
     (let len = u32_be (length payload) in
      case bind_res (lk_open l) (\<lambda>_. bind_res (lk_write l len) (\<lambda>_. lk_write l payload)) of
        Inl e \<Rightarrow> Some (Err e)
      | Inr _ \<Rightarrow>
          (case read_into 4 (lk_reply l (len @ payload)) of
             ReadTimeout \<Rightarrow> None
           | ReadErr n _ \<Rightarrow> Some (Err (early_msg n))
           | ReadOk len_buf rest \<Rightarrow>
               let resp_len = u32_of_be len_buf in
               if resp_len > MAX_RELAY_PAYLOAD then Some (Err ''target response exceeds relay limit'')
               else (case read_into resp_len rest of
                       ReadTimeout \<Rightarrow> None
                     | ReadErr n _ \<Rightarrow> Some (Err (early_msg n))
                     | ReadOk resp_payload _ \<Rightarrow> Some (Ok resp_payload))))"

record relay_env =
  rv_link :: "conn \<Rightarrow> link"
  rv_dial :: "sock_addr \<Rightarrow> string \<Rightarrow> link dial"
  rv_show_err :: "np2p_error \<Rightarrow> string"

definition find_target :: "int \<Rightarrow> nat \<Rightarrow> peer_map \<Rightarrow> string \<Rightarrow> sock_addr option" where
  "find_target now ttl peers target =
     map_option (\<lambda>(_, p). \<lparr>sa_ip = pe_ip p, sa_port = pe_quic_port p\<rparr>)
       (List.find (\<lambda>(_, p). pe_node_id p = target \<and> age_secs now (pe_last_seen p) < ttl) peers)"

definition relay :: "relay_env \<Rightarrow> int \<Rightarrow> nat \<Rightarrow> peer_map \<Rightarrow> conn_map \<Rightarrow> string \<Rightarrow> bytes \<Rightarrow> msg list" where
  "relay V now ttl peers channels target payload =
     (if length payload > MAX_RELAY_PAYLOAD then []
      else case map_of channels target of
        Some c \<Rightarrow> relay_via_channel (rv_link V c) payload
      | None \<Rightarrow>
          (case find_target now ttl peers target of
             None \<Rightarrow> [MsgError 404 (''Target peer not found: '' @ target)]
           | Some addr \<Rightarrow>
               (case rv_dial V addr target of
                  DialErr e \<Rightarrow> [MsgError 503 (rv_show_err V e)]
                | DialTimeout \<Rightarrow> [MsgError 504 ''Timed out'']
                | DialOk l \<Rightarrow>
                    (case direct_exchange l payload of
                       Some (Inr resp_payload) \<Rightarrow> [RelayResponse resp_payload]
                     | Some (Inl e) \<Rightarrow> []
                     | None \<Rightarrow> [MsgError 504 (''Relay to '' @ target @ '' timed out'')]))))"

section \<open>Streams\<close>

text \<open>\<open>&node_id[..node_id.len().min(8)]\<close> panics off a character boundary; strings are UTF-8.\<close>

definition char_boundary :: "string \<Rightarrow> nat \<Rightarrow> bool" where
  "char_boundary s i = (i = 0 \<or> i = length s \<or>
     (i < length s \<and> (let b = (of_char (s ! i) :: nat) in b < 128 \<or> 192 \<le> b)))"

definition verify_registration :: "ext \<Rightarrow> bytes option \<Rightarrow> string \<Rightarrow> bool outcome" where
  "verify_registration E cert nid =
     (case cert of
        None \<Rightarrow> Done False
      | Some c \<Rightarrow>
          bind_out (extract_public_key c) (\<lambda>k.
            case k of
              None \<Rightarrow> Done False
            | Some pubkey \<Rightarrow>
                if hex_encode E pubkey = nid then Done True
                else if \<not> char_boundary nid (min (length nid) 8) then Panic
                else Done False))"

record coord_cfg =
  cc_ttl :: nat
  cc_allowed_nodes :: "string list option"
  cc_allowed_tunnel :: "string option"
  cc_allow_any :: bool

record coord =
  co_peers :: peer_map
  co_limiter :: rate_table
  co_tunnels :: conn_map
  co_channels :: conn_map
  co_pending :: "persisted_peer list list"
  co_dir :: "string \<rightharpoonup> bytes"

text \<open>\<open>handle_stream\<close>: the replies and the new state; saving the table is scheduled, not done.\<close>

definition register_node :: "ext \<Rightarrow> platform \<Rightarrow> coord_cfg \<Rightarrow> int \<Rightarrow> nat \<Rightarrow> ip \<Rightarrow> bytes option \<Rightarrow> coord \<Rightarrow> string \<Rightarrow> nat \<Rightarrow> string
    \<Rightarrow> (msg list \<times> coord) outcome" where
  "register_node E P cfg now current_secs remote_ip cert s nid quic_port namespace =
     bind_out (verify_registration E cert nid) (\<lambda>verified. Done (
       if \<not> verified then ([MsgError 401 ''Identity verification failed''], s)
       else if (case cc_allowed_nodes cfg of Some l \<Rightarrow> \<not> list_ex (\<lambda>i. i = nid) l | None \<Rightarrow> False)
       then ([MsgError 403 ''Node not allowed''], s)
       else
         let peers = AList.update (namespace, nid)
               \<lparr>pe_node_id = nid, pe_ip = remote_ip, pe_quic_port = quic_port, pe_last_seen = now\<rparr> (co_peers s)
         in ([PeerList (current_peer_list P now peers namespace (cc_ttl cfg))],
             s\<lparr>co_peers := peers, co_pending := co_pending s @ [snapshot P now current_secs peers]\<rparr>)))"

definition coord_stream :: "ext \<Rightarrow> platform \<Rightarrow> relay_env \<Rightarrow> coord_cfg \<Rightarrow> int \<Rightarrow> nat \<Rightarrow> ip \<Rightarrow> bytes option \<Rightarrow> coord \<Rightarrow> msg
    \<Rightarrow> (msg list \<times> coord) outcome" where
  "coord_stream E P V cfg now current_secs remote_ip cert s0 m =
     (case allow now (co_limiter s0) remote_ip of (ok, limiter) \<Rightarrow>
        let s = s0\<lparr>co_limiter := limiter\<rparr> in
        if \<not> ok then Done ([MsgError 429 ''Rate limit exceeded''], s)
        else case m of
          RegisterNode nid quic_port namespace \<Rightarrow>
            register_node E P cfg now current_secs remote_ip cert s nid quic_port namespace
        | GetPeers namespace \<Rightarrow> Done ([PeerList (current_peer_list P now (co_peers s) namespace (cc_ttl cfg))], s)
        | RelayRequest target payload \<Rightarrow>
            if length payload > MAX_RELAY_PAYLOAD then Done ([MsgError 400 ''Relay payload too large''], s)
            else Done (relay V now (cc_ttl cfg) (co_peers s) (co_channels s) target payload, s)
        | _ \<Rightarrow> Done ([MsgError 400 ''Unexpected message''], s))"

section \<open>The coordinator as a state machine\<close>

text \<open>Tasks interleave between lock regions.  The ghost fields record the accepted registrations, newest
  first, with the nonce and the signature that were checked, the closed connections, and the
  registrations of peers with the certificate and address of their connection.\<close>

record cworld =
  cw_coord :: coord
  cw_tlog :: "(string \<times> conn \<times> bytes \<times> bytes) list"
  cw_clog :: "(string \<times> conn \<times> bytes \<times> bytes) list"
  cw_closed :: "conn set"
  cw_regs :: "(string \<times> string \<times> ip \<times> bytes) set"
  cw_snaps :: "bytes set"

definition used_conns :: "cworld \<Rightarrow> conn set" where
  "used_conns w = cw_closed w \<union> (fst \<circ> snd) ` set (cw_tlog w) \<union> (fst \<circ> snd) ` set (cw_clog w)"

definition conn_log :: "(string \<times> conn \<times> bytes \<times> bytes) list \<Rightarrow> conn_map" where
  "conn_log l = map (\<lambda>(n, c, _). (n, c)) l"

inductive coord_step :: "ext \<Rightarrow> platform \<Rightarrow> coord_cfg \<Rightarrow> cworld \<Rightarrow> cworld \<Rightarrow> bool" for E P cfg where
  cs_register: "coord_stream E P V cfg now secs rip cert (cw_coord w) (RegisterNode nid port ns) = Done (out, s') \<Longrightarrow>
     coord_step E P cfg w (w\<lparr>cw_coord := s',
       cw_regs := (if co_pending s' = co_pending (cw_coord w) then cw_regs w else insert (ns, nid, rip, the cert) (cw_regs w)),
       cw_snaps := to_json P ` set (co_pending s') \<union> cw_snaps w\<rparr>)"
| cs_stream: "coord_stream E P V cfg now secs rip cert (cw_coord w) m = Done (out, s') \<Longrightarrow> (\<forall>a b c. m \<noteq> RegisterNode a b c) \<Longrightarrow>
     coord_step E P cfg w (w\<lparr>cw_coord := s'\<rparr>)"
| cs_panic: "coord_stream E P V cfg now secs rip cert (cw_coord w) m = Panic \<Longrightarrow> coord_step E P cfg w
     (w\<lparr>cw_coord := (cw_coord w)\<lparr>co_limiter := snd (allow now (co_limiter (cw_coord w)) rip)\<rparr>\<rparr>)"
| cs_tunnel: "c \<notin> used_conns w \<Longrightarrow>
     accept_tunnel E (cc_allowed_tunnel cfg) (cc_allow_any cfg) nid nonce sent rx c (co_tunnels (cw_coord w)) = (out, t') \<Longrightarrow>
     (if TunnelAccepted \<in> set out then \<exists>sig. rx = Ok (TunnelChallengeResponse sig) \<and> log' = (nid, c, nonce, sig) # cw_tlog w
      else log' = cw_tlog w) \<Longrightarrow>
     coord_step E P cfg w (w\<lparr>cw_coord := (cw_coord w)\<lparr>co_tunnels := t'\<rparr>, cw_tlog := log'\<rparr>)"
| cs_channel: "c \<notin> used_conns w \<Longrightarrow>
     accept_channel E nid nonce sent rx c (co_channels (cw_coord w)) = (out, t') \<Longrightarrow>
     (if NodeChannelAccepted \<in> set out then \<exists>sig. rx = Ok (NodeChannelChallengeResponse sig) \<and> log' = (nid, c, nonce, sig) # cw_clog w
      else log' = cw_clog w) \<Longrightarrow>
     coord_step E P cfg w (w\<lparr>cw_coord := (cw_coord w)\<lparr>co_channels := t'\<rparr>, cw_clog := log'\<rparr>)"
| cs_tunnel_closed: "(nid, c, rest) \<in> set (cw_tlog w) \<Longrightarrow>
     coord_step E P cfg w (w\<lparr>cw_coord := (cw_coord w)\<lparr>co_tunnels := remove_same nid c (co_tunnels (cw_coord w))\<rparr>,
       cw_closed := insert c (cw_closed w)\<rparr>)"
| cs_channel_closed: "(nid, c, rest) \<in> set (cw_clog w) \<Longrightarrow>
     coord_step E P cfg w (w\<lparr>cw_coord := (cw_coord w)\<lparr>co_channels := remove_same nid c (co_channels (cw_coord w))\<rparr>,
       cw_closed := insert c (cw_closed w)\<rparr>)"
| cs_cleanup: "cleanup_peers now (cc_ttl cfg) (co_peers (cw_coord w)) = (peers', removed) \<Longrightarrow>
     pending' = (if removed > 0 then co_pending (cw_coord w) @ [snapshot P now secs peers'] else co_pending (cw_coord w)) \<Longrightarrow>
     coord_step E P cfg w (w\<lparr>cw_coord := (cw_coord w)\<lparr>co_peers := peers', co_pending := pending'\<rparr>,
       cw_snaps := to_json P ` set pending' \<union> cw_snaps w\<rparr>)"
| cs_save: "l \<in> set (co_pending (cw_coord w)) \<Longrightarrow> dir' \<in> set (save_states P io rnd l (co_dir (cw_coord w))) \<Longrightarrow>
     coord_step E P cfg w (w\<lparr>cw_coord := (cw_coord w)\<lparr>co_dir := dir'\<rparr>\<rparr>)"

text \<open>A start: the table comes from the file.\<close>

definition coord_start :: "platform \<Rightarrow> int \<Rightarrow> nat \<Rightarrow> bool \<Rightarrow> (string \<rightharpoonup> bytes) \<Rightarrow> coord" where
  "coord_start P now secs open_ok dir =
     \<lparr>co_peers = load_persisted_peers P now secs open_ok dir, co_limiter = [], co_tunnels = [], co_channels = [],
      co_pending = [], co_dir = dir\<rparr>"

definition world_start :: "platform \<Rightarrow> int \<Rightarrow> nat \<Rightarrow> bool \<Rightarrow> (string \<rightharpoonup> bytes) \<Rightarrow> cworld" where
  "world_start P now secs open_ok dir =
     \<lparr>cw_coord = coord_start P now secs open_ok dir, cw_tlog = [], cw_clog = [], cw_closed = {}, cw_regs = {}, cw_snaps = {}\<rparr>"

inductive coord_reach :: "ext \<Rightarrow> platform \<Rightarrow> coord_cfg \<Rightarrow> cworld \<Rightarrow> cworld \<Rightarrow> bool" for E P cfg w0 where
  cr_start: "coord_reach E P cfg w0 w0"
| cr_step: "coord_reach E P cfg w0 w \<Longrightarrow> coord_step E P cfg w w' \<Longrightarrow> coord_reach E P cfg w0 w'"

section \<open>Interface: a map of keyed connections\<close>

text \<open>What routing relies on: the latest accepted registration of an id is the one that is found, until
  that very connection closes; an older connection closing changes nothing.\<close>

locale conn_registry =
  fixes look :: "'m \<Rightarrow> string \<Rightarrow> conn option"
    and put :: "string \<Rightarrow> conn \<Rightarrow> 'm \<Rightarrow> 'm"
    and drop_conn :: "string \<Rightarrow> conn \<Rightarrow> 'm \<Rightarrow> 'm"
  assumes look_put: "look (put n c m) = (look m)(n \<mapsto> c)"
    and look_drop: "look (drop_conn n c m) = (if look m n = Some c then (look m)(n := None) else look m)"
begin

definition current :: "'m \<Rightarrow> conn_map \<Rightarrow> conn set \<Rightarrow> bool" where
  "current m regs gone \<longleftrightarrow>
     (\<forall>n. look m n = (case map_of regs n of Some c \<Rightarrow> if c \<in> gone then None else Some c | None \<Rightarrow> None))"

lemma current_put: "current m regs gone \<Longrightarrow> c \<notin> gone \<Longrightarrow> current (put n c m) ((n, c) # regs) gone"
  by (auto simp: current_def look_put)

lemma current_drop:
  assumes "current m regs gone" "\<forall>j. map_of regs j = Some c \<longrightarrow> j = n"
  shows "current (drop_conn n c m) regs (insert c gone)"
  unfolding current_def
proof
  fix j
  note cur = assms(1)[unfolded current_def, rule_format]
  show "look (drop_conn n c m) j =
      (case map_of regs j of Some d \<Rightarrow> if d \<in> insert c gone then None else Some d | None \<Rightarrow> None)"
  proof (cases "j = n")
    case True
    then show ?thesis using cur[of n] by (simp add: look_drop split: option.split)
  next
    case False
    then have "map_of regs j \<noteq> Some c" using assms(2) by blast
    moreover have "look (drop_conn n c m) j = look m j" using False by (simp add: look_drop)
    ultimately show ?thesis using cur[of j] by (simp split: option.split)
  qed
qed

lemma current_unrelated:
  assumes "current m regs gone" "c \<notin> snd ` set regs"
  shows "current m regs (insert c gone)"
  unfolding current_def
proof
  fix j
  have "map_of regs j \<noteq> Some c" using assms(2) by (force dest: map_of_SomeD)
  then show "look m j = (case map_of regs j of Some d \<Rightarrow> if d \<in> insert c gone then None else Some d | None \<Rightarrow> None)"
    using assms(1)[unfolded current_def, rule_format, of j] by (auto split: option.splits)
qed

lemma stale_drop_keeps:
  assumes "current m regs gone" "map_of regs n = Some d" "d \<noteq> c"
  shows "look (drop_conn n c m) = look m"
  using assms unfolding current_def look_drop by (auto split: if_splits)

end

interpretation conns: conn_registry map_of AList.update remove_same
  by unfold_locales (auto simp: update_conv' remove_same_def delete_conv' fun_eq_iff map_of_delete split: option.splits)

section \<open>Interface: a request limiter\<close>

text \<open>The reference: one client alone, its current window (requests counted, start) and the times of its
  requests.\<close>

fun fixed_window :: "(nat \<times> int) option \<Rightarrow> int list \<Rightarrow> bool list" where
  "fixed_window v [] = []"
| "fixed_window v (t # ts) =
     (case v of
        Some (n, s) \<Rightarrow>
          if age_ms t s < WINDOW
          then ((n + 1) mod 2 ^ 32 \<le> MAX_PER_WINDOW) # fixed_window (Some ((n + 1) mod 2 ^ 32, s)) ts
          else True # fixed_window (Some (1, t)) ts
      | None \<Rightarrow> True # fixed_window (Some (1, t)) ts)"

fun allow_run :: "rate_table \<Rightarrow> (int \<times> ip) list \<Rightarrow> bool list" where
  "allow_run tab [] = []"
| "allow_run tab ((t, a) # cs) = (case allow t tab a of (ok, tab') \<Rightarrow> ok # allow_run tab' cs)"

definition live :: "int \<Rightarrow> (nat \<times> int) option \<Rightarrow> (nat \<times> int) option" where
  "live now v = (case v of Some (n, s) \<Rightarrow> if age_ms now s < WINDOW then Some (n, s) else None | None \<Rightarrow> None)"

locale limiter =
  fixes entry :: "'t \<Rightarrow> 'k \<Rightarrow> (nat \<times> int) option"
    and step :: "int \<Rightarrow> 't \<Rightarrow> 'k \<Rightarrow> bool \<times> 't"
    and wf :: "'t \<Rightarrow> bool"
  assumes step_wf: "wf t \<Longrightarrow> wf (snd (step now t k))"
    and step_ok: "wf t \<Longrightarrow> fixed_window (live now (entry t k)) [now] = [fst (step now t k)]"
    and step_entry: "wf t \<Longrightarrow> entry (snd (step now t k)) k =
       (case live now (entry t k) of Some (n, s) \<Rightarrow> Some ((n + 1) mod 2 ^ 32, s) | None \<Rightarrow> Some (1, now))"
    and step_other: "wf t \<Longrightarrow> j \<noteq> k \<Longrightarrow> live now (entry (snd (step now t k)) j) = live now (entry t j)"
begin

fun run :: "'t \<Rightarrow> (int \<times> 'k) list \<Rightarrow> bool list" where
  "run t [] = []"
| "run t ((now, k) # cs) = (case step now t k of (ok, t') \<Rightarrow> ok # run t' cs)"

end

lemma live_idem: "now \<le> later \<Longrightarrow> live now u = live now v \<Longrightarrow> live later u = live later v"
  by (fastforce simp: live_def age_ms_def split: option.splits if_splits)

lemma live_live: "live now (live now v) = live now v"
  by (simp add: live_def split: option.splits)

lemma fixed_window_live: "fixed_window (live t v) (t # ts) = fixed_window v (t # ts)"
  by (simp add: live_def split: option.splits)

context limiter
begin

lemma run_refines:
  assumes "wf t" "sorted (map fst cs)" "\<forall>(x, k)\<in>set cs. now \<le> x" "live now v = live now (entry t j)"
  shows "map snd (filter (\<lambda>(c, ok). snd c = j) (zip cs (run t cs))) = fixed_window v (map fst (filter (\<lambda>c. snd c = j) cs))"
  using assms
proof (induction t cs arbitrary: v now rule: run.induct)
  case (2 t x k cs)
  obtain ok t' where s: "step x t k = (ok, t')" by (cases "step x t k")
  have wf: "wf t'" using step_wf[OF "2.prems"(1), of x k] s by simp
  have le: "\<forall>(y, _)\<in>set cs. x \<le> y" "sorted (map fst cs)" "now \<le> x"
    using "2.prems"(2,3) by auto
  have lv: "live x v = live x (entry t j)" using live_idem[OF le(3) "2.prems"(4)] .
  note IH = "2.IH"[OF s[symmetric] wf le(2) le(1)]
  show ?case
  proof (cases "k = j")
    case True
    have ok: "fixed_window (live x v) [x] = [ok]" using step_ok[OF "2.prems"(1), of x k] s lv True by simp
    have e: "entry t' j = (case live x v of Some (n, s) \<Rightarrow> Some ((n + 1) mod 2 ^ 32, s) | None \<Rightarrow> Some (1, x))"
      using step_entry[OF "2.prems"(1), of x k] s lv True by simp
    have "fixed_window v (x # ts) = ok # fixed_window (entry t' j) ts" for ts
      unfolding e using ok fixed_window_live[of x v ts]
      by (auto simp: live_def split: option.splits if_splits)
    then show ?thesis using IH[of "entry t' j"] True s[unfolded True] by simp
  next
    case False
    have "live x v = live x (entry t' j)" using step_other[OF "2.prems"(1), of j k x] s lv False by simp
    then show ?thesis using IH[of v] False by (simp add: s)
  qed
qed simp

end

definition admitted :: "int \<Rightarrow> int \<Rightarrow> int list \<Rightarrow> bool list \<Rightarrow> nat" where
  "admitted lo hi ts oks = length (filter (\<lambda>(t, ok). lo \<le> t \<and> t < hi \<and> ok) (zip ts oks))"

fun modest :: "int list \<Rightarrow> bool" where
  "modest [] = True"
| "modest (t # ts) = (length (filter (\<lambda>x. x < t + int WINDOW) (t # ts)) \<le> MAX_PER_WINDOW \<and> modest ts)"

lemma admitted_Nil [simp]: "admitted lo hi [] oks = 0"
  by (simp add: admitted_def)

lemma admitted_Cons [simp]:
  "admitted lo hi (t # ts) (ok # oks) = (if lo \<le> t \<and> t < hi \<and> ok then 1 else 0) + admitted lo hi ts oks"
  by (simp add: admitted_def)

lemma admitted_late: "\<forall>x\<in>set ts. hi \<le> x \<Longrightarrow> admitted lo hi ts oks = 0"
  by (force simp: admitted_def filter_empty_conv dest: set_zip_leftD)

lemma WINDOW_pos: "0 < WINDOW"
  by (simp add: WINDOW_def)

lemma age_window: "age_ms t s < WINDOW \<longleftrightarrow> t < s + int WINDOW"
  by (simp add: age_ms_def WINDOW_def) linarith

lemma admitted_same_window:
  "sorted ts \<Longrightarrow> n + length ts < 2 ^ 32 \<Longrightarrow> hi \<le> s + int WINDOW \<Longrightarrow>
     admitted lo hi ts (fixed_window (Some (n, s)) ts) \<le> MAX_PER_WINDOW - n"
proof (induction ts arbitrary: n)
  case (Cons t ts)
  show ?case
  proof (cases "hi \<le> t")
    case True
    then have "\<forall>x\<in>set (t # ts). hi \<le> x" using Cons.prems(1) by fastforce
    then show ?thesis by (simp only: admitted_late)
  next
    case False
    then have "age_ms t s < WINDOW" using Cons.prems(3) by (simp add: age_window)
    then show ?thesis using Cons.IH[of "n + 1"] Cons.prems by auto
  qed
qed simp

lemma admitted_two_windows:
  "sorted ts \<Longrightarrow> n + length ts < 2 ^ 32 \<Longrightarrow> \<forall>x\<in>set ts. lo \<le> x \<Longrightarrow>
     admitted lo (lo + int WINDOW) ts (fixed_window (Some (n, s)) ts) \<le> (MAX_PER_WINDOW - n) + MAX_PER_WINDOW"
proof (induction ts arbitrary: n)
  case (Cons t ts)
  show ?case
  proof (cases "age_ms t s < WINDOW")
    case True
    then show ?thesis using Cons.IH[of "n + 1"] Cons.prems by auto
  next
    case False
    have "admitted lo (lo + int WINDOW) ts (fixed_window (Some (1, t)) ts) \<le> MAX_PER_WINDOW - 1"
      using admitted_same_window[of ts 1 "lo + int WINDOW" t lo] Cons.prems by simp
    then show ?thesis using False by (simp add: MAX_PER_WINDOW_def)
  qed
qed simp

lemma admitted_bound:
  "sorted ts \<Longrightarrow> (case v of Some (n, s) \<Rightarrow> n | None \<Rightarrow> 0) + length ts < 2 ^ 32 \<Longrightarrow>
     admitted lo (lo + int WINDOW) ts (fixed_window v ts) \<le> 2 * MAX_PER_WINDOW"
proof (induction ts arbitrary: v)
  case (Cons t ts)
  show ?case
  proof (cases "lo \<le> t")
    case True
    then have lo: "\<forall>x\<in>set (t # ts). lo \<le> x" using Cons.prems(1) by fastforce
    have "admitted lo (lo + int WINDOW) ts (fixed_window (Some (1, t)) ts) \<le> MAX_PER_WINDOW - 1"
      using admitted_same_window[of ts 1 "lo + int WINDOW" t lo] True Cons.prems by (auto split: option.splits)
    moreover have "admitted lo (lo + int WINDOW) (t # ts) (fixed_window (Some (n, s)) (t # ts)) \<le> 2 * MAX_PER_WINDOW"
      if "v = Some (n, s)" for n s
      using admitted_two_windows[of "t # ts" n lo s] Cons.prems lo that by simp
    ultimately show ?thesis by (cases v) (auto simp: MAX_PER_WINDOW_def)
  next
    case False
    then show ?thesis using Cons.IH[of "Some (1, t)"] Cons.IH[of "Some (n + 1, s)" for n s] Cons.prems
      by (auto split: option.splits)
  qed
qed simp

lemma modest_served:
  "modest ts \<Longrightarrow> n + length (filter (\<lambda>x. x < s + int WINDOW) ts) \<le> MAX_PER_WINDOW \<Longrightarrow>
     list_all (\<lambda>ok. ok) (fixed_window (Some (n, s)) ts)"
proof (induction ts arbitrary: n s)
  case (Cons t ts)
  have "n + 1 < 2 ^ 32" if "t < s + int WINDOW"
    using Cons.prems(2) that by (simp add: MAX_PER_WINDOW_def)
  then show ?case
    using Cons.IH[of "n + 1" s] Cons.IH[of 1 t] Cons.prems
    by (auto simp: age_window WINDOW_pos split: if_splits)
qed simp

lemma modest_served_fresh: "modest ts \<Longrightarrow> list_all (\<lambda>ok. ok) (fixed_window None ts)"
  by (cases ts) (auto intro!: modest_served simp: WINDOW_pos)

section \<open>The limiter of the coordinator\<close>

lemma prune_wf: "distinct (map fst m) \<Longrightarrow> distinct (map fst (prune now m))"
  by (simp add: prune_def distinct_map_filter)

lemma map_of_filter_distinct:
  "distinct (map fst m) \<Longrightarrow> map_of (filter (\<lambda>(k, v). Q k v) m) k =
     (case map_of m k of Some v \<Rightarrow> if Q k v then Some v else None | None \<Rightarrow> None)"
  by (induction m) (force split: option.splits dest: map_of_SomeD)+

lemma prune_live:
  assumes "distinct (map fst m)"
  shows "live now (map_of (prune now m) k) = live now (map_of m k)"
proof (cases "length m > 100000")
  case True
  have "map_of (prune now m) k = (case map_of m k of Some v \<Rightarrow> if age_ms now (snd v) < 60000 then Some v else None | None \<Rightarrow> None)"
    using True map_of_filter_distinct[OF assms, of "\<lambda>_ v. age_ms now (snd v) < 60000" k]
    by (simp add: prune_def case_prod_unfold)
  then show ?thesis by (auto simp: live_def WINDOW_def split: option.splits)
qed (simp add: prune_def)

lemma age_self [simp]: "age_ms t t = 0"
  by (simp add: age_ms_def)

lemma allow_eq:
  assumes "distinct (map fst m)"
  shows "allow now m a =
    (case live now (map_of m a) of
       Some (n, s) \<Rightarrow> ((n + 1) mod 2 ^ 32 \<le> MAX_PER_WINDOW, AList.update a ((n + 1) mod 2 ^ 32, s) (prune now m))
     | None \<Rightarrow> (True, AList.update a (1, now) (prune now m)))"
  using prune_live[OF assms, of now a] WINDOW_pos
  by (cases "map_of (prune now m) a") (auto simp: allow_def Let_def live_def MAX_PER_WINDOW_def split: option.splits if_splits)

interpretation lim: limiter map_of allow "\<lambda>t. distinct (map fst t)"
proof unfold_locales
  fix t :: rate_table and now k
  assume wf: "distinct (map fst t)"
  show "distinct (map fst (snd (allow now t k)))"
    using distinct_update[OF prune_wf[OF wf]] by (simp add: allow_eq[OF wf] split: option.split)
  show "fixed_window (live now (map_of t k)) [now] = [fst (allow now t k)]"
    by (auto simp: allow_eq[OF wf] live_def split: option.splits if_splits)
  show "map_of (snd (allow now t k)) k =
      (case live now (map_of t k) of Some (n, s) \<Rightarrow> Some ((n + 1) mod 2 ^ 32, s) | None \<Rightarrow> Some (1, now))"
    by (simp add: allow_eq[OF wf] update_conv' split: option.split)
  show "live now (map_of (snd (allow now t k)) j) = live now (map_of t j)" if "j \<noteq> k" for j
    using that prune_live[OF wf, of now j] by (simp add: allow_eq[OF wf] update_conv' split: option.split)
qed

lemma allow_run_eq: "allow_run tab cs = lim.run tab cs"
  by (induction tab cs rule: allow_run.induct) (auto split: prod.split)

section \<open>Properties of the limiter\<close>

text \<open>C31. The per-address request limit, for any interleaving of requests from any number of addresses at
  non-decreasing times: an address never gets more than forty requests through in any second (a
  fixed window of twenty can be used up on both sides of its boundary), and an address that makes
  at most twenty requests in every second is never refused, whatever the others do and whenever
  the table is pruned.\<close>

theorem rate_limit_bounds:
  assumes "sorted (map fst calls)" "length calls < 2 ^ 32"
  shows "admitted lo (lo + 1000) (map fst (filter (\<lambda>c. snd c = a) calls))
           (map snd (filter (\<lambda>(c, ok). snd c = a) (zip calls (allow_run [] calls)))) \<le> 40
    \<and> (modest (map fst (filter (\<lambda>c. snd c = a) calls)) \<longrightarrow>
         (\<forall>(c, ok) \<in> set (zip calls (allow_run [] calls)). snd c = a \<longrightarrow> ok))"
proof -
  let ?ts = "map fst (filter (\<lambda>c. snd c = a) calls)"
  let ?oks = "map snd (filter (\<lambda>(c, ok). snd c = a) (zip calls (allow_run [] calls)))"
  define now where "now = (if calls = [] then 0 else fst (hd calls))"
  have early: "\<forall>(x, k)\<in>set calls. now \<le> x"
    using assms(1) by (cases calls) (auto simp: now_def)
  have ref: "?oks = fixed_window None ?ts"
    unfolding allow_run_eq using lim.run_refines[OF _ assms(1) early, of "[]" None a] by simp
  have "length ?ts < 2 ^ 32" using assms(2) le_less_trans[OF length_filter_le] by fastforce
  moreover have "sorted ?ts" using assms(1) by (simp add: sorted_filter)
  ultimately have "admitted lo (lo + int WINDOW) ?ts (fixed_window None ?ts) \<le> 2 * MAX_PER_WINDOW"
    by (intro admitted_bound) auto
  moreover have "\<forall>(c, ok) \<in> set (zip calls (allow_run [] calls)). snd c = a \<longrightarrow> ok" if "modest ?ts"
    using modest_served_fresh[OF that] unfolding ref[symmetric] by (auto simp: list_all_iff) blast
  ultimately show ?thesis by (simp add: ref WINDOW_def MAX_PER_WINDOW_def)
qed

theorem rate_limit_bounds_witness:
  "admitted 0 1000 [0, 999] [True, True] \<le> 40
   \<and> allow_run [] [(0, V4 10 0 0 1), (5, V6 1), (999, V4 10 0 0 1)] = [True, True, True]"
proof
  let ?c = "[(0, V4 10 0 0 1), (5, V6 1), (999, V4 10 0 0 1)]"
  show r: "allow_run [] ?c = [True, True, True]"
    by (simp add: allow_eq live_def prune_def WINDOW_def MAX_PER_WINDOW_def age_ms_def)
  show "admitted 0 1000 [0, 999] [True, True] \<le> 40"
    using rate_limit_bounds[of ?c 0 "V4 10 0 0 1"] by (simp add: r)
qed

section \<open>Lemmas on registrations\<close>

lemma accept_tunnel_cases:
  assumes "accept_tunnel E allowed allow_any nid nonce sent rx c m = (out, m')"
  shows "TunnelAccepted \<notin> set out \<and> m' = m
    \<or> (TunnelAccepted \<in> set out \<and> m' = AList.update nid c m \<and> (allowed = None \<longrightarrow> allow_any) \<and> (\<forall>a. allowed = Some a \<longrightarrow> nid = a)
       \<and> (\<exists>sig k. rx = Ok (TunnelChallengeResponse sig) \<and> hex_decode E nid = Some k \<and> verify_signature E k nonce sig))"
  using assms unfolding accept_tunnel_def by (auto split: if_splits option.splits sum.splits msg.splits)

lemma accept_channel_cases:
  assumes "accept_channel E nid nonce sent rx c m = (out, m')"
  shows "NodeChannelAccepted \<notin> set out \<and> m' = m
    \<or> (NodeChannelAccepted \<in> set out \<and> m' = AList.update nid c m
       \<and> (\<exists>sig k. rx = Ok (NodeChannelChallengeResponse sig) \<and> hex_decode E nid = Some k \<and> verify_signature E k nonce sig))"
  using assms unfolding accept_channel_def by (auto split: if_splits option.splits sum.splits msg.splits)

definition proven :: "ext \<Rightarrow> string \<times> conn \<times> bytes \<times> bytes \<Rightarrow> bool" where
  "proven E e = (case e of (nid, c, nonce, sig) \<Rightarrow>
     (case hex_decode E nid of Some k \<Rightarrow> verify_signature E k nonce sig | None \<Rightarrow> False))"

definition tunnel_allowed :: "coord_cfg \<Rightarrow> string \<Rightarrow> bool" where
  "tunnel_allowed cfg nid = (case cc_allowed_tunnel cfg of Some a \<Rightarrow> nid = a | None \<Rightarrow> cc_allow_any cfg)"

definition log_ok :: "ext \<Rightarrow> conn set \<Rightarrow> conn_map \<Rightarrow> (string \<times> conn \<times> bytes \<times> bytes) list \<Rightarrow> bool" where
  "log_ok E closed_conns m l \<longleftrightarrow> conns.current m (conn_log l) closed_conns \<and> list_all (proven E) l"

definition conns_inv :: "ext \<Rightarrow> coord_cfg \<Rightarrow> cworld \<Rightarrow> bool" where
  "conns_inv E cfg w \<longleftrightarrow>
     log_ok E (cw_closed w) (co_tunnels (cw_coord w)) (cw_tlog w)
   \<and> log_ok E (cw_closed w) (co_channels (cw_coord w)) (cw_clog w)
   \<and> list_all (\<lambda>(nid, _). tunnel_allowed cfg nid) (cw_tlog w)
   \<and> distinct (map (fst \<circ> snd) (cw_tlog w @ cw_clog w))"

lemma conn_log_simps [simp]: "conn_log [] = []" "conn_log ((n, c, x) # l) = (n, c) # conn_log l"
  by (simp_all add: conn_log_def)

lemma snd_conn_log: "snd ` set (conn_log l) = (fst \<circ> snd) ` set l"
  by (force simp: conn_log_def)

lemma distinct_log_unique:
  assumes "distinct (map (fst \<circ> snd) l)" "(n, c, x) \<in> set l" "map_of (conn_log l) j = Some c"
  shows "j = n"
proof -
  obtain y where "(j, c, y) \<in> set l" using map_of_SomeD[OF assms(3)] by (auto simp: conn_log_def)
  then have "(j, c, y) = (n, c, x)"
    using assms(1,2) inj_onD[of "fst \<circ> snd" "set l" "(j, c, y)" "(n, c, x)"] by (simp add: distinct_map)
  then show ?thesis by simp
qed

lemma log_ok_put:
  assumes "log_ok E cl m l" "c \<notin> cl" "proven E (n, c, x)"
  shows "log_ok E cl (AList.update n c m) ((n, c, x) # l)"
  using assms conns.current_put[of m "conn_log l" cl c n] by (simp add: log_ok_def)

lemma log_ok_closed_here:
  assumes "log_ok E cl m l" "distinct (map (fst \<circ> snd) l)" "(n, c, x) \<in> set l"
  shows "log_ok E (insert c cl) (remove_same n c m) l"
proof -
  have "\<forall>j. map_of (conn_log l) j = Some c \<longrightarrow> j = n" using distinct_log_unique[OF assms(2,3)] by blast
  from conns.current_drop[OF _ this] show ?thesis using assms(1) by (simp add: log_ok_def)
qed

lemma log_ok_closed_elsewhere:
  assumes "log_ok E cl m l" "c \<notin> (fst \<circ> snd) ` set l"
  shows "log_ok E (insert c cl) m l"
  using assms conns.current_unrelated[of m "conn_log l" cl c] unfolding log_ok_def snd_conn_log by simp

lemma coord_stream_conns:
  assumes "coord_stream E P V cfg now secs rip cert s m = Done (out, s')"
  shows "co_tunnels s' = co_tunnels s \<and> co_channels s' = co_channels s \<and> co_dir s' = co_dir s"
  using assms unfolding coord_stream_def register_node_def
  by (cases m) (auto simp: Let_def split: prod.splits if_splits outcome.splits elim!: bind_out.elims)

lemma conns_inv_start: "conns_inv E cfg (world_start P now secs ok dir)"
  by (simp add: conns_inv_def world_start_def coord_start_def log_ok_def conns.current_def)

lemma conns_inv_step:
  assumes "coord_step E P cfg w w'" "conns_inv E cfg w"
  shows "conns_inv E cfg w'"
  using assms
proof (cases rule: coord_step.cases)
  case (cs_tunnel c nid nonce sent rx out t' log')
  note i = assms(2)[unfolded conns_inv_def] and a = accept_tunnel_cases[OF cs_tunnel(3)]
  show ?thesis
  proof (cases "TunnelAccepted \<in> set out")
    case True
    with a cs_tunnel(4) obtain sig where l: "log' = (nid, c, nonce, sig) # cw_tlog w" "proven E (nid, c, nonce, sig)"
      "t' = AList.update nid c (co_tunnels (cw_coord w))" "tunnel_allowed cfg nid"
      by (auto simp: proven_def tunnel_allowed_def split: option.splits)
    have "log_ok E (cw_closed w) t' log'"
      using log_ok_put[of E "cw_closed w" "co_tunnels (cw_coord w)" "cw_tlog w" c nid "(nonce, sig)"] i l cs_tunnel(2)
      by (simp add: used_conns_def)
    then show ?thesis using i l cs_tunnel(1,2) by (auto simp: conns_inv_def used_conns_def)
  next
    case False
    then show ?thesis using a cs_tunnel(1,4) i by (simp add: conns_inv_def)
  qed
next
  case (cs_channel c nid nonce sent rx out t' log')
  note i = assms(2)[unfolded conns_inv_def] and a = accept_channel_cases[OF cs_channel(3)]
  show ?thesis
  proof (cases "NodeChannelAccepted \<in> set out")
    case True
    with a cs_channel(4) obtain sig where l: "log' = (nid, c, nonce, sig) # cw_clog w" "proven E (nid, c, nonce, sig)"
      "t' = AList.update nid c (co_channels (cw_coord w))" by (auto simp: proven_def)
    have "log_ok E (cw_closed w) t' log'"
      using log_ok_put[of E "cw_closed w" "co_channels (cw_coord w)" "cw_clog w" c nid "(nonce, sig)"] i l cs_channel(2)
      by (simp add: used_conns_def)
    then show ?thesis using i l cs_channel(1,2) by (auto simp: conns_inv_def used_conns_def)
  next
    case False
    then show ?thesis using a cs_channel(1,4) i by (simp add: conns_inv_def)
  qed
next
  case (cs_tunnel_closed nid c rest)
  note i = assms(2)[unfolded conns_inv_def]
  have "c \<notin> (fst \<circ> snd) ` set (cw_clog w)" using i cs_tunnel_closed(2) by force
  then show ?thesis
    using i cs_tunnel_closed log_ok_closed_here[of E "cw_closed w" "co_tunnels (cw_coord w)" "cw_tlog w" nid c rest]
      log_ok_closed_elsewhere[of E "cw_closed w" "co_channels (cw_coord w)" "cw_clog w" c]
    by (simp add: conns_inv_def)
next
  case (cs_channel_closed nid c rest)
  note i = assms(2)[unfolded conns_inv_def]
  have "c \<notin> (fst \<circ> snd) ` set (cw_tlog w)" using i cs_channel_closed(2) by force
  then show ?thesis
    using i cs_channel_closed log_ok_closed_here[of E "cw_closed w" "co_channels (cw_coord w)" "cw_clog w" nid c rest]
      log_ok_closed_elsewhere[of E "cw_closed w" "co_tunnels (cw_coord w)" "cw_tlog w" c]
    by (simp add: conns_inv_def)
qed (auto simp: conns_inv_def dest: coord_stream_conns)

lemma conns_inv_reach: "coord_reach E P cfg (world_start P now secs ok dir) w \<Longrightarrow> conns_inv E cfg w"
  by (induction rule: coord_reach.induct) (auto intro: conns_inv_start conns_inv_step)

section \<open>Lemmas on the peer table\<close>

lemma verify_registration_True:
  "verify_registration E cert nid = Done True \<Longrightarrow> \<exists>c k. cert = Some c \<and> extract_public_key c = Done (Some k) \<and> hex_encode E k = nid"
  by (auto simp: verify_registration_def split: option.splits if_splits elim!: bind_out.elims)

definition admitted_node :: "coord_cfg \<Rightarrow> string \<Rightarrow> bool" where
  "admitted_node cfg nid = (case cc_allowed_nodes cfg of Some l \<Rightarrow> nid \<in> set l | None \<Rightarrow> True)"

lemma register_node_cases:
  assumes "register_node E P cfg now secs rip cert s nid port ns = Done (out, s')"
  shows "s' = s \<and> (out = [MsgError 401 ''Identity verification failed''] \<or> out = [MsgError 403 ''Node not allowed''])
   \<or> (\<exists>peers c k. cert = Some c \<and> extract_public_key c = Done (Some k) \<and> hex_encode E k = nid \<and> admitted_node cfg nid
       \<and> peers = AList.update (ns, nid) \<lparr>pe_node_id = nid, pe_ip = rip, pe_quic_port = port, pe_last_seen = now\<rparr> (co_peers s)
       \<and> out = [PeerList (current_peer_list P now peers ns (cc_ttl cfg))]
       \<and> s' = s\<lparr>co_peers := peers, co_pending := co_pending s @ [snapshot P now secs peers]\<rparr>)"
  using assms verify_registration_True[of E cert nid]
  unfolding register_node_def admitted_node_def
  by (cases "verify_registration E cert nid") (auto simp: Let_def list_ex_iff split: if_splits option.splits)

lemma coord_stream_peers:
  assumes "coord_stream E P V cfg now secs rip cert s m = Done (out, s')" "\<forall>a b c. m \<noteq> RegisterNode a b c"
  shows "co_peers s' = co_peers s \<and> co_pending s' = co_pending s"
  using assms unfolding coord_stream_def
  by (cases m) (auto simp: Let_def split: prod.splits if_splits)

lemma coord_stream_register:
  assumes "coord_stream E P V cfg now secs rip cert s (RegisterNode nid port ns) = Done (out, s')"
  shows "co_peers s' = co_peers s \<and> co_pending s' = co_pending s
   \<or> (\<exists>c k. cert = Some c \<and> extract_public_key c = Done (Some k) \<and> hex_encode E k = nid \<and> admitted_node cfg nid
       \<and> co_peers s' = AList.update (ns, nid) \<lparr>pe_node_id = nid, pe_ip = rip, pe_quic_port = port, pe_last_seen = now\<rparr> (co_peers s)
       \<and> co_pending s' = co_pending s @ [snapshot P now secs (co_peers s')])"
proof -
  obtain ok lim where a: "allow now (co_limiter s) rip = (ok, lim)" by (cases "allow now (co_limiter s) rip")
  show ?thesis
  proof (cases ok)
    case True
    then have "register_node E P cfg now secs rip cert (s\<lparr>co_limiter := lim\<rparr>) nid port ns = Done (out, s')"
      using assms by (simp add: coord_stream_def a)
    from register_node_cases[OF this] show ?thesis by auto
  next
    case False
    then show ?thesis using assms by (auto simp: coord_stream_def a)
  qed
qed

definition peer_origin :: "peer_map \<Rightarrow> cworld \<Rightarrow> string \<times> string \<Rightarrow> peer_entry \<Rightarrow> bool" where
  "peer_origin m0 w key p \<longleftrightarrow>
     map_of m0 key = Some p \<or> (pe_node_id p = snd key \<and> (\<exists>cert. (fst key, snd key, pe_ip p, cert) \<in> cw_regs w))"

definition regs_inv :: "ext \<Rightarrow> coord_cfg \<Rightarrow> peer_map \<Rightarrow> cworld \<Rightarrow> bool" where
  "regs_inv E cfg m0 w \<longleftrightarrow> distinct (map fst (co_peers (cw_coord w)))
     \<and> (\<forall>key p. map_of (co_peers (cw_coord w)) key = Some p \<longrightarrow> peer_origin m0 w key p)
     \<and> (\<forall>(ns, nid, a, cert) \<in> cw_regs w. admitted_node cfg nid \<and> (\<exists>k. extract_public_key cert = Done (Some k) \<and> hex_encode E k = nid))"

lemma regs_inv_step:
  assumes "coord_step E P cfg w w'" "regs_inv E cfg m0 w"
  shows "regs_inv E cfg m0 w'"
  using assms
proof (cases rule: coord_step.cases)
  case (cs_register V now secs rip cert nid port ns out s')
  from coord_stream_register[OF cs_register(2)] show ?thesis
  proof
    assume "co_peers s' = co_peers (cw_coord w) \<and> co_pending s' = co_pending (cw_coord w)"
    then show ?thesis using assms(2) cs_register(1) by (simp add: regs_inv_def peer_origin_def)
  next
    assume "\<exists>c k. cert = Some c \<and> extract_public_key c = Done (Some k) \<and> hex_encode E k = nid \<and> admitted_node cfg nid
       \<and> co_peers s' = AList.update (ns, nid) \<lparr>pe_node_id = nid, pe_ip = rip, pe_quic_port = port, pe_last_seen = now\<rparr> (co_peers (cw_coord w))
       \<and> co_pending s' = co_pending (cw_coord w) @ [snapshot P now secs (co_peers s')]"
    then obtain c k where r: "cert = Some c" "extract_public_key c = Done (Some k)" "hex_encode E k = nid" "admitted_node cfg nid"
      "co_peers s' = AList.update (ns, nid) \<lparr>pe_node_id = nid, pe_ip = rip, pe_quic_port = port, pe_last_seen = now\<rparr> (co_peers (cw_coord w))"
      "co_pending s' \<noteq> co_pending (cw_coord w)" by force
    have w': "co_peers (cw_coord w') = co_peers s'" "cw_regs w' = insert (ns, nid, rip, c) (cw_regs w)"
      using cs_register(1) r by simp_all
    show ?thesis
      using assms(2) unfolding regs_inv_def w' r(5) peer_origin_def
      by (auto simp: update_conv' distinct_update r split: if_splits) blast+
  qed
next
  case (cs_stream V now secs rip cert m out s')
  then show ?thesis using assms(2) coord_stream_peers[OF cs_stream(2,3)] by (simp add: regs_inv_def peer_origin_def)
next
  case (cs_cleanup now peers' removed pending' secs)
  let ?Q = "\<lambda>key p. age_secs now (pe_last_seen p) < cc_ttl cfg"
  have p': "peers' = filter (\<lambda>(k, v). ?Q k v) (co_peers (cw_coord w))"
    using cs_cleanup(2) by (auto simp: cleanup_peers_def Let_def)
  have d: "distinct (map fst (co_peers (cw_coord w)))" using assms(2) by (simp add: regs_inv_def)
  show ?thesis
    using assms(2) cs_cleanup(1) map_of_filter_distinct[OF d, of ?Q]
    by (auto simp: regs_inv_def p' peer_origin_def distinct_map_filter split: option.splits if_splits)
qed (auto simp: regs_inv_def peer_origin_def)

lemma fold_load_distinct: "distinct (map fst m) \<Longrightarrow> distinct (map fst (fold (load_peer P now secs) l m))"
  by (induction l arbitrary: m) (auto simp: load_peer_def Let_def distinct_update split: option.split)

lemma regs_inv_start: "regs_inv E cfg (load_persisted_peers P now secs ok dir) (world_start P now secs ok dir)"
  by (auto simp: regs_inv_def world_start_def coord_start_def peer_origin_def load_persisted_peers_def fold_load_distinct split: option.split)

lemma regs_inv_reach:
  "coord_reach E P cfg (world_start P now secs ok dir) w \<Longrightarrow> regs_inv E cfg (load_persisted_peers P now secs ok dir) w"
  by (induction rule: coord_reach.induct) (auto intro: regs_inv_start regs_inv_step)

section \<open>Properties of registrations\<close>

text \<open>C29. In every state the coordinator can reach, under any interleaving of its tasks: an entry of the
  peer table either came unchanged from the file it started from, or was registered under its own
  node id, from the address stored in it, over a connection whose certificate carries exactly the
  Ed25519 key that the node id spells, and the id passed the configured allow-list.\<close>

theorem peers_authentic:
  assumes "coord_reach E P cfg (world_start P now secs ok dir) w"
    and "map_of (co_peers (cw_coord w)) (ns, nid) = Some p"
  shows "map_of (load_persisted_peers P now secs ok dir) (ns, nid) = Some p
    \<or> (pe_node_id p = nid \<and> admitted_node cfg nid
        \<and> (\<exists>cert k. (ns, nid, pe_ip p, cert) \<in> cw_regs w \<and> extract_public_key cert = Done (Some k) \<and> hex_encode E k = nid))"
  using regs_inv_reach[OF assms(1)] assms(2) unfolding regs_inv_def peer_origin_def by fastforce

text \<open>C30. A tunnel or channel entry is exactly the most recently accepted registration of its node id whose
  connection has not closed, in every state reachable under any interleaving of registrations and
  disconnects: an old connection's end never removes the entry of a newer one.  Every accepted
  registration had answered a challenge with a signature that verifies under the key its id
  spells, and a tunnel registration was for the configured id, or for any if that was allowed
  explicitly.\<close>

theorem connections_authenticated_and_current:
  assumes "coord_reach E P cfg (world_start P now secs ok dir) w"
  shows "map_of (co_channels (cw_coord w)) nid =
      (case map_of (conn_log (cw_clog w)) nid of Some c \<Rightarrow> if c \<in> cw_closed w then None else Some c | None \<Rightarrow> None)
    \<and> map_of (co_tunnels (cw_coord w)) nid =
      (case map_of (conn_log (cw_tlog w)) nid of Some c \<Rightarrow> if c \<in> cw_closed w then None else Some c | None \<Rightarrow> None)
    \<and> list_all (proven E) (cw_clog w) \<and> list_all (proven E) (cw_tlog w)
    \<and> list_all (\<lambda>(n, _). tunnel_allowed cfg n) (cw_tlog w)"
  using conns_inv_reach[OF assms] unfolding conns_inv_def log_ok_def conns.current_def by blast

section \<open>Lemmas on the peers file\<close>

lemma temp_name_ne: "temp_name rnd \<noteq> ''peers.json''"
proof
  assume "temp_name rnd = ''peers.json''"
  then have "rev (temp_name rnd) = rev ''peers.json''" by (rule arg_cong)
  then show False by (simp add: temp_name_def)
qed

lemma save_atomic:
  "d \<in> set (save_states P io rnd l dir) \<Longrightarrow> d ''peers.json'' = dir ''peers.json'' \<or> d ''peers.json'' = Some (to_json P l)"
  using temp_name_ne[of rnd] by (auto simp: save_states_def Let_def split: if_splits option.splits)

lemma save_ok:
  "sv_create io \<Longrightarrow> sv_write io = None \<Longrightarrow> sv_rename io \<Longrightarrow>
     save_persisted_peers P io rnd l dir ''peers.json'' = Some (to_json P l)"
  by (simp add: save_persisted_peers_def save_states_def Let_def)

lemma peers_file_atomic:
  assumes "coord_reach E P cfg (world_start P now secs ok dir) w"
  shows "to_json P ` set (co_pending (cw_coord w)) \<subseteq> cw_snaps w
    \<and> (co_dir (cw_coord w) ''peers.json'' = dir ''peers.json'' \<or> co_dir (cw_coord w) ''peers.json'' \<in> Some ` cw_snaps w)"
  using assms
proof (induction rule: coord_reach.induct)
  case cr_start
  then show ?case by (simp add: world_start_def coord_start_def)
next
  case (cr_step w w')
  from cr_step(2) show ?case
  proof (cases rule: coord_step.cases)
    case (cs_register V now secs rip cert nid port ns out s')
    then show ?thesis using cr_step.IH coord_stream_conns[OF cs_register(2)] by auto
  next
    case (cs_stream V now secs rip cert m out s')
    then show ?thesis using cr_step.IH coord_stream_conns[OF cs_stream(2)] coord_stream_peers[OF cs_stream(2,3)] by auto
  next
    case (cs_save l dir' io rnd)
    then show ?thesis using cr_step.IH save_atomic[OF cs_save(3)] by auto
  qed (use cr_step.IH in auto)
qed

definition restored :: "platform \<Rightarrow> int \<Rightarrow> nat \<Rightarrow> int \<Rightarrow> nat \<Rightarrow> peer_entry \<Rightarrow> peer_entry" where
  "restored P now1 secs1 now2 secs2 p =
     p\<lparr>pe_last_seen := now2 - 1000 * int (age_secs now1 (pe_last_seen p) + (secs2 - secs1))\<rparr>"

lemma load_peer_persisted:
  assumes "platform_ok P" "pe_node_id p = nid" "secs1 \<le> secs2" "age_secs now1 (pe_last_seen p) \<le> secs1"
    and "instant_min P \<le> now2 - 1000 * int secs2"
  shows "load_peer P now2 secs2 (persisted_of P now1 secs1 ((ns, nid), p)) m
     = AList.update (ns, nid) (restored P now1 secs1 now2 secs2 p) m"
proof -
  have e: "secs2 - (secs1 - age_secs now1 (pe_last_seen p)) = age_secs now1 (pe_last_seen p) + (secs2 - secs1)"
    using assms(3,4) by simp
  have "age_secs now1 (pe_last_seen p) + (secs2 - secs1) \<le> secs2" using assms(3,4) by simp
  then have "checked_sub P now2 (age_secs now1 (pe_last_seen p) + (secs2 - secs1))
      = Some (now2 - 1000 * int (age_secs now1 (pe_last_seen p) + (secs2 - secs1)))"
    using assms(5) by (simp add: checked_sub_def)
  then show ?thesis
    using assms(1,2) e by (cases p) (simp add: load_peer_def persisted_of_def platform_ok_def restored_def Let_def)
qed

definition saved_well :: "peer_map \<Rightarrow> bool" where
  "saved_well m \<longleftrightarrow> distinct (map fst m) \<and> list_all (\<lambda>((ns, nid), p). pe_node_id p = nid) m"

lemma fold_load_snapshot:
  assumes "platform_ok P" "secs1 \<le> secs2" "instant_min P \<le> now2 - 1000 * int secs2"
    and "saved_well m" "\<forall>(k, p) \<in> set m. age_secs now1 (pe_last_seen p) \<le> secs1"
  shows "map_of (fold (load_peer P now2 secs2) (snapshot P now1 secs1 m) acc) k =
     (case map_of m k of Some p \<Rightarrow> Some (restored P now1 secs1 now2 secs2 p) | None \<Rightarrow> map_of acc k)"
  using assms(4,5)
proof (induction m arbitrary: acc)
  case (Cons e m)
  obtain ns nid p where e: "e = ((ns, nid), p)" by (metis surj_pair)
  have f: "load_peer P now2 secs2 (persisted_of P now1 secs1 ((ns, nid), p)) acc
      = AList.update (ns, nid) (restored P now1 secs1 now2 secs2 p) acc"
    by (rule load_peer_persisted) (use assms Cons.prems e in \<open>auto simp: saved_well_def\<close>)
  have "saved_well m" "\<forall>(k, p) \<in> set m. age_secs now1 (pe_last_seen p) \<le> secs1" "map_of m (ns, nid) = None"
    using Cons.prems e by (auto simp: saved_well_def map_of_eq_None_iff)
  then show ?case using Cons.IH[of "AList.update (ns, nid) (restored P now1 secs1 now2 secs2 p) acc"] f
    by (auto simp: snapshot_def e update_conv' split: option.split)
qed (simp add: snapshot_def)

text \<open>The peer table survives a restart: what \<open>save_persisted_peers\<close> wrote at wall time \<open>secs1\<close> is
  loaded at \<open>secs2\<close> as the same entries, each exactly as old as it was when saved plus the whole
  seconds in between, so the time-to-live keeps counting while the coordinator is down.\<close>

theorem peers_survive_restart:
  assumes "platform_ok P" "saved_well m" "\<forall>(k, p) \<in> set m. age_secs now1 (pe_last_seen p) \<le> secs1"
    and "secs1 \<le> secs2" "instant_min P \<le> now2 - 1000 * int secs2"
    and "sv_create io" "sv_write io = None" "sv_rename io"
  shows "map_of (load_persisted_peers P now2 secs2 True (save_persisted_peers P io rnd (snapshot P now1 secs1 m) dir)) k =
      map_option (\<lambda>p. p\<lparr>pe_last_seen := now2 - 1000 * int (age_secs now1 (pe_last_seen p) + (secs2 - secs1))\<rparr>) (map_of m k)"
  using fold_load_snapshot[OF assms(1,4,5,2,3), of "[]" k] assms(1) save_ok[OF assms(6-8)]
  by (auto simp: load_persisted_peers_def platform_ok_def restored_def split: option.split)

section \<open>A concrete platform\<close>

text \<open>Unary renderings that read back, to show that the laws of the platform can hold.\<close>

fun ones :: "nat \<Rightarrow> string \<Rightarrow> string" where
  "ones n rest = replicate n (CHR ''1'') @ CHR ''.'' # rest"

definition count_ones :: "string \<Rightarrow> nat \<times> string" where
  "count_ones s = (length (takeWhile (\<lambda>c. c = CHR ''1'') s), drop 1 (dropWhile (\<lambda>c. c = CHR ''1'') s))"

fun unary_ip :: "ip \<Rightarrow> string" where
  "unary_ip (V4 a b c d) = ''4'' @ ones a (ones b (ones c (ones d [])))"
| "unary_ip (V6 n) = ''6'' @ ones n []"

definition parse_unary_ip :: "string \<Rightarrow> ip option" where
  "parse_unary_ip s =
     (case s of
        [] \<Rightarrow> None
      | k # s0 \<Rightarrow>
          (case count_ones s0 of (a, s1) \<Rightarrow> case count_ones s1 of (b, s2) \<Rightarrow> case count_ones s2 of (c, s3) \<Rightarrow>
             if k = CHR ''4'' then Some (V4 a b c (fst (count_ones s3))) else Some (V6 a)))"

definition put_nat :: "nat \<Rightarrow> bytes \<Rightarrow> bytes" where
  "put_nat n rest = replicate n 1 @ 0 # rest"

definition get_nat :: "bytes \<Rightarrow> nat \<times> bytes" where
  "get_nat bs = (length (takeWhile (\<lambda>b. b = 1) bs), drop 1 (dropWhile (\<lambda>b. b = 1) bs))"

definition put_str :: "string \<Rightarrow> bytes \<Rightarrow> bytes" where
  "put_str s rest = put_nat (length s) (map (\<lambda>c. word_of_nat (of_char c)) s @ rest)"

definition get_str :: "bytes \<Rightarrow> string \<times> bytes" where
  "get_str bs = (case get_nat bs of (n, r) \<Rightarrow> (map (\<lambda>b. char_of (unat b)) (take n r), drop n r))"

fun put_peers :: "persisted_peer list \<Rightarrow> bytes" where
  "put_peers [] = []"
| "put_peers (p # ps) = 1 # put_str (pp_namespace p) (put_str (pp_node_id p) (put_str (pp_ip p)
     (put_nat (pp_quic_port p) (put_nat (pp_last_seen_secs p) (put_peers ps)))))"

fun get_peers :: "nat \<Rightarrow> bytes \<Rightarrow> persisted_peer list" where
  "get_peers 0 bs = []"
| "get_peers (Suc n) [] = []"
| "get_peers (Suc n) (b # bs) =
     (case get_str bs of (ns, r1) \<Rightarrow> case get_str r1 of (nid, r2) \<Rightarrow> case get_str r2 of (a, r3) \<Rightarrow>
      case get_nat r3 of (port, r4) \<Rightarrow> case get_nat r4 of (seen, r5) \<Rightarrow>
        \<lparr>pp_namespace = ns, pp_node_id = nid, pp_ip = a, pp_quic_port = port, pp_last_seen_secs = seen\<rparr> # get_peers n r5)"

definition unary_platform :: platform where
  "unary_platform = \<lparr>show_ip = unary_ip, parse_ip = parse_unary_ip, to_json = put_peers,
     from_json = (\<lambda>bs. Some (get_peers (length bs) bs)), instant_min = - 1000000\<rparr>"

lemma count_ones_ones [simp]: "count_ones (ones n rest) = (n, rest)"
  by (simp add: count_ones_def takeWhile_append dropWhile_append)

lemma get_put_nat [simp]: "get_nat (put_nat n rest) = (n, rest)"
  by (simp add: get_nat_def put_nat_def takeWhile_append dropWhile_append)

lemma get_put_str [simp]: "get_str (put_str s rest) = (s, rest)"
  by (simp add: get_str_def put_str_def o_def unat_of_nat map_idI)

lemma length_put: "length (put_nat n rest) = n + 1 + length rest" "length rest \<le> length (put_str s rest)"
  by (simp_all add: put_nat_def put_str_def)

lemma get_put_peers: "length (put_peers ps) \<le> n \<Longrightarrow> get_peers n (put_peers ps) = ps"
proof (induction ps arbitrary: n)
  case Nil
  then show ?case by (cases n) auto
next
  case (Cons p ps)
  then obtain m where n: "n = Suc m" by (cases n) auto
  have "length (put_peers ps) \<le> m"
    using Cons.prems n length_put(2)[of "put_str (pp_node_id p) (put_str (pp_ip p) (put_nat (pp_quic_port p) (put_nat (pp_last_seen_secs p) (put_peers ps))))" "pp_namespace p"]
      length_put(2)[of "put_str (pp_ip p) (put_nat (pp_quic_port p) (put_nat (pp_last_seen_secs p) (put_peers ps)))" "pp_node_id p"]
      length_put(2)[of "put_nat (pp_quic_port p) (put_nat (pp_last_seen_secs p) (put_peers ps))" "pp_ip p"]
    by (simp add: length_put(1))
  then show ?case using Cons.IH[of m] n by simp
qed

lemma unary_platform_ok: "platform_ok unary_platform"
proof -
  have "parse_unary_ip (unary_ip a) = Some a" for a
    by (cases a) (simp_all add: parse_unary_ip_def del: ones.simps split: prod.split)
  then show ?thesis by (simp add: platform_ok_def unary_platform_def get_put_peers)
qed

section \<open>Witnesses\<close>

definition one_peer :: peer_map where
  "one_peer = [((''ns'', ''n1''), \<lparr>pe_node_id = ''n1'', pe_ip = V4 1 2 0 3, pe_quic_port = 7, pe_last_seen = 4000\<rparr>)]"

theorem peers_survive_restart_witness:
  "map_of (load_persisted_peers unary_platform 2000 9 True
      (save_persisted_peers unary_platform \<lparr>sv_create = True, sv_write = None, sv_rename = True, sv_remove = True\<rparr> 5
         (snapshot unary_platform 6000 5 one_peer) Map.empty)) (''ns'', ''n1'')
   = Some \<lparr>pe_node_id = ''n1'', pe_ip = V4 1 2 0 3, pe_quic_port = 7, pe_last_seen = - 4000\<rparr>"
proof -
  let ?io = "\<lparr>sv_create = True, sv_write = None, sv_rename = True, sv_remove = True\<rparr>"
  have "saved_well one_peer" "\<forall>(k, p) \<in> set one_peer. age_secs 6000 (pe_last_seen p) \<le> 5"
    by (simp_all add: saved_well_def one_peer_def age_secs_def age_ms_def)
  note r = peers_survive_restart[OF unary_platform_ok this, of 9 2000 ?io 5 Map.empty "(''ns'', ''n1'')"]
  show ?thesis using r by (simp add: one_peer_def age_secs_def age_ms_def unary_platform_def)
qed

definition open_cfg :: coord_cfg where
  "open_cfg = \<lparr>cc_ttl = 90, cc_allowed_nodes = None, cc_allowed_tunnel = None, cc_allow_any = False\<rparr>"

definition example_cert :: bytes where
  "example_cert = certificate [(2, [1]), (0x30, []), (0x30, []), (0x30, []), (0x30, []), spki_field (replicate 32 0xaa)] []"

definition idle_env :: relay_env where
  "idle_env = \<lparr>rv_link = (\<lambda>c. \<lparr>lk_open = Err ''no'', lk_write = (\<lambda>_. Ok ()), lk_reply = (\<lambda>_. Finished [])\<rparr>),
     rv_dial = (\<lambda>a n. DialTimeout), rv_show_err = (\<lambda>e. [])\<rparr>"

definition start0 :: cworld where
  "start0 = world_start unary_platform 0 0 True Map.empty"

definition example_nid :: string where "example_nid = replicate 64 (CHR ''a'')"

lemma example_cert_key: "extract_public_key example_cert = Done (Some (replicate 32 0xaa))"
  by code_simp

lemma example_key_hex: "hex_encode toy_ext (replicate 32 0xaa) = example_nid"
  by code_simp

lemma example_registers:
  "\<exists>out s'. coord_stream toy_ext unary_platform idle_env open_cfg 0 0 (V6 1) (Some example_cert) (cw_coord start0)
       (RegisterNode example_nid 9000 ''ns'') = Done (out, s')
     \<and> map_of (co_peers s') (''ns'', example_nid)
         = Some \<lparr>pe_node_id = example_nid, pe_ip = V6 1, pe_quic_port = 9000, pe_last_seen = 0\<rparr>"
  by (simp add: coord_stream_def start0_def world_start_def coord_start_def load_persisted_peers_def allow_def prune_def
      MAX_PER_WINDOW_def WINDOW_def register_node_def verify_registration_def example_cert_key example_key_hex open_cfg_def Let_def update_conv')

text \<open>The log line about a mismatching id slices it at eight bytes: an id with a two-byte character there
  panics the stream's task before any answer is sent.\<close>

lemma mismatch_log_panics:
  "verify_registration toy_ext (Some example_cert) (''nnnnnnn'' @ [CHR 0xC3, CHR 0xA9]) = Panic"
proof -
  have "example_nid \<noteq> ''nnnnnnn'' @ [CHR 0xC3, CHR 0xA9]"
    by (rule notI, drule arg_cong[of _ _ length]) (simp add: example_nid_def)
  then show ?thesis
    by (simp add: verify_registration_def example_cert_key example_key_hex char_boundary_def del: replicate.simps)
qed

theorem peers_authentic_witness:
  "\<exists>w. coord_reach toy_ext unary_platform open_cfg (world_start unary_platform 0 0 True Map.empty) w
     \<and> (\<exists>cert k. (''ns'', example_nid, V6 1, cert) \<in> cw_regs w \<and> extract_public_key cert = Done (Some k)
           \<and> hex_encode toy_ext k = example_nid)"
proof -
  obtain out s' where s: "coord_stream toy_ext unary_platform idle_env open_cfg 0 0 (V6 1) (Some example_cert) (cw_coord start0)
       (RegisterNode example_nid 9000 ''ns'') = Done (out, s')"
    "map_of (co_peers s') (''ns'', example_nid)
       = Some \<lparr>pe_node_id = example_nid, pe_ip = V6 1, pe_quic_port = 9000, pe_last_seen = 0\<rparr>"
    using example_registers by blast
  let ?w = "start0\<lparr>cw_coord := s',
       cw_regs := (if co_pending s' = co_pending (cw_coord start0) then cw_regs start0 else insert (''ns'', example_nid, V6 1, the (Some example_cert)) (cw_regs start0)),
       cw_snaps := to_json unary_platform ` set (co_pending s') \<union> cw_snaps start0\<rparr>"
  have r: "coord_reach toy_ext unary_platform open_cfg (world_start unary_platform 0 0 True Map.empty) ?w"
    using cr_step[OF cr_start cs_register[OF s(1)]] by (simp add: start0_def)
  have "map_of (co_peers (cw_coord ?w)) (''ns'', example_nid)
       = Some \<lparr>pe_node_id = example_nid, pe_ip = V6 1, pe_quic_port = 9000, pe_last_seen = 0\<rparr>" using s(2) by simp
  from peers_authentic[OF r this] have "\<exists>cert k. (''ns'', example_nid, V6 1, cert) \<in> cw_regs ?w \<and> extract_public_key cert = Done (Some k)
           \<and> hex_encode toy_ext k = example_nid"
    by (simp add: load_persisted_peers_def)
  with r show ?thesis by blast
qed

section \<open>Handshake\<close>

text \<open>The coordinator as the channel client meets it.\<close>

definition channel_peer :: "ext \<Rightarrow> bytes \<Rightarrow> conn \<Rightarrow> conn_map \<Rightarrow> np2p_error \<Rightarrow> session_peer" where
  "channel_peer E nonce c m lost =
     \<lparr>sp_open = Ok (), sp_tx = (\<lambda>_. Ok ()),
      sp_rx = (\<lambda>sent. case sent of
          [NodeChannelRegister n] \<Rightarrow> Ok (hd (fst (accept_channel E n nonce False (Err lost) c m)))
        | [NodeChannelRegister n, r] \<Rightarrow> Ok (last (fst (accept_channel E n nonce True (Ok r) c m)))
        | _ \<Rightarrow> Err lost),
      sp_end = lost\<rparr>"

text \<open>Both ends of the channel handshake fit together: a node that registers under the id of its own
  key is accepted, ends up as the routing entry of that id, and its session lasts until the
  connection is lost; a node whose signature of the nonce does not verify under the id it claims is
  told 401 and leaves the routing table as it was.\<close>

theorem channel_handshake:
  assumes "hex_ok E" "ed25519_ok E" "length (signing_key i) = 32" "nid = hex_encode E key" "length key = 32"
  shows "(key = node_id E i \<longrightarrow>
       run_channel E sh nid i (DialOk (channel_peer E nonce c m lost)) = Err lost
       \<and> map_of (snd (accept_channel E nid nonce True (Ok (NodeChannelChallengeResponse (sign E i nonce))) c m)) nid = Some c)
    \<and> (\<not> verify_signature E key nonce (sign E i nonce) \<longrightarrow>
       run_channel E sh nid i (DialOk (channel_peer E nonce c m lost))
         = Err (Protocol (''Coordinator rejected channel: '' @ show_nat 401 @ '' '' @ ''Signature verification failed''))
       \<and> snd (accept_channel E nid nonce True (Ok (NodeChannelChallengeResponse (sign E i nonce))) c m) = m)"
proof -
  have d: "hex_decode E nid = Some key" using assms(1,4) by (simp add: hex_decode_encode)
  have "verify_signature E (node_id E i) nonce (sign E i nonce)"
    using assms(2,3) by (simp add: verify_signature_def node_id_def sign_def ed25519_ok_def)
  then show ?thesis
    by (auto simp: run_channel_def dialed_def channel_peer_def accept_channel_def d update_conv' Let_def)
qed

definition toy_node :: node_identity where "toy_node = from_secret toy_ext ''s''"
definition toy_nid :: string where "toy_nid = hex_encode toy_ext (node_id toy_ext toy_node)"

lemma toy_node_key: "length (signing_key toy_node) = 32" "length (node_id toy_ext toy_node) = 32"
proof -
  show s: "length (signing_key toy_node) = 32" by (simp add: toy_node_def from_secret_def blake3_len)
  then show "length (node_id toy_ext toy_node) = 32"
    using toy_ed25519_ok by (simp add: node_id_def ed25519_ok_def)
qed

theorem channel_handshake_witness:
  "run_channel toy_ext (\<lambda>m. []) toy_nid toy_node (DialOk (channel_peer toy_ext [1] 3 [] (Connection ''lost''))) = Err (Connection ''lost'')
   \<and> map_of (snd (accept_channel toy_ext toy_nid [1] True (Ok (NodeChannelChallengeResponse (sign toy_ext toy_node [1]))) 3 [])) toy_nid = Some 3"
  using channel_handshake[OF toy_hex_ok toy_ed25519_ok toy_node_key(1) toy_nid_def toy_node_key(2)] by simp

theorem connections_authenticated_and_current_witness:
  "\<exists>w. coord_reach toy_ext unary_platform open_cfg (world_start unary_platform 0 0 True Map.empty) w
     \<and> map_of (conn_log (cw_clog w)) toy_nid = Some 3 \<and> map_of (co_channels (cw_coord w)) toy_nid = Some 3"
proof -
  let ?r = "Ok (NodeChannelChallengeResponse (sign toy_ext toy_node [1])) :: msg result"
  obtain out t' where a: "accept_channel toy_ext toy_nid [1] True ?r 3 (co_channels (cw_coord start0)) = (out, t')"
    by (cases "accept_channel toy_ext toy_nid [1] True ?r 3 (co_channels (cw_coord start0))")
  have d: "hex_decode toy_ext toy_nid = Some (node_id toy_ext toy_node)"
    by (simp add: toy_nid_def hex_decode_encode)
  have v: "verify_signature toy_ext (node_id toy_ext toy_node) [1] (sign toy_ext toy_node [1])"
    using toy_ed25519_ok toy_node_key(1) by (simp add: verify_signature_def node_id_def sign_def ed25519_ok_def)
  have acc: "NodeChannelAccepted \<in> set out" using a by (auto simp: accept_channel_def d v)
  let ?w = "start0\<lparr>cw_coord := (cw_coord start0)\<lparr>co_channels := t'\<rparr>, cw_clog := (toy_nid, 3, [1], sign toy_ext toy_node [1]) # cw_clog start0\<rparr>"
  have "coord_step toy_ext unary_platform open_cfg start0 ?w"
    by (rule cs_channel[OF _ a]) (use acc in \<open>auto simp: start0_def world_start_def used_conns_def\<close>)
  then have r: "coord_reach toy_ext unary_platform open_cfg (world_start unary_platform 0 0 True Map.empty) ?w"
    using cr_step[OF cr_start] by (simp add: start0_def)
  have l: "map_of (conn_log (cw_clog ?w)) toy_nid = Some 3" "cw_closed ?w = {}"
    by (simp_all add: start0_def world_start_def)
  then have "map_of (co_channels (cw_coord ?w)) toy_nid = Some 3"
    using connections_authenticated_and_current[OF r, of toy_nid] by simp
  with r l(1) show ?thesis by blast
qed

section \<open>Relaying end to end\<close>

text \<open>A node on the other end of a relay stream: it reads one framed message and writes one back.\<close>

definition node_link :: "bincode \<Rightarrow> (msg \<Rightarrow> msg) \<Rightarrow> link" where
  "node_link B answer = \<lparr>lk_open = Ok (), lk_write = (\<lambda>_. Ok ()),
     lk_reply = (\<lambda>bs. case receive_frame B bs of
        Inr (m, _) \<Rightarrow> (case send_frame B (answer m) of Inr f \<Rightarrow> Finished f | Inl _ \<Rightarrow> Finished [])
      | Inl _ \<Rightarrow> Finished [])\<rparr>"

text \<open>The requester's side of the connection to the coordinator: the first reply on the stream.\<close>

definition coord_exchange :: "ext \<Rightarrow> platform \<Rightarrow> relay_env \<Rightarrow> coord_cfg \<Rightarrow> int \<Rightarrow> nat \<Rightarrow> ip \<Rightarrow> bytes option \<Rightarrow> coord \<Rightarrow> msg \<Rightarrow> msg result" where
  "coord_exchange E P V cfg now secs rip cert s req =
     (case coord_stream E P V cfg now secs rip cert s req of
        Done (r # _, _) \<Rightarrow> Ok r
      | _ \<Rightarrow> Err (Read ''stream finished early (0 bytes read)''))"

definition reachable_target :: "bincode \<Rightarrow> (msg \<Rightarrow> msg) \<Rightarrow> relay_env \<Rightarrow> int \<Rightarrow> nat \<Rightarrow> coord \<Rightarrow> string \<Rightarrow> bool" where
  "reachable_target B answer V now ttl s target =
     (case map_of (co_channels s) target of
        Some c \<Rightarrow> rv_link V c = node_link B answer
      | None \<Rightarrow> (case find_target now ttl (co_peers s) target of
                   Some a \<Rightarrow> rv_dial V a target = DialOk (node_link B answer)
                 | None \<Rightarrow> False))"

lemma node_link_reply:
  assumes "bincode_ok B" "serialize B m = Ok bs" "length bs \<le> MAX_RELAY_PAYLOAD"
    and "serialize B (answer m) = Ok rs" "length rs \<le> MAX_RELAY_PAYLOAD"
  shows "lk_reply (node_link B answer) (u32_be (length bs) @ bs) = Finished (u32_be (length rs) @ rs)"
proof -
  have sf: "send_frame B m = Ok (u32_be (length bs) @ bs)" "send_frame B (answer m) = Ok (u32_be (length rs) @ rs)"
    using assms(2-5) by (auto simp: send_frame_def MAX_MESSAGE_LEN_def MAX_RELAY_PAYLOAD_def)
  show ?thesis using wire.read_write[OF assms(1) sf(1), of "[]"] sf(2) by (simp add: node_link_def)
qed

lemma read_frame:
  "length rs \<le> MAX_RELAY_PAYLOAD \<Longrightarrow> read_into 4 (Finished (u32_be (length rs) @ rs)) = ReadOk (u32_be (length rs)) (Finished rs)
     \<and> u32_of_be (u32_be (length rs)) = length rs \<and> read_into (length rs) (Finished rs) = ReadOk rs (Finished [])"
  by (simp add: u32_roundtrip MAX_RELAY_PAYLOAD_def)

lemma link_answers:
  assumes "lk_open l = Ok ()" "\<forall>x. lk_write l x = Ok ()" "length rs \<le> MAX_RELAY_PAYLOAD"
    and "lk_reply l (u32_be (length bs) @ bs) = Finished (u32_be (length rs) @ rs)"
  shows "relay_via_channel l bs = [RelayResponse rs]" "direct_exchange l bs = Some (Ok rs)"
  using assms(1-3) read_frame[OF assms(3)]
  unfolding relay_via_channel_def direct_exchange_def Let_def assms(4) by simp_all

lemma relay_answers:
  assumes "bincode_ok B" "serialize B m = Ok bs" "length bs \<le> MAX_RELAY_PAYLOAD"
    and "serialize B (answer m) = Ok rs" "length rs \<le> MAX_RELAY_PAYLOAD"
    and "reachable_target B answer V now ttl s target"
  shows "relay V now ttl (co_peers s) (co_channels s) target bs = [RelayResponse rs]"
proof -
  have "lk_open (node_link B answer) = Ok ()" "\<forall>x. lk_write (node_link B answer) x = Ok ()"
    by (simp_all add: node_link_def)
  note l = link_answers[OF this assms(5) node_link_reply[OF assms(1-3) _ assms(5), of answer, OF assms(4)]]
  show ?thesis
    using assms(3,6) l by (auto simp: relay_def reachable_target_def split: option.splits)
qed


text \<open>The node of the example acknowledges, over its channel.\<close>

definition ack_env :: relay_env where
  "ack_env = idle_env\<lparr>rv_link := (\<lambda>c. node_link unit_bincode (\<lambda>m. m))\<rparr>"

definition channel_world :: coord where
  "channel_world = (cw_coord start0)\<lparr>co_channels := [(''n1'', 3)]\<rparr>"


text \<open>The two relay paths treat a broken answer differently.  When the target's stream ends after
  declaring a length and before delivering the bytes, the direct path reports the failure and
  sends nothing, but the channel path, which checks only the deadline and not the result of the
  read, answers the requester with a payload of that many zero bytes.\<close>

theorem channel_relay_fabricates_payload:
  "relay_via_channel \<lparr>lk_open = Ok (), lk_write = (\<lambda>_. Ok ()), lk_reply = (\<lambda>_. Finished [0, 0, 0, 3])\<rparr> [1]
     = [RelayResponse [0, 0, 0]]
   \<and> relay_via_channel \<lparr>lk_open = Ok (), lk_write = (\<lambda>_. Ok ()), lk_reply = (\<lambda>_. Finished [])\<rparr> [1] = [RelayResponse []]
   \<and> direct_exchange \<lparr>lk_open = Ok (), lk_write = (\<lambda>_. Ok ()), lk_reply = (\<lambda>_. Finished [0, 0, 0, 3])\<rparr> [1]
     = Some (Err ''stream finished early (0 bytes read)'')"
proof -
  have n: "u32_of_be [0, 0, 0, 3] = 3" "u32_of_be [0, 0, 0, 0] = 0" by (simp_all add: u32_of_be_def)
  have r: "replicate 3 (0 :: byte) = [0, 0, 0]" "replicate 4 (0 :: byte) = [0, 0, 0, 0]"
    by (simp_all add: numeral_eq_Suc)
  show ?thesis
    by (simp add: relay_via_channel_def direct_exchange_def n r MAX_RELAY_PAYLOAD_def early_msg_def show_nat.simps[of 0] std_simps)
qed

end
