(* ===== verification/Upload.thy ===== *)
theory Upload
  imports Coordinator Handler Engine "HOL-Library.Multiset"
begin

text \<open>
  \<open>src/p2p_upload.rs\<close>: choosing the nodes that hold a file's shards, storing, retrieving, deleting
  and listing shards on a remote node, and the in-memory and segmented uploads built from them.
  A connection is what opening a stream gives, what each send gives, and the replies a stream
  carries for what has been sent on it; errors of the transport are their renderings.
\<close>

section \<open>Recent stores\<close>

text \<open>Each function keeps its own function-local \<open>static\<close>.\<close>

type_synonym recent_map = "((string \<times> string) \<times> int) list"

record statics =
  st_noted :: recent_map
  st_checked :: recent_map

definition GRACE_MS :: nat where "GRACE_MS = 15 * 60 * 1000"

definition note_recent_store :: "int \<Rightarrow> statics \<Rightarrow> string \<Rightarrow> string \<Rightarrow> statics" where
  "note_recent_store now st nid shard_hash_hex =
     (let g = filter (\<lambda>(_, t). age_ms now t < GRACE_MS) (st_noted st) in
      if length g > 50000 then st\<lparr>st_noted := g\<rparr>
      else st\<lparr>st_noted := AList.update (nid, shard_hash_hex) now g\<rparr>)"

definition is_recently_stored :: "int \<Rightarrow> statics \<Rightarrow> string \<Rightarrow> string \<Rightarrow> bool" where
  "is_recently_stored now st nid shard_hash_hex =
     (case map_of (st_checked st) (nid, shard_hash_hex) of Some t \<Rightarrow> age_ms now t < GRACE_MS | None \<Rightarrow> False)"

section \<open>Node selection\<close>

definition score :: "ext \<Rightarrow> string \<Rightarrow> string \<Rightarrow> u64" where
  "score E id_hash nid = u64_of_le (take 8 (blake3 E (str_bytes (id_hash @ '':'' @ nid))))"

definition rendezvous_select :: "ext \<Rightarrow> string \<Rightarrow> (string \<times> sock_addr) list \<Rightarrow> nat \<Rightarrow> (string \<times> sock_addr) list" where
  "rendezvous_select E id_hash nodes k =
     (let scored = map (\<lambda>(i, (nid, _)). (score E id_hash nid, i)) (enumerate 0 nodes);
          ranked = sort_key (\<lambda>x. - int (unat (fst x))) scored
      in map (\<lambda>(_, i). nodes ! i) (take k ranked))"

section \<open>Connections\<close>

record peer_conn =
  pc_open :: "nat \<Rightarrow> string + unit"
  pc_tx :: "msg \<Rightarrow> string + unit"
  pc_replies :: "msg list \<Rightarrow> (string + msg) list"

definition rx :: "peer_conn \<Rightarrow> msg list \<Rightarrow> nat \<Rightarrow> string + msg" where
  "rx C sent k = (if k < length (pc_replies C sent) then pc_replies C sent ! k
     else Err ''stream finished early (0 bytes read)'')"

fun send_all :: "peer_conn \<Rightarrow> msg list \<Rightarrow> string + unit" where
  "send_all C [] = Ok ()"
| "send_all C (m # ms) = bind_res (pc_tx C m) (\<lambda>_. send_all C ms)"

record up_env =
  ue_connect :: "sock_addr \<Rightarrow> nat \<Rightarrow> nat \<Rightarrow> string + peer_conn"
  ue_show_msg :: "msg \<Rightarrow> string"
  ue_show_addr :: "sock_addr \<Rightarrow> string"
  ue_clock :: u64

definition CHUNK_MSG_SIZE :: nat where "CHUNK_MSG_SIZE = 16 * 1024 * 1024"
definition SEGMENT_THRESHOLD :: nat where "SEGMENT_THRESHOLD = 256 * 1024 * 1024"
definition SHARD_COUNT :: nat where "SHARD_COUNT = 5"
definition MIN_NODES_REQUIRED :: nat where "MIN_NODES_REQUIRED = 1"

section \<open>Storing a shard\<close>

definition init_msg :: "ext \<Rightarrow> up_env \<Rightarrow> node_identity \<Rightarrow> bytes \<Rightarrow> byte \<Rightarrow> msg" where
  "init_msg E U i file_hash idx =
     (let binding = blake3 E (file_hash @ [idx])
      in StoreShardStreamInit file_hash idx 0 0 (create_shard_token E (ue_clock U) i OpStore binding))"

definition upload_msgs :: "ext \<Rightarrow> up_env \<Rightarrow> node_identity \<Rightarrow> bytes \<Rightarrow> byte \<Rightarrow> bytes list \<Rightarrow> msg list" where
  "upload_msgs E U i file_hash idx chunks =
     init_msg E U i file_hash idx # map StoreShardChunk chunks @ [StoreShardStreamFinal (blake3 E (concat chunks))]"

definition store_attempt :: "ext \<Rightarrow> up_env \<Rightarrow> node_identity \<Rightarrow> bytes \<Rightarrow> byte \<Rightarrow> bytes \<Rightarrow> string + peer_conn \<Rightarrow> string + bool" where
  "store_attempt E U i file_hash idx shard_data conn =
     bind_res (map_err (\<lambda>e. ''connect failed: '' @ e) conn) (\<lambda>C.
     bind_res (map_err (\<lambda>e. ''open_bi failed: '' @ e) (pc_open C 0)) (\<lambda>_.
     let init = init_msg E U i file_hash idx;
         chunks = chunks_of CHUNK_MSG_SIZE shard_data;
         final = StoreShardStreamFinal (blake3 E (concat chunks)) in
     bind_res (pc_tx C init) (\<lambda>_.
     bind_res (rx C [init] 0) (\<lambda>ack.
       case ack of
         StoreShardStreamAck True \<Rightarrow>
           bind_res (send_all C (map StoreShardChunk chunks)) (\<lambda>_.
           bind_res (pc_tx C final) (\<lambda>_.
           bind_res (rx C (init # map StoreShardChunk chunks @ [final]) 1) (\<lambda>reply.
             case reply of
               StoreShardStreamResponse success available \<Rightarrow> Ok success
             | other \<Rightarrow> Err (''unexpected response: '' @ ue_show_msg U other))))
       | other \<Rightarrow> Err (''unexpected stream ack: '' @ ue_show_msg U other)))))"

text \<open>The retry loop: attempts until one is accepted, keeping the last error.\<close>

fun attempts :: "(nat \<Rightarrow> string + bool) \<Rightarrow> nat list \<Rightarrow> string \<Rightarrow> string + unit" where
  "attempts f [] last_err = Err last_err"
| "attempts f (k # ks) last_err =
     (case f k of
        Inr True \<Rightarrow> Ok ()
      | Inr False \<Rightarrow> attempts f ks ''node rejected shard''
      | Inl e \<Rightarrow> attempts f ks e)"

definition store_shard :: "ext \<Rightarrow> up_env \<Rightarrow> node_identity \<Rightarrow> sock_addr \<Rightarrow> bytes \<Rightarrow> byte \<Rightarrow> bytes \<Rightarrow> string + string" where
  "store_shard E U i addr file_hash idx shard_data =
     bind_res (attempts (\<lambda>k. store_attempt E U i file_hash idx shard_data (ue_connect U addr (unat idx) k)) [1, 2, 3] [])
       (\<lambda>_. Ok (hex_encode E (blake3 E shard_data)))"

section \<open>Retrieving a shard\<close>

datatype p2p_error =
    PeConnect string string
  | PeOpen string string
  | PeSend string
  | PeReceive string
  | PeUnexpected string
  | PeNotFound
  | PeInvalidHash string string

fun show_p2p_error :: "p2p_error \<Rightarrow> string" where
  "show_p2p_error (PeConnect addr err) = ''connection to '' @ addr @ '' failed: '' @ err"
| "show_p2p_error (PeOpen addr m) = ''open_bi to '' @ addr @ '' failed: '' @ m"
| "show_p2p_error (PeSend m) = ''send failed: '' @ m"
| "show_p2p_error (PeReceive m) = ''receive failed: '' @ m"
| "show_p2p_error (PeUnexpected m) = ''unexpected protocol response: '' @ m"
| "show_p2p_error PeNotFound = ''shard not found / rejected by node''"
| "show_p2p_error (PeInvalidHash h m) = ''invalid shard hash `'' @ h @ ''`: '' @ m"

text \<open>The loop over the stream's chunks; the replies that will arrive are a list, whose end is the error
  of a finished stream.\<close>

fun receive_chunks :: "ext \<Rightarrow> up_env \<Rightarrow> bytes \<Rightarrow> (string + msg) list \<Rightarrow> bytes \<Rightarrow> p2p_error + bytes" where
  "receive_chunks E U h [] acc = Err (PeReceive ''stream finished early (0 bytes read)'')"
| "receive_chunks E U h (r # rs) acc =
     (case r of
        Inr (RetrieveShardChunk chunk) \<Rightarrow> receive_chunks E U h rs (acc @ chunk)
      | Inr (RetrieveShardStreamFinal expected) \<Rightarrow>
          if blake3 E acc = expected \<and> blake3 E acc = h then Ok acc else Err (PeReceive ''Hash mismatch in stream'')
      | Inr other \<Rightarrow> Err (PeReceive (''Unexpected stream message: '' @ ue_show_msg U other))
      | Inl e \<Rightarrow> Err (PeReceive e))"

text \<open>\<open>Vec::with_capacity\<close> panics when the announced size exceeds what an allocation may have.\<close>

definition stream_retrieve :: "ext \<Rightarrow> up_env \<Rightarrow> sock_addr \<Rightarrow> peer_conn \<Rightarrow> bytes \<Rightarrow> shard_token \<Rightarrow> (p2p_error + bytes option) outcome" where
  "stream_retrieve E U addr C h token =
     (case pc_open C 0 of
        Inl e \<Rightarrow> Done (Err (PeOpen (ue_show_addr U addr) e))
      | Inr _ \<Rightarrow>
          (case pc_tx C (RetrieveShardStreamInit h token) of
             Inl e \<Rightarrow> Done (Err (PeSend e))
           | Inr _ \<Rightarrow>
               (case pc_replies C [RetrieveShardStreamInit h token] of
                  Inr (RetrieveShardStreamAck True total_bytes) # rs \<Rightarrow>
                    if total_bytes \<ge> 2 ^ 63 then Panic
                    else Done (bind_res (receive_chunks E U h rs []) (\<lambda>data. Ok (Some data)))
                | Inr (RetrieveShardStreamAck False total_bytes) # rs \<Rightarrow> Done (Err PeNotFound)
                | _ \<Rightarrow> Done (Ok None))))"

definition legacy_retrieve :: "up_env \<Rightarrow> sock_addr \<Rightarrow> peer_conn \<Rightarrow> bytes \<Rightarrow> shard_token \<Rightarrow> p2p_error + bytes" where
  "legacy_retrieve U addr C h token =
     bind_res (map_err (PeOpen (ue_show_addr U addr)) (pc_open C 1)) (\<lambda>_.
     bind_res (map_err PeSend (pc_tx C (RetrieveShardRequest h token))) (\<lambda>_.
       case rx C [RetrieveShardRequest h token] 0 of
         Inr (RetrieveShardResponse h' (Some data)) \<Rightarrow> Ok data
       | Inr _ \<Rightarrow> Err PeNotFound
       | Inl e \<Rightarrow> Err (PeReceive e)))"

definition retrieve_shard :: "ext \<Rightarrow> up_env \<Rightarrow> (string \<Rightarrow> string) \<Rightarrow> node_identity \<Rightarrow> sock_addr \<Rightarrow> string \<Rightarrow> (string + bytes) outcome" where
  "retrieve_shard E U hex_err i addr shard_hash_hex =
     (case hex_decode E shard_hash_hex of
        None \<Rightarrow> Done (Err (show_p2p_error (PeInvalidHash shard_hash_hex (hex_err shard_hash_hex))))
      | Some h \<Rightarrow>
          if length h \<noteq> 32 then Done (Err (show_p2p_error (PeInvalidHash shard_hash_hex ''wrong byte length'')))
          else (case ue_connect U addr 0 0 of
                  Inl e \<Rightarrow> Done (Err (show_p2p_error (PeConnect (ue_show_addr U addr) e)))
                | Inr C \<Rightarrow>
                    let token = create_shard_token E (ue_clock U) i OpRetrieve h in
                    bind_out (stream_retrieve E U addr C h token) (\<lambda>stream_attempt. Done (
                      case stream_attempt of
                        Inr (Some data) \<Rightarrow> Ok data
                      | Inl PeNotFound \<Rightarrow> Err (show_p2p_error PeNotFound)
                      | _ \<Rightarrow> map_err show_p2p_error (legacy_retrieve U addr C h token)))))"

section \<open>Deleting and listing\<close>

definition delete_shard_remote :: "ext \<Rightarrow> up_env \<Rightarrow> node_identity \<Rightarrow> sock_addr \<Rightarrow> string \<Rightarrow> string + bool" where
  "delete_shard_remote E U i addr shard_hash_hex =
     (case hex_decode E shard_hash_hex of
        None \<Rightarrow> Err (''invalid shard hash hex '' @ shard_hash_hex)
      | Some h \<Rightarrow>
          if length h \<noteq> 32 then Err (''invalid shard hash hex '' @ shard_hash_hex)
          else bind_res (ue_connect U addr 0 0) (\<lambda>C. bind_res (pc_open C 0) (\<lambda>_.
            let m = DeleteShardRequest h (create_shard_token E (ue_clock U) i OpDelete h) in
            bind_res (pc_tx C m) (\<lambda>_. bind_res (rx C [m] 0) (\<lambda>reply.
              case reply of
                DeleteShardResponse h' success \<Rightarrow> Ok success
              | other \<Rightarrow> Err (''unexpected delete response: '' @ ue_show_msg U other))))))"

definition list_remote_shards :: "ext \<Rightarrow> up_env \<Rightarrow> node_identity \<Rightarrow> sock_addr \<Rightarrow> string option \<Rightarrow> string + bytes list \<times> nat" where
  "list_remote_shards E U i addr pfx =
     bind_res (ue_connect U addr 0 0) (\<lambda>C. bind_res (pc_open C 0) (\<lambda>_.
       let scope_bytes = blake3 E (str_bytes (case pfx of None \<Rightarrow> [] | Some p \<Rightarrow> p));
           m = ListShardsRequest pfx (create_shard_token E (ue_clock U) i OpList scope_bytes) in
       bind_res (pc_tx C m) (\<lambda>_. bind_res (rx C [m] 0) (\<lambda>reply.
         case reply of
           ListShardsResponse p shards available \<Rightarrow> Ok (shards, available)
         | MsgError code message \<Rightarrow> Err message
         | other \<Rightarrow> Err (''unexpected list shards response: '' @ ue_show_msg U other)))))"

section \<open>Uploading a file\<close>

record uploaded_shard =
  us_idx :: nat
  us_node_id :: string
  us_addr :: string
  us_hash :: string

definition uploaded :: "up_env \<Rightarrow> (string \<times> sock_addr) list \<Rightarrow> nat \<Rightarrow> string \<Rightarrow> uploaded_shard" where
  "uploaded U target_nodes idx h =
     (let (nid, addr) = target_nodes ! (idx mod length target_nodes)
      in \<lparr>us_idx = idx, us_node_id = nid, us_addr = ue_show_addr U addr, us_hash = h\<rparr>)"

text \<open>\<open>order\<close> is the order in which the tasks finish.\<close>

definition upload_inmemory :: "ext \<Rightarrow> up_env \<Rightarrow> node_identity \<Rightarrow> nat list \<Rightarrow> (string \<times> sock_addr) list \<Rightarrow> string \<Rightarrow> bytes list
    \<Rightarrow> uploaded_shard list outcome" where
  "upload_inmemory E U i order nodes id_hash shards =
     (let file_hash = blake3 E (str_bytes id_hash);
          target_nodes = rendezvous_select E id_hash nodes (max (min (length shards) (length nodes)) 1) in
      if target_nodes = [] \<and> shards \<noteq> [] then Panic
      else Done (List.map_filter (\<lambda>idx.
             case store_shard E U i (snd (target_nodes ! (idx mod length target_nodes))) file_hash (word_of_nat idx) (shards ! idx) of
               Inr h \<Rightarrow> Some (uploaded U target_nodes idx h)
             | Inl e \<Rightarrow> None) order))"

definition stream_one_shard :: "ext \<Rightarrow> up_env \<Rightarrow> node_identity \<Rightarrow> sock_addr \<Rightarrow> bytes \<Rightarrow> nat \<Rightarrow> bytes list \<Rightarrow> string + string" where
  "stream_one_shard E U i addr file_hash idx chunks =
     bind_res (ue_connect U addr idx 1) (\<lambda>C. bind_res (pc_open C 0) (\<lambda>_.
     let init = init_msg E U i file_hash (word_of_nat idx);
         final = StoreShardStreamFinal (blake3 E (concat chunks)) in
     bind_res (pc_tx C init) (\<lambda>_.
     bind_res (rx C [init] 0) (\<lambda>ack.
       case ack of
         StoreShardStreamAck True \<Rightarrow>
           bind_res (send_all C (map StoreShardChunk chunks)) (\<lambda>_.
           bind_res (pc_tx C final) (\<lambda>_.
           bind_res (rx C (init # map StoreShardChunk chunks @ [final]) 1) (\<lambda>reply.
             case reply of
               StoreShardStreamResponse success available \<Rightarrow>
                 if success then Ok (hex_encode E (blake3 E (concat chunks)))
                 else Err ''node rejected shard stream (success=false)''
             | other \<Rightarrow> Err (''node rejected shard stream: '' @ ue_show_msg U other))))
       | other \<Rightarrow> Err (''unexpected stream ack: '' @ ue_show_msg U other)))))"

text \<open>\<open>read_full\<close> over the results of successive reads: bytes (none at the end of the file) or an error.  A
  read never returns more than the space left in the buffer.\<close>

fun read_full :: "nat \<Rightarrow> (string + bytes) list \<Rightarrow> (string + bytes) \<times> (string + bytes) list" where
  "read_full n [] = (Ok [], [])"
| "read_full n (Inl e # rs) = (if n = 0 then (Ok [], Inl e # rs) else (Err e, rs))"
| "read_full n (Inr b # rs) =
     (if n = 0 then (Ok [], Inr b # rs)
      else if b = [] then (Ok [], rs)
      else if length b \<le> n
      then (case read_full (n - length b) rs of
              (Inr tail, rest) \<Rightarrow> (Ok (b @ tail), rest)
            | (Inl e, rest) \<Rightarrow> (Err e, rest))
      else (Ok (take n b), Inr (drop n b) # rs))"

definition u32_le :: "nat \<Rightarrow> bytes" where
  "u32_le n = rev (u32_be n)"

definition reads_size :: "(string + bytes) list \<Rightarrow> nat" where
  "reads_size rs = sum_list (map (\<lambda>r. case r of Inr b \<Rightarrow> length b + 1 | Inl e \<Rightarrow> 1) rs)"

lemma read_full_size:
  "read_full n rs = (Ok b, rest) \<Longrightarrow> reads_size rest \<le> reads_size rs \<and> (b \<noteq> [] \<longrightarrow> reads_size rest < reads_size rs)"
proof (induction n rs arbitrary: b rest rule: read_full.induct)
  case (3 n c rs)
  then show ?case
    by (cases "n = 0"; cases "c = []"; cases "length c \<le> n"; fastforce simp: reads_size_def split: prod.splits sum.splits)
qed (auto simp: reads_size_def split: if_splits)

text \<open>The loop of \<open>upload_segmented\<close>: one encrypted and sharded segment per full buffer.\<close>

function seg_loop :: "ext \<Rightarrow> (np2p_error \<Rightarrow> string) \<Rightarrow> bytes \<Rightarrow> nat \<Rightarrow> nat \<Rightarrow> nat \<Rightarrow> (string + bytes) list \<Rightarrow> string + (bytes list \<times> nat) list" where
  "seg_loop E show_err key d p seg_idx rs =
     (case read_full SEGMENT_THRESHOLD rs of
        (Inl e, _) \<Rightarrow> Err e
      | (Inr buf, rest) \<Rightarrow>
          if buf = [] then Ok []
          else bind_res (map_err show_err (process_for_backup E buf key (key @ u32_le seg_idx) d p)) (\<lambda>seg.
               bind_res (seg_loop E show_err key d p (seg_idx + 1) rest) (\<lambda>segs. Ok (seg # segs))))"
  by pat_completeness auto
termination
  by (relation "measure (\<lambda>(E, s, k, d, p, i, rs). reads_size rs)") (auto dest!: sym[THEN read_full_size])

declare seg_loop.simps [simp del]

text \<open>What is fanned out to the stream of one shard.\<close>

definition shard_stream :: "(bytes list \<times> nat) list \<Rightarrow> nat \<Rightarrow> bytes list" where
  "shard_stream segs idx = concat (map (\<lambda>(sub_shards, _). chunks_of CHUNK_MSG_SIZE (sub_shards ! idx)) segs)"

definition upload_segmented :: "ext \<Rightarrow> up_env \<Rightarrow> (np2p_error \<Rightarrow> string) \<Rightarrow> node_identity \<Rightarrow> (string \<times> sock_addr) list \<Rightarrow> string
    \<Rightarrow> string + (string + bytes) list \<Rightarrow> bytes \<Rightarrow> nat \<Rightarrow> nat \<Rightarrow> (string + uploaded_shard list \<times> nat list) outcome" where
  "upload_segmented E U show_err i nodes id_hash file key d p =
     (let file_hash = blake3 E (str_bytes id_hash);
          total_shards = d + p;
          target_nodes = rendezvous_select E id_hash nodes (max (min total_shards (length nodes)) 1) in
      if target_nodes = [] \<and> total_shards \<noteq> 0 then Panic
      else Done (bind_res file (\<lambda>reads.
        bind_res (seg_loop E show_err key d p 0 reads) (\<lambda>segs.
          Ok (List.map_filter (\<lambda>idx.
                case stream_one_shard E U i (snd (target_nodes ! (idx mod length target_nodes))) file_hash idx (shard_stream segs idx) of
                  Inr h \<Rightarrow> Some (uploaded U target_nodes idx h)
                | Inl e \<Rightarrow> None) [0..<total_shards],
              map snd segs)))))"

section \<open>Lemmas on node selection\<close>

definition rank :: "ext \<Rightarrow> string \<Rightarrow> string \<times> sock_addr \<Rightarrow> int" where
  "rank E id_hash n = - int (unat (score E id_hash (fst n)))"

lemma sort_key_map: "sort_key f (map g xs) = map g (sort_key (f \<circ> g) xs)"
proof (induction xs)
  case (Cons x xs)
  have "insort_key f (g x) (map g ys) = map g (insort_key (f \<circ> g) x ys)" for ys
    by (induction ys) auto
  then show ?case using Cons by (simp add: o_def)
qed simp

lemma rendezvous_ranked: "rendezvous_select E id_hash nodes k = take k (sort_key (rank E id_hash) nodes)"
proof -
  let ?s = "\<lambda>(i, (nid, a)). (score E id_hash nid, i)"
  have n: "map (\<lambda>(i, n). nodes ! i) xs = map snd xs" if "set xs \<subseteq> set (enumerate 0 nodes)" for xs
    using that by (auto simp: in_set_enumerate_eq)
  have "map (\<lambda>(_, i). nodes ! i) (sort_key (\<lambda>x. - int (unat (fst x))) (map ?s (enumerate 0 nodes)))
      = map (\<lambda>(i, n). nodes ! i) (sort_key (\<lambda>(i, n). rank E id_hash n) (enumerate 0 nodes))"
    unfolding sort_key_map by (simp add: o_def case_prod_unfold rank_def)
  also have "\<dots> = map snd (sort_key (\<lambda>(i, n). rank E id_hash n) (enumerate 0 nodes))"
    by (rule n) simp
  also have "\<dots> = sort_key (rank E id_hash) (map snd (enumerate 0 nodes))"
    unfolding sort_key_map by (simp add: o_def case_prod_unfold)
  finally show ?thesis
    by (simp add: rendezvous_select_def Let_def take_map[symmetric])
qed

lemma take_insort_subset: "set (take k (insort_key f x ys)) \<subseteq> insert x (set (take k ys))"
proof (induction ys arbitrary: k)
  case Nil
  then show ?case by (cases k) auto
next
  case (Cons y ys)
  have "set (take j ys) \<subseteq> set (take (Suc j) (y # ys))" for j by auto
  moreover have "set (take (k - 1) (y # ys)) \<subseteq> set (take k (y # ys))" by (rule set_take_subset_set_take) simp
  ultimately show ?case using Cons.IH[of "k - 1"] by (cases k) (auto split: if_splits)
qed

lemma take_pred_insort: "set (take (k - 1) ys) \<subseteq> set (take k (insort_key f x ys))"
proof (induction ys arbitrary: k)
  case (Cons y ys)
  have "set (take (k - 1) (y # ys)) \<subseteq> set (take k (x # y # ys))" by (cases k) auto
  then show ?case using Cons.IH[of "k - 1"] by (cases k; cases "k - 1") auto
qed simp

lemma take_last_diff: "set (take k ys) - set (take (k - 1) ys) \<subseteq> {ys ! (k - 1)}"
proof (cases "k - 1 < length ys")
  case True
  then show ?thesis by (cases k) (auto simp: take_Suc_conv_app_nth)
qed simp

section \<open>Properties of node selection\<close>

text \<open>Rendezvous selection is stable.  It picks as many nodes as asked for or as there are, each from the
  given list and never twice; adding a node displaces at most one node of the old selection, and
  brings in none but the new one; and when no two nodes tie, the selection does not depend on the
  order of the list, which for the registry is the iteration order of a hash map.\<close>

theorem rendezvous_stable:
  assumes "distinct nodes"
  shows "length (rendezvous_select E id_hash nodes k) = min k (length nodes)
    \<and> set (rendezvous_select E id_hash nodes k) \<subseteq> set nodes \<and> distinct (rendezvous_select E id_hash nodes k)
    \<and> set (rendezvous_select E id_hash (x # nodes) k) \<subseteq> insert x (set (rendezvous_select E id_hash nodes k))
    \<and> card (set (rendezvous_select E id_hash nodes k) - set (rendezvous_select E id_hash (x # nodes) k)) \<le> 1
    \<and> (inj_on (\<lambda>n. score E id_hash (fst n)) (set nodes) \<and> mset nodes' = mset nodes \<longrightarrow>
         rendezvous_select E id_hash nodes' k = rendezvous_select E id_hash nodes k)"
proof (intro conjI impI)
  let ?s = "sort_key (rank E id_hash) nodes"
  show "length (rendezvous_select E id_hash nodes k) = min k (length nodes)" by (simp add: rendezvous_ranked min.commute)
  show "set (rendezvous_select E id_hash nodes k) \<subseteq> set nodes"
    unfolding rendezvous_ranked using set_take_subset[of k ?s] by simp
  show "distinct (rendezvous_select E id_hash nodes k)" using assms by (simp add: rendezvous_ranked)
  show "set (rendezvous_select E id_hash (x # nodes) k) \<subseteq> insert x (set (rendezvous_select E id_hash nodes k))"
    unfolding rendezvous_ranked using take_insort_subset[of k "rank E id_hash" x ?s] by simp
  have "set (take k ?s) - set (take k (insort_key (rank E id_hash) x ?s)) \<subseteq> {?s ! (k - 1)}"
    using take_last_diff[of k ?s] take_pred_insort[of k ?s "rank E id_hash" x] by blast
  then show "card (set (rendezvous_select E id_hash nodes k) - set (rendezvous_select E id_hash (x # nodes) k)) \<le> 1"
    unfolding rendezvous_ranked by (simp add: card_mono[of "{_}", simplified])
  assume h: "inj_on (\<lambda>n. score E id_hash (fst n)) (set nodes) \<and> mset nodes' = mset nodes"
  have "rank E id_hash m = rank E id_hash n \<longleftrightarrow> score E id_hash (fst m) = score E id_hash (fst n)" for m n
    by (simp add: rank_def word_uint_eq_iff)
  moreover have "set nodes' = set nodes" using h by (metis mset_eq_setD)
  ultimately have "inj_on (rank E id_hash) (set nodes')" using h by (simp add: inj_on_def)
  then have "sort_key (rank E id_hash) nodes' = ?s"
    using h by (intro sort_key_inj_key_eq) auto
  then show "rendezvous_select E id_hash nodes' k = rendezvous_select E id_hash nodes k"
    by (simp add: rendezvous_ranked)
qed

definition three_nodes :: "(string \<times> sock_addr) list" where
  "three_nodes = [(''a'', \<lparr>sa_ip = V6 1, sa_port = 1\<rparr>), (''b'', \<lparr>sa_ip = V6 2, sa_port = 1\<rparr>), (''c'', \<lparr>sa_ip = V6 3, sa_port = 1\<rparr>)]"

theorem rendezvous_stable_witness:
  "length (rendezvous_select toy_ext ''f'' three_nodes 2) = 2
   \<and> card (set (rendezvous_select toy_ext ''f'' three_nodes 2)
       - set (rendezvous_select toy_ext ''f'' ((''d'', \<lparr>sa_ip = V6 4, sa_port = 1\<rparr>) # three_nodes) 2)) \<le> 1"
proof -
  have "distinct three_nodes" by (simp add: three_nodes_def)
  from rendezvous_stable[OF this, of toy_ext "''f''" 2 "(''d'', \<lparr>sa_ip = V6 4, sa_port = 1\<rparr>)" "[]"]
  show ?thesis by (simp add: three_nodes_def)
qed

section \<open>The grace period\<close>

text \<open>The grace period that should protect fresh uploads from the audit sweep never applies: the
  function that notes a store and the function that asks about it each own a private table, and
  nothing ever writes the second, so after any sequence of stores no shard counts as recently
  stored, not even one stored at this very instant.\<close>

theorem grace_period_never_applies:
  "\<not> is_recently_stored now
      (fold (\<lambda>(t, nid, h) st. note_recent_store t st nid h) stores \<lparr>st_noted = [], st_checked = []\<rparr>) nid h"
proof -
  have "st_checked (fold (\<lambda>(t, nid, h) st. note_recent_store t st nid h) stores st) = st_checked st" for st
    by (induction stores arbitrary: st) (auto simp: note_recent_store_def Let_def)
  then show ?thesis by (simp add: is_recently_stored_def)
qed

section \<open>Talking to a storage node\<close>

text \<open>A storage node as the other end of a connection: the replies its handler gives to a stream.\<close>

definition stream_of :: "msg list \<Rightarrow> frame list" where
  "stream_of ms = map (\<lambda>m. Received (Ok m)) ms"

definition node_conn :: "ext \<Rightarrow> node \<Rightarrow> hctx \<Rightarrow> bytes \<Rightarrow> disk \<Rightarrow> peer_conn" where
  "node_conn E nd x salt d =
     \<lparr>pc_open = (\<lambda>_. Ok ()), pc_tx = (\<lambda>_. Ok ()),
      pc_replies = (\<lambda>sent. case sent of
          [] \<Rightarrow> []
        | m # ms \<Rightarrow> map Inr (fst (fst (handle_stream E nd x salt d (Received (Ok m)) (stream_of ms)))))\<rparr>"

text \<open>A node that accepts this client's tokens, and a client and node whose clocks agree.\<close>

definition trusts :: "ext \<Rightarrow> node \<Rightarrow> hctx \<Rightarrow> up_env \<Rightarrow> node_identity \<Rightarrow> bool" where
  "trusts E nd x U i \<longleftrightarrow> (nd_allowed nd = None \<or> nd_allowed nd = Some (node_id E i))
     \<and> unat (hx_clock x) \<le> unat (ue_clock U) + 300 \<and> unat (ue_clock U) \<le> unat (hx_clock x) + 300
     \<and> length (signing_key i) = 32"

lemma trusts_authorized:
  assumes "ed25519_ok E" "trusts E nd x U i"
  shows "authorized E nd x (create_shard_token E (ue_clock U) i op h) op h"
proof -
  have "verify_signature E (node_id E i) m (sign E i m)" for m
    using assms by (simp add: verify_signature_def node_id_def sign_def ed25519_ok_def trusts_def)
  then show ?thesis
    using assms(2) abs_diff_le_iff[of "hx_clock x" "ue_clock U" 300]
    by (auto simp: authorized_def verify_shard_token_def create_shard_token_def trusts_def Let_def)
qed

lemma send_all_ok: "\<forall>m. pc_tx C m = Ok () \<Longrightarrow> send_all C ms = Ok ()"
  by (induction ms) auto

lemma node_upload_replies:
  assumes "hex_ok E" "ed25519_ok E" "quiet_ctx x" "trusts E nd x U i"
    and "temp_at d (temp_path E (blake3 E (fh @ [idx] @ salt))) = None"
    and "cs \<noteq> []" "length (concat cs) \<le> MAX_SHARD_BYTES"
  shows "pc_replies (node_conn E nd x salt d) [init_msg E U i fh idx] = [Inr (StoreShardStreamAck True)]"
    "pc_replies (node_conn E nd x salt d) (upload_msgs E U i fh idx cs)
       = [Inr (StoreShardStreamAck True), Inr (StoreShardStreamResponse True (available_space (hx_io x)))]"
    "\<exists>out d'. handle_stream E nd x salt d (Received (Ok (init_msg E U i fh idx))) (stream_of (tl (upload_msgs E U i fh idx cs))) = (out, d')
       \<and> shard_at E d' = (shard_at E d)(blake3 E (concat cs) \<mapsto> concat cs)"
proof -
  have a: "authorized E nd x (create_shard_token E (ue_clock U) i OpStore (blake3 E (fh @ [idx]))) OpStore (blake3 E (fh @ [idx]))"
    by (rule trusts_authorized[OF assms(2,4)])
  then have m: "msg_authorized E nd x (StoreShardStreamInit fh idx 0 0 (create_shard_token E (ue_clock U) i OpStore (blake3 E (fh @ [idx]))))"
    by (simp add: msg_authorized_def)
  have f: "stream_of (tl (upload_msgs E U i fh idx cs)) =
      map (\<lambda>c. Received (Ok (StoreShardChunk c))) cs @ [Received (Ok (StoreShardStreamFinal (blake3 E (concat cs))))]"
    by (simp add: upload_msgs_def stream_of_def o_def)
  obtain d' where u: "handle_stream E nd x salt d (Received (Ok (init_msg E U i fh idx))) (stream_of (tl (upload_msgs E U i fh idx cs)))
        = (([StoreShardStreamAck True, StoreShardStreamResponse True (available_space (hx_io x))], Ok ()), d')"
      "shard_at E d' = (shard_at E d)(blake3 E (concat cs) \<mapsto> concat cs)"
    unfolding f init_msg_def Let_def
    using upload_stream_ok[OF assms(1,3) m _ assms(5-7) refl] by (metis le0)
  then show "\<exists>out d'. handle_stream E nd x salt d (Received (Ok (init_msg E U i fh idx))) (stream_of (tl (upload_msgs E U i fh idx cs))) = (out, d')
       \<and> shard_at E d' = (shard_at E d)(blake3 E (concat cs) \<mapsto> concat cs)" by blast
  show "pc_replies (node_conn E nd x salt d) (upload_msgs E U i fh idx cs)
       = [Inr (StoreShardStreamAck True), Inr (StoreShardStreamResponse True (available_space (hx_io x)))]"
    using u(1) by (simp add: node_conn_def upload_msgs_def)
  show "pc_replies (node_conn E nd x salt d) [init_msg E U i fh idx] = [Inr (StoreShardStreamAck True)]"
    using a by (simp add: node_conn_def init_msg_def stream_of_def handle_stream_def stream_init_def Let_def
        quiet_send_seq[OF assms(3)] stream_frame_def del: send_seq.simps)
qed

lemma store_attempt_accepted:
  assumes "pc_open C 0 = Ok ()" "\<forall>m. pc_tx C m = Ok ()"
    and "pc_replies C [init_msg E U i fh idx] = [Inr (StoreShardStreamAck True)]"
    and "pc_replies C (upload_msgs E U i fh idx (chunks_of CHUNK_MSG_SIZE data))
       = [Inr (StoreShardStreamAck True), Inr (StoreShardStreamResponse True n)]"
  shows "store_attempt E U i fh idx data (Ok C) = Ok True"
  using assms by (simp add: store_attempt_def rx_def Let_def send_all_ok upload_msgs_def)

lemma attempts_first_ok: "f 1 = Ok True \<Longrightarrow> attempts f [1, 2, 3] e = Ok ()"
  by simp

lemma CHUNK_pos: "0 < CHUNK_MSG_SIZE"
  by (simp add: CHUNK_MSG_SIZE_def)

lemma chunks_nonempty: "0 < n \<Longrightarrow> xs \<noteq> [] \<Longrightarrow> chunks_of n xs \<noteq> []"
  by (simp add: chunks_of.simps[of n xs])

lemma receive_chunks_ok:
  "blake3 E (acc @ concat cs) = h \<Longrightarrow>
     receive_chunks E U h (map (\<lambda>c. Inr (RetrieveShardChunk c)) cs @ [Inr (RetrieveShardStreamFinal h)]) acc = Ok (acc @ concat cs)"
  by (induction cs arbitrary: acc) auto

lemma receive_chunks_verified: "receive_chunks E U h rs acc = Ok v \<Longrightarrow> blake3 E v = h"
  by (induction E U h rs acc rule: receive_chunks.induct) (auto split: sum.splits msg.splits if_splits)

lemma node_conn_io: "pc_open (node_conn E nd x salt d) k = Ok ()" "pc_tx (node_conn E nd x salt d) m = Ok ()"
  by (simp_all add: node_conn_def)

lemma retrieve_from_node:
  assumes "hex_ok E" "blake3_ok E" "ed25519_ok E" "quiet_ctx x" "trusts E nd x U i"
    and "\<forall>f. snd (hx_read x f) = None \<and> concat (fst (hx_read x f)) = f"
    and "node_reach E nd s" "shard_at E (ns_disk s) (blake3 E data) = Some data" "length data \<le> MAX_SHARD_BYTES"
    and "ue_connect U addr 0 0 = Ok (node_conn E nd x salt (ns_disk s))"
  shows "retrieve_shard E U hex_err i addr (hex_encode E (blake3 E data)) = Done (Ok data)"
proof -
  let ?h = "blake3 E data"
  let ?t = "create_shard_token E (ue_clock U) i OpRetrieve ?h"
  have m: "msg_authorized E nd x (RetrieveShardStreamInit ?h ?t)"
    using trusts_authorized[OF assms(3,5)] by (simp add: msg_authorized_def)
  obtain cs where cs: "concat cs = data" "handle_message E nd x (ns_disk s) (RetrieveShardStreamInit ?h ?t)
      = (([RetrieveShardStreamAck True (length data)] @ map RetrieveShardChunk cs @ [RetrieveShardStreamFinal ?h], Ok ()), ns_disk s)"
    using download_stream_ok[OF assms(1,7,4) m assms(6)] assms(8) by auto
  have r: "pc_replies (node_conn E nd x salt (ns_disk s)) [RetrieveShardStreamInit ?h ?t]
      = Inr (RetrieveShardStreamAck True (length data)) # map (\<lambda>c. Inr (RetrieveShardChunk c)) cs @ [Inr (RetrieveShardStreamFinal ?h)]"
    using cs(2) by (simp add: node_conn_def stream_of_def handle_stream_def o_def)
  have "length data < 2 ^ 63" using assms(9) by (simp add: MAX_SHARD_BYTES_def)
  moreover have "receive_chunks E U ?h (map (\<lambda>c. Inr (RetrieveShardChunk c)) cs @ [Inr (RetrieveShardStreamFinal ?h)]) [] = Ok data"
    using receive_chunks_ok[of E "[]" cs ?h U] cs(1) by simp
  ultimately have "stream_retrieve E U addr (node_conn E nd x salt (ns_disk s)) ?h ?t = Done (Ok (Some data))"
    using node_conn_io[of E nd x salt "ns_disk s"] by (simp add: stream_retrieve_def r)
  then show ?thesis
    using assms(10) blake3_len[OF assms(2)] by (simp add: retrieve_shard_def hex_decode_encode[OF assms(1)] Let_def)
qed


definition toy_env :: up_env where
  "toy_env = \<lparr>ue_connect = (\<lambda>a k n. Ok (node_conn toy_ext open_node idle_ctx [1] fresh_disk)),
     ue_show_msg = (\<lambda>m. []), ue_show_addr = (\<lambda>a. []), ue_clock = 1000\<rparr>"


end
