(* ===== verification/KeyEnvelope.thy ===== *)
theory KeyEnvelope
  imports Encryption
begin

text \<open>
  Wrapping under the account secret: the envelopes of per-file keys (\<open>src/utils.rs\<close>, with the three
  formats found in the database and the process-wide cache of the derived master key), and the
  encryption of database manifests for the mesh (\<open>src/db_restore.rs\<close>).  Both satisfy the contract
  \<open>secret_wrapping\<close>.  SHA-256, used by the oldest format only, is a parameter.
\<close>

section \<open>The interface\<close>

locale secret_wrapping =
  fixes usable :: "ext \<Rightarrow> bool"
    and fits :: "bytes \<Rightarrow> bool"
    and salted :: "bytes \<Rightarrow> bool"
    and wrap :: "ext \<Rightarrow> bytes \<Rightarrow> string \<Rightarrow> bytes \<Rightarrow> string + bytes"
    and unwrap :: "ext \<Rightarrow> bytes \<Rightarrow> string \<Rightarrow> string + bytes"
  assumes wrap_total: "usable E \<Longrightarrow> fits d \<Longrightarrow> salted s \<Longrightarrow> \<exists>c. wrap E d secret s = Ok c"
    and unwrap_wrap: "usable E \<Longrightarrow> fits d \<Longrightarrow> salted s \<Longrightarrow> wrap E d secret s = Ok c \<Longrightarrow> unwrap E c secret = Ok d"
begin

lemma wrapped_once:
  assumes "usable E" "fits d" "fits d'" "salted s" "salted s'" "wrap E d secret s = Ok c" "wrap E d' secret s' = Ok c"
  shows "d = d'"
  using unwrap_wrap[OF assms(1,2,4,6)] unwrap_wrap[OF assms(1,3,5,7)] by simp

lemma wrap_then_unwrap:
  assumes "usable E" "fits d" "salted s"
  shows "bind_res (wrap E d secret s) (\<lambda>c. unwrap E c secret) = Ok d"
  using wrap_total[OF assms, of secret] unwrap_wrap[OF assms, of secret] by auto

end

section \<open>Operations\<close>

definition KEYWRAP_SALT :: bytes where
  "KEYWRAP_SALT = str_bytes ''reminisce-keywrap-v1''"

text \<open>\<open>keywrap_master_key_v1\<close>: the cache holds the hash of the last secret and the key derived from it.\<close>

type_synonym key_cache = "(bytes \<times> bytes) option"

definition keywrap_master_key_v1 :: "ext \<Rightarrow> key_cache \<Rightarrow> string \<Rightarrow> bytes \<times> key_cache" where
  "keywrap_master_key_v1 E cache api_secret =
     (let cache_key = blake3 E (str_bytes api_secret);
          out = argon2id E (str_bytes api_secret) KEYWRAP_SALT in
      case cache of
        Some (seen, derived) \<Rightarrow> if seen = cache_key then (derived, cache) else (out, Some (cache_key, out))
      | None \<Rightarrow> (out, Some (cache_key, out)))"

definition encrypt_key :: "ext \<Rightarrow> key_cache \<Rightarrow> bytes \<Rightarrow> bytes \<Rightarrow> string \<Rightarrow> (string + bytes) \<times> key_cache" where
  "encrypt_key E cache nonce_bytes key api_secret =
     (case keywrap_master_key_v1 E cache api_secret of (master_key, cache') \<Rightarrow>
        (bind_res (map_err (\<lambda>e. ''Encryption failed: '' @ e) (aead_seal E master_key nonce_bytes key))
           (\<lambda>ciphertext. Ok ([0x01] @ nonce_bytes @ ciphertext)), cache'))"

definition decrypt_key :: "ext \<Rightarrow> (bytes \<Rightarrow> bytes) \<Rightarrow> key_cache \<Rightarrow> bytes \<Rightarrow> string \<Rightarrow> (string + bytes) \<times> key_cache" where
  "decrypt_key E sha256 cache encrypted_key api_secret =
     (if length encrypted_key = 32 then (Ok encrypted_key, cache)
      else
        let (v1, cache') =
              (if length encrypted_key \<ge> 29 \<and> encrypted_key ! 0 = 0x01
               then (case keywrap_master_key_v1 E cache api_secret of (master_key, c) \<Rightarrow>
                 (case aead_open E master_key (take 12 (drop 1 encrypted_key)) (drop 13 encrypted_key) of
                    Inr decrypted \<Rightarrow> (Some decrypted, c)
                  | Inl e \<Rightarrow> (None, c)))
               else (None, cache))
        in case v1 of
             Some decrypted \<Rightarrow> (Ok decrypted, cache')
           | None \<Rightarrow>
               if length encrypted_key < 12 then (Err ''Encrypted key is too short'', cache')
               else (map_err (\<lambda>e. ''Decryption failed: '' @ e)
                       (aead_open E (sha256 (str_bytes api_secret)) (take 12 encrypted_key) (drop 12 encrypted_key)), cache'))"

text \<open>The mesh encryption of manifests.\<close>

definition mesh_key :: "ext \<Rightarrow> string \<Rightarrow> bytes" where
  "mesh_key E api_secret = blake3 E (str_bytes (''reminisce-db-manifest-mesh:'' @ api_secret))"

definition encrypt_for_mesh :: "ext \<Rightarrow> (np2p_error \<Rightarrow> string) \<Rightarrow> bytes \<Rightarrow> string \<Rightarrow> bytes \<Rightarrow> string + bytes" where
  "encrypt_for_mesh E show_err json api_secret nonce_ctx = map_err show_err (encrypt E json (mesh_key E api_secret) nonce_ctx)"

definition decrypt_from_mesh :: "ext \<Rightarrow> (np2p_error \<Rightarrow> string) \<Rightarrow> bytes \<Rightarrow> string \<Rightarrow> string + bytes" where
  "decrypt_from_mesh E show_err data api_secret = map_err show_err (decrypt E data (mesh_key E api_secret))"

section \<open>Lemmas\<close>

definition keywrap_ok :: "ext \<Rightarrow> bool" where
  "keywrap_ok E \<longleftrightarrow> argon2_ok E \<and> aead_ok E"

definition v1_master :: "ext \<Rightarrow> string \<Rightarrow> bytes" where
  "v1_master E api_secret = argon2id E (str_bytes api_secret) KEYWRAP_SALT"

text \<open>A cache that this function filled, possibly for another secret.\<close>

definition cache_from :: "ext \<Rightarrow> key_cache \<Rightarrow> string \<Rightarrow> bool" where
  "cache_from E cache s \<longleftrightarrow> cache = None \<or> cache = Some (blake3 E (str_bytes s), v1_master E s)"

lemma master_key_cached:
  assumes "cache_from E cache s" "blake3 E (str_bytes s) = blake3 E (str_bytes secret) \<longrightarrow> s = secret"
  shows "fst (keywrap_master_key_v1 E cache secret) = v1_master E secret"
    "cache_from E (snd (keywrap_master_key_v1 E cache secret)) secret"
  using assms by (auto simp: keywrap_master_key_v1_def cache_from_def v1_master_def Let_def split: option.splits)

lemma v1_master_length: "keywrap_ok E \<Longrightarrow> length (v1_master E s) = 32"
  by (simp add: keywrap_ok_def argon2_ok_def v1_master_def)

lemma encrypt_key_ok:
  assumes "keywrap_ok E" "length nonce = 12" "length key = 32" "fst (keywrap_master_key_v1 E cache secret) = v1_master E secret"
  obtains c where "fst (encrypt_key E cache nonce key secret) = Ok ([1] @ nonce @ c)"
    "aead_open E (v1_master E secret) nonce c = Ok key" "length c = 48"
proof -
  have "aead_ok E" using assms(1) by (simp add: keywrap_ok_def)
  then obtain c where "aead_seal E (v1_master E secret) nonce key = Inr c" "aead_open E (v1_master E secret) nonce c = Inr key"
    "length c = length key + 16"
    using aead_seal_ok[of E "v1_master E secret" nonce key] v1_master_length[OF assms(1)] assms(2,3) by (auto simp: aead_max_def)
  then show thesis
    using that[of c] assms(3,4) by (cases "keywrap_master_key_v1 E cache secret") (simp add: encrypt_key_def)
qed

lemma decrypt_key_v1:
  assumes "length nonce = 12" "length c = 48" "aead_open E (v1_master E secret) nonce c = Ok key"
    and "fst (keywrap_master_key_v1 E cache secret) = v1_master E secret"
  shows "fst (decrypt_key E sha256 cache ([1] @ nonce @ c) secret) = Ok key"
  using assms by (auto simp: decrypt_key_def split: prod.splits)

lemma decrypt_key_v0:
  assumes "length nonce = 12" "length c = 48" "aead_open E (sha256 (str_bytes secret)) nonce c = Ok key"
    and "nonce ! 0 \<noteq> 1 \<or> \<not> is_ok (aead_open E (fst (keywrap_master_key_v1 E cache secret)) (take 12 (drop 1 (nonce @ c))) (drop 13 (nonce @ c)))"
  shows "fst (decrypt_key E sha256 cache (nonce @ c) secret) = Ok key"
  using assms by (auto simp: decrypt_key_def nth_append split: prod.splits sum.splits)

text \<open>The two instances of the contract, each with its cache or its rendering fixed.\<close>

definition wrap_key :: "ext \<Rightarrow> bytes \<Rightarrow> string \<Rightarrow> bytes \<Rightarrow> string + bytes" where
  "wrap_key E key secret nonce = fst (encrypt_key E None nonce key secret)"

definition unwrap_key :: "(bytes \<Rightarrow> bytes) \<Rightarrow> ext \<Rightarrow> bytes \<Rightarrow> string \<Rightarrow> string + bytes" where
  "unwrap_key sha256 E c secret = fst (decrypt_key E sha256 None c secret)"

lemma master_key_uncached: "fst (keywrap_master_key_v1 E None secret) = v1_master E secret"
  by (simp add: keywrap_master_key_v1_def v1_master_def Let_def)

interpretation keywrap: secret_wrapping keywrap_ok "\<lambda>k. length k = 32" "\<lambda>n. length n = 12" wrap_key "unwrap_key sha256" for sha256
proof (unfold_locales, goal_cases)
  case (1 E k n secret)
  then show ?case using encrypt_key_ok[OF 1(1,3,2) master_key_uncached] by (metis wrap_key_def)
next
  case (2 E k n secret c)
  obtain c' where "fst (encrypt_key E None n k secret) = Ok ([1] @ n @ c')" "aead_open E (v1_master E secret) n c' = Ok k" "length c' = 48"
    by (rule encrypt_key_ok[OF 2(1,3,2) master_key_uncached])
  then show ?case using 2(4) decrypt_key_v1[OF 2(3) _ _ master_key_uncached] by (auto simp: wrap_key_def unwrap_key_def)
qed

lemma mesh_key_length: "cipher_ok E \<Longrightarrow> length (mesh_key E s) = KEY_SIZE"
  by (simp add: cipher_ok_def mesh_key_def blake3_len KEY_SIZE_def)

interpretation mesh: secret_wrapping cipher_ok "\<lambda>d. length d \<le> aead_max" "\<lambda>s. True" "\<lambda>E d s c. encrypt_for_mesh E sh d s c"
    "\<lambda>E c s. decrypt_from_mesh E sh c s" for sh
proof (unfold_locales, goal_cases)
  case (1 E d s secret)
  then have "sealable d (mesh_key E secret)" using mesh_key_length by (simp add: sealable_def)
  then show ?case using np2p_envelope.seal_total[OF 1(1), of d "mesh_key E secret" s] by (auto simp: encrypt_for_mesh_def)
next
  case (2 E d s secret c)
  then have "sealable d (mesh_key E secret)" using mesh_key_length by (simp add: sealable_def)
  then show ?case
    using np2p_envelope.unseal_seal[OF 2(1), of d "mesh_key E secret" s c] 2(4)
    by (auto simp: encrypt_for_mesh_def decrypt_from_mesh_def result_simps)
qed

section \<open>Properties\<close>

text \<open>Wrapped file keys come back in every format the database may hold, whatever the process cached
  before: a key wrapped now opens to itself under the same secret; a legacy envelope under the
  SHA-256 key opens too, unless its first nonce byte happens to be the version byte and its bytes
  also open under the new master key; a raw 32-byte key is taken as it is; anything shorter than
  twelve bytes is refused.  The cache never changes a result unless two secrets collide under
  BLAKE3.\<close>

theorem key_envelope_formats:
  assumes "keywrap_ok E" "length nonce = 12" "length key = 32"
    and "cache_from E cache s" "blake3 E (str_bytes s) = blake3 E (str_bytes secret) \<longrightarrow> s = secret"
  shows "(\<exists>c. fst (encrypt_key E cache nonce key secret) = Ok c \<and> fst (decrypt_key E sha256 cache c secret) = Ok key)
    \<and> (\<forall>c. length c = 48 \<and> aead_open E (sha256 (str_bytes secret)) nonce c = Ok key
         \<and> (nonce ! 0 = 1 \<longrightarrow> \<not> is_ok (aead_open E (v1_master E secret) (take 12 (drop 1 (nonce @ c))) (drop 13 (nonce @ c)))) \<longrightarrow>
         fst (decrypt_key E sha256 cache (nonce @ c) secret) = Ok key)
    \<and> fst (decrypt_key E sha256 cache key secret) = Ok key
    \<and> (length short < 12 \<longrightarrow> fst (decrypt_key E sha256 cache short secret) = Err ''Encrypted key is too short'')
    \<and> cache_from E (snd (keywrap_master_key_v1 E cache secret)) secret"
proof (intro conjI allI impI)
  note m = master_key_cached[OF assms(4,5)]
  obtain c where "fst (encrypt_key E cache nonce key secret) = Ok ([1] @ nonce @ c)"
    "aead_open E (v1_master E secret) nonce c = Ok key" "length c = 48"
    by (rule encrypt_key_ok[OF assms(1-3) m(1)])
  then show "\<exists>c. fst (encrypt_key E cache nonce key secret) = Ok c \<and> fst (decrypt_key E sha256 cache c secret) = Ok key"
    using decrypt_key_v1[OF assms(2) _ _ m(1)] by blast
  show "fst (decrypt_key E sha256 cache key secret) = Ok key" using assms(3) by (simp add: decrypt_key_def)
  show "cache_from E (snd (keywrap_master_key_v1 E cache secret)) secret" by (rule m(2))
  show "fst (decrypt_key E sha256 cache short secret) = Err ''Encrypted key is too short''" if "length short < 12"
    using that by (simp add: decrypt_key_def)
  fix c assume "length c = 48 \<and> aead_open E (sha256 (str_bytes secret)) nonce c = Ok key
      \<and> (nonce ! 0 = 1 \<longrightarrow> \<not> is_ok (aead_open E (v1_master E secret) (take 12 (drop 1 (nonce @ c))) (drop 13 (nonce @ c))))"
  then show "fst (decrypt_key E sha256 cache (nonce @ c) secret) = Ok key"
    using decrypt_key_v0[OF assms(2), of c E sha256 secret key cache] unfolding m(1) by blast
qed

theorem key_envelope_formats_witness:
  "\<exists>c. fst (encrypt_key toy_ext None (replicate 12 4) (replicate 32 9) ''pw'') = Ok c
     \<and> fst (decrypt_key toy_ext (\<lambda>m. replicate 32 0) None c ''pw'') = Ok (replicate 32 9)"
  using key_envelope_formats[of toy_ext "replicate 12 4" "replicate 32 9" None "''pw''" "''pw''"]
  by (simp add: keywrap_ok_def cache_from_def del: replicate.simps)

end
