(* ===== verification/Catalog.thy ===== *)
theory Catalog
  imports Upload KeyEnvelope
begin

text \<open>
  The tables the peer-to-peer workers share (\<open>db/init.sql\<close>: \<open>images\<close>, \<open>videos\<close>, \<open>p2p_shards\<close>,
  \<open>p2p_nodes\<close>) with the statements that several workers issue against them, and the resolution of a
  node's address (\<open>src/shard_rebalance_worker.rs\<close>).  A table is a list of rows in the order the
  server returns them; times are milliseconds.  That a statement or the acquisition of a connection
  fails is an input of each operation, as is the server's clock.
\<close>

section \<open>Integer casts\<close>

definition as_usize :: "int \<Rightarrow> nat" where
  "as_usize i = nat (i mod 2 ^ 64)"

definition as_i32 :: "nat \<Rightarrow> int" where
  "as_i32 n = (let r = int n mod 2 ^ 32 in if r < 2 ^ 31 then r else r - 2 ^ 32)"

lemma as_usize_int: "n < 2 ^ 64 \<Longrightarrow> as_usize (int n) = n"
  by (metis as_usize_def mod_pos_pos_trivial nat_int of_nat_0_le_iff of_nat_less_numeral_power_cancel_iff)

lemma as_i32_small: "n < 2 ^ 31 \<Longrightarrow> as_i32 n = int n"
  by (simp add: as_i32_def Let_def)

section \<open>Tables\<close>

record media_row =
  mr_user :: string
  mr_hash :: string
  mr_name :: string
  mr_ext :: string
  mr_created :: int
  mr_deleted :: bool
  mr_key :: "bytes option"
  mr_enc_size :: "int option"
  mr_seg_count :: int
  mr_seg_sizes :: "int list option"
  mr_data_shards :: "int option"
  mr_parity_shards :: "int option"
  mr_synced_at :: "int option"
  mr_last_attempt :: "int option"
  mr_shard_hash :: "string option"

record shard_row =
  sr_file :: string
  sr_index :: int
  sr_node :: string
  sr_hash :: string
  sr_checked :: "int option"

record node_row =
  nr_id :: string
  nr_addr :: string
  nr_active :: bool
  nr_last_seen :: int

record db =
  db_images :: "media_row list"
  db_videos :: "media_row list"
  db_shards :: "shard_row list"
  db_nodes :: "node_row list"

datatype media_table = Images | Videos

fun media_rows :: "db \<Rightarrow> media_table \<Rightarrow> media_row list" where
  "media_rows db Images = db_images db"
| "media_rows db Videos = db_videos db"

fun update_media :: "media_table \<Rightarrow> (media_row \<Rightarrow> media_row) \<Rightarrow> db \<Rightarrow> db" where
  "update_media Images f db = db\<lparr>db_images := map f (db_images db)\<rparr>"
| "update_media Videos f db = db\<lparr>db_videos := map f (db_videos db)\<rparr>"

definition where_hash :: "string \<Rightarrow> (media_row \<Rightarrow> media_row) \<Rightarrow> media_row \<Rightarrow> media_row" where
  "where_hash h f m = (if mr_hash m = h then f m else m)"

section \<open>Statements\<close>

text \<open>\<open>INSERT INTO p2p_nodes ... ON CONFLICT (node_id) DO UPDATE\<close>.\<close>

fun upsert_node_rows :: "int \<Rightarrow> string \<Rightarrow> string \<Rightarrow> node_row list \<Rightarrow> node_row list" where
  "upsert_node_rows now nid addr [] = [\<lparr>nr_id = nid, nr_addr = addr, nr_active = True, nr_last_seen = now\<rparr>]"
| "upsert_node_rows now nid addr (n # ns) =
     (if nr_id n = nid then n\<lparr>nr_addr := addr, nr_active := True, nr_last_seen := now\<rparr> # ns
      else n # upsert_node_rows now nid addr ns)"

definition upsert_node :: "int \<Rightarrow> string \<Rightarrow> string \<Rightarrow> db \<Rightarrow> db" where
  "upsert_node now nid addr db = db\<lparr>db_nodes := upsert_node_rows now nid addr (db_nodes db)\<rparr>"

text \<open>\<open>INSERT INTO p2p_shards ... ON CONFLICT (file_hash, shard_index) DO UPDATE\<close>.\<close>

fun upsert_shard_rows :: "shard_row \<Rightarrow> shard_row list \<Rightarrow> shard_row list" where
  "upsert_shard_rows s [] = [s]"
| "upsert_shard_rows s (r # rs) =
     (if sr_file r = sr_file s \<and> sr_index r = sr_index s then r\<lparr>sr_node := sr_node s, sr_hash := sr_hash s\<rparr> # rs
      else r # upsert_shard_rows s rs)"

definition upsert_shard :: "shard_row \<Rightarrow> db \<Rightarrow> db" where
  "upsert_shard s db = db\<lparr>db_shards := upsert_shard_rows s (db_shards db)\<rparr>"

text \<open>\<open>SELECT ... FROM p2p_shards WHERE file_hash = $1 ORDER BY shard_index\<close>.\<close>

definition shards_of :: "db \<Rightarrow> string \<Rightarrow> shard_row list" where
  "shards_of db file_hash = sort_key sr_index (filter (\<lambda>s. sr_file s = file_hash) (db_shards db))"

text \<open>\<open>query_opt\<close> refuses a result of more than one row.\<close>

definition query_opt :: "string \<Rightarrow> 'a list \<Rightarrow> string + 'a option" where
  "query_opt row_count_err rows =
     (case rows of [] \<Rightarrow> Ok None | [r] \<Rightarrow> Ok (Some r) | _ \<Rightarrow> Err row_count_err)"

section \<open>Peers in the database\<close>

definition INACTIVE_MS :: int where "INACTIVE_MS = 10 * 60 * 1000"

text \<open>\<open>ensure_peers_registered\<close>; \<open>fails k\<close> is the error of the \<open>k\<close>-th database call, if any.\<close>

fun register_peers :: "(nat \<Rightarrow> string option) \<Rightarrow> (sock_addr \<Rightarrow> string) \<Rightarrow> int \<Rightarrow> nat \<Rightarrow> (string \<times> sock_addr) list \<Rightarrow> db
    \<Rightarrow> (string + unit) \<times> db" where
  "register_peers fails show_addr now k [] db = (Ok (), db)"
| "register_peers fails show_addr now k ((nid, addr) # ns) db =
     (case fails k of
        Some e \<Rightarrow> (Err (''Failed to upsert peer '' @ nid @ '': '' @ e), db)
      | None \<Rightarrow> register_peers fails show_addr now (k + 1) ns (upsert_node now nid (show_addr addr) db))"

definition ensure_peers_registered :: "(nat \<Rightarrow> string option) \<Rightarrow> (sock_addr \<Rightarrow> string) \<Rightarrow> int \<Rightarrow> (string \<times> sock_addr) list \<Rightarrow> db
    \<Rightarrow> (string + unit) \<times> db" where
  "ensure_peers_registered fails show_addr now nodes db =
     (case fails 0 of
        Some e \<Rightarrow> (Err e, db)
      | None \<Rightarrow>
          (case register_peers fails show_addr now 1 nodes db of
             (Inl e, db1) \<Rightarrow> (Err e, db1)
           | (Inr _, db1) \<Rightarrow>
               (case fails (1 + length nodes) of
                  Some e \<Rightarrow> (Err e, db1)
                | None \<Rightarrow>
                    (Ok (), db1\<lparr>db_nodes := map (\<lambda>n. if nr_last_seen n < now - INACTIVE_MS then n\<lparr>nr_active := False\<rparr> else n)
                                        (db_nodes db1)\<rparr>))))"

text \<open>\<open>lookup_node_addr\<close>: the registry first, then the table, whose hit is entered into the registry.
  \<open>reachable\<close> is whether the database answers.\<close>

definition lookup_node_addr :: "(string \<Rightarrow> sock_addr option) \<Rightarrow> bool \<Rightarrow> nat \<Rightarrow> db \<Rightarrow> registry \<Rightarrow> string \<Rightarrow> sock_addr option \<times> registry" where
  "lookup_node_addr parse_addr reachable clock db r nid =
     (case get_peer r nid of
        Some peer \<Rightarrow> (Some (pi_addr peer), r)
      | None \<Rightarrow>
          if \<not> reachable then (None, r)
          else (case query_opt [] (filter (\<lambda>n. nr_id n = nid \<and> nr_active n) (db_nodes db)) of
                  Inr (Some row) \<Rightarrow>
                    (case parse_addr (nr_addr row) of
                       Some addr \<Rightarrow> (Some addr, upsert clock r nid addr)
                     | None \<Rightarrow> (None, r))
                | _ \<Rightarrow> (None, r)))"

section \<open>The constraints of the schema\<close>

definition shard_key :: "shard_row \<Rightarrow> string \<times> int" where
  "shard_key s = (sr_file s, sr_index s)"

definition db_ok :: "db \<Rightarrow> bool" where
  "db_ok db \<longleftrightarrow> distinct (map shard_key (db_shards db)) \<and> distinct (map nr_id (db_nodes db))
     \<and> sr_node ` set (db_shards db) \<subseteq> nr_id ` set (db_nodes db)"

text \<open>What the catalog says about a file's shard: its node and its hash.\<close>

definition placement :: "db \<Rightarrow> string \<Rightarrow> int \<Rightarrow> (string \<times> string) option" where
  "placement db f i = map_of (map (\<lambda>s. (shard_key s, (sr_node s, sr_hash s))) (db_shards db)) (f, i)"

section \<open>The interface of a table with an upsert\<close>

locale keyed_table =
  fixes key :: "'r \<Rightarrow> 'k"
    and val :: "'r \<Rightarrow> 'v"
    and put :: "'r \<Rightarrow> 'r list \<Rightarrow> 'r list"
  assumes put_lookup: "map_of (map (\<lambda>r. (key r, val r)) (put x rs)) = (map_of (map (\<lambda>r. (key r, val r)) rs))(key x \<mapsto> val x)"
    and put_distinct: "distinct (map key rs) \<Longrightarrow> distinct (map key (put x rs))"
begin

definition lookup :: "'r list \<Rightarrow> 'k \<Rightarrow> 'v option" where
  "lookup rs = map_of (map (\<lambda>r. (key r, val r)) rs)"

lemma lookup_put: "lookup (put x rs) = (lookup rs)(key x \<mapsto> val x)"
  by (simp add: lookup_def put_lookup)

lemma keys_put: "key ` set (put x rs) = insert (key x) (key ` set rs)"
proof -
  have "dom (lookup ys) = key ` set ys" for ys by (simp add: lookup_def dom_map_of_conv_image_fst image_image)
  then show ?thesis using lookup_put[of x rs] by (metis dom_fun_upd option.distinct(1))
qed

lemma lookup_row: "distinct (map key rs) \<Longrightarrow> lookup rs k = Some v \<longleftrightarrow> (\<exists>r \<in> set rs. key r = k \<and> val r = v)"
  by (auto simp: lookup_def o_def intro!: map_of_is_SomeI dest!: map_of_SomeD)

text \<open>Writing several rows: the table afterwards answers for each key with the last row written for it.\<close>

lemma lookup_puts: "lookup (fold put xs rs) k = (case lookup (rev xs) k of Some v \<Rightarrow> Some v | None \<Rightarrow> lookup rs k)"
proof (induction xs arbitrary: rs)
  case (Cons x xs)
  then show ?case by (simp add: lookup_put lookup_def put_lookup map_add_def split: option.splits)
qed (simp add: lookup_def)

lemma puts_distinct: "distinct (map key rs) \<Longrightarrow> distinct (map key (fold put xs rs))"
  by (induction xs arbitrary: rs) (auto intro: put_distinct)

lemma keys_puts: "key ` set (fold put xs rs) = key ` set xs \<union> key ` set rs"
  by (induction xs arbitrary: rs) (auto simp: keys_put)

end

lemma upsert_shard_keys: "map shard_key (upsert_shard_rows s rs) =
    (if shard_key s \<in> shard_key ` set rs then map shard_key rs else map shard_key rs @ [shard_key s])"
  by (induction rs) (auto simp: shard_key_def)

interpretation shards: keyed_table shard_key "\<lambda>s. (sr_node s, sr_hash s)" upsert_shard_rows
proof (unfold_locales, goal_cases)
  case (1 x rs)
  show ?case by (induction rs) (auto simp: shard_key_def fun_eq_iff)
next
  case (2 rs x)
  then show ?case by (auto simp: upsert_shard_keys)
qed

text \<open>For the node table the row written is the new one, with its address and the time of the write.\<close>

definition put_node :: "node_row \<Rightarrow> node_row list \<Rightarrow> node_row list" where
  "put_node n ns = upsert_node_rows (nr_last_seen n) (nr_id n) (nr_addr n) ns"

lemma upsert_node_keys: "map nr_id (upsert_node_rows now nid a ns) =
    (if nid \<in> nr_id ` set ns then map nr_id ns else map nr_id ns @ [nid])"
  by (induction ns) auto

interpretation nodes: keyed_table nr_id "\<lambda>n. (nr_addr n, nr_last_seen n)" put_node
proof (unfold_locales, goal_cases)
  case (1 x rs)
  show ?case by (induction rs) (auto simp: put_node_def fun_eq_iff)
next
  case (2 rs x)
  then show ?case by (auto simp: put_node_def upsert_node_keys)
qed

section \<open>Lemmas\<close>

lemma placement_lookup: "placement db f i = shards.lookup (db_shards db) (f, i)"
  by (simp add: placement_def shards.lookup_def)

lemma shards_of_distinct: "db_ok db \<Longrightarrow> distinct (map sr_index (shards_of db f))"
proof -
  assume "db_ok db"
  then have "distinct (map shard_key (filter (\<lambda>s. sr_file s = f) (db_shards db)))"
    by (auto simp: db_ok_def distinct_map intro: inj_on_subset)
  then have "inj_on sr_index (set (filter (\<lambda>s. sr_file s = f) (db_shards db)))" "distinct (filter (\<lambda>s. sr_file s = f) (db_shards db))"
    by (auto simp: distinct_map inj_on_def shard_key_def)
  then show ?thesis by (simp add: shards_of_def distinct_map)
qed

lemma shards_of_placement:
  assumes "db_ok db"
  shows "s \<in> set (shards_of db f) \<longleftrightarrow> s \<in> set (db_shards db) \<and> sr_file s = f"
    and "placement db f i = Some (n, h) \<longleftrightarrow> (\<exists>s \<in> set (shards_of db f). sr_index s = i \<and> sr_node s = n \<and> sr_hash s = h)"
  using assms shards.lookup_row[of "db_shards db" "(f, i)" "(n, h)"]
  by (auto simp: shards_of_def placement_lookup db_ok_def shard_key_def)

lemma register_peers_nodes:
  "register_peers fails sh now k ns db = (Ok (), db') \<Longrightarrow>
     db_nodes db' = fold put_node (map (\<lambda>(nid, a). \<lparr>nr_id = nid, nr_addr = sh a, nr_active = True, nr_last_seen = now\<rparr>) ns) (db_nodes db)
     \<and> db_shards db' = db_shards db \<and> db_images db' = db_images db \<and> db_videos db' = db_videos db"
proof (induction fails sh now k ns db rule: register_peers.induct)
  case (2 fails sh now k nid addr ns db)
  then show ?case by (auto simp: upsert_node_def put_node_def split: option.splits)
qed simp

end
