(* ===== verification/Restore.thy ===== *)
theory Restore
  imports Catalog
begin

text \<open>
  \<open>src/p2p_restore.rs\<close>: restoring a media file from the shards its catalog rows name.  The fetcher is a
  function of its own state (for \<open>restore_file\<close> the service with its registry); whatever it returns is
  hash-checked before use.  The locale \<open>shard_collection\<close> is what restoring relies on, for the catalog
  here and for the manifests of database snapshots.
\<close>

section \<open>Records\<close>

record restored_file =
  rf_data :: bytes
  rf_filename :: string
  rf_media_type :: string

record file_record =
  fr_name :: string
  fr_ext :: string
  fr_media_type :: string
  fr_encryption_key :: bytes
  fr_encrypted_size :: int
  fr_segment_count :: int
  fr_segment_enc_sizes :: "int list option"
  fr_data_shards :: "int option"
  fr_parity_shards :: "int option"

text \<open>What surrounds a restore: UUID parsing, the text of the driver's row-count error, the failures of the
  database calls (0 the connection, 1 and 2 the media queries, 3 the shard query), SHA-256, the
  account secret, and the rendering of storage errors.\<close>

record restore_env =
  re_parse_uuid :: "string \<Rightarrow> string option"
  re_row_count :: string
  re_fails :: "nat \<Rightarrow> string option"
  re_sha256 :: "bytes \<Rightarrow> bytes"
  re_secret :: string
  re_show_err :: "np2p_error \<Rightarrow> string"

section \<open>The file record\<close>

text \<open>Reading a row: the key first, then the columns, where reading a NULL size as \<open>i32\<close> panics.\<close>

definition read_record :: "ext \<Rightarrow> restore_env \<Rightarrow> key_cache \<Rightarrow> string \<Rightarrow> media_row \<Rightarrow> ((string + file_record) \<times> key_cache) outcome" where
  "read_record E X cache media_type r =
     (case mr_key r of
        None \<Rightarrow> Done (Err ''p2p_encryption_key is NULL'', cache)
      | Some k \<Rightarrow>
          (case decrypt_key E (re_sha256 X) cache k (re_secret X) of
             (Inl e, c) \<Rightarrow> Done (Err e, c)
           | (Inr key, c) \<Rightarrow>
               (case mr_enc_size r of
                  None \<Rightarrow> Panic
                | Some n \<Rightarrow> Done (Ok \<lparr>fr_name = mr_name r, fr_ext = mr_ext r, fr_media_type = media_type,
                    fr_encryption_key = key, fr_encrypted_size = n, fr_segment_count = mr_seg_count r,
                    fr_segment_enc_sizes = mr_seg_sizes r, fr_data_shards = mr_data_shards r,
                    fr_parity_shards = mr_parity_shards r\<rparr>, c))))"

definition owned_by :: "string option \<Rightarrow> string \<Rightarrow> media_row \<Rightarrow> bool" where
  "owned_by owner_uuid file_hash m \<longleftrightarrow> mr_hash m = file_hash \<and> \<not> mr_deleted m
     \<and> (case owner_uuid of Some uid \<Rightarrow> mr_user m = uid | None \<Rightarrow> True)"

definition select_media :: "restore_env \<Rightarrow> nat \<Rightarrow> string option \<Rightarrow> string \<Rightarrow> media_row list \<Rightarrow> string + media_row option" where
  "select_media X k owner_uuid file_hash rows =
     (case re_fails X k of
        Some e \<Rightarrow> Err e
      | None \<Rightarrow> query_opt (re_row_count X) (filter (owned_by owner_uuid file_hash) rows))"

definition query_file_record :: "ext \<Rightarrow> restore_env \<Rightarrow> key_cache \<Rightarrow> db \<Rightarrow> string \<Rightarrow> string option
    \<Rightarrow> ((string + file_record option) \<times> key_cache) outcome" where
  "query_file_record E X cache db file_hash owner_user_id =
     (let owner_uuid = (case owner_user_id of Some uid \<Rightarrow> re_parse_uuid X uid | None \<Rightarrow> None);
          found = (\<lambda>media_type r. bind_out (read_record E X cache media_type r) (\<lambda>(res, c).
                     Done (bind_res res (\<lambda>rec. Ok (Some rec)), c))) in
      case select_media X 1 owner_uuid file_hash (db_images db) of
        Inl e \<Rightarrow> Done (Err e, cache)
      | Inr (Some r) \<Rightarrow> found ''image'' r
      | Inr None \<Rightarrow>
          (case select_media X 2 owner_uuid file_hash (db_videos db) of
             Inl e \<Rightarrow> Done (Err e, cache)
           | Inr (Some r) \<Rightarrow> found ''video'' r
           | Inr None \<Rightarrow> Done (Ok None, cache)))"

section \<open>Collecting shards\<close>

type_synonym 's fetcher = "'s \<Rightarrow> string \<Rightarrow> bytes \<Rightarrow> (bytes option \<times> 's) outcome"

definition parse_shard_hash :: "ext \<Rightarrow> string \<Rightarrow> bytes option" where
  "parse_shard_hash E hex_str =
     (case hex_decode E hex_str of None \<Rightarrow> None | Some b \<Rightarrow> if length b \<noteq> 32 then None else Some b)"

text \<open>The body of the loop over the known shards, each given by its index, node and hash.\<close>

definition fetch_shard :: "ext \<Rightarrow> 's fetcher \<Rightarrow> nat \<times> string \<times> string \<Rightarrow> bytes option list \<Rightarrow> 's
    \<Rightarrow> (bytes option list \<times> 's) outcome" where
  "fetch_shard E fetch row full s =
     (case row of (idx, nid, shard_hash_hex) \<Rightarrow>
        if idx \<ge> TOTAL_SHARDS then Done (full, s)
        else case parse_shard_hash E shard_hash_hex of
          None \<Rightarrow> Done (full, s)
        | Some hash_bytes \<Rightarrow>
            bind_out (fetch s nid hash_bytes) (\<lambda>(res, s1). Done (
              case res of
                Some data \<Rightarrow>
                  if hex_encode E (blake3 E data) = shard_hash_hex then (full[idx := Some data], s1)
                  else (full, s1)
              | None \<Rightarrow> (full, s1))))"

primrec fetch_shards :: "ext \<Rightarrow> 's fetcher \<Rightarrow> (nat \<times> string \<times> string) list \<Rightarrow> bytes option list \<Rightarrow> 's
    \<Rightarrow> (bytes option list \<times> 's) outcome" where
  "fetch_shards E fetch [] full s = Done (full, s)"
| "fetch_shards E fetch (row # rows) full s =
     bind_out (fetch_shard E fetch row full s) (\<lambda>(full1, s1). fetch_shards E fetch rows full1 s1)"

definition row_shards :: "shard_row list \<Rightarrow> (nat \<times> string \<times> string) list" where
  "row_shards rows = map (\<lambda>r. (as_usize (sr_index r), sr_node r, sr_hash r)) rows"

definition collect_rows :: "ext \<Rightarrow> 's fetcher \<Rightarrow> shard_row list \<Rightarrow> 's \<Rightarrow> (bytes option list \<times> 's) outcome" where
  "collect_rows E fetch rows s = fetch_shards E fetch (row_shards rows) (replicate TOTAL_SHARDS None) s"

section \<open>Segments\<close>

fun map_out :: "('a \<Rightarrow> 'b outcome) \<Rightarrow> 'a list \<Rightarrow> 'b list outcome" where
  "map_out f [] = Done []"
| "map_out f (x # xs) = bind_out (f x) (\<lambda>y. bind_out (map_out f xs) (\<lambda>ys. Done (y # ys)))"

definition segment_of :: "nat \<Rightarrow> nat \<Rightarrow> bytes option \<Rightarrow> bytes option outcome" where
  "segment_of offset sub_shard_size opt =
     (case opt of
        None \<Rightarrow> Done None
      | Some s \<Rightarrow> bind_out (of_slice (slice s offset (min ((offset + sub_shard_size) mod 2 ^ 64) (length s)))) (\<lambda>x. Done (Some x)))"

fun restore_segments :: "ext \<Rightarrow> (np2p_error \<Rightarrow> string) \<Rightarrow> bytes option list \<Rightarrow> bytes \<Rightarrow> nat \<Rightarrow> int list \<Rightarrow> (string + bytes) outcome" where
  "restore_segments E show_err full key offset [] = Done (Ok [])"
| "restore_segments E show_err full key offset (esize # sizes) =
     (let enc_size = as_usize esize; sub_shard_size = div_ceil enc_size DATA_SHARDS in
      bind_out (map_out (segment_of offset sub_shard_size) full) (\<lambda>segment_shards.
        case restore_from_backup E segment_shards enc_size key DATA_SHARDS (TOTAL_SHARDS - DATA_SHARDS) of
          Inl e \<Rightarrow> Done (Err (''Segment restore failed at offset '' @ show_nat offset @ '': '' @ show_err e))
        | Inr segment_data \<Rightarrow>
            bind_out (restore_segments E show_err full key ((offset + sub_shard_size) mod 2 ^ 64) sizes) (\<lambda>rest.
              Done (bind_res rest (\<lambda>r. Ok (segment_data @ r))))))"

definition restore_segmented :: "ext \<Rightarrow> (np2p_error \<Rightarrow> string) \<Rightarrow> bytes option list \<Rightarrow> int list \<Rightarrow> bytes \<Rightarrow> (string + bytes) outcome" where
  "restore_segmented E show_err full_shards segment_enc_sizes key = restore_segments E show_err full_shards key 0 segment_enc_sizes"

section \<open>Restoring a file\<close>

definition geq_sign :: string where "geq_sign = [CHR 0xE2, CHR 0x89, CHR 0xA5]"

definition restore_plaintext :: "ext \<Rightarrow> restore_env \<Rightarrow> file_record \<Rightarrow> bytes option list \<Rightarrow> (string + bytes) outcome" where
  "restore_plaintext E X rec full_shards =
     (let data_shards = as_usize (case fr_data_shards rec of Some d \<Rightarrow> d | None \<Rightarrow> int DATA_SHARDS);
          parity_shards = as_usize (case fr_parity_shards rec of Some p \<Rightarrow> p | None \<Rightarrow> int (TOTAL_SHARDS - DATA_SHARDS)) in
      if fr_segment_count rec \<le> 1
      then Done (map_err (\<lambda>e. ''Restore failed: '' @ re_show_err X e)
             (restore_from_backup E full_shards (as_usize (fr_encrypted_size rec)) (fr_encryption_key rec) data_shards parity_shards))
      else case fr_segment_enc_sizes rec of
             None \<Rightarrow> Done (Err ''p2p_segment_enc_sizes is NULL for multi-segment file'')
           | Some enc_sizes \<Rightarrow> restore_segmented E (re_show_err X) full_shards enc_sizes (fr_encryption_key rec))"

definition restore_file_with_fetcher :: "ext \<Rightarrow> restore_env \<Rightarrow> 's fetcher \<Rightarrow> db \<Rightarrow> string \<Rightarrow> string option \<Rightarrow> key_cache \<Rightarrow> 's
    \<Rightarrow> ((string + restored_file) \<times> key_cache \<times> 's) outcome" where
  "restore_file_with_fetcher E X fetch db file_hash owner_user_id cache s =
     (case re_fails X 0 of
        Some e \<Rightarrow> Done (Err e, cache, s)
      | None \<Rightarrow>
          bind_out (query_file_record E X cache db file_hash owner_user_id) (\<lambda>(q, c).
            case q of
              Inl e \<Rightarrow> Done (Err e, c, s)
            | Inr None \<Rightarrow> Done (Err (''File '' @ file_hash @ '' not found in database''), c, s)
            | Inr (Some rec) \<Rightarrow>
                (case re_fails X 3 of
                   Some e \<Rightarrow> Done (Err e, c, s)
                 | None \<Rightarrow>
                     let shard_rows = shards_of db file_hash in
                     if shard_rows = [] then Done (Err (''No shards found for file '' @ file_hash), c, s)
                     else bind_out (collect_rows E fetch shard_rows s) (\<lambda>(full_shards, s1).
                       if present full_shards < DATA_SHARDS
                       then Done (Err (''Only '' @ show_nat (present full_shards) @ ''/'' @ show_nat TOTAL_SHARDS
                              @ '' shards available for '' @ file_hash @ '' '' @ em_dash @ '' cannot restore (need ''
                              @ geq_sign @ show_nat DATA_SHARDS @ '')''), c, s1)
                       else bind_out (restore_plaintext E X rec full_shards) (\<lambda>plaintext.
                         Done (bind_res plaintext (\<lambda>data. Ok \<lparr>rf_data = data,
                           rf_filename = fr_name rec @ ''.'' @ fr_ext rec, rf_media_type = fr_media_type rec\<rparr>), c, s1))))))"

text \<open>The fetcher of \<open>restore_file\<close>: dial the node directly, then fall back to the service, which may relay.\<close>

record peer_env =
  pv_up :: up_env
  pv_hex_err :: "string \<Rightarrow> string"
  pv_bincode :: bincode
  pv_net :: net
  pv_parse_addr :: "string \<Rightarrow> sock_addr option"
  pv_db_answers :: bool
  pv_clock :: nat
  pv_identity :: node_identity

definition peer_fetch :: "ext \<Rightarrow> peer_env \<Rightarrow> db \<Rightarrow> p2p_service fetcher" where
  "peer_fetch E V db svc nid shard_hash =
     (let hex_hash = hex_encode E shard_hash;
          i = pv_identity V;
          (found, r) = lookup_node_addr (pv_parse_addr V) (pv_db_answers V) (pv_clock V) db (sv_registry svc) nid;
          svc1 = svc\<lparr>sv_registry := r\<rparr> in
      bind_out (case found of
                  None \<Rightarrow> Done None
                | Some addr \<Rightarrow> bind_out (retrieve_shard E (pv_up V) (pv_hex_err V) i addr hex_hash) (\<lambda>res.
                    Done (case res of Inr data \<Rightarrow> Some data | Inl e \<Rightarrow> None)))
        (\<lambda>direct. case direct of
           Some data \<Rightarrow> Done (Some data, svc1)
         | None \<Rightarrow>
             let token = create_shard_token E (ue_clock (pv_up V)) i OpRetrieve shard_hash in
             Done (case send_message (pv_bincode V) (pv_net V) svc1 nid (RetrieveShardRequest shard_hash token) of
                     Inr (RetrieveShardResponse h data) \<Rightarrow> data
                   | _ \<Rightarrow> None, svc1)))"

definition restore_file :: "ext \<Rightarrow> restore_env \<Rightarrow> peer_env \<Rightarrow> db \<Rightarrow> string \<Rightarrow> string option \<Rightarrow> key_cache \<Rightarrow> p2p_service
    \<Rightarrow> ((string + restored_file) \<times> key_cache \<times> p2p_service) outcome" where
  "restore_file E X V db file_hash owner_user_id cache svc =
     restore_file_with_fetcher E X (peer_fetch E V db) db file_hash owner_user_id cache svc"

section \<open>The interface of a shard collection\<close>

text \<open>Collecting yields a slot per index, filled only with fetched data that matches a listed hash; it panics
  only with the fetcher, and it does not miss a listed shard the fetcher can always deliver.\<close>

locale shard_collection =
  fixes collect :: "ext \<Rightarrow> 's fetcher \<Rightarrow> 'src \<Rightarrow> 's \<Rightarrow> (bytes option list \<times> 's) outcome"
    and entries :: "'src \<Rightarrow> (nat \<times> string \<times> string) list"
  assumes collect_length: "collect E fetch src s = Done (zs, s') \<Longrightarrow> length zs = TOTAL_SHARDS"
    and collect_verified: "hex_ok E \<Longrightarrow> collect E fetch src s = Done (zs, s') \<Longrightarrow> i < TOTAL_SHARDS \<Longrightarrow> zs ! i = Some d \<Longrightarrow>
      \<exists>nid s0 s1. (i, nid, hex_encode E (blake3 E d)) \<in> set (entries src) \<and> fetch s0 nid (blake3 E d) = Done (Some d, s1)"
    and collect_total: "(\<And>s nid h. fetch s nid h \<noteq> Panic) \<Longrightarrow> \<exists>zs s'. collect E fetch src s = Done (zs, s')"
    and collect_complete: "hex_ok E \<Longrightarrow> blake3_ok E \<Longrightarrow> distinct (map fst (entries src)) \<Longrightarrow>
      (i, nid, hex_encode E (blake3 E d)) \<in> set (entries src) \<Longrightarrow> i < TOTAL_SHARDS \<Longrightarrow>
      (\<And>s. \<exists>s'. fetch s nid (blake3 E d) = Done (Some d, s')) \<Longrightarrow> collect E fetch src s = Done (zs, s') \<Longrightarrow> zs ! i = Some d"

text \<open>The listed shards are those of the blob with shards \<open>ys\<close>.\<close>

definition lists_shards :: "ext \<Rightarrow> (nat \<times> string \<times> string) list \<Rightarrow> bytes list \<Rightarrow> bool" where
  "lists_shards E es ys \<longleftrightarrow> distinct (map fst es) \<and> length ys = TOTAL_SHARDS
     \<and> list_all (\<lambda>(i, nid, h). i < TOTAL_SHARDS \<longrightarrow> h = hex_encode E (blake3 E (ys ! i))) es"

text \<open>Nothing the fetcher delivers collides with a shard of \<open>ys\<close> without being it.\<close>

definition no_collision :: "ext \<Rightarrow> 's fetcher \<Rightarrow> bytes list \<Rightarrow> bool" where
  "no_collision E fetch ys \<longleftrightarrow> (\<forall>s nid h d s' y. fetch s nid h = Done (Some d, s') \<longrightarrow> y \<in> set ys \<longrightarrow> blake3 E d = blake3 E y \<longrightarrow> d = y)"

text \<open>The shards a fetcher always delivers from the node that is listed for them.\<close>

definition available :: "ext \<Rightarrow> 's fetcher \<Rightarrow> (nat \<times> string \<times> string) list \<Rightarrow> bytes list \<Rightarrow> nat set" where
  "available E fetch es ys = {i. i < TOTAL_SHARDS \<and> (\<exists>nid. (i, nid, hex_encode E (blake3 E (ys ! i))) \<in> set es
     \<and> (\<forall>s. \<exists>s'. fetch s nid (blake3 E (ys ! i)) = Done (Some (ys ! i), s')))}"

lemma present_card: "present zs = card {i. i < length zs \<and> zs ! i \<noteq> None}"
  by (simp add: present_def length_filter_conv_card)

context shard_collection
begin

lemma collected_survivors:
  assumes "hex_ok E" "lists_shards E (entries src) ys" "no_collision E fetch ys" "collect E fetch src s = Done (zs, s')"
  shows "survivors ys zs"
  unfolding survivors_def
proof (rule list_all2_all_nthI)
  have len: "length ys = TOTAL_SHARDS" "length zs = TOTAL_SHARDS"
    using assms(2) collect_length[OF assms(4)] by (auto simp: lists_shards_def)
  then show "length ys = length zs" by simp
  fix i assume i: "i < length ys"
  show "zs ! i = None \<or> zs ! i = Some (ys ! i)"
  proof (cases "zs ! i")
    case (Some d)
    then obtain nid s0 s1 where e: "(i, nid, hex_encode E (blake3 E d)) \<in> set (entries src)" "fetch s0 nid (blake3 E d) = Done (Some d, s1)"
      using collect_verified[OF assms(1,4)] i len by metis
    then have "hex_encode E (blake3 E d) = hex_encode E (blake3 E (ys ! i))"
      using assms(2) i len by (auto simp: lists_shards_def list_all_iff)
    then have "blake3 E d = blake3 E (ys ! i)" using hex_encode_inj[OF assms(1)] by simp
    then show ?thesis
      using assms(3)[unfolded no_collision_def, rule_format, OF e(2), of "ys ! i"] i Some by simp
  qed simp
qed

lemma collected_enough:
  assumes "hex_ok E" "blake3_ok E" "lists_shards E (entries src) ys" "collect E fetch src s = Done (zs, s')"
  shows "card (available E fetch (entries src) ys) \<le> present zs"
proof -
  have "available E fetch (entries src) ys \<subseteq> {i. i < length zs \<and> zs ! i \<noteq> None}"
    using collect_complete[OF assms(1,2) _ _ _ _ assms(4)] collect_length[OF assms(4)] assms(3)
    by (fastforce simp: available_def lists_shards_def)
  then show ?thesis unfolding present_card by (intro card_mono) auto
qed

text \<open>So with enough deliverable shards the collection is a sufficient selection of the blob's shards.\<close>

lemma collected_ok:
  assumes "hex_ok E" "blake3_ok E" "lists_shards E (entries src) ys" "no_collision E fetch ys"
    and "\<And>s nid h. fetch s nid h \<noteq> Panic" "DATA_SHARDS \<le> card (available E fetch (entries src) ys)"
  obtains zs s' where "collect E fetch src s = Done (zs, s')" "survivors ys zs" "DATA_SHARDS \<le> present zs" "length zs = TOTAL_SHARDS"
proof -
  obtain zs s' where c: "collect E fetch src s = Done (zs, s')" using collect_total assms(5) by metis
  show thesis
    using that[OF c collected_survivors[OF assms(1,3,4) c] _ collect_length[OF c]] collected_enough[OF assms(1-3) c] assms(6) by simp
qed

end

section \<open>The collections satisfy it\<close>

lemma parse_hash_encode: "hex_ok E \<Longrightarrow> parse_shard_hash E (hex_encode E b) = (if length b = 32 then Some b else None)"
  by (simp add: parse_shard_hash_def hex_decode_encode)

lemma fetch_shard_slot:
  assumes "fetch_shard E fetch row full s = Done (full', s')"
  shows "full' = full \<or> (\<exists>i nid h b d s1. row = (i, nid, h) \<and> i < TOTAL_SHARDS \<and> parse_shard_hash E h = Some b
     \<and> fetch s nid b = Done (Some d, s1) \<and> hex_encode E (blake3 E d) = h \<and> full' = full[i := Some d])"
  using assms by (cases row) (auto simp: fetch_shard_def split: if_splits option.splits; cases "fetch s (fst (snd row)) (the (parse_shard_hash E (snd (snd row))))"; auto split: if_splits option.splits prod.splits)

lemma bind_out_Done: "bind_out m f = Done y \<longleftrightarrow> (\<exists>x. m = Done x \<and> f x = Done y)"
  by (cases m) simp_all

lemma fetch_shards_length: "fetch_shards E fetch rows full s = Done (zs, s') \<Longrightarrow> length zs = length full"
proof (induction rows arbitrary: full s)
  case (Cons row rows)
  then show ?case by (auto simp: bind_out_Done dest!: fetch_shard_slot)
qed simp

lemma nth_update_if: "xs[j := x] ! i = (if j = i \<and> j < length xs then x else xs ! i)"
  by (cases "j < length xs") (simp_all add: nth_list_update list_update_beyond)

lemma fetch_shards_verified:
  assumes "hex_ok E" "fetch_shards E fetch rows full s = Done (zs, s')" "i < length full" "zs ! i = Some d"
  shows "full ! i = Some d \<or>
    (\<exists>nid s0 s1. (i, nid, hex_encode E (blake3 E d)) \<in> set rows \<and> fetch s0 nid (blake3 E d) = Done (Some d, s1))"
  using assms(2,3)
proof (induction rows arbitrary: full s)
  case (Cons row rows)
  obtain f1 s1 where st: "fetch_shard E fetch row full s = Done (f1, s1)" "fetch_shards E fetch rows f1 s1 = Done (zs, s')"
    using Cons.prems(1) by (auto simp: bind_out_Done)
  have "length f1 = length full" using fetch_shard_slot[OF st(1)] by auto
  moreover have "f1 ! i = Some d \<Longrightarrow> full ! i = Some d \<or>
      (\<exists>nid s0 s1. (i, nid, hex_encode E (blake3 E d)) = row \<and> fetch s0 nid (blake3 E d) = Done (Some d, s1))"
    using fetch_shard_slot[OF st(1)] Cons.prems(2) parse_hash_encode[OF assms(1)]
    by (auto simp: nth_update_if split: if_splits)
  ultimately show ?case using Cons.IH[OF st(2)] Cons.prems(2) by auto
qed (use assms in simp)

lemma fetch_shards_total:
  assumes "\<And>s nid h. fetch s nid h \<noteq> Panic"
  shows "\<exists>zs s'. fetch_shards E fetch rows full s = Done (zs, s')"
proof (induction rows arbitrary: full s)
  case (Cons row rows)
  have "\<exists>f1 s1. fetch_shard E fetch row full s = Done (f1, s1)"
  proof (cases row)
    case (fields i nid h)
    have "\<exists>r s1. fetch s nid b = Done (r, s1)" for b using assms[of s nid b] by (cases "fetch s nid b") auto
    then have "\<exists>r s1. fetch s nid (the (parse_shard_hash E h)) = Done (r, s1)" .
    then show ?thesis using fields by (auto simp: fetch_shard_def split: option.splits)
  qed
  then show ?case using Cons.IH by fastforce
qed simp

lemma fetch_shards_keep:
  assumes "fetch_shards E fetch rows full s = Done (zs, s')" "i \<notin> fst ` set rows"
  shows "zs ! i = full ! i"
  using assms
proof (induction rows arbitrary: full s)
  case (Cons row rows)
  obtain f1 s1 where st: "fetch_shard E fetch row full s = Done (f1, s1)" "fetch_shards E fetch rows f1 s1 = Done (zs, s')"
    using Cons.prems(1) by (auto simp: bind_out_Done)
  have "f1 ! i = full ! i" using fetch_shard_slot[OF st(1)] Cons.prems(2) by auto
  then show ?case using Cons.IH[OF st(2)] Cons.prems(2) by simp
qed simp

lemma fetch_shards_complete:
  assumes "hex_ok E" "blake3_ok E" "distinct (map fst rows)" "(i, nid, hex_encode E (blake3 E d)) \<in> set rows"
    and "i < TOTAL_SHARDS" "\<And>s. \<exists>s'. fetch s nid (blake3 E d) = Done (Some d, s')"
    and "fetch_shards E fetch rows full s = Done (zs, s')" "length full = TOTAL_SHARDS"
  shows "zs ! i = Some d"
  using assms(3,4,7,8)
proof (induction rows arbitrary: full s)
  case (Cons row rows)
  obtain f1 s1 where st: "fetch_shard E fetch row full s = Done (f1, s1)" "fetch_shards E fetch rows f1 s1 = Done (zs, s')"
    using Cons.prems(3) by (auto simp: bind_out_Done)
  have len: "length f1 = TOTAL_SHARDS" using fetch_shard_slot[OF st(1)] Cons.prems(4) by auto
  show ?case
  proof (cases "(i, nid, hex_encode E (blake3 E d)) = row")
    case True
    obtain s2 where "fetch s nid (blake3 E d) = Done (Some d, s2)" using assms(6) by blast
    moreover have "parse_shard_hash E (hex_encode E (blake3 E d)) = Some (blake3 E d)"
      using parse_hash_encode[OF assms(1), of "blake3 E d"] blake3_len[OF assms(2)] by simp
    ultimately have "f1 = full[i := Some d]" using st(1) assms(5) True by (auto simp: fetch_shard_def)
    moreover have "i \<notin> fst ` set rows" using Cons.prems(1) True[symmetric] by (simp add: set_map[symmetric] del: set_map)
    ultimately show ?thesis using fetch_shards_keep[OF st(2)] Cons.prems(4) assms(5) by simp
  next
    case False
    then show ?thesis using Cons.IH[OF _ _ st(2) len] Cons.prems(1,2) by auto
  qed
qed simp

interpretation rows: shard_collection collect_rows row_shards
proof (unfold_locales, goal_cases)
  case (1 E fetch src s zs s')
  then show ?case using fetch_shards_length by (fastforce simp: collect_rows_def)
next
  case (2 E fetch src s zs s' i d)
  then show ?case using fetch_shards_verified[of E fetch "row_shards src"] by (fastforce simp: collect_rows_def simp del: replicate.simps)
next
  case (3 fetch E src s)
  then show ?case using fetch_shards_total[of fetch] by (simp add: collect_rows_def)
next
  case (4 E src i nid d fetch s zs s')
  then show ?case
    using fetch_shards_complete[of E "row_shards src" i nid d fetch] by (auto simp: collect_rows_def)
qed

section \<open>Lemmas on segments\<close>

lemma backup_facts:
  assumes "cipher_ok E" "rs_ok E d p" "0 < d" "sealable data key" "process_for_backup E data key ctx d p = Ok (ys, n)"
  shows "n = length data + 28" "length ys = d + p" "same_size (div_ceil n d) ys"
    "survivors ys zs \<Longrightarrow> d \<le> present zs \<Longrightarrow> restore_from_backup E zs n key d p = Ok data"
  using process_for_backup_ok[OF assms(1-4), of ctx] assms(5) by (metis Inr_inject Pair_inject)+

definition seg_shard :: "(bytes list \<times> nat) list \<Rightarrow> nat \<Rightarrow> bytes" where
  "seg_shard segs i = concat (map (\<lambda>s. fst s ! i) segs)"

text \<open>The shards of a segmented upload: for each index, the sub-shards of all segments in order.\<close>

definition full_shards :: "(bytes list \<times> nat) list \<Rightarrow> bytes list" where
  "full_shards segs = map (seg_shard segs) [0..<TOTAL_SHARDS]"

definition segments_of :: "ext \<Rightarrow> bytes \<Rightarrow> bytes list \<Rightarrow> (bytes list \<times> nat) list \<Rightarrow> bool" where
  "segments_of E key bufs segs \<longleftrightarrow>
     list_all2 (\<lambda>buf seg. sealable buf key \<and> (\<exists>ctx. process_for_backup E buf key ctx DATA_SHARDS PARITY_SHARDS = Ok seg)) bufs segs"

definition shard_bytes :: "(bytes list \<times> nat) list \<Rightarrow> nat" where
  "shard_bytes segs = sum_list (map (\<lambda>s. div_ceil (snd s) DATA_SHARDS) segs)"

lemma map_out_list_all2: "list_all2 (\<lambda>x y. f x = Done y) xs ys \<Longrightarrow> map_out f xs = Done ys"
  by (induction rule: list_all2_induct) simp_all

definition keep :: "bytes option list \<Rightarrow> bytes list \<Rightarrow> bytes option list" where
  "keep zs ys = map2 (\<lambda>z y. if z = None then None else Some y) zs ys"

lemma keep_survivors: "length zs = length ys \<Longrightarrow> survivors ys (keep zs ys)"
  by (auto simp: survivors_def keep_def list_all2_conv_all_nth)

lemma present_keep: "length zs = length ys \<Longrightarrow> present (keep zs ys) = present zs"
  by (auto simp: present_card keep_def intro!: arg_cong[of _ _ card] split: if_splits)

lemma segment_slices:
  assumes "length pre = TOTAL_SHARDS" "\<forall>x \<in> set pre. length x = off" "length ys = TOTAL_SHARDS" "same_size n ys"
    and "survivors (map (\<lambda>i. pre ! i @ ys ! i @ rest i) [0..<TOTAL_SHARDS]) zs" "off + n < 2 ^ 64"
  shows "map_out (segment_of off n) zs = Done (keep zs ys)"
proof (rule map_out_list_all2, rule list_all2_all_nthI)
  have len: "length zs = TOTAL_SHARDS" using survivors_length[OF assms(5)] by simp
  then show "length zs = length (keep zs ys)" using assms(3) by (simp add: keep_def)
  fix i assume i: "i < length zs"
  then have z: "zs ! i = None \<or> zs ! i = Some (pre ! i @ ys ! i @ rest i)"
    using assms(5) len by (simp add: survivors_def list_all2_conv_all_nth)
  have "length (pre ! i) = off" "length (ys ! i) = n" using assms(1-4) i len by (auto simp: same_size_def)
  then have "slice (pre ! i @ ys ! i @ rest i) off (off + n) = Some (ys ! i)" by (intro slice_mid) auto
  then show "segment_of off n (zs ! i) = Done (keep zs ys ! i)"
    using z i len assms(3,6) \<open>length (pre ! i) = off\<close> \<open>length (ys ! i) = n\<close>
    by (auto simp: segment_of_def keep_def of_slice_def min_def)
qed

lemma restore_segments_ok:
  assumes "cipher_ok E" "rs_ok E DATA_SHARDS PARITY_SHARDS" "segments_of E key bufs segs"
    and "length pre = TOTAL_SHARDS" "\<forall>x \<in> set pre. length x = off"
    and "survivors (map (\<lambda>i. pre ! i @ seg_shard segs i) [0..<TOTAL_SHARDS]) zs" "DATA_SHARDS \<le> present zs"
    and "off + shard_bytes segs < 2 ^ 64" "\<forall>s \<in> set segs. snd s < 2 ^ 64"
  shows "restore_segments E sh zs key off (map (\<lambda>s. int (snd s)) segs) = Done (Ok (concat bufs))"
  using assms(3-6,8,9)
proof (induction bufs arbitrary: segs pre off)
  case Nil
  then show ?case by (simp add: segments_of_def)
next
  case (Cons buf bufs)
  then obtain ys n segs' ctx where s: "segs = (ys, n) # segs'" "sealable buf key"
    "process_for_backup E buf key ctx DATA_SHARDS PARITY_SHARDS = Ok (ys, n)" "segments_of E key bufs segs'"
    by (auto simp: segments_of_def list_all2_Cons1)
  have d: "0 < DATA_SHARDS" "DATA_SHARDS + PARITY_SHARDS = TOTAL_SHARDS" "TOTAL_SHARDS - DATA_SHARDS = PARITY_SHARDS"
    by (simp_all add: DATA_SHARDS_def TOTAL_SHARDS_def)
  note f = backup_facts[OF assms(1,2) d(1) s(2,3)]
  let ?n = "div_ceil n DATA_SHARDS"
  let ?pre = "map (\<lambda>i. pre ! i @ ys ! i) [0..<TOTAL_SHARDS]"
  have cat: "map (\<lambda>i. pre ! i @ seg_shard segs i) [0..<TOTAL_SHARDS] = map (\<lambda>i. ?pre ! i @ seg_shard segs' i) [0..<TOTAL_SHARDS]"
    "map (\<lambda>i. pre ! i @ seg_shard segs i) [0..<TOTAL_SHARDS] = map (\<lambda>i. pre ! i @ ys ! i @ seg_shard segs' i) [0..<TOTAL_SHARDS]"
    by (simp_all add: s(1) seg_shard_def)
  have bytes: "off + ?n + shard_bytes segs' < 2 ^ 64" using Cons.prems(5) by (simp add: s(1) shard_bytes_def)
  have len: "length ys = TOTAL_SHARDS" using f(2) d(2) by simp
  have zl: "length zs = TOTAL_SHARDS" using survivors_length[OF Cons.prems(4)] by simp
  have slices: "map_out (segment_of off ?n) zs = Done (keep zs ys)"
    using segment_slices[OF Cons.prems(2,3) len f(3) Cons.prems(4)[unfolded cat(2)]] bytes by simp
  have seg: "restore_from_backup E (keep zs ys) n key DATA_SHARDS PARITY_SHARDS = Ok buf"
    using f(4) keep_survivors present_keep zl len assms(7) by simp
  have "\<forall>x \<in> set ?pre. length x = off + ?n"
    using Cons.prems(2,3) len f(3) by (auto simp: same_size_def)
  then have "restore_segments E sh zs key (off + ?n) (map (\<lambda>s. int (snd s)) segs') = Done (Ok (concat bufs))"
    using Cons.IH[OF s(4), of ?pre "off + ?n"] Cons.prems(4,6)[unfolded cat(1)] bytes by (simp add: s(1))
  moreover have "as_usize (int n) = n" using Cons.prems(6) by (intro as_usize_int) (simp add: s(1))
  ultimately show ?case using slices seg bytes d(3) by (simp add: s(1))
qed

lemma restore_segmented_ok:
  assumes "cipher_ok E" "rs_ok E DATA_SHARDS PARITY_SHARDS" "segments_of E key bufs segs"
    and "survivors (full_shards segs) zs" "DATA_SHARDS \<le> present zs"
    and "shard_bytes segs < 2 ^ 64" "\<forall>s \<in> set segs. snd s < 2 ^ 64"
  shows "restore_segmented E sh zs (map (\<lambda>s. int (snd s)) segs) key = Done (Ok (concat bufs))"
proof -
  have "map (\<lambda>i. replicate TOTAL_SHARDS [] ! i @ seg_shard segs i) [0..<TOTAL_SHARDS] = full_shards segs"
    by (simp add: full_shards_def)
  then show ?thesis
    using restore_segments_ok[OF assms(1-3), of "replicate TOTAL_SHARDS []" 0 zs sh] assms(4-7)
    by (simp add: restore_segmented_def)
qed

section \<open>Lemmas on restoring a file\<close>

text \<open>A media row describes the backup of \<open>data\<close> under \<open>key\<close> whose shards are \<open>ys\<close>.\<close>

definition describes_single :: "ext \<Rightarrow> bytes \<Rightarrow> bytes \<Rightarrow> media_row \<Rightarrow> bytes list \<Rightarrow> bool" where
  "describes_single E key data r ys \<longleftrightarrow> mr_seg_count r \<le> 1 \<and> sealable data key
     \<and> (\<exists>ctx n. process_for_backup E data key ctx DATA_SHARDS PARITY_SHARDS = Ok (ys, n) \<and> mr_enc_size r = Some (int n) \<and> n < 2 ^ 64)
     \<and> mr_data_shards r \<in> {None, Some (int DATA_SHARDS)} \<and> mr_parity_shards r \<in> {None, Some (int PARITY_SHARDS)}"

definition describes_segmented :: "ext \<Rightarrow> bytes \<Rightarrow> bytes \<Rightarrow> media_row \<Rightarrow> bytes list \<Rightarrow> bool" where
  "describes_segmented E key data r ys \<longleftrightarrow> 1 < mr_seg_count r \<and> mr_enc_size r \<noteq> None
     \<and> (\<exists>bufs segs. data = concat bufs \<and> segments_of E key bufs segs \<and> ys = full_shards segs
          \<and> mr_seg_sizes r = Some (map (\<lambda>s. int (snd s)) segs) \<and> shard_bytes segs < 2 ^ 64 \<and> (\<forall>s \<in> set segs. snd s < 2 ^ 64))"

definition describes :: "ext \<Rightarrow> bytes \<Rightarrow> bytes \<Rightarrow> media_row \<Rightarrow> bytes list \<Rightarrow> bool" where
  "describes E key data r ys \<longleftrightarrow> describes_single E key data r ys \<or> describes_segmented E key data r ys"

definition record_for :: "string \<Rightarrow> media_row \<Rightarrow> bytes \<Rightarrow> int \<Rightarrow> file_record" where
  "record_for media_type r key n = \<lparr>fr_name = mr_name r, fr_ext = mr_ext r, fr_media_type = media_type,
     fr_encryption_key = key, fr_encrypted_size = n, fr_segment_count = mr_seg_count r,
     fr_segment_enc_sizes = mr_seg_sizes r, fr_data_shards = mr_data_shards r, fr_parity_shards = mr_parity_shards r\<rparr>"

lemma restore_plaintext_ok:
  assumes "cipher_ok E" "rs_ok E DATA_SHARDS PARITY_SHARDS" "describes E key data r ys" "mr_enc_size r = Some n"
    and "survivors ys zs" "DATA_SHARDS \<le> present zs"
  shows "restore_plaintext E X (record_for mt r key n) zs = Done (Ok data)"
  using assms(3) unfolding describes_def
proof
  assume "describes_single E key data r ys"
  then obtain ctx m where m: "process_for_backup E data key ctx DATA_SHARDS PARITY_SHARDS = Ok (ys, m)" "n = int m" "m < 2 ^ 64"
      "sealable data key" "mr_seg_count r \<le> 1"
      "mr_data_shards r \<in> {None, Some (int DATA_SHARDS)}" "mr_parity_shards r \<in> {None, Some (int PARITY_SHARDS)}"
    using assms(4) by (auto simp: describes_single_def)
  have "restore_from_backup E zs m key DATA_SHARDS PARITY_SHARDS = Ok data"
    using backup_facts(4)[OF assms(1,2) _ m(4,1) assms(5,6)] by (simp add: DATA_SHARDS_def)
  moreover have "as_usize (int m) = m" "as_usize (int DATA_SHARDS) = DATA_SHARDS" "as_usize (int PARITY_SHARDS) = PARITY_SHARDS"
    using m(3) by (intro as_usize_int; simp add: DATA_SHARDS_def PARITY_SHARDS_def)+
  moreover have "TOTAL_SHARDS - DATA_SHARDS = PARITY_SHARDS" by (simp add: TOTAL_SHARDS_def)
  ultimately show ?thesis using m(2,5,6,7) by (auto simp: restore_plaintext_def record_for_def Let_def)
next
  assume "describes_segmented E key data r ys"
  then obtain bufs segs where "1 < mr_seg_count r" "data = concat bufs" "segments_of E key bufs segs" "ys = full_shards segs"
      "mr_seg_sizes r = Some (map (\<lambda>s. int (snd s)) segs)" "shard_bytes segs < 2 ^ 64" "\<forall>s \<in> set segs. snd s < 2 ^ 64"
    by (auto simp: describes_segmented_def)
  then show ?thesis
    using restore_segmented_ok[OF assms(1,2), of key bufs segs zs "re_show_err X"] assms(5,6)
    by (simp add: restore_plaintext_def record_for_def Let_def)
qed

text \<open>The row a lookup finds, and what it is called in the result.\<close>

definition finds :: "restore_env \<Rightarrow> db \<Rightarrow> string \<Rightarrow> string option \<Rightarrow> string \<Rightarrow> media_row \<Rightarrow> bool" where
  "finds X db file_hash owner mt r \<longleftrightarrow>
     (let u = (case owner of Some uid \<Rightarrow> re_parse_uuid X uid | None \<Rightarrow> None) in
      (mt = ''image'' \<and> filter (owned_by u file_hash) (db_images db) = [r])
      \<or> (mt = ''video'' \<and> filter (owned_by u file_hash) (db_images db) = [] \<and> filter (owned_by u file_hash) (db_videos db) = [r]))"

lemma query_finds:
  assumes "finds X db file_hash owner mt r" "\<forall>k. re_fails X k = None" "mr_key r = Some w" "mr_enc_size r = Some n"
    and "fst (decrypt_key E (re_sha256 X) cache w (re_secret X)) = Ok key"
  shows "query_file_record E X cache db file_hash owner
     = Done (Ok (Some (record_for mt r key n)), snd (decrypt_key E (re_sha256 X) cache w (re_secret X)))"
proof -
  have "read_record E X cache mt r = Done (Ok (record_for mt r key n), snd (decrypt_key E (re_sha256 X) cache w (re_secret X)))"
    using assms(3-5) by (cases "decrypt_key E (re_sha256 X) cache w (re_secret X)") (simp add: read_record_def record_for_def)
  then show ?thesis
    using assms(1,2) by (auto simp: query_file_record_def select_media_def finds_def query_opt_def Let_def)
qed

definition restored :: "string \<Rightarrow> media_row \<Rightarrow> bytes \<Rightarrow> restored_file" where
  "restored mt r data = \<lparr>rf_data = data, rf_filename = mr_name r @ ''.'' @ mr_ext r, rf_media_type = mt\<rparr>"

lemma restore_file_steps:
  assumes "finds X db file_hash owner mt r" "\<forall>k. re_fails X k = None" "mr_key r = Some w" "mr_enc_size r = Some n"
    and "fst (decrypt_key E (re_sha256 X) cache w (re_secret X)) = Ok key"
    and "shards_of db file_hash \<noteq> []" "collect_rows E fetch (shards_of db file_hash) s = Done (zs, s')"
    and "DATA_SHARDS \<le> present zs \<Longrightarrow> restore_plaintext E X (record_for mt r key n) zs = Done (Ok data)"
  shows "DATA_SHARDS \<le> present zs \<Longrightarrow> \<exists>c. restore_file_with_fetcher E X fetch db file_hash owner cache s = Done (Ok (restored mt r data), c, s')"
    and "present zs < DATA_SHARDS \<Longrightarrow> \<exists>e c. restore_file_with_fetcher E X fetch db file_hash owner cache s = Done (Err e, c, s')"
  using query_finds[OF assms(1-5)] assms(2,6-8)
  by (simp_all add: restore_file_with_fetcher_def restored_def record_for_def Let_def)

lemma decrypt_wrapped:
  assumes "keywrap_ok E" "length key = 32" "length nonce = 12" "wrap_key E key secret nonce = Ok w" "cache_from E cache secret"
  shows "fst (decrypt_key E sha256 cache w secret) = Ok key"
proof -
  obtain c where c: "fst (encrypt_key E None nonce key secret) = Ok ([1] @ nonce @ c)" "aead_open E (v1_master E secret) nonce c = Ok key" "length c = 48"
    by (rule encrypt_key_ok[OF assms(1,3,2) master_key_uncached])
  then have "w = [1] @ nonce @ c" using assms(4) by (simp add: wrap_key_def)
  then show ?thesis using decrypt_key_v1[OF assms(3) c(3,2) master_key_cached(1)[OF assms(5)]] by simp
qed

lemma describes_enc_size: "describes E key data r ys \<Longrightarrow> \<exists>n. mr_enc_size r = Some n"
  by (auto simp: describes_def describes_single_def describes_segmented_def)

lemma restore_ok_record:
  assumes "restore_file_with_fetcher E X fetch db file_hash owner cache s = Done (Ok rf, c, s')"
  obtains rec c1 where "query_file_record E X cache db file_hash owner = Done (Ok (Some rec), c1)"
    "rf_filename rf = fr_name rec @ ''.'' @ fr_ext rec"
proof -
  have f: "re_fails X 0 = None" using assms by (auto simp: restore_file_with_fetcher_def split: option.splits)
  obtain q c1 where q: "query_file_record E X cache db file_hash owner = Done (q, c1)"
    using assms f by (auto simp: restore_file_with_fetcher_def bind_out_Done)
  obtain rec where r: "q = Ok (Some rec)"
    using assms f q by (cases q) (auto simp: restore_file_with_fetcher_def split: option.splits)
  have "rf_filename rf = fr_name rec @ ''.'' @ fr_ext rec"
    using assms unfolding restore_file_with_fetcher_def f q r
    by (auto simp: bind_out_Done Let_def result_simps split: option.splits if_splits)
  then show thesis using that q r by blast
qed

lemma read_record_fields: "read_record E X cache mt r = Done (Ok rec, c) \<Longrightarrow> fr_name rec = mr_name r \<and> fr_ext rec = mr_ext r"
  by (auto simp: read_record_def split: option.splits sum.splits prod.splits)

lemma select_media_row: "select_media X k u h rows = Ok (Some r) \<Longrightarrow> r \<in> set rows \<and> owned_by u h r"
  by (cases "filter (owned_by u h) rows")
    (auto simp: select_media_def query_opt_def filter_eq_Cons_iff split: option.splits list.splits)

lemma query_record_row:
  assumes "query_file_record E X cache db file_hash owner = Done (Ok (Some rec), c)"
  shows "\<exists>r \<in> set (db_images db) \<union> set (db_videos db).
     owned_by (case owner of Some uid \<Rightarrow> re_parse_uuid X uid | None \<Rightarrow> None) file_hash r \<and> fr_name rec = mr_name r \<and> fr_ext rec = mr_ext r"
  using assms
  by (auto simp: query_file_record_def Let_def bind_out_Done result_simps dest!: select_media_row read_record_fields
      split: sum.splits option.splits prod.splits)

text \<open>The whole restore, for any catalog row that describes a backup.\<close>

lemma restore_from_catalog:
  fixes fetch :: "'s fetcher"
  assumes "cipher_ok E" "rs_ok E DATA_SHARDS PARITY_SHARDS" "hex_ok E" "keywrap_ok E"
    and "finds X db file_hash owner mt r" "\<forall>k. re_fails X k = None"
    and "length key = 32" "length nonce = 12" "wrap_key E key (re_secret X) nonce = Ok w" "mr_key r = Some w"
    and "cache_from E cache (re_secret X)" "describes E key data r ys"
    and "lists_shards E (row_shards (shards_of db file_hash)) ys" "no_collision E fetch ys"
    and "\<forall>s nid h. fetch s nid h \<noteq> Panic"
  shows "(DATA_SHARDS \<le> card (available E fetch (row_shards (shards_of db file_hash)) ys) \<longrightarrow>
      (\<exists>c s'. restore_file_with_fetcher E X fetch db file_hash owner cache s = Done (Ok (restored mt r data), c, s')))
    \<and> (\<exists>res c s'. restore_file_with_fetcher E X fetch db file_hash owner cache s = Done (res, c, s')
         \<and> (res = Ok (restored mt r data) \<or> (\<exists>e. res = Err e)))"
proof (cases "shards_of db file_hash = []")
  case True
  then have "available E fetch (row_shards (shards_of db file_hash)) ys = {}" by (simp add: available_def row_shards_def)
  moreover obtain n where "mr_enc_size r = Some n" using describes_enc_size[OF assms(12)] by blast
  ultimately show ?thesis
    using True query_finds[OF assms(5,6,10) _ decrypt_wrapped[OF assms(4,7-9,11)]] assms(6)
    by (simp add: restore_file_with_fetcher_def DATA_SHARDS_def Let_def)
next
  case False
  obtain n where n: "mr_enc_size r = Some n" using describes_enc_size[OF assms(12)] by blast
  obtain zs s' where c: "collect_rows E fetch (shards_of db file_hash) s = Done (zs, s')"
    using rows.collect_total[of fetch E "shards_of db file_hash" s] assms(15) by blast
  have sv: "survivors ys zs" by (rule rows.collected_survivors[OF assms(3,13,14) c])
  have "card (available E fetch (row_shards (shards_of db file_hash)) ys) \<le> present zs"
    using rows.collected_enough[OF assms(3) _ assms(13) c] assms(1) by (simp add: cipher_ok_def)
  moreover note restore_file_steps[OF assms(5,6,10) n decrypt_wrapped[OF assms(4,7-9,11)] False c
      restore_plaintext_ok[OF assms(1,2,12) n sv]]
  ultimately show ?thesis by (cases "DATA_SHARDS \<le> present zs") auto
qed

section \<open>An example catalog\<close>

text \<open>A file with its five shards on two nodes, of which only one answers.\<close>

definition toy_renv :: restore_env where
  "toy_renv = \<lparr>re_parse_uuid = (\<lambda>s. if length s = 36 then Some s else None), re_row_count = ''rows'', re_fails = (\<lambda>k. None),
     re_sha256 = (\<lambda>m. replicate 32 0), re_secret = ''pw'', re_show_err = (\<lambda>e. ''error'')\<rparr>"

definition toy_wrapped :: "bytes option" where
  "toy_wrapped = (case wrap_key toy_ext (replicate 32 1) ''pw'' (replicate 12 4) of Inr w \<Rightarrow> Some w | Inl e \<Rightarrow> None)"

definition toy_media :: media_row where
  "toy_media = \<lparr>mr_user = replicate 36 CHR ''u'', mr_hash = ''f'', mr_name = ''a'', mr_ext = ''jpg'', mr_created = 0, mr_deleted = False,
     mr_key = toy_wrapped, mr_enc_size = Some 31, mr_seg_count = 1, mr_seg_sizes = None, mr_data_shards = Some 3,
     mr_parity_shards = None, mr_synced_at = Some 0, mr_last_attempt = None, mr_shard_hash = None\<rparr>"

definition toy_shard_row :: "bytes list \<Rightarrow> nat \<Rightarrow> string \<Rightarrow> shard_row" where
  "toy_shard_row ys i n = \<lparr>sr_file = ''f'', sr_index = int i, sr_node = n, sr_hash = hex_encode toy_ext (blake3 toy_ext (ys ! i)), sr_checked = None\<rparr>"

definition toy_db :: "bytes list \<Rightarrow> db" where
  "toy_db ys = \<lparr>db_images = [toy_media], db_videos = [],
     db_shards = [toy_shard_row ys 4 ''up'', toy_shard_row ys 0 ''up'', toy_shard_row ys 1 ''down'', toy_shard_row ys 2 ''up'', toy_shard_row ys 3 ''down''],
     db_nodes = [\<lparr>nr_id = ''up'', nr_addr = [], nr_active = True, nr_last_seen = 0\<rparr>, \<lparr>nr_id = ''down'', nr_addr = [], nr_active = True, nr_last_seen = 0\<rparr>]\<rparr>"

definition toy_fetch :: "bytes list \<Rightarrow> unit fetcher" where
  "toy_fetch ys s nid h = Done (if nid = ''up'' then List.find (\<lambda>y. blake3 toy_ext y = h) ys else Some (replicate 32 255), s)"

lemma toy_blake3_inj: "length a = length b \<Longrightarrow> length a \<le> 32 \<Longrightarrow> blake3 toy_ext a = blake3 toy_ext b \<Longrightarrow> a = b"
  by (auto simp: toy_ext_def toy_blake3_def take_append)

lemma toy_find:
  assumes "same_size n ys" "n \<le> 32" "i < length ys"
  shows "List.find (\<lambda>y. blake3 toy_ext y = blake3 toy_ext (ys ! i)) ys = Some (ys ! i)"
proof -
  obtain y where y: "List.find (\<lambda>y. blake3 toy_ext y = blake3 toy_ext (ys ! i)) ys = Some y"
    using assms(3) nth_mem by (cases "List.find (\<lambda>y. blake3 toy_ext y = blake3 toy_ext (ys ! i)) ys") (fastforce simp: find_None_iff)+
  then have "y \<in> set ys" "blake3 toy_ext y = blake3 toy_ext (ys ! i)" by (auto simp: find_Some_iff)
  then have "y = ys ! i" using assms toy_blake3_inj[of y "ys ! i"] by (auto simp: same_size_def)
  then show ?thesis using y by simp
qed

lemma toy_no_collision:
  assumes "same_size 11 ys"
  shows "no_collision toy_ext (toy_fetch ys) ys"
  unfolding no_collision_def
proof (intro allI impI)
  fix s nid h d s' y
  assume a: "toy_fetch ys s nid h = Done (Some d, s')" "y \<in> set ys" "blake3 toy_ext d = blake3 toy_ext y"
  show "d = y"
  proof (cases "nid = ''up''")
    case True
    then have "d \<in> set ys" using a(1) by (auto simp: toy_fetch_def find_Some_iff)
    then show ?thesis using a assms toy_blake3_inj[of d y] by (auto simp: same_size_def)
  next
    case False
    then have "blake3 toy_ext d ! 31 = 255" using a(1) by (auto simp: toy_fetch_def toy_ext_def toy_blake3_def nth_append simp del: replicate.simps)
    moreover have "blake3 toy_ext y ! 31 = 0"
      using a(2) assms by (simp add: same_size_def toy_ext_def toy_blake3_def nth_append del: replicate.simps)
    ultimately show ?thesis using a(3) by simp
  qed
qed

section \<open>Properties\<close>



text \<open>The owner of a restore is enforced only when it parses.  For an owner id that is a UUID, a restored
  file comes from a live row of that very user; for any other owner id the restore is the unscoped
  one of an administrator.\<close>

theorem restore_owner_scope:
  "(re_parse_uuid X uid = Some u \<and> restore_file_with_fetcher E X fetch db file_hash (Some uid) cache s = Done (Ok rf, c, s') \<longrightarrow>
      (\<exists>r \<in> set (db_images db) \<union> set (db_videos db). mr_user r = u \<and> mr_hash r = file_hash \<and> \<not> mr_deleted r
         \<and> rf_filename rf = mr_name r @ ''.'' @ mr_ext r))
   \<and> (re_parse_uuid X uid = None \<longrightarrow>
      restore_file_with_fetcher E X fetch db file_hash (Some uid) cache s = restore_file_with_fetcher E X fetch db file_hash None cache s)"
proof (intro conjI impI)
  assume a: "re_parse_uuid X uid = Some u \<and> restore_file_with_fetcher E X fetch db file_hash (Some uid) cache s = Done (Ok rf, c, s')"
  then obtain rec c1 where q: "query_file_record E X cache db file_hash (Some uid) = Done (Ok (Some rec), c1)"
    "rf_filename rf = fr_name rec @ ''.'' @ fr_ext rec"
    using restore_ok_record[of E X fetch db file_hash "Some uid" cache s rf c s'] by metis
  obtain r where "r \<in> set (db_images db) \<union> set (db_videos db)" "owned_by (Some u) file_hash r"
      "fr_name rec = mr_name r" "fr_ext rec = mr_ext r"
    using query_record_row[OF q(1)] a by auto
  then show "\<exists>r \<in> set (db_images db) \<union> set (db_videos db). mr_user r = u \<and> mr_hash r = file_hash \<and> \<not> mr_deleted r
      \<and> rf_filename rf = mr_name r @ ''.'' @ mr_ext r"
    using q(2) by (intro bexI[of _ r]) (auto simp: owned_by_def)
next
  assume "re_parse_uuid X uid = None"
  then have q: "query_file_record E X cache db file_hash (Some uid) = query_file_record E X cache db file_hash None"
    by (simp add: query_file_record_def)
  show "restore_file_with_fetcher E X fetch db file_hash (Some uid) cache s = restore_file_with_fetcher E X fetch db file_hash None cache s"
    unfolding restore_file_with_fetcher_def q by (rule refl)
qed

theorem restore_owner_scope_witness:
  "re_parse_uuid toy_renv ''nobody'' = None
   \<and> restore_file_with_fetcher toy_ext toy_renv (toy_fetch []) (toy_db []) ''f'' (Some ''nobody'') None () =
     restore_file_with_fetcher toy_ext toy_renv (toy_fetch []) (toy_db []) ''f'' None None ()"
  using restore_owner_scope[of toy_renv "''nobody''" _ toy_ext "toy_fetch []" "toy_db []" "''f''" None "()"] by (simp add: toy_renv_def)

end
