(* ===== verification/Replication.thy ===== *)
theory Replication
  imports Restore
begin

text \<open>
  \<open>src/media_replication_worker.rs\<close>: selecting media that need a backup, replicating one file (in memory or
  in segments) and recording the result in the catalog within a transaction, and re-queueing files
  whose shards have become unreachable.  The shared state is the catalog, the cache of the wrapping
  key and the escrow file; the random key and nonce, the file on disk, the order in which upload
  tasks finish and the failures of database calls are inputs.
\<close>

section \<open>State and surroundings\<close>

record repl_state =
  rl_db :: db
  rl_cache :: key_cache
  rl_escrow :: string

text \<open>A file as its three accesses see it: its length, its content read at once, its content read in pieces.\<close>

record disk_file =
  df_len :: "string + nat"
  df_read :: "string + bytes"
  df_reads :: "string + (string + bytes) list"

record repl_cfg =
  rc_data_shards :: nat
  rc_parity_shards :: nat
  rc_batch_size :: int
  rc_base_dir :: "media_table \<Rightarrow> string"
  rc_api_key :: "string + string"

record repl_env =
  rn_up :: up_env
  rn_identity :: node_identity
  rn_show_err :: "np2p_error \<Rightarrow> string"
  rn_files :: "string \<Rightarrow> disk_file option"
  rn_fails :: "nat \<Rightarrow> string option"
  rn_now :: int
  rn_order :: "nat list"
  rn_key :: bytes
  rn_nonce :: bytes
  rn_escrow_opens :: bool
  rn_touch_answers :: bool

section \<open>Recording an upload\<close>

text \<open>Statements executed one after the other; \<open>k\<close> counts the database calls.\<close>

fun exec_all :: "(nat \<Rightarrow> string option) \<Rightarrow> nat \<Rightarrow> ('d \<Rightarrow> 'd) list \<Rightarrow> 'd \<Rightarrow> (string + unit) \<times> 'd" where
  "exec_all fails k [] db = (Ok (), db)"
| "exec_all fails k (f # fs) db =
     (case fails k of Some e \<Rightarrow> (Err e, db) | None \<Rightarrow> exec_all fails (k + 1) fs (f db))"

definition node_upserts :: "int \<Rightarrow> uploaded_shard list \<Rightarrow> (db \<Rightarrow> db) list" where
  "node_upserts now results = map (\<lambda>s. upsert_node now (us_node_id s) (us_addr s)) results"

definition row_of :: "string \<Rightarrow> uploaded_shard \<Rightarrow> shard_row" where
  "row_of file_hash s = \<lparr>sr_file = file_hash, sr_index = as_i32 (us_idx s), sr_node = us_node_id s, sr_hash = us_hash s, sr_checked = None\<rparr>"

definition shard_upserts :: "string \<Rightarrow> uploaded_shard list \<Rightarrow> (db \<Rightarrow> db) list" where
  "shard_upserts file_hash results = map (\<lambda>s. upsert_shard (row_of file_hash s)) results"

text \<open>The nodes are written first, outside the transaction.  In the transaction the shard rows are written,
  \<open>prepare\<close> may still fail, and the media update and the commit end it; a failure in between rolls
  back.\<close>

definition record_upload :: "(nat \<Rightarrow> string option) \<Rightarrow> int \<Rightarrow> string \<Rightarrow> uploaded_shard list \<Rightarrow> string + (db \<Rightarrow> db) \<Rightarrow> db
    \<Rightarrow> (string + unit) \<times> db" where
  "record_upload fails now file_hash results prepare db =
     (let n = length results in
      case fails 0 of
        Some e \<Rightarrow> (Err e, db)
      | None \<Rightarrow>
          (case exec_all fails 1 (node_upserts now results) db of
             (Inl e, db1) \<Rightarrow> (Err e, db1)
           | (Inr _, db1) \<Rightarrow>
               (case fails (n + 1) of
                  Some e \<Rightarrow> (Err e, db1)
                | None \<Rightarrow>
                    (case exec_all fails (n + 2) (shard_upserts file_hash results) db1 of
                       (Inl e, _) \<Rightarrow> (Err e, db1)
                     | (Inr _, db2) \<Rightarrow>
                         (case prepare of
                            Inl e \<Rightarrow> (Err e, db1)
                          | Inr update \<Rightarrow>
                              (case fails (2 * n + 2) of
                                 Some e \<Rightarrow> (Err e, db1)
                               | None \<Rightarrow>
                                   (case fails (2 * n + 3) of
                                      Some e \<Rightarrow> (Err e, db1)
                                    | None \<Rightarrow> (Ok (), update db2))))))))"

text \<open>\<open>append_key_to_escrow\<close>.\<close>

definition append_key_to_escrow :: "ext \<Rightarrow> bool \<Rightarrow> string \<Rightarrow> bytes \<Rightarrow> string \<Rightarrow> string" where
  "append_key_to_escrow E opens file_hash encrypted_key escrow =
     (if opens then escrow @ file_hash @ '','' @ hex_encode E encrypted_key @ [CHR 0x0A] else escrow)"

section \<open>Replicating a file\<close>

definition mark_synced :: "int \<Rightarrow> string \<Rightarrow> bytes \<Rightarrow> nat \<Rightarrow> nat \<Rightarrow> nat \<Rightarrow> media_row \<Rightarrow> media_row" where
  "mark_synced now manifest_hash encrypted_key enc_size data_shards parity_shards m =
     m\<lparr>mr_synced_at := Some now, mr_last_attempt := Some now, mr_shard_hash := Some manifest_hash, mr_key := Some encrypted_key,
       mr_enc_size := Some (as_i32 enc_size), mr_data_shards := Some (as_i32 data_shards), mr_parity_shards := Some (as_i32 parity_shards)\<rparr>"

definition mark_synced_large :: "int \<Rightarrow> bytes \<Rightarrow> nat list \<Rightarrow> nat \<Rightarrow> nat \<Rightarrow> media_row \<Rightarrow> media_row" where
  "mark_synced_large now encrypted_key segment_enc_sizes data_shards parity_shards m =
     m\<lparr>mr_synced_at := Some now, mr_last_attempt := Some now, mr_key := Some encrypted_key, mr_enc_size := Some 0,
       mr_seg_count := as_i32 (length segment_enc_sizes), mr_seg_sizes := Some (map int segment_enc_sizes),
       mr_data_shards := Some (as_i32 data_shards), mr_parity_shards := Some (as_i32 parity_shards)\<rparr>"

definition replicate_large_file :: "ext \<Rightarrow> repl_env \<Rightarrow> media_table \<Rightarrow> (string \<times> sock_addr) list \<Rightarrow> string \<Rightarrow> disk_file \<Rightarrow> string \<Rightarrow> nat \<Rightarrow> nat
    \<Rightarrow> repl_state \<Rightarrow> ((string + unit) \<times> repl_state) outcome" where
  "replicate_large_file E R table nodes file_hash file api_secret data_shards parity_shards st =
     (let encryption_key = rn_key R in
      bind_out (upload_segmented E (rn_up R) (rn_show_err R) (rn_identity R) nodes file_hash (df_reads file) encryption_key data_shards parity_shards)
        (\<lambda>up. Done (case up of
           Inl e \<Rightarrow> (Err e, st)
         | Inr (shard_results, segment_enc_sizes) \<Rightarrow>
             if length shard_results < data_shards
             then (Err (''Only '' @ show_nat (length shard_results) @ ''/'' @ show_nat (data_shards + parity_shards)
                    @ '' shards stored for large file '' @ file_hash @ ''. Minimum '' @ show_nat data_shards @ '' required.''), st)
             else (case encrypt_key E (rl_cache st) (rn_nonce R) encryption_key api_secret of
                     (Inl e, c) \<Rightarrow> (Err e, st\<lparr>rl_cache := c\<rparr>)
                   | (Inr encrypted_key, c) \<Rightarrow>
                       (case record_upload (rn_fails R) (rn_now R) file_hash shard_results
                               (Ok (update_media table (where_hash file_hash
                                  (mark_synced_large (rn_now R) encrypted_key segment_enc_sizes data_shards parity_shards))))
                               (rl_db st) of
                          (Inl e, db) \<Rightarrow> (Err e, st\<lparr>rl_db := db, rl_cache := c\<rparr>)
                        | (Inr _, db) \<Rightarrow>
                            (Ok (), st\<lparr>rl_db := db, rl_cache := c,
                               rl_escrow := append_key_to_escrow E (rn_escrow_opens R) file_hash encrypted_key (rl_escrow st)\<rparr>))))))"

definition replicate_in_memory :: "ext \<Rightarrow> repl_env \<Rightarrow> media_table \<Rightarrow> (string \<times> sock_addr) list \<Rightarrow> string \<Rightarrow> disk_file \<Rightarrow> string \<Rightarrow> nat \<Rightarrow> nat
    \<Rightarrow> repl_state \<Rightarrow> ((string + unit) \<times> repl_state) outcome" where
  "replicate_in_memory E R table nodes file_hash file api_secret data_shards parity_shards st =
     (let encryption_key = rn_key R in
      case bind_res (df_read file) (\<lambda>file_data.
             map_err (rn_show_err R) (process_for_backup E file_data encryption_key encryption_key data_shards parity_shards)) of
        Inl e \<Rightarrow> Done (Err e, st)
      | Inr (shards, enc_size) \<Rightarrow>
          bind_out (upload_inmemory E (rn_up R) (rn_identity R) (rn_order R) nodes file_hash shards) (\<lambda>final_results. Done (
            if length final_results < data_shards
            then (Err (''Only '' @ show_nat (length final_results) @ ''/'' @ show_nat (data_shards + parity_shards)
                   @ '' shards stored. Minimum '' @ show_nat data_shards @ '' required (for reconstruction).''), st)
            else
              let (wrapped, c) = encrypt_key E (rl_cache st) (rn_nonce R) encryption_key api_secret;
                  manifest_hash = hex_encode E (blake3 E (concat (map (\<lambda>s. str_bytes (us_hash s)) final_results)));
                  prepare = bind_res wrapped (\<lambda>encrypted_key. Ok (update_media table (where_hash file_hash
                    (mark_synced (rn_now R) manifest_hash encrypted_key enc_size data_shards parity_shards))))
              in case record_upload (rn_fails R) (rn_now R) file_hash final_results prepare (rl_db st) of
                   (Inl e, db) \<Rightarrow> (Err e, st\<lparr>rl_db := db,
                      rl_cache := if list_all (\<lambda>k. rn_fails R k = None) [0..<2 * length final_results + 2] then c else rl_cache st\<rparr>)
                 | (Inr _, db) \<Rightarrow>
                     (Ok (), st\<lparr>rl_db := db, rl_cache := c,
                        rl_escrow := (case wrapped of
                           Inr encrypted_key \<Rightarrow> append_key_to_escrow E (rn_escrow_opens R) file_hash encrypted_key (rl_escrow st)
                         | Inl e \<Rightarrow> rl_escrow st)\<rparr>))))"

definition touch_attempt :: "repl_env \<Rightarrow> media_table \<Rightarrow> string \<Rightarrow> repl_state \<Rightarrow> repl_state" where
  "touch_attempt R table file_hash st =
     (if rn_fails R 0 = None \<and> rn_fails R 1 = None
      then st\<lparr>rl_db := update_media table (where_hash file_hash (\<lambda>m. m\<lparr>mr_last_attempt := Some (rn_now R)\<rparr>)) (rl_db st)\<rparr>
      else st)"

definition media_path :: "string \<Rightarrow> string \<Rightarrow> string \<Rightarrow> string outcome" where
  "media_path base_dir file_hash ext =
     (if 2 \<le> length file_hash \<and> char_boundary file_hash 2
      then Done (base_dir @ ''/'' @ take 2 file_hash @ ''/'' @ file_hash @ ''.'' @ ext) else Panic)"

definition replicate_single_file :: "ext \<Rightarrow> repl_env \<Rightarrow> repl_cfg \<Rightarrow> media_table \<Rightarrow> (string \<times> sock_addr) list \<Rightarrow> string \<Rightarrow> string \<Rightarrow> string
    \<Rightarrow> repl_state \<Rightarrow> ((string + unit) \<times> repl_state) outcome" where
  "replicate_single_file E R C table nodes file_hash file_ext api_secret st =
     bind_out (media_path (rc_base_dir C table) file_hash file_ext) (\<lambda>path.
       case rn_files R path of
         None \<Rightarrow> Done (Ok (), touch_attempt R table file_hash st)
       | Some file \<Rightarrow>
           (case df_len file of
              Inl e \<Rightarrow> Done (Err e, st)
            | Inr file_size \<Rightarrow>
                if file_size > SEGMENT_THRESHOLD
                then replicate_large_file E R table nodes file_hash file api_secret (rc_data_shards C) (rc_parity_shards C) st
                else replicate_in_memory E R table nodes file_hash file api_secret (rc_data_shards C) (rc_parity_shards C) st))"

section \<open>A batch\<close>

definition RETRY_MS :: int where "RETRY_MS = 10 * 60 * 1000"

definition attempt_due :: "int \<Rightarrow> media_row \<Rightarrow> bool" where
  "attempt_due now m = (case mr_last_attempt m of None \<Rightarrow> True | Some t \<Rightarrow> t < now - RETRY_MS)"

definition to_replicate :: "int \<Rightarrow> int \<Rightarrow> media_row list \<Rightarrow> (string \<times> string) list" where
  "to_replicate now batch_size rows =
     map (\<lambda>m. (mr_hash m, mr_ext m)) (take (nat batch_size)
       (sort_key mr_created (filter (\<lambda>m. mr_synced_at m = None \<and> attempt_due now m) rows)))"

text \<open>The files of a batch in the order in which their database work is done; \<open>Rs k\<close> surrounds the \<open>k\<close>-th.\<close>

fun replicate_files :: "ext \<Rightarrow> (nat \<Rightarrow> repl_env) \<Rightarrow> repl_cfg \<Rightarrow> media_table \<Rightarrow> (string \<times> sock_addr) list \<Rightarrow> string \<Rightarrow> nat \<Rightarrow> (string \<times> string) list
    \<Rightarrow> repl_state \<Rightarrow> (nat \<times> repl_state) outcome" where
  "replicate_files E Rs C table nodes api_secret k [] st = Done (0, st)"
| "replicate_files E Rs C table nodes api_secret k ((file_hash, file_ext) # files) st =
     bind_out (replicate_single_file E (Rs k) C table nodes file_hash file_ext api_secret st) (\<lambda>(res, st1).
       let st2 = (if is_ok res \<or> \<not> rn_touch_answers (Rs k) then st1
                  else st1\<lparr>rl_db := update_media table (where_hash file_hash (\<lambda>m. m\<lparr>mr_last_attempt := Some (rn_now (Rs k))\<rparr>)) (rl_db st1)\<rparr>) in
       bind_out (replicate_files E Rs C table nodes api_secret (k + 1) files st2) (\<lambda>(n, st3).
         Done (if is_ok res then n + 1 else n, st3)))"

record batch_env =
  be_load :: rat
  be_cpus :: nat
  be_fails :: "nat \<Rightarrow> string option"
  be_now :: int
  be_files :: "nat \<Rightarrow> repl_env"

definition replicate_batch :: "ext \<Rightarrow> batch_env \<Rightarrow> repl_cfg \<Rightarrow> (string \<times> sock_addr) list \<Rightarrow> media_table \<Rightarrow> repl_state
    \<Rightarrow> ((string + bool) \<times> repl_state) outcome" where
  "replicate_batch E B C nodes table st =
     (if is_overloaded (calculate_worker_concurrency (be_load B) 0 (be_cpus B)) then Done (Ok False, st)
      else case be_fails B 0 of
        Some e \<Rightarrow> Done (Err e, st)
      | None \<Rightarrow>
          (case be_fails B 1 of
             Some e \<Rightarrow> Done (Err e, st)
           | None \<Rightarrow>
               let files = to_replicate (be_now B) (max (rc_batch_size C) 1) (media_rows (rl_db st) table) in
               if files = [] then Done (Ok False, st)
               else (case rc_api_key C of
                       Inl e \<Rightarrow> Done (Err e, st)
                     | Inr api_secret \<Rightarrow>
                         bind_out (replicate_files E (be_files B) C table nodes api_secret 0 files st) (\<lambda>(successes, st1).
                           Done (Ok (successes > 0), st1)))))"

section \<open>Re-queueing\<close>

text \<open>The shards of a file on nodes that were active within the last ten minutes.\<close>

definition live_shards :: "int \<Rightarrow> db \<Rightarrow> string \<Rightarrow> nat" where
  "live_shards now db file_hash = length (filter (\<lambda>s. sr_file s = file_hash
     \<and> list_ex (\<lambda>n. nr_id n = sr_node s \<and> nr_active n \<and> nr_last_seen n > now - INACTIVE_MS) (db_nodes db)) (db_shards db))"

definition requeue_candidates :: "int \<Rightarrow> db \<Rightarrow> media_table \<Rightarrow> int \<Rightarrow> int \<Rightarrow> string list" where
  "requeue_candidates now db table limit target_shards =
     map mr_hash (take (nat limit) (sort_key mr_created
       (filter (\<lambda>m. int (live_shards now db (mr_hash m)) < target_shards) (media_rows db table))))"

definition requeueable :: "int \<Rightarrow> string list \<Rightarrow> media_row \<Rightarrow> bool" where
  "requeueable now hashes m \<longleftrightarrow> \<not> mr_deleted m \<and> mr_synced_at m \<noteq> None \<and> attempt_due now m \<and> mr_hash m \<in> set hashes"

definition requeue_table :: "int \<Rightarrow> int \<Rightarrow> int \<Rightarrow> media_table \<Rightarrow> db \<Rightarrow> nat \<times> db" where
  "requeue_table now limit target_shards table db =
     (let hashes = requeue_candidates now db table limit target_shards in
      (length (filter (requeueable now hashes) (media_rows db table)),
       update_media table (\<lambda>m. if requeueable now hashes m then m\<lparr>mr_synced_at := None\<rparr> else m) db))"

definition requeue_under_replicated :: "(nat \<Rightarrow> string option) \<Rightarrow> int \<Rightarrow> int \<Rightarrow> int \<Rightarrow> db \<Rightarrow> (string + nat) \<times> db" where
  "requeue_under_replicated fails now limit target_shards db =
     (case fails 0 of
        Some e \<Rightarrow> (Err e, db)
      | None \<Rightarrow>
          (case fails 1 of
             Some e \<Rightarrow> (Err e, db)
           | None \<Rightarrow>
               (case requeue_table now limit target_shards Images db of (n1, db1) \<Rightarrow>
                  (case fails 2 of
                     Some e \<Rightarrow> (Err e, db1)
                   | None \<Rightarrow> (case requeue_table now limit target_shards Videos db1 of (n2, db2) \<Rightarrow> (Ok (n1 + n2), db2))))))"

text \<open>One round of the worker.\<close>

definition replicate_all :: "ext \<Rightarrow> (nat \<Rightarrow> string option) \<Rightarrow> (media_table \<Rightarrow> batch_env) \<Rightarrow> repl_cfg \<Rightarrow> int \<Rightarrow> registry \<Rightarrow> repl_state
    \<Rightarrow> ((string + bool) \<times> repl_state) outcome" where
  "replicate_all E fails Bs C now r st =
     (let nodes = map (\<lambda>p. (pi_node_id p, pi_addr p)) (all_peers r) in
      if nodes = [] then Done (Ok False, st)
      else if length nodes < MIN_NODES_REQUIRED then Done (Ok False, st)
      else case requeue_under_replicated fails now (max (rc_batch_size C) 1) (int (rc_data_shards C)) (rl_db st) of (rq, db) \<Rightarrow>
        let requeued = (case rq of Inr n \<Rightarrow> n | Inl e \<Rightarrow> 0); st1 = st\<lparr>rl_db := db\<rparr> in
        bind_out (replicate_batch E (Bs Images) C nodes Images st1) (\<lambda>(res1, st2).
          case res1 of
            Inl e \<Rightarrow> Done (Err (''Failed to replicate image batch: '' @ e), st2)
          | Inr images_done \<Rightarrow>
              bind_out (replicate_batch E (Bs Videos) C nodes Videos st2) (\<lambda>(res2, st3).
                Done (case res2 of
                        Inl e \<Rightarrow> (Err (''Failed to replicate video batch: '' @ e), st3)
                      | Inr videos_done \<Rightarrow> (Ok (images_done \<or> videos_done \<or> requeued > 0), st3)))))"

section \<open>Lemmas on recording\<close>

text \<open>What no statement outside the transaction touches.\<close>

definition same_media :: "db \<Rightarrow> db \<Rightarrow> bool" where
  "same_media a b \<longleftrightarrow> db_images a = db_images b \<and> db_videos a = db_videos b \<and> db_shards a = db_shards b"

lemma same_media_refl [simp]: "same_media a a"
  by (simp add: same_media_def)

lemma same_media_upsert_node: "same_media a (upsert_node now n addr b) = same_media a b"
  by (simp add: same_media_def upsert_node_def)

lemma exec_all_ok: "exec_all fails k fs db = (Ok (), db') \<Longrightarrow> db' = fold (\<lambda>f. f) fs db"
  by (induction fails k fs db rule: exec_all.induct) (auto split: option.splits)

lemma exec_all_invariant:
  assumes "exec_all fails k fs db = (res, db')" "\<And>f d. f \<in> set fs \<Longrightarrow> P d \<Longrightarrow> P (f d)" "P db"
  shows "P db'"
  using assms by (induction fails k fs db rule: exec_all.induct) (auto split: option.splits)

lemma upsert_node_ids: "nr_id ` set (db_nodes (upsert_node now n a db)) = insert n (nr_id ` set (db_nodes db))"
proof -
  have "set (map nr_id (upsert_node_rows now n a (db_nodes db))) = insert n (nr_id ` set (db_nodes db))"
    unfolding upsert_node_keys by auto
  then show ?thesis by (simp add: upsert_node_def)
qed

lemma upsert_node_db_ok: "db_ok db \<Longrightarrow> db_ok (upsert_node now n a db)"
proof -
  assume "db_ok db"
  moreover have "distinct (map nr_id (db_nodes db)) \<Longrightarrow> distinct (map nr_id (db_nodes (upsert_node now n a db)))"
    by (auto simp: upsert_node_def upsert_node_keys)
  moreover have "db_shards (upsert_node now n a db) = db_shards db" by (simp add: upsert_node_def)
  ultimately show ?thesis unfolding db_ok_def upsert_node_ids by auto
qed

lemma db_nodes_upsert_shard: "db_nodes (upsert_shard s db) = db_nodes db"
  by (simp add: upsert_shard_def)

lemma upsert_shard_rows_nodes: "sr_node ` set (upsert_shard_rows s rs) \<subseteq> insert (sr_node s) (sr_node ` set rs)"
  by (induction rs) auto

lemma upsert_shard_db_ok: "db_ok db \<Longrightarrow> sr_node s \<in> nr_id ` set (db_nodes db) \<Longrightarrow> db_ok (upsert_shard s db)"
proof -
  assume a: "db_ok db" "sr_node s \<in> nr_id ` set (db_nodes db)"
  have "sr_node ` set (upsert_shard_rows s (db_shards db)) \<subseteq> nr_id ` set (db_nodes db)"
    by (rule subset_trans[OF upsert_shard_rows_nodes]) (use a in \<open>simp add: db_ok_def\<close>)
  then show ?thesis
    using a shards.put_distinct[of "db_shards db" s] unfolding db_ok_def upsert_shard_def by simp
qed

lemma update_media_keeps [simp]: "db_shards (update_media t f db) = db_shards db" "db_nodes (update_media t f db) = db_nodes db"
  "db_ok (update_media t f db) = db_ok db"
  by (cases t; simp add: db_ok_def)+

lemma media_rows_update [simp]: "media_rows (update_media t f db) t = map f (media_rows db t)"
  "t' \<noteq> t \<Longrightarrow> media_rows (update_media t f db) t' = media_rows db t'"
  by (cases t; cases t'; simp)+

lemma fold_upserts_nodes:
  "db_nodes (fold (\<lambda>f. f) (shard_upserts h rs) db) = db_nodes db"
  "db_shards (fold (\<lambda>f. f) (shard_upserts h rs) db) = fold upsert_shard_rows (map (row_of h) rs) (db_shards db)"
  "media_rows (fold (\<lambda>f. f) (shard_upserts h rs) db) t = media_rows db t"
  by (induction rs arbitrary: db; cases t; simp add: shard_upserts_def upsert_shard_def)+

lemma node_upserts_effect:
  assumes "exec_all fails k (node_upserts now rs) db = (res, db')" "db_ok db"
  shows "db_ok db' \<and> same_media db db'" "res = Ok () \<Longrightarrow> us_node_id ` set rs \<subseteq> nr_id ` set (db_nodes db')"
proof -
  show "db_ok db' \<and> same_media db db'"
    by (rule exec_all_invariant[OF assms(1), of "\<lambda>d. db_ok d \<and> same_media db d"])
      (use assms(2) in \<open>auto simp: node_upserts_def upsert_node_db_ok same_media_upsert_node\<close>)
  have "us_node_id ` set rs \<subseteq> nr_id ` set (db_nodes (fold (\<lambda>f. f) (node_upserts now rs) d))
      \<and> nr_id ` set (db_nodes d) \<subseteq> nr_id ` set (db_nodes (fold (\<lambda>f. f) (node_upserts now rs) d))" for d
  proof (induction rs arbitrary: d)
    case (Cons r rs)
    show ?case using Cons[of "upsert_node now (us_node_id r) (us_addr r) d"] by (auto simp: node_upserts_def upsert_node_ids)
  qed (simp add: node_upserts_def)
  then show "us_node_id ` set rs \<subseteq> nr_id ` set (db_nodes db')" if "res = Ok ()"
    using exec_all_ok[of fails k "node_upserts now rs" db db'] assms(1) that by simp
qed

lemma shard_upserts_db_ok:
  assumes "exec_all fails k (shard_upserts h rs) db = (res, db')" "db_ok db" "us_node_id ` set rs \<subseteq> nr_id ` set (db_nodes db)"
  shows "db_ok db'"
proof -
  have "db_ok db' \<and> db_nodes db' = db_nodes db"
    by (rule exec_all_invariant[OF assms(1), of "\<lambda>d. db_ok d \<and> db_nodes d = db_nodes db"])
      (use assms(2,3) in \<open>auto simp: shard_upserts_def db_nodes_upsert_shard row_of_def intro!: upsert_shard_db_ok\<close>)
  then show ?thesis by simp
qed

text \<open>An upload is recorded completely or, apart from node addresses, not at all.\<close>

lemma record_upload_cases:
  assumes "record_upload fails now h rs prepare db = (res, db')" "db_ok db"
  obtains (failed) e where "res = Err e" "same_media db db'" "db_ok db'"
  | (recorded) update db1 where "res = Ok ()" "prepare = Ok update" "same_media db db1" "db_ok (fold (\<lambda>f. f) (shard_upserts h rs) db1)"
      "db' = update (fold (\<lambda>f. f) (shard_upserts h rs) db1)"
proof (cases "fails 0")
  case (Some e)
  then show thesis using assms failed[of e] by (auto simp: record_upload_def Let_def)
next
  case None
  obtain r1 db1 where n: "exec_all fails 1 (node_upserts now rs) db = (r1, db1)" by fastforce
  note ne = node_upserts_effect[OF n assms(2)]
  obtain r2 db2 where t: "exec_all fails (length rs + 2) (shard_upserts h rs) db1 = (r2, db2)" by fastforce
  show thesis
  proof (cases "res = Ok ()")
    case True
    then obtain update where u: "r1 = Ok ()" "r2 = Ok ()" "prepare = Ok update" "db' = update db2"
      using assms(1) None n t by (auto simp: record_upload_def Let_def split: option.splits sum.splits prod.splits)
    have "db2 = fold (\<lambda>f. f) (shard_upserts h rs) db1" by (rule exec_all_ok[OF t[unfolded u(2)]])
    moreover have "db_ok db2" using shard_upserts_db_ok[OF t] ne u(1) by blast
    ultimately show thesis using recorded True u(3,4) ne(1) by blast
  next
    case False
    then have "db' = db1" "\<exists>e. res = Err e"
      using assms(1) None n t by (auto simp: record_upload_def Let_def split: option.splits sum.splits prod.splits)
    then show thesis using failed ne(1) by blast
  qed
qed

text \<open>How the two ways of replicating a file end.\<close>

lemma replicate_large_cases:
  assumes "replicate_large_file E R t nodes h file secret d p st = Done (res, st')" "db_ok (rl_db st)"
  obtains (failed) e where "res = Err e" "same_media (rl_db st) (rl_db st')" "db_ok (rl_db st')" "rl_escrow st' = rl_escrow st"
  | (stored) results sizes w db1 where "res = Ok ()"
      "upload_segmented E (rn_up R) (rn_show_err R) (rn_identity R) nodes h (df_reads file) (rn_key R) d p = Done (Ok (results, sizes))"
      "d \<le> length results" "fst (encrypt_key E (rl_cache st) (rn_nonce R) (rn_key R) secret) = Ok w"
      "same_media (rl_db st) db1" "db_ok (fold (\<lambda>f. f) (shard_upserts h results) db1)"
      "rl_db st' = update_media t (where_hash h (mark_synced_large (rn_now R) w sizes d p)) (fold (\<lambda>f. f) (shard_upserts h results) db1)"
proof -
  obtain up where up: "upload_segmented E (rn_up R) (rn_show_err R) (rn_identity R) nodes h (df_reads file) (rn_key R) d p = Done up"
    using assms(1) by (auto simp: replicate_large_file_def Let_def bind_out_Done)
  show thesis
  proof (cases up)
    case (Inl e)
    then show thesis using assms up failed[of e] by (auto simp: replicate_large_file_def Let_def)
  next
    case (Inr rs)
    obtain results sizes where rs: "rs = (results, sizes)" by fastforce
    obtain w c where w: "encrypt_key E (rl_cache st) (rn_nonce R) (rn_key R) secret = (w, c)" by fastforce
    consider (few) "length results < d" | (nokey) e where "d \<le> length results" "w = Err e"
      | (go) k where "d \<le> length results" "w = Ok k" by (cases w) force+
    then show thesis
    proof cases
      case go
      let ?u = "update_media t (where_hash h (mark_synced_large (rn_now R) k sizes d p))"
      obtain r db' where ru: "record_upload (rn_fails R) (rn_now R) h results (Ok ?u) (rl_db st) = (r, db')" by fastforce
      have st: "res = r" "rl_db st' = db'" "(\<exists>e. r = Err e) \<Longrightarrow> rl_escrow st' = rl_escrow st"
        using assms(1) up Inr rs w go ru by (auto simp: replicate_large_file_def Let_def split: sum.splits)
      from ru assms(2) show thesis
      proof (cases rule: record_upload_cases)
        case (failed e)
        then show thesis using that(1) st by blast
      next
        case (recorded update db1)
        then show thesis using that(2)[of results sizes k db1] st up Inr rs w go by simp
      qed
    qed (use assms up Inr rs w failed in \<open>auto simp: replicate_large_file_def Let_def\<close>)
  qed
qed

lemma replicate_in_memory_cases:
  assumes "replicate_in_memory E R t nodes h file secret d p st = Done (res, st')" "db_ok (rl_db st)"
  obtains (failed) e where "res = Err e" "same_media (rl_db st) (rl_db st')" "db_ok (rl_db st')" "rl_escrow st' = rl_escrow st"
  | (stored) data ys n results w mh db1 where "res = Ok ()" "df_read file = Ok data"
      "process_for_backup E data (rn_key R) (rn_key R) d p = Ok (ys, n)"
      "upload_inmemory E (rn_up R) (rn_identity R) (rn_order R) nodes h ys = Done results"
      "d \<le> length results" "fst (encrypt_key E (rl_cache st) (rn_nonce R) (rn_key R) secret) = Ok w"
      "same_media (rl_db st) db1" "db_ok (fold (\<lambda>f. f) (shard_upserts h results) db1)"
      "rl_db st' = update_media t (where_hash h (mark_synced (rn_now R) mh w n d p)) (fold (\<lambda>f. f) (shard_upserts h results) db1)"
proof -
  let ?b = "bind_res (df_read file) (\<lambda>data. map_err (rn_show_err R) (process_for_backup E data (rn_key R) (rn_key R) d p))"
  show thesis
  proof (cases ?b)
    case (Inl e)
    then show thesis using assms failed[of e] by (auto simp: replicate_in_memory_def Let_def)
  next
    case (Inr b)
    obtain ys n where b: "b = (ys, n)" by fastforce
    obtain data where data: "df_read file = Ok data" "process_for_backup E data (rn_key R) (rn_key R) d p = Ok (ys, n)"
      using Inr b by (auto simp: result_simps)
    obtain results where up: "upload_inmemory E (rn_up R) (rn_identity R) (rn_order R) nodes h ys = Done results"
      using assms(1) Inr b by (auto simp: replicate_in_memory_def Let_def bind_out_Done)
    obtain w c where w: "encrypt_key E (rl_cache st) (rn_nonce R) (rn_key R) secret = (w, c)" by fastforce
    let ?mh = "hex_encode E (blake3 E (concat (map (\<lambda>s. str_bytes (us_hash s)) results)))"
    let ?p = "bind_res w (\<lambda>k. Ok (update_media t (where_hash h (mark_synced (rn_now R) ?mh k n d p))))"
    show thesis
    proof (cases "length results < d")
      case True
      then show thesis using assms Inr b up failed by (auto simp: replicate_in_memory_def Let_def)
    next
      case False
      obtain r db' where ru: "record_upload (rn_fails R) (rn_now R) h results ?p (rl_db st) = (r, db')" by fastforce
      have st: "res = r" "rl_db st' = db'" "(\<exists>e. r = Err e) \<Longrightarrow> rl_escrow st' = rl_escrow st"
        using assms(1) Inr b up w False ru by (auto simp: replicate_in_memory_def Let_def split: sum.splits)
      from ru assms(2) show thesis
      proof (cases rule: record_upload_cases)
        case (failed e)
        then show thesis using that(1) st by blast
      next
        case (recorded update db1)
        then obtain k where k: "w = Ok k" "update = update_media t (where_hash h (mark_synced (rn_now R) ?mh k n d p))"
          by (auto simp: result_simps)
        show thesis using that(2)[OF _ data up, of k db1 ?mh] recorded k st w False by simp
      qed
    qed
  qed
qed

section \<open>Lemmas on what was uploaded\<close>

lemma store_shard_hash: "store_shard E U i a fh idx d = Ok h \<Longrightarrow> h = hex_encode E (blake3 E d)"
  by (auto simp: store_shard_def result_simps)

lemma stream_one_shard_hash:
  assumes "stream_one_shard E U i a fh idx chunks = Ok h"
  shows "h = hex_encode E (blake3 E (concat chunks))"
proof -
  let ?final = "\<lambda>reply. case reply of
      StoreShardStreamResponse success av \<Rightarrow>
        if success then Ok (hex_encode E (blake3 E (concat chunks))) else Err ''node rejected shard stream (success=false)''
    | other \<Rightarrow> Err (''node rejected shard stream: '' @ ue_show_msg U other)"
  have f: "?final reply = Ok h \<Longrightarrow> h = hex_encode E (blake3 E (concat chunks))" for reply
    by (cases reply) (auto split: if_splits)
  obtain C ack where "(case ack of
         StoreShardStreamAck True \<Rightarrow>
           bind_res (send_all C (map StoreShardChunk chunks)) (\<lambda>_.
           bind_res (pc_tx C (StoreShardStreamFinal (blake3 E (concat chunks)))) (\<lambda>_.
           bind_res (rx C (init_msg E U i fh (word_of_nat idx) # map StoreShardChunk chunks @ [StoreShardStreamFinal (blake3 E (concat chunks))]) 1) ?final))
       | other \<Rightarrow> Err (''unexpected stream ack: '' @ ue_show_msg U other)) = Ok h"
    using assms unfolding stream_one_shard_def Let_def bind_res_Ok_iff by blast
  then have "\<exists>reply. ?final reply = Ok h"
    by (cases ack) (auto simp: bind_res_Ok_iff simp del: append_Cons append_Nil split: bool.splits)
  then show ?thesis using f by blast
qed

lemma map_filter_keys:
  assumes "\<And>x y. x \<in> set xs \<Longrightarrow> g x = Some y \<Longrightarrow> f y = x"
  shows "map f (List.map_filter g xs) = filter (\<lambda>x. g x \<noteq> None) xs"
  using assms by (induction xs) (auto simp: List.map_filter_simps split: option.splits)

text \<open>The recorded results name distinct indices, each with the hash of the shard of that index.\<close>

definition results_of :: "ext \<Rightarrow> bytes list \<Rightarrow> uploaded_shard list \<Rightarrow> bool" where
  "results_of E ys results \<longleftrightarrow> distinct (map us_idx results)
     \<and> list_all (\<lambda>r. us_idx r < length ys \<and> us_hash r = hex_encode E (blake3 E (ys ! us_idx r))) results"

lemma results_of_map_filter:
  assumes "\<And>x y. x \<in> set order \<Longrightarrow> g x = Some y \<Longrightarrow> us_idx y = x \<and> us_hash y = hex_encode E (blake3 E (ys ! x))" "distinct order" "set order \<subseteq> {..<length ys}"
  shows "results_of E ys (List.map_filter g order)"
proof -
  have "map us_idx (List.map_filter g order) = filter (\<lambda>x. g x \<noteq> None) order" using map_filter_keys[of order g us_idx] assms(1) by blast
  moreover have "us_idx r < length ys \<and> us_hash r = hex_encode E (blake3 E (ys ! us_idx r))" if r: "r \<in> set (List.map_filter g order)" for r
  proof -
    obtain x where "x \<in> set order" "g x = Some r" using r by (auto simp: List.map_filter_def)
    then show ?thesis using assms(1)[of x r] assms(3) by auto
  qed
  ultimately show ?thesis using assms(2) by (simp add: results_of_def list_all_iff)
qed

lemma upload_inmemory_results:
  assumes "upload_inmemory E U i order nodes h ys = Done results" "distinct order" "set order \<subseteq> {..<length ys}"
  shows "results_of E ys results"
proof -
  let ?t = "rendezvous_select E h nodes (max (min (length ys) (length nodes)) 1)"
  let ?g = "\<lambda>idx. case store_shard E U i (snd (?t ! (idx mod length ?t))) (blake3 E (str_bytes h)) (word_of_nat idx) (ys ! idx) of
      Inr hh \<Rightarrow> Some (uploaded U ?t idx hh) | Inl e \<Rightarrow> None"
  have "results = List.map_filter ?g order" using assms(1) by (simp add: upload_inmemory_def Let_def split: if_splits del: One_nat_def)
  moreover have "results_of E ys (List.map_filter ?g order)"
    by (rule results_of_map_filter) (use assms(2,3) in \<open>auto dest!: store_shard_hash simp: uploaded_def split: sum.splits prod.splits\<close>)
  ultimately show ?thesis by simp
qed

lemma concat_shard_stream: "concat (shard_stream segs i) = seg_shard segs i"
proof -
  have "concat (chunks_of CHUNK_MSG_SIZE x) = x" for x :: bytes by (rule concat_chunks_of) (simp add: CHUNK_MSG_SIZE_def)
  then show ?thesis by (induction segs) (auto simp: shard_stream_def seg_shard_def case_prod_unfold)
qed

lemma not_panic: "(if P then Panic else Done x) = Done y \<Longrightarrow> x = y"
  by (simp split: if_splits)

lemma upload_segmented_results:
  assumes "upload_segmented E U sh i nodes h file key DATA_SHARDS PARITY_SHARDS = Done (Ok (results, sizes))"
  obtains reads segs where "file = Ok reads" "seg_loop E sh key DATA_SHARDS PARITY_SHARDS 0 reads = Ok segs" "sizes = map snd segs"
    "results_of E (full_shards segs) results"
proof -
  let ?n = "DATA_SHARDS + PARITY_SHARDS"
  let ?t = "rendezvous_select E h nodes (max (min ?n (length nodes)) 1)"
  let ?g = "\<lambda>segs idx. case stream_one_shard E U i (snd (?t ! (idx mod length ?t))) (blake3 E (str_bytes h)) idx (shard_stream segs idx) of
      Inr hh \<Rightarrow> Some (uploaded U ?t idx hh) | Inl e \<Rightarrow> None"
  have "bind_res file (\<lambda>reads. bind_res (seg_loop E sh key DATA_SHARDS PARITY_SHARDS 0 reads) (\<lambda>segs.
      Ok (List.map_filter (?g segs) [0..<?n], map snd segs))) = Ok (results, sizes)"
    using assms unfolding upload_segmented_def Let_def by (rule not_panic)
  then obtain reads segs where r: "file = Ok reads" "seg_loop E sh key DATA_SHARDS PARITY_SHARDS 0 reads = Ok segs" "sizes = map snd segs"
    "results = List.map_filter (?g segs) [0..<?n]"
    unfolding bind_res_Ok_iff by blast
  have "us_idx y = x \<and> us_hash y = hex_encode E (blake3 E (full_shards segs ! x))" if "?g segs x = Some y" "x < ?n" for x y
    using that by (auto dest!: stream_one_shard_hash simp: uploaded_def concat_shard_stream full_shards_def TOTAL_SHARDS_def
        split: sum.splits prod.splits)
  then have "results_of E (full_shards segs) (List.map_filter (?g segs) [0..<?n])"
    by (intro results_of_map_filter) (auto simp: full_shards_def TOTAL_SHARDS_def)
  then show thesis using that r by simp
qed

section \<open>Lemmas on reading a file in segments\<close>

text \<open>The reads of a file that is there: some non-empty pieces, then the end.\<close>

lemma read_full_pieces:
  assumes "[] \<notin> set bs"
  obtains bs' where "read_full n (map Inr bs) = (Ok (take n (concat bs)), map Inr bs')" "[] \<notin> set bs'" "concat bs' = drop n (concat bs)"
  using assms
proof (induction bs arbitrary: n thesis)
  case Nil
  then show ?case by simp
next
  case (Cons b bs)
  consider "n = 0" | "0 < n" "length b \<le> n" | "0 < n" "n < length b" by linarith
  then show ?case
  proof cases
    case 1
    then show ?thesis using Cons.prems(1)[of "b # bs"] Cons.prems(2) by auto
  next
    case 2
    obtain bs' where "read_full (n - length b) (map Inr bs) = (Ok (take (n - length b) (concat bs)), map Inr bs')"
      "[] \<notin> set bs'" "concat bs' = drop (n - length b) (concat bs)"
      using Cons.IH[of "n - length b"] Cons.prems(2) by auto
    moreover have "b \<noteq> []" using Cons.prems(2) by auto
    ultimately show ?thesis using Cons.prems(1)[of bs'] 2 by simp
  next
    case 3
    then show ?thesis using Cons.prems(1)[of "drop n b # bs"] Cons.prems(2) by auto
  qed
qed

lemma seg_loop_segments:
  assumes "seg_loop E sh key DATA_SHARDS PARITY_SHARDS k (map Inr bs) = Ok segs" "[] \<notin> set bs" "length key = KEY_SIZE"
  obtains bufs where "concat bufs = concat bs" "segments_of E key bufs segs" "\<forall>b \<in> set bufs. length b \<le> SEGMENT_THRESHOLD"
    "length bufs * SEGMENT_THRESHOLD < length (concat bs) + SEGMENT_THRESHOLD"
proof -
  have "\<exists>bufs. concat bufs = concat bs \<and> segments_of E key bufs segs \<and> (\<forall>b \<in> set bufs. length b \<le> SEGMENT_THRESHOLD)
      \<and> length bufs * SEGMENT_THRESHOLD < length (concat bs) + SEGMENT_THRESHOLD"
    using assms(1,2)
  proof (induction "length (concat bs)" arbitrary: bs k segs rule: less_induct)
    case less
    obtain bs' where r: "read_full SEGMENT_THRESHOLD (map Inr bs) = (Ok (take SEGMENT_THRESHOLD (concat bs)), map Inr bs')"
      "[] \<notin> set bs'" "concat bs' = drop SEGMENT_THRESHOLD (concat bs)"
      using read_full_pieces[OF less.prems(2)] by metis
    let ?b = "take SEGMENT_THRESHOLD (concat bs)"
    show ?case
    proof (cases "?b = []")
      case True
      then have "concat bs = []" by (simp add: SEGMENT_THRESHOLD_def)
      moreover have "segs = []" using less.prems(1) r(1) True by (simp add: seg_loop.simps)
      ultimately show ?thesis by (intro exI[of _ "[]"]) (simp add: segments_of_def SEGMENT_THRESHOLD_def)
    next
      case False
      have "bind_res (map_err sh (process_for_backup E ?b key (key @ u32_le k) DATA_SHARDS PARITY_SHARDS)) (\<lambda>seg.
          bind_res (seg_loop E sh key DATA_SHARDS PARITY_SHARDS (k + 1) (map Inr bs')) (\<lambda>segs. Ok (seg # segs))) = Ok segs"
        using less.prems(1) by (simp only: seg_loop.simps[of E sh key _ _ k] r(1) prod.case sum.case False if_False)
      then obtain seg segs' where s: "process_for_backup E ?b key (key @ u32_le k) DATA_SHARDS PARITY_SHARDS = Ok seg"
        "seg_loop E sh key DATA_SHARDS PARITY_SHARDS (k + 1) (map Inr bs') = Ok segs'" "segs = seg # segs'"
        unfolding bind_res_Ok_iff map_err_Ok_iff by blast
      have "length (concat bs') < length (concat bs)" using False r(3) by (simp add: SEGMENT_THRESHOLD_def)
      then obtain bufs where b: "concat bufs = concat bs'" "segments_of E key bufs segs'" "\<forall>b \<in> set bufs. length b \<le> SEGMENT_THRESHOLD"
        "length bufs * SEGMENT_THRESHOLD < length (concat bs') + SEGMENT_THRESHOLD"
        using less.hyps[OF _ s(2) r(2)] by auto
      have "sealable ?b key" using assms(3) by (simp add: sealable_def SEGMENT_THRESHOLD_def aead_max_def)
      then have "segments_of E key (?b # bufs) segs" using s b(2) by (auto simp: segments_of_def)
      moreover have "length (?b # bufs) * SEGMENT_THRESHOLD < length (concat bs) + SEGMENT_THRESHOLD"
      proof (cases "SEGMENT_THRESHOLD \<le> length (concat bs)")
        case True
        then show ?thesis using b(4) unfolding r(3) by simp
      next
        case short: False
        then have "length bufs * SEGMENT_THRESHOLD < SEGMENT_THRESHOLD" using b(4) unfolding r(3) by simp
        then have "bufs = []" by (cases bufs) simp_all
        then show ?thesis using False by (cases "concat bs") (simp_all del: concat_eq_Nil_conv)
      qed
      ultimately show ?thesis using b(1,3) r(3) by (intro exI[of _ "?b # bufs"]) simp
    qed
  qed
  then show thesis using that by blast
qed

lemma segments_length: "segments_of E key bufs segs \<Longrightarrow> length segs = length bufs"
  by (simp add: segments_of_def list_all2_lengthD)

lemma many_segments:
  assumes "\<forall>b \<in> set bufs. length b \<le> n" "n < length (concat bufs)"
  shows "1 < length bufs"
proof (rule ccontr)
  assume "\<not> 1 < length bufs"
  then consider "bufs = []" | b where "bufs = [b]" by (cases bufs; cases "tl bufs") auto
  then show False using assms by cases auto
qed

lemma segments_sizes:
  assumes "cipher_ok E" "rs_ok E DATA_SHARDS PARITY_SHARDS" "segments_of E key bufs segs"
  shows "map snd segs = map (\<lambda>b. length b + 28) bufs"
  using assms(3)
proof (induction bufs arbitrary: segs)
  case (Cons b bufs)
  then obtain ys n segs' ctx where s: "segs = (ys, n) # segs'" "sealable b key"
    "process_for_backup E b key ctx DATA_SHARDS PARITY_SHARDS = Ok (ys, n)" "segments_of E key bufs segs'"
    by (auto simp: segments_of_def list_all2_Cons1)
  then show ?case using Cons.IH[OF s(4)] backup_facts(1)[OF assms(1,2) _ s(2,3)] by (simp add: DATA_SHARDS_def)
qed (simp add: segments_of_def)

lemma segment_bounds:
  assumes "map snd segs = map (\<lambda>b. length b + 28) bufs" "length bufs * SEGMENT_THRESHOLD < length (concat bufs) + SEGMENT_THRESHOLD"
    and "length (concat bufs) < 2 ^ 58"
  shows "length segs < 2 ^ 31" "shard_bytes segs < 2 ^ 64" "\<forall>s \<in> set segs. snd s < 2 ^ 64"
proof -
  have n: "length segs = length bufs" using assms(1) by (metis length_map)
  show l: "length segs < 2 ^ 31" using assms(2,3) unfolding n by (simp add: SEGMENT_THRESHOLD_def)
  have "div_ceil m DATA_SHARDS \<le> m" for m by (simp add: div_ceil_def DATA_SHARDS_def)
  then have "shard_bytes segs \<le> sum_list (map snd segs)"
    unfolding shard_bytes_def by (intro sum_list_mono) simp
  also have "\<dots> = length (concat bufs) + 28 * length bufs"
    unfolding assms(1) by (induction bufs) (simp_all add: length_concat)
  finally have b: "shard_bytes segs \<le> sum_list (map snd segs)" "sum_list (map snd segs) < 2 ^ 60"
    using l assms(3) n \<open>sum_list (map snd segs) = length (concat bufs) + 28 * length bufs\<close> by simp_all
  then show "shard_bytes segs < 2 ^ 64" by simp
  have "snd x \<le> sum_list (map snd segs)" if "x \<in> set segs" for x
    using that by (intro member_le_sum_list) auto
  then show "\<forall>s \<in> set segs. snd s < 2 ^ 64" using b(2) by fastforce
qed

section \<open>Lemmas on the catalog after a replication\<close>

lemma as_i32_index: "n < TOTAL_SHARDS \<Longrightarrow> as_i32 n = int n" "n < TOTAL_SHARDS \<Longrightarrow> as_usize (int n) = n"
  by (auto simp: TOTAL_SHARDS_def DATA_SHARDS_def PARITY_SHARDS_def intro!: as_i32_small as_usize_int)

lemma lookup_results: "shards.lookup (rev (map (row_of h) results)) k = Some v \<Longrightarrow>
    \<exists>r \<in> set results. k = (h, as_i32 (us_idx r)) \<and> v = (us_node_id r, us_hash r)"
  by (auto simp: shards.lookup_def rev_map dest!: map_of_SomeD) (auto simp: shard_key_def row_of_def)

lemma lookup_results_None: "shards.lookup (rev (map (row_of h) results)) k = None \<longleftrightarrow> k \<notin> (\<lambda>r. (h, as_i32 (us_idx r))) ` set results"
  by (auto simp: shards.lookup_def map_of_eq_None_iff shard_key_def row_of_def image_image)

text \<open>Every row of the file after the upserts is one of the results, unless an older row was not overwritten.\<close>

lemma rows_after:
  assumes "db_ok db'" "db_shards db' = fold upsert_shard_rows (map (row_of h) results) rows" "x \<in> set (shards_of db' h)"
    and "\<forall>x \<in> set rows. sr_file x = h \<longrightarrow> (\<exists>r \<in> set results. sr_index x = as_i32 (us_idx r))"
  obtains r where "r \<in> set results" "sr_index x = as_i32 (us_idx r)" "sr_node x = us_node_id r" "sr_hash x = us_hash r"
proof -
  have x: "x \<in> set (db_shards db')" "sr_file x = h" using shards_of_placement(1)[OF assms(1)] assms(3) by auto
  have "shards.lookup (db_shards db') (shard_key x) = Some (sr_node x, sr_hash x)"
    using shards.lookup_row[of "db_shards db'" "shard_key x"] assms(1) x(1) by (auto simp: db_ok_def)
  then have "(case shards.lookup (rev (map (row_of h) results)) (shard_key x) of Some v \<Rightarrow> Some v | None \<Rightarrow> shards.lookup rows (shard_key x))
      = Some (sr_node x, sr_hash x)"
    unfolding assms(2) shards.lookup_puts .
  moreover have "shards.lookup rows (shard_key x) = None" if "shards.lookup (rev (map (row_of h) results)) (shard_key x) = None"
  proof (rule ccontr)
    assume "shards.lookup rows (shard_key x) \<noteq> None"
    then obtain y where "y \<in> set rows" "shard_key y = shard_key x"
      by (auto simp: shards.lookup_def dest!: map_of_SomeD)
    then have "\<exists>r \<in> set results. sr_index x = as_i32 (us_idx r)" using assms(4)[rule_format, of y] x(2) by (simp add: shard_key_def)
    then show False using that x(2) unfolding lookup_results_None by (auto simp: shard_key_def)
  qed
  ultimately have "shards.lookup (rev (map (row_of h) results)) (shard_key x) = Some (sr_node x, sr_hash x)"
    by (auto split: option.splits)
  then show thesis using that lookup_results[of h results "shard_key x"] x(2) by (fastforce simp: shard_key_def)
qed

lemma listed_after:
  assumes "db_ok db'" "db_shards db' = fold upsert_shard_rows (map (row_of h) results) rows"
    and "\<forall>x \<in> set rows. sr_file x = h \<longrightarrow> (\<exists>r \<in> set results. sr_index x = as_i32 (us_idx r))"
    and "results_of E ys results" "length ys = TOTAL_SHARDS"
  shows "lists_shards E (row_shards (shards_of db' h)) ys"
    and "us_idx ` set results \<subseteq> fst ` set (row_shards (shards_of db' h))"
proof -
  have row: "\<exists>i < TOTAL_SHARDS. sr_index x = int i \<and> sr_hash x = hex_encode E (blake3 E (ys ! i))" if x: "x \<in> set (shards_of db' h)" for x
  proof -
    obtain r where "r \<in> set results" "sr_index x = as_i32 (us_idx r)" "sr_hash x = us_hash r"
      by (rule rows_after[OF assms(1,2) x assms(3)])
    then show ?thesis using assms(4,5) as_i32_index(1) by (auto simp: results_of_def list_all_iff)
  qed
  have "inj_on as_usize (sr_index ` set (shards_of db' h))"
  proof (rule inj_onI)
    fix a b assume "a \<in> sr_index ` set (shards_of db' h)" "b \<in> sr_index ` set (shards_of db' h)" "as_usize a = as_usize b"
    then show "a = b" using row as_i32_index(2) by (metis imageE)
  qed
  then have "distinct (map as_usize (map sr_index (shards_of db' h)))"
    using shards_of_distinct[OF assms(1)] by (simp only: distinct_map set_map)
  moreover have "map fst (row_shards (shards_of db' h)) = map as_usize (map sr_index (shards_of db' h))"
    by (simp add: row_shards_def)
  moreover have "h' = hex_encode E (blake3 E (ys ! i))" if "(i, n, h') \<in> set (row_shards (shards_of db' h))" "i < TOTAL_SHARDS" for i n h'
    using that row as_i32_index(2) by (fastforce simp: row_shards_def)
  ultimately show "lists_shards E (row_shards (shards_of db' h)) ys"
    using assms(5) by (auto simp: lists_shards_def list_all_iff)
  show "us_idx ` set results \<subseteq> fst ` set (row_shards (shards_of db' h))"
  proof (rule subsetI, elim imageE)
    fix i r assume r: "i = us_idx r" "r \<in> set results"
    then have "(h, as_i32 i) \<in> shard_key ` set (db_shards db')"
      unfolding assms(2) shards.keys_puts by (force simp: shard_key_def row_of_def image_iff)
    then obtain x where "x \<in> set (shards_of db' h)" "sr_index x = as_i32 i"
      using shards_of_placement(1)[OF assms(1)] by (auto simp: shard_key_def)
    moreover have "as_usize (as_i32 i) = i" using r assms(4,5) as_i32_index by (auto simp: results_of_def list_all_iff)
    ultimately show "i \<in> fst ` set (row_shards (shards_of db' h))" by (force simp: row_shards_def)
  qed
qed

text \<open>The index column is an \<open>INTEGER\<close>.\<close>

definition i32_column :: "db \<Rightarrow> bool" where
  "i32_column db \<longleftrightarrow> sr_index ` set (db_shards db) \<subseteq> {- (2 ^ 31)..<2 ^ 31}"

lemma as_i32_range: "as_i32 n \<in> {- (2 ^ 31)..<2 ^ 31}"
proof -
  have "0 \<le> int n mod 2 ^ 32" "int n mod 2 ^ 32 < 2 ^ 32" by simp_all
  then show ?thesis unfolding as_i32_def Let_def by auto
qed

lemma as_usize_inj: "inj_on as_usize {- (2 ^ 31)..<2 ^ 31}"
proof (rule inj_onI)
  fix a b :: int assume r: "a \<in> {- (2 ^ 31)..<2 ^ 31}" "b \<in> {- (2 ^ 31)..<2 ^ 31}" and e: "as_usize a = as_usize b"
  have "c mod 2 ^ 64 = (if c < 0 then c + 2 ^ 64 else c)" if "c \<in> {- (2 ^ 31)..<2 ^ 31}" for c :: int
  proof (cases "c < 0")
    case True
    have "(c + 2 ^ 64) mod 2 ^ 64 = c + 2 ^ 64" using True that by (intro mod_pos_pos_trivial) auto
    then show ?thesis using True by simp
  qed (use that in \<open>simp add: mod_pos_pos_trivial\<close>)
  moreover have "a mod 2 ^ 64 = b mod 2 ^ 64" using e by (simp add: as_usize_def eq_nat_nat_iff)
  ultimately show "a = b" using r by (auto split: if_splits)
qed

lemma i32_column_upserts:
  assumes "i32_column db" "db_shards db' = fold upsert_shard_rows (map (row_of h) results) (db_shards db)"
  shows "i32_column db'"
proof -
  have k: "sr_index ` A = snd ` shard_key ` A" for A by (simp add: image_image shard_key_def)
  have "sr_index ` set (db_shards db') = sr_index ` set (map (row_of h) results) \<union> sr_index ` set (db_shards db)"
    unfolding k assms(2) shards.keys_puts image_Un ..
  then show ?thesis using assms(1) as_i32_range by (auto simp: i32_column_def row_of_def)
qed

lemma encrypt_key_cached:
  assumes "cache_from E c secret"
  shows "fst (encrypt_key E c nonce key secret) = wrap_key E key secret nonce"
  using master_key_cached(1)[OF assms, of secret] master_key_uncached[of E secret]
  by (cases "keywrap_master_key_v1 E c secret"; cases "keywrap_master_key_v1 E None secret") (simp add: encrypt_key_def wrap_key_def)

fun media_type :: "media_table \<Rightarrow> string" where
  "media_type Images = ''image''"
| "media_type Videos = ''video''"

lemma finds_after:
  assumes "finds X db h owner (media_type t) r" "\<And>m. mr_hash (f m) = mr_hash m \<and> mr_deleted (f m) = mr_deleted m \<and> mr_user (f m) = mr_user m"
  shows "finds X (update_media t (where_hash h f) db) h owner (media_type t) (f r)"
proof -
  have "filter (owned_by u h) (map (where_hash h f) rows) = map f (filter (owned_by u h) rows)" for u rows
    by (induction rows) (auto simp: owned_by_def where_hash_def assms(2) split: option.splits)
  then show ?thesis using assms(1) by (cases t) (auto simp: finds_def Let_def)
qed

lemma finds_same_media: "media_rows a Images = media_rows b Images \<Longrightarrow> media_rows a Videos = media_rows b Videos \<Longrightarrow>
    finds X a h owner mt r \<Longrightarrow> finds X b h owner mt r"
  by (simp add: finds_def)

text \<open>What a successful replication leaves in the catalog: a row that describes the backup, found like the old
  one, and shard rows that list its shards.\<close>

definition backed_up :: "ext \<Rightarrow> restore_env \<Rightarrow> string \<Rightarrow> string option \<Rightarrow> media_table \<Rightarrow> media_row \<Rightarrow> bytes \<Rightarrow> bytes \<Rightarrow> bytes \<Rightarrow> bytes list \<Rightarrow> db \<Rightarrow> bool" where
  "backed_up E X h owner t r key w data ys db \<longleftrightarrow>
     (\<exists>r'. finds X db h owner (media_type t) r' \<and> mr_key r' = Some w \<and> describes E key data r' ys
        \<and> mr_name r' = mr_name r \<and> mr_ext r' = mr_ext r)
     \<and> lists_shards E (row_shards (shards_of db h)) ys \<and> DATA_SHARDS \<le> length (shards_of db h)"

lemma backed_up_after:
  assumes "same_media db db1" "db_ok (fold (\<lambda>f. f) (shard_upserts h results) db1)"
    and "db' = update_media t (where_hash h f) (fold (\<lambda>f. f) (shard_upserts h results) db1)"
    and "finds X db h owner (media_type t) r" "results_of E ys results" "length ys = TOTAL_SHARDS" "DATA_SHARDS \<le> length results"
    and "\<forall>x \<in> set (db_shards db). sr_file x \<noteq> h"
    and "\<And>m. mr_hash (f m) = mr_hash m \<and> mr_deleted (f m) = mr_deleted m \<and> mr_user (f m) = mr_user m \<and> mr_name (f m) = mr_name m \<and> mr_ext (f m) = mr_ext m"
    and "mr_key (f r) = Some w" "describes E key data (f r) ys"
  shows "backed_up E X h owner t r key w data ys db'"
proof -
  have sh: "db_shards db' = fold upsert_shard_rows (map (row_of h) results) (db_shards db)" and ok: "db_ok db'"
    using assms(1-3) fold_upserts_nodes(2)[of h results db1] by (simp_all add: same_media_def)
  have "\<forall>x \<in> set (db_shards db). sr_file x = h \<longrightarrow> (\<exists>r \<in> set results. sr_index x = as_i32 (us_idx r))" using assms(8) by simp
  note l = listed_after[OF ok sh this assms(5,6)]
  have "card (us_idx ` set results) \<le> card (fst ` set (row_shards (shards_of db' h)))" by (rule card_mono[OF _ l(2)]) simp
  moreover have "card (us_idx ` set results) = length results"
    using assms(5) distinct_card[of "map us_idx results"] by (simp add: results_of_def)
  moreover have "card (fst ` set (row_shards (shards_of db' h))) \<le> length (shards_of db' h)"
    using card_length[of "map fst (row_shards (shards_of db' h))"] by (simp add: row_shards_def image_image)
  moreover have "finds X (fold (\<lambda>f. f) (shard_upserts h results) db1) h owner (media_type t) r"
    by (rule finds_same_media[OF _ _ assms(4)]) (use assms(1) in \<open>simp_all only: fold_upserts_nodes(3), simp_all add: same_media_def\<close>)
  ultimately show ?thesis
    using l(1) assms(3,7,9-11) finds_after[of X "fold (\<lambda>f. f) (shard_upserts h results) db1" h owner t r f]
    unfolding backed_up_def by auto
qed

text \<open>The file is on disk with content \<open>data\<close>, however it is read.\<close>

definition holds_file :: "disk_file \<Rightarrow> bytes \<Rightarrow> bool" where
  "holds_file file data \<longleftrightarrow> df_len file = Ok (length data) \<and> df_read file = Ok data
     \<and> (\<exists>bs. df_reads file = Ok (map Inr bs) \<and> [] \<notin> set bs \<and> concat bs = data)"

lemmas code_sizes = DATA_SHARDS_def PARITY_SHARDS_def TOTAL_SHARDS_def

lemma in_memory_backs_up:
  assumes "cipher_ok E" "rs_ok E DATA_SHARDS PARITY_SHARDS" "length (rn_key R) = 32" "distinct (rn_order R)" "set (rn_order R) \<subseteq> {..<TOTAL_SHARDS}"
    and "db_ok (rl_db st)" "\<forall>x \<in> set (db_shards (rl_db st)). sr_file x \<noteq> h"
    and "holds_file file data" "length data \<le> SEGMENT_THRESHOLD" "finds X (rl_db st) h owner (media_type t) r" "mr_seg_count r \<le> 1"
    and "cache_from E (rl_cache st) secret"
    and "replicate_in_memory E R t nodes h file secret DATA_SHARDS PARITY_SHARDS st = Done (Ok (), st')"
  shows "\<exists>ys w. wrap_key E (rn_key R) secret (rn_nonce R) = Ok w \<and> backed_up E X h owner t r (rn_key R) w data ys (rl_db st')"
  using assms(13,6)
proof (cases rule: replicate_in_memory_cases)
  case (stored data' ys n results w mh db1)
  have eq: "data' = data" using stored(2) assms(8) by (simp add: holds_file_def)
  have seal: "sealable data (rn_key R)" using assms(3,9) by (simp add: sealable_def SEGMENT_THRESHOLD_def aead_max_def KEY_SIZE_def)
  have f: "n = length data + 28" "length ys = TOTAL_SHARDS"
    using backup_facts(1,2)[OF assms(1,2) _ seal stored(3)[unfolded eq]] by (simp_all add: code_sizes)
  have n: "n < 2 ^ 31" using f(1) assms(9) by (simp add: SEGMENT_THRESHOLD_def)
  have res: "results_of E ys results" using upload_inmemory_results[OF stored(4) assms(4)] assms(5) f(2) by simp
  have "as_i32 DATA_SHARDS = int DATA_SHARDS" "as_i32 PARITY_SHARDS = int PARITY_SHARDS" by (simp_all add: code_sizes as_i32_small)
  then have "describes E (rn_key R) data (mark_synced (rn_now R) mh w n DATA_SHARDS PARITY_SHARDS r) ys"
    using seal stored(3) n assms(11) as_i32_small[OF n] by (auto simp: describes_def describes_single_def mark_synced_def eq)
  then have "backed_up E X h owner t r (rn_key R) w data ys (rl_db st')"
    by (intro backed_up_after[OF stored(7-9) assms(10) res f(2) stored(5) assms(7)]) (simp_all add: mark_synced_def)
  then show ?thesis using stored(6) encrypt_key_cached[OF assms(12)] by metis
qed simp

lemma segmented_upload:
  assumes "cipher_ok E" "rs_ok E DATA_SHARDS PARITY_SHARDS" "length key = 32" "holds_file file data"
    and "SEGMENT_THRESHOLD < length data" "length data < 2 ^ 58"
    and "upload_segmented E U sh i nodes h (df_reads file) key DATA_SHARDS PARITY_SHARDS = Done (Ok (results, sizes))"
  obtains bufs segs where "data = concat bufs" "segments_of E key bufs segs" "sizes = map snd segs" "results_of E (full_shards segs) results"
    "1 < length segs" "length segs < 2 ^ 31" "shard_bytes segs < 2 ^ 64" "\<forall>s \<in> set segs. snd s < 2 ^ 64"
proof -
  obtain reads segs where sg: "df_reads file = Ok reads" "seg_loop E sh key DATA_SHARDS PARITY_SHARDS 0 reads = Ok segs"
    "sizes = map snd segs" "results_of E (full_shards segs) results"
    by (rule upload_segmented_results[OF assms(7)])
  obtain bs where bs: "reads = map Inr bs" "[] \<notin> set bs" "concat bs = data" using sg(1) assms(4) by (auto simp: holds_file_def)
  obtain bufs where b: "concat bufs = concat bs" "segments_of E key bufs segs" "\<forall>b \<in> set bufs. length b \<le> SEGMENT_THRESHOLD"
    "length bufs * SEGMENT_THRESHOLD < length (concat bs) + SEGMENT_THRESHOLD"
    using seg_loop_segments[OF sg(2)[unfolded bs(1)] bs(2)] assms(3) by (auto simp: KEY_SIZE_def)
  have "1 < length segs" using many_segments[OF b(3)] assms(5) b(1,2) bs(3) segments_length by force
  moreover note segment_bounds[OF segments_sizes[OF assms(1,2) b(2)] b(4)[folded b(1)] assms(6)[folded bs(3), folded b(1)]]
  ultimately show thesis using that[of bufs segs] b(1,2) bs(3) sg(3,4) by simp
qed

lemma large_backs_up:
  assumes "cipher_ok E" "rs_ok E DATA_SHARDS PARITY_SHARDS" "length (rn_key R) = 32"
    and "db_ok (rl_db st)" "\<forall>x \<in> set (db_shards (rl_db st)). sr_file x \<noteq> h"
    and "holds_file file data" "SEGMENT_THRESHOLD < length data" "length data < 2 ^ 58"
    and "finds X (rl_db st) h owner (media_type t) r" "cache_from E (rl_cache st) secret"
    and "replicate_large_file E R t nodes h file secret DATA_SHARDS PARITY_SHARDS st = Done (Ok (), st')"
  shows "\<exists>ys w. wrap_key E (rn_key R) secret (rn_nonce R) = Ok w \<and> backed_up E X h owner t r (rn_key R) w data ys (rl_db st')"
  using assms(11,4)
proof (cases rule: replicate_large_cases)
  case (stored results sizes w db1)
  obtain bufs segs where u: "data = concat bufs" "segments_of E (rn_key R) bufs segs" "sizes = map snd segs" "results_of E (full_shards segs) results"
    "1 < length segs" "length segs < 2 ^ 31" "shard_bytes segs < 2 ^ 64" "\<forall>s \<in> set segs. snd s < 2 ^ 64"
    by (rule segmented_upload[OF assms(1-3,6-8) stored(2)])
  have "describes_segmented E (rn_key R) data (mark_synced_large (rn_now R) w sizes DATA_SHARDS PARITY_SHARDS r) (full_shards segs)"
    unfolding describes_segmented_def
    by (intro conjI exI[of _ bufs] exI[of _ segs]) (use u as_i32_small[OF u(6)] in \<open>auto simp: mark_synced_large_def\<close>)
  then have "describes E (rn_key R) data (mark_synced_large (rn_now R) w sizes DATA_SHARDS PARITY_SHARDS r) (full_shards segs)"
    unfolding describes_def ..
  then have "backed_up E X h owner t r (rn_key R) w data (full_shards segs) (rl_db st')"
    by (intro backed_up_after[OF stored(5-7) assms(9) u(4) _ stored(3) assms(5)]) (simp_all add: mark_synced_large_def full_shards_def)
  then show ?thesis using stored(4) encrypt_key_cached[OF assms(10)] by metis
qed simp

section \<open>An example run\<close>

text \<open>One node that accepts every shard except those with an index in \<open>bad\<close>, and a small file on disk.\<close>

definition yes_conn :: peer_conn where
  "yes_conn = \<lparr>pc_open = (\<lambda>k. Ok ()), pc_tx = (\<lambda>m. Ok ()), pc_replies = (\<lambda>sent. [Ok (StoreShardStreamAck True), Ok (StoreShardStreamResponse True 0)])\<rparr>"

definition part_env :: "nat list \<Rightarrow> up_env" where
  "part_env bad = \<lparr>ue_connect = (\<lambda>a k n. if k \<in> set bad then Err ''down'' else Ok yes_conn), ue_show_msg = (\<lambda>m. []), ue_show_addr = (\<lambda>a. ''a''), ue_clock = 0\<rparr>"

definition one_node :: "(string \<times> sock_addr) list" where
  "one_node = [(''n'', \<lparr>sa_ip = V6 1, sa_port = 1\<rparr>)]"

definition small_file :: disk_file where
  "small_file = \<lparr>df_len = Ok 3, df_read = Ok [7, 8, 9], df_reads = Ok [Inr [7, 8, 9]]\<rparr>"

definition toy_repl :: "nat list \<Rightarrow> repl_env" where
  "toy_repl bad = \<lparr>rn_up = part_env bad, rn_identity = toy_node, rn_show_err = (\<lambda>e. ''error''),
     rn_files = (\<lambda>p. if p = ''d/ff/ff.jpg'' then Some small_file else None), rn_fails = (\<lambda>k. None), rn_now = 0, rn_order = [0, 1, 2, 3, 4],
     rn_key = replicate 32 1, rn_nonce = replicate 12 4, rn_escrow_opens = True, rn_touch_answers = True\<rparr>"

definition toy_cfg :: repl_cfg where
  "toy_cfg = \<lparr>rc_data_shards = DATA_SHARDS, rc_parity_shards = PARITY_SHARDS, rc_batch_size = 50, rc_base_dir = (\<lambda>t. ''d''), rc_api_key = Ok ''pw''\<rparr>"

definition toy_state :: "shard_row list \<Rightarrow> repl_state" where
  "toy_state rows = \<lparr>rl_db = \<lparr>db_images = [toy_media\<lparr>mr_hash := ''ff''\<rparr>], db_videos = [], db_shards = rows,
     db_nodes = [\<lparr>nr_id = ''n'', nr_addr = [], nr_active = True, nr_last_seen = 0\<rparr>]\<rparr>, rl_cache = None, rl_escrow = []\<rparr>"

lemma send_all_yes: "send_all yes_conn ms = Ok ()"
  by (induction ms) (simp_all add: yes_conn_def)

lemma store_part:
  assumes "k < 256"
  shows "store_shard E (part_env bad) i a fh (word_of_nat k) d = (if k \<in> set bad then Err ''connect failed: down'' else Ok (hex_encode E (blake3 E d)))"
proof -
  have "unat (word_of_nat k :: byte) = k" using assms by (rule unat_byte_of_nat)
  then show ?thesis
    using send_all_yes by (simp add: store_shard_def store_attempt_def part_env_def Let_def rx_def yes_conn_def)
qed

lemma exec_all_quiet: "\<forall>j < length fs. fails (n + j) = None \<Longrightarrow> exec_all fails n fs db = (Ok (), fold (\<lambda>f. f) fs db)"
proof (induction fs arbitrary: n db)
  case (Cons f fs)
  have "fails n = None" using Cons.prems by (metis add.right_neutral length_greater_0_conv list.discI)
  moreover have "\<forall>j < length fs. fails (n + 1 + j) = None" using Cons.prems by (metis Suc_less_eq add.assoc length_Cons plus_1_eq_Suc)
  ultimately show ?case using Cons.IH by simp
qed simp

lemma toy_shards:
  obtains ys where "process_for_backup toy_ext [7, 8, 9] (replicate 32 1) (replicate 32 1) DATA_SHARDS PARITY_SHARDS = Ok (ys, 31)"
    "length ys = TOTAL_SHARDS" "same_size 11 ys"
proof -
  have "rs_ok toy_ext DATA_SHARDS PARITY_SHARDS" "cipher_ok toy_ext" by (simp_all add: code_sizes cipher_ok_def)
  moreover have "sealable [7, 8, 9] (replicate 32 1)" by (simp add: sealable_def KEY_SIZE_def aead_max_def)
  ultimately obtain ys where "process_for_backup toy_ext [7, 8, 9] (replicate 32 1) (replicate 32 1) DATA_SHARDS PARITY_SHARDS = Ok (ys, length [7, 8, 9 :: byte] + 28)"
      "length ys = DATA_SHARDS + PARITY_SHARDS" "same_size (div_ceil (length [7, 8, 9 :: byte] + 28) DATA_SHARDS) ys"
    using process_for_backup_ok[of toy_ext DATA_SHARDS PARITY_SHARDS] by (metis DATA_SHARDS_def zero_less_numeral)
  then show thesis using that[of ys] by (simp add: code_sizes div_ceil_def)
qed

lemma toy_upload:
  assumes "length ys = TOTAL_SHARDS" "bad = [] \<or> bad = [4]"
  shows "\<exists>results. upload_inmemory toy_ext (part_env bad) toy_node [0, 1, 2, 3, 4] one_node h ys = Done results
     \<and> map us_idx results = filter (\<lambda>k. k \<notin> set bad) [0, 1, 2, 3, 4]"
proof -
  let ?t = "rendezvous_select toy_ext h one_node (max (min (length ys) (length one_node)) 1)"
  let ?g = "\<lambda>idx. case store_shard toy_ext (part_env bad) toy_node (snd (?t ! (idx mod length ?t))) (blake3 toy_ext (str_bytes h)) (word_of_nat idx) (ys ! idx) of
      Inr hh \<Rightarrow> Some (uploaded (part_env bad) ?t idx hh) | Inl e \<Rightarrow> None"
  have t: "?t \<noteq> []" by (simp add: rendezvous_ranked one_node_def)
  have g: "?g k = (if k \<in> set bad then None else Some (uploaded (part_env bad) ?t k (hex_encode toy_ext (blake3 toy_ext (ys ! k)))))" if "k < 256" for k
    using store_part[OF that] by simp
  have "map us_idx (List.map_filter ?g [0, 1, 2, 3, 4]) = filter (\<lambda>k. ?g k \<noteq> None) [0, 1, 2, 3, 4]"
    by (rule map_filter_keys) (auto simp: uploaded_def split: sum.splits prod.splits)
  also have "\<dots> = filter (\<lambda>k. k \<notin> set bad) [0, 1, 2, 3, 4]" 
  proof (rule filter_cong[OF refl])
    fix k assume "k \<in> set [0, 1, 2, 3, 4 :: nat]"
    then have "k < 256" by auto
    then show "(?g k \<noteq> None) = (k \<notin> set bad)" unfolding g[OF \<open>k < 256\<close>] by simp
  qed
  finally have "map us_idx (List.map_filter ?g [0, 1, 2, 3, 4]) = filter (\<lambda>k. k \<notin> set bad) [0, 1, 2, 3, 4]" .
  moreover have "upload_inmemory toy_ext (part_env bad) toy_node [0, 1, 2, 3, 4] one_node h ys = Done (List.map_filter ?g [0, 1, 2, 3, 4])"
    using t unfolding upload_inmemory_def Let_def by (simp only: if_False simp_thms)
  ultimately show ?thesis by blast
qed

lemma toy_replicates:
  assumes "bad = [] \<or> bad = [4]"
  shows "\<exists>st'. replicate_in_memory toy_ext (toy_repl bad) Images one_node ''ff'' small_file ''pw'' DATA_SHARDS PARITY_SHARDS (toy_state rows) = Done (Ok (), st')"
proof -
  obtain ys where ys: "process_for_backup toy_ext [7, 8, 9] (replicate 32 1) (replicate 32 1) DATA_SHARDS PARITY_SHARDS = Ok (ys, 31)"
    "length ys = TOTAL_SHARDS" using toy_shards .
  obtain results where r: "upload_inmemory toy_ext (part_env bad) toy_node [0, 1, 2, 3, 4] one_node ''ff'' ys = Done results"
    "map us_idx results = filter (\<lambda>k. k \<notin> set bad) [0, 1, 2, 3, 4]" using toy_upload[OF ys(2) assms] by blast
  have "length results = length (map us_idx results)" by simp
  then have l: "DATA_SHARDS \<le> length results" unfolding r(2) using assms by (auto simp: code_sizes)
  obtain w where "fst (encrypt_key toy_ext None (replicate 12 4) (replicate 32 1) ''pw'') = Ok w"
    using keywrap.wrap_total[of toy_ext "replicate 32 1" "replicate 12 4" "''pw''"]
    by (auto simp: wrap_key_def keywrap_ok_def simp del: replicate.simps)
  then obtain c where w: "encrypt_key toy_ext None (replicate 12 4) (replicate 32 1) ''pw'' = (Ok w, c)" by (metis prod.collapse)
  show ?thesis
    using ys(1) r(1) l w
    by (simp add: replicate_in_memory_def toy_repl_def small_file_def toy_state_def record_upload_def exec_all_quiet Let_def del: replicate.simps)
qed

lemma toy_holds: "holds_file small_file [7, 8, 9]"
  unfolding holds_file_def small_file_def by (intro conjI exI[of _ "[[7, 8, 9]]"]) simp_all

lemma toy_single:
  assumes "replicate_in_memory toy_ext R Images one_node ''ff'' small_file ''pw'' DATA_SHARDS PARITY_SHARDS st = Done (res, st')"
    and "rn_files R ''d/ff/ff.jpg'' = Some small_file"
  shows "replicate_single_file toy_ext R toy_cfg Images one_node ''ff'' ''jpg'' ''pw'' st = Done (res, st')"
proof -
  have "media_path ''d'' ''ff'' ''jpg'' = Done ''d/ff/ff.jpg''" by (simp add: media_path_def char_boundary_def)
  moreover have "df_len small_file = Ok 3" by (simp add: small_file_def)
  ultimately show ?thesis using assms by (simp add: replicate_single_file_def toy_cfg_def SEGMENT_THRESHOLD_def)
qed

section \<open>Properties\<close>



text \<open>C32. Replication is transactional: whatever fails (the upload, any database call, the key wrapping), the
  media rows, the shard rows and the escrow file are as before, and in every case the catalog keeps
  its unique keys and its references from shards to nodes.\<close>

theorem replication_transactional:
  assumes "db_ok (rl_db st)" "replicate_single_file E R C t nodes h x secret st = Done (res, st')"
  shows "db_ok (rl_db st') \<and> (\<forall>e. res = Err e \<longrightarrow> same_media (rl_db st) (rl_db st') \<and> rl_escrow st' = rl_escrow st)"
proof -
  obtain path where p: "media_path (rc_base_dir C t) h x = Done path" using assms(2) by (auto simp: replicate_single_file_def bind_out_Done)
  consider (missing) "rn_files R path = None" | (nolen) f e where "rn_files R path = Some f" "df_len f = Err e"
    | (large) f n where "rn_files R path = Some f" "df_len f = Ok n" "n > SEGMENT_THRESHOLD"
    | (small) f n where "rn_files R path = Some f" "df_len f = Ok n" "\<not> n > SEGMENT_THRESHOLD"
    by (metis not_None_eq sumE)
  then show ?thesis
  proof cases
    case large
    then have "replicate_large_file E R t nodes h f secret (rc_data_shards C) (rc_parity_shards C) st = Done (res, st')"
      using assms(2) p by (simp add: replicate_single_file_def)
    then show ?thesis using assms(1) by (cases rule: replicate_large_cases) auto
  next
    case small
    then have "replicate_in_memory E R t nodes h f secret (rc_data_shards C) (rc_parity_shards C) st = Done (res, st')"
      using assms(2) p by (simp add: replicate_single_file_def)
    then show ?thesis using assms(1) by (cases rule: replicate_in_memory_cases) auto
  qed (use assms p in \<open>auto simp: replicate_single_file_def touch_attempt_def\<close>)
qed

text \<open>The connection is lost when the transaction is to begin, after the nodes were written.\<close>

definition lost_repl :: repl_env where
  "lost_repl = (toy_repl [])\<lparr>rn_fails := (\<lambda>k. if k = 6 then Some ''lost'' else None)\<rparr>"

theorem replication_transactional_witness:
  "\<exists>st'. replicate_single_file toy_ext lost_repl toy_cfg Images one_node ''ff'' ''jpg'' ''pw'' (toy_state []) = Done (Err ''lost'', st')
     \<and> same_media (rl_db (toy_state [])) (rl_db st') \<and> rl_escrow st' = []"
proof -
  obtain ys where ys: "process_for_backup toy_ext [7, 8, 9] (replicate 32 1) (replicate 32 1) DATA_SHARDS PARITY_SHARDS = Ok (ys, 31)"
    "length ys = TOTAL_SHARDS" using toy_shards .
  obtain results where r: "upload_inmemory toy_ext (part_env []) toy_node [0, 1, 2, 3, 4] one_node ''ff'' ys = Done results"
    "map us_idx results = filter (\<lambda>k. k \<notin> set []) [0, 1, 2, 3, 4]" using toy_upload[OF ys(2), of "[]"] by blast
  have "length results = length (map us_idx results)" by simp
  then have l: "length results = 5" unfolding r(2) by simp
  obtain w c where w: "encrypt_key toy_ext None (replicate 12 4) (replicate 32 1) ''pw'' = (w, c)" by fastforce
  have "\<forall>j < length (node_upserts 0 results). (if 1 + j = 6 then Some ''lost'' else None) = (None :: string option)"
    using l by (auto simp: node_upserts_def)
  note q = exec_all_quiet[OF this]
  have "\<exists>st'. replicate_in_memory toy_ext lost_repl Images one_node ''ff'' small_file ''pw'' DATA_SHARDS PARITY_SHARDS (toy_state []) = Done (Err ''lost'', st')"
    using ys(1) r(1) l w q
    by (simp add: replicate_in_memory_def lost_repl_def toy_repl_def small_file_def toy_state_def record_upload_def code_sizes del: replicate.simps)
  then obtain st' where st: "replicate_single_file toy_ext lost_repl toy_cfg Images one_node ''ff'' ''jpg'' ''pw'' (toy_state []) = Done (Err ''lost'', st')"
    using toy_single[of lost_repl] by (auto simp: lost_repl_def toy_repl_def)
  moreover have "db_ok (rl_db (toy_state []))" "rl_escrow (toy_state []) = []" by (simp_all add: toy_state_def db_ok_def)
  ultimately show ?thesis using replication_transactional[of "toy_state []"] by metis
qed

text \<open>A partial re-replication mixes generations.  When a file that already has shard rows is replicated again
  under a fresh key and the upload of shard \<open>j\<close> fails, the old row of \<open>j\<close> stays beside the new ones; as
  long as its node still serves the old shard, a restore hands that shard to the decoder in slot
  \<open>j\<close>, although it belongs to another codeword.\<close>

theorem stale_rows_remain:
  assumes "hex_ok E" "blake3_ok E" "db_ok (rl_db st)" "holds_file file data"
    and "replicate_in_memory E R t nodes h file secret DATA_SHARDS PARITY_SHARDS st = Done (Ok (), st')"
    and "process_for_backup E data (rn_key R) (rn_key R) DATA_SHARDS PARITY_SHARDS = Ok (ys, n)" "length ys = TOTAL_SHARDS"
    and "distinct (rn_order R)" "set (rn_order R) = {..<TOTAL_SHARDS}" "j < TOTAL_SHARDS"
    and "upload_inmemory E (rn_up R) (rn_identity R) (rn_order R) nodes h ys = Done results" "j \<notin> us_idx ` set results"
    and "placement (rl_db st) h (int j) = Some (nid, hex_encode E (blake3 E old))" "old \<noteq> ys ! j"
    and "\<forall>s. \<exists>s'. fetch s nid (blake3 E old) = Done (Some old, s')" "\<forall>s nid b. fetch s nid b \<noteq> Panic"
    and "i32_column (rl_db st)"
  shows "\<exists>zs s'. collect_rows E fetch (shards_of (rl_db st') h) s = Done (zs, s') \<and> zs ! j = Some old \<and> \<not> survivors ys zs"
proof -
  from assms(5,3) have p: "db_ok (rl_db st') \<and> i32_column (rl_db st') \<and> placement (rl_db st') h (int j) = placement (rl_db st) h (int j)"
  proof (cases rule: replicate_in_memory_cases)
    case (stored data' ys' n' results' w mh db1)
    have "ys' = ys" using stored(2,3) assms(4,6) by (simp add: holds_file_def)
    then have eq: "results' = results" using stored(4) assms(11) by simp
    have r: "results_of E ys results" using upload_inmemory_results[OF assms(11,8)] assms(7,9) by simp
    note stored = stored[unfolded eq]
    have "(h, int j) \<notin> (\<lambda>r. (h, as_i32 (us_idx r))) ` set results"
      using r as_i32_index(1) assms(7,12) by (auto simp: results_of_def list_all_iff)
    then have "shards.lookup (fold upsert_shard_rows (map (row_of h) results) (db_shards db1)) (h, int j) = shards.lookup (db_shards db1) (h, int j)"
      unfolding shards.lookup_puts using lookup_results_None[of h results "(h, int j)"] by simp
    moreover have "db_ok (rl_db st')" using stored(8,9) by simp
    moreover have "i32_column (rl_db st')"
      using i32_column_upserts[OF _ fold_upserts_nodes(2)[of h results db1]] assms(17) stored(7)
      unfolding stored(9) by (simp add: i32_column_def same_media_def fold_upserts_nodes)
    ultimately show ?thesis
      using stored(7) unfolding placement_lookup stored(9) by (simp add: fold_upserts_nodes same_media_def)
  qed simp
  then obtain x where x: "x \<in> set (shards_of (rl_db st') h)" "sr_index x = int j" "sr_node x = nid" "sr_hash x = hex_encode E (blake3 E old)"
    using shards_of_placement(2)[of "rl_db st'" h "int j" nid] assms(13) by auto
  then have e: "(j, nid, hex_encode E (blake3 E old)) \<in> set (row_shards (shards_of (rl_db st') h))"
    using as_i32_index(2)[OF assms(10)] by (force simp: row_shards_def)
  have "inj_on as_usize (sr_index ` set (shards_of (rl_db st') h))"
    by (rule inj_on_subset[OF as_usize_inj]) (use p in \<open>auto simp: i32_column_def shards_of_def\<close>)
  then have d: "distinct (map fst (row_shards (shards_of (rl_db st') h)))"
    using shards_of_distinct[of "rl_db st'" h] p by (simp add: row_shards_def distinct_map comp_inj_on_iff o_def)
  obtain zs s' where c: "collect_rows E fetch (shards_of (rl_db st') h) s = Done (zs, s')"
    using rows.collect_total[of fetch] assms(16) by blast
  have "zs ! j = Some old" using rows.collect_complete[OF assms(1,2) d e assms(10) _ c] assms(15) by blast
  moreover have "\<not> survivors ys zs"
    using calculation assms(7,10,14) rows.collect_length[OF c] by (auto simp: survivors_def list_all2_conv_all_nth)
  ultimately show ?thesis using c by blast
qed

definition old_row :: shard_row where
  "old_row = \<lparr>sr_file = ''ff'', sr_index = 4, sr_node = ''n'', sr_hash = hex_encode toy_ext (blake3 toy_ext [1]), sr_checked = None\<rparr>"

theorem stale_rows_remain_witness:
  "\<exists>st' ys zs. replicate_in_memory toy_ext (toy_repl [4]) Images one_node ''ff'' small_file ''pw'' DATA_SHARDS PARITY_SHARDS (toy_state [old_row]) = Done (Ok (), st')
     \<and> collect_rows toy_ext (\<lambda>s nid h. Done (Some [1], s)) (shards_of (rl_db st') ''ff'') () = Done (zs, ()) \<and> zs ! 4 = Some [1] \<and> \<not> survivors ys zs"
proof -
  obtain st' where st: "replicate_in_memory toy_ext (toy_repl [4]) Images one_node ''ff'' small_file ''pw'' DATA_SHARDS PARITY_SHARDS (toy_state [old_row]) = Done (Ok (), st')"
    using toy_replicates[of "[4]"] by blast
  obtain ys where ys: "process_for_backup toy_ext [7, 8, 9] (replicate 32 1) (replicate 32 1) DATA_SHARDS PARITY_SHARDS = Ok (ys, 31)"
    "length ys = TOTAL_SHARDS" "same_size 11 ys" using toy_shards .
  obtain results where r: "upload_inmemory toy_ext (part_env [4]) toy_node [0, 1, 2, 3, 4] one_node ''ff'' ys = Done results"
    "map us_idx results = filter (\<lambda>k. k \<notin> set [4]) [0, 1, 2, 3, 4]" using toy_upload[OF ys(2), of "[4]"] by blast
  have four: "4 < TOTAL_SHARDS" "set [0, 1, 2, 3, 4 :: nat] = {..<TOTAL_SHARDS}" "distinct [0, 1, 2, 3, 4 :: nat]"
    by (auto simp: code_sizes)
  have "4 \<notin> set (map us_idx results)" unfolding r(2) by simp
  then have j: "4 \<notin> us_idx ` set results" by simp
  have "length (ys ! 4) = 11" using ys(2,3) four(1) by (simp add: same_size_def)
  then have old: "[1] \<noteq> ys ! 4" by (auto dest: arg_cong[of _ _ length])
  have p: "placement (rl_db (toy_state [old_row])) ''ff'' (int 4) = Some (''n'', hex_encode toy_ext (blake3 toy_ext [1]))"
    "db_ok (rl_db (toy_state [old_row]))" "i32_column (rl_db (toy_state [old_row]))"
    by (simp_all add: placement_def toy_state_def old_row_def shard_key_def db_ok_def i32_column_def)
  have R: "rn_key (toy_repl [4]) = replicate 32 1" "rn_order (toy_repl [4]) = [0, 1, 2, 3, 4]" "rn_up (toy_repl [4]) = part_env [4]"
    "rn_identity (toy_repl [4]) = toy_node" by (simp_all add: toy_repl_def)
  show ?thesis
    using stale_rows_remain[OF toy_hex_ok toy_blake3_ok p(2) toy_holds st, unfolded R, OF ys(1,2) four(3,2,1) r(1) j p(1) old _ _ p(3),
        of "\<lambda>s nid h. Done (Some [1], s)" "()"] st by auto
qed

section \<open>Lemmas on re-queueing\<close>

definition under_replicated :: "int \<Rightarrow> int \<Rightarrow> db \<Rightarrow> media_row \<Rightarrow> bool" where
  "under_replicated now target db m \<longleftrightarrow> int (live_shards now db (mr_hash m)) < target"

lemma requeue_candidates_sound: "h \<in> set (requeue_candidates now db t limit target) \<Longrightarrow> int (live_shards now db h) < target"
  by (auto simp: requeue_candidates_def dest!: in_set_takeD)

lemma requeue_candidates_complete:
  assumes "int (length (filter (under_replicated now target db) (media_rows db t))) \<le> limit" "m \<in> set (media_rows db t)" "under_replicated now target db m"
  shows "mr_hash m \<in> set (requeue_candidates now db t limit target)"
proof -
  let ?rs = "sort_key mr_created (filter (under_replicated now target db) (media_rows db t))"
  have "take (nat limit) ?rs = ?rs" using assms(1) by (intro take_all) (simp add: nat_le_iff le_nat_iff)
  moreover have "m \<in> set ?rs" using assms(2,3) by simp
  ultimately show ?thesis by (auto simp: requeue_candidates_def under_replicated_def[abs_def])
qed

section \<open>Properties of re-queueing\<close>

text \<open>Re-queueing clears the sync mark of a file only if it is live, was synced, is outside its cooldown and
  has fewer live shards than needed; and it reaches every such file as long as the under-replicated
  rows of the table fit into the limit.  Rows that are deleted or not yet synced count against that
  limit.\<close>

theorem requeue_exact:
  assumes "requeue_table now limit target t db = (n, db')" "i < length (media_rows db t)"
  shows "let m = media_rows db t ! i; m' = media_rows db' t ! i in
     (m' = m \<or> m' = m\<lparr>mr_synced_at := None\<rparr> \<and> \<not> mr_deleted m \<and> mr_synced_at m \<noteq> None \<and> attempt_due now m \<and> under_replicated now target db m)
     \<and> (int (length (filter (under_replicated now target db) (media_rows db t))) \<le> limit
         \<and> \<not> mr_deleted m \<and> attempt_due now m \<and> under_replicated now target db m \<longrightarrow> mr_synced_at m' = None)"
proof -
  let ?hs = "requeue_candidates now db t limit target"
  have m': "media_rows db' t ! i = (if requeueable now ?hs (media_rows db t ! i) then (media_rows db t ! i)\<lparr>mr_synced_at := None\<rparr> else media_rows db t ! i)"
    using assms by (auto simp: requeue_table_def Let_def)
  show ?thesis
    unfolding Let_def m'
    using requeue_candidates_sound[of "mr_hash (media_rows db t ! i)" now db t limit target]
      requeue_candidates_complete[of now target db t limit "media_rows db t ! i"] nth_mem[OF assms(2)]
    by (auto simp: requeueable_def under_replicated_def)
qed

definition lost_file :: "string \<Rightarrow> int \<Rightarrow> bool \<Rightarrow> media_row" where
  "lost_file h created gone = toy_media\<lparr>mr_hash := h, mr_created := created, mr_deleted := gone, mr_synced_at := Some 0, mr_last_attempt := None\<rparr>"

text \<open>Dead rows can starve it: with a limit of one, an older deleted file without shards takes the only place
  in every round, and a live file that has lost all its shards is never queued again.\<close>

theorem requeue_starved:
  "\<exists>db. db_images db = [lost_file ''old'' 1 True, lost_file ''new'' 2 False]
     \<and> (\<forall>now. under_replicated now 3 db (lost_file ''new'' 2 False) \<and> attempt_due now (lost_file ''new'' 2 False)
         \<and> requeue_under_replicated (\<lambda>k. None) now 1 3 db = (Ok 0, db))"
proof -
  let ?db = "\<lparr>db_images = [lost_file ''old'' 1 True, lost_file ''new'' 2 False], db_videos = [], db_shards = [], db_nodes = []\<rparr>"
  have c: "requeue_candidates now ?db Images 1 3 = [''old'']" for now
    by (simp add: requeue_candidates_def live_shards_def lost_file_def)
  have "requeue_table now 1 3 Images ?db = (0, ?db)" for now
    unfolding requeue_table_def c Let_def by (simp add: requeueable_def lost_file_def)
  moreover have "requeue_table now 1 3 Videos ?db = (0, ?db)" for now
    by (simp add: requeue_table_def requeue_candidates_def Let_def)
  ultimately show ?thesis
    by (intro exI[of _ ?db]) (simp add: requeue_under_replicated_def under_replicated_def live_shards_def attempt_due_def lost_file_def)
qed

theorem requeue_exact_witness:
  "let db = \<lparr>db_images = [lost_file ''new'' 2 False], db_videos = [], db_shards = [], db_nodes = []\<rparr>
   in mr_synced_at (media_rows (snd (requeue_table 0 1 3 Images db)) Images ! 0) = None"
proof -
  let ?db = "\<lparr>db_images = [lost_file ''new'' 2 False], db_videos = [], db_shards = [], db_nodes = []\<rparr>"
  show ?thesis
    using requeue_exact[of 0 1 3 Images ?db "fst (requeue_table 0 1 3 Images ?db)" "snd (requeue_table 0 1 3 Images ?db)" 0]
    by (simp add: Let_def under_replicated_def live_shards_def attempt_due_def lost_file_def)
qed

end
