(* ===== verification/Snapshot.thy ===== *)
theory Snapshot
  imports Replication "HOL-Library.Char_ord" "HOL-Library.List_Lexorder"
begin

text \<open>
  Database snapshots: the restore manifests kept outside the database and the restore from them
  (\<open>src/db_restore.rs\<close>), and the backup worker that dumps, uploads, records, publishes and prunes
  snapshots (\<open>src/db_backup_worker.rs\<close>).  The manifest directory is a list of named files; JSON and the
  running of \<open>pg_dump\<close> are parameters.
\<close>

section \<open>Manifests\<close>

record manifest_shard =
  ms_index :: nat
  ms_node_id :: string
  ms_addr :: string
  ms_shard_hash :: string

record db_backup_manifest =
  bm_backup_hash :: string
  bm_created_at :: string
  bm_size_bytes :: int
  bm_encrypted_size :: int
  bm_data_shards :: int
  bm_parity_shards :: int
  bm_segment_count :: int
  bm_segment_enc_sizes :: "int list option"
  bm_encryption_key_hex :: string
  bm_shards :: "manifest_shard list"

record json =
  js_pretty :: "db_backup_manifest \<Rightarrow> string + string"
  js_vec :: "db_backup_manifest \<Rightarrow> string + bytes"
  js_parse :: "bytes \<Rightarrow> string + db_backup_manifest"

definition json_ok :: "json \<Rightarrow> bool" where
  "json_ok J \<longleftrightarrow> (\<forall>m. \<exists>t. js_pretty J m = Ok t \<and> js_parse J (str_bytes t) = Ok m)
     \<and> (\<forall>m. \<exists>b. js_vec J m = Ok b \<and> js_parse J b = Ok m)"

type_synonym mdir = "(string \<times> bytes) list"

text \<open>The failures of the file operations; a failed write leaves the bytes written before it.\<close>

record file_env =
  fe_dir :: string
  fe_create :: "string option"
  fe_open :: "string option"
  fe_write :: "(string \<times> nat) option"
  fe_read :: "string \<Rightarrow> string option"
  fe_list :: bool
  fe_remove :: bool

definition manifest_file :: "string \<Rightarrow> string" where
  "manifest_file backup_hash = backup_hash @ ''.json''"

definition MESH_LATEST_MANIFEST :: string where "MESH_LATEST_MANIFEST = ''reminisce:db-manifest:latest''"

definition mesh_manifest_name :: "string \<Rightarrow> string" where
  "mesh_manifest_name backup_hash = ''reminisce:db-manifest:'' @ backup_hash"

definition write_manifest :: "json \<Rightarrow> file_env \<Rightarrow> db_backup_manifest \<Rightarrow> mdir \<Rightarrow> (string + string) \<times> mdir" where
  "write_manifest J F manifest dir =
     (case fe_create F of
        Some e \<Rightarrow> (Err (''create manifest dir failed: '' @ e), dir)
      | None \<Rightarrow>
          let name = manifest_file (bm_backup_hash manifest) in
          (case js_pretty J manifest of
             Inl e \<Rightarrow> (Err e, dir)
           | Inr text \<Rightarrow>
               (case fe_open F of
                  Some e \<Rightarrow> (Err (''open manifest failed: '' @ e), dir)
                | None \<Rightarrow>
                    (case fe_write F of
                       Some (e, n) \<Rightarrow> (Err (''write manifest failed: '' @ e), AList.update name (take n (str_bytes text)) dir)
                     | None \<Rightarrow> (Ok (fe_dir F @ ''/'' @ name), AList.update name (str_bytes text) dir)))))"

definition read_manifest :: "json \<Rightarrow> file_env \<Rightarrow> mdir \<Rightarrow> string \<Rightarrow> string + db_backup_manifest" where
  "read_manifest J F dir name =
     (let path = fe_dir F @ ''/'' @ name in
      case (case fe_read F name of Some e \<Rightarrow> Err e
            | None \<Rightarrow> (case map_of dir name of Some b \<Rightarrow> Ok b | None \<Rightarrow> Err ''No such file or directory (os error 2)'')) of
        Inl e \<Rightarrow> Err (''read manifest '' @ path @ '' failed: '' @ e)
      | Inr data \<Rightarrow> map_err (\<lambda>e. ''parse manifest '' @ path @ '' failed: '' @ e) (js_parse J data))"

definition is_json_file :: "string \<Rightarrow> bool" where
  "is_json_file name \<longleftrightarrow> 5 < length name \<and> drop (length name - 5) name = ''.json''"

definition list_manifests :: "json \<Rightarrow> file_env \<Rightarrow> mdir \<Rightarrow> db_backup_manifest list" where
  "list_manifests J F dir =
     (let out = (if fe_list F
                 then List.map_filter (\<lambda>name. if is_json_file name
                        then (case read_manifest J F dir name of Inr m \<Rightarrow> Some m | Inl e \<Rightarrow> None) else None) (map fst dir)
                 else [])
      in rev (sort_key bm_created_at (rev out)))"

definition delete_manifest :: "file_env \<Rightarrow> string \<Rightarrow> mdir \<Rightarrow> mdir" where
  "delete_manifest F backup_hash dir = (if fe_remove F then AList.delete (manifest_file backup_hash) dir else dir)"

section \<open>Restoring a snapshot\<close>

definition manifest_entries :: "db_backup_manifest \<Rightarrow> (nat \<times> string \<times> string) list" where
  "manifest_entries m = map (\<lambda>s. (ms_index s, ms_node_id s, ms_shard_hash s)) (bm_shards m)"

definition collect_manifest :: "ext \<Rightarrow> 's fetcher \<Rightarrow> db_backup_manifest \<Rightarrow> 's \<Rightarrow> (bytes option list \<times> 's) outcome" where
  "collect_manifest E fetch m s = fetch_shards E fetch (manifest_entries m) (replicate TOTAL_SHARDS None) s"

definition restore_snapshot_data :: "ext \<Rightarrow> (np2p_error \<Rightarrow> string) \<Rightarrow> db_backup_manifest \<Rightarrow> bytes \<Rightarrow> bytes option list \<Rightarrow> (string + bytes) outcome" where
  "restore_snapshot_data E show_err m key shards_vec =
     (let data_shards = as_usize (max (bm_data_shards m) 1); parity_shards = as_usize (max (bm_parity_shards m) 0) in
      if bm_segment_count m \<le> 1
      then Done (map_err (\<lambda>e. ''Snapshot restore failed: '' @ show_err e)
             (restore_from_backup E shards_vec (as_usize (bm_encrypted_size m)) key data_shards parity_shards))
      else case bm_segment_enc_sizes m of
             None \<Rightarrow> Done (Err ''segment_enc_sizes missing for multi-segment snapshot'')
           | Some enc_sizes \<Rightarrow> restore_segmented E show_err shards_vec enc_sizes key)"

definition restore_db_snapshot :: "ext \<Rightarrow> (bytes \<Rightarrow> bytes) \<Rightarrow> (string \<Rightarrow> string) \<Rightarrow> (np2p_error \<Rightarrow> string) \<Rightarrow> 's fetcher \<Rightarrow> db_backup_manifest \<Rightarrow> string
    \<Rightarrow> key_cache \<Rightarrow> 's \<Rightarrow> ((string + bytes) \<times> key_cache \<times> 's) outcome" where
  "restore_db_snapshot E sha256 hex_err show_err fetch m api_secret cache s =
     (case hex_decode E (bm_encryption_key_hex m) of
        None \<Rightarrow> Done (Err (''invalid encryption_key_hex: '' @ hex_err (bm_encryption_key_hex m)), cache, s)
      | Some encrypted_key \<Rightarrow>
          (case decrypt_key E sha256 cache encrypted_key api_secret of
             (Inl e, c) \<Rightarrow> Done (Err e, c, s)
           | (Inr key, c) \<Rightarrow>
               bind_out (collect_manifest E fetch m s) (\<lambda>(shards_vec, s1).
                 if present shards_vec < DATA_SHARDS
                 then Done (Err (''Only '' @ show_nat (present shards_vec) @ ''/'' @ show_nat TOTAL_SHARDS
                        @ '' shards available for snapshot '' @ bm_backup_hash m @ '' '' @ em_dash @ '' cannot restore (need ''
                        @ geq_sign @ show_nat DATA_SHARDS @ '')''), c, s1)
                 else bind_out (restore_snapshot_data E show_err m key shards_vec) (\<lambda>r. Done (r, c, s1)))))"

section \<open>Database URLs\<close>

definition split_once :: "char \<Rightarrow> string \<Rightarrow> (string \<times> string) option" where
  "split_once c s = (if c \<in> set s then Some (takeWhile (\<lambda>x. x \<noteq> c) s, tl (dropWhile (\<lambda>x. x \<noteq> c) s)) else None)"

definition rsplit_once :: "char \<Rightarrow> string \<Rightarrow> (string \<times> string) option" where
  "rsplit_once c s = map_option (\<lambda>(a, b). (rev b, rev a)) (split_once c (rev s))"

definition strip_prefix :: "string \<Rightarrow> string \<Rightarrow> string option" where
  "strip_prefix p s = (if take (length p) s = p then Some (drop (length p) s) else None)"

text \<open>\<open>str::parse::<u16>\<close>: an optional plus sign, at least one digit, at most 65535.\<close>

definition parse_u16 :: "string \<Rightarrow> nat option" where
  "parse_u16 s =
     (let ds = (if s \<noteq> [] \<and> hd s = CHR ''+'' then tl s else s) in
      if ds \<noteq> [] \<and> list_all (\<lambda>c. 48 \<le> (of_char c :: nat) \<and> (of_char c :: nat) \<le> 57) ds \<and> read_digits 0 ds < 65536
      then Some (read_digits 0 ds) else None)"

record pg_url_parts =
  pg_host :: string
  pg_port :: nat
  pg_user :: string
  pg_password :: "string option"
  pg_dbname :: string

definition ellipsis :: string where "ellipsis = [CHR 0xE2, CHR 0x80, CHR 0xA6]"

definition parse_pg_url :: "string \<Rightarrow> string + pg_url_parts" where
  "parse_pg_url url =
     (case (case strip_prefix ''postgres://'' url of Some r \<Rightarrow> Some r | None \<Rightarrow> strip_prefix ''postgresql://'' url) of
        None \<Rightarrow> Err (''unsupported database URL scheme (expected postgres://'' @ ellipsis @ ''): '' @ url)
      | Some rest0 \<Rightarrow>
          let rest = takeWhile (\<lambda>c. c \<noteq> CHR ''?'') rest0;
              (authority, dbname_raw) = (case split_once CHR ''/'' rest of Some x \<Rightarrow> x | None \<Rightarrow> (rest, []));
              (userinfo, hostport) = (case rsplit_once CHR ''@'' authority of Some (u, h) \<Rightarrow> (Some u, h) | None \<Rightarrow> (None, authority)) in
          if hostport = [] then Err ''database URL is missing a host''
          else
            let (user, password) = (case userinfo of
                  Some ui \<Rightarrow> (case split_once CHR '':'' ui of Some (u, p) \<Rightarrow> (u, Some p) | None \<Rightarrow> (ui, None))
                | None \<Rightarrow> (''postgres'', None)) in
            bind_res (case rsplit_once CHR '':'' hostport of
                Some (h, p) \<Rightarrow> (case parse_u16 p of
                    Some n \<Rightarrow> Ok (h, n)
                  | None \<Rightarrow> Err (''invalid port '' @ quote @ p @ quote @ '' in database URL''))
              | None \<Rightarrow> Ok (hostport, 5432))
              (\<lambda>(host, port).
                if host = [] then Err ''database URL is missing a host''
                else Ok \<lparr>pg_host = host, pg_port = port, pg_user = user, pg_password = password,
                       pg_dbname = if dbname_raw = [] then ''postgres'' else dbname_raw\<rparr>))"

section \<open>Recording a snapshot\<close>

record backup_row =
  bk_hash :: string
  bk_created :: int
  bk_size :: int
  bk_enc_size :: int
  bk_data_shards :: int
  bk_parity_shards :: int
  bk_key :: bytes
  bk_seg_count :: int
  bk_seg_sizes :: "int list option"

record backup_shard =
  bs_hash :: string
  bs_index :: int
  bs_node :: string
  bs_shard_hash :: string

record snap_tables =
  tb_db :: db
  tb_backups :: "backup_row list"
  tb_shards :: "backup_shard list"

record snap_state =
  sn_tables :: snap_tables
  sn_dir :: mdir
  sn_escrow :: string
  sn_cache :: key_cache

record snap_env =
  se_repl :: repl_env
  se_json :: json
  se_files :: file_env
  se_bincode :: bincode
  se_net :: net
  se_created_at :: string

text \<open>\<open>blake3_file_hex\<close> over the reads of the file.\<close>

fun read_all :: "(string + bytes) list \<Rightarrow> string + bytes" where
  "read_all [] = Ok []"
| "read_all (Inl e # rs) = Err e"
| "read_all (Inr b # rs) = (if b = [] then Ok [] else bind_res (read_all rs) (\<lambda>r. Ok (b @ r)))"

definition blake3_file_hex :: "ext \<Rightarrow> string + (string + bytes) list \<Rightarrow> string + string" where
  "blake3_file_hex E reads = bind_res reads (\<lambda>rs. bind_res (read_all rs) (\<lambda>b. Ok (hex_encode E (blake3 E b))))"

definition insert_backup :: "backup_row \<Rightarrow> snap_tables \<Rightarrow> snap_tables" where
  "insert_backup b t = (if bk_hash b \<in> bk_hash ` set (tb_backups t) then t else t\<lparr>tb_backups := tb_backups t @ [b]\<rparr>)"

fun upsert_backup_shards :: "backup_shard \<Rightarrow> backup_shard list \<Rightarrow> backup_shard list" where
  "upsert_backup_shards s [] = [s]"
| "upsert_backup_shards s (r # rs) =
     (if bs_hash r = bs_hash s \<and> bs_index r = bs_index s then r\<lparr>bs_node := bs_node s, bs_shard_hash := bs_shard_hash s\<rparr> # rs
      else r # upsert_backup_shards s rs)"

definition snapshot_statements :: "int \<Rightarrow> backup_row \<Rightarrow> uploaded_shard list \<Rightarrow> (snap_tables \<Rightarrow> snap_tables) list" where
  "snapshot_statements now b uploads = insert_backup b # concat (map (\<lambda>s.
     [\<lambda>t. t\<lparr>tb_db := upsert_node now (us_node_id s) (us_addr s) (tb_db t)\<rparr>,
      \<lambda>t. t\<lparr>tb_shards := upsert_backup_shards \<lparr>bs_hash = bk_hash b, bs_index = as_i32 (us_idx s), bs_node = us_node_id s,
             bs_shard_hash = us_hash s\<rparr> (tb_shards t)\<rparr>]) uploads)"

text \<open>Calls: 2 the connection, 3 the begin of the transaction, then the statements and the commit.\<close>

definition record_snapshot :: "(nat \<Rightarrow> string option) \<Rightarrow> int \<Rightarrow> backup_row \<Rightarrow> uploaded_shard list \<Rightarrow> snap_tables \<Rightarrow> (string + unit) \<times> snap_tables" where
  "record_snapshot fails now b uploads t =
     (case fails 2 of Some e \<Rightarrow> (Err e, t) | None \<Rightarrow>
     (case fails 3 of Some e \<Rightarrow> (Err e, t) | None \<Rightarrow>
     (case exec_all fails 4 (snapshot_statements now b uploads) t of
        (Inl e, _) \<Rightarrow> (Err e, t)
      | (Inr _, t1) \<Rightarrow>
          (case fails (5 + 2 * length uploads) of Some e \<Rightarrow> (Err e, t) | None \<Rightarrow> (Ok (), t1)))))"

definition manifest_of :: "ext \<Rightarrow> string \<Rightarrow> backup_row \<Rightarrow> uploaded_shard list \<Rightarrow> db_backup_manifest" where
  "manifest_of E created_at b uploads =
     \<lparr>bm_backup_hash = bk_hash b, bm_created_at = created_at, bm_size_bytes = bk_size b, bm_encrypted_size = bk_enc_size b,
      bm_data_shards = bk_data_shards b, bm_parity_shards = bk_parity_shards b, bm_segment_count = bk_seg_count b,
      bm_segment_enc_sizes = bk_seg_sizes b, bm_encryption_key_hex = hex_encode E (bk_key b),
      bm_shards = map (\<lambda>s. \<lparr>ms_index = us_idx s, ms_node_id = us_node_id s, ms_addr = us_addr s, ms_shard_hash = us_hash s\<rparr>) uploads\<rparr>"

text \<open>The messages of \<open>publish_manifest_to_mesh\<close>, in order, with whether each was stored.\<close>

definition publish_manifest_to_mesh :: "ext \<Rightarrow> snap_env \<Rightarrow> p2p_service \<Rightarrow> (string \<times> sock_addr) list \<Rightarrow> db_backup_manifest \<Rightarrow> string
    \<Rightarrow> (string \<times> msg \<times> bool) list" where
  "publish_manifest_to_mesh E S svc nodes m api_secret =
     (case js_vec (se_json S) m of
        Inl e \<Rightarrow> []
      | Inr text \<Rightarrow>
          (case encrypt_for_mesh E (rn_show_err (se_repl S)) text api_secret (str_bytes (bm_backup_hash m)) of
             Inl e \<Rightarrow> []
           | Inr encrypted \<Rightarrow>
               concat (map (\<lambda>(nid, addr). map (\<lambda>name.
                 let token = create_shard_token E (ue_clock (rn_up (se_repl S))) (rn_identity (se_repl S)) OpStore (blake3 E (str_bytes name));
                     message = StorePinnedObject name encrypted token
                 in (nid, message, send_message (se_bincode S) (se_net S) svc nid message = Ok (StorePinnedResponse True)))
                 [MESH_LATEST_MANIFEST, mesh_manifest_name (bm_backup_hash m)]) nodes)))"

definition append_backup_key :: "ext \<Rightarrow> bool \<Rightarrow> string \<Rightarrow> bytes \<Rightarrow> string \<Rightarrow> string" where
  "append_backup_key E opens backup_hash encrypted_key escrow =
     (if opens then escrow @ ''dbbackup:'' @ backup_hash @ '','' @ hex_encode E encrypted_key @ [CHR 0x0A] else escrow)"

section \<open>The worker\<close>

text \<open>What an upload of the dump yields: the shards stored, the encrypted size, the segment count and sizes.\<close>

definition upload_dump :: "ext \<Rightarrow> repl_env \<Rightarrow> (string \<times> sock_addr) list \<Rightarrow> string \<Rightarrow> disk_file \<Rightarrow> nat \<Rightarrow> nat \<Rightarrow> nat
    \<Rightarrow> (string + uploaded_shard list \<times> int \<times> int \<times> int list option) outcome" where
  "upload_dump E R nodes backup_hash file file_size data_shards parity_shards =
     (let encryption_key = rn_key R in
      if file_size > SEGMENT_THRESHOLD
      then bind_out (upload_segmented E (rn_up R) (rn_show_err R) (rn_identity R) nodes backup_hash (df_reads file) encryption_key data_shards parity_shards)
        (\<lambda>up. Done (bind_res up (\<lambda>(u, sizes). Ok (u, 0, as_i32 (length sizes), Some (map int sizes)))))
      else case bind_res (df_read file) (\<lambda>data.
                  map_err (rn_show_err R) (process_for_backup E data encryption_key encryption_key data_shards parity_shards)) of
             Inl e \<Rightarrow> Done (Err e)
           | Inr (shards, enc_size) \<Rightarrow>
               bind_out (upload_inmemory E (rn_up R) (rn_identity R) (rn_order R) nodes backup_hash shards) (\<lambda>u.
                 Done (Ok (u, int enc_size, 1, None))))"

definition store_snapshot :: "ext \<Rightarrow> snap_env \<Rightarrow> repl_cfg \<Rightarrow> p2p_service \<Rightarrow> (string \<times> sock_addr) list \<Rightarrow> string \<Rightarrow> nat
    \<Rightarrow> uploaded_shard list \<times> int \<times> int \<times> int list option \<Rightarrow> snap_state \<Rightarrow> ((string + bool) \<times> (string \<times> msg \<times> bool) list) \<times> snap_state" where
  "store_snapshot E S C svc nodes backup_hash file_size up st =
     (case up of (uploads, enc_size, segment_count, segment_enc_sizes) \<Rightarrow>
      let R = se_repl S in
      if length uploads < rc_data_shards C
      then ((Err (''Only '' @ show_nat (length uploads) @ ''/'' @ show_nat SHARD_COUNT @ '' shards stored for DB snapshot. Minimum ''
              @ show_nat (rc_data_shards C) @ '' required for reconstruction.''), []), st)
      else case rc_api_key C of
        Inl e \<Rightarrow> ((Err e, []), st)
      | Inr api_secret \<Rightarrow>
          (case encrypt_key E (sn_cache st) (rn_nonce R) (rn_key R) api_secret of
             (Inl e, c) \<Rightarrow> ((Err e, []), st\<lparr>sn_cache := c\<rparr>)
           | (Inr encrypted_key, c) \<Rightarrow>
               let b = \<lparr>bk_hash = backup_hash, bk_created = rn_now R, bk_size = int file_size, bk_enc_size = enc_size,
                        bk_data_shards = as_i32 (rc_data_shards C), bk_parity_shards = as_i32 (rc_parity_shards C), bk_key = encrypted_key,
                        bk_seg_count = segment_count, bk_seg_sizes = segment_enc_sizes\<rparr> in
               (case record_snapshot (rn_fails R) (rn_now R) b uploads (sn_tables st) of
                  (Inl e, t) \<Rightarrow> ((Err e, []), st\<lparr>sn_tables := t, sn_cache := c\<rparr>)
                | (Inr _, t) \<Rightarrow>
                    let m = manifest_of E (se_created_at S) b uploads in
                    ((Ok True, publish_manifest_to_mesh E S svc nodes m api_secret),
                     st\<lparr>sn_tables := t, sn_cache := c,
                        sn_escrow := append_backup_key E (rn_escrow_opens R) backup_hash encrypted_key (sn_escrow st),
                        sn_dir := snd (write_manifest (se_json S) (se_files S) m (sn_dir st))\<rparr>))))"

definition backup_dump_file :: "ext \<Rightarrow> snap_env \<Rightarrow> repl_cfg \<Rightarrow> p2p_service \<Rightarrow> (string \<times> sock_addr) list \<Rightarrow> disk_file \<Rightarrow> snap_state
    \<Rightarrow> (((string + bool) \<times> (string \<times> msg \<times> bool) list) \<times> snap_state) outcome" where
  "backup_dump_file E S C svc nodes file st =
     (let R = se_repl S in
      case df_len file of
        Inl e \<Rightarrow> Done ((Err e, []), st)
      | Inr file_size \<Rightarrow>
          if file_size = 0 then Done ((Err ''pg_dump produced an empty file'', []), st)
          else (case blake3_file_hex E (df_reads file) of
            Inl e \<Rightarrow> Done ((Err e, []), st)
          | Inr backup_hash \<Rightarrow>
              (case rn_fails R 0 of Some e \<Rightarrow> Done ((Err e, []), st) | None \<Rightarrow>
              (case rn_fails R 1 of Some e \<Rightarrow> Done ((Err e, []), st) | None \<Rightarrow>
                if backup_hash \<in> bk_hash ` set (tb_backups (sn_tables st)) then Done ((Ok False, []), st)
                else bind_out (upload_dump E R nodes backup_hash file file_size (rc_data_shards C) (rc_parity_shards C)) (\<lambda>res.
                  Done (case res of
                    Inl e \<Rightarrow> ((Err e, []), st)
                  | Inr up \<Rightarrow> store_snapshot E S C svc nodes backup_hash file_size up st))))))"

section \<open>Retention\<close>

record prune_env =
  pe_fails :: "nat \<Rightarrow> string option"
  pe_peer :: peer_env

definition expired :: "int \<Rightarrow> backup_row list \<Rightarrow> string list" where
  "expired retention rows = map bk_hash (drop (nat retention) (sort_key (\<lambda>b. - bk_created b) rows))"

text \<open>Asking the node of a shard to delete it, best-effort: the address asked, if any, and the registry.\<close>

definition delete_backup_shard :: "prune_env \<Rightarrow> db \<Rightarrow> registry \<Rightarrow> backup_shard \<Rightarrow> (sock_addr \<times> string) list \<times> registry" where
  "delete_backup_shard P db r s =
     (case lookup_node_addr (pv_parse_addr (pe_peer P)) (pv_db_answers (pe_peer P)) (pv_clock (pe_peer P)) db r (bs_node s) of
        (None, r') \<Rightarrow> ([], r')
      | (Some addr, r') \<Rightarrow> ([(addr, bs_shard_hash s)], r'))"

fun delete_backup_shards :: "prune_env \<Rightarrow> db \<Rightarrow> registry \<Rightarrow> backup_shard list \<Rightarrow> (sock_addr \<times> string) list \<times> registry" where
  "delete_backup_shards P db r [] = ([], r)"
| "delete_backup_shards P db r (s # ss) =
     (case delete_backup_shard P db r s of (d1, r1) \<Rightarrow>
        (case delete_backup_shards P db r1 ss of (d2, r2) \<Rightarrow> (d1 @ d2, r2)))"

definition forget_backup :: "string \<Rightarrow> snap_tables \<Rightarrow> snap_tables" where
  "forget_backup h t = t\<lparr>tb_backups := filter (\<lambda>b. bk_hash b \<noteq> h) (tb_backups t), tb_shards := filter (\<lambda>s. bs_hash s \<noteq> h) (tb_shards t)\<rparr>"

fun prune_rows :: "prune_env \<Rightarrow> file_env \<Rightarrow> nat \<Rightarrow> string list \<Rightarrow> snap_state \<Rightarrow> registry
    \<Rightarrow> (string + nat) \<times> snap_state \<times> registry \<times> (sock_addr \<times> string) list" where
  "prune_rows P F k [] st r = (Ok 0, st, r, [])"
| "prune_rows P F k (h # hs) st r =
     (case pe_fails P k of
        Some e \<Rightarrow> (Err e, st, r, [])
      | None \<Rightarrow>
          (case delete_backup_shards P (tb_db (sn_tables st)) r (filter (\<lambda>s. bs_hash s = h) (tb_shards (sn_tables st))) of (d1, r1) \<Rightarrow>
             (case pe_fails P (k + 1) of
                Some e \<Rightarrow> (Err e, st, r1, d1)
              | None \<Rightarrow>
                  (case prune_rows P F (k + 2) hs (st\<lparr>sn_tables := forget_backup h (sn_tables st), sn_dir := delete_manifest F h (sn_dir st)\<rparr>) r1 of
                     (res, st2, r2, d2) \<Rightarrow> (bind_res res (\<lambda>n. Ok (n + 1)), st2, r2, d1 @ d2)))))"

definition prune_old_snapshots :: "prune_env \<Rightarrow> file_env \<Rightarrow> int \<Rightarrow> snap_state \<Rightarrow> registry
    \<Rightarrow> (string + nat) \<times> snap_state \<times> registry \<times> (sock_addr \<times> string) list" where
  "prune_old_snapshots P F retention st r =
     (case pe_fails P 0 of Some e \<Rightarrow> (Err e, st, r, []) | None \<Rightarrow>
     (case pe_fails P 1 of Some e \<Rightarrow> (Err e, st, r, []) | None \<Rightarrow>
        prune_rows P F 2 (expired retention (tb_backups (sn_tables st))) st r))"

text \<open>One cycle; \<open>dump\<close> is what \<open>pg_dump\<close> left behind.\<close>

record cycle_cfg =
  cy_enabled :: bool
  cy_database_url :: "string option"
  cy_retention :: int

definition backup_cycle :: "ext \<Rightarrow> snap_env \<Rightarrow> prune_env \<Rightarrow> repl_cfg \<Rightarrow> cycle_cfg \<Rightarrow> (pg_url_parts \<Rightarrow> string + disk_file) \<Rightarrow> p2p_service \<Rightarrow> snap_state
    \<Rightarrow> ((string + bool) \<times> snap_state \<times> p2p_service) outcome" where
  "backup_cycle E S P C Y pg_dump svc st =
     (let nodes = map (\<lambda>p. (pi_node_id p, pi_addr p)) (all_peers (sv_registry svc)) in
      if \<not> cy_enabled Y then Done (Ok False, st, svc)
      else case cy_database_url Y of
        None \<Rightarrow> Done (Ok False, st, svc)
      | Some url \<Rightarrow>
          if nodes = [] then Done (Ok False, st, svc)
          else (case bind_res (parse_pg_url url) pg_dump of
            Inl e \<Rightarrow> Done (Err e, st, svc)
          | Inr file \<Rightarrow>
              bind_out (backup_dump_file E S C svc nodes file st) (\<lambda>((res, sent), st1). Done (
                case res of
                  Inl e \<Rightarrow> (Err e, st1, svc)
                | Inr did_work \<Rightarrow>
                    (case prune_old_snapshots P (se_files S) (max (cy_retention Y) 1) st1 (sv_registry svc) of
                       (_, st2, r, _) \<Rightarrow> (Ok did_work, st2, svc\<lparr>sv_registry := r\<rparr>))))))"

section \<open>Lemmas on restoring a snapshot\<close>

interpretation manifests: shard_collection collect_manifest manifest_entries
proof (unfold_locales, goal_cases)
  case (1 E fetch src s zs s')
  then show ?case using fetch_shards_length by (fastforce simp: collect_manifest_def)
next
  case (2 E fetch src s zs s' i d)
  then show ?case using fetch_shards_verified[of E fetch "manifest_entries src"] by (fastforce simp: collect_manifest_def simp del: replicate.simps)
next
  case (3 fetch E src s)
  then show ?case using fetch_shards_total[of fetch] by (simp add: collect_manifest_def)
next
  case (4 E src i nid d fetch s zs s')
  then show ?case
    using fetch_shards_complete[of E "manifest_entries src" i nid d fetch] by (auto simp: collect_manifest_def)
qed

text \<open>What an upload of the dump leaves: a single codeword with its encrypted size, or segments.\<close>

definition snapshot_layout :: "ext \<Rightarrow> bytes \<Rightarrow> bytes \<Rightarrow> int \<Rightarrow> int \<Rightarrow> int list option \<Rightarrow> bytes list \<Rightarrow> bool" where
  "snapshot_layout E key data enc_size seg_count seg_sizes ys \<longleftrightarrow>
     (seg_count \<le> 1 \<and> sealable data key \<and> (\<exists>ctx n. process_for_backup E data key ctx DATA_SHARDS PARITY_SHARDS = Ok (ys, n) \<and> enc_size = int n \<and> n < 2 ^ 64))
     \<or> (1 < seg_count \<and> (\<exists>bufs segs. data = concat bufs \<and> segments_of E key bufs segs \<and> ys = full_shards segs
          \<and> seg_sizes = Some (map (\<lambda>s. int (snd s)) segs) \<and> shard_bytes segs < 2 ^ 64 \<and> (\<forall>s \<in> set segs. snd s < 2 ^ 64)))"

lemma snapshot_data_ok:
  assumes "cipher_ok E" "rs_ok E DATA_SHARDS PARITY_SHARDS" "survivors ys zs" "DATA_SHARDS \<le> present zs"
    and "snapshot_layout E key data (bm_encrypted_size m) (bm_segment_count m) (bm_segment_enc_sizes m) ys"
    and "bm_data_shards m = int DATA_SHARDS" "bm_parity_shards m = int PARITY_SHARDS"
  shows "restore_snapshot_data E sh m key zs = Done (Ok data)"
  using assms(5) unfolding snapshot_layout_def
proof (elim disjE conjE exE)
  fix ctx n
  assume s: "bm_segment_count m \<le> 1" "sealable data key" "process_for_backup E data key ctx DATA_SHARDS PARITY_SHARDS = Ok (ys, n)"
    "bm_encrypted_size m = int n" "n < 2 ^ 64"
  have "restore_from_backup E zs n key DATA_SHARDS PARITY_SHARDS = Ok data"
    using backup_facts(4)[OF assms(1,2) _ s(2,3) assms(3,4)] by (simp add: DATA_SHARDS_def)
  moreover have "as_usize (int n) = n" "as_usize (int DATA_SHARDS) = DATA_SHARDS" "as_usize (int PARITY_SHARDS) = PARITY_SHARDS"
    using s(5) by (intro as_usize_int; simp add: code_sizes)+
  moreover have "max (int DATA_SHARDS) 1 = int DATA_SHARDS" "max (int PARITY_SHARDS) 0 = int PARITY_SHARDS" by (simp_all add: code_sizes)
  ultimately show ?thesis using s(1,4) assms(6,7) by (simp add: restore_snapshot_data_def Let_def)
next
  fix bufs segs
  assume "1 < bm_segment_count m" "data = concat bufs" "segments_of E key bufs segs" "ys = full_shards segs"
    "bm_segment_enc_sizes m = Some (map (\<lambda>s. int (snd s)) segs)" "shard_bytes segs < 2 ^ 64" "\<forall>s \<in> set segs. snd s < 2 ^ 64"
  then show ?thesis
    using restore_segmented_ok[OF assms(1,2), of key bufs segs zs sh] assms(3,4) by (simp add: restore_snapshot_data_def Let_def)
qed

lemma restore_snapshot_ok:
  assumes "cipher_ok E" "rs_ok E DATA_SHARDS PARITY_SHARDS" "hex_ok E" "keywrap_ok E" "length key = 32" "length nonce = 12"
    and "wrap_key E key secret nonce = Ok w" "bm_encryption_key_hex m = hex_encode E w" "cache_from E cache secret"
    and "snapshot_layout E key data (bm_encrypted_size m) (bm_segment_count m) (bm_segment_enc_sizes m) ys"
    and "bm_data_shards m = int DATA_SHARDS" "bm_parity_shards m = int PARITY_SHARDS"
    and "lists_shards E (manifest_entries m) ys" "no_collision E fetch ys" "\<forall>s nid h. fetch s nid h \<noteq> Panic"
    and "DATA_SHARDS \<le> card (available E fetch (manifest_entries m) ys)"
  shows "\<exists>c s'. restore_db_snapshot E sha256 he sh fetch m secret cache s = Done (Ok data, c, s')"
proof -
  have b: "blake3_ok E" using assms(1) by (simp add: cipher_ok_def)
  obtain zs s' where c: "collect_manifest E fetch m s = Done (zs, s')" "survivors ys zs" "DATA_SHARDS \<le> present zs"
    using manifests.collected_ok[OF assms(3) b assms(13,14) _ assms(16)] assms(15) by metis
  have "fst (decrypt_key E sha256 cache w secret) = Ok key" by (rule decrypt_wrapped[OF assms(4-7,9)])
  then show ?thesis
    using c snapshot_data_ok[OF assms(1,2) c(2,3) assms(10-12)] hex_decode_encode[OF assms(3)] assms(8)
    by (cases "decrypt_key E sha256 cache w secret") (simp add: restore_db_snapshot_def)
qed

section \<open>Lemmas on making a snapshot\<close>

lemma read_all_pieces: "[] \<notin> set bs \<Longrightarrow> read_all (map Inr bs) = Ok (concat bs)"
  by (induction bs) auto

lemma upload_dump_layout:
  assumes "cipher_ok E" "rs_ok E DATA_SHARDS PARITY_SHARDS" "length (rn_key R) = 32" "distinct (rn_order R)" "set (rn_order R) \<subseteq> {..<TOTAL_SHARDS}"
    and "holds_file file data" "length data < 2 ^ 58"
    and "upload_dump E R nodes h file (length data) DATA_SHARDS PARITY_SHARDS = Done (Ok (uploads, enc_size, seg_count, seg_sizes))"
  shows "\<exists>ys. snapshot_layout E (rn_key R) data enc_size seg_count seg_sizes ys \<and> results_of E ys uploads \<and> length ys = TOTAL_SHARDS"
proof (cases "length data > SEGMENT_THRESHOLD")
  case True
  obtain sizes where up: "upload_segmented E (rn_up R) (rn_show_err R) (rn_identity R) nodes h (df_reads file) (rn_key R) DATA_SHARDS PARITY_SHARDS
      = Done (Ok (uploads, sizes))" "seg_count = as_i32 (length sizes)" "seg_sizes = Some (map int sizes)"
    using assms(8) True by (auto simp: upload_dump_def Let_def bind_out_Done result_simps split: prod.splits)
  obtain bufs segs where u: "data = concat bufs" "segments_of E (rn_key R) bufs segs" "sizes = map snd segs" "results_of E (full_shards segs) uploads"
    "1 < length segs" "length segs < 2 ^ 31" "shard_bytes segs < 2 ^ 64" "\<forall>s \<in> set segs. snd s < 2 ^ 64"
    by (rule segmented_upload[OF assms(1-3,6) True assms(7) up(1)])
  have "snapshot_layout E (rn_key R) data enc_size seg_count seg_sizes (full_shards segs)"
    unfolding snapshot_layout_def
    by (intro disjI2 conjI exI[of _ bufs] exI[of _ segs]) (use u as_i32_small[OF u(6)] up(2,3) in auto)
  then show ?thesis using u(4) by (intro exI[of _ "full_shards segs"]) (simp add: full_shards_def)
next
  case False
  obtain ys n where p: "process_for_backup E data (rn_key R) (rn_key R) DATA_SHARDS PARITY_SHARDS = Ok (ys, n)"
      "upload_inmemory E (rn_up R) (rn_identity R) (rn_order R) nodes h ys = Done uploads" "enc_size = int n" "seg_count = 1"
    using assms(6,8) False by (auto simp: upload_dump_def Let_def bind_out_Done holds_file_def split: sum.splits prod.splits)
      (metis map_err_Ok_iff)
  have seal: "sealable data (rn_key R)" using assms(3) False by (simp add: sealable_def SEGMENT_THRESHOLD_def aead_max_def KEY_SIZE_def)
  have f: "n = length data + 28" "length ys = TOTAL_SHARDS"
    using backup_facts(1,2)[OF assms(1,2) _ seal p(1)] by (simp_all add: code_sizes)
  have "snapshot_layout E (rn_key R) data enc_size seg_count seg_sizes ys"
    unfolding snapshot_layout_def
    by (intro disjI1 conjI exI[of _ "rn_key R"] exI[of _ n]) (use p seal f assms(7) in auto)
  then show ?thesis using upload_inmemory_results[OF p(2) assms(4)] assms(5) f(2) by auto
qed

lemma backup_dump_stored:
  assumes "backup_dump_file E S C svc nodes file st = Done ((Ok True, sent), st')" "holds_file file data"
  obtains uploads enc_size seg_count seg_sizes secret w b where
    "upload_dump E (se_repl S) nodes (hex_encode E (blake3 E data)) file (length data) (rc_data_shards C) (rc_parity_shards C)
       = Done (Ok (uploads, enc_size, seg_count, seg_sizes))"
    "rc_api_key C = Ok secret" "fst (encrypt_key E (sn_cache st) (rn_nonce (se_repl S)) (rn_key (se_repl S)) secret) = Ok w"
    "bk_hash b = hex_encode E (blake3 E data)" "bk_enc_size b = enc_size" "bk_data_shards b = as_i32 (rc_data_shards C)"
    "bk_parity_shards b = as_i32 (rc_parity_shards C)" "bk_key b = w" "bk_seg_count b = seg_count" "bk_seg_sizes b = seg_sizes"
    "sent = publish_manifest_to_mesh E S svc nodes (manifest_of E (se_created_at S) b uploads) secret"
    "sn_dir st' = snd (write_manifest (se_json S) (se_files S) (manifest_of E (se_created_at S) b uploads) (sn_dir st))"
proof -
  let ?h = "hex_encode E (blake3 E data)"
  obtain bs where bs: "df_reads file = Ok (map Inr bs)" "[] \<notin> set bs" "concat bs = data" and len: "df_len file = Ok (length data)"
    using assms(2) by (auto simp: holds_file_def)
  have h: "blake3_file_hex E (df_reads file) = Ok ?h" using bs read_all_pieces by (simp add: blake3_file_hex_def)
  obtain up where up: "upload_dump E (se_repl S) nodes ?h file (length data) (rc_data_shards C) (rc_parity_shards C) = Done (Ok up)"
    "store_snapshot E S C svc nodes ?h (length data) up st = ((Ok True, sent), st')"
  proof -
    obtain res where "upload_dump E (se_repl S) nodes ?h file (length data) (rc_data_shards C) (rc_parity_shards C) = Done res"
        "(case res of Inl e \<Rightarrow> ((Err e, []), st) | Inr up \<Rightarrow> store_snapshot E S C svc nodes ?h (length data) up st) = ((Ok True, sent), st')"
      using assms(1) len h by (auto simp: backup_dump_file_def Let_def bind_out_Done split: option.splits if_splits)
    then show thesis using that by (cases res) auto
  qed
  obtain uploads enc_size seg_count seg_sizes where u: "up = (uploads, enc_size, seg_count, seg_sizes)" by (cases up) auto
  show thesis
  proof (cases "rc_api_key C")
    case (Inl e)
    then show thesis using up(2) u by (auto simp: store_snapshot_def Let_def split: if_splits)
  next
    case (Inr secret)
    obtain w c where w: "encrypt_key E (sn_cache st) (rn_nonce (se_repl S)) (rn_key (se_repl S)) secret = (Ok w, c)"
      using up(2) u Inr by (auto simp: store_snapshot_def Let_def split: if_splits prod.splits sum.splits)
    let ?b = "\<lparr>bk_hash = ?h, bk_created = rn_now (se_repl S), bk_size = int (length data), bk_enc_size = enc_size,
        bk_data_shards = as_i32 (rc_data_shards C), bk_parity_shards = as_i32 (rc_parity_shards C), bk_key = w,
        bk_seg_count = seg_count, bk_seg_sizes = seg_sizes\<rparr>"
    have "sent = publish_manifest_to_mesh E S svc nodes (manifest_of E (se_created_at S) ?b uploads) secret
        \<and> sn_dir st' = snd (write_manifest (se_json S) (se_files S) (manifest_of E (se_created_at S) ?b uploads) (sn_dir st))"
      using up(2) u Inr w by (auto simp: store_snapshot_def Let_def split: if_splits prod.splits sum.splits)
    then show thesis using that[of uploads enc_size seg_count seg_sizes secret w ?b] up(1) u Inr w by simp
  qed
qed

text \<open>The files of the manifest directory can be written, read and listed.\<close>

definition files_work :: "file_env \<Rightarrow> bool" where
  "files_work F \<longleftrightarrow> fe_create F = None \<and> fe_open F = None \<and> fe_write F = None \<and> (\<forall>n. fe_read F n = None) \<and> fe_list F"

lemma written_manifest_listed:
  assumes "json_ok J" "files_work F" "bm_backup_hash m \<noteq> []"
  shows "m \<in> set (list_manifests J F (snd (write_manifest J F m dir)))"
proof -
  obtain t where t: "js_pretty J m = Ok t" "js_parse J (str_bytes t) = Ok m" using assms(1) by (auto simp: json_ok_def)
  let ?n = "manifest_file (bm_backup_hash m)" and ?d = "AList.update (manifest_file (bm_backup_hash m)) (str_bytes t) dir"
  have d: "snd (write_manifest J F m dir) = ?d" using t assms(2) by (simp add: write_manifest_def files_work_def Let_def)
  have "read_manifest J F ?d ?n = Ok m" using t assms(2) by (simp add: read_manifest_def files_work_def update_conv)
  moreover have "is_json_file ?n" using assms(3) by (simp add: is_json_file_def manifest_file_def)
  moreover have "?n \<in> set (map fst ?d)" by (simp add: dom_update[symmetric] update_keys)
  ultimately show ?thesis using assms(2) by (force simp: list_manifests_def d List.map_filter_def files_work_def)
qed

lemma manifest_lists:
  assumes "results_of E ys uploads" "length ys = TOTAL_SHARDS"
  shows "lists_shards E (manifest_entries (manifest_of E c b uploads)) ys"
  using assms by (auto simp: lists_shards_def manifest_entries_def manifest_of_def results_of_def list_all_iff comp_def)

lemma published_decrypts:
  assumes "cipher_ok E" "json_ok (se_json S)" "\<forall>t. js_vec (se_json S) m = Ok t \<longrightarrow> length t \<le> aead_max"
    and "(nid, message, stored) \<in> set (publish_manifest_to_mesh E S svc nodes m secret)"
  shows "\<exists>name data token text. message = StorePinnedObject name data token \<and> name \<in> {MESH_LATEST_MANIFEST, mesh_manifest_name (bm_backup_hash m)}
     \<and> decrypt_from_mesh E sh data secret = Ok text \<and> js_parse (se_json S) text = Ok m"
proof -
  obtain t where t: "js_vec (se_json S) m = Ok t" "js_parse (se_json S) t = Ok m" using assms(2) by (auto simp: json_ok_def)
  then have fits: "length t \<le> aead_max" using assms(3) by blast
  let ?sh = "rn_show_err (se_repl S)"
  obtain c where c: "encrypt_for_mesh E ?sh t secret (str_bytes (bm_backup_hash m)) = Ok c"
    using mesh.wrap_total[OF assms(1) fits TrueI, of ?sh secret] by blast
  have "encrypt_for_mesh E sh t secret (str_bytes (bm_backup_hash m)) = Ok c" using c by (auto simp: encrypt_for_mesh_def result_simps)
  then have "decrypt_from_mesh E sh c secret = Ok t" by (rule mesh.unwrap_wrap[OF assms(1) fits TrueI])
  then show ?thesis using assms(4) t c by (auto simp: publish_manifest_to_mesh_def Let_def)
qed

section \<open>Lemmas on retention\<close>

lemma delete_backup_shards_sound:
  "delete_backup_shards P db r ss = (ds, r') \<Longrightarrow> snd ` set ds \<subseteq> bs_shard_hash ` set ss"
proof (induction ss arbitrary: r ds r')
  case (Cons s ss)
  obtain d1 r1 where d: "delete_backup_shard P db r s = (d1, r1)" by fastforce
  obtain d2 r2 where d2: "delete_backup_shards P db r1 ss = (d2, r2)" by fastforce
  have "snd ` set d1 \<subseteq> {bs_shard_hash s}" using d by (auto simp: delete_backup_shard_def split: prod.splits option.splits)
  moreover have "ds = d1 @ d2" using Cons.prems d d2 by simp
  ultimately show ?case using Cons.IH[OF d2] by (simp add: image_Un) blast
qed simp

lemma prune_rows_result:
  assumes "\<forall>j. pe_fails P j = None" "prune_rows P F k hs st r = (res, st', r', ds)"
  shows "res = Ok (length hs)" "tb_backups (sn_tables st') = filter (\<lambda>b. bk_hash b \<notin> set hs) (tb_backups (sn_tables st))"
    "tb_shards (sn_tables st') = filter (\<lambda>s. bs_hash s \<notin> set hs) (tb_shards (sn_tables st))"
    "fe_remove F \<Longrightarrow> map_of (sn_dir st') = (\<lambda>n. if n \<in> manifest_file ` set hs then None else map_of (sn_dir st) n)"
    "snd ` set ds \<subseteq> bs_shard_hash ` set (filter (\<lambda>s. bs_hash s \<in> set hs) (tb_shards (sn_tables st)))"
proof -
  have "res = Ok (length hs) \<and> tb_backups (sn_tables st') = filter (\<lambda>b. bk_hash b \<notin> set hs) (tb_backups (sn_tables st))
    \<and> tb_shards (sn_tables st') = filter (\<lambda>s. bs_hash s \<notin> set hs) (tb_shards (sn_tables st))
    \<and> (fe_remove F \<longrightarrow> map_of (sn_dir st') = (\<lambda>n. if n \<in> manifest_file ` set hs then None else map_of (sn_dir st) n))
    \<and> snd ` set ds \<subseteq> bs_shard_hash ` set (filter (\<lambda>s. bs_hash s \<in> set hs) (tb_shards (sn_tables st)))"
    using assms(2)
  proof (induction hs arbitrary: k st r res st' r' ds)
    case (Cons h hs)
    let ?st = "st\<lparr>sn_tables := forget_backup h (sn_tables st), sn_dir := delete_manifest F h (sn_dir st)\<rparr>"
    obtain d1 r1 where d: "delete_backup_shards P (tb_db (sn_tables st)) r (filter (\<lambda>s. bs_hash s = h) (tb_shards (sn_tables st))) = (d1, r1)" by fastforce
    obtain res2 st2 r2 d2 where p: "prune_rows P F (k + 2) hs ?st r1 = (res2, st2, r2, d2)" by (metis prod_cases4)
    note ih = Cons.IH[OF p]
    have eq: "res = bind_res res2 (\<lambda>n. Ok (n + 1))" "st' = st2" "ds = d1 @ d2"
      using Cons.prems assms(1) d p by simp_all
    have "fe_remove F \<longrightarrow> map_of (delete_manifest F h (sn_dir st)) = (map_of (sn_dir st))(manifest_file h := None)"
      by (simp add: delete_manifest_def delete_conv')
    moreover have "snd ` set d1 \<subseteq> bs_shard_hash ` set (filter (\<lambda>s. bs_hash s = h) (tb_shards (sn_tables st)))"
      by (rule delete_backup_shards_sound[OF d])
    ultimately show ?case
      using ih unfolding eq by (intro conjI) (auto simp: forget_backup_def fun_eq_iff conj_commute)
  qed simp
  then show "res = Ok (length hs)" "tb_backups (sn_tables st') = filter (\<lambda>b. bk_hash b \<notin> set hs) (tb_backups (sn_tables st))"
    "tb_shards (sn_tables st') = filter (\<lambda>s. bs_hash s \<notin> set hs) (tb_shards (sn_tables st))"
    "fe_remove F \<Longrightarrow> map_of (sn_dir st') = (\<lambda>n. if n \<in> manifest_file ` set hs then None else map_of (sn_dir st) n)"
    "snd ` set ds \<subseteq> bs_shard_hash ` set (filter (\<lambda>s. bs_hash s \<in> set hs) (tb_shards (sn_tables st)))" by blast+
qed

lemma newest_kept:
  assumes "distinct (map bk_hash rows)"
  shows "set (filter (\<lambda>b. bk_hash b \<notin> set (expired n rows)) rows) = set (take (nat n) (sort_key (\<lambda>b. - bk_created b) rows))"
proof -
  let ?s = "sort_key (\<lambda>b. - bk_created b) rows"
  have inj: "inj_on bk_hash (set ?s)" using assms by (simp add: distinct_map)
  have d: "distinct ?s" using assms by (simp add: distinct_map)
  have part: "set ?s = set (take (nat n) ?s) \<union> set (drop (nat n) ?s)" by (metis append_take_drop_id set_append)
  have "set (take (nat n) ?s) \<inter> set (drop (nat n) ?s) = {}" using d by (metis append_take_drop_id distinct_append)
  then have "bk_hash b \<notin> bk_hash ` set (drop (nat n) ?s) \<longleftrightarrow> b \<in> set (take (nat n) ?s)" if "b \<in> set ?s" for b
    using inj part that by (auto simp: inj_on_def)
  then show ?thesis using part by (auto simp: expired_def)
qed

section \<open>An example codec and run\<close>

definition put_int :: "int \<Rightarrow> bytes \<Rightarrow> bytes" where
  "put_int i rest = put_nat (if i < 0 then 1 else 0) (put_nat (nat \<bar>i\<bar>) rest)"

definition get_int :: "bytes \<Rightarrow> int \<times> bytes" where
  "get_int bs = (case get_nat bs of (s, r) \<Rightarrow> case get_nat r of (n, r2) \<Rightarrow> (if s = 1 then - int n else int n, r2))"

fun get_many :: "(bytes \<Rightarrow> 'a \<times> bytes) \<Rightarrow> nat \<Rightarrow> bytes \<Rightarrow> 'a list \<times> bytes" where
  "get_many g 0 bs = ([], bs)"
| "get_many g (Suc n) bs = (case g bs of (x, r) \<Rightarrow> case get_many g n r of (xs, r2) \<Rightarrow> (x # xs, r2))"

definition put_list :: "('a \<Rightarrow> bytes \<Rightarrow> bytes) \<Rightarrow> 'a list \<Rightarrow> bytes \<Rightarrow> bytes" where
  "put_list put xs rest = put_nat (length xs) (foldr put xs rest)"

definition get_list :: "(bytes \<Rightarrow> 'a \<times> bytes) \<Rightarrow> bytes \<Rightarrow> 'a list \<times> bytes" where
  "get_list g bs = (case get_nat bs of (n, r) \<Rightarrow> get_many g n r)"

definition put_shard :: "manifest_shard \<Rightarrow> bytes \<Rightarrow> bytes" where
  "put_shard s rest = put_nat (ms_index s) (put_str (ms_node_id s) (put_str (ms_addr s) (put_str (ms_shard_hash s) rest)))"

definition get_mshard :: "bytes \<Rightarrow> manifest_shard \<times> bytes" where
  "get_mshard b0 = (case get_nat b0 of (i, b1) \<Rightarrow> case get_str b1 of (n, b2) \<Rightarrow> case get_str b2 of (a, b3) \<Rightarrow> case get_str b3 of (h, b4) \<Rightarrow>
     (\<lparr>ms_index = i, ms_node_id = n, ms_addr = a, ms_shard_hash = h\<rparr>, b4))"

definition put_manifest :: "db_backup_manifest \<Rightarrow> bytes" where
  "put_manifest m = put_str (bm_backup_hash m) (put_str (bm_created_at m) (put_int (bm_size_bytes m) (put_int (bm_encrypted_size m)
     (put_int (bm_data_shards m) (put_int (bm_parity_shards m) (put_int (bm_segment_count m)
     (put_list (put_list put_int) (case bm_segment_enc_sizes m of None \<Rightarrow> [] | Some xs \<Rightarrow> [xs]) (put_str (bm_encryption_key_hex m)
     (put_list put_shard (bm_shards m) [])))))))))"

definition get_manifest :: "bytes \<Rightarrow> db_backup_manifest" where
  "get_manifest b0 = (case get_str b0 of (h, b1) \<Rightarrow> case get_str b1 of (c, b2) \<Rightarrow> case get_int b2 of (sz, b3) \<Rightarrow> case get_int b3 of (en, b4) \<Rightarrow>
     case get_int b4 of (d, b5) \<Rightarrow> case get_int b5 of (p, b6) \<Rightarrow> case get_int b6 of (sc, b7) \<Rightarrow>
     case get_list (get_list get_int) b7 of (ss, b8) \<Rightarrow> case get_str b8 of (k, b9) \<Rightarrow> case get_list get_mshard b9 of (sh, b10) \<Rightarrow>
     \<lparr>bm_backup_hash = h, bm_created_at = c, bm_size_bytes = sz, bm_encrypted_size = en, bm_data_shards = d, bm_parity_shards = p,
      bm_segment_count = sc, bm_segment_enc_sizes = (case ss of [] \<Rightarrow> None | xs # _ \<Rightarrow> Some xs), bm_encryption_key_hex = k, bm_shards = sh\<rparr>)"

definition toy_json :: json where
  "toy_json = \<lparr>js_pretty = (\<lambda>m. Ok (map (\<lambda>b. char_of (unat b)) (put_manifest m))), js_vec = (\<lambda>m. Ok (put_manifest m)), js_parse = (\<lambda>b. Ok (get_manifest b))\<rparr>"

lemma get_put_int [simp]: "get_int (put_int i rest) = (i, rest)"
  by (simp add: get_int_def put_int_def)

lemma get_put_list:
  assumes "\<And>x r. g (put x r) = (x, r)"
  shows "get_list g (put_list put xs rest) = (xs, rest)"
proof -
  have "get_many g (length xs) (foldr put xs rest) = (xs, rest)" by (induction xs) (simp_all add: assms)
  then show ?thesis by (simp add: get_list_def put_list_def)
qed

lemma get_put_shard: "get_mshard (put_shard s rest) = (s, rest)"
  by (simp add: get_mshard_def put_shard_def)

lemma get_put_manifest: "get_manifest (put_manifest m) = m"
proof -
  have l: "get_list (get_list get_int) (put_list (put_list put_int) xs rest) = (xs, rest)" for xs rest
    by (rule get_put_list, rule get_put_list) simp
  have s: "get_list get_mshard (put_list put_shard xs rest) = (xs, rest)" for xs rest
    by (rule get_put_list) (rule get_put_shard)
  show ?thesis by (cases m) (simp add: get_manifest_def put_manifest_def l s split: option.splits)
qed

lemma toy_json_ok: "json_ok toy_json"
proof -
  have "str_bytes (map (\<lambda>b. char_of (unat b)) bs) = bs" for bs
    by (induction bs) (simp_all add: str_bytes_def mod_less[OF unat_byte_lt])
  then show ?thesis by (simp add: json_ok_def toy_json_def get_put_manifest)
qed

definition toy_files :: file_env where
  "toy_files = \<lparr>fe_dir = ''m'', fe_create = None, fe_open = None, fe_write = None, fe_read = (\<lambda>n. None), fe_list = True, fe_remove = True\<rparr>"

definition toy_snap :: snap_env where
  "toy_snap = \<lparr>se_repl = toy_repl [], se_json = toy_json, se_files = toy_files, se_bincode = unit_bincode,
     se_net = \<lparr>nt_dial = (\<lambda>a nid. DialTimeout), nt_show_addr = (\<lambda>a. [])\<rparr>, se_created_at = ''now''\<rparr>"

definition no_service :: p2p_service where
  "no_service = \<lparr>sv_registry = registry_new, sv_coordinator_addr = None, sv_coordinator_node_id = None\<rparr>"

definition snap_start :: snap_state where
  "snap_start = \<lparr>sn_tables = \<lparr>tb_db = rl_db (toy_state []), tb_backups = [], tb_shards = []\<rparr>, sn_dir = [], sn_escrow = [], sn_cache = None\<rparr>"

lemma toy_snapshot_stored:
  "\<exists>sent st'. backup_dump_file toy_ext toy_snap toy_cfg no_service one_node small_file snap_start = Done ((Ok True, sent), st')"
proof -
  let ?h = "hex_encode toy_ext (blake3 toy_ext [7, 8, 9])"
  obtain ys where ys: "process_for_backup toy_ext [7, 8, 9] (replicate 32 1) (replicate 32 1) DATA_SHARDS PARITY_SHARDS = Ok (ys, 31)"
    "length ys = TOTAL_SHARDS" using toy_shards .
  obtain results where r: "upload_inmemory toy_ext (part_env []) toy_node [0, 1, 2, 3, 4] one_node ?h ys = Done results"
    "map us_idx results = filter (\<lambda>k. k \<notin> set []) [0, 1, 2, 3, 4]" using toy_upload[OF ys(2), of "[]"] by blast
  have "length results = length (map us_idx results)" by simp
  then have l: "DATA_SHARDS \<le> length results" unfolding r(2) by (simp add: code_sizes)
  have up: "upload_dump toy_ext (toy_repl []) one_node ?h small_file 3 DATA_SHARDS PARITY_SHARDS = Done (Ok (results, 31, 1, None))"
    using ys(1) r(1) by (simp add: upload_dump_def toy_repl_def small_file_def SEGMENT_THRESHOLD_def del: replicate.simps)
  obtain w where "fst (encrypt_key toy_ext None (replicate 12 4) (replicate 32 1) ''pw'') = Ok w"
    using keywrap.wrap_total[of toy_ext "replicate 32 1" "replicate 12 4" "''pw''"]
    by (auto simp: wrap_key_def keywrap_ok_def simp del: replicate.simps)
  then obtain c where w: "encrypt_key toy_ext None (replicate 12 4) (replicate 32 1) ''pw'' = (Ok w, c)" by (metis prod.collapse)
  have "\<exists>sent st'. store_snapshot toy_ext toy_snap toy_cfg no_service one_node ?h 3 (results, 31, 1, None) snap_start = ((Ok True, sent), st')"
    using l w by (simp add: store_snapshot_def toy_snap_def toy_cfg_def toy_repl_def snap_start_def record_snapshot_def exec_all_quiet Let_def del: replicate.simps)
  moreover have "blake3_file_hex toy_ext (df_reads small_file) = Ok ?h" by (simp add: blake3_file_hex_def small_file_def)
  ultimately show ?thesis
    using up by (simp add: backup_dump_file_def toy_snap_def toy_cfg_def snap_start_def toy_repl_def small_file_def del: replicate.simps)
qed

section \<open>Properties\<close>

text \<open>C8. A database snapshot survives the loss of the database.  When \<open>backup_dump_file\<close> stored a new snapshot, its
  manifest is found among the files on disk; every copy published to the mesh decrypts with the
  account secret to the same manifest; and from the manifest and the secret alone, without the
  database, the dump is restored byte for byte as soon as three of the listed shards can be fetched,
  whatever the other nodes answer.\<close>

theorem snapshot_survives_database_loss:
  assumes "cipher_ok E" "rs_ok E DATA_SHARDS PARITY_SHARDS" "hex_ok E" "keywrap_ok E" "json_ok (se_json S)" "files_work (se_files S)"
    and "length (rn_key (se_repl S)) = 32" "length (rn_nonce (se_repl S)) = 12"
    and "distinct (rn_order (se_repl S))" "set (rn_order (se_repl S)) \<subseteq> {..<TOTAL_SHARDS}"
    and "rc_data_shards C = DATA_SHARDS" "rc_parity_shards C = PARITY_SHARDS" "rc_api_key C = Ok secret"
    and "holds_file file data" "length data < 2 ^ 58" "cache_from E (sn_cache st) secret" "cache_from E cache secret"
    and "backup_dump_file E S C svc nodes file st = Done ((Ok True, sent), st')"
  shows "\<exists>m ys. m \<in> set (list_manifests (se_json S) (se_files S) (sn_dir st')) \<and> bm_backup_hash m = hex_encode E (blake3 E data)
    \<and> lists_shards E (manifest_entries m) ys
    \<and> ((\<forall>t. js_vec (se_json S) m = Ok t \<longrightarrow> length t \<le> aead_max) \<longrightarrow>
        (\<forall>nid message stored. (nid, message, stored) \<in> set sent \<longrightarrow> (\<exists>name c token text. message = StorePinnedObject name c token
           \<and> decrypt_from_mesh E sh c secret = Ok text \<and> js_parse (se_json S) text = Ok m)))
    \<and> (\<forall>fetch (s :: 's). no_collision E fetch ys \<and> (\<forall>s nid b. fetch s nid b \<noteq> Panic)
          \<and> DATA_SHARDS \<le> card (available E fetch (manifest_entries m) ys) \<longrightarrow>
        (\<exists>c s'. restore_db_snapshot E sha256 he sh fetch m secret cache s = Done (Ok data, c, s')))"
proof -
  obtain uploads enc_size seg_count seg_sizes secret' w b where d:
    "upload_dump E (se_repl S) nodes (hex_encode E (blake3 E data)) file (length data) (rc_data_shards C) (rc_parity_shards C)
       = Done (Ok (uploads, enc_size, seg_count, seg_sizes))"
    "rc_api_key C = Ok secret'" "fst (encrypt_key E (sn_cache st) (rn_nonce (se_repl S)) (rn_key (se_repl S)) secret') = Ok w"
    "bk_hash b = hex_encode E (blake3 E data)" "bk_enc_size b = enc_size" "bk_data_shards b = as_i32 (rc_data_shards C)"
    "bk_parity_shards b = as_i32 (rc_parity_shards C)" "bk_key b = w" "bk_seg_count b = seg_count" "bk_seg_sizes b = seg_sizes"
    "sent = publish_manifest_to_mesh E S svc nodes (manifest_of E (se_created_at S) b uploads) secret'"
    "sn_dir st' = snd (write_manifest (se_json S) (se_files S) (manifest_of E (se_created_at S) b uploads) (sn_dir st))"
    by (rule backup_dump_stored[OF assms(18,14)])
  have sec: "secret' = secret" using d(2) assms(13) by simp
  let ?m = "manifest_of E (se_created_at S) b uploads"
  obtain ys where ys: "snapshot_layout E (rn_key (se_repl S)) data enc_size seg_count seg_sizes ys" "results_of E ys uploads" "length ys = TOTAL_SHARDS"
    using upload_dump_layout[OF assms(1,2,7,9,10,14,15) d(1)[unfolded assms(11,12)]] by blast
  have w: "wrap_key E (rn_key (se_repl S)) secret (rn_nonce (se_repl S)) = Ok w" using d(3) encrypt_key_cached[OF assms(16)] sec by simp
  have f: "bm_backup_hash ?m = hex_encode E (blake3 E data)" "bm_encryption_key_hex ?m = hex_encode E w" "bm_data_shards ?m = int DATA_SHARDS"
    "bm_parity_shards ?m = int PARITY_SHARDS" using d(4-10) assms(11,12) by (simp_all add: manifest_of_def code_sizes as_i32_small)
  have lay: "snapshot_layout E (rn_key (se_repl S)) data (bm_encrypted_size ?m) (bm_segment_count ?m) (bm_segment_enc_sizes ?m) ys"
    using ys(1) d(5,9,10) by (simp add: manifest_of_def)
  have "length (hex_encode E (blake3 E data)) = 64" using assms(1,3) by (simp add: hex_encode_len cipher_ok_def blake3_len)
  then have "?m \<in> set (list_manifests (se_json S) (se_files S) (sn_dir st'))"
    unfolding d(12) by (intro written_manifest_listed[OF assms(5,6)]) (auto simp: f(1))
  moreover note manifest_lists[OF ys(2,3)]
  moreover have "\<exists>c s'. restore_db_snapshot E sha256 he sh fetch ?m secret cache s = Done (Ok data, c, s')"
    if "no_collision E fetch ys" "\<forall>s nid b. fetch s nid b \<noteq> Panic" "DATA_SHARDS \<le> card (available E fetch (manifest_entries ?m) ys)"
    for fetch and s :: 's
    by (rule restore_snapshot_ok[OF assms(1-4,7,8) w f(2) assms(17) lay f(3,4) manifest_lists[OF ys(2,3)] that])
  ultimately show ?thesis
    using f(1) published_decrypts[OF assms(1,5), of ?m] unfolding d(11) sec by (intro exI[of _ ?m] exI[of _ ys] conjI impI allI) blast+
qed

theorem snapshot_survives_database_loss_witness:
  "\<exists>st' m. m \<in> set (list_manifests toy_json toy_files (sn_dir st')) \<and> bm_backup_hash m = hex_encode toy_ext (blake3 toy_ext [7, 8, 9])
     \<and> (\<exists>sent. backup_dump_file toy_ext toy_snap toy_cfg no_service one_node small_file snap_start = Done ((Ok True, sent), st'))"
proof -
  obtain sent st' where b: "backup_dump_file toy_ext toy_snap toy_cfg no_service one_node small_file snap_start = Done ((Ok True, sent), st')"
    using toy_snapshot_stored by blast
  have e: "rs_ok toy_ext DATA_SHARDS PARITY_SHARDS" "cipher_ok toy_ext" "keywrap_ok toy_ext"
    by (simp_all add: code_sizes cipher_ok_def keywrap_ok_def)
  have S: "json_ok (se_json toy_snap)" "files_work (se_files toy_snap)" "length (rn_key (se_repl toy_snap)) = 32" "length (rn_nonce (se_repl toy_snap)) = 12"
    "distinct (rn_order (se_repl toy_snap))" "set (rn_order (se_repl toy_snap)) \<subseteq> {..<TOTAL_SHARDS}"
    using toy_json_ok by (auto simp: toy_snap_def toy_repl_def files_work_def toy_files_def code_sizes)
  have C: "rc_data_shards toy_cfg = DATA_SHARDS" "rc_parity_shards toy_cfg = PARITY_SHARDS" "rc_api_key toy_cfg = Ok ''pw''"
    "cache_from toy_ext (sn_cache snap_start) ''pw''" "cache_from toy_ext None ''pw''" "length [7, 8, 9 :: byte] < 2 ^ 58"
    by (simp_all add: toy_cfg_def snap_start_def cache_from_def)
  have "\<exists>m. m \<in> set (list_manifests (se_json toy_snap) (se_files toy_snap) (sn_dir st')) \<and> bm_backup_hash m = hex_encode toy_ext (blake3 toy_ext [7, 8, 9])"
    using snapshot_survives_database_loss[where 's = unit, OF e(2,1) toy_hex_ok e(3) S C(1-3) toy_holds C(6,4,5) b] by blast
  then show ?thesis using b by (auto simp: toy_snap_def)
qed

text \<open>Pruning keeps exactly the newest snapshots: afterwards the table holds the \<open>retention\<close> most recent ones, no
  shard row and no manifest file of a pruned snapshot is left, files of kept snapshots are
  untouched, and only shards of pruned snapshots were asked to be deleted from the nodes.\<close>

theorem prune_exact:
  assumes "\<forall>j. pe_fails P j = None" "fe_remove F" "distinct (map bk_hash (tb_backups (sn_tables st)))"
    and "prune_old_snapshots P F retention st r = (res, st', r', ds)"
  shows "let old = tb_backups (sn_tables st); gone = expired retention old in
     res = Ok (length gone)
     \<and> set (tb_backups (sn_tables st')) = set (take (nat retention) (sort_key (\<lambda>b. - bk_created b) old))
     \<and> tb_shards (sn_tables st') = filter (\<lambda>s. bs_hash s \<notin> set gone) (tb_shards (sn_tables st))
     \<and> map_of (sn_dir st') = (\<lambda>n. if n \<in> manifest_file ` set gone then None else map_of (sn_dir st) n)
     \<and> snd ` set ds \<subseteq> bs_shard_hash ` set (filter (\<lambda>s. bs_hash s \<in> set gone) (tb_shards (sn_tables st)))"
proof -
  have p: "prune_rows P F 2 (expired retention (tb_backups (sn_tables st))) st r = (res, st', r', ds)"
    using assms(1,4) by (simp add: prune_old_snapshots_def)
  show ?thesis
    unfolding Let_def prune_rows_result(2)[OF assms(1) p] newest_kept[OF assms(3)]
    using prune_rows_result(1,3,5)[OF assms(1) p] prune_rows_result(4)[OF assms(1) p assms(2)] by blast
qed

definition toy_backup :: "string \<Rightarrow> int \<Rightarrow> backup_row" where
  "toy_backup h t = \<lparr>bk_hash = h, bk_created = t, bk_size = 1, bk_enc_size = 29, bk_data_shards = 3, bk_parity_shards = 2, bk_key = [],
     bk_seg_count = 1, bk_seg_sizes = None\<rparr>"

definition two_backups :: snap_state where
  "two_backups = snap_start\<lparr>sn_tables := \<lparr>tb_db = rl_db (toy_state []), tb_backups = [toy_backup ''a'' 1, toy_backup ''b'' 2], tb_shards = []\<rparr>\<rparr>"

definition quiet_prune :: prune_env where
  "quiet_prune = \<lparr>pe_fails = (\<lambda>k. None), pe_peer = \<lparr>pv_up = part_env [], pv_hex_err = (\<lambda>s. s), pv_bincode = unit_bincode, pv_net = se_net toy_snap,
     pv_parse_addr = (\<lambda>s. None), pv_db_answers = True, pv_clock = 0, pv_identity = toy_node\<rparr>\<rparr>"

theorem prune_exact_witness:
  "set (tb_backups (sn_tables (fst (snd (prune_old_snapshots quiet_prune toy_files 1 two_backups registry_new))))) = {toy_backup ''b'' 2}"
proof -
  obtain res st' r' ds where p: "prune_old_snapshots quiet_prune toy_files 1 two_backups registry_new = (res, st', r', ds)" by (metis prod_cases4)
  have "set (tb_backups (sn_tables st')) = set (take (nat 1) (sort_key (\<lambda>b. - bk_created b) [toy_backup ''a'' 1, toy_backup ''b'' 2]))"
    using prune_exact[OF _ _ _ p] by (simp add: quiet_prune_def toy_files_def two_backups_def toy_backup_def Let_def)
  then show ?thesis using p by (simp add: toy_backup_def)
qed

section \<open>Properties of database URLs\<close>

lemma split_once_append: "c \<notin> set a \<Longrightarrow> split_once c (a @ c # b) = Some (a, b)"
  by (auto simp: split_once_def takeWhile_tail) (metis (mono_tags, lifting) dropWhile.simps(2) dropWhile_append2 list.sel(3))

lemma rsplit_once_append: "c \<notin> set b \<Longrightarrow> rsplit_once c (a @ c # b) = Some (a, b)"
  using split_once_append[of c "rev b" "rev a"] by (simp add: rsplit_once_def)

lemma split_once_None: "c \<notin> set s \<Longrightarrow> split_once c s = None"
  by (simp add: split_once_def)

lemma parse_show_u16:
  assumes "n < 65536"
  shows "parse_u16 (show_nat n) = Some n"
proof -
  have ne: "show_nat n \<noteq> []" by (simp add: show_nat.simps[of n])
  have "list_all (\<lambda>c. 48 \<le> (of_char c :: nat) \<and> (of_char c :: nat) \<le> 57) (show_nat n)" using show_nat_digits by (auto simp: list_all_iff)
  moreover have "hd (show_nat n) \<noteq> CHR ''+''" using show_nat_digits[of "hd (show_nat n)" n] ne hd_in_set by force
  ultimately show ?thesis using ne assms by (simp add: parse_u16_def Let_def read_show_nat)
qed

text \<open>A connection URL with all its parts.\<close>

definition render_pg_url :: "pg_url_parts \<Rightarrow> string \<Rightarrow> string" where
  "render_pg_url p query = ''postgres://'' @ pg_user p @ (case pg_password p of Some w \<Rightarrow> CHR '':'' # w | None \<Rightarrow> []) @ CHR ''@'' # pg_host p
     @ CHR '':'' # show_nat (pg_port p) @ CHR ''/'' # pg_dbname p @ query"

definition plain_for :: "string \<Rightarrow> string \<Rightarrow> bool" where
  "plain_for forbidden s \<longleftrightarrow> set s \<inter> set forbidden = {}"

text \<open>Connection URLs are parsed back into their parts: the user may hold anything but colon, slash and
  question mark, the password (if any) may even hold at-signs and colons, the host anything but
  at-sign, slash and question mark, the database name anything but a question mark, and a query
  string is dropped.  An IPv6 host without a port is refused, because its last group is read as the
  port.\<close>

theorem pg_url_roundtrip:
  assumes "plain_for '':/?'' (pg_user p)" "\<forall>w. pg_password p = Some w \<longrightarrow> plain_for ''/?'' w"
    and "plain_for ''@/?'' (pg_host p)" "pg_host p \<noteq> []" "plain_for ''?'' (pg_dbname p)" "pg_dbname p \<noteq> []" "pg_port p < 65536"
    and "query = [] \<or> hd query = CHR ''?''"
  shows "parse_pg_url (render_pg_url p query) = Ok p
    \<and> parse_pg_url ''postgres://u@[::1]/d'' = Err (''invalid port '' @ quote @ ''1]'' @ quote @ '' in database URL'')"
proof
  let ?pw = "case pg_password p of Some w \<Rightarrow> CHR '':'' # w | None \<Rightarrow> []"
  let ?hp = "pg_host p @ CHR '':'' # show_nat (pg_port p)"
  let ?au = "(pg_user p @ ?pw) @ CHR ''@'' # ?hp"
  have digits: "c \<notin> set (show_nat (pg_port p))" if "c \<in> set ''/?@:''" for c
    using show_nat_digits[of c "pg_port p"] that by auto
  have pw: "CHR ''/'' \<notin> set ?pw" "CHR ''?'' \<notin> set ?pw" using assms(2) by (auto simp: plain_for_def split: option.splits)
  have q: "CHR ''?'' \<notin> set (?au @ CHR ''/'' # pg_dbname p)"
    using assms(1,3,5) pw digits by (auto simp: plain_for_def)
  have "takeWhile (\<lambda>c. c \<noteq> CHR ''?'') ((?au @ CHR ''/'' # pg_dbname p) @ query) = ?au @ CHR ''/'' # pg_dbname p"
    using q assms(8) by (subst takeWhile_append2) (auto, cases query, auto)
  moreover have "split_once CHR ''/'' (?au @ CHR ''/'' # pg_dbname p) = Some (?au, pg_dbname p)"
    using assms(1,3) pw digits by (intro split_once_append) (auto simp: plain_for_def)
  moreover have "rsplit_once CHR ''@'' ?au = Some (pg_user p @ ?pw, ?hp)"
    using assms(3) digits by (intro rsplit_once_append) (auto simp: plain_for_def)
  moreover have "rsplit_once CHR '':'' ?hp = Some (pg_host p, show_nat (pg_port p))"
    using digits by (intro rsplit_once_append) auto
  moreover have "(case split_once CHR '':'' (pg_user p @ ?pw) of Some (u, w) \<Rightarrow> (u, Some w) | None \<Rightarrow> (pg_user p @ ?pw, None)) = (pg_user p, pg_password p)"
    using assms(1) by (cases "pg_password p") (auto simp: plain_for_def split_once_append split_once_None)
  moreover have "strip_prefix ''postgres://'' (render_pg_url p query) = Some ((?au @ CHR ''/'' # pg_dbname p) @ query)"
    by (simp add: strip_prefix_def render_pg_url_def)
  ultimately show "parse_pg_url (render_pg_url p query) = Ok p"
    using parse_show_u16[OF assms(7)] assms(4,6) by (simp add: parse_pg_url_def)
  show "parse_pg_url ''postgres://u@[::1]/d'' = Err (''invalid port '' @ quote @ ''1]'' @ quote @ '' in database URL'')"
    by (simp add: parse_pg_url_def strip_prefix_def split_once_def rsplit_once_def parse_u16_def)
qed

theorem pg_url_roundtrip_witness:
  "parse_pg_url ''postgres://ann:p@ss:1@db.local:6432/photos?sslmode=require'' =
     Ok \<lparr>pg_host = ''db.local'', pg_port = 6432, pg_user = ''ann'', pg_password = Some ''p@ss:1'', pg_dbname = ''photos''\<rparr>"
proof -
  let ?p = "\<lparr>pg_host = ''db.local'', pg_port = 6432, pg_user = ''ann'', pg_password = Some ''p@ss:1'', pg_dbname = ''photos''\<rparr>"
  have "render_pg_url ?p ''?sslmode=require'' = ''postgres://ann:p@ss:1@db.local:6432/photos?sslmode=require''"
    by (simp add: render_pg_url_def show_nat.simps std_simps)
  moreover have "parse_pg_url (render_pg_url ?p ''?sslmode=require'') = Ok ?p"
    by (rule pg_url_roundtrip[THEN conjunct1]) (simp_all add: plain_for_def)
  ultimately show ?thesis by simp
qed

end
