(* ===== verification/Rebalance.thy ===== *)
theory Rebalance
  imports Replication
begin

text \<open>
  \<open>src/shard_rebalance_worker.rs\<close>: moving the shards of a file to the nodes that rendezvous hashing now
  selects for it.  The nodes answer and change as the worker proceeds, so here the mesh is part of
  the state: a connection is dialed in the current mesh, and a stream on which messages were sent
  takes it to the next.  The locale \<open>shard_mesh\<close> is what the worker relies on; it is interpreted by a
  mesh of storage nodes running the handler, each with failures of its own.
\<close>

section \<open>State and surroundings\<close>

definition REBALANCE_BATCH_SIZE :: nat where "REBALANCE_BATCH_SIZE = 50"
definition UPLOAD_STREAM_THRESHOLD :: nat where "UPLOAD_STREAM_THRESHOLD = 64 * 1024 * 1024"
definition UPLOAD_CHUNK_SIZE :: nat where "UPLOAD_CHUNK_SIZE = 32 * 1024 * 1024"
definition HOUR_MS :: int where "HOUR_MS = 60 * 60 * 1000"

text \<open>Dialing an address as a node (the certificate is checked against the id), and the effect of one
  stream on which the messages were sent.  Reading a shard changes nothing.\<close>

record 'w mesh =
  mh_dial :: "'w \<Rightarrow> sock_addr \<Rightarrow> string \<Rightarrow> string + peer_conn"
  mh_run :: "'w \<Rightarrow> sock_addr \<Rightarrow> msg list \<Rightarrow> 'w"

record 'w rb_state =
  rs_db :: db
  rs_registry :: registry
  rs_cache :: key_cache
  rs_mesh :: 'w

text \<open>The database calls of one file, named so that each may fail.\<close>

datatype db_call =
    FileConn | FileShards | FileImages | FileVideos | FileTouch
  | MoveConn int | MoveImages int | MoveVideos int | MoveLookup int | MoveRow int | CleanLookup int

record rb_env =
  rv_up :: up_env
  rv_hex_err :: "string \<Rightarrow> string"
  rv_identity :: node_identity
  rv_show_err :: "np2p_error \<Rightarrow> string"
  rv_parse_addr :: "string \<Rightarrow> sock_addr option"
  rv_files :: "string \<Rightarrow> (string + bytes) option"
  rv_images_dir :: string
  rv_videos_dir :: string
  rv_api_key :: "string + string"
  rv_sha256 :: "bytes \<Rightarrow> bytes"
  rv_clock :: nat
  rv_now :: int
  rv_fails :: "string \<Rightarrow> db_call \<Rightarrow> string option"

text \<open>The client's surroundings in the current mesh: \<open>connect_to_addr\<close> resolves the address to an id in
  the registry and dials it as that node.\<close>

definition dial_env :: "'w mesh \<Rightarrow> rb_env \<Rightarrow> 'w rb_state \<Rightarrow> up_env" where
  "dial_env M V st = (rv_up V)\<lparr>ue_connect := \<lambda>addr idx attempt.
     case find_by_addr (rs_registry st) addr of
       None \<Rightarrow> Err (rv_show_err V (Network (''Cannot verify peer identity: '' @ ue_show_addr (rv_up V) addr @ '' not in registry'')))
     | Some nid \<Rightarrow> mh_dial M (rs_mesh st) addr nid\<rparr>"

section \<open>Uploading a shard\<close>

text \<open>Sending in turn, up to the first failure; what was sent is part of the result.\<close>

fun send_prefix :: "peer_conn \<Rightarrow> msg list \<Rightarrow> msg list \<times> (string + unit)" where
  "send_prefix C [] = ([], Ok ())"
| "send_prefix C (m # ms) =
     (case pc_tx C m of Inl e \<Rightarrow> ([], Err e)
      | Inr _ \<Rightarrow> (case send_prefix C ms of (sent, r) \<Rightarrow> (m # sent, r)))"

definition rb_init_msg :: "ext \<Rightarrow> up_env \<Rightarrow> node_identity \<Rightarrow> bytes \<Rightarrow> msg" where
  "rb_init_msg E U i shard_data =
     (let shard_hash = blake3 E shard_data;
          binding = blake3 E (shard_hash @ [0]);
          total_bytes = (if length shard_data > MAX_MESSAGE_LEN - 1024 then 0 else length shard_data) in
      StoreShardStreamInit shard_hash 0 total_bytes 1 (create_shard_token E (ue_clock U) i OpStore binding))"

definition stream_shard :: "ext \<Rightarrow> up_env \<Rightarrow> node_identity \<Rightarrow> sock_addr \<Rightarrow> peer_conn \<Rightarrow> bytes \<Rightarrow> (string + string) \<times> msg list" where
  "stream_shard E U i addr C shard_data =
     (let h = blake3 E shard_data; init = rb_init_msg E U i shard_data in
      case pc_tx C init of
        Inl e \<Rightarrow> (Err e, [])
      | Inr _ \<Rightarrow>
          (case rx C [init] 0 of
             Inr (StoreShardStreamAck True) \<Rightarrow>
               (case send_prefix C (map StoreShardChunk (chunks_of UPLOAD_CHUNK_SIZE shard_data) @ [StoreShardStreamFinal h]) of
                  (sent, Inl e) \<Rightarrow> (Err e, init # sent)
                | (sent, Inr _) \<Rightarrow>
                    (case rx C (init # sent) 1 of
                       Inr (StoreShardStreamResponse True n) \<Rightarrow> (Ok (hex_encode E h), init # sent)
                     | Inr _ \<Rightarrow> (Err (''Node '' @ ue_show_addr U addr @ '' rejected large shard (stream)''), init # sent)
                     | Inl e \<Rightarrow> (Err e, init # sent)))
           | Inr other \<Rightarrow> (Err (''Unexpected stream ack from '' @ ue_show_addr U addr @ '': '' @ ue_show_msg U other), [init])
           | Inl e \<Rightarrow> (Err e, [init])))"

definition request_shard :: "ext \<Rightarrow> up_env \<Rightarrow> node_identity \<Rightarrow> sock_addr \<Rightarrow> peer_conn \<Rightarrow> bytes \<Rightarrow> (string + string) \<times> msg list" where
  "request_shard E U i addr C shard_data =
     (let h = blake3 E shard_data;
          m = StoreShardRequest h shard_data (create_shard_token E (ue_clock U) i OpStore h) in
      case pc_tx C m of
        Inl e \<Rightarrow> (Err e, [])
      | Inr _ \<Rightarrow>
          (case rx C [m] 0 of
             Inr (StoreShardResponse h' True n) \<Rightarrow> (Ok (hex_encode E h), [m])
           | Inr _ \<Rightarrow> (Err (''Node '' @ ue_show_addr U addr @ '' rejected shard''), [m])
           | Inl e \<Rightarrow> (Err e, [m])))"

definition upload_shard_to_node_inner :: "ext \<Rightarrow> up_env \<Rightarrow> node_identity \<Rightarrow> sock_addr \<Rightarrow> bytes \<Rightarrow> (string + string) \<times> msg list" where
  "upload_shard_to_node_inner E U i addr shard_data =
     (case ue_connect U addr 0 0 of
        Inl e \<Rightarrow> (Err (''Connection to '' @ ue_show_addr U addr @ '' failed: '' @ e), [])
      | Inr C \<Rightarrow>
          (case pc_open C 0 of
             Inl e \<Rightarrow> (Err e, [])
           | Inr _ \<Rightarrow>
               if length shard_data > UPLOAD_STREAM_THRESHOLD then stream_shard E U i addr C shard_data
               else request_shard E U i addr C shard_data))"

definition after_stream :: "'w mesh \<Rightarrow> sock_addr \<Rightarrow> msg list \<Rightarrow> 'w rb_state \<Rightarrow> 'w rb_state" where
  "after_stream M addr sent st = (if sent = [] then st else st\<lparr>rs_mesh := mh_run M (rs_mesh st) addr sent\<rparr>)"

definition upload_shard_to_node :: "ext \<Rightarrow> 'w mesh \<Rightarrow> rb_env \<Rightarrow> sock_addr \<Rightarrow> bytes \<Rightarrow> 'w rb_state \<Rightarrow> (string + string) \<times> 'w rb_state" where
  "upload_shard_to_node E M V addr shard_data st =
     (case upload_shard_to_node_inner E (dial_env M V st) (rv_identity V) addr shard_data of
        (res, sent) \<Rightarrow> (res, after_stream M addr sent st))"

text \<open>\<open>delete_shard_remote\<close>, whose result the worker drops: the request as far as it was sent.\<close>

definition delete_sent :: "ext \<Rightarrow> up_env \<Rightarrow> node_identity \<Rightarrow> sock_addr \<Rightarrow> string \<Rightarrow> msg list" where
  "delete_sent E U i addr shard_hash_hex =
     (case hex_decode E shard_hash_hex of
        None \<Rightarrow> []
      | Some h \<Rightarrow>
          let m = DeleteShardRequest h (create_shard_token E (ue_clock U) i OpDelete h) in
          if length h = 32 \<and> is_ok (bind_res (ue_connect U addr 0 0) (\<lambda>C. bind_res (pc_open C 0) (\<lambda>_. pc_tx C m)))
          then [m] else [])"

definition delete_old_shard :: "ext \<Rightarrow> 'w mesh \<Rightarrow> rb_env \<Rightarrow> sock_addr \<Rightarrow> string \<Rightarrow> 'w rb_state \<Rightarrow> 'w rb_state" where
  "delete_old_shard E M V addr shard_hash_hex st =
     after_stream M addr (delete_sent E (dial_env M V st) (rv_identity V) addr shard_hash_hex) st"

section \<open>Looking things up\<close>

definition lookup_addr :: "rb_env \<Rightarrow> bool \<Rightarrow> string \<Rightarrow> 'w rb_state \<Rightarrow> sock_addr option \<times> 'w rb_state" where
  "lookup_addr V reachable nid st =
     (case lookup_node_addr (rv_parse_addr V) reachable (rv_clock V) (rs_db st) (rs_registry st) nid of
        (a, r) \<Rightarrow> (a, st\<lparr>rs_registry := r\<rparr>))"

type_synonym file_info = "string \<times> bytes option \<times> int option \<times> nat \<times> nat"

definition info_of_row :: "ext \<Rightarrow> (bytes \<Rightarrow> bytes) \<Rightarrow> key_cache \<Rightarrow> string \<Rightarrow> media_row \<Rightarrow> (string + file_info option) \<times> key_cache" where
  "info_of_row E sha256 cache api_secret r =
     (let data_shards = as_usize (case mr_data_shards r of Some d \<Rightarrow> d | None \<Rightarrow> 3);
          parity_shards = as_usize (case mr_parity_shards r of Some p \<Rightarrow> p | None \<Rightarrow> 2) in
      case mr_key r of
        None \<Rightarrow> (Ok (Some (mr_ext r, None, mr_enc_size r, data_shards, parity_shards)), cache)
      | Some k \<Rightarrow>
          (case decrypt_key E sha256 cache k api_secret of
             (Inl e, c) \<Rightarrow> (Err e, c)
           | (Inr key, c) \<Rightarrow> (Ok (Some (mr_ext r, Some key, mr_enc_size r, data_shards, parity_shards)), c)))"

text \<open>The two queries have \<open>LIMIT 1\<close>; \<open>f1\<close> and \<open>f2\<close> are their errors.\<close>

definition find_file_info :: "ext \<Rightarrow> (bytes \<Rightarrow> bytes) \<Rightarrow> string option \<Rightarrow> string option \<Rightarrow> db \<Rightarrow> key_cache \<Rightarrow> string \<Rightarrow> string
    \<Rightarrow> (string + file_info option) \<times> key_cache" where
  "find_file_info E sha256 f1 f2 db cache file_hash api_secret =
     (case f1 of
        Some e \<Rightarrow> (Err e, cache)
      | None \<Rightarrow>
          (case List.find (\<lambda>m. mr_hash m = file_hash) (db_images db) of
             Some r \<Rightarrow> info_of_row E sha256 cache api_secret r
           | None \<Rightarrow>
               (case f2 of
                  Some e \<Rightarrow> (Err e, cache)
                | None \<Rightarrow>
                    (case List.find (\<lambda>m. mr_hash m = file_hash) (db_videos db) of
                       Some r \<Rightarrow> info_of_row E sha256 cache api_secret r
                     | None \<Rightarrow> (Ok None, cache)))))"

definition file_info_with_key :: "ext \<Rightarrow> rb_env \<Rightarrow> db_call \<Rightarrow> db_call \<Rightarrow> string \<Rightarrow> 'w rb_state
    \<Rightarrow> (string + file_info option) \<times> 'w rb_state" where
  "file_info_with_key E V c1 c2 file_hash st =
     (case rv_api_key V of
        Inl e \<Rightarrow> (Err (''Failed to retrieve API key: '' @ e), st)
      | Inr api_key \<Rightarrow>
          (case find_file_info E (rv_sha256 V) (rv_fails V file_hash c1) (rv_fails V file_hash c2) (rs_db st) (rs_cache st) file_hash api_key of
             (info, c) \<Rightarrow> (info, st\<lparr>rs_cache := c\<rparr>)))"

section \<open>Moving one shard\<close>

text \<open>The local file: \<open>file_hash[0..2]\<close> and, in the message of a mismatch, \<open>file_hash[..16]\<close> may panic.\<close>

definition local_file :: "rb_env \<Rightarrow> string \<Rightarrow> string \<Rightarrow> (string + bytes) outcome" where
  "local_file V file_hash file_ext =
     bind_out (media_path (rv_images_dir V) file_hash file_ext) (\<lambda>images_path.
     bind_out (media_path (rv_videos_dir V) file_hash file_ext) (\<lambda>videos_path. Done (
       case rv_files V images_path of
         Some data \<Rightarrow> data
       | None \<Rightarrow>
           (case rv_files V videos_path of
              Some data \<Rightarrow> data
            | None \<Rightarrow> Err (''Local file not found for hash '' @ file_hash)))))"

definition reshard_from_local :: "ext \<Rightarrow> rb_env \<Rightarrow> string \<Rightarrow> string \<Rightarrow> bytes \<Rightarrow> nat \<Rightarrow> nat \<Rightarrow> nat \<Rightarrow> (string + bytes) outcome" where
  "reshard_from_local E V file_hash file_ext encryption_key shard_index data_shards parity_shards =
     bind_out (local_file V file_hash file_ext) (\<lambda>res.
       case res of
         Inl e \<Rightarrow> Done (Err e)
       | Inr file_data \<Rightarrow>
           let actual_hash = hex_encode E (blake3 E file_data) in
           if actual_hash \<noteq> file_hash
           then if 16 \<le> length file_hash \<and> char_boundary file_hash 16
                then Done (Err (''Local file hash mismatch ('' @ take 16 actual_hash @ '' != '' @ take 16 file_hash
                       @ ''): refusing to migrate from a modified file''))
                else Panic
           else Done (bind_res (map_err (rv_show_err V)
                    (process_for_backup E file_data encryption_key encryption_key data_shards parity_shards)) (\<lambda>(shards, enc_size).
                  if shard_index \<ge> length shards
                  then Err (''Shard index '' @ show_nat shard_index @ '' out of range ('' @ show_nat (length shards) @ '')'')
                  else Ok (shards ! shard_index))))"

definition retrieve_shard_from_old_node :: "ext \<Rightarrow> 'w mesh \<Rightarrow> rb_env \<Rightarrow> bool \<Rightarrow> string \<Rightarrow> string \<Rightarrow> 'w rb_state
    \<Rightarrow> ((string + bytes) \<times> 'w rb_state) outcome" where
  "retrieve_shard_from_old_node E M V reachable old_node_id old_shard_hash st =
     (case lookup_addr V reachable old_node_id st of
        (None, st1) \<Rightarrow> Done (Err ''Cannot migrate: old node addr unknown'', st1)
      | (Some addr, st1) \<Rightarrow>
          bind_out (retrieve_shard E (dial_env M V st1) (rv_hex_err V) (rv_identity V) addr old_shard_hash) (\<lambda>res.
            Done (map_err (\<lambda>_. ''Cannot migrate: old node unreachable'') res, st1)))"

definition shard_for_migration :: "ext \<Rightarrow> 'w mesh \<Rightarrow> rb_env \<Rightarrow> string \<Rightarrow> int \<Rightarrow> file_info option \<Rightarrow> string \<Rightarrow> string \<Rightarrow> 'w rb_state
    \<Rightarrow> ((string + bytes) \<times> 'w rb_state) outcome" where
  "shard_for_migration E M V file_hash index info old_node_id old_shard_hash st =
     (let old = retrieve_shard_from_old_node E M V (rv_fails V file_hash (MoveLookup index) = None) old_node_id old_shard_hash st in
      case info of
        Some (file_ext, Some key, enc_size, data_shards, parity_shards) \<Rightarrow>
          bind_out (reshard_from_local E V file_hash file_ext key (as_usize index) data_shards parity_shards) (\<lambda>res.
            case res of Inr data \<Rightarrow> Done (Ok data, st) | Inl e \<Rightarrow> old)
      | _ \<Rightarrow> old)"

text \<open>\<open>migrate_shard\<close>.  The message of the integrity gate slices the recorded hash at most at its length.\<close>

definition migrate_shard :: "ext \<Rightarrow> 'w mesh \<Rightarrow> rb_env \<Rightarrow> string \<Rightarrow> int \<Rightarrow> sock_addr \<Rightarrow> string \<Rightarrow> string \<Rightarrow> 'w rb_state
    \<Rightarrow> ((string + string) \<times> 'w rb_state) outcome" where
  "migrate_shard E M V file_hash index new_node_addr old_node_id old_shard_hash st =
     (case rv_fails V file_hash (MoveConn index) of
        Some e \<Rightarrow> Done (Err e, st)
      | None \<Rightarrow>
          (case file_info_with_key E V (MoveImages index) (MoveVideos index) file_hash st of
             (Inl e, st1) \<Rightarrow> Done (Err e, st1)
           | (Inr info, st1) \<Rightarrow>
               bind_out (shard_for_migration E M V file_hash index info old_node_id old_shard_hash st1) (\<lambda>(res, st2).
                 case res of
                   Inl e \<Rightarrow> Done (Err e, st2)
                 | Inr shard_data \<Rightarrow>
                     let new_shard_hash = hex_encode E (blake3 E shard_data); k = min 16 (length old_shard_hash) in
                     if new_shard_hash \<noteq> old_shard_hash
                     then if char_boundary old_shard_hash k
                          then Done (Err (''Shard integrity check failed for '' @ file_hash @ ''['' @ show_nat (as_usize index) @ '']: retrieved ''
                                 @ take 16 new_shard_hash @ '' but expected '' @ take k old_shard_hash @ '' '' @ em_dash @ '' aborting migration''), st2)
                          else Panic
                     else (case upload_shard_to_node E M V new_node_addr shard_data st2 of
                             (Inl e, st3) \<Rightarrow> Done (Err e, st3)
                           | (Inr _, st3) \<Rightarrow> Done (Ok new_shard_hash, st3)))))"

section \<open>Rebalancing a file\<close>

text \<open>\<open>UPDATE p2p_shards SET node_id, shard_hash WHERE file_hash AND shard_index\<close>, and the note that the
  file has been looked at.\<close>

definition move_row :: "string \<Rightarrow> int \<Rightarrow> string \<Rightarrow> string \<Rightarrow> db \<Rightarrow> db" where
  "move_row file_hash index nid shard_hash db =
     db\<lparr>db_shards := map (\<lambda>s. if sr_file s = file_hash \<and> sr_index s = index then s\<lparr>sr_node := nid, sr_hash := shard_hash\<rparr> else s) (db_shards db)\<rparr>"

definition touch_rows :: "int \<Rightarrow> string \<Rightarrow> db \<Rightarrow> db" where
  "touch_rows now file_hash db =
     db\<lparr>db_shards := map (\<lambda>s. if sr_file s = file_hash then s\<lparr>sr_checked := Some now\<rparr> else s) (db_shards db)\<rparr>"

fun rebalance_rows :: "ext \<Rightarrow> 'w mesh \<Rightarrow> rb_env \<Rightarrow> string \<Rightarrow> (string \<times> sock_addr) list \<Rightarrow> shard_row list \<Rightarrow> bool \<Rightarrow> 'w rb_state
    \<Rightarrow> ((string + bool) \<times> 'w rb_state) outcome" where
  "rebalance_rows E M V file_hash ideal_nodes [] migrated_any st = Done (Ok migrated_any, st)"
| "rebalance_rows E M V file_hash ideal_nodes (row # rows) migrated_any st =
     (if ideal_nodes = [] then Panic
      else let (ideal_node_id, ideal_node_addr) = ideal_nodes ! (as_usize (sr_index row) mod length ideal_nodes) in
        if sr_node row = ideal_node_id then rebalance_rows E M V file_hash ideal_nodes rows migrated_any st
        else bind_out (migrate_shard E M V file_hash (sr_index row) ideal_node_addr (sr_node row) (sr_hash row) st) (\<lambda>(res, st1).
          case res of
            Inl e \<Rightarrow> rebalance_rows E M V file_hash ideal_nodes rows migrated_any st1
          | Inr new_shard_hash \<Rightarrow>
              (case rv_fails V file_hash (MoveRow (sr_index row)) of
                 Some e \<Rightarrow> Done (Err e, st1)
               | None \<Rightarrow>
                   let st2 = st1\<lparr>rs_db := move_row file_hash (sr_index row) ideal_node_id new_shard_hash (rs_db st1)\<rparr>;
                       (old_addr, st3) = lookup_addr V (rv_fails V file_hash (CleanLookup (sr_index row)) = None) (sr_node row) st2;
                       st4 = (case old_addr of Some addr \<Rightarrow> delete_old_shard E M V addr (sr_hash row) st3 | None \<Rightarrow> st3)
                   in rebalance_rows E M V file_hash ideal_nodes rows True st4)))"

definition rebalance_file :: "ext \<Rightarrow> 'w mesh \<Rightarrow> rb_env \<Rightarrow> string \<Rightarrow> (string \<times> sock_addr) list \<Rightarrow> 'w rb_state
    \<Rightarrow> ((string + bool) \<times> 'w rb_state) outcome" where
  "rebalance_file E M V file_hash active_nodes st =
     (case rv_fails V file_hash FileConn of
        Some e \<Rightarrow> Done (Err e, st)
      | None \<Rightarrow>
          (case rv_fails V file_hash FileShards of
             Some e \<Rightarrow> Done (Err e, st)
           | None \<Rightarrow>
               let shard_rows = shards_of (rs_db st) file_hash in
               (case file_info_with_key E V FileImages FileVideos file_hash st of
                  (Inl e, st1) \<Rightarrow> Done (Err e, st1)
                | (Inr info, st1) \<Rightarrow>
                    let (data_shards, parity_shards) = (case info of Some (_, _, _, ds, ps) \<Rightarrow> (ds, ps) | None \<Rightarrow> (3, 2));
                        total_shards = (data_shards + parity_shards) mod 2 ^ 64;
                        ideal_nodes = rendezvous_select E file_hash active_nodes (min total_shards (length active_nodes)) in
                    bind_out (rebalance_rows E M V file_hash ideal_nodes shard_rows False st1) (\<lambda>(res, st2).
                      case res of
                        Inl e \<Rightarrow> Done (Err e, st2)
                      | Inr migrated_any \<Rightarrow>
                          Done (Ok migrated_any,
                            if rv_fails V file_hash FileTouch = None
                            then st2\<lparr>rs_db := touch_rows (rv_now V) file_hash (rs_db st2)\<rparr> else st2)))))"

section \<open>A cycle\<close>

record cycle_env =
  cv_file :: rb_env
  cv_peer_fails :: "nat \<Rightarrow> string option"
  cv_sync_answers :: bool
  cv_fails :: "nat \<Rightarrow> string option"

fun enter_nodes :: "(string \<Rightarrow> sock_addr option) \<Rightarrow> nat \<Rightarrow> node_row list \<Rightarrow> registry \<Rightarrow> registry" where
  "enter_nodes parse_addr clock [] r = r"
| "enter_nodes parse_addr clock (n # ns) r =
     enter_nodes parse_addr clock ns (case parse_addr (nr_addr n) of Some addr \<Rightarrow> upsert clock r (nr_id n) addr | None \<Rightarrow> r)"

definition sync_db_nodes_to_registry :: "bool \<Rightarrow> (string \<Rightarrow> sock_addr option) \<Rightarrow> nat \<Rightarrow> db \<Rightarrow> registry \<Rightarrow> registry" where
  "sync_db_nodes_to_registry answers parse_addr clock db r =
     (if answers then enter_nodes parse_addr clock (filter nr_active (db_nodes db)) r else r)"

definition active_nodes_of :: "(string \<Rightarrow> sock_addr option) \<Rightarrow> int \<Rightarrow> db \<Rightarrow> (string \<times> sock_addr) list" where
  "active_nodes_of parse_addr now db =
     List.map_filter (\<lambda>n. map_option (Pair (nr_id n)) (parse_addr (nr_addr n)))
       (sort_key nr_id (filter (\<lambda>n. nr_active n \<and> nr_last_seen n > now - INACTIVE_MS) (db_nodes db)))"

text \<open>The grouped query: per file the earliest check (\<open>MIN\<close> skips NULL) and the number of distinct nodes.\<close>

definition file_rows :: "db \<Rightarrow> string \<Rightarrow> shard_row list" where
  "file_rows db f = filter (\<lambda>s. sr_file s = f) (db_shards db)"

definition min_checked :: "db \<Rightarrow> string \<Rightarrow> int option" where
  "min_checked db f =
     (case List.map_filter sr_checked (file_rows db f) of [] \<Rightarrow> None | t # ts \<Rightarrow> Some (min_list (t # ts)))"

definition due :: "int \<Rightarrow> db \<Rightarrow> string \<Rightarrow> bool" where
  "due now db f = (case min_checked db f of None \<Rightarrow> True | Some t \<Rightarrow> t < now - HOUR_MS)"

definition files_of :: "db \<Rightarrow> string list" where
  "files_of db = remdups (map sr_file (db_shards db))"

definition to_rebalance :: "int \<Rightarrow> nat \<Rightarrow> db \<Rightarrow> string list" where
  "to_rebalance now target_node_count db =
     (let fs = filter (\<lambda>f. length (remdups (map sr_node (file_rows db f))) < target_node_count \<and> due now db f) (files_of db) in
      take REBALANCE_BATCH_SIZE
        (filter (\<lambda>f. min_checked db f = None) fs
         @ sort_key (\<lambda>f. the (min_checked db f)) (filter (\<lambda>f. min_checked db f \<noteq> None) fs)))"

fun rebalance_files :: "ext \<Rightarrow> 'w mesh \<Rightarrow> rb_env \<Rightarrow> (string \<times> sock_addr) list \<Rightarrow> string list \<Rightarrow> 'w rb_state \<Rightarrow> 'w rb_state outcome" where
  "rebalance_files E M V active_nodes [] st = Done st"
| "rebalance_files E M V active_nodes (f # fs) st =
     bind_out (rebalance_file E M V f active_nodes st) (\<lambda>(res, st1). rebalance_files E M V active_nodes fs st1)"

definition rebalance_cycle_inner :: "ext \<Rightarrow> 'w mesh \<Rightarrow> cycle_env \<Rightarrow> 'w rb_state \<Rightarrow> ((string + bool) \<times> 'w rb_state) outcome" where
  "rebalance_cycle_inner E M W st =
     (let V = cv_file W; discovered = map (\<lambda>p. (pi_node_id p, pi_addr p)) (all_peers (rs_registry st)) in
      case ensure_peers_registered (cv_peer_fails W) (ue_show_addr (rv_up V)) (rv_now V) discovered (rs_db st) of
        (Inl e, db) \<Rightarrow> Done (Err e, st\<lparr>rs_db := db\<rparr>)
      | (Inr _, db) \<Rightarrow>
          let st1 = st\<lparr>rs_db := db,
                rs_registry := sync_db_nodes_to_registry (cv_sync_answers W) (rv_parse_addr V) (rv_clock V) db (rs_registry st)\<rparr> in
          (case cv_fails W 0 of
             Some e \<Rightarrow> Done (Err e, st1)
           | None \<Rightarrow>
               (case cv_fails W 1 of
                  Some e \<Rightarrow> Done (Err e, st1)
                | None \<Rightarrow>
                    let active_nodes = active_nodes_of (rv_parse_addr V) (rv_now V) db in
                    if length active_nodes < MIN_NODES_REQUIRED then Done (Ok False, st1)
                    else (case cv_fails W 2 of
                            Some e \<Rightarrow> Done (Err e, st1)
                          | None \<Rightarrow>
                              let files = to_rebalance (rv_now V) (min (length active_nodes) SHARD_COUNT) db in
                              if files = [] then Done (Ok False, st1)
                              else bind_out (rebalance_files E M V active_nodes files st1) (\<lambda>st2. Done (Ok True, st2))))))"

text \<open>\<open>rebalance_cycle\<close> with the flag \<open>REBALANCE_ACTIVE\<close>: the flag is cleared by the statement after the
  cycle, which a panic does not reach.\<close>

definition rebalance_cycle :: "ext \<Rightarrow> 'w mesh \<Rightarrow> cycle_env \<Rightarrow> bool \<Rightarrow> 'w rb_state \<Rightarrow> ((string + bool) \<times> 'w rb_state) outcome \<times> bool" where
  "rebalance_cycle E M W active st =
     (if active then (Done (Err ''rebalance already in progress'', st), True)
      else case rebalance_cycle_inner E M W st of
             Panic \<Rightarrow> (Panic, True)
           | Done r \<Rightarrow> (Done r, False))"

text \<open>\<open>run_full_rebalance\<close>, which repeats cycles until one has nothing to do; \<open>Ws k\<close> surrounds the \<open>k\<close>-th.
  \<open>None\<close> is a sweep that never ends.\<close>

partial_function (option) run_full_rebalance :: "ext \<Rightarrow> 'w mesh \<Rightarrow> (nat \<Rightarrow> cycle_env) \<Rightarrow> nat \<Rightarrow> bool \<Rightarrow> 'w rb_state
    \<Rightarrow> (((string + nat) \<times> 'w rb_state) outcome \<times> bool) option" where
  "run_full_rebalance E M Ws total_batches active st =
     (case rebalance_cycle E M (Ws total_batches) active st of
        (Panic, b) \<Rightarrow> Some (Panic, b)
      | (Done (Inl e, st1), b) \<Rightarrow> Some (Done (Err e, st1), b)
      | (Done (Inr worked, st1), b) \<Rightarrow>
          if worked then run_full_rebalance E M Ws (total_batches + 1) b st1 else Some (Done (Ok total_batches, st1), b))"

section \<open>What the steps leave alone\<close>

lemma lookup_addr_frame:
  "lookup_addr V b n st = (a, st') \<Longrightarrow> rs_db st' = rs_db st \<and> rs_mesh st' = rs_mesh st \<and> rs_cache st' = rs_cache st"
  by (auto simp: lookup_addr_def split: prod.splits)

lemma after_stream_frame [simp]:
  "rs_db (after_stream M a ms st) = rs_db st" "rs_registry (after_stream M a ms st) = rs_registry st"
  by (simp_all add: after_stream_def)

lemma delete_old_frame [simp]:
  "rs_db (delete_old_shard E M V a h st) = rs_db st" "rs_registry (delete_old_shard E M V a h st) = rs_registry st"
  by (simp_all add: delete_old_shard_def)

lemma upload_node_frame:
  "upload_shard_to_node E M V a v st = (res, st') \<Longrightarrow> rs_db st' = rs_db st \<and> rs_registry st' = rs_registry st"
  by (auto simp: upload_shard_to_node_def split: prod.splits)

lemma file_info_frame:
  "file_info_with_key E V c1 c2 f st = (res, st') \<Longrightarrow> rs_db st' = rs_db st \<and> rs_registry st' = rs_registry st \<and> rs_mesh st' = rs_mesh st"
  by (auto simp: file_info_with_key_def split: sum.splits prod.splits)

text \<open>Every address the worker resolves is the location of its node, when registry and table agree on
  locations.\<close>

definition located :: "(string \<Rightarrow> sock_addr) \<Rightarrow> (string \<Rightarrow> sock_addr option) \<Rightarrow> registry \<Rightarrow> db \<Rightarrow> bool" where
  "located loc parse_addr r db \<longleftrightarrow> (\<forall>(k, p) \<in> set (rg_peers r). pi_node_id p = k \<and> pi_addr p = loc k)
     \<and> (\<forall>n \<in> set (db_nodes db). parse_addr (nr_addr n) = None \<or> parse_addr (nr_addr n) = Some (loc (nr_id n)))"

lemma upsert_entries:
  assumes "(k, p) \<in> set (rg_peers (upsert clock r nid a))"
  shows "(k, p) \<in> set (rg_peers r) \<or> (k = nid \<and> p = \<lparr>pi_node_id = nid, pi_addr = a, pi_last_seen = clock\<rparr>)
    \<or> (k = nid \<and> (\<exists>e. (nid, e) \<in> set (rg_peers r) \<and> p = e\<lparr>pi_last_seen := clock\<rparr>))"
proof -
  have u: "x \<in> set (AList.update nid q ps) \<Longrightarrow> x = (nid, q) \<or> x \<in> set ps" for x q and ps :: "(string \<times> peer_info) list"
    by (induction ps) (auto split: if_splits)
  show ?thesis
  proof (cases "get_peer r nid")
    case None
    then show ?thesis using assms u by (fastforce simp: upsert_def split: if_splits)
  next
    case (Some e)
    then have "(nid, e) \<in> set (rg_peers r)" by (simp add: get_peer_def map_of_SomeD)
    then show ?thesis using assms Some u by (fastforce simp: upsert_def split: if_splits)
  qed
qed

lemma located_upsert:
  assumes "located loc pa r db" "a = loc nid"
  shows "located loc pa (upsert clock r nid a) db"
proof -
  have "pi_node_id p = k \<and> pi_addr p = loc k" if "(k, p) \<in> set (rg_peers (upsert clock r nid a))" for k p
    using upsert_entries[OF that] assms by (auto simp: located_def)
  then show ?thesis using assms(1) by (auto simp: located_def)
qed

lemma query_opt_Some: "query_opt e rows = Ok (Some r) \<Longrightarrow> rows = [r]"
  by (auto simp: query_opt_def split: list.splits)

lemma lookup_node_addr_cases:
  assumes "lookup_node_addr pa b clock db r nid = (a, r')"
  obtains (known) peer where "(nid, peer) \<in> set (rg_peers r)" "a = Some (pi_addr peer)" "r' = r"
  | (unknown) "a = None" "r' = r"
  | (table) row x where "row \<in> set (db_nodes db)" "nr_id row = nid" "pa (nr_addr row) = Some x" "a = Some x" "r' = upsert clock r nid x"
proof (cases "get_peer r nid")
  case (Some peer)
  then have "(nid, peer) \<in> set (rg_peers r)" "a = Some (pi_addr peer)" "r' = r"
    using assms by (simp_all add: lookup_node_addr_def get_peer_def map_of_SomeD)
  then show thesis by (rule known)
next
  case None
  let ?q = "query_opt [] (filter (\<lambda>n. nr_id n = nid \<and> nr_active n) (db_nodes db))"
  show thesis
  proof (cases "\<exists>row x. b \<and> ?q = Ok (Some row) \<and> pa (nr_addr row) = Some x")
    case True
    then obtain row x where q: "b" "?q = Ok (Some row)" "pa (nr_addr row) = Some x" by blast
    have "row \<in> set (filter (\<lambda>n. nr_id n = nid \<and> nr_active n) (db_nodes db))" using query_opt_Some[OF q(2)] by simp
    then have "row \<in> set (db_nodes db)" "nr_id row = nid" by simp_all
    moreover have "a = Some x" "r' = upsert clock r nid x" using assms None q by (simp_all add: lookup_node_addr_def)
    ultimately show thesis using q(3) table by blast
  next
    case False
    then have "a = None \<and> r' = r" using assms None by (auto simp: lookup_node_addr_def split: if_splits sum.splits option.splits)
    then show thesis using unknown by blast
  qed
qed

lemma located_lookup:
  assumes "located loc (rv_parse_addr V) (rs_registry st) (rs_db st)" "lookup_addr V b nid st = (a, st')"
  shows "located loc (rv_parse_addr V) (rs_registry st') (rs_db st)" "\<And>x. a = Some x \<Longrightarrow> x = loc nid"
proof -
  obtain r where r: "lookup_node_addr (rv_parse_addr V) b (rv_clock V) (rs_db st) (rs_registry st) nid = (a, r)" "rs_registry st' = r"
    using assms(2) by (auto simp: lookup_addr_def split: prod.splits)
  have "located loc (rv_parse_addr V) r (rs_db st) \<and> (\<forall>x. a = Some x \<longrightarrow> x = loc nid)"
    using r(1)
  proof (cases rule: lookup_node_addr_cases)
    case (known peer)
    then show ?thesis using assms(1) by (auto simp: located_def)
  next
    case (table row x)
    then have "x = loc nid" using assms(1) by (auto simp: located_def)
    then show ?thesis using table located_upsert[OF assms(1)] by simp
  qed (use assms(1) in simp)
  then show "located loc (rv_parse_addr V) (rs_registry st') (rs_db st)" "\<And>x. a = Some x \<Longrightarrow> x = loc nid"
    using r(2) by auto
qed

text \<open>How a migration ends.  It touches neither table nor location, and it succeeds only with the recorded
  hash, after the new node has accepted bytes with that hash.\<close>

lemma old_node_frame:
  assumes "retrieve_shard_from_old_node E M V b n h st = Done (res, st')" "located loc (rv_parse_addr V) (rs_registry st) (rs_db st)"
  shows "rs_db st' = rs_db st \<and> rs_mesh st' = rs_mesh st \<and> located loc (rv_parse_addr V) (rs_registry st') (rs_db st)"
proof -
  obtain a st1 where l: "lookup_addr V b n st = (a, st1)" by fastforce
  then have "st' = st1"
    using assms(1) by (auto simp: retrieve_shard_from_old_node_def bind_out_Done split: option.splits)
  then show ?thesis using lookup_addr_frame[OF l] located_lookup(1)[OF assms(2) l] by simp
qed

lemma shard_for_migration_frame:
  assumes "shard_for_migration E M V f i info n h st = Done (res, st')" "located loc (rv_parse_addr V) (rs_registry st) (rs_db st)"
  shows "rs_db st' = rs_db st \<and> rs_mesh st' = rs_mesh st \<and> located loc (rv_parse_addr V) (rs_registry st') (rs_db st)"
proof -
  have "st' = st \<or> retrieve_shard_from_old_node E M V (rv_fails V f (MoveLookup i) = None) n h st = Done (res, st')"
    using assms(1)
    by (auto simp: shard_for_migration_def Let_def bind_out_Done sum.case_eq_if split: option.splits prod.splits if_splits)
  then show ?thesis using old_node_frame[OF _ assms(2)] assms(2) by blast
qed

lemma migrate_cases:
  assumes "migrate_shard E M V f i a n h st = Done (res, st')" "located loc (rv_parse_addr V) (rs_registry st) (rs_db st)"
  obtains (early) e where "res = Err e" "rs_db st' = rs_db st" "rs_mesh st' = rs_mesh st" "located loc (rv_parse_addr V) (rs_registry st') (rs_db st)"
  | (sent) data st2 up where "hex_encode E (blake3 E data) = h" "upload_shard_to_node E M V a data st2 = (up, st')" "rs_db st2 = rs_db st"
      "rs_mesh st2 = rs_mesh st" "located loc (rv_parse_addr V) (rs_registry st2) (rs_db st)" "is_ok res = is_ok up" "\<And>h'. res = Ok h' \<Longrightarrow> h' = h"
proof (cases "rv_fails V f (MoveConn i)")
  case (Some e)
  then have "res = Err e" "st' = st" using assms(1) by (simp_all add: migrate_shard_def)
  then show thesis using assms(2) early by blast
next
  case None
  obtain q st1 where q: "file_info_with_key E V (MoveImages i) (MoveVideos i) f st = (q, st1)" by fastforce
  note fr = file_info_frame[OF q]
  show thesis
  proof (cases q)
    case (Inl e)
    then have "res = Err e" "st' = st1" using assms(1) None q by (simp_all add: migrate_shard_def)
    then show thesis using assms(2) fr early by simp
  next
    case (Inr info)
    then obtain r st2 where r: "shard_for_migration E M V f i info n h st1 = Done (r, st2)"
      using assms(1) None q by (auto simp: migrate_shard_def bind_out_Done)
    have fr2: "rs_db st2 = rs_db st" "rs_mesh st2 = rs_mesh st" "located loc (rv_parse_addr V) (rs_registry st2) (rs_db st)"
      using shard_for_migration_frame[OF r, of loc] assms(2) fr by simp_all
    show thesis
    proof (cases "\<exists>data. r = Ok data \<and> hex_encode E (blake3 E data) = h")
      case True
      then obtain data where d: "r = Ok data" "hex_encode E (blake3 E data) = h" by blast
      obtain up st3 where up: "upload_shard_to_node E M V a data st2 = (up, st3)" by fastforce
      then have "st3 = st'" "is_ok res = is_ok up" "\<And>h'. res = Ok h' \<Longrightarrow> h' = h"
        using assms(1) None q Inr r d by (auto simp: migrate_shard_def Let_def split: sum.splits)
      then show thesis using sent[OF d(2) _ fr2] up by blast
    next
      case False
      then have "st' = st2 \<and> (\<exists>e. res = Err e)"
        using assms(1) None q Inr r by (auto simp: migrate_shard_def Let_def split: sum.splits if_splits)
      then show thesis using early fr2 by blast
    qed
  qed
qed

section \<open>The mesh as the worker sees it\<close>

text \<open>Only a delete request for a shard makes a node drop it, and a node that has accepted an upload holds it.\<close>

locale shard_mesh =
  fixes good :: "ext \<Rightarrow> bool"
    and mesh :: "ext \<Rightarrow> 'w mesh"
    and holds :: "ext \<Rightarrow> 'w \<Rightarrow> sock_addr \<Rightarrow> bytes \<Rightarrow> bool"
  assumes good_hex: "good E \<Longrightarrow> hex_ok E"
    and run_keeps: "good E \<Longrightarrow> holds E w b h \<Longrightarrow> b \<noteq> a \<or> (\<forall>t. DeleteShardRequest h t \<notin> set ms) \<Longrightarrow>
      holds E (mh_run (mesh E) w a ms) b h"
    and request_holds: "good E \<Longrightarrow> mh_dial (mesh E) w a nid = Ok C \<Longrightarrow>
      Inr (StoreShardResponse h' True n) \<in> set (pc_replies C [StoreShardRequest h v t]) \<Longrightarrow>
      holds E (mh_run (mesh E) w a [StoreShardRequest h v t]) a h"
    and stream_holds: "good E \<Longrightarrow> mh_dial (mesh E) w a nid = Ok C \<Longrightarrow>
      Inr (StoreShardStreamResponse True n) \<in> set (pc_replies C (StoreShardStreamInit fh i tb sc t # map StoreShardChunk cs @ [StoreShardStreamFinal h])) \<Longrightarrow>
      holds E (mh_run (mesh E) w a (StoreShardStreamInit fh i tb sc t # map StoreShardChunk cs @ [StoreShardStreamFinal h])) a h"

text \<open>A catalogued shard is held when the node of its row holds its hash.\<close>

definition row_held :: "('w \<Rightarrow> sock_addr \<Rightarrow> bytes \<Rightarrow> bool) \<Rightarrow> ext \<Rightarrow> (string \<Rightarrow> sock_addr) \<Rightarrow> 'w \<Rightarrow> shard_row \<Rightarrow> bool" where
  "row_held hl E loc w s \<longleftrightarrow> (\<exists>h. hex_decode E (sr_hash s) = Some h \<and> hl w (loc (sr_node s)) h)"

text \<open>Rows before and after: the same shards with the same hashes, on their old node or on one of \<open>nodes\<close>, and
  none is lost.\<close>

definition rows_kept :: "('w \<Rightarrow> sock_addr \<Rightarrow> bytes \<Rightarrow> bool) \<Rightarrow> ext \<Rightarrow> (string \<Rightarrow> sock_addr) \<Rightarrow> string set \<Rightarrow> 'w \<Rightarrow> 'w \<Rightarrow> shard_row list \<Rightarrow> shard_row list \<Rightarrow> bool" where
  "rows_kept hl E loc nodes w w' rows rows' \<longleftrightarrow> list_all2 (\<lambda>s s'. shard_key s' = shard_key s \<and> sr_hash s' = sr_hash s
     \<and> (sr_node s' = sr_node s \<or> sr_node s' \<in> nodes) \<and> (row_held hl E loc w s \<longrightarrow> row_held hl E loc w' s')) rows rows'"

lemma rows_kept_same: "(\<And>s. s \<in> set rows \<Longrightarrow> row_held hl E loc w s \<Longrightarrow> row_held hl E loc w' s) \<Longrightarrow> rows_kept hl E loc nodes w w' rows rows"
  by (auto simp: rows_kept_def intro!: list.rel_refl_strong)

lemma rows_kept_trans:
  assumes "rows_kept hl E loc nodes w w1 rows rows1" "rows_kept hl E loc nodes w1 w2 rows1 rows2"
  shows "rows_kept hl E loc nodes w w2 rows rows2"
  using assms unfolding rows_kept_def by (rule list_all2_trans[rotated]) auto

lemma rows_kept_keys: "rows_kept hl E loc nodes w w' rows rows' \<Longrightarrow> map shard_key rows' = map shard_key rows \<and> map sr_hash rows' = map sr_hash rows
     \<and> sr_node ` set rows' \<subseteq> sr_node ` set rows \<union> nodes"
  unfolding rows_kept_def by (induction rule: list_all2_induct) auto

lemma rows_kept_mono: "rows_kept hl E loc nodes w w' rows rows' \<Longrightarrow> nodes \<subseteq> nodes' \<Longrightarrow> rows_kept hl E loc nodes' w w' rows rows'"
  unfolding rows_kept_def by (erule list_all2_mono) auto

section \<open>What an upload sends\<close>

lemma send_prefix_sent: "send_prefix C ms = (sent, r) \<Longrightarrow> set sent \<subseteq> set ms \<and> (is_ok r \<longrightarrow> sent = ms)"
proof (induction ms arbitrary: sent)
  case (Cons m ms)
  obtain s1 r1 where "send_prefix C ms = (s1, r1)" by fastforce
  then show ?case using Cons.prems Cons.IH[of s1] by (cases "pc_tx C m"; cases r) auto
qed simp

lemma rx_reply: "rx C sent k = Inr m \<Longrightarrow> Inr m \<in> set (pc_replies C sent)"
  by (metis nth_mem old.sum.simps(4) rx_def sum.distinct(1))

lemma request_shard_sent:
  assumes "request_shard E U i a C v = (res, sent)"
  shows "DeleteShardRequest h t \<notin> set sent"
    "is_ok res \<Longrightarrow> \<exists>t h' n. sent = [StoreShardRequest (blake3 E v) v t] \<and> Inr (StoreShardResponse h' True n) \<in> set (pc_replies C sent)"
  using assms rx_reply[of C _ 0]
  by (auto simp: request_shard_def Let_def split: sum.splits msg.splits bool.splits)

lemma stream_shard_sent:
  assumes "stream_shard E U i a C v = (res, sent)"
  shows "DeleteShardRequest h t \<notin> set sent"
    "is_ok res \<Longrightarrow> \<exists>fh k tb sc t n. sent = StoreShardStreamInit fh k tb sc t # map StoreShardChunk (chunks_of UPLOAD_CHUNK_SIZE v) @ [StoreShardStreamFinal (blake3 E v)]
       \<and> Inr (StoreShardStreamResponse True n) \<in> set (pc_replies C sent)"
proof -
  let ?rest = "map StoreShardChunk (chunks_of UPLOAD_CHUNK_SIZE v) @ [StoreShardStreamFinal (blake3 E v)]"
  obtain fh k tb sc t where init: "rb_init_msg E U i v = StoreShardStreamInit fh k tb sc t"
    by (auto simp: rb_init_msg_def Let_def)
  obtain s r where sp: "send_prefix C ?rest = (s, r)" by fastforce
  note ss = send_prefix_sent[OF sp]
  have "sent = [] \<or> sent = [rb_init_msg E U i v] \<or> sent = rb_init_msg E U i v # s"
    using assms sp by (auto simp: stream_shard_def Let_def split: sum.splits msg.splits bool.splits)
  then show "DeleteShardRequest h t' \<notin> set sent" for h t' using ss init by auto
  assume ok: "is_ok res"
  then have "is_ok r \<and> sent = rb_init_msg E U i v # s \<and> (\<exists>n. rx C (rb_init_msg E U i v # s) 1 = Inr (StoreShardStreamResponse True n))"
    using assms sp by (auto simp: stream_shard_def Let_def split: sum.splits msg.splits bool.splits)
  then show "\<exists>fh k tb sc t n. sent = StoreShardStreamInit fh k tb sc t # ?rest \<and> Inr (StoreShardStreamResponse True n) \<in> set (pc_replies C sent)"
    using ss init rx_reply by metis
qed

lemma upload_inner_sent:
  assumes "upload_shard_to_node_inner E U i a v = (res, sent)"
  shows "DeleteShardRequest h t \<notin> set sent"
    "is_ok res \<Longrightarrow> \<exists>C. ue_connect U a 0 0 = Ok C \<and>
       ((\<exists>t h' n. sent = [StoreShardRequest (blake3 E v) v t] \<and> Inr (StoreShardResponse h' True n) \<in> set (pc_replies C sent))
        \<or> (\<exists>fh k tb sc t n. sent = StoreShardStreamInit fh k tb sc t # map StoreShardChunk (chunks_of UPLOAD_CHUNK_SIZE v) @ [StoreShardStreamFinal (blake3 E v)]
             \<and> Inr (StoreShardStreamResponse True n) \<in> set (pc_replies C sent)))"
  using assms request_shard_sent[of E U i a _ v res sent] stream_shard_sent[of E U i a _ v res sent]
  by (auto simp: upload_shard_to_node_inner_def split: sum.splits if_splits)

context shard_mesh
begin

lemma upload_kept:
  assumes "good E" "upload_shard_to_node E (mesh E) V a v st = (res, st')"
  shows "holds E (rs_mesh st) b h \<Longrightarrow> holds E (rs_mesh st') b h" "is_ok res \<Longrightarrow> holds E (rs_mesh st') a (blake3 E v)"
proof -
  obtain sent where s: "upload_shard_to_node_inner E (dial_env (mesh E) V st) (rv_identity V) a v = (res, sent)"
      "st' = after_stream (mesh E) a sent st"
    using assms(2) by (auto simp: upload_shard_to_node_def split: prod.splits)
  note u = upload_inner_sent[OF s(1)]
  show "holds E (rs_mesh st) b h \<Longrightarrow> holds E (rs_mesh st') b h"
    using run_keeps[OF assms(1)] u(1) s(2) by (auto simp: after_stream_def)
  assume "is_ok res"
  from u(2)[OF this] obtain C where c: "ue_connect (dial_env (mesh E) V st) a 0 0 = Ok C"
    and m: "(\<exists>t h' n. sent = [StoreShardRequest (blake3 E v) v t] \<and> Inr (StoreShardResponse h' True n) \<in> set (pc_replies C sent))
        \<or> (\<exists>fh k tb sc t n. sent = StoreShardStreamInit fh k tb sc t # map StoreShardChunk (chunks_of UPLOAD_CHUNK_SIZE v) @ [StoreShardStreamFinal (blake3 E v)]
             \<and> Inr (StoreShardStreamResponse True n) \<in> set (pc_replies C sent))" by blast
  from c obtain nid where d: "mh_dial (mesh E) (rs_mesh st) a nid = Ok C"
    by (auto simp: dial_env_def split: option.splits)
  have "sent \<noteq> []" using m by auto
  then have "rs_mesh st' = mh_run (mesh E) (rs_mesh st) a sent" using s(2) by (simp add: after_stream_def)
  then show "holds E (rs_mesh st') a (blake3 E v)"
    using m request_holds[OF assms(1) d] stream_holds[OF assms(1) d] by auto
qed

lemma delete_kept:
  assumes "good E" "holds E (rs_mesh st) b h" "b \<noteq> a \<or> hex_decode E hex \<noteq> Some h"
  shows "holds E (rs_mesh (delete_old_shard E (mesh E) V a hex st)) b h"
proof -
  have "set (delete_sent E U i a hex) \<subseteq> {m. \<exists>h' t. m = DeleteShardRequest h' t \<and> hex_decode E hex = Some h'}" for U i
    by (auto simp: delete_sent_def Let_def split: option.splits)
  then have "b \<noteq> a \<or> (\<forall>t. DeleteShardRequest h t \<notin> set (delete_sent E (dial_env (mesh E) V st) (rv_identity V) a hex))"
    using assms(3) by fastforce
  then show ?thesis using run_keeps[OF assms(1,2)] assms(2) by (auto simp: delete_old_shard_def after_stream_def)
qed

end

section \<open>Moving rows\<close>

definition distinct_hashes :: "ext \<Rightarrow> db \<Rightarrow> bool" where
  "distinct_hashes E db \<longleftrightarrow> distinct (map (\<lambda>s. hex_decode E (sr_hash s)) (db_shards db))"

text \<open>What a worker step starts from: the constraints of the schema, no two rows for one shard, and nodes with
  agreed, different locations.\<close>

definition rb_ready :: "ext \<Rightarrow> (string \<Rightarrow> sock_addr) \<Rightarrow> rb_env \<Rightarrow> 'w rb_state \<Rightarrow> bool" where
  "rb_ready E loc V st \<longleftrightarrow> db_ok (rs_db st) \<and> distinct_hashes E (rs_db st) \<and> located loc (rv_parse_addr V) (rs_registry st) (rs_db st)
     \<and> inj_on loc (nr_id ` set (db_nodes (rs_db st)))"

text \<open>Nothing but the shard rows changes, and they are kept.\<close>

definition only_moves :: "('w \<Rightarrow> sock_addr \<Rightarrow> bytes \<Rightarrow> bool) \<Rightarrow> ext \<Rightarrow> (string \<Rightarrow> sock_addr) \<Rightarrow> string set \<Rightarrow> 'w rb_state \<Rightarrow> 'w rb_state \<Rightarrow> bool" where
  "only_moves hl E loc nodes st st' \<longleftrightarrow> db_nodes (rs_db st') = db_nodes (rs_db st) \<and> db_images (rs_db st') = db_images (rs_db st)
     \<and> db_videos (rs_db st') = db_videos (rs_db st)
     \<and> rows_kept hl E loc nodes (rs_mesh st) (rs_mesh st') (db_shards (rs_db st)) (db_shards (rs_db st'))"

lemma only_moves_trans: "only_moves hl E loc nodes st st1 \<Longrightarrow> only_moves hl E loc nodes st1 st2 \<Longrightarrow> only_moves hl E loc nodes st st2"
  unfolding only_moves_def using rows_kept_trans by metis

lemma only_moves_mono:
  assumes "only_moves hl E loc nodes st st'" "nodes \<subseteq> nodes'"
  shows "only_moves hl E loc nodes' st st'"
  using assms by (auto simp: only_moves_def intro: rows_kept_mono)

lemma only_moves_same:
  assumes "rs_db st' = rs_db st" "\<And>a h. hl (rs_mesh st) a h \<Longrightarrow> hl (rs_mesh st') a h"
  shows "only_moves hl E loc nodes st st'"
  using assms by (auto simp: only_moves_def row_held_def intro!: rows_kept_same)

lemma only_moves_ready:
  assumes "rb_ready E loc V st" "only_moves hl E loc nodes st st'" "nodes \<subseteq> nr_id ` set (db_nodes (rs_db st))"
    "located loc (rv_parse_addr V) (rs_registry st') (rs_db st)"
  shows "rb_ready E loc V st'"
proof -
  have k: "map shard_key (db_shards (rs_db st')) = map shard_key (db_shards (rs_db st))"
    "map sr_hash (db_shards (rs_db st')) = map sr_hash (db_shards (rs_db st))"
    "sr_node ` set (db_shards (rs_db st')) \<subseteq> sr_node ` set (db_shards (rs_db st)) \<union> nodes"
    using rows_kept_keys[OF assms(2)[unfolded only_moves_def, THEN conjunct2, THEN conjunct2, THEN conjunct2]] by simp_all
  have "map (\<lambda>s. hex_decode E (sr_hash s)) rows = map (hex_decode E) (map sr_hash rows)" for rows :: "shard_row list" by simp
  then have "distinct_hashes E (rs_db st')" using assms(1) k(2) unfolding rb_ready_def distinct_hashes_def by metis
  moreover have "sr_node ` set (db_shards (rs_db st')) \<subseteq> nr_id ` set (db_nodes (rs_db st))"
    by (rule subset_trans[OF k(3)]) (use assms(1,3) in \<open>simp add: rb_ready_def db_ok_def\<close>)
  then have "db_ok (rs_db st')"
    using assms(1,2) k(1) unfolding rb_ready_def db_ok_def only_moves_def by simp
  ultimately show ?thesis using assms by (auto simp: rb_ready_def only_moves_def located_def)
qed

lemma rendezvous_subset: "set (rendezvous_select E f nodes k) \<subseteq> set nodes"
  using set_take_subset[of k "sort_key (rank E f) nodes"] by (simp add: rendezvous_ranked)

lemma shards_of_keys:
  assumes "db_ok db"
  shows "distinct (map shard_key (shards_of db f))"
proof -
  have "distinct (map sr_index (shards_of db f))" by (rule shards_of_distinct[OF assms])
  then show ?thesis by (auto simp: distinct_map shard_key_def inj_on_def)
qed

context shard_mesh
begin

lemma move_one:
  assumes "good E" "rb_ready E loc V st" "row \<in> set (db_shards (rs_db st))"
    and "migrate_shard E (mesh E) V (sr_file row) (sr_index row) (loc nid) (sr_node row) (sr_hash row) st = Done (Ok h, st1)"
    and "nid \<noteq> sr_node row" "nid \<in> nr_id ` set (db_nodes (rs_db st))"
    and "st2 = st1\<lparr>rs_db := move_row (sr_file row) (sr_index row) nid h (rs_db st1)\<rparr>"
    and "lookup_addr V b (sr_node row) st2 = (old_addr, st3)"
    and "st4 = (case old_addr of Some addr \<Rightarrow> delete_old_shard E (mesh E) V addr (sr_hash row) st3 | None \<Rightarrow> st3)"
  shows "only_moves (holds E) E loc {nid} st st4" "located loc (rv_parse_addr V) (rs_registry st4) (rs_db st)"
    "db_shards (rs_db st4) = map (\<lambda>s. if shard_key s = shard_key row then s\<lparr>sr_node := nid, sr_hash := sr_hash row\<rparr> else s) (db_shards (rs_db st))"
proof -
  have lc: "located loc (rv_parse_addr V) (rs_registry st) (rs_db st)" using assms(2) by (simp add: rb_ready_def)
  obtain data st0 up where m: "hex_encode E (blake3 E data) = sr_hash row" "upload_shard_to_node E (mesh E) V (loc nid) data st0 = (up, st1)"
      "rs_db st0 = rs_db st" "rs_mesh st0 = rs_mesh st" "located loc (rv_parse_addr V) (rs_registry st0) (rs_db st)" "is_ok up" "h = sr_hash row"
    using migrate_cases[OF assms(4) lc] by (metis is_ok.simps(2) sum.distinct(1))
  note fr = upload_node_frame[OF m(2)] lookup_addr_frame[OF assms(8)]
  have l2: "located loc (rv_parse_addr V) (rs_registry st2) (rs_db st2)"
    using m(3,5) fr assms(7) by (simp add: located_def move_row_def)
  have l3: "located loc (rv_parse_addr V) (rs_registry st3) (rs_db st)" "\<And>x. old_addr = Some x \<Longrightarrow> x = loc (sr_node row)"
    using located_lookup[OF l2 assms(8)] m(3) fr assms(7) by (simp_all add: located_def move_row_def)
  then show "located loc (rv_parse_addr V) (rs_registry st4) (rs_db st)" using assms(9) by (simp split: option.splits)
  have rows: "db_shards (rs_db st4) = map (\<lambda>s. if shard_key s = shard_key row then s\<lparr>sr_node := nid, sr_hash := sr_hash row\<rparr> else s) (db_shards (rs_db st))"
    using assms(7,9) fr m(3,7) by (auto simp: move_row_def shard_key_def split: option.splits)
  then show "db_shards (rs_db st4) = map (\<lambda>s. if shard_key s = shard_key row then s\<lparr>sr_node := nid, sr_hash := sr_hash row\<rparr> else s) (db_shards (rs_db st))" .
  have up: "holds E (rs_mesh st) x k \<Longrightarrow> holds E (rs_mesh st3) x k" "holds E (rs_mesh st3) (loc nid) (blake3 E data)" for x k
    using upload_kept[OF assms(1) m(2)] m(4,6) fr assms(7) by simp_all
  have del: "holds E (rs_mesh st3) x k \<Longrightarrow> x \<noteq> loc (sr_node row) \<or> hex_decode E (sr_hash row) \<noteq> Some k \<Longrightarrow> holds E (rs_mesh st4) x k" for x k
    using delete_kept[OF assms(1)] l3(2) assms(9) by (auto split: option.splits)
  have inj: "loc nid \<noteq> loc (sr_node row)"
    using assms(2,3,5,6) by (auto simp: rb_ready_def db_ok_def dest!: inj_onD)
  have new: "holds E (rs_mesh st4) (loc nid) (blake3 E data)" "hex_decode E (sr_hash row) = Some (blake3 E data)"
    using del up(2) inj hex_decode_encode[OF good_hex[OF assms(1)], of "blake3 E data"] m(1) by simp_all
  have "rows_kept (holds E) E loc {nid} (rs_mesh st) (rs_mesh st4) (db_shards (rs_db st)) (db_shards (rs_db st4))"
    unfolding rows_kept_def rows list_all2_map2
  proof (rule list.rel_refl_strong)
    fix s assume s: "s \<in> set (db_shards (rs_db st))"
    have same: "s = row" if "shard_key s = shard_key row \<or> hex_decode E (sr_hash s) = hex_decode E (sr_hash row)"
      using that s assms(2,3) by (auto simp: rb_ready_def db_ok_def distinct_hashes_def distinct_map dest: inj_onD)
    have keep: "row_held (holds E) E loc (rs_mesh st) s \<Longrightarrow> row_held (holds E) E loc (rs_mesh st4) s" if "s \<noteq> row"
    proof -
      assume "row_held (holds E) E loc (rs_mesh st) s"
      then obtain k where k: "hex_decode E (sr_hash s) = Some k" "holds E (rs_mesh st) (loc (sr_node s)) k" by (auto simp: row_held_def)
      then have "hex_decode E (sr_hash row) \<noteq> Some k" using same that by metis
      then show "row_held (holds E) E loc (rs_mesh st4) s" using k up(1) del unfolding row_held_def by blast
    qed
    show "shard_key (if shard_key s = shard_key row then s\<lparr>sr_node := nid, sr_hash := sr_hash row\<rparr> else s) = shard_key s
        \<and> sr_hash (if shard_key s = shard_key row then s\<lparr>sr_node := nid, sr_hash := sr_hash row\<rparr> else s) = sr_hash s
        \<and> (sr_node (if shard_key s = shard_key row then s\<lparr>sr_node := nid, sr_hash := sr_hash row\<rparr> else s) = sr_node s
           \<or> sr_node (if shard_key s = shard_key row then s\<lparr>sr_node := nid, sr_hash := sr_hash row\<rparr> else s) \<in> {nid})
        \<and> (row_held (holds E) E loc (rs_mesh st) s \<longrightarrow>
           row_held (holds E) E loc (rs_mesh st4) (if shard_key s = shard_key row then s\<lparr>sr_node := nid, sr_hash := sr_hash row\<rparr> else s))"
      using same keep new by (auto simp: shard_key_def row_held_def)
  qed
  moreover have "db_nodes (rs_db st4) = db_nodes (rs_db st)" "db_images (rs_db st4) = db_images (rs_db st)" "db_videos (rs_db st4) = db_videos (rs_db st)"
    using assms(7,9) fr m(3) by (auto simp: move_row_def split: option.splits)
  ultimately show "only_moves (holds E) E loc {nid} st st4" by (simp add: only_moves_def)
qed

lemma migrate_keeps:
  assumes "good E" "migrate_shard E (mesh E) V f i a n h st = Done (res, st')" "located loc (rv_parse_addr V) (rs_registry st) (rs_db st)"
  shows "rs_db st' = rs_db st" "located loc (rv_parse_addr V) (rs_registry st') (rs_db st)"
    "holds E (rs_mesh st) b k \<Longrightarrow> holds E (rs_mesh st') b k"
proof -
  have "rs_db st' = rs_db st \<and> located loc (rv_parse_addr V) (rs_registry st') (rs_db st)
      \<and> (holds E (rs_mesh st) b k \<longrightarrow> holds E (rs_mesh st') b k)"
    using assms(2,3)
  proof (cases rule: migrate_cases)
    case (sent data st2 up)
    then show ?thesis using upload_kept(1)[OF assms(1) sent(2)] upload_node_frame[OF sent(2)] by simp
  qed simp
  then show "rs_db st' = rs_db st" "located loc (rv_parse_addr V) (rs_registry st') (rs_db st)"
    "holds E (rs_mesh st) b k \<Longrightarrow> holds E (rs_mesh st') b k" by blast+
qed

text \<open>One turn of the loop over a file's rows, with what it leaves for the remaining ones.\<close>

lemma rebalance_rows_step:
  assumes "good E" "rebalance_rows E (mesh E) V f ideal (row # rows) b st = Done (res, st')" "rb_ready E loc V st"
    and "set (row # rows) \<subseteq> set (db_shards (rs_db st))" "shard_key row \<notin> shard_key ` set rows" "sr_file row = f"
    and "\<And>n a. (n, a) \<in> set ideal \<Longrightarrow> a = loc n \<and> n \<in> nr_id ` set (db_nodes (rs_db st))"
  shows "\<exists>b1 st1. (rebalance_rows E (mesh E) V f ideal rows b1 st1 = Done (res, st') \<or> st' = st1)
    \<and> only_moves (holds E) E loc (fst ` set ideal) st st1 \<and> located loc (rv_parse_addr V) (rs_registry st1) (rs_db st)
    \<and> set rows \<subseteq> set (db_shards (rs_db st1))"
proof -
  have ne: "ideal \<noteq> []" using assms(2) by auto
  obtain nid a where x: "ideal ! (as_usize (sr_index row) mod length ideal) = (nid, a)" by fastforce
  then have i: "(nid, a) \<in> set ideal" using ne by (metis length_greater_0_conv mod_less_divisor nth_mem)
  note ia = assms(7)[OF i]
  have lc: "located loc (rv_parse_addr V) (rs_registry st) (rs_db st)" using assms(3) by (simp add: rb_ready_def)
  show ?thesis
  proof (cases "sr_node row = nid")
    case True
    then have "rebalance_rows E (mesh E) V f ideal rows b st = Done (res, st')" using assms(2) ne x by simp
    moreover have "only_moves (holds E) E loc (fst ` set ideal) st st" by (rule only_moves_same) simp_all
    ultimately show ?thesis using lc assms(4) by fastforce
  next
    case False
    obtain r st1 where mg: "migrate_shard E (mesh E) V f (sr_index row) a (sr_node row) (sr_hash row) st = Done (r, st1)"
      using assms(2) ne x False by (auto simp: bind_out_Done)
    note mk = migrate_keeps[OF assms(1) mg lc]
    show ?thesis
    proof (cases "\<exists>h. r = Ok h \<and> rv_fails V f (MoveRow (sr_index row)) = None")
      case False
      then have "rebalance_rows E (mesh E) V f ideal rows b st1 = Done (res, st') \<or> st' = st1"
        using assms(2) ne x \<open>sr_node row \<noteq> nid\<close> mg by (auto split: sum.splits option.splits)
      moreover have "only_moves (holds E) E loc (fst ` set ideal) st st1" by (rule only_moves_same[OF mk(1)]) (rule mk(3))
      ultimately show ?thesis using mk(1,2) assms(4) by fastforce
    next
      case True
      then obtain h where h: "r = Ok h" "rv_fails V f (MoveRow (sr_index row)) = None" by blast
      define st2 where "st2 = st1\<lparr>rs_db := move_row f (sr_index row) nid h (rs_db st1)\<rparr>"
      obtain oa st3 where lk: "lookup_addr V (rv_fails V f (CleanLookup (sr_index row)) = None) (sr_node row) st2 = (oa, st3)" by fastforce
      define st4 where "st4 = (case oa of Some addr \<Rightarrow> delete_old_shard E (mesh E) V addr (sr_hash row) st3 | None \<Rightarrow> st3)"
      have run: "rebalance_rows E (mesh E) V f ideal rows True st4 = Done (res, st')"
        using assms(2) ne x \<open>sr_node row \<noteq> nid\<close> mg h lk by (simp add: st2_def st4_def Let_def)
      have mv: "only_moves (holds E) E loc {nid} st st4" "located loc (rv_parse_addr V) (rs_registry st4) (rs_db st)"
        "db_shards (rs_db st4) = map (\<lambda>s. if shard_key s = shard_key row then s\<lparr>sr_node := nid, sr_hash := sr_hash row\<rparr> else s) (db_shards (rs_db st))"
        using move_one[OF assms(1,3), of row nid h st1 st2 _ oa st3 st4] assms(4,6) mg h ia \<open>sr_node row \<noteq> nid\<close> st2_def lk st4_def by auto
      have "s \<in> set (db_shards (rs_db st4))" if s: "s \<in> set rows" for s
      proof -
        have "shard_key s \<noteq> shard_key row" "s \<in> set (db_shards (rs_db st))" using s assms(4,5) by (metis imageI, auto)
        then show ?thesis unfolding mv(3) set_map by (intro image_eqI[of _ _ s]) simp_all
      qed
      moreover have "only_moves (holds E) E loc (fst ` set ideal) st st4"
        by (rule only_moves_mono[OF mv(1)]) (use i in \<open>force simp: image_iff\<close>)
      ultimately show ?thesis using run mv(2) by blast
    qed
  qed
qed

lemma rebalance_rows_keep:
  assumes "good E" "rebalance_rows E (mesh E) V f ideal rows b st = Done (res, st')" "rb_ready E loc V st"
    and "set rows \<subseteq> set (db_shards (rs_db st))" "distinct (map shard_key rows)" "\<And>r. r \<in> set rows \<Longrightarrow> sr_file r = f"
    and "\<And>n a. (n, a) \<in> set ideal \<Longrightarrow> a = loc n \<and> n \<in> nr_id ` set (db_nodes (rs_db st))"
  shows "only_moves (holds E) E loc (fst ` set ideal) st st' \<and> located loc (rv_parse_addr V) (rs_registry st') (rs_db st)"
  using assms(2-)
proof (induction rows arbitrary: b st)
  case Nil
  then show ?case by (auto simp: rb_ready_def intro!: only_moves_same)
next
  case (Cons row rows)
  obtain b1 st1 where s: "rebalance_rows E (mesh E) V f ideal rows b1 st1 = Done (res, st') \<or> st' = st1"
      "only_moves (holds E) E loc (fst ` set ideal) st st1" "located loc (rv_parse_addr V) (rs_registry st1) (rs_db st)"
      "set rows \<subseteq> set (db_shards (rs_db st1))"
    using rebalance_rows_step[OF assms(1) Cons.prems(1-3) _ _ Cons.prems(6)] Cons.prems(4,5) by auto
  have nd: "db_nodes (rs_db st1) = db_nodes (rs_db st)" using s(2) by (simp add: only_moves_def)
  have "fst ` set ideal \<subseteq> nr_id ` set (db_nodes (rs_db st))" using Cons.prems(6) by auto
  note ready = only_moves_ready[OF Cons.prems(2) s(2) this s(3)]
  show ?case
  proof (cases "st' = st1")
    case False
    then have "only_moves (holds E) E loc (fst ` set ideal) st1 st' \<and> located loc (rv_parse_addr V) (rs_registry st') (rs_db st1)"
      using Cons.IH[OF _ ready s(4)] s(1) Cons.prems(4-6) nd by auto
    then show ?thesis using only_moves_trans[OF s(2)] nd by (simp add: located_def)
  qed (use s in simp)
qed

lemma touch_keeps: "only_moves (holds E) E loc nodes st (st\<lparr>rs_db := touch_rows now f (rs_db st)\<rparr>)"
proof -
  have "rows_kept (holds E) E loc nodes w w rows (map (\<lambda>s. if sr_file s = f then s\<lparr>sr_checked := Some now\<rparr> else s) rows)" for w rows
    unfolding rows_kept_def list_all2_map2 by (rule list.rel_refl_strong) (simp add: shard_key_def row_held_def)
  then show ?thesis by (simp add: only_moves_def touch_rows_def)
qed

lemma rebalance_file_keep:
  assumes "good E" "rebalance_file E (mesh E) V f active st = Done (res, st')" "rb_ready E loc V st"
    and "\<And>n a. (n, a) \<in> set active \<Longrightarrow> a = loc n \<and> n \<in> nr_id ` set (db_nodes (rs_db st))"
  shows "only_moves (holds E) E loc (fst ` set active) st st' \<and> located loc (rv_parse_addr V) (rs_registry st') (rs_db st)"
proof -
  obtain q st1 where q: "file_info_with_key E V FileImages FileVideos f st = (q, st1)" by fastforce
  note fr = file_info_frame[OF q]
  have om1: "only_moves (holds E) E loc (fst ` set active) st st1" by (rule only_moves_same) (use fr in simp_all)
  have lc: "located loc (rv_parse_addr V) (rs_registry st) (rs_db st)" using assms(3) by (simp add: rb_ready_def)
  show ?thesis
  proof (cases "st' = st \<or> st' = st1")
    case True
    then show ?thesis using om1 fr lc only_moves_same[of st st "holds E"] by auto
  next
    case False
    then have db: "rv_fails V f FileConn = None" "rv_fails V f FileShards = None"
      using assms(2) by (auto simp: rebalance_file_def split: option.splits)
    from False obtain info where info: "q = Ok info" using assms(2) db q by (cases q) (auto simp: rebalance_file_def)
    obtain ds ps where dp: "(case info of Some (_, _, _, ds, ps) \<Rightarrow> (ds, ps) | None \<Rightarrow> (3, 2)) = (ds, ps)" by fastforce
    define ideal where "ideal = rendezvous_select E f active (min ((ds + ps) mod 2 ^ 64) (length active))"
    obtain r st2 where r: "rebalance_rows E (mesh E) V f ideal (shards_of (rs_db st) f) False st1 = Done (r, st2)"
        "st' = st2 \<or> st' = st2\<lparr>rs_db := touch_rows (rv_now V) f (rs_db st2)\<rparr>"
      using assms(2) db q info dp unfolding ideal_def
      by (auto simp: rebalance_file_def Let_def bind_out_Done sum.case_eq_if split: if_splits)
    have sub: "set ideal \<subseteq> set active" unfolding ideal_def by (rule rendezvous_subset)
    have ok: "db_ok (rs_db st)" using assms(3) by (simp add: rb_ready_def)
    have rows: "set (shards_of (rs_db st) f) \<subseteq> set (db_shards (rs_db st1))" "distinct (map shard_key (shards_of (rs_db st) f))"
      "\<And>s. s \<in> set (shards_of (rs_db st) f) \<Longrightarrow> sr_file s = f"
      using fr shards_of_placement(1)[OF ok, of _ f] shards_of_keys[OF ok] by (simp_all add: subset_eq)
    have ready: "rb_ready E loc V st1" using assms(3) fr by (simp add: rb_ready_def)
    have ideal: "\<And>n a. (n, a) \<in> set ideal \<Longrightarrow> a = loc n \<and> n \<in> nr_id ` set (db_nodes (rs_db st1))"
      using sub assms(4) fr by auto
    note k = rebalance_rows_keep[OF assms(1) r(1) ready rows ideal]
    have "only_moves (holds E) E loc (fst ` set active) st st2 \<and> located loc (rv_parse_addr V) (rs_registry st2) (rs_db st)"
      using only_moves_trans[OF om1 only_moves_mono[OF k[THEN conjunct1] image_mono[OF sub]]] k fr by simp
    then show ?thesis using r(2) only_moves_trans[OF _ touch_keeps] by auto
  qed
qed

lemma rebalance_files_keep:
  assumes "good E" "rebalance_files E (mesh E) V active fs st = Done st'" "rb_ready E loc V st"
    and "\<And>n a. (n, a) \<in> set active \<Longrightarrow> a = loc n \<and> n \<in> nr_id ` set (db_nodes (rs_db st))"
  shows "only_moves (holds E) E loc (fst ` set active) st st' \<and> located loc (rv_parse_addr V) (rs_registry st') (rs_db st)"
  using assms(2-)
proof (induction fs arbitrary: st)
  case Nil
  then show ?case by (auto simp: rb_ready_def intro!: only_moves_same)
next
  case (Cons f fs)
  obtain r st1 where r: "rebalance_file E (mesh E) V f active st = Done (r, st1)" "rebalance_files E (mesh E) V active fs st1 = Done st'"
    using Cons.prems(1) by (auto simp: bind_out_Done)
  note k = rebalance_file_keep[OF assms(1) r(1) Cons.prems(2,3)]
  have nd: "db_nodes (rs_db st1) = db_nodes (rs_db st)" using k by (simp add: only_moves_def)
  have "fst ` set active \<subseteq> nr_id ` set (db_nodes (rs_db st))" using Cons.prems(3) by auto
  then have "rb_ready E loc V st1" using only_moves_ready[OF Cons.prems(2)] k by blast
  then have "only_moves (holds E) E loc (fst ` set active) st1 st' \<and> located loc (rv_parse_addr V) (rs_registry st') (rs_db st1)"
    using Cons.IH[OF r(2)] Cons.prems(3) nd by simp
  then show ?case using only_moves_trans k nd by (auto simp: located_def)
qed

end

section \<open>Registering nodes\<close>

lemma register_peers_invariant:
  assumes "register_peers fails sh now k ns db = (res, db')" "P db" "\<And>nid a d. (nid, a) \<in> set ns \<Longrightarrow> P d \<Longrightarrow> P (upsert_node now nid (sh a) d)"
  shows "P db'"
  using assms
proof (induction fails sh now k ns db rule: register_peers.induct)
  case (2 fails sh now k nid addr ns db)
  then show ?case by (auto split: option.splits)
qed simp

lemma ensure_peers_media:
  assumes "ensure_peers_registered fails sh now ns db = (res, db')"
  shows "same_media db db'"
proof -
  obtain q db1 where q: "register_peers fails sh now 1 ns db = (q, db1)" by fastforce
  have "same_media db db1"
    by (rule register_peers_invariant[OF q, of "same_media db"]) (simp_all add: same_media_upsert_node)
  then show ?thesis using assms q by (auto simp: ensure_peers_registered_def same_media_def split: option.splits sum.splits)
qed

text \<open>What holds of the tables while peers are entered: constraints, locations, and where the ids come from.\<close>

definition entered :: "(string \<Rightarrow> sock_addr) \<Rightarrow> (string \<Rightarrow> sock_addr option) \<Rightarrow> registry \<Rightarrow> db \<Rightarrow> db \<Rightarrow> bool" where
  "entered loc pa r db0 db \<longleftrightarrow> db_ok db \<and> same_media db0 db \<and> located loc pa r db
     \<and> nr_id ` set (db_nodes db) \<subseteq> nr_id ` set (db_nodes db0) \<union> fst ` set (rg_peers r)"

lemma upsert_node_rows_entry: "n \<in> set (upsert_node_rows now nid addr ns) \<Longrightarrow> n \<in> set ns \<or> (nr_id n = nid \<and> nr_addr n = addr)"
  by (induction ns) (auto split: if_splits)

lemma entered_upsert:
  assumes "entered loc pa r db0 db" "pa addr = None \<or> pa addr = Some (loc nid)" "nid \<in> fst ` set (rg_peers r)"
  shows "entered loc pa r db0 (upsert_node now nid addr db)"
proof -
  have "located loc pa r (upsert_node now nid addr db)"
    using assms(1,2) upsert_node_rows_entry[of _ now nid addr "db_nodes db"]
    by (fastforce simp: entered_def located_def upsert_node_def)
  then show ?thesis
    using assms(1,3) unfolding entered_def same_media_upsert_node upsert_node_ids by (auto simp: upsert_node_db_ok)
qed

lemma ensure_peers_entered:
  assumes "ensure_peers_registered fails sh now ns db = (res, db')" "db_ok db" "located loc pa r db"
    and "\<And>nid a. (nid, a) \<in> set ns \<Longrightarrow> (pa (sh a) = None \<or> pa (sh a) = Some (loc nid)) \<and> nid \<in> fst ` set (rg_peers r)"
  shows "entered loc pa r db db'"
proof -
  obtain q db1 where q: "register_peers fails sh now 1 ns db = (q, db1)" by fastforce
  have e0: "entered loc pa r db db" using assms(2,3) by (simp add: entered_def)
  have e1: "entered loc pa r db db1"
    by (rule register_peers_invariant[OF q, of "entered loc pa r db", OF e0]) (use assms(4) entered_upsert in blast)
  have e2: "entered loc pa r db (db1\<lparr>db_nodes := map f (db_nodes db1)\<rparr>)" if f: "\<And>n. nr_id (f n) = nr_id n \<and> nr_addr (f n) = nr_addr n" for f
    using e1 f by (simp add: entered_def db_ok_def same_media_def located_def o_def image_image)
  have "entered loc pa r db (db1\<lparr>db_nodes := map (\<lambda>n. if nr_last_seen n < t then n\<lparr>nr_active := False\<rparr> else n) (db_nodes db1)\<rparr>)" for t
    by (rule e2) simp
  then show ?thesis
    using assms(1) q e0 e1 by (auto simp: ensure_peers_registered_def split: option.splits sum.splits)
qed

lemma enter_nodes_located:
  "located loc pa r db \<Longrightarrow> set ns \<subseteq> set (db_nodes db) \<Longrightarrow> located loc pa (enter_nodes pa clock ns r) db"
proof (induction pa clock ns r rule: enter_nodes.induct)
  case (2 pa clock n ns r)
  have "located loc pa (case pa (nr_addr n) of Some addr \<Rightarrow> upsert clock r (nr_id n) addr | None \<Rightarrow> r) db"
  proof (cases "pa (nr_addr n)")
    case (Some a)
    then have "a = loc (nr_id n)" using 2(2,3) by (auto simp: located_def)
    then show ?thesis using Some located_upsert[OF 2(2)] by simp
  qed (use 2 in simp)
  then show ?case using 2 by simp
qed simp

lemma sync_located: "located loc pa r db \<Longrightarrow> located loc pa (sync_db_nodes_to_registry b pa clock db r) db"
  by (auto simp: sync_db_nodes_to_registry_def intro!: enter_nodes_located)

lemma active_nodes_entry:
  assumes "(n, a) \<in> set (active_nodes_of pa now db)" "located loc pa r db"
  shows "a = loc n \<and> n \<in> nr_id ` set (db_nodes db)"
  using assms by (auto simp: active_nodes_of_def List.map_filter_def located_def)

context shard_mesh
begin

lemma cycle_keep:
  assumes "good E" "rebalance_cycle E (mesh E) W active st = (Done (res, st'), b)"
    and "db_ok (rs_db st)" "distinct_hashes E (rs_db st)" "located loc (rv_parse_addr (cv_file W)) (rs_registry st) (rs_db st)"
    and "inj_on loc (nr_id ` set (db_nodes (rs_db st)) \<union> fst ` set (rg_peers (rs_registry st)))"
    and "\<And>a. rv_parse_addr (cv_file W) (ue_show_addr (rv_up (cv_file W)) a) \<in> {None, Some a}"
  shows "db_ok (rs_db st') \<and> db_images (rs_db st') = db_images (rs_db st) \<and> db_videos (rs_db st') = db_videos (rs_db st)
    \<and> rows_kept (holds E) E loc (nr_id ` set (db_nodes (rs_db st'))) (rs_mesh st) (rs_mesh st') (db_shards (rs_db st)) (db_shards (rs_db st'))"
proof (cases active)
  case True
  then have "st' = st" using assms(2) by (simp add: rebalance_cycle_def)
  then show ?thesis using assms(3) by (auto intro: rows_kept_same)
next
  case False
  let ?V = "cv_file W" and ?r = "rs_registry st"
  let ?ns = "map (\<lambda>p. (pi_node_id p, pi_addr p)) (all_peers ?r)"
  obtain q db where q: "ensure_peers_registered (cv_peer_fails W) (ue_show_addr (rv_up ?V)) (rv_now ?V) ?ns (rs_db st) = (q, db)" by fastforce
  have "a = loc nid \<and> nid \<in> fst ` set (rg_peers ?r)" if ns: "(nid, a) \<in> set ?ns" for nid a
  proof -
    obtain k p where "(k, p) \<in> set (rg_peers ?r)" "nid = pi_node_id p" "a = pi_addr p" using ns by (auto simp: all_peers_def)
    moreover from this(1) have "pi_node_id p = k \<and> pi_addr p = loc k" using assms(5) by (auto simp: located_def)
    ultimately show ?thesis by (metis fst_conv imageI)
  qed
  then have en: "entered loc (rv_parse_addr ?V) ?r (rs_db st) db"
    using ensure_peers_entered[OF q assms(3,5)] assms(7) by blast
  define st1 where "st1 = st\<lparr>rs_db := db, rs_registry := sync_db_nodes_to_registry (cv_sync_answers W) (rv_parse_addr ?V) (rv_clock ?V) db ?r\<rparr>"
  define act where "act = active_nodes_of (rv_parse_addr ?V) (rv_now ?V) db"
  have same: "db_images db = db_images (rs_db st)" "db_videos db = db_videos (rs_db st)" "db_shards db = db_shards (rs_db st)"
    using en by (simp_all add: entered_def same_media_def)
  have inner: "rebalance_cycle_inner E (mesh E) W st = Done (res, st')"
    using assms(2) False by (auto simp: rebalance_cycle_def split: outcome.splits)
  then consider "st' = st\<lparr>rs_db := db\<rparr>" | "st' = st1"
    | files where "rebalance_files E (mesh E) ?V act files st1 = Done st'"
    using q unfolding st1_def act_def
    by (auto simp: rebalance_cycle_inner_def Let_def bind_out_Done split: sum.splits option.splits if_splits)
  then show ?thesis
  proof cases
    case 3
    have ready: "rb_ready E loc ?V st1"
      using en assms(4,6) same sync_located[of loc "rv_parse_addr ?V" ?r db]
      by (auto simp: rb_ready_def st1_def entered_def distinct_hashes_def intro: inj_on_subset)
    have act: "\<And>n a. (n, a) \<in> set act \<Longrightarrow> a = loc n \<and> n \<in> nr_id ` set (db_nodes (rs_db st1))"
      using active_nodes_entry[of _ _ "rv_parse_addr ?V" "rv_now ?V" db loc ?r] en by (auto simp: act_def st1_def entered_def)
    then have sub: "fst ` set act \<subseteq> nr_id ` set (db_nodes (rs_db st1))" by auto
    note k = rebalance_files_keep[OF assms(1) 3 ready act]
    have "rb_ready E loc ?V st'" using only_moves_ready[OF ready _ sub] k by blast
    then show ?thesis
      using only_moves_mono[OF k[THEN conjunct1] sub] same by (simp add: only_moves_def rb_ready_def st1_def)
  qed (use en same rows_kept_same in \<open>simp_all add: entered_def st1_def\<close>)
qed

end

section \<open>A mesh of storage nodes\<close>

text \<open>Which node lives at an address under which id, when it can be reached, and the handler context, salt and
  sending outcomes of the \<open>n\<close>-th stream.\<close>

record mesh_params =
  mp_node :: "sock_addr \<Rightarrow> node"
  mp_id :: "sock_addr \<Rightarrow> string"
  mp_up :: "sock_addr \<Rightarrow> nat \<Rightarrow> bool"
  mp_ctx :: "sock_addr \<Rightarrow> nat \<Rightarrow> hctx"
  mp_salt :: "nat \<Rightarrow> bytes"
  mp_tx :: "sock_addr \<Rightarrow> nat \<Rightarrow> msg \<Rightarrow> string + unit"

record mesh_state =
  mw_disk :: "sock_addr \<Rightarrow> disk"
  mw_tick :: nat

definition node_mesh :: "mesh_params \<Rightarrow> ext \<Rightarrow> mesh_state mesh" where
  "node_mesh P E =
     \<lparr>mh_dial = (\<lambda>w a nid.
        if mp_id P a = nid \<and> mp_up P a (mw_tick w)
        then Ok ((node_conn E (mp_node P a) (mp_ctx P a (mw_tick w)) (mp_salt P (mw_tick w)) (mw_disk w a))\<lparr>pc_tx := mp_tx P a (mw_tick w)\<rparr>)
        else Err ''connection failed''),
      mh_run = (\<lambda>w a ms. case ms of [] \<Rightarrow> w | m # rest \<Rightarrow>
        \<lparr>mw_disk = (mw_disk w)(a := snd (handle_stream E (mp_node P a) (mp_ctx P a (mw_tick w)) (mp_salt P (mw_tick w)) (mw_disk w a)
             (Received (Ok m)) (stream_of rest))),
         mw_tick = Suc (mw_tick w)\<rparr>)\<rparr>"

definition mesh_holds :: "ext \<Rightarrow> mesh_state \<Rightarrow> sock_addr \<Rightarrow> bytes \<Rightarrow> bool" where
  "mesh_holds E w a h \<longleftrightarrow> shard_at E (mw_disk w a) h \<noteq> None"

lemma frame_keeps:
  assumes "hex_ok E" "is_temp (up_temp up)" "stream_frame E x d up f = (out, r, d')" "shard_at E d h \<noteq> None"
  shows "shard_at E d' h \<noteq> None"
proof (cases r)
  case (Inr up')
  then obtain data where "store_stream_chunk (hx_io x) d (up_temp up) data = (Ok (), d')"
    using stream_frame_Continue[of E x d up f out up' d'] assms(3) by blast
  then show ?thesis using disk.grow_view[OF assms(1,2)] assms(4) by metis
next
  case (Inl u)
  show ?thesis
    using stream_frame_End[OF assms(3)[unfolded Inl]]
  proof (elim disjE exE conjE)
    fix q assume "finalize_stream_temp E (hx_io x) d (up_temp up) (blake3 E (up_hashed up)) = (q, d')"
    from disk.commit_atomic[OF assms(1,2) this] show ?thesis using assms(4) by auto
  next
    fix d1 assume "d' = remove_quietly (hx_io x) d1 (up_temp up)" "d1 = d"
    then show ?thesis using disk.discard_view[OF assms(1,2)] assms(4) by simp
  next
    fix d1 data q assume "d' = remove_quietly (hx_io x) d1 (up_temp up)" "store_stream_chunk (hx_io x) d (up_temp up) data = (q, d1)"
    then show ?thesis using disk.discard_view[OF assms(1,2)] disk.grow_view[OF assms(1,2)] assms(4) by simp
  qed
qed

lemma frame_same_temp: "stream_frame E x d up f = (out, Inr up', d') \<Longrightarrow> up_temp up' = up_temp up"
  using stream_frame_Continue by fastforce

lemma stream_loop_keeps:
  assumes "hex_ok E" "stream_loop E x d up fs = (res, d')" "is_temp (up_temp up)" "shard_at E d h \<noteq> None"
  shows "shard_at E d' h \<noteq> None"
  using assms(2-)
proof (induction fs arbitrary: d up res)
  case Nil
  then show ?case using frame_keeps[OF assms(1) Nil(2) _ Nil(3)] by (auto split: prod.splits)
next
  case (Cons f fs)
  obtain o1 r1 d1 where s: "stream_frame E x d up f = (o1, r1, d1)" by (metis prod_cases3)
  note k = frame_keeps[OF assms(1) Cons.prems(2) s Cons.prems(3)]
  show ?case
  proof (cases r1)
    case (Inr up1)
    then obtain res1 where "stream_loop E x d1 up1 fs = (res1, d')" using Cons.prems(1) s by (auto split: prod.splits)
    then show ?thesis using Cons.IH k Cons.prems(2) frame_same_temp s Inr by metis
  qed (use Cons.prems(1) s k in simp)
qed

lemma final_frame_stored:
  assumes "hex_ok E" "is_temp (up_temp up)" "stream_frame E x d up (Received (Ok (StoreShardStreamFinal h))) = (out, r, d')"
    and "StoreShardStreamResponse True n \<in> set out"
  shows "shard_at E d' h \<noteq> None"
proof -
  obtain ok d1 where o: "(if blake3 E (up_hashed up) = h then (case finalize_stream_temp E (hx_io x) d (up_temp up) h of (r, d1) \<Rightarrow> (is_ok r, d1))
      else (False, remove_quietly (hx_io x) d (up_temp up))) = (ok, d1)" by fastforce
  obtain ms q where s: "send_seq (hx_tx x) [response x ok] = (ms, q)" by fastforce
  have "d' = d1" "out = ms" using assms(3) o s by (simp_all add: stream_frame_def Let_def del: send_seq.simps)
  then have "ok" using send_seq_subset[OF s] assms(4) by (auto simp: response_def)
  then obtain q2 where "finalize_stream_temp E (hx_io x) d (up_temp up) h = (q2, d1)" "is_ok q2"
    using o by (auto split: if_splits prod.splits)
  then show ?thesis using disk.commit_atomic[OF assms(1,2)] \<open>d' = d1\<close> by fastforce
qed

lemma chunk_frame_silent: "stream_frame E x d up (Received (Ok (StoreShardChunk v))) = (out, r, d') \<Longrightarrow> StoreShardStreamResponse True n \<notin> set out"
  by (auto simp: stream_frame_def Let_def send_quiet_def response_def split: if_splits sum.splits prod.splits)

lemma stream_loop_stored:
  assumes "hex_ok E" "is_temp (up_temp up)" "StoreShardStreamResponse True n \<in> set out"
    and "stream_loop E x d up (stream_of (map StoreShardChunk cs @ [StoreShardStreamFinal h])) = ((out, r), d')"
  shows "shard_at E d' h \<noteq> None"
  using assms(2-)
proof (induction cs arbitrary: d up out)
  case Nil
  obtain o1 r1 d1 where s: "stream_frame E x d up (Received (Ok (StoreShardStreamFinal h))) = (o1, r1, d1)" by (metis prod_cases3)
  moreover have "\<not> (\<exists>u. r1 = Inr u)" using stream_frame_Continue s by fastforce
  ultimately have "o1 = out \<and> d1 = d'" using Nil.prems(3) by (cases r1) (auto simp: stream_of_def)
  then show ?case using final_frame_stored[OF assms(1) Nil(1)] s Nil.prems(2) by blast
next
  case (Cons c cs)
  obtain o1 r1 d1 where s: "stream_frame E x d up (Received (Ok (StoreShardChunk c))) = (o1, r1, d1)" by (metis prod_cases3)
  note silent = chunk_frame_silent[OF s]
  obtain up1 where r1: "r1 = Inr up1" using Cons.prems(2,3) s silent by (cases r1) (auto simp: stream_of_def)
  then obtain o2 where "stream_loop E x d1 up1 (stream_of (map StoreShardChunk cs @ [StoreShardStreamFinal h])) = ((o2, r), d')" "out = o1 @ o2"
    using Cons.prems(3) s by (auto simp: stream_of_def split: prod.splits)
  then show ?case using Cons.IH Cons.prems(1,2) silent frame_same_temp s r1 by (metis Un_iff set_append)
qed

lemma handle_stream_keeps:
  assumes "hex_ok E" "shard_at E d h \<noteq> None" "\<And>t. m \<noteq> DeleteShardRequest h t"
  shows "shard_at E (snd (handle_stream E nd x salt d (Received (Ok m)) fs)) h \<noteq> None"
proof (cases "\<exists>fh i n c t. m = StoreShardStreamInit fh i n c t")
  case True
  then obtain fh i n c t where m: "m = StoreShardStreamInit fh i n c t" by blast
  obtain o1 r1 where s: "stream_init E nd x salt fh i n t = (o1, r1)" by fastforce
  show ?thesis
  proof (cases r1)
    case (Inr up)
    have "is_temp (up_temp up)"
      using s Inr temp_path_temp by (auto simp: stream_init_def Let_def send_quiet_def split: if_splits sum.splits prod.splits)
    moreover obtain res d' where l: "stream_loop E x d up fs = (res, d')" by fastforce
    ultimately have "shard_at E d' h \<noteq> None" using stream_loop_keeps[OF assms(1) l] assms(2) by blast
    then show ?thesis using m s Inr l by (simp add: handle_stream_def split: prod.splits)
  qed (use m s assms(2) in \<open>simp add: handle_stream_def\<close>)
next
  case False
  obtain res d' where h: "handle_message E nd x d m = (res, d')" by fastforce
  have "handle_stream E nd x salt d (Received (Ok m)) fs = (res, d')" using False h by (cases m) (auto simp: handle_stream_def)
  moreover have "shard_at E d' h \<noteq> None"
    using handle_message_disk[OF h] assms(2,3) disk.put_atomic[OF assms(1)] disk.del_atomic[OF assms(1)] pinned_view by fastforce
  ultimately show ?thesis by simp
qed

lemma store_request_accepted:
  assumes "handle_message E nd x d (StoreShardRequest h v t) = ((out, r), d')" "StoreShardResponse h' True n \<in> set out"
  shows "\<exists>q. store E (hx_io x) d h v = (q, d') \<and> is_ok q"
proof -
  obtain ok d1 where o: "(if blake3 E v \<noteq> h then (False, d) else if authorized E nd x t OpStore h
      then (case store E (hx_io x) d h v of (r, d') \<Rightarrow> (is_ok r, d')) else (False, d)) = (ok, d1)" by fastforce
  obtain ms q where s: "send_seq (hx_tx x) [StoreShardResponse h ok (available_space (hx_io x))] = (ms, q)" by fastforce
  have "d' = d1" "out = ms" using assms(1) o s by (simp_all add: Let_def del: send_seq.simps)
  then have "ok" using send_seq_subset[OF s] assms(2) by auto
  then show ?thesis using o \<open>d' = d1\<close> by (auto split: if_splits prod.splits)
qed

interpretation storage_mesh: shard_mesh hex_ok "node_mesh P" mesh_holds for P
proof (unfold_locales, goal_cases)
  case (2 E w b h a ms)
  show ?case
  proof (cases "ms = [] \<or> b \<noteq> a")
    case True
    then show ?thesis using 2(2) by (auto simp: mesh_holds_def node_mesh_def split: list.splits)
  next
    case False
    then obtain m rest where m: "ms = m # rest" "b = a" by (cases ms) auto
    have "\<And>t. m \<noteq> DeleteShardRequest h t" using 2(3) m by auto
    then show ?thesis using handle_stream_keeps[OF 2(1), of "mw_disk w a" h m] 2(2) m by (simp add: mesh_holds_def node_mesh_def)
  qed
next
  case (3 E w a nid C h' n h v t)
  let ?nd = "mp_node P a" and ?x = "mp_ctx P a (mw_tick w)"
  obtain out r d' where hm: "handle_message E ?nd ?x (mw_disk w a) (StoreShardRequest h v t) = ((out, r), d')" by (metis prod_cases3 surj_pair)
  have C: "pc_replies C [StoreShardRequest h v t] = map Inr out"
    using 3(2) hm by (auto simp: node_mesh_def node_conn_def handle_stream_def stream_of_def split: if_splits)
  then have "StoreShardResponse h' True n \<in> set out" using 3(3) by auto
  then have "\<exists>q. store E (hx_io ?x) (mw_disk w a) h v = (q, d') \<and> is_ok q"
    using store_request_accepted[OF hm] by blast
  then have "shard_at E d' h \<noteq> None" using disk.put_atomic[OF 3(1)] by fastforce
  then show ?case using hm by (simp add: mesh_holds_def node_mesh_def handle_stream_def)
next
  case (4 E w a nid C n fh i tb sc t cs h)
  let ?nd = "mp_node P a" and ?x = "mp_ctx P a (mw_tick w)" and ?salt = "mp_salt P (mw_tick w)"
  let ?fs = "stream_of (map StoreShardChunk cs @ [StoreShardStreamFinal h])"
  obtain out r d' where hs: "handle_stream E ?nd ?x ?salt (mw_disk w a) (Received (Ok (StoreShardStreamInit fh i tb sc t))) ?fs = ((out, r), d')"
    by (metis prod_cases3 surj_pair)
  have "StoreShardStreamResponse True n \<in> set out"
    using 4(2,3) hs by (auto simp: node_mesh_def node_conn_def split: if_splits)
  moreover obtain o1 r1 where s: "stream_init E ?nd ?x ?salt fh i tb t = (o1, r1)" by fastforce
  moreover have quiet: "StoreShardStreamResponse True n \<notin> set o1" "\<And>up. r1 = Inr up \<Longrightarrow> is_temp (up_temp up)"
    using s temp_path_temp by (auto simp: stream_init_def Let_def send_quiet_def split: if_splits sum.splits prod.splits)
  ultimately obtain up o2 where "r1 = Inr up" "stream_loop E ?x (mw_disk w a) up ?fs = ((o2, r), d')" "StoreShardStreamResponse True n \<in> set o2"
    using hs by (cases r1) (auto simp: handle_stream_def split: prod.splits)
  then have "shard_at E d' h \<noteq> None" using stream_loop_stored[OF 4(1)] quiet(2) by blast
  then show ?case using hs by (simp add: mesh_holds_def node_mesh_def)
qed simp

section \<open>No shard is lost\<close>

text \<open>C9. A rebalancing cycle never loses a shard.  For every mesh of storage nodes, whatever fails on the way
  (database calls, connections, node disks, lost replies), as long as no two catalogued shards have
  one hash and different node ids are at different addresses: afterwards the catalog lists exactly the
  same shards with the same hashes, the media tables are untouched and the schema's constraints hold,
  a shard has at most moved to a registered node, and every shard that its catalogued node held before
  is held by its catalogued node after.\<close>

theorem rebalance_keeps_shards:
  assumes "hex_ok E" "rebalance_cycle E (node_mesh P E) W active st = (Done (res, st'), b)"
    and "db_ok (rs_db st)" "distinct_hashes E (rs_db st)" "located loc (rv_parse_addr (cv_file W)) (rs_registry st) (rs_db st)"
    and "inj_on loc (nr_id ` set (db_nodes (rs_db st)) \<union> fst ` set (rg_peers (rs_registry st)))"
    and "\<And>a. rv_parse_addr (cv_file W) (ue_show_addr (rv_up (cv_file W)) a) \<in> {None, Some a}"
  shows "db_ok (rs_db st') \<and> db_images (rs_db st') = db_images (rs_db st) \<and> db_videos (rs_db st') = db_videos (rs_db st)
    \<and> list_all2 (\<lambda>s s'. sr_file s' = sr_file s \<and> sr_index s' = sr_index s \<and> sr_hash s' = sr_hash s
         \<and> (sr_node s' = sr_node s \<or> sr_node s' \<in> nr_id ` set (db_nodes (rs_db st')))
         \<and> (row_held (mesh_holds E) E loc (rs_mesh st) s \<longrightarrow> row_held (mesh_holds E) E loc (rs_mesh st') s'))
       (db_shards (rs_db st)) (db_shards (rs_db st'))"
  using storage_mesh.cycle_keep[OF assms] by (simp add: rows_kept_def shard_key_def conj_assoc)

section \<open>A healthy move\<close>

text \<open>A node that can be reached, works, and accepts the worker's tokens.\<close>

definition healthy :: "ext \<Rightarrow> mesh_params \<Rightarrow> rb_env \<Rightarrow> sock_addr \<Rightarrow> bool" where
  "healthy E P V a \<longleftrightarrow> (\<forall>n. mp_up P a n \<and> quiet_ctx (mp_ctx P a n) \<and> (\<forall>m. mp_tx P a n m = Ok ())
     \<and> trusts E (mp_node P a) (mp_ctx P a n) (rv_up V) (rv_identity V))"

lemma dial_env_clock [simp]: "ue_clock (dial_env M V st) = ue_clock (rv_up V)"
  by (simp add: dial_env_def)

lemma healthy_connect:
  assumes "healthy E P V a" "find_by_addr (rs_registry st) a = Some (mp_id P a)"
  shows "ue_connect (dial_env (node_mesh P E) V st) a k n = Ok ((node_conn E (mp_node P a) (mp_ctx P a (mw_tick (rs_mesh st)))
      (mp_salt P (mw_tick (rs_mesh st))) (mw_disk (rs_mesh st) a))\<lparr>pc_tx := mp_tx P a (mw_tick (rs_mesh st))\<rparr>)"
  using assms by (simp add: dial_env_def node_mesh_def healthy_def)

text \<open>What one message does to a mesh of which only the node at \<open>a\<close> is addressed.\<close>

definition shards_set :: "ext \<Rightarrow> mesh_state \<Rightarrow> sock_addr \<Rightarrow> bytes \<Rightarrow> bytes option \<Rightarrow> mesh_state \<Rightarrow> bool" where
  "shards_set E w a h v w' \<longleftrightarrow> (\<forall>b. shard_at E (mw_disk w' b) = (if b = a then (shard_at E (mw_disk w a))(h := v) else shard_at E (mw_disk w b)))"

lemma healthy_upload:
  assumes "hex_ok E" "ed25519_ok E" "healthy E P V a" "find_by_addr (rs_registry st) a = Some (mp_id P a)"
    and "length data \<le> UPLOAD_STREAM_THRESHOLD"
  shows "\<exists>w. upload_shard_to_node E (node_mesh P E) V a data st = (Ok (hex_encode E (blake3 E data)), st\<lparr>rs_mesh := w\<rparr>)
    \<and> shards_set E (rs_mesh st) a (blake3 E data) (Some data) w"
proof -
  let ?h = "blake3 E data" and ?w = "rs_mesh st"
  let ?x = "mp_ctx P a (mw_tick ?w)" and ?nd = "mp_node P a"
  let ?m = "StoreShardRequest ?h data (create_shard_token E (ue_clock (rv_up V)) (rv_identity V) OpStore ?h)"
  have q: "quiet_ctx ?x" "\<And>m. mp_tx P a (mw_tick ?w) m = Ok ()" using assms(3) by (auto simp: healthy_def)
  have auth: "authorized E ?nd ?x (create_shard_token E (ue_clock (rv_up V)) (rv_identity V) OpStore ?h) OpStore ?h"
    using trusts_authorized[OF assms(2)] assms(3) by (auto simp: healthy_def)
  obtain av where av: "\<And>op. io_fault (hx_io ?x) op = None" "io_avail (hx_io ?x) = Inr av" "104857600 \<le> av"
    using q(1) by (auto simp: quiet_ctx_def)
  obtain d' where d': "store E (hx_io ?x) (mw_disk ?w a) ?h data = (Ok (), d')"
    using store_succeeds[OF av(1,2), of E "mw_disk ?w a" ?h data] av(3) by (cases "store E (hx_io ?x) (mw_disk ?w a) ?h data") auto
  have hm: "handle_message E ?nd ?x (mw_disk ?w a) ?m = (([StoreShardResponse ?h True (available_space (hx_io ?x))], Ok ()), d')"
    using auth d' by (simp add: quiet_send_seq[OF q(1)] del: send_seq.simps)
  define w where "w = mh_run (node_mesh P E) ?w a [?m]"
  have "upload_shard_to_node E (node_mesh P E) V a data st = (Ok (hex_encode E ?h), st\<lparr>rs_mesh := w\<rparr>)"
    using assms(5) hm q(2)
    by (simp add: upload_shard_to_node_def upload_shard_to_node_inner_def healthy_connect[OF assms(3,4)] node_conn_io request_shard_def Let_def
        rx_def node_conn_def handle_stream_def stream_of_def after_stream_def w_def)
  moreover have "shards_set E ?w a ?h (Some data) w"
    using hm disk.put_atomic[OF assms(1) d'] by (simp add: shards_set_def w_def node_mesh_def handle_stream_def)
  ultimately show ?thesis by blast
qed

lemma healthy_delete:
  assumes "hex_ok E" "ed25519_ok E" "healthy E P V a" "find_by_addr (rs_registry st) a = Some (mp_id P a)" "length h = 32"
  shows "\<exists>w. delete_old_shard E (node_mesh P E) V a (hex_encode E h) st = st\<lparr>rs_mesh := w\<rparr> \<and> shards_set E (rs_mesh st) a h None w"
proof -
  let ?w = "rs_mesh st"
  let ?x = "mp_ctx P a (mw_tick ?w)" and ?nd = "mp_node P a"
  let ?m = "DeleteShardRequest h (create_shard_token E (ue_clock (rv_up V)) (rv_identity V) OpDelete h)"
  have q: "quiet_ctx ?x" "\<And>m. mp_tx P a (mw_tick ?w) m = Ok ()" using assms(3) by (auto simp: healthy_def)
  have auth: "authorized E ?nd ?x (create_shard_token E (ue_clock (rv_up V)) (rv_identity V) OpDelete h) OpDelete h"
    using trusts_authorized[OF assms(2)] assms(3) by (auto simp: healthy_def)
  obtain r d' where d': "delete_shard E (hx_io ?x) (mw_disk ?w a) h = (r, d')" by fastforce
  have "r = Ok ()" using d' q(1) by (auto simp: delete_shard_def quiet_ctx_def Let_def fs_simps split: option.splits if_splits)
  then have del: "shard_at E d' = (shard_at E (mw_disk ?w a))(h := None)" using disk.del_atomic[OF assms(1) d'] by auto
  define w where "w = mh_run (node_mesh P E) ?w a [?m]"
  have "delete_old_shard E (node_mesh P E) V a (hex_encode E h) st = st\<lparr>rs_mesh := w\<rparr>"
    using assms(5) q(2)
    by (simp add: delete_old_shard_def delete_sent_def hex_decode_encode[OF assms(1)] healthy_connect[OF assms(3,4)] node_conn_io
        after_stream_def w_def Let_def)
  moreover have "snd (handle_message E ?nd ?x (mw_disk ?w a) ?m) = d'" using auth d' by simp
  then have "shards_set E ?w a h None w" using del by (simp add: shards_set_def w_def node_mesh_def handle_stream_def)
  ultimately show ?thesis by blast
qed

text \<open>Where a moved shard ends up.  When old and new node work and the shard can be had, moving a row
  succeeds: the row names the new node, the old node no longer holds the shard, and the new node does
  exactly if the two nodes are at different addresses.  When the old id is still registered at the
  address of the new one, as after a node was set up afresh under a new key, the clean-up is sent to
  the node that just accepted the shard, and the only copy is gone.\<close>

theorem healthy_move:
  assumes "hex_ok E" "blake3_ok E" "ed25519_ok E" "healthy E P V a" "healthy E P V b" "\<And>c. rv_fails V f c = None"
    and "find_by_addr (rs_registry st) a = Some (mp_id P a)" "find_by_addr (rs_registry st) b = Some (mp_id P b)"
    and "get_peer (rs_registry st) (sr_node row) = Some peer" "pi_addr peer = b" "sr_node row \<noteq> nid"
    and "file_info_with_key E V (MoveImages (sr_index row)) (MoveVideos (sr_index row)) f st = (Ok info, st)"
    and "shard_for_migration E (node_mesh P E) V f (sr_index row) info (sr_node row) (sr_hash row) st = Done (Ok data, st)"
    and "sr_hash row = hex_encode E (blake3 E data)" "length data \<le> UPLOAD_STREAM_THRESHOLD"
  shows "\<exists>st'. rebalance_rows E (node_mesh P E) V f [(nid, a)] [row] m st = Done (Ok True, st')
    \<and> rs_db st' = move_row f (sr_index row) nid (sr_hash row) (rs_db st)
    \<and> \<not> mesh_holds E (rs_mesh st') b (blake3 E data)
    \<and> (mesh_holds E (rs_mesh st') a (blake3 E data) \<longleftrightarrow> a \<noteq> b)"
proof -
  let ?h = "blake3 E data" and ?M = "node_mesh P E" and ?i = "sr_index row"
  obtain w1 where w1: "upload_shard_to_node E ?M V a data st = (Ok (sr_hash row), st\<lparr>rs_mesh := w1\<rparr>)" "shards_set E (rs_mesh st) a ?h (Some data) w1"
    using healthy_upload[OF assms(1,3,4,7,15)] assms(14) by auto
  define st2 where "st2 = st\<lparr>rs_mesh := w1, rs_db := move_row f ?i nid (sr_hash row) (rs_db st)\<rparr>"
  have mg: "migrate_shard E ?M V f ?i a (sr_node row) (sr_hash row) st = Done (Ok (sr_hash row), st\<lparr>rs_mesh := w1\<rparr>)"
    using assms(6,12-14) w1(1) by (simp add: migrate_shard_def)
  have lk: "lookup_addr V True (sr_node row) st2 = (Some b, st2)"
    using assms(9,10) by (simp add: lookup_addr_def lookup_node_addr_def st2_def)
  obtain w2 where w2: "delete_old_shard E ?M V b (sr_hash row) st2 = st2\<lparr>rs_mesh := w2\<rparr>" "shards_set E (rs_mesh st2) b ?h None w2"
    using healthy_delete[OF assms(1,3,5), of st2 ?h] assms(8,14) blake3_len[OF assms(2)] by (auto simp: st2_def)
  have run: "rebalance_rows E ?M V f [(nid, a)] [row] m st = Done (Ok True, st2\<lparr>rs_mesh := w2\<rparr>)"
    using mg lk w2(1) assms(6,11) by (simp add: st2_def)
  have "shard_at E (mw_disk w2 b) ?h = None" "shard_at E (mw_disk w2 a) ?h = (if a = b then None else Some data)"
    using w1(2) w2(2) by (auto simp: shards_set_def st2_def)
  then have "\<not> mesh_holds E w2 b ?h" "mesh_holds E w2 a ?h \<longleftrightarrow> a \<noteq> b" by (simp_all add: mesh_holds_def)
  with run show ?thesis by (simp add: st2_def)
qed

section \<open>The sweep ends\<close>

text \<open>When each shard row was last looked at; moving rows leaves this alone.\<close>

definition stamps :: "db \<Rightarrow> ((string \<times> int) \<times> int option) list" where
  "stamps db = map (\<lambda>s. (shard_key s, sr_checked s)) (db_shards db)"

definition stamp_file :: "int \<Rightarrow> string \<Rightarrow> ((string \<times> int) \<times> int option) list \<Rightarrow> ((string \<times> int) \<times> int option) list" where
  "stamp_file now f = map (\<lambda>(k, c). if fst k = f then (k, Some now) else (k, c))"

lemma stamps_move [simp]: "stamps (move_row f i n h db) = stamps db"
  by (simp add: stamps_def move_row_def shard_key_def)

lemma stamps_touch [simp]: "stamps (touch_rows now f db) = stamp_file now f (stamps db)"
  by (simp add: stamps_def touch_rows_def stamp_file_def shard_key_def)

lemma migrate_db:
  assumes "migrate_shard E M V f i a n h st = Done (res, st')"
  shows "rs_db st' = rs_db st"
proof -
  have old: "retrieve_shard_from_old_node E M V b n h s = Done (r, s') \<Longrightarrow> rs_db s' = rs_db s" for b r and s s' :: "'a rb_state"
    using lookup_addr_frame[of V b n s] by (auto simp: retrieve_shard_from_old_node_def bind_out_Done split: prod.splits option.splits)
  have get: "shard_for_migration E M V f i info n h s = Done (r, s') \<Longrightarrow> rs_db s' = rs_db s" for info r and s s' :: "'a rb_state"
    using old by (auto simp: shard_for_migration_def Let_def bind_out_Done sum.case_eq_if split: option.splits prod.splits if_splits)
  show ?thesis
  proof (cases "rv_fails V f (MoveConn i)")
    case (Some e)
    then show ?thesis using assms by (simp add: migrate_shard_def)
  next
    case None
    obtain q st1 where q: "file_info_with_key E V (MoveImages i) (MoveVideos i) f st = (q, st1)" by fastforce
    show ?thesis
    proof (cases q)
      case (Inl e)
      then show ?thesis using assms None q file_info_frame[OF q] by (simp add: migrate_shard_def)
    next
      case (Inr info)
      then obtain r st2 where r: "shard_for_migration E M V f i info n h st1 = Done (r, st2)"
        using assms None q by (auto simp: migrate_shard_def bind_out_Done)
      then have "rs_db st2 = rs_db st" using get file_info_frame[OF q] by metis
      moreover have "st' = st2 \<or> (\<exists>data up. upload_shard_to_node E M V a data st2 = (up, st'))"
        using assms None q Inr r by (auto simp: migrate_shard_def Let_def split: sum.splits if_splits prod.splits)
      ultimately show ?thesis using upload_node_frame by metis
    qed
  qed
qed

text \<open>What the sweep's termination rests on: stamps and media rows.\<close>

definition same_stamps :: "db \<Rightarrow> db \<Rightarrow> bool" where
  "same_stamps db db' \<longleftrightarrow> stamps db' = stamps db \<and> db_images db' = db_images db \<and> db_videos db' = db_videos db"

lemma same_stamps_trans: "same_stamps a b \<Longrightarrow> same_stamps b c \<Longrightarrow> same_stamps a c"
  by (simp add: same_stamps_def)

lemma same_stamps_move: "same_stamps db (move_row f i n h db)"
  by (simp add: same_stamps_def) (simp add: move_row_def)

lemma rebalance_rows_stamps:
  "rebalance_rows E M V f ideal rows b st = Done (res, st') \<Longrightarrow> (\<And>c. rv_fails V f c = None) \<Longrightarrow>
     same_stamps (rs_db st) (rs_db st') \<and> is_ok res"
proof (induction rows arbitrary: b st)
  case Nil
  then show ?case by (auto simp: same_stamps_def)
next
  case (Cons row rows)
  have ne: "ideal \<noteq> []" using Cons.prems(1) by auto
  obtain nid a where x: "ideal ! (as_usize (sr_index row) mod length ideal) = (nid, a)" by fastforce
  have go: ?case if "rebalance_rows E M V f ideal rows b1 st1 = Done (res, st')" "same_stamps (rs_db st) (rs_db st1)" for b1 st1
    using Cons.IH[OF that(1) Cons.prems(2)] same_stamps_trans[OF that(2)] by blast
  show ?case
  proof (cases "sr_node row = nid")
    case True
    then show ?thesis using go[of b st] Cons.prems(1) ne x by (simp add: same_stamps_def)
  next
    case False
    obtain r st1 where mg: "migrate_shard E M V f (sr_index row) a (sr_node row) (sr_hash row) st = Done (r, st1)"
      using Cons.prems(1) ne x False by (auto simp: bind_out_Done)
    note db = migrate_db[OF mg]
    show ?thesis
    proof (cases r)
      case (Inl e)
      then show ?thesis using go[of b st1] Cons.prems(1) ne x False mg db by (simp add: same_stamps_def)
    next
      case (Inr h)
      define st2 where "st2 = st1\<lparr>rs_db := move_row f (sr_index row) nid h (rs_db st1)\<rparr>"
      obtain oa st3 where lk: "lookup_addr V True (sr_node row) st2 = (oa, st3)" by fastforce
      define st4 where "st4 = (case oa of Some addr \<Rightarrow> delete_old_shard E M V addr (sr_hash row) st3 | None \<Rightarrow> st3)"
      have "rebalance_rows E M V f ideal rows True st4 = Done (res, st')"
        using Cons.prems ne x False mg Inr lk by (simp add: st2_def st4_def Let_def)
      moreover have "same_stamps (rs_db st) (rs_db st4)"
        using lookup_addr_frame[OF lk] db by (simp add: st4_def st2_def same_stamps_move split: option.splits)
      ultimately show ?thesis by (rule go)
    qed
  qed
qed

text \<open>A database that answers and keys that open, within one hour of \<open>t0\<close>.\<close>

definition sweep_ok :: "ext \<Rightarrow> int \<Rightarrow> cycle_env \<Rightarrow> db \<Rightarrow> bool" where
  "sweep_ok E t0 W db \<longleftrightarrow> (\<forall>f c. rv_fails (cv_file W) f c = None) \<and> t0 \<le> rv_now (cv_file W) \<and> rv_now (cv_file W) \<le> t0 + HOUR_MS
     \<and> (\<exists>key. rv_api_key (cv_file W) = Ok key
          \<and> (\<forall>m k cache. m \<in> set (db_images db) \<union> set (db_videos db) \<longrightarrow> mr_key m = Some k \<longrightarrow>
               is_ok (fst (decrypt_key E (rv_sha256 (cv_file W)) cache k key))))"

lemma sweep_file_info:
  assumes "sweep_ok E t0 W db" "db_images (rs_db st) = db_images db" "db_videos (rs_db st) = db_videos db"
    and "file_info_with_key E (cv_file W) c1 c2 f st = (q, st1)"
  shows "is_ok q"
proof -
  obtain key where key: "rv_api_key (cv_file W) = Ok key"
    and dec: "\<And>m k cache. m \<in> set (db_images db) \<union> set (db_videos db) \<Longrightarrow> mr_key m = Some k \<Longrightarrow>
               is_ok (fst (decrypt_key E (rv_sha256 (cv_file W)) cache k key))"
    using assms(1) unfolding sweep_ok_def by blast
  have row: "is_ok (fst (info_of_row E (rv_sha256 (cv_file W)) cache key m))" if "m \<in> set (db_images db) \<union> set (db_videos db)" for m cache
  proof (cases "mr_key m")
    case (Some k)
    then have "is_ok (fst (decrypt_key E (rv_sha256 (cv_file W)) cache k key))" using dec that by blast
    then show ?thesis using Some by (auto simp: info_of_row_def Let_def split: prod.splits sum.splits)
  qed (simp add: info_of_row_def)
  have fails: "rv_fails (cv_file W) f c = None" for c using assms(1) by (simp add: sweep_ok_def)
  have "is_ok (fst (find_file_info E (rv_sha256 (cv_file W)) None None (rs_db st) (rs_cache st) f key))"
    using row assms(2,3) by (auto simp: find_file_info_def find_Some_iff split: option.splits)
  then show ?thesis using assms(4) key fails by (auto simp: file_info_with_key_def split: prod.splits)
qed

lemma rebalance_file_stamps:
  assumes "sweep_ok E t0 W db" "db_images (rs_db st) = db_images db" "db_videos (rs_db st) = db_videos db"
    and "rebalance_file E M (cv_file W) f active st = Done (res, st')"
  shows "stamps (rs_db st') = stamp_file (rv_now (cv_file W)) f (stamps (rs_db st))
    \<and> db_images (rs_db st') = db_images db \<and> db_videos (rs_db st') = db_videos db"
proof -
  let ?V = "cv_file W"
  have fails: "rv_fails ?V f c = None" for c using assms(1) by (simp add: sweep_ok_def)
  obtain q st1 where q: "file_info_with_key E ?V FileImages FileVideos f st = (q, st1)" by fastforce
  obtain info where info: "q = Ok info" using sweep_file_info[OF assms(1-3) q] by (cases q) auto
  obtain ds ps where dp: "(case info of Some (_, _, _, ds, ps) \<Rightarrow> (ds, ps) | None \<Rightarrow> (3, 2)) = (ds, ps)" by fastforce
  define ideal where "ideal = rendezvous_select E f active (min ((ds + ps) mod 2 ^ 64) (length active))"
  obtain r st2 where r: "rebalance_rows E M ?V f ideal (shards_of (rs_db st) f) False st1 = Done (r, st2)"
    using assms(4) q info dp fails unfolding ideal_def by (auto simp: rebalance_file_def Let_def bind_out_Done)
  then have ok: "is_ok r" "same_stamps (rs_db st) (rs_db st2)" using rebalance_rows_stamps[OF r fails] file_info_frame[OF q] by simp_all
  then obtain m where "r = Ok m" by (cases r) auto
  then have "st' = st2\<lparr>rs_db := touch_rows (rv_now ?V) f (rs_db st2)\<rparr>"
    using assms(4) q info dp fails r unfolding ideal_def by (simp add: rebalance_file_def Let_def)
  then show ?thesis using ok(2) assms(2,3) by (simp add: same_stamps_def) (simp add: touch_rows_def)
qed

lemma rebalance_files_stamps:
  assumes "sweep_ok E t0 W db" "db_images (rs_db st) = db_images db" "db_videos (rs_db st) = db_videos db"
    and "rebalance_files E M (cv_file W) active fs st = Done st'"
  shows "stamps (rs_db st') = fold (stamp_file (rv_now (cv_file W))) fs (stamps (rs_db st))
    \<and> db_images (rs_db st') = db_images db \<and> db_videos (rs_db st') = db_videos db"
  using assms(2-)
proof (induction fs arbitrary: st)
  case (Cons f fs)
  obtain r st1 where r: "rebalance_file E M (cv_file W) f active st = Done (r, st1)" "rebalance_files E M (cv_file W) active fs st1 = Done st'"
    using Cons.prems(3) by (auto simp: bind_out_Done)
  show ?case using rebalance_file_stamps[OF assms(1) Cons.prems(1,2) r(1)] Cons.IH[OF _ _ r(2)] by simp
qed simp

text \<open>The files that were never looked at, or not since \<open>t0\<close>: the measure of the sweep.\<close>

definition checks :: "((string \<times> int) \<times> int option) list \<Rightarrow> string \<Rightarrow> int option list" where
  "checks S f = map snd (filter (\<lambda>x. fst (fst x) = f) S)"

definition unseen :: "int \<Rightarrow> db \<Rightarrow> string \<Rightarrow> bool" where
  "unseen t0 db f = (case min_checked db f of None \<Rightarrow> True | Some t \<Rightarrow> t < t0)"

definition unseen_files :: "int \<Rightarrow> db \<Rightarrow> string list" where
  "unseen_files t0 db = filter (unseen t0 db) (files_of db)"

lemma min_checked_checks:
  "min_checked db f = (case List.map_filter (\<lambda>c. c) (checks (stamps db) f) of [] \<Rightarrow> None | t # ts \<Rightarrow> Some (min_list (t # ts)))"
proof -
  have "checks (stamps db) f = map sr_checked (file_rows db f)"
    by (simp add: checks_def stamps_def file_rows_def filter_map o_def shard_key_def)
  then have "List.map_filter (\<lambda>c. c) (checks (stamps db) f) = List.map_filter sr_checked (file_rows db f)"
    by (simp add: List.map_filter_def filter_map o_def)
  then show ?thesis by (simp add: min_checked_def)
qed

lemma checks_stamped: "checks (fold (stamp_file now) fs S) g = (if g \<in> set fs then map (\<lambda>_. Some now) (checks S g) else checks S g)"
proof (induction fs arbitrary: S)
  case (Cons f fs)
  have "checks (stamp_file now f S) g = (if g = f then map (\<lambda>_. Some now) (checks S g) else checks S g)"
    by (induction S) (auto simp: checks_def stamp_file_def)
  then show ?case using Cons.IH[of "stamp_file now f S"] by auto
qed simp

lemma files_of_stamps: "files_of db = remdups (map (\<lambda>x. fst (fst x)) (stamps db))"
  by (simp add: files_of_def stamps_def o_def shard_key_def)

lemma files_of_stamped: "stamps db' = fold (stamp_file now) fs (stamps db) \<Longrightarrow> files_of db' = files_of db"
proof -
  have "map (\<lambda>x. fst (fst x)) (fold (stamp_file now) fs S) = map (\<lambda>x. fst (fst x)) S" for S
  proof (induction fs arbitrary: S)
    case (Cons f fs)
    have "map (\<lambda>x. fst (fst x)) (stamp_file now f S) = map (\<lambda>x. fst (fst x)) S" by (induction S) (auto simp: stamp_file_def)
    then show ?case using Cons.IH by simp
  qed simp
  then show "stamps db' = fold (stamp_file now) fs (stamps db) \<Longrightarrow> files_of db' = files_of db" by (simp add: files_of_stamps)
qed

lemma min_list_same: "min_list (t # map (\<lambda>_. t) xs) = (t :: int)"
  by (induction xs) auto

lemma stamped_min_checked:
  assumes "stamps db' = fold (stamp_file now) fs (stamps db)" "f \<in> set (files_of db)"
  shows "min_checked db' f = (if f \<in> set fs then Some now else min_checked db f)"
proof (cases "f \<in> set fs")
  case True
  have "\<exists>x \<in> set (stamps db). fst (fst x) = f" using assms(2) by (auto simp: files_of_stamps)
  then obtain c cs where "checks (stamps db) f = c # cs" by (cases "checks (stamps db) f") (auto simp: checks_def filter_empty_conv)
  then have "List.map_filter (\<lambda>c. c) (checks (stamps db') f) = now # map (\<lambda>_. now) cs"
    using True by (simp add: assms(1) checks_stamped List.map_filter_def o_def filter_map)
  then show ?thesis using True by (simp add: min_checked_checks min_list_same del: min_list.simps)
qed (simp add: min_checked_checks assms(1) checks_stamped)

lemma filter_shrinks:
  assumes "\<And>x. x \<in> set xs \<Longrightarrow> P x \<Longrightarrow> Q x" "y \<in> set xs" "Q y" "\<not> P y"
  shows "length (filter P xs) < length (filter Q xs)"
proof -
  have "filter P xs = filter P (filter Q xs)" using assms(1) by (auto intro: filter_cong)
  then show ?thesis using length_filter_less[of y "filter Q xs" P] assms(2-4) by simp
qed

lemma unseen_files_shrink:
  assumes "stamps db' = fold (stamp_file now) fs (stamps db)" "t0 \<le> now" "f \<in> set fs" "f \<in> set (files_of db)" "unseen t0 db f"
  shows "length (unseen_files t0 db') < length (unseen_files t0 db)"
  unfolding unseen_files_def files_of_stamped[OF assms(1)]
proof (rule filter_shrinks)
  show "f \<in> set (files_of db)" "unseen t0 db f" using assms(4,5) .
  show "\<not> unseen t0 db' f" using stamped_min_checked[OF assms(1,4)] assms(2,3) by (simp add: unseen_def)
  show "unseen t0 db g" if "g \<in> set (files_of db)" "unseen t0 db' g" for g
    using stamped_min_checked[OF assms(1) that(1)] that(2) assms(2) by (auto simp: unseen_def split: if_splits)
qed

lemma to_rebalance_due: "f \<in> set (to_rebalance now n db) \<Longrightarrow> f \<in> set (files_of db) \<and> due now db f"
  using set_take_subset by (fastforce simp: to_rebalance_def Let_def)

lemma cycle_progress:
  assumes "sweep_ok E t0 W (rs_db st)" "rebalance_cycle E M W active st = (Done (Ok True, st'), b)"
  shows "length (unseen_files t0 (rs_db st')) < length (unseen_files t0 (rs_db st))"
    "db_images (rs_db st') = db_images (rs_db st)" "db_videos (rs_db st') = db_videos (rs_db st)" "\<not> b"
proof -
  let ?V = "cv_file W"
  let ?ns = "map (\<lambda>p. (pi_node_id p, pi_addr p)) (all_peers (rs_registry st))"
  obtain q db where q: "ensure_peers_registered (cv_peer_fails W) (ue_show_addr (rv_up ?V)) (rv_now ?V) ?ns (rs_db st) = (q, db)" by fastforce
  have inner: "rebalance_cycle_inner E M W st = Done (Ok True, st')" and b: "\<not> b"
    using assms(2) by (auto simp: rebalance_cycle_def split: if_splits outcome.splits)
  have same: "same_media (rs_db st) db" using q ensure_peers_media by blast
  define act where "act = active_nodes_of (rv_parse_addr ?V) (rv_now ?V) db"
  define fs where "fs = to_rebalance (rv_now ?V) (min (length act) SHARD_COUNT) db"
  define st1 where "st1 = st\<lparr>rs_db := db, rs_registry := sync_db_nodes_to_registry (cv_sync_answers W) (rv_parse_addr ?V) (rv_clock ?V) db (rs_registry st)\<rparr>"
  have f: "rebalance_files E M ?V act fs st1 = Done st'" "fs \<noteq> []" "rs_db st1 = db"
    using inner q unfolding fs_def act_def st1_def
    by (auto simp: rebalance_cycle_inner_def Let_def bind_out_Done split: sum.splits option.splits if_splits)
  have eq: "stamps db = stamps (rs_db st)" "files_of db = files_of (rs_db st)" "db_images db = db_images (rs_db st)" "db_videos db = db_videos (rs_db st)"
    using same by (simp_all add: same_media_def stamps_def files_of_def)
  have st: "stamps (rs_db st') = fold (stamp_file (rv_now ?V)) fs (stamps (rs_db st))
      \<and> db_images (rs_db st') = db_images (rs_db st) \<and> db_videos (rs_db st') = db_videos (rs_db st)"
    using rebalance_files_stamps[OF assms(1) _ _ f(1)] f(3) eq by simp
  then show "db_images (rs_db st') = db_images (rs_db st)" "db_videos (rs_db st') = db_videos (rs_db st)" "\<not> b" using b by blast+
  obtain g gs where g: "fs = g # gs" using f(2) by (cases fs) auto
  then have "g \<in> set (files_of db) \<and> due (rv_now ?V) db g" using to_rebalance_due unfolding fs_def by (metis list.set_intros(1))
  moreover have "min_checked db g = min_checked (rs_db st) g" by (simp add: min_checked_checks eq(1))
  ultimately have "g \<in> set (files_of (rs_db st))" "unseen t0 (rs_db st) g"
    using assms(1) eq(2) by (auto simp: due_def unseen_def sweep_ok_def split: option.splits)
  then show "length (unseen_files t0 (rs_db st')) < length (unseen_files t0 (rs_db st))"
    using unseen_files_shrink[of "rs_db st'" "rv_now ?V" fs "rs_db st" t0 g] st assms(1) g by (simp add: sweep_ok_def)
qed

text \<open>C10. A full rebalance sweep ends.  If the database answers, every file key can be unwrapped and the sweep
  takes less than an hour, then \<open>run_full_rebalance\<close> returns, for every mesh and every behaviour of the
  nodes, after at most as many batches as there are files: each batch marks at least one file that
  had not been looked at.\<close>

theorem full_rebalance_terminates:
  assumes "\<And>k. sweep_ok E t0 (Ws k) (rs_db st)"
  shows "\<exists>out b. run_full_rebalance E M Ws 0 active st = Some (out, b)
    \<and> (\<forall>n st'. out = Done (Ok n, st') \<longrightarrow> n \<le> length (files_of (rs_db st)))"
proof -
  have "\<exists>out b. run_full_rebalance E M Ws k active s = Some (out, b) \<and> (\<forall>n s'. out = Done (Ok n, s') \<longrightarrow> n \<le> k + length (unseen_files t0 (rs_db s)))"
    if "db_images (rs_db s) = db_images (rs_db st)" "db_videos (rs_db s) = db_videos (rs_db st)" for k active s
    using that
  proof (induction "length (unseen_files t0 (rs_db s))" arbitrary: k active s rule: less_induct)
    case less
    obtain o1 b where c: "rebalance_cycle E M (Ws k) active s = (o1, b)" by fastforce
    show ?case
    proof (cases "\<exists>s1. o1 = Done (Ok True, s1)")
      case False
      then show ?thesis using c by (subst run_full_rebalance.simps) (auto split: outcome.splits sum.splits prod.splits)
    next
      case True
      then obtain s1 where s1: "rebalance_cycle E M (Ws k) active s = (Done (Ok True, s1), b)" using c by blast
      have "sweep_ok E t0 (Ws k) (rs_db s)" using assms[of k] less.prems by (simp add: sweep_ok_def)
      note p = cycle_progress[OF this s1]
      have run: "run_full_rebalance E M Ws k active s = run_full_rebalance E M Ws (k + 1) b s1"
        by (subst run_full_rebalance.simps) (simp add: s1)
      obtain out b' where "run_full_rebalance E M Ws (k + 1) b s1 = Some (out, b')"
          "\<forall>n s'. out = Done (Ok n, s') \<longrightarrow> n \<le> k + 1 + length (unseen_files t0 (rs_db s1))"
        using less.hyps[OF p(1), of "k + 1" b] p(2,3) less.prems by auto
      then show ?thesis using run p(1) by fastforce
    qed
  qed
  from this[of st 0 active] obtain out b where "run_full_rebalance E M Ws 0 active st = Some (out, b)"
      "\<forall>n s'. out = Done (Ok n, s') \<longrightarrow> n \<le> length (unseen_files t0 (rs_db st))" by auto
  then show ?thesis
    using length_filter_le[of "unseen t0 (rs_db st)" "files_of (rs_db st)"] unfolding unseen_files_def by (meson le_trans)
qed

text \<open>But one kind of file keeps the sweep from ever ending.  The mark that a file was looked at is written at
  the end of \<open>rebalance_file\<close>, which returns early when the file's key cannot be unwrapped, and the cycle
  reports work done all the same.  So when all files that are due have such keys, each cycle leaves
  everything as it was and \<open>run_full_rebalance\<close> runs forever.\<close>

theorem full_rebalance_diverges:
  assumes "\<And>k. ensure_peers_registered (cv_peer_fails (Ws k)) (ue_show_addr (rv_up (cv_file (Ws k)))) (rv_now (cv_file (Ws k)))
       (map (\<lambda>p. (pi_node_id p, pi_addr p)) (all_peers (rs_registry st))) (rs_db st) = (Ok (), rs_db st)"
    and "\<And>k. sync_db_nodes_to_registry (cv_sync_answers (Ws k)) (rv_parse_addr (cv_file (Ws k))) (rv_clock (cv_file (Ws k))) (rs_db st) (rs_registry st) = rs_registry st"
    and "\<And>k j. cv_fails (Ws k) j = None" "\<And>k f c. rv_fails (cv_file (Ws k)) f c = None"
    and "\<And>k. active_nodes_of (rv_parse_addr (cv_file (Ws k))) (rv_now (cv_file (Ws k))) (rs_db st) = act" "act \<noteq> []"
    and "\<And>k. to_rebalance (rv_now (cv_file (Ws k))) (min (length act) SHARD_COUNT) (rs_db st) = fs" "fs \<noteq> []"
    and "\<And>k f. f \<in> set fs \<Longrightarrow> \<exists>e. file_info_with_key E (cv_file (Ws k)) FileImages FileVideos f st = (Err e, st)"
  shows "run_full_rebalance E M Ws n False st = None"
proof -
  have "rebalance_files E M (cv_file (Ws k)) act gs st = Done st" if "set gs \<subseteq> set fs" for k gs
    using that
  proof (induction gs)
    case (Cons g gs)
    then obtain e where "file_info_with_key E (cv_file (Ws k)) FileImages FileVideos g st = (Err e, st)" using assms(9)[of g k] by auto
    then have "rebalance_file E M (cv_file (Ws k)) g act st = Done (Err e, st)" using assms(4) by (simp add: rebalance_file_def)
    then show ?case using Cons by simp
  qed simp
  then have cycle: "rebalance_cycle E M (Ws k) False st = (Done (Ok True, st), False)" for k
    using assms(1-8) by (cases act) (auto simp: rebalance_cycle_def rebalance_cycle_inner_def Let_def MIN_NODES_REQUIRED_def)
  show ?thesis
  proof (rule ccontr)
    assume "run_full_rebalance E M Ws n False st \<noteq> None"
    then obtain r where ret: "run_full_rebalance E M Ws n False st = Some r" by blast
    have "\<not> (E' = E \<and> M' = M \<and> Ws' = Ws \<and> active = False \<and> s = st)"
      if "run_full_rebalance E' M' Ws' k active s = Some r'" for E' M' Ws' k active s r'
    proof (rule run_full_rebalance.raw_induct[where P = "\<lambda>E' M' Ws' k active s r'. \<not> (E' = E \<and> M' = M \<and> Ws' = Ws \<and> active = False \<and> s = st)", OF _ that])
      fix g E' M' Ws' k active s r'
      assume IH: "\<And>E' M' Ws' k active s r'. g E' M' Ws' k active s = Some r' \<Longrightarrow> \<not> (E' = E \<and> M' = M \<and> Ws' = Ws \<and> active = False \<and> s = st)"
        and eq: "(case rebalance_cycle E' M' (Ws' k) active s of
          (Panic, b) \<Rightarrow> Some (Panic, b) | (Done (Inl e, st1), b) \<Rightarrow> Some (Done (Err e, st1), b)
          | (Done (Inr worked, st1), b) \<Rightarrow> if worked then g E' M' Ws' (k + 1) b st1 else Some (Done (Ok k, st1), b)) = Some r'"
      show "\<not> (E' = E \<and> M' = M \<and> Ws' = Ws \<and> active = False \<and> s = st)"
      proof
        assume h: "E' = E \<and> M' = M \<and> Ws' = Ws \<and> active = False \<and> s = st"
        then have "g E M Ws (k + 1) False st = Some r'" using eq cycle[of k] by simp
        then show False using IH by blast
      qed
    qed
    then show False using ret by blast
  qed
qed

section \<open>Two small nodes\<close>

definition addr_a :: sock_addr where "addr_a = \<lparr>sa_ip = V6 1, sa_port = 1\<rparr>"
definition addr_b :: sock_addr where "addr_b = \<lparr>sa_ip = V6 2, sa_port = 1\<rparr>"

definition toy_show :: "sock_addr \<Rightarrow> string" where
  "toy_show a = (if a = addr_a then ''a'' else if a = addr_b then ''b'' else [])"

definition toy_parse :: "string \<Rightarrow> sock_addr option" where
  "toy_parse s = (if s = ''a'' then Some addr_a else if s = ''b'' then Some addr_b else None)"

definition toy_mesh :: "(sock_addr \<Rightarrow> string) \<Rightarrow> mesh_params" where
  "toy_mesh ids = \<lparr>mp_node = (\<lambda>_. open_node), mp_id = ids, mp_up = (\<lambda>_ _. True), mp_ctx = (\<lambda>_ _. idle_ctx),
     mp_salt = (\<lambda>_. [1]), mp_tx = (\<lambda>_ _ _. Ok ())\<rparr>"

definition toy_rb :: rb_env where
  "toy_rb = \<lparr>rv_up = \<lparr>ue_connect = (\<lambda>_ _ _. Err []), ue_show_msg = (\<lambda>_. []), ue_show_addr = toy_show, ue_clock = 1000\<rparr>,
     rv_hex_err = (\<lambda>_. []), rv_identity = toy_node, rv_show_err = (\<lambda>_. []), rv_parse_addr = toy_parse, rv_files = (\<lambda>_. None),
     rv_images_dir = [], rv_videos_dir = [], rv_api_key = Ok [], rv_sha256 = id, rv_clock = 0, rv_now = 0, rv_fails = (\<lambda>_ _. None)\<rparr>"

definition toy_cycle :: cycle_env where
  "toy_cycle = \<lparr>cv_file = toy_rb, cv_peer_fails = (\<lambda>_. None), cv_sync_answers = True, cv_fails = (\<lambda>_. None)\<rparr>"

definition toy_start :: "string \<Rightarrow> mesh_state rb_state" where
  "toy_start f = \<lparr>rs_db = \<lparr>db_images = [], db_videos = [],
       db_shards = [\<lparr>sr_file = f, sr_index = 0, sr_node = ''a'', sr_hash = hex_encode toy_ext (blake3 toy_ext [5]), sr_checked = None\<rparr>],
       db_nodes = [\<lparr>nr_id = ''a'', nr_addr = ''a'', nr_active = True, nr_last_seen = 0\<rparr>, \<lparr>nr_id = ''b'', nr_addr = ''b'', nr_active = True, nr_last_seen = 0\<rparr>]\<rparr>,
     rs_registry = \<lparr>rg_peers = [(''a'', \<lparr>pi_node_id = ''a'', pi_addr = addr_a, pi_last_seen = 0\<rparr>), (''b'', \<lparr>pi_node_id = ''b'', pi_addr = addr_b, pi_last_seen = 0\<rparr>)], rg_admission = Open\<rparr>,
     rs_cache = None,
     rs_mesh = \<lparr>mw_disk = (\<lambda>_. fresh_disk)(addr_a := snd (store toy_ext quiet_io fresh_disk (blake3 toy_ext [5]) [5])), mw_tick = 0\<rparr>\<rparr>"

text \<open>A mesh in which no node can be reached: the cycle is carried out, and the shard stays where it is.\<close>

definition toy_ids :: "sock_addr \<Rightarrow> string" where
  "toy_ids a = (if a = addr_a then ''a'' else ''b'')"

definition down_mesh :: mesh_params where
  "down_mesh = (toy_mesh toy_ids)\<lparr>mp_up := \<lambda>_ _. False\<rparr>"

definition toy_loc :: "string \<Rightarrow> sock_addr" where
  "toy_loc n = (if n = ''a'' then addr_a else addr_b)"

lemma toy_ranked: "rendezvous_select toy_ext ''f'' [(''a'', addr_a), (''b'', addr_b)] 2 = [(''b'', addr_b), (''a'', addr_a)]"
proof -
  have "score toy_ext ''f'' ''a'' = 0x613a66" "score toy_ext ''f'' ''b'' = 0x623a66" by code_simp+
  then show ?thesis by (simp add: rendezvous_ranked rank_def)
qed

lemma addr_ab [simp]: "addr_a \<noteq> addr_b" "addr_b \<noteq> addr_a"
  by (simp_all add: addr_a_def addr_b_def)

text \<open>The state in which both nodes are registered is a fixed point of registration.\<close>

lemma toy_entered:
  "ensure_peers_registered (\<lambda>_. None) toy_show 0 (map (\<lambda>p. (pi_node_id p, pi_addr p)) (all_peers (rs_registry (toy_start f)))) (rs_db (toy_start f))
     = (Ok (), rs_db (toy_start f))"
  by (simp add: toy_start_def all_peers_def ensure_peers_registered_def upsert_node_def toy_show_def INACTIVE_MS_def)

lemma toy_synced:
  "sync_db_nodes_to_registry True toy_parse 0 (rs_db (toy_start f)) (rs_registry (toy_start f)) = rs_registry (toy_start f)"
  by (simp add: toy_start_def sync_db_nodes_to_registry_def toy_parse_def upsert_def get_peer_def)

lemma toy_active: "active_nodes_of toy_parse 0 (rs_db (toy_start f)) = [(''a'', addr_a), (''b'', addr_b)]"
  by (simp add: toy_start_def active_nodes_of_def INACTIVE_MS_def toy_parse_def List.map_filter_def)

lemma toy_due: "to_rebalance 0 2 (rs_db (toy_start f)) = [f]"
  by (simp add: toy_start_def to_rebalance_def file_rows_def files_of_def due_def min_checked_def List.map_filter_def REBALANCE_BATCH_SIZE_def)

lemma toy_rb_fields [simp]: "rv_parse_addr toy_rb = toy_parse" "rv_now toy_rb = 0" "rv_clock toy_rb = 0" "rv_fails toy_rb f c = None"
  "ue_show_addr (rv_up toy_rb) = toy_show" "cv_file toy_cycle = toy_rb" "ue_clock (rv_up toy_rb) = 1000" "rv_identity toy_rb = toy_node"
  "rv_api_key toy_rb = Ok []"
  by (simp_all add: toy_rb_def toy_cycle_def)

lemma toy_cycle_calls: "cv_peer_fails toy_cycle = (\<lambda>_. None)" "cv_sync_answers toy_cycle" "cv_fails toy_cycle k = None"
  by (simp_all add: toy_cycle_def)

lemma toy_cycle_inner:
  "rebalance_cycle toy_ext M toy_cycle False (toy_start f) =
     (case rebalance_file toy_ext M toy_rb f [(''a'', addr_a), (''b'', addr_b)] (toy_start f) of
        Panic \<Rightarrow> (Panic, True) | Done (r, st') \<Rightarrow> (Done (Ok True, st'), False))"
proof -
  have "toy_start f\<lparr>rs_db := rs_db (toy_start f), rs_registry := rs_registry (toy_start f)\<rparr> = toy_start f" by simp
  then show ?thesis
    using toy_entered[of f] toy_synced[of f] toy_active[of f] toy_due[of f, unfolded numeral_2_eq_2]
    by (cases "rebalance_file toy_ext M toy_rb f [(''a'', addr_a), (''b'', addr_b)] (toy_start f)")
      (auto simp: rebalance_cycle_def rebalance_cycle_inner_def Let_def MIN_NODES_REQUIRED_def SHARD_COUNT_def toy_cycle_calls)
qed

lemma toy_info: "file_info_with_key E toy_rb c1 c2 f (toy_start f) = (Ok None, toy_start f)"
  by (simp add: file_info_with_key_def find_file_info_def toy_start_def)

lemma toy_rows: "shards_of (rs_db (toy_start f)) f = db_shards (rs_db (toy_start f))"
  by (simp add: shards_of_def toy_start_def)

lemma down_retrieve:
  "retrieve_shard_from_old_node toy_ext (node_mesh down_mesh toy_ext) toy_rb True ''a'' (hex_encode toy_ext (blake3 toy_ext [5])) (toy_start f)
     = Done (Err ''Cannot migrate: old node unreachable'', toy_start f)"
proof -
  have "lookup_addr toy_rb True ''a'' (toy_start f) = (Some addr_a, toy_start f)"
    by (simp add: lookup_addr_def lookup_node_addr_def get_peer_def toy_start_def)
  moreover have "ue_connect (dial_env (node_mesh down_mesh toy_ext) toy_rb (toy_start f)) addr_a 0 0 = Err ''connection failed''"
    by (simp add: dial_env_def toy_start_def find_by_addr_def node_mesh_def down_mesh_def)
  ultimately show ?thesis
    by (simp add: retrieve_shard_from_old_node_def retrieve_shard_def hex_decode_encode[OF toy_hex_ok] blake3_len[OF toy_blake3_ok])
qed

lemma down_file:
  "\<exists>st'. rebalance_file toy_ext (node_mesh down_mesh toy_ext) toy_rb ''f'' [(''a'', addr_a), (''b'', addr_b)] (toy_start ''f'') = Done (Ok False, st')"
proof -
  have "migrate_shard toy_ext (node_mesh down_mesh toy_ext) toy_rb ''f'' 0 addr_b ''a'' (hex_encode toy_ext (blake3 toy_ext [5])) (toy_start ''f'')
      = Done (Err ''Cannot migrate: old node unreachable'', toy_start ''f'')"
    using down_retrieve toy_info by (simp add: migrate_shard_def shard_for_migration_def)
  moreover have "db_shards (rs_db (toy_start ''f'')) = [\<lparr>sr_file = ''f'', sr_index = 0, sr_node = ''a'', sr_hash = hex_encode toy_ext (blake3 toy_ext [5]), sr_checked = None\<rparr>]"
    by (simp add: toy_start_def)
  ultimately show ?thesis
    using toy_info toy_rows toy_ranked[unfolded numeral_2_eq_2] by (simp add: rebalance_file_def as_usize_def)
qed

lemma toy_setup: "db_ok (rs_db (toy_start f))" "distinct_hashes toy_ext (rs_db (toy_start f))"
  "located toy_loc (rv_parse_addr (cv_file toy_cycle)) (rs_registry (toy_start f)) (rs_db (toy_start f))"
  "inj_on toy_loc (nr_id ` set (db_nodes (rs_db (toy_start f))) \<union> fst ` set (rg_peers (rs_registry (toy_start f))))"
  "rv_parse_addr (cv_file toy_cycle) (ue_show_addr (rv_up (cv_file toy_cycle)) a) \<in> {None, Some a}"
  by (simp_all add: toy_start_def db_ok_def shard_key_def distinct_hashes_def located_def toy_loc_def toy_show_def toy_parse_def)

theorem rebalance_keeps_shards_witness:
  "\<exists>st'. rebalance_cycle toy_ext (node_mesh down_mesh toy_ext) toy_cycle False (toy_start ''f'') = (Done (Ok True, st'), False)
     \<and> db_ok (rs_db st') \<and> db_images (rs_db st') = [] \<and> length (db_shards (rs_db st')) = 1"
proof -
  obtain st' where c: "rebalance_cycle toy_ext (node_mesh down_mesh toy_ext) toy_cycle False (toy_start ''f'') = (Done (Ok True, st'), False)"
    using down_file toy_cycle_inner by fastforce
  note k = rebalance_keeps_shards[OF toy_hex_ok c toy_setup]
  have "length (db_shards (rs_db (toy_start ''f''))) = length (db_shards (rs_db st'))"
    by (rule list_all2_lengthD[OF k[THEN conjunct2, THEN conjunct2, THEN conjunct2]])
  then have "length (db_shards (rs_db st')) = 1" "db_images (rs_db st') = []" using k by (simp_all add: toy_start_def)
  then show ?thesis using c k by blast
qed

text \<open>A node set up afresh: the ids \<open>a\<close> and \<open>b\<close> are both registered at one address, where \<open>b\<close> now answers.\<close>

definition rekeyed :: "disk \<Rightarrow> mesh_state rb_state" where
  "rekeyed d = (toy_start ''f'')\<lparr>rs_registry := \<lparr>rg_peers = [(''b'', \<lparr>pi_node_id = ''b'', pi_addr = addr_a, pi_last_seen = 0\<rparr>),
       (''a'', \<lparr>pi_node_id = ''a'', pi_addr = addr_a, pi_last_seen = 0\<rparr>)], rg_admission = Open\<rparr>,
     rs_mesh := \<lparr>mw_disk = (\<lambda>_. d), mw_tick = 0\<rparr>\<rparr>"

definition toy_row :: shard_row where
  "toy_row = \<lparr>sr_file = ''f'', sr_index = 0, sr_node = ''a'', sr_hash = hex_encode toy_ext (blake3 toy_ext [5]), sr_checked = None\<rparr>"

lemma toy_trusts: "trusts toy_ext open_node idle_ctx (rv_up toy_rb) toy_node"
  by (simp add: trusts_def open_node_def idle_ctx_def toy_node_key)

lemma toy_healthy: "healthy toy_ext (toy_mesh ids) toy_rb a"
  using toy_trusts by (simp add: healthy_def toy_mesh_def) (simp add: quiet_ctx_def idle_ctx_def)

lemma toy_holding: "\<exists>s. node_reach toy_ext open_node s \<and> shard_at toy_ext (ns_disk s) (blake3 toy_ext [5]) = Some [5]"
proof -
  let ?h = "blake3 toy_ext [5]" and ?s = "\<lparr>ns_disk = fresh_disk, ns_uploads = Map.empty\<rparr>"
  let ?m = "StoreShardRequest ?h [5] (create_shard_token toy_ext 1000 toy_node OpStore ?h)"
  have a: "authorized toy_ext open_node idle_ctx (create_shard_token toy_ext 1000 toy_node OpStore ?h) OpStore ?h"
    using trusts_authorized[OF toy_ed25519_ok toy_trusts] by simp
  obtain d' where d': "store toy_ext quiet_io fresh_disk ?h [5] = (Ok (), d')"
    using store_succeeds[of quiet_io 500000000 toy_ext fresh_disk ?h "[5]"] by (cases "store toy_ext quiet_io fresh_disk ?h [5]") auto
  obtain out where m: "handle_message toy_ext open_node idle_ctx (ns_disk ?s) ?m = (out, d')"
    using a d' by (simp add: idle_ctx_def)
  have "node_reach toy_ext open_node ?s" unfolding fresh_disk_def by (rule node_reach.initial)
  then have "node_reach toy_ext open_node (?s\<lparr>ns_disk := d'\<rparr>)" using node_step.message[OF m] node_reach.step by blast
  moreover have "shard_at toy_ext d' ?h = Some [5]" using disk.put_atomic[OF toy_hex_ok d'] by auto
  ultimately show ?thesis by (intro exI[of _ "?s\<lparr>ns_disk := d'\<rparr>"]) simp
qed

theorem healthy_move_witness:
  "\<exists>d st'. shard_at toy_ext d (blake3 toy_ext [5]) = Some [5]
     \<and> rebalance_rows toy_ext (node_mesh (toy_mesh (\<lambda>_. ''b'')) toy_ext) toy_rb ''f'' [(''b'', addr_a)] [toy_row] False (rekeyed d) = Done (Ok True, st')
     \<and> \<not> mesh_holds toy_ext (rs_mesh st') addr_a (blake3 toy_ext [5])"
proof -
  let ?P = "toy_mesh (\<lambda>_. ''b'')" and ?h = "blake3 toy_ext [5]"
  obtain s where s: "node_reach toy_ext open_node s" "shard_at toy_ext (ns_disk s) ?h = Some [5]" using toy_holding by blast
  let ?st = "rekeyed (ns_disk s)"
  have reg: "find_by_addr (rs_registry ?st) addr_a = Some (mp_id ?P addr_a)" "get_peer (rs_registry ?st) (sr_node toy_row) = Some \<lparr>pi_node_id = ''a'', pi_addr = addr_a, pi_last_seen = 0\<rparr>"
    by (simp_all add: rekeyed_def find_by_addr_def get_peer_def toy_row_def toy_mesh_def)
  have info: "file_info_with_key toy_ext toy_rb c1 c2 ''f'' ?st = (Ok None, ?st)" for c1 c2
    by (simp add: file_info_with_key_def find_file_info_def rekeyed_def toy_start_def)
  have conn: "ue_connect (dial_env (node_mesh ?P toy_ext) toy_rb ?st) addr_a 0 0 = Ok (node_conn toy_ext open_node idle_ctx [1] (ns_disk s))"
    using healthy_connect[OF toy_healthy reg(1)] by (simp add: toy_mesh_def rekeyed_def node_conn_def)
  have tr: "trusts toy_ext open_node idle_ctx (dial_env (node_mesh ?P toy_ext) toy_rb ?st) toy_node"
    using toy_trusts by (simp add: trusts_def)
  have "retrieve_shard toy_ext (dial_env (node_mesh ?P toy_ext) toy_rb ?st) (rv_hex_err toy_rb) toy_node addr_a (hex_encode toy_ext ?h) = Done (Ok [5])"
    by (rule retrieve_from_node[OF toy_hex_ok toy_blake3_ok toy_ed25519_ok _ tr _ s _ conn])
      (simp_all add: quiet_ctx_def idle_ctx_def MAX_SHARD_BYTES_def)
  moreover have "lookup_addr toy_rb True ''a'' ?st = (Some addr_a, ?st)"
    using reg(2) by (simp add: lookup_addr_def lookup_node_addr_def toy_row_def)
  ultimately have get: "shard_for_migration toy_ext (node_mesh ?P toy_ext) toy_rb ''f'' (sr_index toy_row) None (sr_node toy_row) (sr_hash toy_row) ?st = Done (Ok [5], ?st)"
    by (simp add: shard_for_migration_def retrieve_shard_from_old_node_def toy_row_def)
  have "\<exists>st'. rebalance_rows toy_ext (node_mesh ?P toy_ext) toy_rb ''f'' [(''b'', addr_a)] [toy_row] False ?st = Done (Ok True, st')
      \<and> rs_db st' = move_row ''f'' (sr_index toy_row) ''b'' (sr_hash toy_row) (rs_db ?st)
      \<and> \<not> mesh_holds toy_ext (rs_mesh st') addr_a ?h \<and> (mesh_holds toy_ext (rs_mesh st') addr_a ?h \<longleftrightarrow> addr_a \<noteq> addr_a)"
    by (rule healthy_move[OF toy_hex_ok toy_blake3_ok toy_ed25519_ok toy_healthy toy_healthy _ reg(1) reg(1) reg(2) _ _ info get])
      (simp_all add: toy_row_def UPLOAD_STREAM_THRESHOLD_def)
  then show ?thesis using s(2) by blast
qed

theorem full_rebalance_terminates_witness:
  "\<exists>out b. run_full_rebalance toy_ext (node_mesh down_mesh toy_ext) (\<lambda>_. toy_cycle) 0 False (toy_start ''f'') = Some (out, b)
     \<and> (\<forall>n st'. out = Done (Ok n, st') \<longrightarrow> n \<le> 1)"
proof -
  have ok: "sweep_ok toy_ext 0 toy_cycle (rs_db (toy_start ''f''))" by (simp add: sweep_ok_def HOUR_MS_def toy_start_def)
  have "length (files_of (rs_db (toy_start ''f''))) = 1" by (simp add: files_of_def toy_start_def)
  then show ?thesis using full_rebalance_terminates[of toy_ext 0 "\<lambda>_. toy_cycle" "toy_start ''f''" "node_mesh down_mesh toy_ext" False, OF ok] by simp
qed

text \<open>A file whose wrapped key is too short to open.\<close>

definition poisoned :: "mesh_state rb_state" where
  "poisoned = (toy_start ''f'')\<lparr>rs_db := (rs_db (toy_start ''f''))\<lparr>db_images := [toy_media\<lparr>mr_hash := ''f'', mr_key := Some []\<rparr>]\<rparr>\<rparr>"

theorem full_rebalance_diverges_witness:
  "run_full_rebalance toy_ext (node_mesh down_mesh toy_ext) (\<lambda>_. toy_cycle) 0 False poisoned = None"
proof (rule full_rebalance_diverges)
  show "ensure_peers_registered (cv_peer_fails toy_cycle) (ue_show_addr (rv_up (cv_file toy_cycle))) (rv_now (cv_file toy_cycle))
       (map (\<lambda>p. (pi_node_id p, pi_addr p)) (all_peers (rs_registry poisoned))) (rs_db poisoned) = (Ok (), rs_db poisoned)"
    by (simp add: poisoned_def toy_start_def all_peers_def ensure_peers_registered_def upsert_node_def toy_show_def INACTIVE_MS_def toy_cycle_calls)
  show "sync_db_nodes_to_registry (cv_sync_answers toy_cycle) (rv_parse_addr (cv_file toy_cycle)) (rv_clock (cv_file toy_cycle)) (rs_db poisoned) (rs_registry poisoned) = rs_registry poisoned"
    using toy_synced[of "''f''"] by (simp add: poisoned_def toy_cycle_calls sync_db_nodes_to_registry_def)
  show "active_nodes_of (rv_parse_addr (cv_file toy_cycle)) (rv_now (cv_file toy_cycle)) (rs_db poisoned) = [(''a'', addr_a), (''b'', addr_b)]"
    using toy_active[of "''f''"] by (simp add: poisoned_def active_nodes_of_def)
  show "to_rebalance (rv_now (cv_file toy_cycle)) (min (length [(''a'', addr_a), (''b'', addr_b)]) SHARD_COUNT) (rs_db poisoned) = [''f'']"
    by (simp add: poisoned_def toy_start_def to_rebalance_def file_rows_def files_of_def due_def min_checked_def List.map_filter_def
        REBALANCE_BATCH_SIZE_def SHARD_COUNT_def)
  show "\<exists>e. file_info_with_key toy_ext (cv_file toy_cycle) FileImages FileVideos f poisoned = (Err e, poisoned)" if "f \<in> set [''f'']" for f
    using that by (simp add: poisoned_def file_info_with_key_def find_file_info_def info_of_row_def decrypt_key_def toy_start_def)
qed (simp_all add: toy_cycle_calls)

end
