(* ===== verification/ShardAudit.thy ===== *)
theory ShardAudit
  imports Rebalance
begin

text \<open>
  \<open>src/p2p_audit_worker.rs\<close>: checking that catalogued shards are still on their nodes, repairing those that
  are not, purging rows of deleted files, and sweeping unreferenced shards off the nodes.  The mesh
  is part of the state, as for rebalancing; the table \<open>db_backup_shards\<close> is the list of its hashes.
\<close>

section \<open>State and surroundings\<close>

record 'w audit_state =
  as_rb :: "'w rb_state"
  as_last_sweep :: int
  as_statics :: statics
  as_backup_hashes :: "string list"

text \<open>The database calls of one repair, and of the rest of an audit.  The clean-up and the sweep may run
  twice in one audit: the number is the round.\<close>

datatype repair_call = RepairConn | RepairNodes | RepairLookup string | RepairSegments | RepairImages | RepairVideos | RepairRow | RepairWrite

datatype audit_call =
    PurgeConn | PurgeSelect | PurgeLookup string | PurgeDelete
  | SweepConn | SweepNodes | SweepLookup string | SweepQuery string nat
  | AuditConn | AuditSelect | AuditLookup string int | AuditStamp string int
  | UnderConn | UnderQuery | FixConn | FixCount string | FixReset string media_table

record audit_env =
  av_rb :: rb_env
  av_reads :: "string \<Rightarrow> string + (string + bytes) list"
  av_repair_fails :: "string \<Rightarrow> nat \<Rightarrow> repair_call \<Rightarrow> string option"
  av_fails :: "nat \<Rightarrow> audit_call \<Rightarrow> string option"
  av_sync_answers :: "nat \<Rightarrow> bool"
  av_fk_err :: string
  av_subquery_err :: string
  av_timestamp :: int
  av_instant :: int

definition with_rb :: "('w rb_state \<Rightarrow> 'w rb_state) \<Rightarrow> 'w audit_state \<Rightarrow> 'w audit_state" where
  "with_rb f st = st\<lparr>as_rb := f (as_rb st)\<rparr>"

section \<open>Purging rows of deleted files\<close>

definition live_hashes :: "db \<Rightarrow> string list" where
  "live_hashes db = map mr_hash (filter (\<lambda>m. \<not> mr_deleted m) (db_images db)) @ map mr_hash (filter (\<lambda>m. \<not> mr_deleted m) (db_videos db))"

definition orphan :: "db \<Rightarrow> shard_row \<Rightarrow> bool" where
  "orphan db s \<longleftrightarrow> sr_file s \<notin> set (live_hashes db)"

text \<open>The physical shards of up to 1000 orphaned rows are deleted from their nodes first, results ignored.\<close>

fun delete_remotely :: "ext \<Rightarrow> 'w mesh \<Rightarrow> audit_env \<Rightarrow> nat \<Rightarrow> shard_row list \<Rightarrow> 'w rb_state \<Rightarrow> 'w rb_state" where
  "delete_remotely E M A k [] st = st"
| "delete_remotely E M A k (s # ss) st =
     (case lookup_addr (av_rb A) (av_fails A k (PurgeLookup (sr_node s)) = None) (sr_node s) st of
        (Some addr, st1) \<Rightarrow> delete_remotely E M A k ss (delete_old_shard E M (av_rb A) addr (sr_hash s) st1)
      | (None, st1) \<Rightarrow> delete_remotely E M A k ss st1)"

definition cleanup_orphaned_shards_with_service :: "ext \<Rightarrow> 'w mesh \<Rightarrow> audit_env \<Rightarrow> nat \<Rightarrow> bool \<Rightarrow> 'w rb_state \<Rightarrow> (string + nat) \<times> 'w rb_state" where
  "cleanup_orphaned_shards_with_service E M A k with_service st =
     (case av_fails A k PurgeConn of
        Some e \<Rightarrow> (Err e, st)
      | None \<Rightarrow>
          (case av_fails A k PurgeSelect of
             Some e \<Rightarrow> (Err e, st)
           | None \<Rightarrow>
               let rows = take 1000 (filter (orphan (rs_db st)) (db_shards (rs_db st)));
                   st1 = (if with_service then delete_remotely E M A k rows st else st);
                   db = rs_db st1 in
               (case av_fails A k PurgeDelete of
                  Some e \<Rightarrow> (Err e, st1)
                | None \<Rightarrow>
                    (Ok (length (filter (orphan db) (db_shards db))),
                     st1\<lparr>rs_db := db\<lparr>db_shards := filter (\<lambda>s. \<not> orphan db s) (db_shards db)\<rparr>\<rparr>))))"

definition cleanup_orphaned_shards :: "ext \<Rightarrow> 'w mesh \<Rightarrow> audit_env \<Rightarrow> nat \<Rightarrow> 'w rb_state \<Rightarrow> (string + nat) \<times> 'w rb_state" where
  "cleanup_orphaned_shards E M A k st = cleanup_orphaned_shards_with_service E M A k False st"

section \<open>Sweeping the nodes\<close>

text \<open>The hashes one of the two shard tables refers to.\<close>

definition referenced :: "'w audit_state \<Rightarrow> string \<Rightarrow> bool" where
  "referenced st h \<longleftrightarrow> h \<in> sr_hash ` set (db_shards (rs_db (as_rb st))) \<or> h \<in> set (as_backup_hashes st)"

text \<open>Deleting what is not referenced; the answer of the node decides whether it counts as pruned.\<close>

fun prune_hashes :: "ext \<Rightarrow> 'w mesh \<Rightarrow> audit_env \<Rightarrow> string \<Rightarrow> sock_addr \<Rightarrow> string list \<Rightarrow> string list \<Rightarrow> 'w audit_state \<Rightarrow> nat \<times> 'w audit_state" where
  "prune_hashes E M A nid addr valid [] st = (0, st)"
| "prune_hashes E M A nid addr valid (h # hs) st =
     (if h \<in> set valid \<or> is_recently_stored (av_instant A) (as_statics st) nid h
      then prune_hashes E M A nid addr valid hs st
      else
        let deleted = (delete_shard_remote E (dial_env M (av_rb A) (as_rb st)) (rv_identity (av_rb A)) addr h = Ok True) in
        (case prune_hashes E M A nid addr valid hs (with_rb (delete_old_shard E M (av_rb A) addr h) st) of
           (n, st1) \<Rightarrow> (if deleted then n + 1 else n, st1)))"

fun sweep_prefixes :: "ext \<Rightarrow> 'w mesh \<Rightarrow> audit_env \<Rightarrow> nat \<Rightarrow> string \<Rightarrow> sock_addr \<Rightarrow> nat list \<Rightarrow> 'w audit_state \<Rightarrow> (string + nat) \<times> 'w audit_state" where
  "sweep_prefixes E M A k nid addr [] st = (Ok 0, st)"
| "sweep_prefixes E M A k nid addr (i # is) st =
     (case list_remote_shards E (dial_env M (av_rb A) (as_rb st)) (rv_identity (av_rb A)) addr (Some (hex2 i)) of
        Inl e \<Rightarrow> sweep_prefixes E M A k nid addr is st
      | Inr (shards, space) \<Rightarrow>
          if shards = [] then sweep_prefixes E M A k nid addr is st
          else (case av_fails A k (SweepQuery nid i) of
                  Some e \<Rightarrow> (Err e, st)
                | None \<Rightarrow>
                    let hex_shards = map (hex_encode E) shards in
                    (case prune_hashes E M A nid addr (filter (referenced st) hex_shards) hex_shards st of
                       (n, st1) \<Rightarrow>
                         (case sweep_prefixes E M A k nid addr is st1 of (r, st2) \<Rightarrow> (bind_res r (\<lambda>m. Ok (n + m)), st2)))))"

fun sweep_nodes :: "ext \<Rightarrow> 'w mesh \<Rightarrow> audit_env \<Rightarrow> nat \<Rightarrow> string list \<Rightarrow> 'w audit_state \<Rightarrow> (string + nat) \<times> 'w audit_state" where
  "sweep_nodes E M A k [] st = (Ok 0, st)"
| "sweep_nodes E M A k (nid # nids) st =
     (case lookup_addr (av_rb A) (av_fails A k (SweepLookup nid) = None) nid (as_rb st) of
        (None, rb) \<Rightarrow> sweep_nodes E M A k nids (st\<lparr>as_rb := rb\<rparr>)
      | (Some addr, rb) \<Rightarrow>
          (case sweep_prefixes E M A k nid addr [0..<256] (st\<lparr>as_rb := rb\<rparr>) of
             (Inl e, st1) \<Rightarrow> (Err e, st1)
           | (Inr n, st1) \<Rightarrow> (case sweep_nodes E M A k nids st1 of (r, st2) \<Rightarrow> (bind_res r (\<lambda>m. Ok (n + m)), st2))))"

definition sweep_storage_node_orphans :: "ext \<Rightarrow> 'w mesh \<Rightarrow> audit_env \<Rightarrow> nat \<Rightarrow> 'w audit_state \<Rightarrow> (string + nat) \<times> 'w audit_state" where
  "sweep_storage_node_orphans E M A k st =
     (case av_fails A k SweepConn of
        Some e \<Rightarrow> (Err e, st)
      | None \<Rightarrow>
          (case av_fails A k SweepNodes of
             Some e \<Rightarrow> (Err e, st)
           | None \<Rightarrow> sweep_nodes E M A k (map nr_id (filter nr_active (db_nodes (rs_db (as_rb st))))) st))"

section \<open>Repairing a shard\<close>

text \<open>\<open>INSERT ... ON CONFLICT (file_hash, shard_index) DO UPDATE SET node_id, shard_hash, last_checked_at\<close>; the
  foreign key refuses a node that is not in the table.\<close>

fun upsert_repaired_rows :: "shard_row \<Rightarrow> shard_row list \<Rightarrow> shard_row list" where
  "upsert_repaired_rows s [] = [s]"
| "upsert_repaired_rows s (r # rs) =
     (if sr_file r = sr_file s \<and> sr_index r = sr_index s
      then r\<lparr>sr_node := sr_node s, sr_hash := sr_hash s, sr_checked := sr_checked s\<rparr> # rs
      else r # upsert_repaired_rows s rs)"

definition record_repair :: "audit_env \<Rightarrow> string \<Rightarrow> nat \<Rightarrow> string \<Rightarrow> string \<Rightarrow> 'w rb_state \<Rightarrow> (string + unit) \<times> 'w rb_state" where
  "record_repair A file_hash idx nid shard_hash st =
     (case av_repair_fails A file_hash idx RepairWrite of
        Some e \<Rightarrow> (Err e, st)
      | None \<Rightarrow>
          if nid \<notin> nr_id ` set (db_nodes (rs_db st)) then (Err (av_fk_err A), st)
          else (Ok (), st\<lparr>rs_db := (rs_db st)\<lparr>db_shards := upsert_repaired_rows
                  \<lparr>sr_file = file_hash, sr_index = as_i32 idx, sr_node = nid, sr_hash = shard_hash, sr_checked = Some (rv_now (av_rb A))\<rparr>
                  (db_shards (rs_db st))\<rparr>\<rparr>))"

definition update_repaired :: "audit_env \<Rightarrow> string \<Rightarrow> nat \<Rightarrow> string \<Rightarrow> string \<Rightarrow> 'w rb_state \<Rightarrow> (string + unit) \<times> 'w rb_state" where
  "update_repaired A file_hash idx nid shard_hash st =
     (case av_repair_fails A file_hash idx RepairWrite of
        Some e \<Rightarrow> (Err e, st)
      | None \<Rightarrow>
          if nid \<notin> nr_id ` set (db_nodes (rs_db st)) then (Err (av_fk_err A), st)
          else (Ok (), st\<lparr>rs_db := (rs_db st)\<lparr>db_shards := map (\<lambda>s. if sr_file s = file_hash \<and> sr_index s = as_i32 idx
                  then s\<lparr>sr_node := nid, sr_hash := shard_hash, sr_checked := Some (rv_now (av_rb A))\<rparr> else s)
                  (db_shards (rs_db st))\<rparr>\<rparr>))"

text \<open>The nodes to choose from: the live registry, or the active nodes of the table whose address is known.\<close>

fun resolve_nodes :: "audit_env \<Rightarrow> string \<Rightarrow> nat \<Rightarrow> string list \<Rightarrow> 'w rb_state \<Rightarrow> (string \<times> sock_addr) list \<times> 'w rb_state" where
  "resolve_nodes A file_hash idx [] st = ([], st)"
| "resolve_nodes A file_hash idx (nid # nids) st =
     (case lookup_addr (av_rb A) (av_repair_fails A file_hash idx (RepairLookup nid) = None) nid st of
        (a, st1) \<Rightarrow>
          (case resolve_nodes A file_hash idx nids st1 of
             (ns, st2) \<Rightarrow> (case a of Some addr \<Rightarrow> (nid, addr) # ns | None \<Rightarrow> ns, st2)))"

definition repair_nodes :: "audit_env \<Rightarrow> string \<Rightarrow> nat \<Rightarrow> 'w rb_state \<Rightarrow> (string + (string \<times> sock_addr) list) \<times> 'w rb_state" where
  "repair_nodes A file_hash idx st =
     (let active_nodes = map (\<lambda>p. (pi_node_id p, pi_addr p)) (all_peers (rs_registry st)) in
      if active_nodes \<noteq> [] then (Ok active_nodes, st)
      else case av_repair_fails A file_hash idx RepairNodes of
        Some e \<Rightarrow> (Err e, st)
      | None \<Rightarrow>
          (case resolve_nodes A file_hash idx (map nr_id (filter nr_active (db_nodes (rs_db st)))) st of
             (ns, st1) \<Rightarrow> (Ok ns, st1)))"

text \<open>Streaming through the file: the sub-shards of one index, and what the hasher has seen.\<close>

function reshard_loop :: "ext \<Rightarrow> (np2p_error \<Rightarrow> string) \<Rightarrow> bytes \<Rightarrow> nat \<Rightarrow> nat \<Rightarrow> nat \<Rightarrow> nat \<Rightarrow> (string + bytes) list \<Rightarrow> string + bytes \<times> bytes" where
  "reshard_loop E show_err key d p idx seg_idx rs =
     (case read_full SEGMENT_THRESHOLD rs of
        (Inl e, _) \<Rightarrow> Err e
      | (Inr buf, rest) \<Rightarrow>
          if buf = [] then Ok ([], [])
          else bind_res (map_err show_err (process_for_backup E buf key (key @ u32_le seg_idx) d p)) (\<lambda>(sub_shards, enc_size).
               if idx < length sub_shards
               then bind_res (reshard_loop E show_err key d p idx (seg_idx + 1) rest) (\<lambda>(piece, hashed).
                      Ok (sub_shards ! idx @ piece, buf @ hashed))
               else Err (''Shard index '' @ show_nat idx @ '' out of range for segment '' @ show_nat seg_idx)))"
  by pat_completeness auto
termination
  by (relation "measure (\<lambda>(E, s, k, d, p, i, j, rs). reads_size rs)") (auto dest!: sym[THEN read_full_size])

declare reshard_loop.simps [simp del]

definition reshard_segmented :: "ext \<Rightarrow> audit_env \<Rightarrow> string \<Rightarrow> nat \<Rightarrow> string \<Rightarrow> bytes \<Rightarrow> nat \<Rightarrow> nat \<Rightarrow> (string + bytes) outcome" where
  "reshard_segmented E A file_hash idx file_ext key data_shards parity_shards =
     bind_out (media_path (rv_images_dir (av_rb A)) file_hash file_ext) (\<lambda>images_path.
     bind_out (media_path (rv_videos_dir (av_rb A)) file_hash file_ext) (\<lambda>videos_path. Done (
       let stream = (\<lambda>path.
         bind_res (av_reads A path) (\<lambda>rs.
         bind_res (reshard_loop E (rv_show_err (av_rb A)) key data_shards parity_shards idx 0 rs) (\<lambda>(full_shard_data, hashed).
           if full_shard_data = [] then Err (''Segmented repair produced empty shard for '' @ file_hash)
           else if hex_encode E (blake3 E hashed) \<noteq> file_hash
           then Err (''Local file hash mismatch ('' @ hex_encode E (blake3 E hashed) @ '' != '' @ file_hash @ '') '' @ em_dash
                  @ '' refusing to repair from a modified file'')
           else Ok full_shard_data))) in
       if rv_files (av_rb A) images_path \<noteq> None then stream images_path
       else if rv_files (av_rb A) videos_path \<noteq> None then stream videos_path
       else Err (''Local file not found for segmented hash '' @ file_hash))))"

definition reshard_single :: "ext \<Rightarrow> audit_env \<Rightarrow> string \<Rightarrow> nat \<Rightarrow> string \<Rightarrow> bytes \<Rightarrow> nat \<Rightarrow> nat \<Rightarrow> (string + bytes) outcome" where
  "reshard_single E A file_hash idx file_ext key data_shards parity_shards =
     bind_out (local_file (av_rb A) file_hash file_ext) (\<lambda>res.
       case res of
         Inl e \<Rightarrow> Done (Err e)
       | Inr file_data \<Rightarrow>
           let actual_hash = hex_encode E (blake3 E file_data) in
           if actual_hash \<noteq> file_hash
           then if 16 \<le> length file_hash \<and> char_boundary file_hash 16
                then Done (Err (''Local file hash mismatch ('' @ take 16 actual_hash @ '' != '' @ take 16 file_hash
                       @ '') '' @ em_dash @ '' refusing to repair from a modified file''))
                else Panic
           else Done (bind_res (map_err (rv_show_err (av_rb A)) (process_for_backup E file_data key key data_shards parity_shards)) (\<lambda>(shards, enc_size).
                  if idx \<ge> length shards then Err (''Shard index '' @ show_nat idx @ '' out of range'')
                  else Ok (shards ! idx))))"

text \<open>Storing the shard on its node and recording it there.\<close>

definition place_shard :: "ext \<Rightarrow> 'w mesh \<Rightarrow> audit_env \<Rightarrow> string \<Rightarrow> nat \<Rightarrow> string \<times> sock_addr \<Rightarrow> (string + bytes) outcome \<Rightarrow> 'w rb_state
    \<Rightarrow> ((string + unit) \<times> 'w rb_state) outcome" where
  "place_shard E M A file_hash idx target piece st =
     bind_out piece (\<lambda>res. Done (
       case res of
         Inl e \<Rightarrow> (Err e, st)
       | Inr shard_data \<Rightarrow>
           (case upload_shard_to_node E M (av_rb A) (snd target) shard_data st of
              (Inl e, st1) \<Rightarrow> (Err e, st1)
            | (Inr new_shard_hash, st1) \<Rightarrow> record_repair A file_hash idx (fst target) new_shard_hash st1)))"

text \<open>Without a key: looking for the recorded shard on the other nodes.\<close>

fun repair_from_nodes :: "ext \<Rightarrow> 'w mesh \<Rightarrow> audit_env \<Rightarrow> string \<Rightarrow> nat \<Rightarrow> string \<times> sock_addr \<Rightarrow> string \<Rightarrow> (string \<times> sock_addr) list \<Rightarrow> 'w rb_state
    \<Rightarrow> ((string + unit) \<times> 'w rb_state) outcome" where
  "repair_from_nodes E M A file_hash idx target expected [] st =
     Done (Err (''Unrecoverable: shard '' @ show_nat idx @ '' of '' @ file_hash @ '' not found on any node and no encryption key stored''), st)"
| "repair_from_nodes E M A file_hash idx target expected ((nid, addr) # ns) st =
     (if nid = fst target then repair_from_nodes E M A file_hash idx target expected ns st
      else bind_out (retrieve_shard E (dial_env M (av_rb A) st) (rv_hex_err (av_rb A)) (rv_identity (av_rb A)) addr expected) (\<lambda>res.
        case res of
          Inl e \<Rightarrow> repair_from_nodes E M A file_hash idx target expected ns st
        | Inr data \<Rightarrow>
            if hex_encode E (blake3 E data) \<noteq> expected then repair_from_nodes E M A file_hash idx target expected ns st
            else (case upload_shard_to_node E M (av_rb A) (snd target) data st of
                    (Inl e, st1) \<Rightarrow> Done (Err e, st1)
                  | (Inr new_hash, st1) \<Rightarrow> Done (update_repaired A file_hash idx (fst target) new_hash st1))))"

definition repair_elsewhere :: "ext \<Rightarrow> 'w mesh \<Rightarrow> audit_env \<Rightarrow> string \<Rightarrow> nat \<Rightarrow> string \<times> sock_addr \<Rightarrow> (string \<times> sock_addr) list \<Rightarrow> 'w rb_state
    \<Rightarrow> ((string + unit) \<times> 'w rb_state) outcome" where
  "repair_elsewhere E M A file_hash idx target active_nodes st =
     (case av_repair_fails A file_hash idx RepairRow of
        Some e \<Rightarrow> Done (Err e, st)
      | None \<Rightarrow>
          (case filter (\<lambda>s. sr_file s = file_hash \<and> sr_index s = as_i32 idx) (db_shards (rs_db st)) of
             [] \<Rightarrow> Done (Err ''No shard record found in DB'', st)
           | s # _ \<Rightarrow> repair_from_nodes E M A file_hash idx target (sr_hash s) active_nodes st))"

definition repair_segmented :: "ext \<Rightarrow> 'w mesh \<Rightarrow> audit_env \<Rightarrow> string \<Rightarrow> nat \<Rightarrow> string \<times> sock_addr \<Rightarrow> media_row \<Rightarrow> 'w rb_state
    \<Rightarrow> ((string + unit) \<times> 'w rb_state) outcome" where
  "repair_segmented E M A file_hash idx target row st =
     (let data_shards = as_usize (case mr_data_shards row of Some d \<Rightarrow> d | None \<Rightarrow> 3);
          parity_shards = as_usize (case mr_parity_shards row of Some p \<Rightarrow> p | None \<Rightarrow> 2);
          total_shards = (data_shards + parity_shards) mod 2 ^ 64 in
      case mr_key row of
        None \<Rightarrow> Done (Err (''No encryption key stored for segmented file '' @ file_hash @ '' '' @ em_dash @ '' cannot repair''), st)
      | Some key_enc \<Rightarrow>
          (case rv_api_key (av_rb A) of
             Inl e \<Rightarrow> Done (Err (''Failed to retrieve API key: '' @ e), st)
           | Inr api_secret \<Rightarrow>
               (case decrypt_key E (rv_sha256 (av_rb A)) (rs_cache st) key_enc api_secret of
                  (Inl e, c) \<Rightarrow> Done (Err e, st\<lparr>rs_cache := c\<rparr>)
                | (Inr key, c) \<Rightarrow>
                    if idx \<ge> total_shards
                    then Done (Err (''Shard index '' @ show_nat idx @ '' out of range (total '' @ show_nat total_shards @ '')''), st\<lparr>rs_cache := c\<rparr>)
                    else place_shard E M A file_hash idx target
                           (reshard_segmented E A file_hash idx (mr_ext row) key data_shards parity_shards) (st\<lparr>rs_cache := c\<rparr>))))"

definition repair_unsegmented :: "ext \<Rightarrow> 'w mesh \<Rightarrow> audit_env \<Rightarrow> string \<Rightarrow> nat \<Rightarrow> string \<times> sock_addr \<Rightarrow> (string \<times> sock_addr) list \<Rightarrow> 'w rb_state
    \<Rightarrow> ((string + unit) \<times> 'w rb_state) outcome" where
  "repair_unsegmented E M A file_hash idx target active_nodes st =
     (case rv_api_key (av_rb A) of
        Inl e \<Rightarrow> Done (Err (''Failed to retrieve API key: '' @ e), st)
      | Inr api_key \<Rightarrow>
          (case find_file_info E (rv_sha256 (av_rb A)) (av_repair_fails A file_hash idx RepairImages) (av_repair_fails A file_hash idx RepairVideos)
                  (rs_db st) (rs_cache st) file_hash api_key of
             (Inl e, c) \<Rightarrow> Done (Err e, st\<lparr>rs_cache := c\<rparr>)
           | (Inr (Some (file_ext, Some key, enc_size, data_shards, parity_shards)), c) \<Rightarrow>
               place_shard E M A file_hash idx target (reshard_single E A file_hash idx file_ext key data_shards parity_shards) (st\<lparr>rs_cache := c\<rparr>)
           | (Inr _, c) \<Rightarrow> repair_elsewhere E M A file_hash idx target active_nodes (st\<lparr>rs_cache := c\<rparr>)))"

definition segmented_rows :: "db \<Rightarrow> string \<Rightarrow> media_row list" where
  "segmented_rows db file_hash = filter (\<lambda>m. mr_hash m = file_hash \<and> mr_seg_count m > 1) (db_images db @ db_videos db)"

definition repair_file :: "ext \<Rightarrow> 'w mesh \<Rightarrow> audit_env \<Rightarrow> string \<Rightarrow> nat \<Rightarrow> 'w rb_state \<Rightarrow> ((string + unit) \<times> 'w rb_state) outcome" where
  "repair_file E M A file_hash idx st =
     (case av_repair_fails A file_hash idx RepairConn of
        Some e \<Rightarrow> Done (Err e, st)
      | None \<Rightarrow>
          (case repair_nodes A file_hash idx st of
             (Inl e, st1) \<Rightarrow> Done (Err e, st1)
           | (Inr active_nodes, st1) \<Rightarrow>
               if length active_nodes < MIN_NODES_REQUIRED then Done (Err ''Not enough active nodes for repair'', st1)
               else
                 let ideal_nodes = rendezvous_select E file_hash active_nodes (min SHARD_COUNT (length active_nodes));
                     target = ideal_nodes ! (idx mod length ideal_nodes) in
                 (case av_repair_fails A file_hash idx RepairSegments of
                    Some e \<Rightarrow> Done (Err e, st1)
                  | None \<Rightarrow>
                      (case segmented_rows (rs_db st1) file_hash of
                         row # _ \<Rightarrow> repair_segmented E M A file_hash idx target row st1
                       | [] \<Rightarrow> repair_unsegmented E M A file_hash idx target active_nodes st1))))"

section \<open>Auditing the catalog\<close>

definition AUDIT_MS :: int where "AUDIT_MS = 7 * 24 * 60 * 60 * 1000"

definition audit_due :: "int \<Rightarrow> db \<Rightarrow> shard_row list" where
  "audit_due now db = take 50 (filter (\<lambda>s. case sr_checked s of None \<Rightarrow> True | Some t \<Rightarrow> t < now - AUDIT_MS) (db_shards db))"

text \<open>When the shard cannot be fetched, the node's inventory is asked; \<open>expected_shard_hash[..2]\<close> may panic.\<close>

definition in_inventory :: "ext \<Rightarrow> up_env \<Rightarrow> node_identity \<Rightarrow> sock_addr \<Rightarrow> string \<Rightarrow> bool outcome" where
  "in_inventory E U i addr expected =
     (if length expected < 2 then Done False
      else if \<not> char_boundary expected 2 then Panic
      else Done (case hex_decode E expected of
             None \<Rightarrow> False
           | Some h \<Rightarrow> length h = 32 \<and>
               (case list_remote_shards E U i addr (Some (take 2 expected)) of
                  Inl e \<Rightarrow> False
                | Inr (remote_shards, space) \<Rightarrow> h \<in> set remote_shards)))"

definition shard_present :: "ext \<Rightarrow> up_env \<Rightarrow> (string \<Rightarrow> string) \<Rightarrow> node_identity \<Rightarrow> sock_addr \<Rightarrow> string \<Rightarrow> bool outcome" where
  "shard_present E U hex_err i addr expected =
     bind_out (retrieve_shard E U hex_err i addr expected) (\<lambda>res.
       case res of
         Inr data \<Rightarrow> Done (hex_encode E (blake3 E data) = expected)
       | Inl e \<Rightarrow> in_inventory E U i addr expected)"

definition stamp_row :: "int \<Rightarrow> string \<Rightarrow> int \<Rightarrow> db \<Rightarrow> db" where
  "stamp_row now file_hash idx db =
     db\<lparr>db_shards := map (\<lambda>s. if sr_file s = file_hash \<and> sr_index s = idx then s\<lparr>sr_checked := Some now\<rparr> else s) (db_shards db)\<rparr>"

fun audit_rows :: "ext \<Rightarrow> 'w mesh \<Rightarrow> audit_env \<Rightarrow> shard_row list \<Rightarrow> 'w rb_state \<Rightarrow> 'w rb_state outcome" where
  "audit_rows E M A [] st = Done st"
| "audit_rows E M A (row # rows) st =
     (case lookup_addr (av_rb A) (av_fails A 0 (AuditLookup (sr_file row) (sr_index row)) = None) (sr_node row) st of
        (None, st1) \<Rightarrow> audit_rows E M A rows st1
      | (Some addr, st1) \<Rightarrow>
          bind_out (shard_present E (dial_env M (av_rb A) st1) (rv_hex_err (av_rb A)) (rv_identity (av_rb A)) addr (sr_hash row)) (\<lambda>success.
            if success
            then audit_rows E M A rows
                   (if av_fails A 0 (AuditStamp (sr_file row) (sr_index row)) = None
                    then st1\<lparr>rs_db := stamp_row (rv_now (av_rb A)) (sr_file row) (sr_index row) (rs_db st1)\<rparr> else st1)
            else bind_out (repair_file E M A (sr_file row) (as_usize (sr_index row)) st1) (\<lambda>(res, st2). audit_rows E M A rows st2)))"

section \<open>Consistency of the catalog\<close>

text \<open>The scalar subqueries of \<open>find_undersharded_files\<close>: more than one row is an error.  The conditions are
  evaluated from left to right, for as many rows as the limit asks for.\<close>

definition data_shards_subquery :: "string \<Rightarrow> string \<Rightarrow> media_row list \<Rightarrow> string + int option" where
  "data_shards_subquery err h rows =
     (case filter (\<lambda>m. mr_hash m = h) rows of [] \<Rightarrow> Ok None | [m] \<Rightarrow> Ok (mr_data_shards m) | _ \<Rightarrow> Err err)"

definition needed_shards :: "string \<Rightarrow> db \<Rightarrow> string \<Rightarrow> string + int" where
  "needed_shards err db h =
     bind_res (data_shards_subquery err h (db_images db)) (\<lambda>i.
       case i of Some n \<Rightarrow> Ok n
       | None \<Rightarrow> bind_res (data_shards_subquery err h (db_videos db)) (\<lambda>v. Ok (case v of Some n \<Rightarrow> n | None \<Rightarrow> 3)))"

fun undersharded :: "string \<Rightarrow> db \<Rightarrow> string list \<Rightarrow> nat \<Rightarrow> string + string list" where
  "undersharded err db [] n = Ok []"
| "undersharded err db (h # hs) 0 = Ok []"
| "undersharded err db (h # hs) (Suc n) =
     (if file_rows db h = [] then bind_res (undersharded err db hs n) (\<lambda>r. Ok (h # r))
      else bind_res (needed_shards err db h) (\<lambda>needed.
        if int (length (file_rows db h)) < needed then bind_res (undersharded err db hs n) (\<lambda>r. Ok (h # r))
        else undersharded err db hs (Suc n)))"

definition synced_files :: "db \<Rightarrow> string list" where
  "synced_files db = map mr_hash (filter (\<lambda>m. mr_synced_at m \<noteq> None) (db_images db @ db_videos db))"

definition find_undersharded_files :: "audit_env \<Rightarrow> nat \<Rightarrow> db \<Rightarrow> string + string list" where
  "find_undersharded_files A limit db =
     (case av_fails A 1 UnderConn of
        Some e \<Rightarrow> Err e
      | None \<Rightarrow>
          (case av_fails A 1 UnderQuery of
             Some e \<Rightarrow> Err e
           | None \<Rightarrow> undersharded (av_subquery_err A) db (synced_files db) limit))"

fun repair_indexes :: "ext \<Rightarrow> 'w mesh \<Rightarrow> audit_env \<Rightarrow> string \<Rightarrow> nat list \<Rightarrow> 'w rb_state \<Rightarrow> 'w rb_state outcome" where
  "repair_indexes E M A file_hash [] st = Done st"
| "repair_indexes E M A file_hash (i # is) st =
     bind_out (repair_file E M A file_hash i st) (\<lambda>(res, st1). repair_indexes E M A file_hash is st1)"

definition reset_synced :: "audit_env \<Rightarrow> string \<Rightarrow> media_table \<Rightarrow> db \<Rightarrow> db" where
  "reset_synced A file_hash table db =
     (if av_fails A 1 (FixReset file_hash table) = None
      then update_media table (where_hash file_hash (\<lambda>m. m\<lparr>mr_synced_at := None\<rparr>)) db else db)"

fun fix_files :: "ext \<Rightarrow> 'w mesh \<Rightarrow> audit_env \<Rightarrow> string list \<Rightarrow> 'w rb_state \<Rightarrow> ((string + unit) \<times> 'w rb_state) outcome" where
  "fix_files E M A [] st = Done (Ok (), st)"
| "fix_files E M A (f # fs) st =
     (case av_fails A 1 (FixCount f) of
        Some e \<Rightarrow> Done (Err e, st)
      | None \<Rightarrow>
          if file_rows (rs_db st) f = []
          then fix_files E M A fs (st\<lparr>rs_db := reset_synced A f Videos (reset_synced A f Images (rs_db st))\<rparr>)
          else bind_out (repair_indexes E M A f [0..<SHARD_COUNT] st) (\<lambda>st1. fix_files E M A fs st1))"

definition sync_registry :: "audit_env \<Rightarrow> nat \<Rightarrow> 'w rb_state \<Rightarrow> 'w rb_state" where
  "sync_registry A k st = st\<lparr>rs_registry :=
     sync_db_nodes_to_registry (av_sync_answers A k) (rv_parse_addr (av_rb A)) (rv_clock (av_rb A)) (rs_db st) (rs_registry st)\<rparr>"

definition check_consistency :: "ext \<Rightarrow> 'w mesh \<Rightarrow> audit_env \<Rightarrow> 'w audit_state \<Rightarrow> ((string + bool) \<times> 'w audit_state) outcome" where
  "check_consistency E M A st =
     (case cleanup_orphaned_shards_with_service E M A 1 True (sync_registry A 1 (as_rb st)) of
        (Inl e, rb) \<Rightarrow> Done (Err e, st\<lparr>as_rb := rb\<rparr>)
      | (Inr _, rb) \<Rightarrow>
          let st1 = snd (sweep_storage_node_orphans E M A 1 (st\<lparr>as_rb := rb\<rparr>)) in
          (case find_undersharded_files A 10 (rs_db (as_rb st1)) of
             Inl e \<Rightarrow> Done (Err e, st1)
           | Inr file_hashes \<Rightarrow>
               if file_hashes = [] then Done (Ok False, st1)
               else (case av_fails A 1 FixConn of
                       Some e \<Rightarrow> Done (Err e, st1)
                     | None \<Rightarrow>
                         bind_out (fix_files E M A file_hashes (as_rb st1)) (\<lambda>(res, rb1).
                           Done (bind_res res (\<lambda>_. Ok True), st1\<lparr>as_rb := rb1\<rparr>)))))"

definition perform_audit :: "ext \<Rightarrow> 'w mesh \<Rightarrow> audit_env \<Rightarrow> 'w audit_state \<Rightarrow> ((string + bool) \<times> 'w audit_state) outcome" where
  "perform_audit E M A st =
     (let st1 = st\<lparr>as_rb := snd (cleanup_orphaned_shards_with_service E M A 0 True (sync_registry A 0 (as_rb st)))\<rparr>;
          st2 = (if av_timestamp A - as_last_sweep st1 > 86400
                 then snd (sweep_storage_node_orphans E M A 0 (st1\<lparr>as_last_sweep := av_timestamp A\<rparr>)) else st1) in
      case av_fails A 0 AuditConn of
        Some e \<Rightarrow> Done (Err e, st2)
      | None \<Rightarrow>
          (case av_fails A 0 AuditSelect of
             Some e \<Rightarrow> Done (Err e, st2)
           | None \<Rightarrow>
               let rows = audit_due (rv_now (av_rb A)) (rs_db (as_rb st2)) in
               if rows = [] then check_consistency E M A st2
               else bind_out (audit_rows E M A rows (as_rb st2)) (\<lambda>rb. Done (Ok True, st2\<lparr>as_rb := rb\<rparr>))))"

section \<open>The sweep keeps what is referenced\<close>

lemma prune_frame: "prune_hashes E M A nid a valid hs st = (n, st') \<Longrightarrow> \<exists>w. st' = st\<lparr>as_rb := (as_rb st)\<lparr>rs_mesh := w\<rparr>\<rparr>"
proof (induction hs arbitrary: st n)
  case (Cons h hs)
  have w: "\<exists>w. with_rb (delete_old_shard E M (av_rb A) a h) st = st\<lparr>as_rb := (as_rb st)\<lparr>rs_mesh := w\<rparr>\<rparr>"
  proof -
    have "\<exists>w. delete_old_shard E M (av_rb A) a h (as_rb st) = (as_rb st)\<lparr>rs_mesh := w\<rparr>"
      by (auto simp: delete_old_shard_def after_stream_def intro: exI[of _ "rs_mesh (as_rb st)"])
    then show ?thesis by (auto simp: with_rb_def)
  qed
  show ?case
  proof (cases "h \<in> set valid \<or> is_recently_stored (av_instant A) (as_statics st) nid h")
    case False
    then obtain m where "prune_hashes E M A nid a valid hs (with_rb (delete_old_shard E M (av_rb A) a h) st) = (m, st')"
      using Cons.prems by (auto simp: Let_def split: prod.splits)
    from Cons.IH[OF this] w show ?thesis by auto
  qed (use Cons in auto)
next
  case Nil
  then show ?case by (intro exI[of _ "rs_mesh (as_rb st)"]) simp
qed

lemma sweep_prefixes_frame: "sweep_prefixes E M A k nid a is st = (r, st') \<Longrightarrow> \<exists>w. st' = st\<lparr>as_rb := (as_rb st)\<lparr>rs_mesh := w\<rparr>\<rparr>"
proof (induction "is" arbitrary: r st)
  case Nil
  then show ?case by (intro exI[of _ "rs_mesh (as_rb st)"]) simp
next
  case (Cons i "is")
  show ?case
  proof (cases "list_remote_shards E (dial_env M (av_rb A) (as_rb st)) (rv_identity (av_rb A)) a (Some (hex2 i))")
    case (Inr x)
    then obtain hs sp where l: "list_remote_shards E (dial_env M (av_rb A) (as_rb st)) (rv_identity (av_rb A)) a (Some (hex2 i)) = Ok (hs, sp)"
      by (cases x) auto
    obtain n st1 where p: "prune_hashes E M A nid a (filter (referenced st) (map (hex_encode E) hs)) (map (hex_encode E) hs) st = (n, st1)" by fastforce
    from prune_frame[OF p] obtain w where w: "st1 = st\<lparr>as_rb := (as_rb st)\<lparr>rs_mesh := w\<rparr>\<rparr>" by blast
    have same: "\<exists>w. st = st\<lparr>as_rb := (as_rb st)\<lparr>rs_mesh := w\<rparr>\<rparr>" by (intro exI[of _ "rs_mesh (as_rb st)"]) simp
    show ?thesis
    proof (cases "hs = [] \<or> av_fails A k (SweepQuery nid i) \<noteq> None")
      case True
      then have "st' = st \<or> sweep_prefixes E M A k nid a is st = (r, st')" using Cons.prems l by (auto split: if_splits)
      then show ?thesis using same Cons.IH[of st] by blast
    next
      case False
      then obtain r1 where "sweep_prefixes E M A k nid a is st1 = (r1, st')"
        using Cons.prems l p by (auto split: prod.splits)
      from Cons.IH[OF this] show ?thesis using w by auto
    qed
  qed (use Cons in auto)
qed

lemma referenced_mesh [simp]: "referenced (st\<lparr>as_rb := (as_rb st)\<lparr>rs_mesh := w\<rparr>\<rparr>) = referenced st"
  by (rule ext) (simp add: referenced_def)

context shard_mesh
begin

lemma prune_keep:
  assumes "good E"
  shows "prune_hashes E (mesh E) A nid a valid hs st = (n, st') \<Longrightarrow> \<forall>x \<in> set hs. x \<notin> set valid \<longrightarrow> hex_decode E x \<noteq> Some h \<Longrightarrow>
     holds E (rs_mesh (as_rb st)) b h \<Longrightarrow> holds E (rs_mesh (as_rb st')) b h"
proof (induction hs arbitrary: st n)
  case (Cons x hs)
  show ?case
  proof (cases "x \<in> set valid \<or> is_recently_stored (av_instant A) (as_statics st) nid x")
    case False
    then obtain m where "prune_hashes E (mesh E) A nid a valid hs (with_rb (delete_old_shard E (mesh E) (av_rb A) a x) st) = (m, st')"
      using Cons.prems by (auto simp: Let_def split: prod.splits)
    moreover have "holds E (rs_mesh (as_rb (with_rb (delete_old_shard E (mesh E) (av_rb A) a x) st))) b h"
      using delete_kept[OF assms Cons.prems(3)] Cons.prems(2) False by (simp add: with_rb_def)
    ultimately show ?thesis using Cons.IH Cons.prems(2) by simp
  qed (use Cons in auto)
qed simp

lemma sweep_prefixes_keep:
  assumes "good E"
  shows "sweep_prefixes E (mesh E) A k nid a is st = (r, st') \<Longrightarrow> referenced st (hex_encode E h) \<Longrightarrow>
     holds E (rs_mesh (as_rb st)) b h \<Longrightarrow> holds E (rs_mesh (as_rb st')) b h"
proof (induction "is" arbitrary: r st)
  case (Cons i "is")
  show ?case
  proof (cases "list_remote_shards E (dial_env (mesh E) (av_rb A) (as_rb st)) (rv_identity (av_rb A)) a (Some (hex2 i))")
    case (Inr x)
    then obtain hs sp where l: "list_remote_shards E (dial_env (mesh E) (av_rb A) (as_rb st)) (rv_identity (av_rb A)) a (Some (hex2 i)) = Ok (hs, sp)"
      by (cases x) auto
    let ?xs = "map (hex_encode E) hs"
    obtain n st1 where p: "prune_hashes E (mesh E) A nid a (filter (referenced st) ?xs) ?xs st = (n, st1)" by fastforce
    from prune_frame[OF p] obtain w where w: "st1 = st\<lparr>as_rb := (as_rb st)\<lparr>rs_mesh := w\<rparr>\<rparr>" by blast
    have "\<forall>x \<in> set ?xs. x \<notin> set (filter (referenced st) ?xs) \<longrightarrow> hex_decode E x \<noteq> Some h"
      using Cons.prems(2) hex_decode_encode[OF good_hex[OF assms]] by auto
    from prune_keep[OF assms p this Cons.prems(3)] have h1: "holds E (rs_mesh (as_rb st1)) b h" .
    have "referenced st1 (hex_encode E h)" using Cons.prems(2) w by simp
    then show ?thesis
      using Cons.prems l p h1 Cons.IH[of st1] Cons.IH[of st]
      by (cases "hs = []"; cases "av_fails A k (SweepQuery nid i)") (auto split: prod.splits)
  qed (use Cons in auto)
qed simp

lemma sweep_nodes_keep:
  assumes "good E" "sweep_nodes E (mesh E) A k nids st = (r, st')" "located loc (rv_parse_addr (av_rb A)) (rs_registry (as_rb st)) (rs_db (as_rb st))"
  shows "\<exists>w g. st' = st\<lparr>as_rb := (as_rb st)\<lparr>rs_mesh := w, rs_registry := g\<rparr>\<rparr> \<and> located loc (rv_parse_addr (av_rb A)) g (rs_db (as_rb st))
     \<and> (\<forall>b h. referenced st (hex_encode E h) \<and> holds E (rs_mesh (as_rb st)) b h \<longrightarrow> holds E w b h)"
  using assms(2,3)
proof (induction nids arbitrary: r st)
  case Nil
  then show ?case by (auto intro!: exI[of _ "rs_mesh (as_rb st)"] exI[of _ "rs_registry (as_rb st)"])
next
  case (Cons nid nids)
  obtain a rb where l: "lookup_addr (av_rb A) (av_fails A k (SweepLookup nid) = None) nid (as_rb st) = (a, rb)" by fastforce
  note lf = lookup_addr_frame[OF l] and ll = located_lookup(1)[OF Cons.prems(2) l]
  have rb: "rb = (as_rb st)\<lparr>rs_mesh := rs_mesh (as_rb st), rs_registry := rs_registry rb\<rparr>" using lf by simp
  let ?st = "st\<lparr>as_rb := rb\<rparr>"
  have ref: "referenced ?st = referenced st" using lf by (intro ext) (simp add: referenced_def)
  have go: ?case if n: "sweep_nodes E (mesh E) A k nids st1 = (r1, st')" "st1 = ?st\<lparr>as_rb := rb\<lparr>rs_mesh := w1\<rparr>\<rparr>"
      "\<And>b h. referenced st (hex_encode E h) \<Longrightarrow> holds E (rs_mesh (as_rb st)) b h \<Longrightarrow> holds E w1 b h" for st1 r1 w1
  proof -
    have "located loc (rv_parse_addr (av_rb A)) (rs_registry (as_rb st1)) (rs_db (as_rb st1))" using ll lf n(2) by simp
    from Cons.IH[OF n(1) this] obtain w g where
      "st' = st1\<lparr>as_rb := (as_rb st1)\<lparr>rs_mesh := w, rs_registry := g\<rparr>\<rparr>" "located loc (rv_parse_addr (av_rb A)) g (rs_db (as_rb st1))"
      "\<forall>b h. referenced st1 (hex_encode E h) \<and> holds E (rs_mesh (as_rb st1)) b h \<longrightarrow> holds E w b h" by blast
    moreover have "referenced st1 = referenced st" using n(2) lf by (intro ext) (simp add: referenced_def)
    ultimately show ?thesis using n(2,3) lf rb by (intro exI[of _ w] exI[of _ g]) auto
  qed
  show ?case
  proof (cases a)
    case None
    then have "sweep_nodes E (mesh E) A k nids ?st = (r, st')" using Cons.prems(1) l by simp
    then show ?thesis by (rule go[of _ _ "rs_mesh rb"]) (use lf in auto)
  next
    case (Some addr)
    obtain q st1 where s: "sweep_prefixes E (mesh E) A k nid addr [0..<256] ?st = (q, st1)" by fastforce
    from sweep_prefixes_frame[OF s] obtain w1 where w1: "st1 = ?st\<lparr>as_rb := rb\<lparr>rs_mesh := w1\<rparr>\<rparr>" by auto
    have k1: "referenced st (hex_encode E h) \<Longrightarrow> holds E (rs_mesh (as_rb st)) b h \<Longrightarrow> holds E w1 b h" for b h
      using sweep_prefixes_keep[OF assms(1) s] ref lf w1 by simp
    show ?thesis
    proof (cases q)
      case (Inl e)
      then have "st' = st1" using Cons.prems(1) l Some s by (simp del: upt_rec_numeral)
      moreover have "rb\<lparr>rs_mesh := w1\<rparr> = (as_rb st)\<lparr>rs_mesh := w1, rs_registry := rs_registry rb\<rparr>" using lf by simp
      ultimately show ?thesis using w1 k1 ll by (intro exI[of _ w1] exI[of _ "rs_registry rb"]) auto
    next
      case (Inr n)
      then obtain r1 where "sweep_nodes E (mesh E) A k nids st1 = (r1, st')" using Cons.prems(1) l Some s by (auto split: prod.splits simp del: upt_rec_numeral)
      then show ?thesis by (rule go[of _ _ w1]) (use w1 k1 in auto)
    qed
  qed
qed

lemma sweep_keep:
  assumes "good E" "located loc (rv_parse_addr (av_rb A)) (rs_registry (as_rb st)) (rs_db (as_rb st))"
  shows "\<exists>w g. snd (sweep_storage_node_orphans E (mesh E) A k st) = st\<lparr>as_rb := (as_rb st)\<lparr>rs_mesh := w, rs_registry := g\<rparr>\<rparr>
     \<and> located loc (rv_parse_addr (av_rb A)) g (rs_db (as_rb st))
     \<and> (\<forall>b h. referenced st (hex_encode E h) \<and> holds E (rs_mesh (as_rb st)) b h \<longrightarrow> holds E w b h)"
proof -
  let ?ns = "map nr_id (filter nr_active (db_nodes (rs_db (as_rb st))))"
  have "\<exists>w g. st = st\<lparr>as_rb := (as_rb st)\<lparr>rs_mesh := w, rs_registry := g\<rparr>\<rparr>
     \<and> located loc (rv_parse_addr (av_rb A)) g (rs_db (as_rb st))
     \<and> (\<forall>b h. referenced st (hex_encode E h) \<and> holds E (rs_mesh (as_rb st)) b h \<longrightarrow> holds E w b h)"
    using assms(2) by (intro exI[of _ "rs_mesh (as_rb st)"] exI[of _ "rs_registry (as_rb st)"]) simp
  moreover obtain r st' where "sweep_nodes E (mesh E) A k ?ns st = (r, st')" by fastforce
  ultimately show ?thesis
    using sweep_nodes_keep[OF assms(1) _ assms(2)] by (auto simp: sweep_storage_node_orphans_def split: option.splits)
qed

end

section \<open>The purge touches orphans only\<close>

context shard_mesh
begin

lemma delete_remotely_keep:
  assumes "good E"
  shows "located loc (rv_parse_addr (av_rb A)) (rs_registry st) (rs_db st) \<Longrightarrow>
    \<exists>w g. delete_remotely E (mesh E) A k rows st = st\<lparr>rs_mesh := w, rs_registry := g\<rparr> \<and> located loc (rv_parse_addr (av_rb A)) g (rs_db st)
     \<and> (\<forall>b h. holds E (rs_mesh st) b h \<and> (\<forall>s \<in> set rows. hex_decode E (sr_hash s) \<noteq> Some h) \<longrightarrow> holds E w b h)"
proof (induction rows arbitrary: st)
  case Nil
  then show ?case by (intro exI[of _ "rs_mesh st"] exI[of _ "rs_registry st"]) simp
next
  case (Cons s rows)
  obtain a st1 where l: "lookup_addr (av_rb A) (av_fails A k (PurgeLookup (sr_node s)) = None) (sr_node s) st = (a, st1)" by fastforce
  note lf = lookup_addr_frame[OF l] and ll = located_lookup(1)[OF Cons.prems l]
  define st2 where "st2 = (case a of Some addr \<Rightarrow> delete_old_shard E (mesh E) (av_rb A) addr (sr_hash s) st1 | None \<Rightarrow> st1)"
  have run: "delete_remotely E (mesh E) A k (s # rows) st = delete_remotely E (mesh E) A k rows st2"
    using l by (simp add: st2_def split: option.splits)
  have "st2 = st\<lparr>rs_mesh := rs_mesh st2, rs_registry := rs_registry st1\<rparr>"
    using lf by (cases a) (simp_all add: st2_def delete_old_shard_def after_stream_def)
  then have st2: "\<exists>w. st2 = st\<lparr>rs_mesh := w, rs_registry := rs_registry st1\<rparr>" by blast
  then have "located loc (rv_parse_addr (av_rb A)) (rs_registry st2) (rs_db st2)" using ll by auto
  from Cons.IH[OF this] st2 obtain w g where w: "delete_remotely E (mesh E) A k rows st2 = st\<lparr>rs_mesh := w, rs_registry := g\<rparr>"
    "located loc (rv_parse_addr (av_rb A)) g (rs_db st)"
    "\<And>b h. holds E (rs_mesh st2) b h \<Longrightarrow> \<forall>s \<in> set rows. hex_decode E (sr_hash s) \<noteq> Some h \<Longrightarrow> holds E w b h" by auto
  have "holds E (rs_mesh st) b h \<Longrightarrow> hex_decode E (sr_hash s) \<noteq> Some h \<Longrightarrow> holds E (rs_mesh st2) b h" for b h
    using delete_kept[OF assms, of st1 b h _ "sr_hash s"] lf by (auto simp: st2_def split: option.splits)
  then show ?case using run w by (intro exI[of _ w] exI[of _ g]) auto
qed

lemma cleanup_keep:
  assumes "good E" "cleanup_orphaned_shards_with_service E (mesh E) A k b st = (r, st')"
    "located loc (rv_parse_addr (av_rb A)) (rs_registry st) (rs_db st)"
  shows "\<exists>w g rows. st' = st\<lparr>rs_mesh := w, rs_registry := g, rs_db := (rs_db st)\<lparr>db_shards := rows\<rparr>\<rparr> \<and> located loc (rv_parse_addr (av_rb A)) g (rs_db st)
     \<and> (rows = db_shards (rs_db st) \<or> rows = filter (\<lambda>s. \<not> orphan (rs_db st) s) (db_shards (rs_db st)))
     \<and> (is_ok r \<longrightarrow> rows = filter (\<lambda>s. \<not> orphan (rs_db st) s) (db_shards (rs_db st)))
     \<and> (\<forall>b h. holds E (rs_mesh st) b h \<and> (\<forall>s \<in> set (db_shards (rs_db st)). orphan (rs_db st) s \<longrightarrow> hex_decode E (sr_hash s) \<noteq> Some h) \<longrightarrow> holds E w b h)"
proof -
  let ?rows = "take 1000 (filter (orphan (rs_db st)) (db_shards (rs_db st)))"
  have sub: "set ?rows \<subseteq> {s \<in> set (db_shards (rs_db st)). orphan (rs_db st) s}" using set_take_subset by fastforce
  define st1 where "st1 = (if b then delete_remotely E (mesh E) A k ?rows st else st)"
  obtain w g where w: "st1 = st\<lparr>rs_mesh := w, rs_registry := g\<rparr>" "located loc (rv_parse_addr (av_rb A)) g (rs_db st)"
    "\<And>b h. holds E (rs_mesh st) b h \<Longrightarrow> \<forall>s \<in> set ?rows. hex_decode E (sr_hash s) \<noteq> Some h \<Longrightarrow> holds E w b h"
  proof (cases b)
    case True
    then show thesis using delete_remotely_keep[OF assms(1,3), of k ?rows] that by (auto simp: st1_def)
  next
    case False
    then show thesis using assms(3) by (intro that[of "rs_registry st" "rs_mesh st"]) (simp_all add: st1_def)
  qed
  have keep: "\<And>b h. holds E (rs_mesh st) b h \<Longrightarrow> \<forall>s \<in> set (db_shards (rs_db st)). orphan (rs_db st) s \<longrightarrow> hex_decode E (sr_hash s) \<noteq> Some h \<Longrightarrow> holds E w b h"
    by (rule w(3)) (use sub in blast)+
  consider "st' = st" "\<not> is_ok r" | "st' = st1" "\<not> is_ok r"
    | "st' = st1\<lparr>rs_db := (rs_db st1)\<lparr>db_shards := filter (\<lambda>s. \<not> orphan (rs_db st1) s) (db_shards (rs_db st1))\<rparr>\<rparr>"
    using assms(2) unfolding cleanup_orphaned_shards_with_service_def st1_def[symmetric] Let_def by (auto split: option.splits)
  then show ?thesis
  proof cases
    case 1
    then show ?thesis using assms(3)
      by (intro exI[of _ "rs_mesh st"] exI[of _ "rs_registry st"] exI[of _ "db_shards (rs_db st)"]) simp
  next
    case 2
    then show ?thesis using w(1,2) keep by (intro exI[of _ w] exI[of _ g] exI[of _ "db_shards (rs_db st)"]) simp
  next
    case 3
    then show ?thesis using w(1,2) keep
      by (intro exI[of _ w] exI[of _ g] exI[of _ "filter (\<lambda>s. \<not> orphan (rs_db st) s) (db_shards (rs_db st))"]) simp
  qed
qed

end

section \<open>A repair writes one row, and what it says is true\<close>

lemma upsert_repaired_keys: "map shard_key (upsert_repaired_rows s rs) =
    (if shard_key s \<in> shard_key ` set rs then map shard_key rs else map shard_key rs @ [shard_key s])"
  by (induction rs) (auto simp: shard_key_def)

interpretation repaired: keyed_table shard_key "\<lambda>s. (sr_node s, sr_hash s)" upsert_repaired_rows
proof (unfold_locales, goal_cases)
  case (1 x rs)
  show ?case by (induction rs) (auto simp: shard_key_def fun_eq_iff)
next
  case (2 rs x)
  then show ?case by (auto simp: upsert_repaired_keys)
qed

lemma update_as_upsert:
  assumes "distinct (map shard_key rows)" "(f, i) \<in> shard_key ` set rows"
  shows "map (\<lambda>s. if sr_file s = f \<and> sr_index s = i then s\<lparr>sr_node := n, sr_hash := x, sr_checked := t\<rparr> else s) rows
    = upsert_repaired_rows \<lparr>sr_file = f, sr_index = i, sr_node = n, sr_hash = x, sr_checked = t\<rparr> rows"
  using assms
proof (induction rows)
  case (Cons r rows)
  show ?case
  proof (cases "sr_file r = f \<and> sr_index r = i")
    case True
    then have "(f, i) \<notin> shard_key ` set rows" using Cons.prems(1) by (auto simp: shard_key_def)
    then have "map (\<lambda>s. if sr_file s = f \<and> sr_index s = i then s\<lparr>sr_node := n, sr_hash := x, sr_checked := t\<rparr> else s) rows = rows"
      by (intro map_idI) (auto simp: shard_key_def image_iff)
    then show ?thesis using True by simp
  qed (use Cons in \<open>auto simp: shard_key_def\<close>)
qed simp

lemma update_as_record:
  assumes "distinct (map shard_key (db_shards (rs_db st)))" "(f, as_i32 i) \<in> shard_key ` set (db_shards (rs_db st))"
  shows "update_repaired A f i n x st = record_repair A f i n x st"
  by (simp only: update_repaired_def record_repair_def update_as_upsert[OF assms])

text \<open>How a repair ends: nothing is deleted anywhere, and either no row is written or the one row, with a
  registered node that holds the hash.\<close>

definition repair_done :: "('w \<Rightarrow> sock_addr \<Rightarrow> bytes \<Rightarrow> bool) \<Rightarrow> ext \<Rightarrow> (string \<Rightarrow> sock_addr) \<Rightarrow> audit_env \<Rightarrow> string \<Rightarrow> nat \<Rightarrow> 'w rb_state \<Rightarrow> string + unit \<Rightarrow> 'w rb_state \<Rightarrow> bool" where
  "repair_done hl E loc A f i st res st' \<longleftrightarrow>
     located loc (rv_parse_addr (av_rb A)) (rs_registry st') (rs_db st) \<and> (\<forall>b h. hl (rs_mesh st) b h \<longrightarrow> hl (rs_mesh st') b h)
     \<and> (if is_ok res
        then \<exists>nid h. nid \<in> nr_id ` set (db_nodes (rs_db st)) \<and> hl (rs_mesh st') (loc nid) h
          \<and> rs_db st' = (rs_db st)\<lparr>db_shards := upsert_repaired_rows
               \<lparr>sr_file = f, sr_index = as_i32 i, sr_node = nid, sr_hash = hex_encode E h, sr_checked = Some (rv_now (av_rb A))\<rparr> (db_shards (rs_db st))\<rparr>
        else rs_db st' = rs_db st)"

lemma repair_done_failed:
  "rs_db st' = rs_db st \<Longrightarrow> located loc (rv_parse_addr (av_rb A)) (rs_registry st') (rs_db st) \<Longrightarrow> (\<And>b h. hl (rs_mesh st) b h \<Longrightarrow> hl (rs_mesh st') b h) \<Longrightarrow>
     repair_done hl E loc A f i st (Inl e) st'"
  by (simp add: repair_done_def)

lemma repair_done_from:
  assumes "repair_done hl E loc A f i st1 res st'" "rs_db st1 = rs_db st" "rs_mesh st1 = rs_mesh st"
  shows "repair_done hl E loc A f i st res st'"
  using assms(1) unfolding repair_done_def assms(2,3) .

lemma upload_ok_hash: "upload_shard_to_node E M V a v st = (Inr x, st') \<Longrightarrow> x = hex_encode E (blake3 E v)"
  by (auto simp: upload_shard_to_node_def upload_shard_to_node_inner_def stream_shard_def request_shard_def Let_def
      split: sum.splits prod.splits if_splits msg.splits bool.splits)

lemma resolve_nodes_located:
  "resolve_nodes A f i nids st = (ns, st') \<Longrightarrow> located loc (rv_parse_addr (av_rb A)) (rs_registry st) (rs_db st) \<Longrightarrow>
     rs_db st' = rs_db st \<and> rs_mesh st' = rs_mesh st \<and> located loc (rv_parse_addr (av_rb A)) (rs_registry st') (rs_db st) \<and> (\<forall>(n, a) \<in> set ns. a = loc n)"
proof (induction nids arbitrary: st ns)
  case (Cons nid nids)
  obtain a st1 where l: "lookup_addr (av_rb A) (av_repair_fails A f i (RepairLookup nid) = None) nid st = (a, st1)" by fastforce
  obtain ns1 where r: "resolve_nodes A f i nids st1 = (ns1, st')" "ns = (case a of Some addr \<Rightarrow> (nid, addr) # ns1 | None \<Rightarrow> ns1)"
    using Cons.prems(1) l by (auto split: prod.splits)
  have "located loc (rv_parse_addr (av_rb A)) (rs_registry st1) (rs_db st1)"
    using located_lookup(1)[OF Cons.prems(2) l] lookup_addr_frame[OF l] by simp
  from Cons.IH[OF r(1) this] show ?case
    using r(2) located_lookup(2)[OF Cons.prems(2) l] lookup_addr_frame[OF l] by (auto split: option.splits)
qed simp

lemma repair_nodes_located:
  assumes "repair_nodes A f i st = (res, st')" "located loc (rv_parse_addr (av_rb A)) (rs_registry st) (rs_db st)"
  shows "rs_db st' = rs_db st \<and> rs_mesh st' = rs_mesh st \<and> located loc (rv_parse_addr (av_rb A)) (rs_registry st') (rs_db st)
    \<and> (\<forall>ns. res = Ok ns \<longrightarrow> (\<forall>(n, a) \<in> set ns. a = loc n))"
proof -
  let ?all = "map (\<lambda>p. (pi_node_id p, pi_addr p)) (all_peers (rs_registry st))"
  have "\<forall>(n, a) \<in> set ?all. a = loc n" using assms(2) by (fastforce simp: located_def all_peers_def)
  then have all: "\<forall>ns. Ok ?all = Ok ns \<longrightarrow> (\<forall>(n, a) \<in> set ns. a = loc n)" by (metis sum.inject(2))
  obtain ns st1 where r: "resolve_nodes A f i (map nr_id (filter nr_active (db_nodes (rs_db st)))) st = (ns, st1)" by fastforce
  show ?thesis
  proof (cases "?all = [] \<and> av_repair_fails A f i RepairNodes = None")
    case True
    then have "res = Ok ns" "st' = st1" using assms(1) r by (simp_all add: repair_nodes_def)
    then show ?thesis using resolve_nodes_located[OF r assms(2)] by simp
  next
    case False
    then have "st' = st \<and> (res = Ok ?all \<or> (\<exists>e. res = Inl e))"
      using assms(1) by (cases "?all = []"; cases "av_repair_fails A f i RepairNodes") (auto simp: repair_nodes_def Let_def)
    then show ?thesis using assms(2) all by auto
  qed
qed

context shard_mesh
begin

lemma recorded_done:
  assumes "good E" "upload_shard_to_node E (mesh E) (av_rb A) (loc nid) data st = (Inr x, st1)" "record_repair A f i nid x st1 = (res, st')"
    "located loc (rv_parse_addr (av_rb A)) (rs_registry st) (rs_db st)"
  shows "repair_done (holds E) E loc A f i st res st'"
proof -
  note k = upload_kept[OF assms(1,2)] and fr = upload_node_frame[OF assms(2)] and x = upload_ok_hash[OF assms(2)]
  let ?row = "\<lparr>sr_file = f, sr_index = as_i32 i, sr_node = nid, sr_hash = x, sr_checked = Some (rv_now (av_rb A))\<rparr>"
  show ?thesis
  proof (cases "av_repair_fails A f i RepairWrite = None \<and> nid \<in> nr_id ` set (db_nodes (rs_db st1))")
    case False
    then have "st' = st1 \<and> (\<exists>e. res = Inl e)"
      using assms(3) by (cases "av_repair_fails A f i RepairWrite") (auto simp: record_repair_def)
    then show ?thesis using k(1) fr assms(4) by (auto intro!: repair_done_failed)
  next
    case True
    then have "res = Ok ()" "st' = st1\<lparr>rs_db := (rs_db st1)\<lparr>db_shards := upsert_repaired_rows ?row (db_shards (rs_db st1))\<rparr>\<rparr>"
      using assms(3) by (simp_all add: record_repair_def)
    then show ?thesis using k fr assms(4) True unfolding x
      by (simp only: repair_done_def is_ok.simps if_True) (intro conjI allI impI exI[of _ nid] exI[of _ "blake3 E data"]; simp)
  qed
qed

lemma place_done:
  assumes "good E" "place_shard E (mesh E) A f i (nid, loc nid) piece st = Done (res, st')"
    "located loc (rv_parse_addr (av_rb A)) (rs_registry st) (rs_db st)"
  shows "repair_done (holds E) E loc A f i st res st'"
proof -
  obtain q where q: "piece = Done q" using assms(2) by (cases piece) (simp_all add: place_shard_def)
  show ?thesis
  proof (cases q)
    case (Inl e)
    then show ?thesis using assms q by (auto simp: place_shard_def intro: repair_done_failed)
  next
    case data: (Inr data)
    obtain up st1 where u: "upload_shard_to_node E (mesh E) (av_rb A) (loc nid) data st = (up, st1)" by fastforce
    show ?thesis
    proof (cases up)
      case (Inl e)
      then show ?thesis using assms q data u upload_kept(1)[OF assms(1) u] upload_node_frame[OF u]
        by (auto simp: place_shard_def intro!: repair_done_failed)
    next
      case (Inr x)
      then have "record_repair A f i nid x st1 = (res, st')" using assms(2) q data u by (simp add: place_shard_def)
      then show ?thesis using recorded_done[OF assms(1) _ _ assms(3)] u Inr by blast
    qed
  qed
qed

lemma repair_from_nodes_done:
  assumes "good E" "located loc (rv_parse_addr (av_rb A)) (rs_registry st) (rs_db st)" "distinct (map shard_key (db_shards (rs_db st)))"
    "(f, as_i32 i) \<in> shard_key ` set (db_shards (rs_db st))"
  shows "repair_from_nodes E (mesh E) A f i (nid, loc nid) x ns st = Done (res, st') \<Longrightarrow> repair_done (holds E) E loc A f i st res st'"
proof (induction ns)
  case Nil
  then show ?case using assms(2) by (auto intro: repair_done_failed)
next
  case (Cons n ns)
  obtain m a where n: "n = (m, a)" by fastforce
  let ?get = "retrieve_shard E (dial_env (mesh E) (av_rb A) st) (rv_hex_err (av_rb A)) (rv_identity (av_rb A)) a x"
  show ?case
  proof (cases "m = nid \<or> (\<forall>data. ?get \<noteq> Done (Ok data) \<or> hex_encode E (blake3 E data) \<noteq> x)")
    case True
    then have "repair_from_nodes E (mesh E) A f i (nid, loc nid) x ns st = Done (res, st')"
    proof (cases ?get)
      case (Done r)
      then show ?thesis using True Cons.prems n by (cases r) (auto split: if_splits)
    qed (use True Cons.prems n in \<open>auto split: if_splits\<close>)
    then show ?thesis by (rule Cons.IH)
  next
    case False
    then obtain data where d: "m \<noteq> nid" "?get = Done (Ok data)" "hex_encode E (blake3 E data) = x" by blast
    obtain up st1 where u: "upload_shard_to_node E (mesh E) (av_rb A) (loc nid) data st = (up, st1)" by fastforce
    note k = upload_kept[OF assms(1) u] and fr = upload_node_frame[OF u]
    show ?thesis
    proof (cases up)
      case (Inl e)
      then show ?thesis using Cons.prems n d u k(1) fr assms(2) by (auto intro!: repair_done_failed)
    next
      case (Inr y)
      then have "update_repaired A f i nid y st1 = (res, st')" using Cons.prems n d u by simp
      then have "record_repair A f i nid y st1 = (res, st')"
        using fr assms(3,4) by (simp add: update_as_record)
      then show ?thesis using recorded_done[OF assms(1) _ _ assms(2)] u Inr by blast
    qed
  qed
qed

lemma repair_file_done:
  assumes "good E" "repair_file E (mesh E) A f i st = Done (res, st')"
    "located loc (rv_parse_addr (av_rb A)) (rs_registry st) (rs_db st)" "distinct (map shard_key (db_shards (rs_db st)))"
  shows "repair_done (holds E) E loc A f i st res st'"
proof (cases "av_repair_fails A f i RepairConn")
  case (Some e)
  then show ?thesis using assms by (auto simp: repair_file_def intro: repair_done_failed)
next
  case None
  obtain q st1 where q: "repair_nodes A f i st = (q, st1)" by fastforce
  note rn = repair_nodes_located[OF q assms(3)]
  let ?L = "\<lambda>g. located loc (rv_parse_addr (av_rb A)) g (rs_db st)"
  have fail: "repair_done (holds E) E loc A f i st (Inl e) st2" if "rs_db st2 = rs_db st1" "rs_mesh st2 = rs_mesh st1" "rs_registry st2 = rs_registry st1" for e st2
    using that rn by (intro repair_done_failed) auto
  show ?thesis
  proof (cases "\<exists>ns. q = Ok ns \<and> \<not> length ns < MIN_NODES_REQUIRED \<and> av_repair_fails A f i RepairSegments = None")
    case False
    then show ?thesis using assms(2) None q fail[of st1]
      by (auto simp: repair_file_def Let_def split: sum.splits if_splits option.splits)
  next
    case True
    then obtain ns where ns: "q = Ok ns" "\<not> length ns < MIN_NODES_REQUIRED" "av_repair_fails A f i RepairSegments = None" by blast
    let ?ideal = "rendezvous_select E f ns (min SHARD_COUNT (length ns))"
    have "length ?ideal > 0" using ns(2) by (simp add: rendezvous_ranked MIN_NODES_REQUIRED_def SHARD_COUNT_def)
    then have "?ideal ! (i mod length ?ideal) \<in> set ns" using rendezvous_subset[of E f ns] by (meson mod_less_divisor nth_mem subsetD)
    moreover obtain nid a where t0: "?ideal ! (i mod length ?ideal) = (nid, a)" by fastforce
    ultimately have t: "?ideal ! (i mod length ?ideal) = (nid, loc nid)" using rn ns(1) by fastforce
    have place: "place_shard E (mesh E) A f i (nid, loc nid) piece (st1\<lparr>rs_cache := c\<rparr>) = Done (res, st') \<Longrightarrow> ?thesis" for piece c
      by (rule repair_done_from[OF place_done[OF assms(1), of A f i nid loc piece "st1\<lparr>rs_cache := c\<rparr>"]]) (use rn in auto)
    have else_where: "repair_elsewhere E (mesh E) A f i (nid, loc nid) ns (st1\<lparr>rs_cache := c\<rparr>) = Done (res, st') \<Longrightarrow> ?thesis" for c
    proof (cases "av_repair_fails A f i RepairRow")
      case (Some e)
      assume "repair_elsewhere E (mesh E) A f i (nid, loc nid) ns (st1\<lparr>rs_cache := c\<rparr>) = Done (res, st')"
      then show ?thesis using Some fail[of "st1\<lparr>rs_cache := c\<rparr>"] by (auto simp: repair_elsewhere_def)
    next
      case ok: None
      assume e: "repair_elsewhere E (mesh E) A f i (nid, loc nid) ns (st1\<lparr>rs_cache := c\<rparr>) = Done (res, st')"
      show ?thesis
      proof (cases "filter (\<lambda>s. sr_file s = f \<and> sr_index s = as_i32 i) (db_shards (rs_db st1))")
        case Nil
        then show ?thesis using e ok fail[of "st1\<lparr>rs_cache := c\<rparr>"] by (auto simp: repair_elsewhere_def)
      next
        case (Cons s ss)
        then have "s \<in> set (db_shards (rs_db st1))" "shard_key s = (f, as_i32 i)" by (auto simp: filter_eq_Cons_iff shard_key_def)
        then have key: "(f, as_i32 i) \<in> shard_key ` set (db_shards (rs_db (st1\<lparr>rs_cache := c\<rparr>)))" by force
        have "repair_from_nodes E (mesh E) A f i (nid, loc nid) (sr_hash s) ns (st1\<lparr>rs_cache := c\<rparr>) = Done (res, st')"
          using e ok Cons by (simp add: repair_elsewhere_def)
        moreover have "located loc (rv_parse_addr (av_rb A)) (rs_registry (st1\<lparr>rs_cache := c\<rparr>)) (rs_db (st1\<lparr>rs_cache := c\<rparr>))"
          "distinct (map shard_key (db_shards (rs_db (st1\<lparr>rs_cache := c\<rparr>))))" using rn assms(4) by simp_all
        ultimately have "repair_done (holds E) E loc A f i (st1\<lparr>rs_cache := c\<rparr>) res st'"
          using repair_from_nodes_done[of E loc A "st1\<lparr>rs_cache := c\<rparr>", OF assms(1)] key by blast
        then show ?thesis by (rule repair_done_from) (use rn in simp_all)
      qed
    qed
    show ?thesis
    proof (cases "segmented_rows (rs_db st1) f")
      case Nil
      then have "repair_unsegmented E (mesh E) A f i (nid, loc nid) ns st1 = Done (res, st')"
        using assms(2) None q ns t by (simp add: repair_file_def)
      then show ?thesis using place else_where fail
        by (auto simp: repair_unsegmented_def split: sum.splits prod.splits option.splits)
    next
      case (Cons row rows)
      then have "repair_segmented E (mesh E) A f i (nid, loc nid) row st1 = Done (res, st')"
        using assms(2) None q ns t by (simp add: repair_file_def)
      then show ?thesis using place fail
        by (auto simp: repair_segmented_def Let_def split: sum.splits prod.splits option.splits if_splits)
    qed
  qed
qed

end

section \<open>A whole audit\<close>

text \<open>A catalogued shard is held when its node holds its hash.\<close>

definition shard_held :: "('w \<Rightarrow> sock_addr \<Rightarrow> bytes \<Rightarrow> bool) \<Rightarrow> ext \<Rightarrow> (string \<Rightarrow> sock_addr) \<Rightarrow> 'w rb_state \<Rightarrow> string \<Rightarrow> int \<Rightarrow> bool" where
  "shard_held hl E loc st f i \<longleftrightarrow> (\<exists>n x h. placement (rs_db st) f i = Some (n, x) \<and> hex_decode E x = Some h \<and> hl (rs_mesh st) (loc n) h)"

definition audit_inv :: "ext \<Rightarrow> (string \<Rightarrow> sock_addr) \<Rightarrow> audit_env \<Rightarrow> 'w rb_state \<Rightarrow> bool" where
  "audit_inv E loc A st \<longleftrightarrow> db_ok (rs_db st) \<and> located loc (rv_parse_addr (av_rb A)) (rs_registry st) (rs_db st)
     \<and> sr_hash ` set (db_shards (rs_db st)) \<subseteq> range (hex_encode E)"

text \<open>Shards of live files that are held stay held.\<close>

definition audit_step :: "('w \<Rightarrow> sock_addr \<Rightarrow> bytes \<Rightarrow> bool) \<Rightarrow> ext \<Rightarrow> (string \<Rightarrow> sock_addr) \<Rightarrow> 'w rb_state \<Rightarrow> 'w rb_state \<Rightarrow> bool" where
  "audit_step hl E loc st st' \<longleftrightarrow> live_hashes (rs_db st') = live_hashes (rs_db st)
     \<and> (\<forall>f i. f \<in> set (live_hashes (rs_db st)) \<and> shard_held hl E loc st f i \<longrightarrow> shard_held hl E loc st' f i)"

lemma audit_step_trans: "audit_step hl E loc st st1 \<Longrightarrow> audit_step hl E loc st1 st2 \<Longrightarrow> audit_step hl E loc st st2"
  by (auto simp: audit_step_def)

lemma audit_step_grows:
  assumes "live_hashes (rs_db st') = live_hashes (rs_db st)" "placement (rs_db st') = placement (rs_db st)"
    "\<And>b h. hl (rs_mesh st) b h \<Longrightarrow> hl (rs_mesh st') b h"
  shows "audit_step hl E loc st st'"
  using assms by (fastforce simp: audit_step_def shard_held_def)

lemma placement_shards: "db_shards db' = db_shards db \<Longrightarrow> placement db' = placement db"
  by (intro ext) (simp add: placement_def)

lemma repair_step:
  assumes "repair_done hl E loc A f i st res st'" "audit_inv E loc A st" "hex_ok E"
  shows "audit_inv E loc A st'" "audit_step hl E loc st st'" "\<And>b h. hl (rs_mesh st) b h \<Longrightarrow> hl (rs_mesh st') b h"
proof -
  note r = assms(1)[unfolded repair_done_def]
  show g: "\<And>b h. hl (rs_mesh st) b h \<Longrightarrow> hl (rs_mesh st') b h" using r by blast
  have "audit_inv E loc A st' \<and> audit_step hl E loc st st'"
  proof (cases "is_ok res")
    case False
    then have "rs_db st' = rs_db st" using r by simp
    then show ?thesis using assms(2) r g by (auto simp: audit_inv_def intro!: audit_step_grows)
  next
    case True
    then obtain nid h where n: "nid \<in> nr_id ` set (db_nodes (rs_db st))" "hl (rs_mesh st') (loc nid) h"
      and db: "rs_db st' = (rs_db st)\<lparr>db_shards := upsert_repaired_rows
        \<lparr>sr_file = f, sr_index = as_i32 i, sr_node = nid, sr_hash = hex_encode E h, sr_checked = Some (rv_now (av_rb A))\<rparr> (db_shards (rs_db st))\<rparr>"
      using r by auto
    let ?row = "\<lparr>sr_file = f, sr_index = as_i32 i, sr_node = nid, sr_hash = hex_encode E h, sr_checked = Some (rv_now (av_rb A))\<rparr>"
    have rows: "s \<in> set (upsert_repaired_rows ?row rs) \<Longrightarrow> (sr_node s = nid \<and> sr_hash s = hex_encode E h) \<or> s \<in> set rs" for s rs
      by (induction rs) (auto split: if_splits)
    have "distinct (map shard_key (db_shards (rs_db st')))"
      using assms(2) repaired.put_distinct db by (simp add: audit_inv_def db_ok_def)
    moreover have "sr_node s \<in> nr_id ` set (db_nodes (rs_db st)) \<and> sr_hash s \<in> range (hex_encode E)" if "s \<in> set (db_shards (rs_db st'))" for s
    proof -
      have "(sr_node s = nid \<and> sr_hash s = hex_encode E h) \<or> s \<in> set (db_shards (rs_db st))" using that rows[of s] db by simp
      moreover have "s \<in> set (db_shards (rs_db st)) \<Longrightarrow> sr_node s \<in> nr_id ` set (db_nodes (rs_db st)) \<and> sr_hash s \<in> range (hex_encode E)"
        using assms(2) unfolding audit_inv_def db_ok_def by blast
      moreover have "hex_encode E h \<in> range (hex_encode E)" by simp
      ultimately show ?thesis using n(1) by (cases "s \<in> set (db_shards (rs_db st))") simp_all
    qed
    ultimately have inv: "audit_inv E loc A st'"
      using assms(2) r db unfolding audit_inv_def db_ok_def by (auto simp: located_def)
    have "placement (rs_db st') g j = (if (g, j) = (f, as_i32 i) then Some (nid, hex_encode E h) else placement (rs_db st) g j)" for g j
      using repaired.lookup_put[of ?row "db_shards (rs_db st)"] db by (simp add: placement_lookup shard_key_def)
    then have "shard_held hl E loc st g j \<Longrightarrow> shard_held hl E loc st' g j" for g j
      using n(2) g hex_decode_encode[OF assms(3)] by (fastforce simp: shard_held_def split: if_splits)
    then have "audit_step hl E loc st st'" using db by (auto simp: audit_step_def live_hashes_def)
    then show ?thesis using inv by blast
  qed
  then show "audit_inv E loc A st'" "audit_step hl E loc st st'" by blast+
qed

lemma stamp_placement: "placement (stamp_row t f i db) = placement db"
proof (intro ext)
  fix g j
  have "map (\<lambda>s. (shard_key s, (sr_node s, sr_hash s))) (db_shards (stamp_row t f i db)) = map (\<lambda>s. (shard_key s, (sr_node s, sr_hash s))) (db_shards db)"
    by (simp add: stamp_row_def shard_key_def)
  then show "placement (stamp_row t f i db) g j = placement db g j" by (simp add: placement_def)
qed

lemma stamp_inv: "audit_inv E loc A st \<Longrightarrow> audit_inv E loc A (st\<lparr>rs_db := stamp_row t f i (rs_db st)\<rparr>)"
proof -
  have "map shard_key (db_shards (stamp_row t f i db)) = map shard_key (db_shards db)" for db by (simp add: stamp_row_def shard_key_def)
  moreover have "map sr_node (db_shards (stamp_row t f i db)) = map sr_node (db_shards db)" "map sr_hash (db_shards (stamp_row t f i db)) = map sr_hash (db_shards db)" for db
    by (simp_all add: stamp_row_def)
  then have "sr_node ` set (db_shards (stamp_row t f i db)) = sr_node ` set (db_shards db)" "sr_hash ` set (db_shards (stamp_row t f i db)) = sr_hash ` set (db_shards db)" for db
    by (metis set_map)+
  moreover have "db_nodes (stamp_row t f i db) = db_nodes db" for db by (simp add: stamp_row_def)
  ultimately show "audit_inv E loc A st \<Longrightarrow> audit_inv E loc A (st\<lparr>rs_db := stamp_row t f i (rs_db st)\<rparr>)" by (simp add: audit_inv_def db_ok_def located_def)
qed

lemma reset_frame: "db_shards (reset_synced A f t db) = db_shards db" "db_nodes (reset_synced A f t db) = db_nodes db"
  "live_hashes (reset_synced A f t db) = live_hashes db"
proof -
  have m: "map mr_hash (filter (\<lambda>m. \<not> mr_deleted m) (map (where_hash f (\<lambda>m. m\<lparr>mr_synced_at := None\<rparr>)) ms)) = map mr_hash (filter (\<lambda>m. \<not> mr_deleted m) ms)" for ms
    by (induction ms) (auto simp: where_hash_def)
  show "db_shards (reset_synced A f t db) = db_shards db" "db_nodes (reset_synced A f t db) = db_nodes db"
    by (cases t; simp add: reset_synced_def)+
  show "live_hashes (reset_synced A f t db) = live_hashes db" by (cases t) (simp_all add: reset_synced_def live_hashes_def m)
qed

text \<open>Lookups and stamps are steps that lose nothing.\<close>

lemma quiet_step:
  assumes "audit_inv E loc A st" "rs_mesh st' = rs_mesh st" "located loc (rv_parse_addr (av_rb A)) (rs_registry st') (rs_db st)"
    "db_shards (rs_db st') = db_shards (rs_db st)" "db_nodes (rs_db st') = db_nodes (rs_db st)" "live_hashes (rs_db st') = live_hashes (rs_db st)"
  shows "audit_inv E loc A st'" "audit_step hl E loc st st'"
  using assms placement_shards[OF assms(4)] by (auto simp: audit_inv_def db_ok_def located_def intro!: audit_step_grows)

context shard_mesh
begin

lemma audit_rows_keep:
  assumes "good E"
  shows "audit_rows E (mesh E) A rows st = Done st' \<Longrightarrow> audit_inv E loc A st \<Longrightarrow>
    audit_inv E loc A st' \<and> audit_step (holds E) E loc st st' \<and> (\<forall>b h. holds E (rs_mesh st) b h \<longrightarrow> holds E (rs_mesh st') b h)"
proof (induction rows arbitrary: st)
  case Nil
  then show ?case by (auto intro: audit_step_grows)
next
  case (Cons row rows)
  obtain a st1 where l: "lookup_addr (av_rb A) (av_fails A 0 (AuditLookup (sr_file row) (sr_index row)) = None) (sr_node row) st = (a, st1)" by fastforce
  have lc: "located loc (rv_parse_addr (av_rb A)) (rs_registry st) (rs_db st)" using Cons.prems(2) by (simp add: audit_inv_def)
  note lf = lookup_addr_frame[OF l]
  have i1: "audit_inv E loc A st1" "audit_step (holds E) E loc st st1"
    using quiet_step[OF Cons.prems(2), of st1] located_lookup(1)[OF lc l] lf by simp_all
  have go: ?case if n: "audit_rows E (mesh E) A rows st2 = Done st'" "audit_inv E loc A st2" "audit_step (holds E) E loc st1 st2"
      "\<And>b h. holds E (rs_mesh st1) b h \<Longrightarrow> holds E (rs_mesh st2) b h" for st2
    using Cons.IH[OF n(1,2)] n(3,4) i1(2) lf audit_step_trans by metis
  show ?case
  proof (cases a)
    case None
    then show ?thesis using Cons.prems(1) l i1 by (intro go[of st1]) (auto intro: audit_step_grows)
  next
    case (Some addr)
    obtain ok where ok: "shard_present E (dial_env (mesh E) (av_rb A) st1) (rv_hex_err (av_rb A)) (rv_identity (av_rb A)) addr (sr_hash row) = Done ok"
      using Cons.prems(1) l Some by (cases "shard_present E (dial_env (mesh E) (av_rb A) st1) (rv_hex_err (av_rb A)) (rv_identity (av_rb A)) addr (sr_hash row)") auto
    show ?thesis
    proof (cases ok)
      case True
      let ?st = "if av_fails A 0 (AuditStamp (sr_file row) (sr_index row)) = None
        then st1\<lparr>rs_db := stamp_row (rv_now (av_rb A)) (sr_file row) (sr_index row) (rs_db st1)\<rparr> else st1"
      have "audit_rows E (mesh E) A rows ?st = Done st'" using Cons.prems(1) l Some ok True by simp
      moreover have "audit_inv E loc A ?st" using i1(1) stamp_inv[OF i1(1)] by simp
      moreover have "live_hashes (stamp_row t f i db) = live_hashes db" for t f i db by (simp add: stamp_row_def live_hashes_def)
      then have "audit_step (holds E) E loc st1 ?st" by (intro audit_step_grows) (simp_all add: stamp_placement)
      ultimately show ?thesis by (rule go) simp
    next
      case False
      obtain res st2 where r: "repair_file E (mesh E) A (sr_file row) (as_usize (sr_index row)) st1 = Done (res, st2)"
        "audit_rows E (mesh E) A rows st2 = Done st'"
        using Cons.prems(1) l Some ok False by (auto simp: bind_out_Done)
      have "located loc (rv_parse_addr (av_rb A)) (rs_registry st1) (rs_db st1)" "distinct (map shard_key (db_shards (rs_db st1)))"
        using i1(1) by (simp_all add: audit_inv_def db_ok_def)
      note d = repair_step[OF repair_file_done[OF assms r(1) this] i1(1) good_hex[OF assms]]
      show ?thesis by (rule go[OF r(2) d])
    qed
  qed
qed

lemma repair_indexes_keep:
  assumes "good E"
  shows "repair_indexes E (mesh E) A f is st = Done st' \<Longrightarrow> audit_inv E loc A st \<Longrightarrow>
    audit_inv E loc A st' \<and> audit_step (holds E) E loc st st' \<and> (\<forall>b h. holds E (rs_mesh st) b h \<longrightarrow> holds E (rs_mesh st') b h)"
proof (induction "is" arbitrary: st)
  case Nil
  then show ?case by (auto intro: audit_step_grows)
next
  case (Cons i "is")
  obtain res st1 where r: "repair_file E (mesh E) A f i st = Done (res, st1)" "repair_indexes E (mesh E) A f is st1 = Done st'"
    using Cons.prems(1) by (auto simp: bind_out_Done)
  have "located loc (rv_parse_addr (av_rb A)) (rs_registry st) (rs_db st)" "distinct (map shard_key (db_shards (rs_db st)))"
    using Cons.prems(2) by (simp_all add: audit_inv_def db_ok_def)
  note d = repair_step[OF repair_file_done[OF assms r(1) this] Cons.prems(2) good_hex[OF assms]]
  show ?case using Cons.IH[OF r(2) d(1)] d(2,3) audit_step_trans by metis
qed

lemma fix_files_keep:
  assumes "good E"
  shows "fix_files E (mesh E) A fs st = Done (res, st') \<Longrightarrow> audit_inv E loc A st \<Longrightarrow>
    audit_inv E loc A st' \<and> audit_step (holds E) E loc st st' \<and> (\<forall>b h. holds E (rs_mesh st) b h \<longrightarrow> holds E (rs_mesh st') b h)"
proof (induction fs arbitrary: st)
  case Nil
  then show ?case by (auto intro: audit_step_grows)
next
  case (Cons f fs)
  have lc: "located loc (rv_parse_addr (av_rb A)) (rs_registry st) (rs_db st)" using Cons.prems(2) by (simp add: audit_inv_def)
  show ?case
  proof (cases "av_fails A 1 (FixCount f)")
    case (Some e)
    then show ?thesis using Cons.prems by (auto intro: audit_step_grows)
  next
    case None
    show ?thesis
    proof (cases "file_rows (rs_db st) f = []")
      case True
      let ?st = "st\<lparr>rs_db := reset_synced A f Videos (reset_synced A f Images (rs_db st))\<rparr>"
      have run: "fix_files E (mesh E) A fs ?st = Done (res, st')" using Cons.prems(1) None True by simp
      have q: "audit_inv E loc A ?st" "audit_step (holds E) E loc st ?st"
        using quiet_step[OF Cons.prems(2), of ?st] lc by (simp_all add: reset_frame)
      then show ?thesis using Cons.IH[OF run q(1)] audit_step_trans[OF q(2)] by simp
    next
      case False
      obtain st1 where r: "repair_indexes E (mesh E) A f [0..<SHARD_COUNT] st = Done st1" "fix_files E (mesh E) A fs st1 = Done (res, st')"
        using Cons.prems(1) None False by (auto simp: bind_out_Done)
      note d = repair_indexes_keep[OF assms r(1) Cons.prems(2)]
      then show ?thesis using Cons.IH[OF r(2)] audit_step_trans by metis
    qed
  qed
qed

end

text \<open>What an audit starts from: the schema's constraints, one row per shard, hashes as the uploads wrote them, and
  backup shards that are none of the media shards.\<close>

definition audit_ready :: "ext \<Rightarrow> (string \<Rightarrow> sock_addr) \<Rightarrow> audit_env \<Rightarrow> 'w audit_state \<Rightarrow> bool" where
  "audit_ready E loc A st \<longleftrightarrow> audit_inv E loc A (as_rb st) \<and> distinct_hashes E (rs_db (as_rb st))
     \<and> sr_hash ` set (db_shards (rs_db (as_rb st))) \<inter> set (as_backup_hashes st) = {}"

definition audit_safe :: "('w \<Rightarrow> sock_addr \<Rightarrow> bytes \<Rightarrow> bool) \<Rightarrow> ext \<Rightarrow> (string \<Rightarrow> sock_addr) \<Rightarrow> 'w audit_state \<Rightarrow> 'w audit_state \<Rightarrow> bool" where
  "audit_safe hl E loc st st' \<longleftrightarrow> audit_step hl E loc (as_rb st) (as_rb st') \<and> as_backup_hashes st' = as_backup_hashes st
     \<and> (\<forall>a h. hex_encode E h \<in> set (as_backup_hashes st) \<and> hl (rs_mesh (as_rb st)) a h \<longrightarrow> hl (rs_mesh (as_rb st')) a h)"

lemma audit_safe_trans: "audit_safe hl E loc st st1 \<Longrightarrow> audit_safe hl E loc st1 st2 \<Longrightarrow> audit_safe hl E loc st st2"
  using audit_step_trans by (fastforce simp: audit_safe_def)

lemma audit_safe_rb:
  assumes "audit_step hl E loc (as_rb st) rb" "\<And>b h. hl (rs_mesh (as_rb st)) b h \<Longrightarrow> hl (rs_mesh rb) b h"
  shows "audit_safe hl E loc st (st\<lparr>as_rb := rb\<rparr>)"
  using assms by (simp add: audit_safe_def)

lemma placement_row:
  assumes "db_ok db"
  shows "placement db f i = Some (n, x) \<longleftrightarrow> (\<exists>s \<in> set (db_shards db). sr_file s = f \<and> sr_index s = i \<and> sr_node s = n \<and> sr_hash s = x)"
  using shards.lookup_row[of "db_shards db" "(f, i)" "(n, x)"] assms by (auto simp: placement_lookup db_ok_def shard_key_def)

lemma filter_db_ok: "db_ok db \<Longrightarrow> db_ok (db\<lparr>db_shards := filter P (db_shards db)\<rparr>)"
  by (auto simp: db_ok_def distinct_map intro: inj_on_subset)

context shard_mesh
begin

lemma cleanup_safe:
  assumes "good E" "audit_ready E loc A st" "cleanup_orphaned_shards_with_service E (mesh E) A k b (as_rb st) = (r, rb)"
  shows "audit_ready E loc A (st\<lparr>as_rb := rb\<rparr>)" "audit_safe (holds E) E loc st (st\<lparr>as_rb := rb\<rparr>)"
proof -
  let ?db = "rs_db (as_rb st)"
  have ok: "db_ok ?db" "distinct_hashes E ?db" "sr_hash ` set (db_shards ?db) \<subseteq> range (hex_encode E)"
    "sr_hash ` set (db_shards ?db) \<inter> set (as_backup_hashes st) = {}" "located loc (rv_parse_addr (av_rb A)) (rs_registry (as_rb st)) ?db"
    using assms(2) by (simp_all add: audit_ready_def audit_inv_def)
  obtain w g rows where c: "rb = (as_rb st)\<lparr>rs_mesh := w, rs_registry := g, rs_db := ?db\<lparr>db_shards := rows\<rparr>\<rparr>"
    "located loc (rv_parse_addr (av_rb A)) g ?db"
    "rows = db_shards ?db \<or> rows = filter (\<lambda>s. \<not> orphan ?db s) (db_shards ?db)"
    "\<And>b h. holds E (rs_mesh (as_rb st)) b h \<Longrightarrow> \<forall>s \<in> set (db_shards ?db). orphan ?db s \<longrightarrow> hex_decode E (sr_hash s) \<noteq> Some h \<Longrightarrow> holds E w b h"
    using cleanup_keep[OF assms(1,3) ok(5)] by blast
  have db': "rs_db rb = ?db\<lparr>db_shards := rows\<rparr>" using c(1) by simp
  have ok': "db_ok (?db\<lparr>db_shards := rows\<rparr>)" using c(3) filter_db_ok[OF ok(1)] ok(1) by auto
  have sub: "set rows \<subseteq> set (db_shards ?db)" using c(3) by auto
  have "distinct_hashes E (?db\<lparr>db_shards := rows\<rparr>)"
    using c(3) ok(2) by (auto simp: distinct_hashes_def distinct_map intro: inj_on_subset)
  moreover have "sr_hash ` set rows \<subseteq> range (hex_encode E)" "sr_hash ` set rows \<inter> set (as_backup_hashes st) = {}"
    using ok(3,4) sub by blast+
  ultimately show "audit_ready E loc A (st\<lparr>as_rb := rb\<rparr>)"
    using ok' c(1,2) by (simp add: audit_ready_def audit_inv_def located_def)
  have live: "live_hashes (rs_db rb) = live_hashes ?db" using db' by (simp add: live_hashes_def)
  have "shard_held (holds E) E loc rb f i" if f: "f \<in> set (live_hashes ?db)" "shard_held (holds E) E loc (as_rb st) f i" for f i
  proof -
    obtain n x h where p: "placement ?db f i = Some (n, x)" "hex_decode E x = Some h" "holds E (rs_mesh (as_rb st)) (loc n) h"
      using f(2) by (auto simp: shard_held_def)
    obtain s where s: "s \<in> set (db_shards ?db)" "sr_file s = f" "sr_index s = i" "sr_node s = n" "sr_hash s = x"
      using p(1) placement_row[OF ok(1)] by blast
    have no: "\<not> orphan ?db s" using s(2) f(1) by (simp add: orphan_def)
    have "hex_decode E (sr_hash t) \<noteq> Some h" if "t \<in> set (db_shards ?db)" "orphan ?db t" for t
    proof -
      have "inj_on (\<lambda>s. hex_decode E (sr_hash s)) (set (db_shards ?db))" using ok(2) by (simp add: distinct_hashes_def distinct_map)
      from inj_onD[OF this _ that(1) s(1)] show ?thesis using that(2) s(5) p(2) no by metis
    qed
    then have "holds E w (loc n) h" using c(4) p(3) by blast
    moreover have "placement (rs_db rb) f i = Some (n, x)"
      using s no c(3) placement_row[OF ok'] db' by auto
    ultimately show ?thesis using p(2) c(1) by (auto simp: shard_held_def)
  qed
  moreover have "holds E w a h" if "hex_encode E h \<in> set (as_backup_hashes st)" "holds E (rs_mesh (as_rb st)) a h" for a h
  proof (rule c(4)[OF that(2)], intro ballI impI notI)
    fix s assume s: "s \<in> set (db_shards ?db)" "hex_decode E (sr_hash s) = Some h"
    obtain y where "sr_hash s = hex_encode E y" using ok(3) s(1) by auto
    then have "sr_hash s = hex_encode E h" using s(2) hex_decode_encode[OF good_hex[OF assms(1)]] by simp
    then have "hex_encode E h \<in> sr_hash ` set (db_shards ?db)" using s(1) by (metis imageI)
    then show False using that(1) ok(4) by (metis IntI empty_iff)
  qed
  ultimately show "audit_safe (holds E) E loc st (st\<lparr>as_rb := rb\<rparr>)"
    using live c(1) by (auto simp: audit_safe_def audit_step_def)
qed

lemma sweep_safe:
  assumes "good E" "audit_ready E loc A st"
  shows "audit_ready E loc A (snd (sweep_storage_node_orphans E (mesh E) A k st))"
    "audit_safe (holds E) E loc st (snd (sweep_storage_node_orphans E (mesh E) A k st))"
proof -
  let ?db = "rs_db (as_rb st)"
  have ok: "db_ok ?db" "sr_hash ` set (db_shards ?db) \<subseteq> range (hex_encode E)" "located loc (rv_parse_addr (av_rb A)) (rs_registry (as_rb st)) ?db"
    using assms(2) by (simp_all add: audit_ready_def audit_inv_def)
  obtain w g where s: "snd (sweep_storage_node_orphans E (mesh E) A k st) = st\<lparr>as_rb := (as_rb st)\<lparr>rs_mesh := w, rs_registry := g\<rparr>\<rparr>"
    "located loc (rv_parse_addr (av_rb A)) g ?db"
    "\<And>b h. referenced st (hex_encode E h) \<Longrightarrow> holds E (rs_mesh (as_rb st)) b h \<Longrightarrow> holds E w b h"
    using sweep_keep[OF assms(1) ok(3), of k] by blast
  show "audit_ready E loc A (snd (sweep_storage_node_orphans E (mesh E) A k st))"
    unfolding s(1) using assms(2) s(2) by (auto simp: audit_ready_def audit_inv_def)
  have ref: "referenced st (hex_encode E h)" if p: "placement ?db f i = Some (n, x)" "hex_decode E x = Some h" for f i n x h
  proof -
    have x: "x \<in> sr_hash ` set (db_shards ?db)" using placement_row[OF ok(1)] p(1) by (metis imageI)
    then obtain y where "x = hex_encode E y" using ok(2) by auto
    then show ?thesis using x p(2) hex_decode_encode[OF good_hex[OF assms(1)]] by (simp add: referenced_def)
  qed
  then have "shard_held (holds E) E loc (as_rb st) f i \<Longrightarrow> shard_held (holds E) E loc ((as_rb st)\<lparr>rs_mesh := w, rs_registry := g\<rparr>) f i" for f i
    using s(3) by (fastforce simp: shard_held_def)
  then show "audit_safe (holds E) E loc st (snd (sweep_storage_node_orphans E (mesh E) A k st))"
    unfolding s(1) using s(3) by (auto simp: audit_safe_def audit_step_def referenced_def)
qed

lemma sync_safe:
  assumes "audit_ready E loc A st"
  shows "audit_ready E loc A (st\<lparr>as_rb := sync_registry A k (as_rb st)\<rparr>)" "audit_safe (holds E) E loc st (st\<lparr>as_rb := sync_registry A k (as_rb st)\<rparr>)"
  using assms sync_located by (auto simp: audit_ready_def audit_inv_def sync_registry_def intro!: audit_safe_rb audit_step_grows)

lemma consistency_safe:
  assumes "good E" "check_consistency E (mesh E) A st = Done (res, st')" "audit_ready E loc A st"
  shows "audit_inv E loc A (as_rb st')" "audit_safe (holds E) E loc st st'"
proof -
  let ?st0 = "st\<lparr>as_rb := sync_registry A 1 (as_rb st)\<rparr>"
  note y = sync_safe[OF assms(3), of 1]
  obtain r rb where c: "cleanup_orphaned_shards_with_service E (mesh E) A 1 True (as_rb ?st0) = (r, rb)" by fastforce
  have st1: "?st0\<lparr>as_rb := rb\<rparr> = st\<lparr>as_rb := rb\<rparr>" by simp
  note c1 = cleanup_safe[OF assms(1) y(1) c, unfolded st1]
  let ?st2 = "snd (sweep_storage_node_orphans E (mesh E) A 1 (st\<lparr>as_rb := rb\<rparr>))"
  note s2 = sweep_safe[OF assms(1) c1(1), of 1]
  have safe: "audit_safe (holds E) E loc st (st\<lparr>as_rb := rb\<rparr>)" "audit_safe (holds E) E loc st ?st2"
    using audit_safe_trans[OF y(2) c1(2)] audit_safe_trans[OF audit_safe_trans[OF y(2) c1(2)] s2(2)] by blast+
  have inv: "audit_inv E loc A (as_rb (st\<lparr>as_rb := rb\<rparr>))" "audit_inv E loc A (as_rb ?st2)" using c1(1) s2(1) by (auto simp: audit_ready_def)
  have "(st' = st\<lparr>as_rb := rb\<rparr> \<or> st' = ?st2) \<or> (\<exists>fs res1 rb1. fix_files E (mesh E) A fs (as_rb ?st2) = Done (res1, rb1) \<and> st' = ?st2\<lparr>as_rb := rb1\<rparr>)"
    using assms(2) c
    by (cases r; cases "find_undersharded_files A 10 (rs_db (as_rb ?st2))"; cases "av_fails A 1 FixConn")
      (auto simp: check_consistency_def Let_def bind_out_Done split: if_splits)
  then show "audit_inv E loc A (as_rb st')" "audit_safe (holds E) E loc st st'"
    using safe inv fix_files_keep[OF assms(1) _ inv(2)] audit_safe_trans[OF safe(2) audit_safe_rb] by auto
qed

lemma audit_safety:
  assumes "good E" "perform_audit E (mesh E) A st = Done (res, st')" "audit_ready E loc A st"
  shows "audit_inv E loc A (as_rb st')" "audit_safe (holds E) E loc st st'"
proof -
  let ?st0 = "st\<lparr>as_rb := sync_registry A 0 (as_rb st)\<rparr>"
  note y = sync_safe[OF assms(3), of 0]
  obtain r rb where c: "cleanup_orphaned_shards_with_service E (mesh E) A 0 True (as_rb ?st0) = (r, rb)" by fastforce
  define st1 where "st1 = st\<lparr>as_rb := rb\<rparr>"
  have st1: "?st0\<lparr>as_rb := rb\<rparr> = st1" by (simp add: st1_def)
  note c1 = cleanup_safe[OF assms(1) y(1) c, unfolded st1]
  define st2 where "st2 = (if av_timestamp A - as_last_sweep st1 > 86400
      then snd (sweep_storage_node_orphans E (mesh E) A 0 (st1\<lparr>as_last_sweep := av_timestamp A\<rparr>)) else st1)"
  have "audit_ready E loc A (st1\<lparr>as_last_sweep := t\<rparr>)" "audit_safe (holds E) E loc st1 (st1\<lparr>as_last_sweep := t\<rparr>)" for t
    using c1(1) by (auto simp: audit_ready_def audit_safe_def intro: audit_step_grows)
  note s = sweep_safe[OF assms(1) this(1)[of "av_timestamp A"], of 0] this(2)[of "av_timestamp A"]
  have st2: "audit_ready E loc A st2" "audit_safe (holds E) E loc st st2"
    using s(1) c1(1) audit_safe_trans[OF audit_safe_trans[OF y(2) c1(2)] audit_safe_trans[OF s(3) s(2)]] audit_safe_trans[OF y(2) c1(2)]
    by (auto simp: st2_def)
  have inv: "audit_inv E loc A (as_rb st2)" using st2(1) by (simp add: audit_ready_def)
  have rb: "snd (cleanup_orphaned_shards_with_service E (mesh E) A 0 True (sync_registry A 0 (as_rb st))) = rb" using c by simp
  have run: "(case av_fails A 0 AuditConn of Some e \<Rightarrow> Done (Err e, st2)
      | None \<Rightarrow> (case av_fails A 0 AuditSelect of Some e \<Rightarrow> Done (Err e, st2)
         | None \<Rightarrow> if audit_due (rv_now (av_rb A)) (rs_db (as_rb st2)) = [] then check_consistency E (mesh E) A st2
             else bind_out (audit_rows E (mesh E) A (audit_due (rv_now (av_rb A)) (rs_db (as_rb st2))) (as_rb st2)) (\<lambda>rb. Done (Ok True, st2\<lparr>as_rb := rb\<rparr>))))
      = Done (res, st')"
    using assms(2) unfolding perform_audit_def Let_def rb st1_def[symmetric] st2_def[symmetric] .
  have "st' = st2 \<or> check_consistency E (mesh E) A st2 = Done (res, st')
      \<or> (\<exists>rows rb1. audit_rows E (mesh E) A rows (as_rb st2) = Done rb1 \<and> st' = st2\<lparr>as_rb := rb1\<rparr>)"
    using run by (cases "av_fails A 0 AuditConn"; cases "av_fails A 0 AuditSelect") (auto simp: bind_out_Done split: if_splits)
  then show "audit_inv E loc A (as_rb st')" "audit_safe (holds E) E loc st st'"
    using st2 inv consistency_safe[OF assms(1) _ st2(1)] audit_rows_keep[OF assms(1) _ inv]
      audit_safe_trans[OF st2(2)] audit_safe_trans[OF st2(2) audit_safe_rb] by auto
qed

end

text \<open>C11. An audit never loses a shard that is still wanted.  For every mesh of storage nodes, whatever fails on
  the way, in any audit that does not panic: the constraints of the schema hold afterwards, every
  catalogued shard of a file that is not deleted, if its node held it before, is catalogued and held by
  its node after (the same node, or the one it was repaired to), and no shard of a database backup
  disappears from any node.\<close>

theorem audit_keeps_shards:
  assumes "hex_ok E" "perform_audit E (node_mesh P E) A st = Done (res, st')" "audit_ready E loc A st"
  shows "db_ok (rs_db (as_rb st'))
    \<and> (\<forall>f i. f \<in> set (live_hashes (rs_db (as_rb st))) \<and> shard_held (mesh_holds E) E loc (as_rb st) f i
         \<longrightarrow> shard_held (mesh_holds E) E loc (as_rb st') f i)
    \<and> (\<forall>a h. hex_encode E h \<in> set (as_backup_hashes st) \<and> mesh_holds E (rs_mesh (as_rb st)) a h
         \<longrightarrow> mesh_holds E (rs_mesh (as_rb st')) a h)"
  using storage_mesh.audit_safety[OF assms] by (simp add: audit_inv_def audit_safe_def audit_step_def)

section \<open>What a sweep removes\<close>

lemma healthy_list:
  assumes "hex_ok E" "ed25519_ok E" "healthy E P V a" "find_by_addr (rs_registry st) a = Some (mp_id P a)" "disk_reach E (mw_disk (rs_mesh st) a)"
  shows "\<exists>hs sp. list_remote_shards E (dial_env (node_mesh P E) V st) (rv_identity V) a (Some (hex2 i)) = Ok (hs, sp)
    \<and> set hs = {h. length h = 32 \<and> fst (get_shard_path E h) = hex2 i \<and> mesh_holds E (rs_mesh st) a h}"
proof -
  let ?w = "rs_mesh st"
  let ?x = "mp_ctx P a (mw_tick ?w)" and ?nd = "mp_node P a" and ?d = "mw_disk ?w a"
  let ?scope = "blake3 E (str_bytes (hex2 i))"
  let ?m = "ListShardsRequest (Some (hex2 i)) (create_shard_token E (ue_clock (rv_up V)) (rv_identity V) OpList ?scope)"
  have q: "quiet_ctx ?x" "\<And>m. mp_tx P a (mw_tick ?w) m = Ok ()" using assms(3) by (auto simp: healthy_def)
  have auth: "authorized E ?nd ?x (create_shard_token E (ue_clock (rv_up V)) (rv_identity V) OpList ?scope) OpList ?scope"
    using trusts_authorized[OF assms(2)] assms(3) by (auto simp: healthy_def)
  obtain hs where hs: "list_shards E ?d (Some (hex2 i)) = Ok hs" "set hs = {h. length h = 32 \<and> fst (get_shard_path E h) = hex2 i \<and> exists_shard E ?d h}"
  proof -
    have len: "length (hex2 i) = 2" by (simp add: hex2_def)
    note mem = list_prefix_mem[OF assms(1) disk_reach_wf[OF assms(5)] len]
    have "dir_exists (d_fs ?d) (hex2 i)" if "fst (get_shard_path E h) = hex2 i" "exists_shard E ?d h" for h
      using that disk_reach_wf[OF assms(5)] unfolding fs_wf_def exists_shard_def by (metis (mono_tags) mem_Collect_eq)
    then have "set (if dir_exists (d_fs ?d) (hex2 i) then list_prefix E ?d (hex2 i) else []) = {h. length h = 32 \<and> fst (get_shard_path E h) = hex2 i \<and> exists_shard E ?d h}"
      using mem by auto
    then show thesis by (intro that[of "sort (if dir_exists (d_fs ?d) (hex2 i) then list_prefix E ?d (hex2 i) else [])"]) (simp_all add: list_shards_def Let_def)
  qed
  have hm: "handle_message E ?nd ?x ?d ?m = (([ListShardsResponse (Some (hex2 i)) hs (available_space (hx_io ?x))], Ok ()), ?d)"
    using auth hs(1) by (simp add: Let_def quiet_send_seq[OF q(1)] del: send_seq.simps)
  have "list_remote_shards E (dial_env (node_mesh P E) V st) (rv_identity V) a (Some (hex2 i)) = Ok (hs, available_space (hx_io ?x))"
    using hm q(2)
    by (simp add: list_remote_shards_def healthy_connect[OF assms(3,4)] node_conn_io Let_def rx_def node_conn_def handle_stream_def stream_of_def)
  then show ?thesis using hs(2) by (auto simp: mesh_holds_def exists_shard_iff)
qed

lemma delete_reach:
  assumes "disk_reach E (mw_disk (rs_mesh st) b)"
  shows "disk_reach E (mw_disk (rs_mesh (delete_old_shard E (node_mesh P E) V a x st)) b)"
proof -
  have sent: "delete_sent E U i a x = [] \<or> (\<exists>h t. delete_sent E U i a x = [DeleteShardRequest h t])" for U i
    by (auto simp: delete_sent_def Let_def split: option.splits)
  have "disk_reach E (snd (handle_stream E nd c salt d (Received (Ok (DeleteShardRequest h t))) fs))" if "disk_reach E d" for nd c salt d h t fs
  proof -
    obtain out d' where o: "handle_message E nd c d (DeleteShardRequest h t) = (out, d')" by fastforce
    then have "disk_reach E d'" using handle_message_disk[OF o] that disk_reach.delete by auto
    then show ?thesis using o by (simp add: handle_stream_def)
  qed
  then show ?thesis
    using assms sent[of "dial_env (node_mesh P E) V st" "rv_identity V"]
    by (auto simp: delete_old_shard_def after_stream_def node_mesh_def)
qed

text \<open>A node as the sweep finds it: registered, healthy, with a disk that the operations produced.\<close>

definition sweepable :: "ext \<Rightarrow> mesh_params \<Rightarrow> audit_env \<Rightarrow> mesh_state audit_state \<Rightarrow> sock_addr \<Rightarrow> bool" where
  "sweepable E P A st a \<longleftrightarrow> healthy E P (av_rb A) a \<and> find_by_addr (rs_registry (as_rb st)) a = Some (mp_id P a)
     \<and> disk_reach E (mw_disk (rs_mesh (as_rb st)) a) \<and> st_checked (as_statics st) = []"

definition swept :: "ext \<Rightarrow> mesh_state audit_state \<Rightarrow> (sock_addr \<Rightarrow> bytes \<Rightarrow> bool) \<Rightarrow> mesh_state audit_state \<Rightarrow> bool" where
  "swept E st gone st' \<longleftrightarrow> (\<exists>w. st' = st\<lparr>as_rb := (as_rb st)\<lparr>rs_mesh := w\<rparr>\<rparr>)
     \<and> (\<forall>b. disk_reach E (mw_disk (rs_mesh (as_rb st)) b) \<longrightarrow> disk_reach E (mw_disk (rs_mesh (as_rb st')) b))
     \<and> (\<forall>b h. length h = 32 \<longrightarrow> mesh_holds E (rs_mesh (as_rb st')) b h = (mesh_holds E (rs_mesh (as_rb st)) b h \<and> \<not> gone b h))"

lemma swept_refl: "(\<And>b h. length h = 32 \<Longrightarrow> mesh_holds E (rs_mesh (as_rb st)) b h \<Longrightarrow> \<not> gone b h) \<Longrightarrow> swept E st gone st"
  by (auto simp: swept_def intro!: exI[of _ "rs_mesh (as_rb st)"])

lemma swept_trans:
  assumes "swept E st g1 st1" "swept E st1 g2 st2"
    "\<And>b h. length h = 32 \<Longrightarrow> mesh_holds E (rs_mesh (as_rb st)) b h \<Longrightarrow> gone b h \<longleftrightarrow> g1 b h \<or> g2 b h"
  shows "swept E st gone st2"
  unfolding swept_def
proof (intro conjI allI impI)
  show "\<exists>w. st2 = st\<lparr>as_rb := (as_rb st)\<lparr>rs_mesh := w\<rparr>\<rparr>" using assms(1,2) by (auto simp: swept_def)
  show "disk_reach E (mw_disk (rs_mesh (as_rb st)) b) \<Longrightarrow> disk_reach E (mw_disk (rs_mesh (as_rb st2)) b)" for b
    using assms(1,2) unfolding swept_def by blast
  show "mesh_holds E (rs_mesh (as_rb st2)) b h = (mesh_holds E (rs_mesh (as_rb st)) b h \<and> \<not> gone b h)" if "length h = 32" for b h
    using assms(1,2) assms(3)[OF that] that unfolding swept_def by blast
qed

lemma sweepable_swept: "sweepable E P A st a \<Longrightarrow> swept E st gone st' \<Longrightarrow> sweepable E P A st' a"
  by (auto simp: sweepable_def swept_def)

lemma referenced_swept: "swept E st gone st' \<Longrightarrow> referenced st' = referenced st"
  by (auto simp: swept_def)

lemma sweep_one:
  assumes "hex_ok E" "ed25519_ok E" "sweepable E P A st a" "length x = 32"
  shows "swept E st (\<lambda>b h. b = a \<and> h = x) (with_rb (delete_old_shard E (node_mesh P E) (av_rb A) a (hex_encode E x)) st)"
proof -
  obtain w where w: "delete_old_shard E (node_mesh P E) (av_rb A) a (hex_encode E x) (as_rb st) = (as_rb st)\<lparr>rs_mesh := w\<rparr>"
    "shards_set E (rs_mesh (as_rb st)) a x None w"
    using healthy_delete[OF assms(1,2), of P "av_rb A" a "as_rb st" x] assms(3,4) by (auto simp: sweepable_def)
  have "disk_reach E (mw_disk (rs_mesh (as_rb st)) b) \<Longrightarrow> disk_reach E (mw_disk w b)" for b
    using delete_reach[of E "as_rb st" b P "av_rb A" a "hex_encode E x"] w(1) by simp
  then show ?thesis using w by (auto simp: swept_def with_rb_def shards_set_def mesh_holds_def)
qed

lemma prune_removes:
  assumes "hex_ok E" "ed25519_ok E"
  shows "sweepable E P A st a \<Longrightarrow> \<forall>x \<in> set xs. length x = 32 \<Longrightarrow>
    swept E st (\<lambda>b h. b = a \<and> h \<in> set xs \<and> hex_encode E h \<notin> set valid) (snd (prune_hashes E (node_mesh P E) A nid a valid (map (hex_encode E) xs) st))"
proof (induction xs arbitrary: st)
  case Nil
  then show ?case by (auto intro: swept_refl)
next
  case (Cons x xs)
  have rec: "\<not> is_recently_stored (av_instant A) (as_statics st) nid (hex_encode E x)" using Cons.prems(1) by (simp add: sweepable_def is_recently_stored_def)
  show ?case
  proof (cases "hex_encode E x \<in> set valid")
    case True
    then have "snd (prune_hashes E (node_mesh P E) A nid a valid (map (hex_encode E) (x # xs)) st)
        = snd (prune_hashes E (node_mesh P E) A nid a valid (map (hex_encode E) xs) st)" by simp
    moreover have "swept E st g st' \<Longrightarrow> (\<And>b h. g b h = g' b h) \<Longrightarrow> swept E st g' st'" for g g' st' by (simp add: swept_def)
    ultimately show ?thesis using Cons.IH[OF Cons.prems(1)] Cons.prems(2) True by (metis (no_types, lifting) list.set_intros(2) set_ConsD)
  next
    case False
    define st1 where "st1 = with_rb (delete_old_shard E (node_mesh P E) (av_rb A) a (hex_encode E x)) st"
    have one: "swept E st (\<lambda>b h. b = a \<and> h = x) st1" unfolding st1_def by (rule sweep_one[OF assms Cons.prems(1)]) (use Cons.prems(2) in simp)
    have run: "snd (prune_hashes E (node_mesh P E) A nid a valid (map (hex_encode E) (x # xs)) st)
        = snd (prune_hashes E (node_mesh P E) A nid a valid (map (hex_encode E) xs) st1)"
      using False rec by (simp add: st1_def Let_def split: prod.splits)
    show ?thesis unfolding run
      by (rule swept_trans[OF one Cons.IH[OF sweepable_swept[OF Cons.prems(1) one]]]) (use Cons.prems(2) False in auto)
  qed
qed

lemma sweep_prefixes_exact:
  assumes "hex_ok E" "ed25519_ok E" "\<And>i. av_fails A k (SweepQuery nid i) = None"
  shows "sweepable E P A st a \<Longrightarrow> \<exists>n st'. sweep_prefixes E (node_mesh P E) A k nid a is st = (Ok n, st')
    \<and> swept E st (\<lambda>b h. b = a \<and> (\<exists>i \<in> set is. fst (get_shard_path E h) = hex2 i) \<and> \<not> referenced st (hex_encode E h)) st'"
proof (induction "is" arbitrary: st)
  case Nil
  then show ?case by (auto intro: swept_refl)
next
  case (Cons i "is")
  let ?M = "node_mesh P E"
  obtain hs sp where l: "list_remote_shards E (dial_env ?M (av_rb A) (as_rb st)) (rv_identity (av_rb A)) a (Some (hex2 i)) = Ok (hs, sp)"
    "set hs = {h. length h = 32 \<and> fst (get_shard_path E h) = hex2 i \<and> mesh_holds E (rs_mesh (as_rb st)) a h}"
    using healthy_list[OF assms(1,2), of P "av_rb A" a "as_rb st" i] Cons.prems by (auto simp: sweepable_def)
  let ?xs = "map (hex_encode E) hs" let ?valid = "filter (referenced st) ?xs"
  obtain n st1 where p: "prune_hashes E ?M A nid a ?valid ?xs st = (n, st1)" by fastforce
  have s1: "swept E st (\<lambda>b h. b = a \<and> h \<in> set hs \<and> hex_encode E h \<notin> set ?valid) st1"
    using prune_removes[OF assms(1,2) Cons.prems, of hs ?valid nid] l(2) p by simp
  obtain m st2 where s2: "sweep_prefixes E ?M A k nid a is st1 = (Ok m, st2)"
    "swept E st1 (\<lambda>b h. b = a \<and> (\<exists>i \<in> set is. fst (get_shard_path E h) = hex2 i) \<and> \<not> referenced st (hex_encode E h)) st2"
    using Cons.IH[OF sweepable_swept[OF Cons.prems s1]] unfolding referenced_swept[OF s1] by blast
  have "\<exists>n. sweep_prefixes E ?M A k nid a (i # is) st = (Ok n, st2)"
    using l(1) p s2(1) assms(3) by (cases "hs = []") auto
  moreover have "swept E st (\<lambda>b h. b = a \<and> (\<exists>j \<in> set (i # is). fst (get_shard_path E h) = hex2 j) \<and> \<not> referenced st (hex_encode E h)) st2"
    by (rule swept_trans[OF s1 s2(2)]) (use l(2) in auto)
  ultimately show ?case by blast
qed

lemma sweep_nodes_exact:
  assumes "hex_ok E" "ed25519_ok E" "\<And>n i. av_fails A k (SweepQuery n i) = None"
  shows "\<forall>n \<in> set nids. sweepable E P A st (loc n) \<and> (\<exists>p. get_peer (rs_registry (as_rb st)) n = Some p \<and> pi_addr p = loc n) \<Longrightarrow>
    \<exists>c st'. sweep_nodes E (node_mesh P E) A k nids st = (Ok c, st')
      \<and> swept E st (\<lambda>b h. b \<in> loc ` set nids \<and> \<not> referenced st (hex_encode E h)) st'"
proof (induction nids arbitrary: st)
  case Nil
  then show ?case by (auto intro: swept_refl)
next
  case (Cons nid nids)
  have l: "lookup_addr (av_rb A) b nid (as_rb st) = (Some (loc nid), as_rb st)" for b
    using Cons.prems by (auto simp: lookup_addr_def lookup_node_addr_def)
  obtain n st1 where s1: "sweep_prefixes E (node_mesh P E) A k nid (loc nid) [0..<256] st = (Ok n, st1)"
    "swept E st (\<lambda>b h. b = loc nid \<and> (\<exists>i \<in> set [0..<256]. fst (get_shard_path E h) = hex2 i) \<and> \<not> referenced st (hex_encode E h)) st1"
    using sweep_prefixes_exact[OF assms, where P = P and st = st and a = "loc nid" and nid = nid] Cons.prems by (meson list.set_intros(1))
  have "rs_registry (as_rb st1) = rs_registry (as_rb st)" using s1(2) by (auto simp: swept_def)
  then have "\<forall>n \<in> set nids. sweepable E P A st1 (loc n) \<and> (\<exists>p. get_peer (rs_registry (as_rb st1)) n = Some p \<and> pi_addr p = loc n)"
    using Cons.prems sweepable_swept[OF _ s1(2)] by auto
  from Cons.IH[OF this] obtain m st2 where s2: "sweep_nodes E (node_mesh P E) A k nids st1 = (Ok m, st2)"
    "swept E st1 (\<lambda>b h. b \<in> loc ` set nids \<and> \<not> referenced st (hex_encode E h)) st2"
    unfolding referenced_swept[OF s1(2)] by blast
  have "sweep_nodes E (node_mesh P E) A k (nid # nids) st = (Ok (n + m), st2)"
    using l s1(1) s2(1) by (simp del: upt_rec_numeral)
  moreover have "swept E st (\<lambda>b h. b \<in> loc ` set (nid # nids) \<and> \<not> referenced st (hex_encode E h)) st2"
  proof (rule swept_trans[OF s1(2) s2(2)])
    fix b and h :: bytes assume "length h = 32"
    then obtain i where "i \<in> set [0..<256]" "fst (get_shard_path E h) = hex2 i" using shard_path_dir[OF assms(1)] by (auto simp del: upt_rec_numeral)
    then show "(b \<in> loc ` set (nid # nids) \<and> \<not> referenced st (hex_encode E h)) \<longleftrightarrow>
       (b = loc nid \<and> (\<exists>i \<in> set [0..<256]. fst (get_shard_path E h) = hex2 i) \<and> \<not> referenced st (hex_encode E h))
         \<or> (b \<in> loc ` set nids \<and> \<not> referenced st (hex_encode E h))" by (auto simp del: upt_rec_numeral set_upt)
  qed
  ultimately show ?case by blast
qed

text \<open>C12. A sweep of working nodes removes exactly what no table refers to.  When the database answers and every
  active node is registered and works, the sweep succeeds, and afterwards a node holds a shard exactly
  if it held it before and, for the active nodes, one of the two shard tables names its hash.  What has
  been stored moments ago and is not yet recorded is removed too: the stores that the uploads noted
  play no part, for the sweep looks into a table that nothing ever fills.\<close>

theorem sweep_exact:
  assumes "hex_ok E" "ed25519_ok E" "\<And>c. av_fails A k c = None" "st_checked (as_statics st) = []"
    and "\<And>n. n \<in> set (db_nodes (rs_db (as_rb st))) \<Longrightarrow> nr_active n \<Longrightarrow>
      \<exists>p. get_peer (rs_registry (as_rb st)) (nr_id n) = Some p \<and> pi_addr p = loc (nr_id n)
        \<and> find_by_addr (rs_registry (as_rb st)) (loc (nr_id n)) = Some (mp_id P (loc (nr_id n)))
        \<and> healthy E P (av_rb A) (loc (nr_id n)) \<and> disk_reach E (mw_disk (rs_mesh (as_rb st)) (loc (nr_id n)))"
  shows "\<exists>c st'. sweep_storage_node_orphans E (node_mesh P E) A k st = (Ok c, st')
    \<and> rs_db (as_rb st') = rs_db (as_rb st)
    \<and> (\<forall>a h. length h = 32 \<longrightarrow> (mesh_holds E (rs_mesh (as_rb st')) a h \<longleftrightarrow> mesh_holds E (rs_mesh (as_rb st)) a h
         \<and> (a \<in> (\<lambda>n. loc (nr_id n)) ` {n \<in> set (db_nodes (rs_db (as_rb st))). nr_active n} \<longrightarrow> referenced st (hex_encode E h))))"
proof -
  let ?nids = "map nr_id (filter nr_active (db_nodes (rs_db (as_rb st))))"
  have "\<forall>n \<in> set ?nids. sweepable E P A st (loc n) \<and> (\<exists>p. get_peer (rs_registry (as_rb st)) n = Some p \<and> pi_addr p = loc n)"
    using assms(4,5) by (auto simp: sweepable_def)
  from sweep_nodes_exact[OF assms(1,2) _ this] obtain c st' where s: "sweep_nodes E (node_mesh P E) A k ?nids st = (Ok c, st')"
    "swept E st (\<lambda>b h. b \<in> loc ` set ?nids \<and> \<not> referenced st (hex_encode E h)) st'" using assms(3) by blast
  have "loc ` set ?nids = (\<lambda>n. loc (nr_id n)) ` {n \<in> set (db_nodes (rs_db (as_rb st))). nr_active n}" by (simp add: image_image)
  moreover have "sweep_storage_node_orphans E (node_mesh P E) A k st = (Ok c, st')" using s(1) assms(3) by (simp add: sweep_storage_node_orphans_def)
  moreover have "rs_db (as_rb st') = rs_db (as_rb st)" using s(2) by (auto simp: swept_def)
  ultimately show ?thesis using s(2) unfolding swept_def by (intro exI[of _ c] exI[of _ st']) simp
qed

section \<open>A repaired shard is the uploaded one\<close>

text \<open>The stream of a shard, segment by segment; however the reads fall, the loop of the repair finds the segments that
  the upload cut.\<close>

lemma shard_stream_concat: "concat (shard_stream segs idx) = concat (map (\<lambda>s. fst s ! idx) segs)"
  by (induction segs) (auto simp: shard_stream_def concat_chunks_of CHUNK_MSG_SIZE_def)

lemma reshard_loop_stream:
  assumes "seg_loop E se key d p k (map Inr bs) = Ok segs" "concat bs' = concat bs" "[] \<notin> set bs" "[] \<notin> set bs'"
    "\<forall>s \<in> set segs. idx < length (fst s)"
  shows "reshard_loop E se key d p idx k (map Inr bs') = Ok (concat (shard_stream segs idx), concat bs)"
  using assms
proof (induction "length (concat bs)" arbitrary: bs bs' segs k rule: less_induct)
  case less
  obtain cs where r: "read_full SEGMENT_THRESHOLD (map Inr bs) = (Ok (take SEGMENT_THRESHOLD (concat bs)), map Inr cs)"
    "[] \<notin> set cs" "concat cs = drop SEGMENT_THRESHOLD (concat bs)"
    using read_full_pieces[OF less.prems(3)] by metis
  obtain cs' where r': "read_full SEGMENT_THRESHOLD (map Inr bs') = (Ok (take SEGMENT_THRESHOLD (concat bs)), map Inr cs')"
    "[] \<notin> set cs'" "concat cs' = drop SEGMENT_THRESHOLD (concat bs)"
    using read_full_pieces[OF less.prems(4)] less.prems(2) by metis
  let ?b = "take SEGMENT_THRESHOLD (concat bs)"
  show ?case
  proof (cases "?b = []")
    case True
    then have "concat bs = []" by (simp add: SEGMENT_THRESHOLD_def)
    moreover have "segs = []" using less.prems(1) r(1) True by (simp add: seg_loop.simps)
    ultimately show ?thesis using r'(1) True by (simp add: reshard_loop.simps shard_stream_def)
  next
    case False
    have "bind_res (map_err se (process_for_backup E ?b key (key @ u32_le k) d p)) (\<lambda>seg.
        bind_res (seg_loop E se key d p (k + 1) (map Inr cs)) (\<lambda>segs. Ok (seg # segs))) = Ok segs"
      using less.prems(1) by (simp only: seg_loop.simps[of E se key _ _ k] r(1) prod.case sum.case False if_False)
    then obtain sub n segs' where s: "process_for_backup E ?b key (key @ u32_le k) d p = Ok (sub, n)"
      "seg_loop E se key d p (k + 1) (map Inr cs) = Ok segs'" "segs = (sub, n) # segs'"
      unfolding bind_res_Ok_iff map_err_Ok_iff by auto
    have "length (concat cs) < length (concat bs)" using False r(3) by (simp add: SEGMENT_THRESHOLD_def)
    from less.hyps[OF this s(2) _ r(2) r'(2)] have "reshard_loop E se key d p idx (k + 1) (map Inr cs') = Ok (concat (shard_stream segs' idx), concat cs)"
      using r(3) r'(3) less.prems(5) s(3) by simp
    moreover have "idx < length sub" using less.prems(5) s(3) by simp
    ultimately have "reshard_loop E se key d p idx k (map Inr bs') = Ok (sub ! idx @ concat (shard_stream segs' idx), ?b @ concat cs)"
      using s(1) by (simp only: reshard_loop.simps[of E se key d p idx k] r'(1) prod.case sum.case False if_False map_err.simps bind_res.simps if_True)
    then show ?thesis using s(3) r(3) by (simp add: shard_stream_concat)
  qed
qed

text \<open>C21. Repairing a segmented file from the local copy re-creates the lost shard byte for byte.  Whatever the sizes
  of the reads during the upload and during the repair, if the upload cut, encrypted and encoded the
  file into segments and the local file still is that file, the repair computes exactly the bytes that
  the upload streamed to the node of that shard, and so the catalogued hash.\<close>

theorem repair_recreates_stream:
  assumes "seg_loop E (rv_show_err (av_rb A)) key d p 0 (map Inr bs) = Ok segs" "[] \<notin> set bs" "hex_encode E (blake3 E (concat bs)) = f"
    and "\<forall>s \<in> set segs. idx < length (fst s)" "concat (shard_stream segs idx) \<noteq> []"
    and "media_path (rv_images_dir (av_rb A)) f e = Done path" "media_path (rv_videos_dir (av_rb A)) f e = Done path'"
    and "rv_files (av_rb A) path \<noteq> None" "av_reads A path = Ok (map Inr bs')" "[] \<notin> set bs'" "concat bs' = concat bs"
  shows "reshard_segmented E A f idx e key d p = Done (Ok (concat (shard_stream segs idx)))"
  using reshard_loop_stream[OF assms(1,11,2,10,4)] assms(3,5-9) by (simp add: reshard_segmented_def)

section \<open>A healthy repair\<close>

text \<open>What a repair achieves.  When the database answers, the file is not segmented, its key opens and the local
  copy still has the file's hash, and the node that rendezvous hashing selects for the index is healthy
  and in the node table: the repair succeeds, that node then holds exactly the shard that encoding the
  file gives, no other shard anywhere changes, the catalog names that node and the shard's hash for
  the index and is otherwise unchanged.\<close>

theorem repair_restores_shard:
  assumes "hex_ok E" "ed25519_ok E" "\<And>c. av_repair_fails A f i c = None"
    and "nodes = map (\<lambda>q. (pi_node_id q, pi_addr q)) (all_peers (rs_registry st))" "nodes \<noteq> []"
    and "ideal = rendezvous_select E f nodes (min SHARD_COUNT (length nodes))" "ideal ! (i mod length ideal) = (nid, a)"
    and "healthy E P (av_rb A) a" "find_by_addr (rs_registry st) a = Some (mp_id P a)" "nid \<in> nr_id ` set (db_nodes (rs_db st))"
    and "segmented_rows (rs_db st) f = []" "rv_api_key (av_rb A) = Ok secret"
    and "find_file_info E (rv_sha256 (av_rb A)) None None (rs_db st) (rs_cache st) f secret = (Ok (Some (e, Some key, sz, d, p)), c)"
    and "local_file (av_rb A) f e = Done (Ok data)" "hex_encode E (blake3 E data) = f"
    and "process_for_backup E data key key d p = Ok (shards, n)" "i < length shards" "length (shards ! i) \<le> UPLOAD_STREAM_THRESHOLD"
  shows "\<exists>st'. repair_file E (node_mesh P E) A f i st = Done (Ok (), st')
    \<and> shards_set E (rs_mesh st) a (blake3 E (shards ! i)) (Some (shards ! i)) (rs_mesh st')
    \<and> (\<forall>g j. placement (rs_db st') g j =
         (if (g, j) = (f, as_i32 i) then Some (nid, hex_encode E (blake3 E (shards ! i))) else placement (rs_db st) g j))
    \<and> db_images (rs_db st') = db_images (rs_db st) \<and> db_videos (rs_db st') = db_videos (rs_db st)"
proof -
  let ?st = "st\<lparr>rs_cache := c\<rparr>" and ?h = "blake3 E (shards ! i)"
  let ?row = "\<lparr>sr_file = f, sr_index = as_i32 i, sr_node = nid, sr_hash = hex_encode E ?h, sr_checked = Some (rv_now (av_rb A))\<rparr>"
  have "reshard_single E A f i e key d p = Done (Ok (shards ! i))" using assms(14-17) by (simp add: reshard_single_def)
  moreover obtain w where w: "upload_shard_to_node E (node_mesh P E) (av_rb A) a (shards ! i) ?st = (Ok (hex_encode E ?h), ?st\<lparr>rs_mesh := w\<rparr>)"
    "shards_set E (rs_mesh st) a ?h (Some (shards ! i)) w"
    using healthy_upload[OF assms(1,2,8), of ?st "shards ! i"] assms(9,18) by auto
  define st' where "st' = ?st\<lparr>rs_mesh := w, rs_db := (rs_db st)\<lparr>db_shards := upsert_repaired_rows ?row (db_shards (rs_db st))\<rparr>\<rparr>"
  have "place_shard E (node_mesh P E) A f i (nid, a) (Done (Ok (shards ! i))) ?st = Done (Ok (), st')"
    using w(1) assms(3,10) by (simp add: place_shard_def record_repair_def st'_def)
  ultimately have "repair_unsegmented E (node_mesh P E) A f i (nid, a) nodes st = Done (Ok (), st')"
    using assms(3,12,13) by (simp add: repair_unsegmented_def)
  moreover have "repair_nodes A f i st = (Ok nodes, st)" using assms(4,5) by (simp add: repair_nodes_def)
  moreover have "\<not> length nodes < MIN_NODES_REQUIRED" using assms(5) by (cases nodes) (simp_all add: MIN_NODES_REQUIRED_def)
  ultimately have "repair_file E (node_mesh P E) A f i st = Done (Ok (), st')"
    using assms(3,6,7,11) by (simp add: repair_file_def Let_def)
  moreover have "placement (rs_db st') g j = (if (g, j) = (f, as_i32 i) then Some (nid, hex_encode E ?h) else placement (rs_db st) g j)" for g j
    using repaired.lookup_put[of ?row "db_shards (rs_db st)"] by (simp add: placement_lookup shard_key_def st'_def)
  ultimately show ?thesis using w(2) by (intro exI[of _ st']) (simp add: st'_def)
qed

section \<open>A file of two users\<close>

lemma undersharded_blocked:
  assumes "file_rows db h \<noteq> []" "length (filter (\<lambda>m. mr_hash m = h) (db_images db)) \<ge> 2"
  shows "length pre < n \<Longrightarrow> undersharded err db (pre @ h # post) n = Err err"
proof (induction pre arbitrary: n)
  case Nil
  then obtain m where "n = Suc m" by (cases n) auto
  moreover obtain x y zs where "filter (\<lambda>m. mr_hash m = h) (db_images db) = x # y # zs"
    using assms(2) by (metis Suc_le_length_iff numeral_2_eq_2)
  ultimately show ?case using assms(1) by (simp add: needed_shards_def data_shards_subquery_def)
next
  case (Cons g pre)
  then obtain m where m: "n = Suc m" "length pre < m" by (cases n) auto
  have sub: "data_shards_subquery err g rows = Inl e \<Longrightarrow> e = err" for rows e
    by (auto simp: data_shards_subquery_def split: list.splits)
  then have "needed_shards err db g = Inl e \<Longrightarrow> e = err" for e
    by (auto simp: needed_shards_def bind_res_Err_iff split: option.splits)
  then show ?case using m Cons.IH[of m] Cons.IH[of "Suc m"] by (cases "needed_shards err db g") auto
qed

lemma delete_remotely_db: "rs_db (delete_remotely E M A k rows st) = rs_db st"
proof (induction rows arbitrary: st)
  case (Cons s rows)
  obtain a st1 where l: "lookup_addr (av_rb A) (av_fails A k (PurgeLookup (sr_node s)) = None) (sr_node s) st = (a, st1)" by fastforce
  then show ?case using Cons.IH lookup_addr_frame[OF l] by (cases a) simp_all
qed simp

lemma sweep_nodes_db: "rs_db (as_rb (snd (sweep_nodes E M A k nids st))) = rs_db (as_rb st)"
proof (induction nids arbitrary: st)
  case (Cons nid nids)
  obtain a rb where l: "lookup_addr (av_rb A) (av_fails A k (SweepLookup nid) = None) nid (as_rb st) = (a, rb)" by fastforce
  show ?case
  proof (cases a)
    case None
    then show ?thesis using l Cons.IH[of "st\<lparr>as_rb := rb\<rparr>"] lookup_addr_frame[OF l] by simp
  next
    case (Some addr)
    obtain q st1 where s: "sweep_prefixes E M A k nid addr [0..<256] (st\<lparr>as_rb := rb\<rparr>) = (q, st1)" by fastforce
    then have "rs_db (as_rb st1) = rs_db (as_rb st)" using sweep_prefixes_frame[OF s] lookup_addr_frame[OF l] by auto
    then show ?thesis using l Some s Cons.IH[of st1] by (cases q) (auto split: prod.splits simp del: upt_rec_numeral)
  qed
qed simp

lemma sweep_db: "rs_db (as_rb (snd (sweep_storage_node_orphans E M A k st))) = rs_db (as_rb st)"
  by (simp add: sweep_storage_node_orphans_def sweep_nodes_db split: option.splits)

text \<open>One file of two users stops every later repair.  If two rows of \<open>images\<close> share a hash, one of them is
  among the first ten replicated files that the query looks at, the file is not deleted and has a
  shard row, then the consistency check, with a database that answers, ends in the error of a subquery
  that returned two rows: no file is repaired or queued again, the media tables are as before and
  the shard rows lose only those of deleted files.\<close>

theorem shared_file_stops_consistency:
  assumes "\<And>k c. av_fails A k c = None" "synced_files (rs_db (as_rb st)) = pre @ h # post" "length pre < 10"
    and "file_rows (rs_db (as_rb st)) h \<noteq> []" "h \<in> set (live_hashes (rs_db (as_rb st)))"
    and "length (filter (\<lambda>m. mr_hash m = h) (db_images (rs_db (as_rb st)))) \<ge> 2"
  shows "\<exists>st'. check_consistency E M A st = Done (Err (av_subquery_err A), st')
    \<and> rs_db (as_rb st') = (rs_db (as_rb st))\<lparr>db_shards := filter (\<lambda>s. \<not> orphan (rs_db (as_rb st)) s) (db_shards (rs_db (as_rb st)))\<rparr>"
proof -
  let ?db = "rs_db (as_rb st)" let ?db' = "?db\<lparr>db_shards := filter (\<lambda>s. \<not> orphan ?db s) (db_shards ?db)\<rparr>"
  have y: "rs_db (sync_registry A k (as_rb st)) = ?db" for k by (simp add: sync_registry_def)
  obtain n rb where c: "cleanup_orphaned_shards_with_service E M A 1 True (sync_registry A 1 (as_rb st)) = (Ok n, rb)" "rs_db rb = ?db'"
    using assms(1) by (simp add: cleanup_orphaned_shards_with_service_def Let_def delete_remotely_db y)
  define st1 where "st1 = snd (sweep_storage_node_orphans E M A 1 (st\<lparr>as_rb := rb\<rparr>))"
  have db1: "rs_db (as_rb st1) = ?db'" using c(2) by (simp add: st1_def sweep_db)
  have "file_rows ?db' h = file_rows ?db h"
    using assms(5) by (auto simp: file_rows_def orphan_def intro!: filter_cong)
  moreover have "synced_files ?db' = synced_files ?db" by (simp add: synced_files_def)
  ultimately have "undersharded (av_subquery_err A) ?db' (synced_files ?db') 10 = Err (av_subquery_err A)"
    using undersharded_blocked[of ?db' h pre 10 "av_subquery_err A" post] assms(2-4,6) by simp
  then have "find_undersharded_files A 10 (rs_db (as_rb st1)) = Err (av_subquery_err A)"
    using assms(1) db1 by (simp add: find_undersharded_files_def)
  then have "check_consistency E M A st = Done (Err (av_subquery_err A), st1)"
    using c(1) by (simp add: check_consistency_def Let_def st1_def)
  then show ?thesis using db1 by blast
qed

section \<open>An audit of two small nodes\<close>

definition toy_audit :: audit_env where
  "toy_audit = \<lparr>av_rb = toy_rb, av_reads = (\<lambda>_. Err []), av_repair_fails = (\<lambda>_ _ _. None), av_fails = (\<lambda>_ _. None), av_sync_answers = (\<lambda>_. True),
     av_fk_err = ''fk'', av_subquery_err = ''two rows'', av_timestamp = 100000, av_instant = 0\<rparr>"

lemma toy_audit_fields [simp]: "av_rb toy_audit = toy_rb" "av_fails toy_audit k c = None" "av_repair_fails toy_audit f i r = None"
  "av_subquery_err toy_audit = ''two rows''"
  by (simp_all add: toy_audit_def)

text \<open>The catalog of one photo with one shard on node \<open>a\<close>; the store there was just noted.\<close>

definition toy_photos :: "media_row list \<Rightarrow> shard_row list \<Rightarrow> mesh_state audit_state" where
  "toy_photos ms rows = \<lparr>as_rb = (toy_start ''f'')\<lparr>rs_db := (rs_db (toy_start ''f''))\<lparr>db_images := ms, db_shards := rows\<rparr>\<rparr>, as_last_sweep = 0,
     as_statics = \<lparr>st_noted = [((''a'', hex_encode toy_ext (blake3 toy_ext [5])), 0)], st_checked = []\<rparr>, as_backup_hashes = []\<rparr>"

lemma toy_stored:
  "mesh_holds toy_ext (rs_mesh (toy_start f)) addr_a (blake3 toy_ext [5])" "disk_reach toy_ext (mw_disk (rs_mesh (toy_start f)) a)"
proof -
  have fresh: "disk_reach toy_ext fresh_disk" unfolding fresh_disk_def by (rule disk_reach.fresh)
  obtain d' where d': "store toy_ext quiet_io fresh_disk (blake3 toy_ext [5]) [5] = (Ok (), d')"
    using store_succeeds[of quiet_io 500000000 toy_ext fresh_disk "blake3 toy_ext [5]" "[5]"] by (cases "store toy_ext quiet_io fresh_disk (blake3 toy_ext [5]) [5]") auto
  then show "mesh_holds toy_ext (rs_mesh (toy_start f)) addr_a (blake3 toy_ext [5])"
    using disk.put_atomic[OF toy_hex_ok d'] by (auto simp: mesh_holds_def toy_start_def)
  have "disk_reach toy_ext d'" by (rule disk_reach.store[OF fresh _ d']) (simp add: blake3_len[OF toy_blake3_ok])
  then show "disk_reach toy_ext (mw_disk (rs_mesh (toy_start f)) a)" using fresh d' by (simp add: toy_start_def)
qed

theorem audit_keeps_shards_witness:
  "\<exists>st'. perform_audit toy_ext (node_mesh (toy_mesh toy_ids) toy_ext) (toy_audit\<lparr>av_fails := \<lambda>k c. if c = AuditConn then Some ''down'' else None\<rparr>)
       (toy_photos [toy_media] [toy_row]) = Done (Err ''down'', st')
     \<and> shard_held (mesh_holds toy_ext) toy_ext toy_loc (as_rb st') ''f'' 0"
proof -
  let ?A = "toy_audit\<lparr>av_fails := \<lambda>k c. if c = AuditConn then Some ''down'' else None\<rparr>" and ?st = "toy_photos [toy_media] [toy_row]"
  have ready: "audit_ready toy_ext toy_loc ?A ?st"
    by (auto simp: audit_ready_def audit_inv_def toy_photos_def toy_start_def db_ok_def located_def distinct_hashes_def toy_loc_def toy_parse_def toy_row_def)
  obtain st' where st': "perform_audit toy_ext (node_mesh (toy_mesh toy_ids) toy_ext) ?A ?st = Done (Err ''down'', st')"
    by (simp add: perform_audit_def Let_def)
  have "shard_held (mesh_holds toy_ext) toy_ext toy_loc (as_rb ?st) ''f'' 0"
    using toy_stored(1)[of "''f''"] hex_decode_encode[OF toy_hex_ok]
    by (simp add: shard_held_def placement_def toy_photos_def toy_row_def shard_key_def toy_loc_def)
  moreover have "''f'' \<in> set (live_hashes (rs_db (as_rb ?st)))" by (simp add: live_hashes_def toy_photos_def toy_media_def)
  ultimately show ?thesis using audit_keeps_shards[OF toy_hex_ok st' ready] st' by blast
qed

theorem sweep_exact_witness:
  "\<exists>c st'. sweep_storage_node_orphans toy_ext (node_mesh (toy_mesh toy_ids) toy_ext) toy_audit 0 (toy_photos [toy_media] []) = (Ok c, st')
     \<and> mesh_holds toy_ext (rs_mesh (as_rb (toy_photos [toy_media] []))) addr_a (blake3 toy_ext [5])
     \<and> \<not> mesh_holds toy_ext (rs_mesh (as_rb st')) addr_a (blake3 toy_ext [5])"
proof -
  let ?st = "toy_photos [toy_media] []" and ?h = "blake3 toy_ext [5]"
  let ?act = "(\<lambda>n. toy_loc (nr_id n)) ` {n \<in> set (db_nodes (rs_db (as_rb ?st))). nr_active n}"
  have nodes: "\<exists>p. get_peer (rs_registry (as_rb ?st)) (nr_id n) = Some p \<and> pi_addr p = toy_loc (nr_id n)
      \<and> find_by_addr (rs_registry (as_rb ?st)) (toy_loc (nr_id n)) = Some (mp_id (toy_mesh toy_ids) (toy_loc (nr_id n)))
      \<and> healthy toy_ext (toy_mesh toy_ids) (av_rb toy_audit) (toy_loc (nr_id n)) \<and> disk_reach toy_ext (mw_disk (rs_mesh (as_rb ?st)) (toy_loc (nr_id n)))"
    if n: "n \<in> set (db_nodes (rs_db (as_rb ?st)))" for n
  proof -
    have "nr_id n = ''a'' \<or> nr_id n = ''b''" using n by (auto simp: toy_photos_def toy_start_def)
    moreover have "get_peer (rs_registry (toy_start ''f'')) ''a'' = Some \<lparr>pi_node_id = ''a'', pi_addr = addr_a, pi_last_seen = 0\<rparr>"
      "get_peer (rs_registry (toy_start ''f'')) ''b'' = Some \<lparr>pi_node_id = ''b'', pi_addr = addr_b, pi_last_seen = 0\<rparr>"
      "find_by_addr (rs_registry (toy_start ''f'')) addr_a = Some ''a''" "find_by_addr (rs_registry (toy_start ''f'')) addr_b = Some ''b''"
      by (simp_all add: toy_start_def get_peer_def find_by_addr_def)
    moreover have "mp_id (toy_mesh toy_ids) addr_a = ''a''" "mp_id (toy_mesh toy_ids) addr_b = ''b''" by (simp_all add: toy_mesh_def toy_ids_def)
    ultimately show ?thesis using toy_healthy toy_stored(2)[of "''f''"] by (auto simp: toy_photos_def toy_loc_def)
  qed
  have "\<exists>c st'. sweep_storage_node_orphans toy_ext (node_mesh (toy_mesh toy_ids) toy_ext) toy_audit 0 ?st = (Ok c, st')
      \<and> rs_db (as_rb st') = rs_db (as_rb ?st)
      \<and> (\<forall>a h. length h = 32 \<longrightarrow> (mesh_holds toy_ext (rs_mesh (as_rb st')) a h \<longleftrightarrow> mesh_holds toy_ext (rs_mesh (as_rb ?st)) a h
           \<and> (a \<in> ?act \<longrightarrow> referenced ?st (hex_encode toy_ext h))))"
    by (rule sweep_exact[OF toy_hex_ok toy_ed25519_ok _ _ nodes]) (simp_all add: toy_photos_def)
  moreover have "addr_a \<in> ?act"
    by (rule image_eqI[of _ _ "\<lparr>nr_id = ''a'', nr_addr = ''a'', nr_active = True, nr_last_seen = 0\<rparr>"]) (simp_all add: toy_photos_def toy_start_def toy_loc_def)
  moreover have "\<not> referenced ?st (hex_encode toy_ext ?h)" by (simp add: referenced_def toy_photos_def)
  moreover have "mesh_holds toy_ext (rs_mesh (as_rb ?st)) addr_a ?h" using toy_stored(1) by (simp add: toy_photos_def)
  ultimately show ?thesis using blake3_len[OF toy_blake3_ok, of "[5]"] by blast
qed

definition toy_name :: string where
  "toy_name = hex_encode toy_ext (blake3 toy_ext [7, 8, 9])"

lemma toy_name_path: "media_path dir toy_name e = Done (dir @ ''/'' @ take 2 toy_name @ ''/'' @ toy_name @ ''.'' @ e)"
proof -
  have "2 \<le> length toy_name" by (simp add: toy_name_def hex_encode_len[OF toy_hex_ok] blake3_len[OF toy_blake3_ok])
  moreover have "char_boundary toy_name 2" by code_simp
  ultimately show ?thesis by (simp add: media_path_def)
qed

lemma toy_code: "\<exists>ys. process_for_backup toy_ext [7, 8, 9] (replicate 32 1) ctx 3 2 = Ok (ys, 31) \<and> length ys = 5 \<and> same_size 11 ys"
proof -
  have "sealable [7, 8, 9] (replicate 32 1)" by (simp add: sealable_def KEY_SIZE_def aead_max_def)
  then obtain ys where "process_for_backup toy_ext [7, 8, 9] (replicate 32 1) ctx 3 2 = Ok (ys, length [7, 8, 9 :: byte] + 28)" "length ys = 3 + 2"
      "same_size (div_ceil (length [7, 8, 9 :: byte] + 28) 3) ys"
    using process_for_backup_ok[of toy_ext 3 2 "[7, 8, 9]" "replicate 32 1" ctx] by (auto simp: cipher_ok_def)
  then show ?thesis by (simp add: div_ceil_def)
qed

theorem repair_recreates_stream_witness:
  "\<exists>segs. seg_loop toy_ext (\<lambda>_. []) (replicate 32 1) 3 2 0 [Inr [7, 8, 9]] = Ok segs \<and> length (concat (shard_stream segs 1)) = 11
     \<and> reshard_segmented toy_ext (toy_audit\<lparr>av_rb := toy_rb\<lparr>rv_files := \<lambda>_. Some (Ok [])\<rparr>, av_reads := \<lambda>_. Ok [Inr [7], Inr [8, 9]]\<rparr>) toy_name 1 ''jpg'' (replicate 32 1) 3 2
       = Done (Ok (concat (shard_stream segs 1)))"
proof -
  let ?V = "toy_rb\<lparr>rv_files := \<lambda>_. Some (Ok [])\<rparr>" let ?A = "toy_audit\<lparr>av_rb := ?V, av_reads := \<lambda>_. Ok [Inr [7], Inr [8, 9]]\<rparr>"
  let ?k = "replicate 32 1 :: bytes"
  obtain ys where ys: "process_for_backup toy_ext [7, 8, 9] ?k (?k @ u32_le 0) 3 2 = Ok (ys, 31)" "length ys = 5" "same_size 11 ys" using toy_code by blast
  have r: "read_full SEGMENT_THRESHOLD [Inr [7, 8, 9]] = (Ok [7, 8, 9], [])" "read_full SEGMENT_THRESHOLD [] = (Ok [], [])" by (simp_all add: SEGMENT_THRESHOLD_def)
  have fin: "seg_loop toy_ext se ?k 3 2 j [] = Ok []" for se j by (simp add: seg_loop.simps r(2))
  have segs: "seg_loop toy_ext se ?k 3 2 0 [Inr [7, 8, 9]] = Ok [(ys, 31)]" for se
    using ys(1) fin by (simp only: seg_loop.simps[of _ _ _ _ _ 0] r(1) prod.case sum.case list.distinct if_False map_err.simps bind_res.simps add_0)
  have len: "length (concat (shard_stream [(ys, 31)] 1)) = 11" using ys(2,3) by (simp add: shard_stream_concat same_size_def)
  then have "concat (shard_stream [(ys, 31)] 1) \<noteq> []" by (metis length_0_conv zero_neq_numeral)
  then have "reshard_segmented toy_ext ?A toy_name 1 ''jpg'' ?k 3 2 = Done (Ok (concat (shard_stream [(ys, 31)] 1)))"
    using ys(2) segs toy_name_path
    by (intro repair_recreates_stream[where bs = "[[7, 8, 9]]" and bs' = "[[7], [8, 9]]"]) (auto simp: toy_name_def[symmetric] simp del: replicate.simps)
  then show ?thesis using segs len by blast
qed

text \<open>A lone node, which has lost the shard; the key is stored unwrapped.\<close>

definition toy_lone :: "mesh_state rb_state" where
  "toy_lone = (toy_start toy_name)\<lparr>rs_registry := \<lparr>rg_peers = [(''a'', \<lparr>pi_node_id = ''a'', pi_addr = addr_a, pi_last_seen = 0\<rparr>)], rg_admission = Open\<rparr>,
     rs_db := (rs_db (toy_start toy_name))\<lparr>db_images := [toy_media\<lparr>mr_hash := toy_name, mr_key := Some (replicate 32 1)\<rparr>]\<rparr>\<rparr>"

theorem repair_restores_shard_witness:
  "\<exists>ys st'. process_for_backup toy_ext [7, 8, 9] (replicate 32 1) (replicate 32 1) 3 2 = Ok (ys, 31)
     \<and> repair_file toy_ext (node_mesh (toy_mesh toy_ids) toy_ext) (toy_audit\<lparr>av_rb := toy_rb\<lparr>rv_files := \<lambda>_. Some (Ok [7, 8, 9])\<rparr>\<rparr>) toy_name 0 toy_lone = Done (Ok (), st')
     \<and> placement (rs_db st') toy_name 0 = Some (''a'', hex_encode toy_ext (blake3 toy_ext (ys ! 0)))
     \<and> mesh_holds toy_ext (rs_mesh st') addr_a (blake3 toy_ext (ys ! 0))"
proof -
  let ?V = "toy_rb\<lparr>rv_files := \<lambda>_. Some (Ok [7, 8, 9])\<rparr>" let ?A = "toy_audit\<lparr>av_rb := ?V\<rparr>"
  let ?k = "replicate 32 1 :: bytes" and ?m = "toy_media\<lparr>mr_hash := toy_name, mr_key := Some (replicate 32 1)\<rparr>"
  obtain ys where ys: "process_for_backup toy_ext [7, 8, 9] ?k ?k 3 2 = Ok (ys, 31)" "length ys = 5" "same_size 11 ys" using toy_code by blast
  have one: "[(''a'', addr_a)] = map (\<lambda>q. (pi_node_id q, pi_addr q)) (all_peers (rs_registry toy_lone))" by (simp add: toy_lone_def all_peers_def)
  have ideal: "rendezvous_select toy_ext toy_name [(''a'', addr_a)] (min SHARD_COUNT (length [(''a'', addr_a)])) = [(''a'', addr_a)]"
    by (simp add: rendezvous_ranked SHARD_COUNT_def)
  have h: "healthy toy_ext (toy_mesh toy_ids) (av_rb ?A) addr_a" using toy_healthy by (simp add: healthy_def)
  have lone: "find_by_addr (rs_registry toy_lone) addr_a = Some (mp_id (toy_mesh toy_ids) addr_a)" "''a'' \<in> nr_id ` set (db_nodes (rs_db toy_lone))"
    "segmented_rows (rs_db toy_lone) toy_name = []" "rv_api_key (av_rb ?A) = Ok []"
    by (simp_all add: toy_lone_def find_by_addr_def toy_mesh_def toy_ids_def toy_start_def segmented_rows_def toy_media_def)
  have info: "find_file_info toy_ext (rv_sha256 (av_rb ?A)) None None (rs_db toy_lone) (rs_cache toy_lone) toy_name [] = (Ok (Some (''jpg'', Some ?k, Some 31, 3, 2)), rs_cache toy_lone)"
    by (simp add: find_file_info_def info_of_row_def toy_lone_def toy_media_def decrypt_key_def as_usize_def del: replicate.simps)
  have copy: "local_file (av_rb ?A) toy_name ''jpg'' = Done (Ok [7, 8, 9])" by (simp add: local_file_def toy_name_path)
  have "\<exists>st'. repair_file toy_ext (node_mesh (toy_mesh toy_ids) toy_ext) ?A toy_name 0 toy_lone = Done (Ok (), st')
      \<and> shards_set toy_ext (rs_mesh toy_lone) addr_a (blake3 toy_ext (ys ! 0)) (Some (ys ! 0)) (rs_mesh st')
      \<and> (\<forall>g j. placement (rs_db st') g j =
           (if (g, j) = (toy_name, as_i32 0) then Some (''a'', hex_encode toy_ext (blake3 toy_ext (ys ! 0))) else placement (rs_db toy_lone) g j))
      \<and> db_images (rs_db st') = db_images (rs_db toy_lone) \<and> db_videos (rs_db st') = db_videos (rs_db toy_lone)"
    by (rule repair_restores_shard[OF toy_hex_ok toy_ed25519_ok _ one _ ideal[symmetric] _ h lone info copy _ ys(1)])
      (use ys in \<open>simp_all add: toy_name_def same_size_def UPLOAD_STREAM_THRESHOLD_def\<close>)
  then show ?thesis using ys(1) by (auto simp: shards_set_def mesh_holds_def as_i32_def)
qed

theorem shared_file_stops_consistency_witness:
  "\<exists>st'. check_consistency toy_ext (node_mesh (toy_mesh toy_ids) toy_ext) toy_audit
       (toy_photos [lost_file ''f'' 1 False, (lost_file ''f'' 2 False)\<lparr>mr_user := ''other''\<rparr>, lost_file ''g'' 3 False] [toy_row]) = Done (Err ''two rows'', st')"
proof -
  let ?ms = "[lost_file ''f'' 1 False, (lost_file ''f'' 2 False)\<lparr>mr_user := ''other''\<rparr>, lost_file ''g'' 3 False]"
  have "synced_files (rs_db (as_rb (toy_photos ?ms [toy_row]))) = [] @ ''f'' # [''f'', ''g'']" by (simp add: synced_files_def toy_photos_def lost_file_def toy_start_def)
  moreover have "file_rows (rs_db (as_rb (toy_photos ?ms [toy_row]))) ''f'' \<noteq> []" by (simp add: file_rows_def toy_photos_def toy_row_def)
  moreover have "''f'' \<in> set (live_hashes (rs_db (as_rb (toy_photos ?ms [toy_row]))))" by (simp add: live_hashes_def toy_photos_def lost_file_def)
  moreover have "length (filter (\<lambda>m. mr_hash m = ''f'') (db_images (rs_db (as_rb (toy_photos ?ms [toy_row]))))) \<ge> 2" by (simp add: toy_photos_def lost_file_def)
  ultimately show ?thesis
    using shared_file_stops_consistency[of toy_audit "toy_photos ?ms [toy_row]" "[]" "''f''" "[''f'', ''g'']" toy_ext "node_mesh (toy_mesh toy_ids) toy_ext"] by force
qed

end
