(* ===== verification/Exif.thy ===== *)
theory Exif
  imports Prelude
begin

text \<open>
  The EXIF orientation code of \<open>media_utils.rs\<close>: composing a quarter turn with a stored
  orientation, applying an orientation to pixels, finding the Exif segment of a JPEG, inserting a
  minimal one, rewriting the orientation entry of an existing one, and splicing an orientation
  entry into an existing IFD0 with relocation of the TIFF offsets behind it.

  Slicing that panics in Rust is an \<open>outcome\<close>; \<open>Option\<close> results are options.  \<open>walk_ifd\<close> calls
  itself on sub-directories it finds in the file and has no bound of its own on that recursion, so
  it is a \<open>partial_function\<close>: not returning (in Rust, exhausting the stack) is the value \<open>None\<close>.
  The pixel operations of the \<open>image\<close> crate, the tag reader of \<open>kamadak_exif\<close> and the iteration
  order of a \<open>HashSet\<close> are parameters.
\<close>

named_theorems exif_simps "unfolding of the byte-level readers"

section \<open>Orientations\<close>

definition rotate_orientation_cw :: "16 word option \<Rightarrow> 16 word" where
  "rotate_orientation_cw current =
     (let o1 = (case current of None \<Rightarrow> 1 | Some v \<Rightarrow> v) in
      if o1 = 1 then 6 else if o1 = 6 then 3 else if o1 = 3 then 8 else if o1 = 8 then 1
      else if o1 = 2 then 7 else if o1 = 7 then 4 else if o1 = 4 then 5 else if o1 = 5 then 2
      else 6)"

definition rotate_orientation_ccw :: "16 word option \<Rightarrow> 16 word" where
  "rotate_orientation_ccw current =
     (let o1 = (case current of None \<Rightarrow> 1 | Some v \<Rightarrow> v) in
      if o1 = 1 then 8 else if o1 = 8 then 3 else if o1 = 3 then 6 else if o1 = 6 then 1
      else if o1 = 2 then 5 else if o1 = 5 then 4 else if o1 = 4 then 7 else if o1 = 7 then 2
      else 8)"

definition rotate_orientation_180 :: "16 word option \<Rightarrow> 16 word" where
  "rotate_orientation_180 current =
     (let o1 = (case current of None \<Rightarrow> 1 | Some v \<Rightarrow> v) in
      if o1 = 1 then 3 else if o1 = 3 then 1 else if o1 = 6 then 8 else if o1 = 8 then 6
      else if o1 = 2 then 4 else if o1 = 4 then 2 else if o1 = 5 then 7 else if o1 = 7 then 5
      else 3)"

text \<open>The operations of \<open>image::DynamicImage\<close> the code calls.\<close>

record 'img image_ops =
  fliph :: "'img \<Rightarrow> 'img"
  flipv :: "'img \<Rightarrow> 'img"
  rotate90 :: "'img \<Rightarrow> 'img"
  rotate180 :: "'img \<Rightarrow> 'img"
  rotate270 :: "'img \<Rightarrow> 'img"

definition apply_orientation_to_image :: "'img image_ops \<Rightarrow> 'img \<Rightarrow> 16 word \<Rightarrow> 'img" where
  "apply_orientation_to_image im img orientation =
     (if orientation = 2 then fliph im img
      else if orientation = 3 then rotate180 im img
      else if orientation = 4 then flipv im img
      else if orientation = 5 then fliph im (rotate90 im img)
      else if orientation = 6 then rotate90 im img
      else if orientation = 7 then fliph im (rotate270 im img)
      else if orientation = 8 then rotate270 im img
      else img)"

text \<open>What the \<open>image\<close> crate documents of these operations: quarter turns compose, a half turn is
  two of them, a turn back undoes a turn, and a mirror image turned clockwise is the mirror image
  of the picture turned counter-clockwise.\<close>

definition image_laws :: "'img image_ops \<Rightarrow> bool" where
  "image_laws im \<longleftrightarrow>
     (\<forall>i. rotate90 im (rotate90 im i) = rotate180 im i
        \<and> rotate90 im (rotate180 im i) = rotate270 im i
        \<and> rotate90 im (rotate270 im i) = i
        \<and> rotate270 im (rotate90 im i) = i
        \<and> rotate90 im (fliph im i) = fliph im (rotate270 im i)
        \<and> flipv im i = fliph im (rotate180 im i))"

text \<open>A raster picture: its width and height and the pixel at each coordinate.\<close>

record 'p raster =
  width :: int
  height :: int
  pixel :: "int \<Rightarrow> int \<Rightarrow> 'p"

definition raster_ops :: "'p raster image_ops" where
  "raster_ops = \<lparr>
     fliph = \<lambda>i. i\<lparr>pixel := \<lambda>x y. pixel i (width i - 1 - x) y\<rparr>,
     flipv = \<lambda>i. i\<lparr>pixel := \<lambda>x y. pixel i x (height i - 1 - y)\<rparr>,
     rotate90 = \<lambda>i. \<lparr>width = height i, height = width i,
                      pixel = \<lambda>x y. pixel i y (height i - 1 - x)\<rparr>,
     rotate180 = \<lambda>i. i\<lparr>pixel := \<lambda>x y. pixel i (width i - 1 - x) (height i - 1 - y)\<rparr>,
     rotate270 = \<lambda>i. \<lparr>width = height i, height = width i,
                      pixel = \<lambda>x y. pixel i (width i - 1 - y) x\<rparr>\<rparr>"

lemma raster_laws: "image_laws (raster_ops :: 'p raster image_ops)"
  by (simp add: image_laws_def raster_ops_def)

section \<open>Integers in a byte stream\<close>

datatype endian = Little | Big

text \<open>\<open>from_le_bytes\<close>/\<open>from_be_bytes\<close> and \<open>to_le_bytes\<close>/\<open>to_be_bytes\<close> of the unsigned types.\<close>

fun le_nat :: "bytes \<Rightarrow> nat" where
  "le_nat [] = 0"
| "le_nat (b # bs) = unat b + 256 * le_nat bs"

fun nat_le :: "nat \<Rightarrow> nat \<Rightarrow> bytes" where
  "nat_le 0 v = []"
| "nat_le (Suc k) v = word_of_nat v # nat_le k (v div 256)"

definition en_nat :: "endian \<Rightarrow> bytes \<Rightarrow> nat" where
  "en_nat en b = (case en of Little \<Rightarrow> le_nat b | Big \<Rightarrow> le_nat (rev b))"

definition en_bytes :: "endian \<Rightarrow> nat \<Rightarrow> nat \<Rightarrow> bytes" where
  "en_bytes en k v = (case en of Little \<Rightarrow> nat_le k v | Big \<Rightarrow> rev (nat_le k v))"

definition endian_parse :: "bytes \<Rightarrow> endian option" where
  "endian_parse b = (if b = str_bytes ''II'' then Some Little
                     else if b = str_bytes ''MM'' then Some Big else None)"

definition endian_u16 :: "endian \<Rightarrow> bytes \<Rightarrow> 16 word option" where
  "endian_u16 en b = map_option (\<lambda>s. word_of_nat (en_nat en s)) (slice b 0 2)"

definition endian_u32 :: "endian \<Rightarrow> bytes \<Rightarrow> 32 word option" where
  "endian_u32 en b = map_option (\<lambda>s. word_of_nat (en_nat en s)) (slice b 0 4)"

definition push_u16 :: "endian \<Rightarrow> bytes \<Rightarrow> 16 word \<Rightarrow> bytes" where
  "push_u16 en out v = out @ en_bytes en 2 (unat v)"

definition push_u32 :: "endian \<Rightarrow> bytes \<Rightarrow> 32 word \<Rightarrow> bytes" where
  "push_u32 en out v = out @ en_bytes en 4 (unat v)"

text \<open>\<open>checked_mul\<close> on \<open>u32\<close>: \<open>None\<close> when the product does not fit.\<close>

definition checked_mul_u32 :: "32 word \<Rightarrow> 32 word \<Rightarrow> 32 word option" where
  "checked_mul_u32 a b = (if unat a * unat b < 2 ^ 32 then Some (a * b) else None)"

definition tiff_value_size :: "16 word \<Rightarrow> 32 word \<Rightarrow> 32 word option" where
  "tiff_value_size typ count =
     (if typ \<in> {1, 2, 6, 7} then checked_mul_u32 1 count
      else if typ \<in> {3, 8} then checked_mul_u32 2 count
      else if typ \<in> {4, 9, 11} then checked_mul_u32 4 count
      else if typ \<in> {5, 10, 12} then checked_mul_u32 8 count
      else None)"

section \<open>The Exif segment of a JPEG\<close>

definition exif_header :: bytes where
  "exif_header = str_bytes ''Exif'' @ [0, 0]"

text \<open>The scan over the marker segments.  Every index is below the length by the guard of its
  branch, as in the source.\<close>

function find_app1_loop :: "bytes \<Rightarrow> nat \<Rightarrow> (nat \<times> nat) option" where
  "find_app1_loop jpeg pos =
     (if pos + 4 \<le> length jpeg then
        if jpeg ! pos \<noteq> 0xFF then None
        else let marker = jpeg ! (pos + 1) in
        if marker = 0xFF then find_app1_loop jpeg (pos + 1)
        else if marker = 0xDA then None
        else let seg_len = en_nat Big [jpeg ! (pos + 2), jpeg ! (pos + 3)] in
        if seg_len < 2 then None
        else if marker = 0xE1 \<and> pos + 10 \<le> length jpeg
                \<and> slice jpeg (pos + 4) (pos + 10) = Some exif_header
        then Some (pos, seg_len + 2)
        else find_app1_loop jpeg (pos + (2 + seg_len))
      else None)"
  by pat_completeness auto
termination
  by (relation "measure (\<lambda>(jpeg, pos). length jpeg - pos)") auto

declare find_app1_loop.simps [simp del]

definition find_exif_app1 :: "bytes \<Rightarrow> (nat \<times> nat) option" where
  "find_exif_app1 jpeg =
     (if length jpeg < 4 \<or> jpeg ! 0 \<noteq> 0xFF \<or> jpeg ! 1 \<noteq> 0xD8 then None
      else find_app1_loop jpeg 2)"

text \<open>The minimal segment: marker, length 34, header, a little-endian TIFF with one entry.\<close>

definition minimal_app1 :: "16 word \<Rightarrow> bytes" where
  "minimal_app1 orientation =
     [0xFF, 0xE1] @ [0x00, 0x22] @ exif_header @ [0x49, 0x49] @ [0x2A, 0x00]
     @ [0x08, 0x00, 0x00, 0x00] @ [0x01, 0x00] @ [0x12, 0x01] @ [0x03, 0x00]
     @ [0x01, 0x00, 0x00, 0x00] @ [ucast orientation, ucast (drop_bit 8 orientation)]
     @ replicate 6 0"

definition inject_exif_orientation :: "bytes \<Rightarrow> 16 word \<Rightarrow> bytes" where
  "inject_exif_orientation jpeg orientation =
     (if length jpeg < 4 \<or> jpeg ! 0 \<noteq> 0xFF \<or> jpeg ! 1 \<noteq> 0xD8 then jpeg
      else if find_exif_app1 jpeg \<noteq> None then jpeg
      else take 2 jpeg @ minimal_app1 orientation @ drop 2 jpeg)"

section \<open>Walking the directories\<close>

definition ORIENTATION_TAG :: "16 word" where "ORIENTATION_TAG = 0x0112"
definition EXIF_SUB_IFD_TAG :: "16 word" where "EXIF_SUB_IFD_TAG = 0x8769"
definition GPS_SUB_IFD_TAG :: "16 word" where "GPS_SUB_IFD_TAG = 0x8825"

definition sub_ifd_tag :: "16 word \<Rightarrow> bool" where
  "sub_ifd_tag tag \<longleftrightarrow> tag = EXIF_SUB_IFD_TAG \<or> tag = GPS_SUB_IFD_TAG"

text \<open>The integers at an offset: \<open>endian.u16(tiff.get(p..p + 2)?)\<close> and its \<open>u32\<close> form.\<close>

definition u16_at :: "endian \<Rightarrow> bytes \<Rightarrow> nat \<Rightarrow> 16 word option" where
  "u16_at en tiff p = Option.bind (slice tiff p (p + 2)) (endian_u16 en)"

definition u32_at :: "endian \<Rightarrow> bytes \<Rightarrow> nat \<Rightarrow> 32 word option" where
  "u32_at en tiff p = Option.bind (slice tiff p (p + 4)) (endian_u32 en)"

text \<open>What the walk does with one pointer field: nothing, mark it for relocation, or mark it and
  descend into the table it names.\<close>

datatype field_act = Skip | Mark | Descend nat

text \<open>The body of the loop over the entries; \<open>None\<close> is the early return.\<close>

definition entry_act :: "bytes \<Rightarrow> endian \<Rightarrow> nat \<Rightarrow> 8 word \<Rightarrow> nat \<Rightarrow> field_act option" where
  "entry_act tiff en e4 depth e =
     Option.bind (slice tiff e (e + 12)) (\<lambda>entry.
     Option.bind (u16_at en entry 0) (\<lambda>tag.
     Option.bind (u16_at en entry 2) (\<lambda>typ.
     Option.bind (u32_at en entry 4) (\<lambda>cnt.
     Option.bind (tiff_value_size typ cnt) (\<lambda>vsize.
     Option.bind (u32_at en entry 8) (\<lambda>oldw.
       let old = unat oldw in
       if vsize > 4 then
         if old \<ge> e4 \<and> old \<le> length tiff then
           if depth < 2 \<and> sub_ifd_tag tag then Some (Descend old) else Some Mark
         else Some Skip
       else if cnt = 1 \<and> typ = 4 then
         if sub_ifd_tag tag \<and> old \<ge> e4 \<and> old \<le> length tiff then Some (Descend old) else Some Skip
       else Some Skip))))))"

text \<open>The chain to the next directory, behind the loop.\<close>

definition chain_act :: "bytes \<Rightarrow> endian \<Rightarrow> nat \<Rightarrow> 8 word \<Rightarrow> nat \<Rightarrow> field_act option" where
  "chain_act tiff en e4 depth p =
     Option.bind (u32_at en tiff p) (\<lambda>nextw.
       let nxt = unat nextw in
       if nxt \<noteq> 0 \<and> nxt \<ge> e4 \<and> nxt \<le> length tiff then
         if depth = 0 then Some (Descend nxt) else Some Mark
       else Some Skip)"

text \<open>The two program points of the recursion: the call on a table, and the loop at entry \<open>i\<close> of
  a table with \<open>n\<close> entries.  The depth is a \<open>u8\<close> and wraps.\<close>

datatype walk_pc = Walk_ifd nat "8 word" | At_entry nat nat nat "8 word"

partial_function (option) walk_ifd ::
  "bytes \<Rightarrow> endian \<Rightarrow> nat \<Rightarrow> walk_pc \<Rightarrow> nat list \<Rightarrow> nat list option option" where
  "walk_ifd tiff en e4 pc marks =
     (case pc of
        Walk_ifd off depth \<Rightarrow>
          if off + 2 > length tiff then Some None
          else (case u16_at en tiff off of
                  None \<Rightarrow> Some None
                | Some nw \<Rightarrow>
                    if unat nw = 0 \<or> unat nw > 0x2000 \<or> off + 2 + unat nw * 12 + 4 > length tiff
                    then Some None
                    else walk_ifd tiff en e4 (At_entry off (unat nw) 0 depth) marks)
      | At_entry off n i depth \<Rightarrow>
          if i < n then
            (case entry_act tiff en e4 depth (off + 2 + i * 12) of
               None \<Rightarrow> Some None
             | Some Skip \<Rightarrow> walk_ifd tiff en e4 (At_entry off n (i + 1) depth) marks
             | Some Mark \<Rightarrow>
                 walk_ifd tiff en e4 (At_entry off n (i + 1) depth)
                   (List.insert (off + 2 + i * 12 + 8) marks)
             | Some (Descend old) \<Rightarrow>
                 Option.bind (walk_ifd tiff en e4 (Walk_ifd old (depth + 1))
                                (List.insert (off + 2 + i * 12 + 8) marks)) (\<lambda>r.
                   case r of
                     None \<Rightarrow> Some None
                   | Some marks' \<Rightarrow> walk_ifd tiff en e4 (At_entry off n (i + 1) depth) marks'))
          else
            (case chain_act tiff en e4 depth (off + 2 + n * 12) of
               None \<Rightarrow> Some None
             | Some Skip \<Rightarrow> Some (Some marks)
             | Some Mark \<Rightarrow> Some (Some (List.insert (off + 2 + n * 12) marks))
             | Some (Descend nxt) \<Rightarrow>
                 walk_ifd tiff en e4 (Walk_ifd nxt (depth + 1))
                   (List.insert (off + 2 + n * 12) marks)))"

declare walk_ifd.simps [code]

section \<open>Splicing\<close>

text \<open>\<open>out[i..i + b.len()].copy_from_slice(b)\<close>.\<close>

definition copy_from_slice :: "bytes \<Rightarrow> nat \<Rightarrow> bytes \<Rightarrow> bytes outcome" where
  "copy_from_slice out i b =
     (if i + length b \<le> length out then Done (take i out @ b @ drop (i + length b) out) else Panic)"

text \<open>The search for the orientation entry: the last one in IFD0, as the offset of its value.\<close>

fun find_orientation :: "bytes \<Rightarrow> endian \<Rightarrow> nat \<Rightarrow> nat list \<Rightarrow> nat option \<Rightarrow> nat option option" where
  "find_orientation tiff en ifd0 [] found = Some found"
| "find_orientation tiff en ifd0 (i # is) found =
     Option.bind (slice tiff (ifd0 + 2 + i * 12) (ifd0 + 2 + i * 12 + 12)) (\<lambda>entry.
     Option.bind (u16_at en entry 0) (\<lambda>tag.
       find_orientation tiff en ifd0 is
         (if tag = ORIENTATION_TAG then Some (ifd0 + 2 + i * 12 + 8) else found)))"

text \<open>The copied IFD0 entries, marked pointer fields moved by 12.\<close>

fun copy_entries :: "bytes \<Rightarrow> endian \<Rightarrow> nat \<Rightarrow> nat list \<Rightarrow> nat list \<Rightarrow> bytes \<Rightarrow> bytes option outcome" where
  "copy_entries tiff en ifd0 marks [] out = Done (Some out)"
| "copy_entries tiff en ifd0 marks (i # is) out =
     bind_out (of_slice (slice tiff (ifd0 + 2 + i * 12) (ifd0 + 2 + i * 12 + 12))) (\<lambda>entry.
       let out1 = out @ entry in
       if ifd0 + 2 + i * 12 + 8 \<in> set marks then
         (case u32_at en entry 8 of
            None \<Rightarrow> Done None
          | Some old \<Rightarrow>
              bind_out (copy_from_slice out1 (length out1 - 4) (en_bytes en 4 (unat old + 12))) (\<lambda>out2.
                copy_entries tiff en ifd0 marks is out2))
       else copy_entries tiff en ifd0 marks is out1)"

text \<open>The marked fields behind IFD0, in the iteration order of the set.\<close>

fun patch_rest :: "bytes \<Rightarrow> endian \<Rightarrow> nat \<Rightarrow> nat \<Rightarrow> nat list \<Rightarrow> bytes \<Rightarrow> bytes option outcome" where
  "patch_rest tiff en e4 start [] out = Done (Some out)"
| "patch_rest tiff en e4 start (m # ms) out =
     (if m \<ge> e4 \<and> m + 4 \<le> length tiff then
        bind_out (of_slice (slice tiff m (m + 4))) (\<lambda>field.
          (case endian_u32 en field of
             None \<Rightarrow> Done None
           | Some old \<Rightarrow>
               if unat old \<ge> e4 \<and> unat old + 12 \<le> length tiff then
                 bind_out (copy_from_slice out (start + (m - e4)) (en_bytes en 4 (unat old + 12)))
                   (patch_rest tiff en e4 start ms)
               else patch_rest tiff en e4 start ms out))
      else patch_rest tiff en e4 start ms out)"

text \<open>Case A of the source: the value of an existing entry is overwritten.\<close>

definition rewrite_value :: "bytes \<Rightarrow> nat \<Rightarrow> endian \<Rightarrow> nat \<Rightarrow> 16 word \<Rightarrow> bytes option outcome" where
  "rewrite_value jpeg app1_pos en voff orientation =
     (let absl = app1_pos + 10 + voff in
      if absl + 2 > length jpeg then Done None
      else bind_out (copy_from_slice jpeg absl (en_bytes en 2 (unat orientation))) (\<lambda>out.
             Done (Some out)))"

text \<open>The assembly of case B, with the marks of the walk.\<close>

definition splice_entry :: "(nat list \<Rightarrow> nat list) \<Rightarrow> bytes \<Rightarrow> nat \<Rightarrow> nat \<Rightarrow> bytes \<Rightarrow> bytes \<Rightarrow> endian \<Rightarrow> nat
    \<Rightarrow> nat \<Rightarrow> 16 word \<Rightarrow> nat list \<Rightarrow> bytes option outcome" where
  "splice_entry iter jpeg app1_pos app1_total seg tiff en ifd0 cnt orientation marks =
     (let stop = ifd0 + 2 + cnt * 12; e4 = stop + 4 in
      bind_out (of_slice (slice jpeg 0 app1_pos)) (\<lambda>before.
      bind_out (of_slice (slice seg 4 10)) (\<lambda>hdr.
      bind_out (of_slice (slice tiff 0 ifd0)) (\<lambda>tiff_hdr.
        let out = before @ [0xFF, 0xE1] @ en_bytes Big 2 (app1_total + 12 - 2) @ hdr @ tiff_hdr;
            out = push_u16 en out (word_of_nat cnt + 1) in
        bind_out (copy_entries tiff en ifd0 marks [0..<cnt] out) (\<lambda>r.
          case r of
            None \<Rightarrow> Done None
          | Some out \<Rightarrow>
              let out = push_u16 en out ORIENTATION_TAG;
                  out = push_u16 en out 3;
                  out = push_u32 en out 1;
                  out = push_u16 en out orientation;
                  out = push_u16 en out 0 in
              bind_out (of_slice (slice tiff stop (stop + 4))) (\<lambda>next_field.
                (case endian_u32 en next_field of
                   None \<Rightarrow> Done None
                 | Some next_ifd \<Rightarrow>
                     let out = push_u32 en out (if stop \<in> set marks
                                 then word_of_nat (unat next_ifd + 12) else next_ifd) in
                     bind_out (of_slice (slice tiff e4 (length tiff))) (\<lambda>rest.
                     bind_out (patch_rest tiff en e4 (length out) (iter marks) (out @ rest)) (\<lambda>r.
                       case r of
                         None \<Rightarrow> Done None
                       | Some out \<Rightarrow>
                           bind_out (of_slice (slice jpeg (app1_pos + app1_total) (length jpeg))) (\<lambda>after.
                             Done (Some (out @ after)))))))))))) "

definition splice_orientation_into_app1 ::
  "(nat list \<Rightarrow> nat list) \<Rightarrow> bytes \<Rightarrow> nat \<times> nat \<Rightarrow> 16 word \<Rightarrow> bytes option outcome option" where
  "splice_orientation_into_app1 iter jpeg loc orientation =
     (let (app1_pos, app1_total) = loc in
      if app1_total < 14 \<or> app1_pos + app1_total > length jpeg then Some (Done None)
      else (case slice jpeg app1_pos (app1_pos + app1_total) of None \<Rightarrow> Some Panic | Some seg \<Rightarrow>
      (case slice seg 10 (length seg) of None \<Rightarrow> Some Panic | Some tiff \<Rightarrow>
      if length tiff < 8 then Some (Done None)
      else (case endian_parse (take 2 tiff) of None \<Rightarrow> Some (Done None) | Some en \<Rightarrow>
      (case u16_at en tiff 2 of None \<Rightarrow> Some Panic | Some magic \<Rightarrow>
      if magic \<noteq> 42 then Some (Done None)
      else (case u32_at en tiff 4 of None \<Rightarrow> Some Panic | Some offw \<Rightarrow>
      let ifd0 = unat offw in
      if ifd0 < 8 \<or> ifd0 + 2 > length tiff then Some (Done None)
      else (case u16_at en tiff ifd0 of None \<Rightarrow> Some Panic | Some cntw \<Rightarrow>
      let cnt = unat cntw; stop = ifd0 + 2 + cnt * 12 in
      if cnt = 0 \<or> cnt \<ge> 0xFFFF \<or> stop + 4 > length tiff then Some (Done None)
      else (case find_orientation tiff en ifd0 [0..<cnt] None of
        None \<Rightarrow> Some (Done None)
      | Some (Some voff) \<Rightarrow> Some (rewrite_value jpeg app1_pos en voff orientation)
      | Some None \<Rightarrow>
          if app1_total + 12 - 2 > 0xFFFF then Some (Done None)
          else Option.bind (walk_ifd tiff en (stop + 4) (Walk_ifd ifd0 0) []) (\<lambda>r.
                 case r of
                   None \<Rightarrow> Some (Done None)
                 | Some marks \<Rightarrow> Some (splice_entry iter jpeg app1_pos app1_total seg tiff en ifd0 cnt
                                        orientation marks)))))))))) "

text \<open>\<open>windows(2).any(|w| w == b"\xFF\xDA")\<close>.\<close>

fun has_sos :: "bytes \<Rightarrow> bool" where
  "has_sos (a # b # bs) = (a = 0xFF \<and> b = 0xDA \<or> has_sos (b # bs))"
| "has_sos _ = False"

text \<open>\<open>kamadak\<close> is \<open>read_exif_orientation_from_bytes\<close>, which only calls that crate.\<close>

definition ensure_exif_orientation ::
  "(bytes \<Rightarrow> 16 word option) \<Rightarrow> (nat list \<Rightarrow> nat list) \<Rightarrow> bytes \<Rightarrow> 16 word \<Rightarrow> bytes outcome option" where
  "ensure_exif_orientation kamadak iter jpeg orientation =
     (if \<not> (1 \<le> orientation \<and> orientation \<le> 8) then Some (Done jpeg)
      else let existing = kamadak jpeg in
      if existing = Some orientation then Some (Done jpeg)
      else if orientation = 1 \<and> existing = None then Some (Done jpeg)
      else if \<not> has_sos jpeg then Some (Done jpeg)
      else (case find_exif_app1 jpeg of
              None \<Rightarrow> Some (Done (inject_exif_orientation jpeg orientation))
            | Some loc \<Rightarrow>
                map_option (\<lambda>r. bind_out r (\<lambda>x.
                    Done (case x of None \<Rightarrow> jpeg | Some out \<Rightarrow> out)))
                  (splice_orientation_into_app1 iter jpeg loc orientation)))"

section \<open>Reading back what was written\<close>

lemma length_nat_le [simp]: "length (nat_le k v) = k"
  by (induction k arbitrary: v) auto

lemma length_en_bytes [simp]: "length (en_bytes en k v) = k"
  by (cases en) (simp_all add: en_bytes_def)

lemma le_nat_nat_le: "le_nat (nat_le k v) = v mod 256 ^ k"
proof (induction k arbitrary: v)
  case (Suc k)
  have "v mod (256 * 256 ^ k) = 256 * (v div 256 mod 256 ^ k) + v mod 256"
    by (rule mod_mult2_eq)
  then show ?case by (simp add: Suc unat_of_nat)
qed simp

lemma nat_le_mod: "nat_le k (v mod 256 ^ k) = nat_le k v"
proof (induction k arbitrary: v)
  case (Suc k)
  have m: "v mod (256 * 256 ^ k) = 256 * (v div 256 mod 256 ^ k) + v mod 256"
    by (rule mod_mult2_eq)
  have "(word_of_nat (256 * (v div 256 mod 256 ^ k) + v mod 256) :: byte) = word_of_nat v"
    unfolding word_unat_eq_iff unat_of_nat by simp
  moreover have "(256 * (v div 256 mod 256 ^ k) + v mod 256) div 256 = v div 256 mod 256 ^ k"
    by simp
  ultimately show ?case by (simp add: m Suc)
qed simp

lemma en_bytes_mod: "en_bytes en k (v mod 256 ^ k) = en_bytes en k v"
  by (cases en) (simp_all add: en_bytes_def nat_le_mod)

lemma le_nat_bound: "le_nat b < 256 ^ length b"
proof (induction b)
  case (Cons x xs)
  have "unat x < 256" using unsigned_less[of x, where 'a = nat] by simp
  with Cons show ?case by simp
qed simp

lemma en_nat_bytes: "en_nat en (en_bytes en k v) = v mod 256 ^ k"
  by (cases en) (simp_all add: en_nat_def en_bytes_def le_nat_nat_le)

lemma nat_le_nat: "nat_le (length b) (le_nat b) = b"
proof (induction b)
  case (Cons x xs)
  have x: "unat x < 256" using unsigned_less[of x, where 'a = nat] by simp
  have "(word_of_nat (unat x + 256 * le_nat xs) :: byte) = x"
    unfolding word_unat_eq_iff unat_of_nat using x by simp
  moreover have "(unat x + 256 * le_nat xs) div 256 = le_nat xs" using x by simp
  ultimately show ?case using Cons by simp
qed simp

lemma en_bytes_nat: "en_bytes en (length b) (en_nat en b) = b"
  using nat_le_nat[of b] nat_le_nat[of "rev b"] by (cases en) (simp_all add: en_bytes_def en_nat_def)

lemma u16_at_iff: "u16_at en t p = Some w \<longleftrightarrow>
   p + 2 \<le> length t \<and> w = word_of_nat (en_nat en (take 2 (drop p t)))"
  by (auto simp: u16_at_def endian_u16_def slice_def)

lemma u32_at_iff: "u32_at en t p = Some w \<longleftrightarrow>
   p + 4 \<le> length t \<and> w = word_of_nat (en_nat en (take 4 (drop p t)))"
  by (auto simp: u32_at_def endian_u32_def slice_def)

lemma u16_at_inside [exif_simps]: "p + 2 \<le> length t \<Longrightarrow>
   u16_at en t p = Some (word_of_nat (en_nat en (take 2 (drop p t))))"
  by (simp add: u16_at_iff)

lemma u32_at_inside [exif_simps]: "p + 4 \<le> length t \<Longrightarrow>
   u32_at en t p = Some (word_of_nat (en_nat en (take 4 (drop p t))))"
  by (simp add: u32_at_iff)

lemma u16_at_written:
  assumes "take 2 (drop p t) = en_bytes en 2 v"
  shows "u16_at en t p = Some (word_of_nat v)"
proof -
  have "length (take 2 (drop p t)) = 2" using assms by simp
  then have "p + 2 \<le> length t" by (simp add: min_def split: if_splits)
  moreover have "(word_of_nat (v mod 65536) :: 16 word) = word_of_nat v"
    by (rule word_unat_eq_iff[THEN iffD2]) (simp add: unat_of_nat)
  ultimately show ?thesis by (simp add: u16_at_iff assms en_nat_bytes)
qed

lemma u32_at_written:
  assumes "take 4 (drop p t) = en_bytes en 4 v"
  shows "u32_at en t p = Some (word_of_nat v)"
proof -
  have "length (take 4 (drop p t)) = 4" using assms by simp
  then have "p + 4 \<le> length t" by (simp add: min_def split: if_splits)
  moreover have "(word_of_nat (v mod 4294967296) :: 32 word) = word_of_nat v"
    by (rule word_unat_eq_iff[THEN iffD2]) (simp add: unat_of_nat)
  ultimately show ?thesis by (simp add: u32_at_iff assms en_nat_bytes)
qed

text \<open>Readers see only their window: the same bytes elsewhere give the same integer.\<close>

lemma u16_at_same: "take 2 (drop p t) = take 2 (drop q u) \<Longrightarrow> u16_at en t p = u16_at en u q"
proof -
  assume eq: "take 2 (drop p t) = take 2 (drop q u)"
  have "p + 2 \<le> length t \<longleftrightarrow> length (take 2 (drop p t)) = 2"
    "q + 2 \<le> length u \<longleftrightarrow> length (take 2 (drop q u)) = 2" by auto
  with eq have "p + 2 \<le> length t \<longleftrightarrow> q + 2 \<le> length u" by simp
  with eq show ?thesis by (simp add: u16_at_def endian_u16_def slice_def)
qed

section \<open>The assembled segment\<close>

definition moved_entry :: "bytes \<Rightarrow> endian \<Rightarrow> nat list \<Rightarrow> nat \<Rightarrow> bytes" where
  "moved_entry tiff en marks e =
     (if e + 8 \<in> set marks
      then take 8 (drop e tiff) @ en_bytes en 4 (en_nat en (take 4 (drop (e + 8) tiff)) + 12)
      else take 12 (drop e tiff))"

definition orientation_entry :: "endian \<Rightarrow> 16 word \<Rightarrow> bytes" where
  "orientation_entry en v = en_bytes en 2 0x0112 @ en_bytes en 2 3 @ en_bytes en 4 1
     @ en_bytes en 2 (unat v) @ en_bytes en 2 0"

definition moved_field :: "bytes \<Rightarrow> endian \<Rightarrow> nat \<Rightarrow> nat \<Rightarrow> bool" where
  "moved_field tiff en e4 m \<longleftrightarrow> e4 \<le> m \<and> m + 4 \<le> length tiff
     \<and> e4 \<le> en_nat en (take 4 (drop m tiff)) \<and> en_nat en (take 4 (drop m tiff)) + 12 \<le> length tiff"

fun move_fields :: "bytes \<Rightarrow> endian \<Rightarrow> nat \<Rightarrow> nat list \<Rightarrow> bytes \<Rightarrow> bytes" where
  "move_fields tiff en e4 [] rest = rest"
| "move_fields tiff en e4 (m # ms) rest =
     move_fields tiff en e4 ms
       (if moved_field tiff en e4 m
        then take (m - e4) rest @ en_bytes en 4 (en_nat en (take 4 (drop m tiff)) + 12)
             @ drop (m - e4 + 4) rest
        else rest)"

definition spliced_tiff :: "(nat list \<Rightarrow> nat list) \<Rightarrow> bytes \<Rightarrow> endian \<Rightarrow> nat \<Rightarrow> nat \<Rightarrow> 16 word \<Rightarrow> nat list \<Rightarrow> bytes" where
  "spliced_tiff iter tiff en ifd0 cnt v marks =
     (let stop = ifd0 + 2 + cnt * 12; nxt = en_nat en (take 4 (drop stop tiff)) in
      take ifd0 tiff @ en_bytes en 2 (cnt + 1)
      @ concat (map (\<lambda>i. moved_entry tiff en marks (ifd0 + 2 + i * 12)) [0..<cnt])
      @ orientation_entry en v
      @ en_bytes en 4 (if stop \<in> set marks then nxt + 12 else nxt)
      @ move_fields tiff en (stop + 4) (iter marks) (drop (stop + 4) tiff))"

lemma en_nat4_bound: "length b = 4 \<Longrightarrow> en_nat en b < 4294967296"
  using le_nat_bound[of b] le_nat_bound[of "rev b"] by (cases en) (simp_all add: en_nat_def)

lemma en_nat2_bound: "length b = 2 \<Longrightarrow> en_nat en b < 65536"
  using le_nat_bound[of b] le_nat_bound[of "rev b"] by (cases en) (simp_all add: en_nat_def)

lemma unat_u32_at: "u32_at en t p = Some w \<Longrightarrow> unat w = en_nat en (take 4 (drop p t))"
  using en_nat4_bound[of "take 4 (drop p t)" en]
  by (auto simp: u32_at_iff unat_of_nat)

lemma unat_u16_at: "u16_at en t p = Some w \<Longrightarrow> unat w = en_nat en (take 2 (drop p t))"
  using en_nat2_bound[of "take 2 (drop p t)" en]
  by (auto simp: u16_at_iff unat_of_nat)

lemma length_moved_entry: "e + 12 \<le> length tiff \<Longrightarrow> length (moved_entry tiff en marks e) = 12"
  by (simp add: moved_entry_def)

lemma copy_entries_eq:
  "\<forall>i\<in>set is. ifd0 + 2 + i * 12 + 12 \<le> length tiff \<Longrightarrow>
   copy_entries tiff en ifd0 marks is out =
     Done (Some (out @ concat (map (\<lambda>i. moved_entry tiff en marks (ifd0 + 2 + i * 12)) is)))"
proof (induction "is" arbitrary: out)
  case (Cons i "is")
  define e where "e = ifd0 + 2 + i * 12"
  have len: "e + 12 \<le> length tiff" using Cons.prems by (simp add: e_def)
  have IH: "copy_entries tiff en ifd0 marks is o' =
     Done (Some (o' @ concat (map (\<lambda>i. moved_entry tiff en marks (ifd0 + 2 + i * 12)) is)))" for o'
    using Cons by simp
  have sl: "slice tiff e (e + 12) = Some (take 12 (drop e tiff))"
    using len by (simp add: slice_def)
  have old: "u32_at en (take 12 (drop e tiff)) 8
      = Some (word_of_nat (en_nat en (take 4 (drop (e + 8) tiff))))"
    using len by (simp add: u32_at_iff drop_take add.commute)
  have un: "unat (word_of_nat (en_nat en (take 4 (drop (e + 8) tiff))) :: 32 word)
      = en_nat en (take 4 (drop (e + 8) tiff))"
    using len en_nat4_bound[of "take 4 (drop (e + 8) tiff)" en] by (simp add: unat_of_nat)
  show ?case
  proof (cases "e + 8 \<in> set marks")
    case True
    have "copy_from_slice (out @ take 12 (drop e tiff)) (length (out @ take 12 (drop e tiff)) - 4)
        (en_bytes en 4 (en_nat en (take 4 (drop (e + 8) tiff)) + 12))
      = Done (out @ moved_entry tiff en marks e)"
      using len True by (simp add: copy_from_slice_def moved_entry_def)
    with True show ?thesis
      unfolding copy_entries.simps list.map concat.simps e_def[symmetric] sl of_slice_def
        option.case bind_out.simps Let_def if_P[OF True] old un
      by (simp add: IH)
  next
    case False
    then have "moved_entry tiff en marks e = take 12 (drop e tiff)" by (simp add: moved_entry_def)
    with False show ?thesis
      unfolding copy_entries.simps list.map concat.simps e_def[symmetric] sl of_slice_def
        option.case bind_out.simps Let_def if_not_P[OF False]
      by (simp add: IH)
  qed
qed simp

lemma length_move_fields:
  "length rest = length tiff - e4 \<Longrightarrow> length (move_fields tiff en e4 ms rest) = length tiff - e4"
proof (induction ms arbitrary: rest)
  case (Cons m ms)
  show ?case
  proof (cases "moved_field tiff en e4 m")
    case True
    then have "m - e4 + 4 \<le> length rest" using Cons.prems by (auto simp: moved_field_def)
    with True Cons show ?thesis by simp
  next
    case False
    with Cons show ?thesis by simp
  qed
qed simp

lemma patch_rest_eq:
  "length rest = length tiff - e4 \<Longrightarrow>
   patch_rest tiff en e4 (length pre) ms (pre @ rest) = Done (Some (pre @ move_fields tiff en e4 ms rest))"
proof (induction ms arbitrary: rest)
  case (Cons m ms)
  let ?old = "en_nat en (take 4 (drop m tiff))"
  have rd: "slice tiff m (m + 4) = Some (take 4 (drop m tiff))"
      "endian_u32 en (take 4 (drop m tiff)) = Some (word_of_nat ?old)"
      "unat (word_of_nat ?old :: 32 word) = ?old" if "m + 4 \<le> length tiff"
    using that en_nat4_bound[of "take 4 (drop m tiff)" en]
    by (simp_all add: slice_def endian_u32_def unat_of_nat)
  show ?case
  proof (cases "moved_field tiff en e4 m")
    case True
    let ?rest = "take (m - e4) rest @ en_bytes en 4 (?old + 12) @ drop (m - e4 + 4) rest"
    have b: "m + 4 \<le> length tiff" "e4 \<le> m" "e4 \<le> ?old" "?old + 12 \<le> length tiff"
      using True by (simp_all add: moved_field_def)
    have cp: "copy_from_slice (pre @ rest) (length pre + (m - e4)) (en_bytes en 4 (?old + 12))
        = Done (pre @ ?rest)"
      using b Cons.prems by (simp add: copy_from_slice_def add.assoc)
    have "length ?rest = length tiff - e4" using b Cons.prems by simp
    note IH = Cons.IH[OF this]
    show ?thesis
      using True b
      unfolding patch_rest.simps rd[OF b(1)] of_slice_def option.case bind_out.simps move_fields.simps
      by (simp only: cp IH if_True simp_thms bind_out.simps)
  next
    case False
    then show ?thesis
      using Cons rd by (auto simp: of_slice_def moved_field_def)
  qed
qed simp

text \<open>The assembly of case B in closed form: it neither panics nor gives up.\<close>

lemma splice_entry_eq:
  assumes tot: "14 \<le> app1_total" "app1_pos + app1_total \<le> length jpeg"
    and seg: "seg = take app1_total (drop app1_pos jpeg)" and tiff: "tiff = drop 10 seg"
    and fit: "ifd0 + 2 + cnt * 12 + 4 \<le> length tiff" and cnt: "cnt < 65535"
  shows "splice_entry iter jpeg app1_pos app1_total seg tiff en ifd0 cnt v marks =
    Done (Some (take app1_pos jpeg @ [0xFF, 0xE1] @ en_bytes Big 2 (app1_total + 10)
      @ take 6 (drop 4 seg) @ spliced_tiff iter tiff en ifd0 cnt v marks
      @ drop (app1_pos + app1_total) jpeg))"
proof -
  define stop where "stop = ifd0 + 2 + cnt * 12"
  have lenseg: "length seg = app1_total" using tot by (simp add: seg)
  have sl: "slice jpeg 0 app1_pos = Some (take app1_pos jpeg)"
     "slice seg 4 10 = Some (take 6 (drop 4 seg))" "slice tiff 0 ifd0 = Some (take ifd0 tiff)"
     "slice tiff stop (stop + 4) = Some (take 4 (drop stop tiff))"
     "slice tiff (stop + 4) (length tiff) = Some (drop (stop + 4) tiff)"
     "slice jpeg (app1_pos + app1_total) (length jpeg) = Some (drop (app1_pos + app1_total) jpeg)"
    using tot fit lenseg by (simp_all add: slice_def stop_def)
  have ent: "\<forall>i\<in>set [0..<cnt]. ifd0 + 2 + i * 12 + 12 \<le> length tiff"
    using fit by auto
  have nx: "endian_u32 en (take 4 (drop stop tiff)) = Some (word_of_nat (en_nat en (take 4 (drop stop tiff))))"
    using fit by (simp add: endian_u32_def slice_def stop_def)
  have cn: "unat (word_of_nat cnt + 1 :: 16 word) = cnt + 1"
  proof -
    have eq: "word_of_nat cnt + 1 = (word_of_nat (cnt + 1) :: 16 word)" by simp
    have "unat (word_of_nat (cnt + 1) :: 16 word) = (cnt + 1) mod 2 ^ LENGTH(16)"
      by (rule unat_of_nat)
    also have "\<dots> = cnt + 1" using cnt by simp
    finally show ?thesis by (simp only: eq)
  qed
  have pr: "patch_rest tiff en (stop + 4) (length out) (iter marks) (out @ drop (stop + 4) tiff) =
      Done (Some (out @ move_fields tiff en (stop + 4) (iter marks) (drop (stop + 4) tiff)))" for out
    by (rule patch_rest_eq) simp
  let ?nx = "en_nat en (take 4 (drop stop tiff))"
  have nlt: "?nx < 4294967296" using fit by (intro en_nat4_bound) (simp add: stop_def)
  have nb: "en_bytes en 4 (unat (if stop \<in> set marks then word_of_nat (unat (word_of_nat ?nx :: 32 word) + 12)
       else word_of_nat ?nx :: 32 word))
     = en_bytes en 4 (if stop \<in> set marks then ?nx + 12 else ?nx)"
  proof -
    have un: "unat (word_of_nat ?nx :: 32 word) = ?nx"
      using nlt unfolding unat_of_nat by simp
    have "en_bytes en 4 (unat (word_of_nat (?nx + 12) :: 32 word)) = en_bytes en 4 (?nx + 12)"
      using en_bytes_mod[of en 4 "?nx + 12"] unfolding unat_of_nat by simp
    with un show ?thesis by (simp only: if_split) simp
  qed
  have tens: "app1_total + 12 - 2 = app1_total + 10" by simp
  have tags: "unat (0x0112 :: 16 word) = 0x0112" "unat (3 :: 16 word) = 3" "unat (1 :: 32 word) = 1"
    "unat (0 :: 16 word) = 0" by simp_all
  show ?thesis
    unfolding splice_entry_def Let_def stop_def[symmetric] sl of_slice_def option.case bind_out.simps
      copy_entries_eq[OF ent] push_u16_def push_u32_def cn nx pr nb tens spliced_tiff_def
      orientation_entry_def ORIENTATION_TAG_def tags
    by (simp only: append.assoc)
qed

section \<open>A reference reader of the orientation\<close>

text \<open>IFD0 of a TIFF block: byte order, offset and entry count of a table that lies inside it.\<close>

definition ifd0_of :: "bytes \<Rightarrow> (endian \<times> nat \<times> nat) option" where
  "ifd0_of tiff =
     (if length tiff < 8 then None
      else case endian_parse (take 2 tiff) of
        None \<Rightarrow> None
      | Some en \<Rightarrow>
          let ifd0 = en_nat en (take 4 (drop 4 tiff)); cnt = en_nat en (take 2 (drop ifd0 tiff)) in
          if u16_at en tiff 2 \<noteq> Some 42 \<or> ifd0 < 8 \<or> ifd0 + 2 > length tiff
             \<or> ifd0 + 2 + cnt * 12 + 4 > length tiff
          then None else Some (en, ifd0, cnt))"

text \<open>The entries of a table that carry the orientation tag, and the value of the last one if it is
  a single SHORT.\<close>

definition orientation_slots :: "endian \<Rightarrow> bytes \<Rightarrow> nat \<Rightarrow> nat \<Rightarrow> nat list" where
  "orientation_slots en tiff ifd0 cnt =
     filter (\<lambda>i. u16_at en tiff (ifd0 + 2 + i * 12) = Some ORIENTATION_TAG) [0..<cnt]"

definition short_value :: "endian \<Rightarrow> bytes \<Rightarrow> nat \<Rightarrow> 16 word option" where
  "short_value en tiff e =
     (if u16_at en tiff (e + 2) = Some 3 \<and> u32_at en tiff (e + 4) = Some 1
      then u16_at en tiff (e + 8) else None)"

definition tiff_orientation :: "bytes \<Rightarrow> 16 word option" where
  "tiff_orientation tiff =
     (case ifd0_of tiff of
        None \<Rightarrow> None
      | Some (en, ifd0, cnt) \<Rightarrow>
          (case orientation_slots en tiff ifd0 cnt of
             [] \<Rightarrow> None
           | i # is \<Rightarrow> short_value en tiff (ifd0 + 2 + last (i # is) * 12)))"

definition exif_orientation :: "bytes \<Rightarrow> 16 word option" where
  "exif_orientation jpeg =
     (case find_exif_app1 jpeg of
        None \<Rightarrow> None
      | Some (pos, tlen) \<Rightarrow>
          (case slice jpeg (pos + 10) (pos + tlen) of
             None \<Rightarrow> None
           | Some tiff \<Rightarrow> tiff_orientation tiff))"

lemma find_orientation_eq:
  "\<forall>i\<in>set is. ifd0 + 2 + i * 12 + 12 \<le> length tiff \<Longrightarrow>
   find_orientation tiff en ifd0 is found =
     Some (case filter (\<lambda>i. u16_at en tiff (ifd0 + 2 + i * 12) = Some ORIENTATION_TAG) is of
             [] \<Rightarrow> found
           | j # js \<Rightarrow> Some (ifd0 + 2 + last (j # js) * 12 + 8))"
proof (induction "is" arbitrary: found)
  case (Cons i "is")
  define e where "e = ifd0 + 2 + i * 12"
  have len: "e + 12 \<le> length tiff" using Cons.prems by (simp add: e_def)
  have sl: "slice tiff e (e + 12) = Some (take 12 (drop e tiff))" using len by (simp add: slice_def)
  have "take 2 (drop 0 (take 12 (drop e tiff))) = take 2 (drop e tiff)" by simp
  then have tg: "u16_at en (take 12 (drop e tiff)) 0 = u16_at en tiff e" by (rule u16_at_same)
  obtain w where w: "u16_at en tiff e = Some w" using len u16_at_inside[of e tiff en] by auto
  have step: "find_orientation tiff en ifd0 (i # is) found =
      find_orientation tiff en ifd0 is (if w = ORIENTATION_TAG then Some (e + 8) else found)"
    unfolding find_orientation.simps e_def[symmetric] sl by (simp add: tg w)
  let ?P = "\<lambda>i. u16_at en tiff (ifd0 + 2 + i * 12) = Some ORIENTATION_TAG"
  have P: "?P i \<longleftrightarrow> w = ORIENTATION_TAG" using w by (simp add: e_def)
  have IH: "find_orientation tiff en ifd0 is fd = Some (case filter ?P is of [] \<Rightarrow> fd
      | j # js \<Rightarrow> Some (ifd0 + 2 + last (j # js) * 12 + 8))" for fd
    using Cons by simp
  show ?case
    unfolding step IH filter.simps P by (simp add: e_def split: list.split)
qed simp

text \<open>The splice, with its guards collected.\<close>

lemma splice_eq:
  assumes tot: "14 \<le> tlen" "pos + tlen \<le> length jpeg"
  defines "tiff \<equiv> drop (pos + 10) (take (pos + tlen) jpeg)"
  shows "splice_orientation_into_app1 iter jpeg (pos, tlen) v =
    (case ifd0_of tiff of
       None \<Rightarrow> Some (Done None)
     | Some (en, ifd0, cnt) \<Rightarrow>
         if cnt = 0 \<or> cnt \<ge> 0xFFFF then Some (Done None)
         else case orientation_slots en tiff ifd0 cnt of
           i # is \<Rightarrow> Some (rewrite_value jpeg pos en (ifd0 + 2 + last (i # is) * 12 + 8) v)
         | [] \<Rightarrow>
             if tlen + 12 - 2 > 0xFFFF then Some (Done None)
             else Option.bind (walk_ifd tiff en (ifd0 + 2 + cnt * 12 + 4) (Walk_ifd ifd0 0) []) (\<lambda>r.
                 case r of
                   None \<Rightarrow> Some (Done None)
                 | Some marks \<Rightarrow> Some (Done (Some
                     (take pos jpeg @ [0xFF, 0xE1] @ en_bytes Big 2 (tlen + 10)
                      @ take 6 (drop (pos + 4) jpeg) @ spliced_tiff iter tiff en ifd0 cnt v marks
                      @ drop (pos + tlen) jpeg)))))"
proof -
  define seg where "seg = take tlen (drop pos jpeg)"
  have tseg: "tiff = drop 10 seg" by (simp add: tiff_def seg_def drop_take add.commute)
  have lseg: "length seg = tlen" using tot by (simp add: seg_def)
  have sl: "slice jpeg pos (pos + tlen) = Some seg" "slice seg 10 tlen = Some tiff"
    using tot by (simp_all add: slice_def tseg seg_def drop_take)
  have hdr: "take 6 (drop 4 seg) = take 6 (drop (pos + 4) jpeg)"
    using tot by (simp add: seg_def drop_take add.commute)
  have ent: "find_orientation tiff en ifd0 [0..<cnt] None =
      Some (case orientation_slots en tiff ifd0 cnt of [] \<Rightarrow> None
            | j # js \<Rightarrow> Some (ifd0 + 2 + last (j # js) * 12 + 8))"
    if "ifd0 + 2 + cnt * 12 + 4 \<le> length tiff" for en ifd0 cnt
    unfolding orientation_slots_def using that by (intro find_orientation_eq) auto
  have sp: "splice_entry iter jpeg pos tlen seg tiff en ifd0 cnt v marks =
     Done (Some (take pos jpeg @ [0xFF, 0xE1] @ en_bytes Big 2 (tlen + 10)
       @ take 6 (drop (pos + 4) jpeg) @ spliced_tiff iter tiff en ifd0 cnt v marks
       @ drop (pos + tlen) jpeg))"
    if "ifd0 + 2 + cnt * 12 + 4 \<le> length tiff" "cnt < 65535" for en ifd0 cnt marks
    using splice_entry_eq[OF tot seg_def tseg that, of iter en v marks] by (simp only: hdr)
  have g: "\<not> (tlen < 14 \<or> length jpeg < pos + tlen)" using tot by simp
  show ?thesis
  proof (cases "length tiff < 8")
    case True
    then show ?thesis
      using g by (simp add: splice_orientation_into_app1_def sl lseg ifd0_of_def)
  next
    case False
    note len = this
    show ?thesis
    proof (cases "endian_parse (take 2 tiff)")
      case None
      then show ?thesis using g len by (simp add: splice_orientation_into_app1_def sl lseg ifd0_of_def)
    next
      case (Some en)
      define ifd0 where "ifd0 = en_nat en (take 4 (drop 4 tiff))"
      define cnt where "cnt = en_nat en (take 2 (drop ifd0 tiff))"
      obtain mg where mg: "u16_at en tiff 2 = Some mg" using len u16_at_inside[of 2 tiff en] by auto
      obtain ow where ow: "u32_at en tiff 4 = Some ow" using len u32_at_inside[of 4 tiff en] by auto
      have ifd: "unat ow = ifd0" using unat_u32_at[OF ow] by (simp add: ifd0_def)
      show ?thesis
      proof (cases "mg \<noteq> 42 \<or> ifd0 < 8 \<or> ifd0 + 2 > length tiff")
        case True
        then show ?thesis
          using g len Some mg ow ifd
          by (auto simp: splice_orientation_into_app1_def sl lseg ifd0_of_def Let_def ifd0_def)
      next
        case False
        then obtain cw where cw: "u16_at en tiff ifd0 = Some cw"
          using u16_at_inside[of ifd0 tiff en] by auto
        have mg42: "(mg \<noteq> 42) = False" and inr: "(ifd0 < 8 \<or> ifd0 + 2 > length tiff) = False"
          using False by simp_all
        have c: "unat cw = cnt" using unat_u16_at[OF cw] by (simp add: cnt_def)
        have io: "ifd0_of tiff = (if ifd0 + 2 + cnt * 12 + 4 > length tiff then None
            else Some (en, ifd0, cnt))"
          using False len Some mg by (simp add: ifd0_of_def Let_def flip: ifd0_def cnt_def)
        have spl: "splice_orientation_into_app1 iter jpeg (pos, tlen) v =
          (if cnt = 0 \<or> cnt \<ge> 0xFFFF \<or> ifd0 + 2 + cnt * 12 + 4 > length tiff then Some (Done None)
           else (case find_orientation tiff en ifd0 [0..<cnt] None of
             None \<Rightarrow> Some (Done None)
           | Some (Some voff) \<Rightarrow> Some (rewrite_value jpeg pos en voff v)
           | Some None \<Rightarrow>
               if tlen + 12 - 2 > 0xFFFF then Some (Done None)
               else Option.bind (walk_ifd tiff en (ifd0 + 2 + cnt * 12 + 4) (Walk_ifd ifd0 0) []) (\<lambda>r.
                 case r of
                   None \<Rightarrow> Some (Done None)
                 | Some marks \<Rightarrow> Some (splice_entry iter jpeg pos tlen seg tiff en ifd0 cnt v marks))))"
          unfolding splice_orientation_into_app1_def prod.case Let_def if_not_P[OF g] sl(1)
            option.case lseg sl(2) if_not_P[OF len] Some mg ow ifd
          by (simp only: cw c option.case if_False simp_thms mg42 inr)
        show ?thesis
          unfolding spl io using ent[of ifd0 cnt en] sp[of ifd0 cnt en]
          by (simp split: list.split option.split)
      qed
    qed
  qed
qed

section \<open>Locating the segment again\<close>

definition app1_at :: "bytes \<Rightarrow> nat \<Rightarrow> nat \<Rightarrow> bool" where
  "app1_at jpeg pos tlen \<longleftrightarrow> pos + 10 \<le> length jpeg \<and> jpeg ! pos = 0xFF \<and> jpeg ! (pos + 1) = 0xE1
     \<and> slice jpeg (pos + 4) (pos + 10) = Some exif_header
     \<and> 2 \<le> en_nat Big [jpeg ! (pos + 2), jpeg ! (pos + 3)]
     \<and> tlen = en_nat Big [jpeg ! (pos + 2), jpeg ! (pos + 3)] + 2"

text \<open>The ways in which an iteration of the scan can lead to a hit.\<close>

lemma find_app1_loop_cases:
  assumes "find_app1_loop jpeg p = Some (pos, tlen)"
  obtains (fill) "p + 4 \<le> length jpeg" "jpeg ! p = 0xFF" "jpeg ! (p + 1) = 0xFF"
      "find_app1_loop jpeg (p + 1) = Some (pos, tlen)"
    | (hit) "app1_at jpeg p tlen" "pos = p"
    | (seg) "p + 4 \<le> length jpeg" "jpeg ! p = 0xFF" "jpeg ! (p + 1) \<noteq> 0xFF" "jpeg ! (p + 1) \<noteq> 0xDA"
      "\<not> en_nat Big [jpeg ! (p + 2), jpeg ! (p + 3)] < 2"
      "\<not> (jpeg ! (p + 1) = 0xE1 \<and> p + 10 \<le> length jpeg \<and> slice jpeg (p + 4) (p + 10) = Some exif_header)"
      "find_app1_loop jpeg (p + (2 + en_nat Big [jpeg ! (p + 2), jpeg ! (p + 3)])) = Some (pos, tlen)"
proof -
  have g: "p + 4 \<le> length jpeg" "jpeg ! p = 0xFF"
    using assms by (subst (asm) find_app1_loop.simps, simp split: if_splits)+
  note step = assms[unfolded find_app1_loop.simps[of jpeg p] if_P[OF g(1)] Let_def]
  show thesis
  proof (cases "jpeg ! (p + 1) = 0xFF")
    case True
    then show thesis using step g fill by simp
  next
    case marker: False
    let ?n = "en_nat Big [jpeg ! (p + 2), jpeg ! (p + 3)]"
    have da: "jpeg ! (p + 1) \<noteq> 0xDA" and n: "\<not> ?n < 2"
      using step g(2) marker by (auto split: if_splits)
    let ?hit = "jpeg ! (p + 1) = 0xE1 \<and> p + 10 \<le> length jpeg \<and> slice jpeg (p + 4) (p + 10) = Some exif_header"
    show thesis
    proof (cases ?hit)
      case True
      then have "pos = p" "tlen = ?n + 2" using step g(2) n by auto
      with True g n have "app1_at jpeg p tlen" by (simp add: app1_at_def)
      then show thesis using \<open>pos = p\<close> by (rule hit)
    next
      case False
      then have "find_app1_loop jpeg (p + (2 + ?n)) = Some (pos, tlen)"
        using step g(2) marker da n by (simp only: if_not_P if_False simp_thms)
      with g marker da n False show thesis by (rule seg)
    qed
  qed
qed

lemma find_app1_loop_hit: "app1_at jpeg p tlen \<Longrightarrow> find_app1_loop jpeg p = Some (p, tlen)"
  by (subst find_app1_loop.simps) (auto simp: app1_at_def Let_def)

lemma find_app1_loop_found:
  "find_app1_loop jpeg p = Some (pos, tlen) \<Longrightarrow> p \<le> pos \<and> app1_at jpeg pos tlen"
proof (induction jpeg p rule: find_app1_loop.induct)
  case (1 jpeg p)
  have "find_app1_loop jpeg p = Some (pos, tlen)" by (rule "1.prems")
  then show ?case
  proof (cases rule: find_app1_loop_cases)
    case fill
    then show ?thesis using "1.IH"(1)[OF fill(1) _ refl fill(3) fill(4)] by simp
  next
    case hit
    then show ?thesis by simp
  next
    case seg
    then show ?thesis using "1.IH"(2)[OF seg(1) _ refl seg(3,4) refl seg(5,6,7)] by simp
  qed
qed

text \<open>A file that agrees before the segment and has an Exif segment at its place is scanned to
  that place.\<close>

lemma find_app1_loop_transfer:
  "find_app1_loop jpeg p = Some (pos, tlen) \<Longrightarrow> take pos jpeg' = take pos jpeg \<Longrightarrow>
   app1_at jpeg' pos tlen' \<Longrightarrow> find_app1_loop jpeg' p = Some (pos, tlen')"
proof (induction jpeg p rule: find_app1_loop.induct)
  case (1 jpeg p)
  have le: "p \<le> pos" using find_app1_loop_found[OF "1.prems"(1)] by simp
  have at: "app1_at jpeg pos tlen" using find_app1_loop_found[OF "1.prems"(1)] by simp
  have nth: "jpeg' ! i = jpeg ! i" if "i < pos" for i
    using "1.prems"(2) that by (metis nth_take)
  have len: "pos + 10 \<le> length jpeg'" using "1.prems"(3) by (simp add: app1_at_def)
  show ?case
  proof (cases "p = pos")
    case True
    then show ?thesis using find_app1_loop_hit[OF "1.prems"(3)] by simp
  next
    case False
    with le have lt: "p < pos" by simp
    have m0: "jpeg' ! p = jpeg ! p" using lt by (rule nth)
    have m1: "jpeg' ! (p + 1) = jpeg ! (p + 1)"
    proof (cases "p + 1 = pos")
      case True
      then show ?thesis using at "1.prems"(3) by (simp add: app1_at_def)
    qed (use lt nth in simp)
    from "1.prems"(1) show ?thesis
    proof (cases rule: find_app1_loop_cases)
      case hit
      then show ?thesis using False by simp
    next
      case fill
      have "find_app1_loop jpeg' (p + 1) = Some (pos, tlen')"
        using "1.IH"(1)[OF fill(1) _ refl fill(3,4) "1.prems"(2,3)] fill(2) by simp
      then show ?thesis
        using len lt m0 m1 fill by (subst find_app1_loop.simps) simp
    next
      case seg
      let ?n = "p + (2 + en_nat Big [jpeg ! (p + 2), jpeg ! (p + 3)])"
      have n: "?n \<le> pos" using find_app1_loop_found[OF seg(7)] by simp
      then have p4: "p + 4 \<le> pos" using seg(5) by simp
      have m2: "jpeg' ! (p + 2) = jpeg ! (p + 2)" "jpeg' ! (p + 3) = jpeg ! (p + 3)"
        using p4 by (simp_all add: nth)
      have IH: "find_app1_loop jpeg' ?n = Some (pos, tlen')"
        using "1.IH"(2)[OF seg(1) _ refl seg(3,4) refl seg(5,6,7) "1.prems"(2,3)] seg(2) by simp
      have nohdr: "\<not> (jpeg' ! (p + 1) = 0xE1 \<and> p + 10 \<le> length jpeg' \<and> slice jpeg' (p + 4) (p + 10) = Some exif_header)"
      proof (cases "p + 10 \<le> pos")
        case True
        have "take 6 (drop (p + 4) jpeg') = take 6 (drop (p + 4) (take pos jpeg'))"
          using True by (simp add: drop_take)
        also have "\<dots> = take 6 (drop (p + 4) jpeg)"
          using True "1.prems"(2) by (simp add: drop_take)
        finally have "slice jpeg' (p + 4) (p + 10) = Some exif_header \<Longrightarrow>
            slice jpeg (p + 4) (p + 10) = Some exif_header"
          using at True by (simp add: slice_def app1_at_def split: if_splits)
        with seg(6) m1 at True show ?thesis by (auto simp: app1_at_def)
      next
        case F: False
        have "0xFF \<notin> set exif_header" by (simp add: exif_header_def str_bytes_def)
        moreover have "0xFF \<in> set y" if y: "slice jpeg' (p + 4) (p + 10) = Some y" for y
        proof -
          have "y ! (pos - (p + 4)) = jpeg' ! (p + 4 + (pos - (p + 4)))"
            by (rule slice_nth[OF y]) (use F p4 in simp)
          also have "\<dots> = 0xFF" using p4 "1.prems"(3) by (simp add: app1_at_def)
          finally have "y ! (pos - (p + 4)) = 0xFF" .
          moreover have "pos - (p + 4) < length y" using slice_length[OF y] F p4 by simp
          ultimately show ?thesis by (metis nth_mem)
        qed
        ultimately show ?thesis by blast
      qed
      show ?thesis
        using len lt m0 m1 m2 seg(2-5) nohdr IH
        by (subst find_app1_loop.simps) (simp add: Let_def)
    qed
  qed
qed

lemma window6: "slice jpeg (pos + 4) (pos + 10) = Some y \<Longrightarrow> take 6 (drop (pos + 4) jpeg) = y"
  by (simp add: slice_def split: if_splits)

lemma app1_at_header: "app1_at jpeg pos tlen \<Longrightarrow> take 6 (drop (pos + 4) jpeg) = exif_header"
  by (rule window6) (simp add: app1_at_def)

lemma find_exif_app1_found:
  assumes "find_exif_app1 jpeg = Some (pos, tlen)"
  shows "2 \<le> pos" "app1_at jpeg pos tlen" "4 \<le> tlen" "tlen \<le> 65537" "pos + 10 \<le> length jpeg"
    "jpeg ! 0 = 0xFF" "jpeg ! 1 = 0xD8" "4 \<le> length jpeg"
proof -
  have lp: "find_app1_loop jpeg 2 = Some (pos, tlen)"
    and b: "jpeg ! 0 = 0xFF" "jpeg ! 1 = 0xD8" "4 \<le> length jpeg"
    using assms by (auto simp: find_exif_app1_def split: if_splits)
  show "2 \<le> pos" and at: "app1_at jpeg pos tlen" using find_app1_loop_found[OF lp] by simp_all
  show "4 \<le> tlen" "pos + 10 \<le> length jpeg" using at by (simp_all add: app1_at_def)
  show "tlen \<le> 65537"
    using at en_nat2_bound[of "[jpeg ! (pos + 2), jpeg ! (pos + 3)]" Big] by (simp add: app1_at_def)
  show "jpeg ! 0 = 0xFF" "jpeg ! 1 = 0xD8" "4 \<le> length jpeg" by (rule b)+
qed

lemma find_exif_app1_transfer:
  assumes f: "find_exif_app1 jpeg = Some (pos, tlen)"
    and t: "take pos jpeg' = take pos jpeg" and at: "app1_at jpeg' pos tlen'"
  shows "find_exif_app1 jpeg' = Some (pos, tlen')"
proof -
  note fd = find_exif_app1_found[OF f]
  have lp: "find_app1_loop jpeg 2 = Some (pos, tlen)"
    using f by (auto simp: find_exif_app1_def split: if_splits)
  have "jpeg' ! i = jpeg ! i" if "i < pos" for i using t that by (metis nth_take)
  then have "jpeg' ! 0 = 0xFF" "jpeg' ! 1 = 0xD8" using fd by simp_all
  moreover have "4 \<le> length jpeg'" using at by (simp add: app1_at_def)
  ultimately show ?thesis
    using find_app1_loop_transfer[OF lp t at] by (simp add: find_exif_app1_def)
qed

text \<open>The spliced segment is located at the same place.\<close>

lemma app1_at_rebuilt:
  assumes at: "app1_at jpeg pos tlen" and l: "2 \<le> k" "k \<le> 65535"
  shows "app1_at (take pos jpeg @ [0xFF, 0xE1] @ en_bytes Big 2 k @ take 6 (drop (pos + 4) jpeg) @ rest)
           pos (k + 2)"
proof -
  have len: "pos + 10 \<le> length jpeg" and h: "take 6 (drop (pos + 4) jpeg) = exif_header"
    using at app1_at_header[OF at] by (simp_all add: app1_at_def)
  let ?j = "take pos jpeg @ [0xFF, 0xE1] @ en_bytes Big 2 k @ exif_header @ rest"
  have lh: "length exif_header = 6" by (simp add: exif_header_def)
  obtain x y where xy: "en_bytes Big 2 k = [x, y]"
    using length_en_bytes[of Big 2 k]
    by (cases "en_bytes Big 2 k"; cases "tl (en_bytes Big 2 k)") auto
  have "en_nat Big [x, y] = k"
    using l en_nat_bytes[of Big 2 k] by (simp add: xy)
  moreover have "?j ! (pos + 2) = x" "?j ! (pos + 3) = y" "?j ! pos = 0xFF" "?j ! (pos + 1) = 0xE1"
    using len by (simp_all add: xy nth_append)
  moreover have "slice ?j (pos + 4) (pos + 10) = Some exif_header"
    using len lh by (intro slice_mid[of _ "take pos jpeg @ [0xFF, 0xE1] @ en_bytes Big 2 k" _ rest]) simp_all
  ultimately show ?thesis using l len lh by (simp add: app1_at_def h)
qed

section \<open>Only the Exif segment changes\<close>

lemma rewrite_value_eq:
  "pos + 10 + voff + 2 \<le> length jpeg \<Longrightarrow> rewrite_value jpeg pos en voff v =
     Done (Some (take (pos + 10 + voff) jpeg @ en_bytes en 2 (unat v) @ drop (pos + 10 + voff + 2) jpeg))"
  by (simp add: rewrite_value_def Let_def copy_from_slice_def)

lemma ifd0_of_bounds:
  assumes "ifd0_of tiff = Some (en, ifd0, cnt)"
  shows "8 \<le> ifd0" "ifd0 + 2 + cnt * 12 + 4 \<le> length tiff" "8 \<le> length tiff"
    "endian_parse (take 2 tiff) = Some en" "u16_at en tiff 2 = Some 42"
    "ifd0 = en_nat en (take 4 (drop 4 tiff))" "cnt = en_nat en (take 2 (drop ifd0 tiff))"
  using assms by (auto simp: ifd0_of_def Let_def split: if_splits option.splits)

lemma orientation_slots_bound: "i \<in> set (orientation_slots en tiff ifd0 cnt) \<Longrightarrow> i < cnt"
  by (simp add: orientation_slots_def)

text \<open>The three results of a splice: refusal, an overwritten value, a spliced segment.\<close>

lemma splice_results:
  assumes sp: "splice_orientation_into_app1 iter jpeg (pos, tlen) v = Some r"
  obtains (none) "r = Done None"
  | (rewrite) en ifd0 cnt tiff i where "14 \<le> tlen" "pos + tlen \<le> length jpeg"
      "tiff = drop (pos + 10) (take (pos + tlen) jpeg)" "ifd0_of tiff = Some (en, ifd0, cnt)"
      "orientation_slots en tiff ifd0 cnt \<noteq> []" "i = last (orientation_slots en tiff ifd0 cnt)" "i < cnt"
      "r = Done (Some (take (pos + 10 + (ifd0 + 2 + i * 12 + 8)) jpeg @ en_bytes en 2 (unat v)
             @ drop (pos + 10 + (ifd0 + 2 + i * 12 + 8) + 2) jpeg))"
  | (spliced) en ifd0 cnt tiff marks where "14 \<le> tlen" "pos + tlen \<le> length jpeg" "tlen + 10 \<le> 0xFFFF"
      "tiff = drop (pos + 10) (take (pos + tlen) jpeg)" "ifd0_of tiff = Some (en, ifd0, cnt)"
      "0 < cnt" "cnt < 0xFFFF" "orientation_slots en tiff ifd0 cnt = []"
      "walk_ifd tiff en (ifd0 + 2 + cnt * 12 + 4) (Walk_ifd ifd0 0) [] = Some (Some marks)"
      "r = Done (Some (take pos jpeg @ [0xFF, 0xE1] @ en_bytes Big 2 (tlen + 10)
             @ take 6 (drop (pos + 4) jpeg) @ spliced_tiff iter tiff en ifd0 cnt v marks
             @ drop (pos + tlen) jpeg))"
proof (cases "tlen < 14 \<or> pos + tlen > length jpeg")
  case True
  then have "r = Done None" using sp by (simp add: splice_orientation_into_app1_def)
  then show thesis by (rule none)
next
  case False
  then have t: "14 \<le> tlen" "pos + tlen \<le> length jpeg" by simp_all
  define tiff where "tiff = drop (pos + 10) (take (pos + tlen) jpeg)"
  note eq = splice_eq[OF t, of iter v, folded tiff_def]
  show thesis
  proof (cases "ifd0_of tiff")
    case None
    then show thesis using sp none by (simp add: eq)
  next
    case (Some x)
    obtain en ifd0 cnt where x: "ifd0_of tiff = Some (en, ifd0, cnt)" using Some by (cases x) auto
    note b = ifd0_of_bounds[OF x]
    have lt: "length tiff = tlen - 10" using t by (simp add: tiff_def)
    show thesis
    proof (cases "cnt = 0 \<or> cnt \<ge> 0xFFFF")
      case True
      then show thesis using sp none x by (simp add: eq)
    next
      case cnt: False
      show thesis
      proof (cases "orientation_slots en tiff ifd0 cnt")
        case Nil
        show thesis
        proof (cases "tlen + 12 - 2 > 0xFFFF")
          case True
          then show thesis using sp none x cnt Nil by (simp add: eq)
        next
          case fits: False
          obtain w where w: "walk_ifd tiff en (ifd0 + 2 + cnt * 12 + 4) (Walk_ifd ifd0 0) [] = Some w"
            using sp x cnt Nil fits unfolding eq by (auto simp: bind_eq_Some_conv)
          show thesis
          proof (cases w)
            case None
            then show thesis using sp x cnt Nil fits w none unfolding eq by simp
          next
            case (Some marks)
            show thesis
              by (rule spliced[OF t _ tiff_def x _ _ Nil w[unfolded Some]])
                (use sp x cnt Nil fits w Some in \<open>simp_all add: eq\<close>)
          qed
        qed
      next
        case (Cons j js)
        define i where "i = last (orientation_slots en tiff ifd0 cnt)"
        have i: "i < cnt" unfolding i_def
          by (rule orientation_slots_bound[of _ en tiff ifd0], rule last_in_set) (simp add: Cons)
        have "ifd0 + 2 + i * 12 + 12 \<le> length tiff" using b(2) i by simp
        then have fit: "pos + 10 + (ifd0 + 2 + i * 12 + 8) + 2 \<le> length jpeg"
          using lt t by simp
        have "r = rewrite_value jpeg pos en (ifd0 + 2 + i * 12 + 8) v"
          using sp x cnt Cons unfolding eq i_def by (simp del: last.simps)
        with rewrite_value_eq[OF fit] show thesis
          by (intro rewrite[OF t tiff_def x _ i_def i]) (simp_all add: Cons)
      qed
    qed
  qed
qed

lemma length_concat_entries:
  "\<forall>i\<in>set is. ifd0 + 2 + i * 12 + 12 \<le> length tiff \<Longrightarrow>
   length (concat (map (\<lambda>i. moved_entry tiff en marks (ifd0 + 2 + i * 12)) is)) = length is * 12"
  by (induction "is") (simp_all add: length_moved_entry)

lemma length_orientation_entry [simp]: "length (orientation_entry en v) = 12"
  by (simp add: orientation_entry_def)

lemma length_spliced_tiff:
  assumes "ifd0 + 2 + cnt * 12 + 4 \<le> length tiff"
  shows "length (spliced_tiff iter tiff en ifd0 cnt v marks) = length tiff + 12"
proof -
  have "\<forall>i\<in>set [0..<cnt]. ifd0 + 2 + i * 12 + 12 \<le> length tiff" using assms by auto
  note le = length_concat_entries[OF this, of en marks]
  have mv: "length (move_fields tiff en (ifd0 + 2 + cnt * 12 + 4) (iter marks) (drop (ifd0 + 2 + cnt * 12 + 4) tiff))
     = length tiff - (ifd0 + 2 + cnt * 12 + 4)" by (rule length_move_fields) simp
  show ?thesis
    unfolding spliced_tiff_def Let_def length_append le mv using assms by simp
qed

text \<open>The patched file in three parts: what precedes the Exif segment, the segment, what follows.\<close>

definition patched_at :: "bytes \<Rightarrow> bytes \<Rightarrow> bytes \<Rightarrow> bytes \<Rightarrow> bool" where
  "patched_at pre seg seg' post \<longleftrightarrow> 2 \<le> length pre
     \<and> find_exif_app1 (pre @ seg @ post) = (if seg = [] then None else Some (length pre, length seg))
     \<and> find_exif_app1 (pre @ seg' @ post) = Some (length pre, length seg')
     \<and> length seg' = (if seg = [] then 36 else if length seg' = length seg then length seg else length seg + 12)"

lemma inject_found:
  assumes "4 \<le> length jpeg" "jpeg ! 0 = 0xFF" "jpeg ! 1 = 0xD8"
  shows "find_exif_app1 (take 2 jpeg @ minimal_app1 v @ drop 2 jpeg) = Some (2, 36)"
proof -
  let ?j = "take 2 jpeg @ minimal_app1 v @ drop 2 jpeg"
  obtain a b r where j: "jpeg = a # b # r"
    using assms(1) by (cases jpeg; cases "tl jpeg") auto
  obtain rest where rest: "?j = [a, b, 0xFF, 0xE1, 0, 0x22] @ exif_header @ rest"
    by (auto simp: j minimal_app1_def)
  have "length exif_header = 6" by (simp add: exif_header_def)
  then have "app1_at ?j 2 36"
    unfolding rest app1_at_def
    using slice_mid[OF refl, of 6 "[a, b, 0xFF, 0xE1, 0, 0x22]" 12 exif_header rest]
    by (simp add: en_nat_def)
  then have "find_app1_loop ?j 2 = Some (2, 36)" by (rule find_app1_loop_hit)
  then show ?thesis using assms by (simp add: find_exif_app1_def j)
qed

lemma patched_rewrite:
  assumes f: "find_exif_app1 jpeg = Some (pos, tlen)" and t: "pos + tlen \<le> length jpeg"
    and q: "pos + 10 \<le> q" "q + 2 \<le> pos + tlen" and w: "length w = 2"
  defines "out \<equiv> take q jpeg @ w @ drop (q + 2) jpeg"
  shows "find_exif_app1 out = Some (pos, tlen)" "out = take pos jpeg @ take tlen (drop pos out) @ drop (pos + tlen) jpeg"
proof -
  have len: "length out = length jpeg" using t q w by (simp add: out_def)
  have low: "take k out = take k jpeg" if "k \<le> q" for k
    using that t q by (simp add: out_def)
  have at0: "app1_at jpeg pos tlen" by (rule find_exif_app1_found(2)[OF f])
  moreover have "out ! i = jpeg ! i" if "i < q" for i using low[of q] that by (metis nth_take order_refl)
  moreover have "take 6 (drop (pos + 4) out) = take 6 (drop (pos + 4) jpeg)"
    using low[of "pos + 10"] q by (simp add: take_drop add.commute)
  ultimately have at: "app1_at out pos tlen"
    using q len app1_at_header[OF at0] by (simp add: app1_at_def slice_def)
  show "find_exif_app1 out = Some (pos, tlen)"
    by (rule find_exif_app1_transfer[OF f low at]) (use q in simp)
  obtain d where d: "pos + tlen = q + 2 + d" using q(2) le_Suc_ex by blast
  have "drop (pos + tlen) out = drop (pos + tlen) jpeg"
    unfolding d using q t w by (simp add: out_def add.commute)
  moreover have "out = take pos out @ take tlen (drop pos out) @ drop (pos + tlen) out"
    by (metis append_take_drop_id drop_drop add.commute)
  ultimately show "out = take pos jpeg @ take tlen (drop pos out) @ drop (pos + tlen) jpeg"
    using low[of pos] q by simp
qed

lemma patched_atI:
  assumes f: "find_exif_app1 jpeg = Some (pos, tlen)" and t: "pos + tlen \<le> length jpeg"
    and g: "find_exif_app1 (take pos jpeg @ seg' @ drop (pos + tlen) jpeg) = Some (pos, length seg')"
    and l: "length seg' = tlen \<or> length seg' = tlen + 12"
  shows "\<exists>pre seg seg'' post. jpeg = pre @ seg @ post
     \<and> Done (take pos jpeg @ seg' @ drop (pos + tlen) jpeg) = Done (pre @ seg'' @ post)
     \<and> patched_at pre seg seg'' post"
proof -
  note fd = find_exif_app1_found[OF f]
  have j: "jpeg = take pos jpeg @ take tlen (drop pos jpeg) @ drop (pos + tlen) jpeg"
    by (metis append_take_drop_id drop_drop add.commute)
  have len: "length (take tlen (drop pos jpeg)) = tlen" "length (take pos jpeg) = pos"
    using t by simp_all
  have "take tlen (drop pos jpeg) \<noteq> []" using len fd(3) by auto
  then have "patched_at (take pos jpeg) (take tlen (drop pos jpeg)) seg' (drop (pos + tlen) jpeg)"
    unfolding patched_at_def j[symmetric] using f g l len fd(1) by auto
  with j show ?thesis by blast
qed

lemma splice_found:
  assumes f: "find_exif_app1 jpeg = Some (pos, tlen)" and t: "14 \<le> tlen" "pos + tlen \<le> length jpeg"
    and fit: "tlen + 10 \<le> 0xFFFF"
  shows "find_exif_app1 (take pos jpeg @ [0xFF, 0xE1] @ en_bytes Big 2 (tlen + 10)
      @ take 6 (drop (pos + 4) jpeg) @ rest) = Some (pos, tlen + 12)"
proof (rule find_exif_app1_transfer[OF f])
  show "take pos (take pos jpeg @ [0xFF, 0xE1] @ en_bytes Big 2 (tlen + 10)
      @ take 6 (drop (pos + 4) jpeg) @ rest) = take pos jpeg"
    using t by simp
  have "tlen + 10 + 2 = tlen + 12" "2 \<le> tlen + 10" by simp_all
  then show "app1_at (take pos jpeg @ [0xFF, 0xE1] @ en_bytes Big 2 (tlen + 10)
      @ take 6 (drop (pos + 4) jpeg) @ rest) pos (tlen + 12)"
    using app1_at_rebuilt[OF find_exif_app1_found(2)[OF f], of "tlen + 10" rest] fit by metis
qed

text \<open>C34. Making a JPEG carry an orientation never panics and touches nothing outside the Exif
  segment: whenever the function returns, the result is the input, or the input with a 36-byte Exif
  segment inserted behind the first marker where there was none, or the input with its Exif segment
  replaced by one of the same length or of 12 bytes more; a patched file is again a file whose
  first Exif segment is found at that place with the length it announces.\<close>

theorem ensure_touches_only_exif:
  assumes "ensure_exif_orientation kamadak iter jpeg v = Some r"
  shows "r = Done jpeg \<or>
    (\<exists>pre seg seg' post. jpeg = pre @ seg @ post \<and> r = Done (pre @ seg' @ post) \<and> patched_at pre seg seg' post)"
proof (cases "find_exif_app1 jpeg")
  case None
  show ?thesis
  proof (cases "r = Done jpeg")
    case False
    then have j: "4 \<le> length jpeg" "jpeg ! 0 = 0xFF" "jpeg ! 1 = 0xD8"
      and r: "r = Done (take 2 jpeg @ minimal_app1 v @ drop 2 jpeg)"
      using assms None
      by (auto simp: ensure_exif_orientation_def inject_exif_orientation_def Let_def split: if_splits)
    have "patched_at (take 2 jpeg) [] (minimal_app1 v) (drop 2 jpeg)"
      using None inject_found[OF j, of v] j
      by (simp add: patched_at_def minimal_app1_def exif_header_def)
    then show ?thesis using r by (metis append_Nil append_take_drop_id)
  qed simp
next
  case (Some loc)
  obtain pos tlen where loc: "find_exif_app1 jpeg = Some (pos, tlen)" using Some by (cases loc) auto
  show ?thesis
  proof (cases "r = Done jpeg")
    case False
    then obtain q where sp: "splice_orientation_into_app1 iter jpeg (pos, tlen) v = Some q"
      and q: "r = bind_out q (\<lambda>x. Done (case x of None \<Rightarrow> jpeg | Some out \<Rightarrow> out))"
      using assms loc by (auto simp: ensure_exif_orientation_def Let_def split: if_splits)
    from sp show ?thesis
    proof (cases rule: splice_results)
      case none
      then show ?thesis using q by simp
    next
      case (rewrite en ifd0 cnt tiff i)
      let ?q = "pos + 10 + (ifd0 + 2 + i * 12 + 8)"
      have "ifd0 + 2 + i * 12 + 12 \<le> length tiff" using ifd0_of_bounds(2)[OF rewrite(4)] rewrite(7) by simp
      then have b: "pos + 10 \<le> ?q" "?q + 2 \<le> pos + tlen" using rewrite(1,2,3) by simp_all
      note pr = patched_rewrite[OF loc rewrite(2) b, of "en_bytes en 2 (unat v)"]
      let ?out = "take ?q jpeg @ en_bytes en 2 (unat v) @ drop (?q + 2) jpeg"
      have eq: "?out = take pos jpeg @ take tlen (drop pos ?out) @ drop (pos + tlen) jpeg"
        by (rule pr(2)) simp
      have l: "length (take tlen (drop pos ?out)) = tlen" using b rewrite(2) by simp
      have "find_exif_app1 ?out = Some (pos, tlen)" by (rule pr(1)) simp
      then have "\<exists>pre seg seg'' post. jpeg = pre @ seg @ post
         \<and> Done (take pos jpeg @ take tlen (drop pos ?out) @ drop (pos + tlen) jpeg) = Done (pre @ seg'' @ post)
         \<and> patched_at pre seg seg'' post"
        by (intro patched_atI[OF loc rewrite(2)]) (simp_all only: eq[symmetric] l simp_thms)
      moreover have "r = Done ?out" using q rewrite(8) by simp
      ultimately show ?thesis by (simp only: eq[symmetric] simp_thms)
    next
      case (spliced en ifd0 cnt tiff marks)
      let ?seg = "[0xFF, 0xE1] @ en_bytes Big 2 (tlen + 10) @ take 6 (drop (pos + 4) jpeg)
          @ spliced_tiff iter tiff en ifd0 cnt v marks"
      have lt: "length (spliced_tiff iter tiff en ifd0 cnt v marks) = tlen - 10 + 12"
        using length_spliced_tiff[OF ifd0_of_bounds(2)[OF spliced(5)]] spliced(1,2,4) by simp
      have l: "length ?seg = tlen + 12" using spliced(1,2) lt by simp
      have "\<exists>pre seg seg'' post. jpeg = pre @ seg @ post
         \<and> Done (take pos jpeg @ ?seg @ drop (pos + tlen) jpeg) = Done (pre @ seg'' @ post)
         \<and> patched_at pre seg seg'' post"
      proof (rule patched_atI[OF loc spliced(2)])
        show "find_exif_app1 (take pos jpeg @ ?seg @ drop (pos + tlen) jpeg) = Some (pos, length ?seg)"
          unfolding l using splice_found[OF loc spliced(1-3),
            of "spliced_tiff iter tiff en ifd0 cnt v marks @ drop (pos + tlen) jpeg"] by simp
      qed (simp only: l simp_thms)
      moreover have "r = Done (take pos jpeg @ ?seg @ drop (pos + tlen) jpeg)" using q spliced(10) by simp
      ultimately show ?thesis by blast
    qed
  qed simp
qed

section \<open>The orientation that is read afterwards\<close>

lemma window_prefix: "p + k \<le> q \<Longrightarrow> q \<le> length t \<Longrightarrow> take k (drop p (take q t @ u)) = take k (drop p t)"
  by (simp add: drop_take)

lemma window_suffix: "q + 2 \<le> p \<Longrightarrow> length w = 2 \<Longrightarrow> q + 2 \<le> length t \<Longrightarrow>
  take k (drop p (take q t @ w @ drop (q + 2) t)) = take k (drop p t)"
proof -
  assume a: "q + 2 \<le> p" "length w = 2" "q + 2 \<le> length t"
  then obtain d where "p = q + 2 + d" using le_Suc_ex by blast
  with a show ?thesis by (simp add: add.commute)
qed

lemma u32_at_same: "take 4 (drop p t) = take 4 (drop q u) \<Longrightarrow> u32_at en t p = u32_at en u q"
proof -
  assume eq: "take 4 (drop p t) = take 4 (drop q u)"
  have "p + 4 \<le> length t \<longleftrightarrow> length (take 4 (drop p t)) = 4"
    "q + 4 \<le> length u \<longleftrightarrow> length (take 4 (drop q u)) = 4" by auto
  with eq have "p + 4 \<le> length t \<longleftrightarrow> q + 4 \<le> length u" by simp
  with eq show ?thesis by (simp add: u32_at_def endian_u32_def slice_def)
qed

text \<open>The tables two TIFF blocks show are the same when their windows agree.\<close>

lemma ifd0_of_cong:
  assumes x: "ifd0_of t = Some (en, ifd0, cnt)" and h: "take 8 u = take 8 t"
    and l: "ifd0 + 2 + cnt' * 12 + 4 \<le> length u" and c: "en_nat en (take 2 (drop ifd0 u)) = cnt'"
  shows "ifd0_of u = Some (en, ifd0, cnt')"
proof -
  note b = ifd0_of_bounds[OF x]
  have "take 2 (take 8 u) = take 2 (take 8 t)" "take 2 (drop 2 (take 8 u)) = take 2 (drop 2 (take 8 t))"
    "take 4 (drop 4 (take 8 u)) = take 4 (drop 4 (take 8 t))" using h by simp_all
  then have w: "take 2 u = take 2 t" "take 2 (drop 2 u) = take 2 (drop 2 t)"
    "take 4 (drop 4 u) = take 4 (drop 4 t)" by (simp_all add: drop_take)
  have m: "u16_at en u 2 = Some 42" using u16_at_same[OF w(2), of en] b(5) by simp
  have o: "en_nat en (take 4 (drop 4 u)) = ifd0" using w(3) b(6) by simp
  show ?thesis using b(1,4) l c m o w(1) by (simp add: ifd0_of_def Let_def)
qed

lemma rewritten_orientation:
  fixes v :: "16 word"
  assumes x: "ifd0_of t = Some (en, ifd0, cnt)" and i: "i < cnt"
    and s: "orientation_slots en t ifd0 cnt \<noteq> []" "last (orientation_slots en t ifd0 cnt) = i"
  defines "q \<equiv> ifd0 + 2 + i * 12 + 8"
  defines "u \<equiv> take q t @ en_bytes en 2 (unat v) @ drop (q + 2) t"
  shows "tiff_orientation u =
     (if u16_at en t (ifd0 + 2 + i * 12 + 2) = Some 3 \<and> u32_at en t (ifd0 + 2 + i * 12 + 4) = Some 1
      then Some v else None)"
proof -
  note b = ifd0_of_bounds[OF x]
  have ql: "q + 4 \<le> length t" using b(2) i by (simp add: q_def)
  have low: "take k (drop p u) = take k (drop p t)" if "p + k \<le> q" for p k
    unfolding u_def using that ql by (intro window_prefix) simp_all
  have high: "take k (drop p u) = take k (drop p t)" if "q + 2 \<le> p" for p k
    unfolding u_def using that ql by (intro window_suffix) simp_all
  have io: "ifd0_of u = Some (en, ifd0, cnt)"
  proof (rule ifd0_of_cong[OF x])
    show "take 8 u = take 8 t" using low[of 0 8] b(1) by (simp add: q_def)
    show "ifd0 + 2 + cnt * 12 + 4 \<le> length u" using b(2) ql by (simp add: u_def)
    show "en_nat en (take 2 (drop ifd0 u)) = cnt" using low[of ifd0 2] b(7) by (simp add: q_def)
  qed
  have "take 2 (drop (ifd0 + 2 + j * 12) u) = take 2 (drop (ifd0 + 2 + j * 12) t)" for j
  proof (cases "j \<le> i")
    case True
    then show ?thesis by (intro low) (simp add: q_def)
  next
    case False
    then have "i + 1 \<le> j" by simp
    then show ?thesis by (intro high) (simp add: q_def)
  qed
  then have tg: "u16_at en u (ifd0 + 2 + j * 12) = u16_at en t (ifd0 + 2 + j * 12)" for j
    by (rule u16_at_same)
  have sl: "orientation_slots en u ifd0 cnt = orientation_slots en t ifd0 cnt"
    unfolding orientation_slots_def tg ..
  have ty: "u16_at en u (ifd0 + 2 + i * 12 + 2) = u16_at en t (ifd0 + 2 + i * 12 + 2)"
    by (rule u16_at_same, rule low) (simp add: q_def)
  have cn: "u32_at en u (ifd0 + 2 + i * 12 + 4) = u32_at en t (ifd0 + 2 + i * 12 + 4)"
    by (rule u32_at_same, rule low) (simp add: q_def)
  have "take 2 (drop q u) = en_bytes en 2 (unat v)" using ql by (simp add: u_def)
  then have "u16_at en u q = Some v" using u16_at_written by fastforce
  then show ?thesis
    using s ty cn unfolding tiff_orientation_def io sl option.case prod.case short_value_def q_def
    by (cases "orientation_slots en t ifd0 cnt") auto
qed

lemma minimal_orientation: "tiff_orientation (drop 10 (minimal_app1 v)) = Some v"
proof -
  define a where "a = (ucast v :: byte)"
  define c where "c = (ucast (drop_bit 8 v) :: byte)"
  have t: "drop 10 (minimal_app1 v) = [0x49, 0x49, 0x2A, 0, 8, 0, 0, 0, 1, 0, 0x12, 1, 3, 0, 1, 0, 0, 0, a, c,
      0, 0, 0, 0, 0, 0]"
    by (simp add: minimal_app1_def exif_header_def a_def c_def str_bytes_def numeral_eq_Suc)
  have "unat a = unat v mod 256" "unat c = unat v div 256 mod 256"
    by (simp_all add: a_def c_def unsigned_ucast_eq take_bit_eq_mod drop_bit_eq_div unsigned_drop_bit_eq
        unat_div_distrib)
  moreover have "unat v < 65536" using unsigned_less[of v, where 'a = nat] by simp
  ultimately have "unat a + 256 * unat c = unat v" by simp
  moreover have "(word_of_nat (unat v) :: 16 word) = v" by simp
  ultimately have "word_of_nat (unat a + 256 * unat c) = v" by metis
  then have v: "ucast a + 256 * ucast c = v" by simp
  show ?thesis
    unfolding t
    by (simp add: tiff_orientation_def ifd0_of_def endian_parse_def str_bytes_def en_nat_def Let_def
        u16_at_def u32_at_def endian_u16_def endian_u32_def slice_def orientation_slots_def
        short_value_def ORIENTATION_TAG_def v)
qed

text \<open>The windows of a spliced block.\<close>

lemma concat_chunk:
  "\<forall>x\<in>set xs. length (f x) = k \<Longrightarrow> i < length xs \<Longrightarrow>
   take k (drop (i * k) (concat (map f xs) @ r)) = f (xs ! i)"
proof (induction xs arbitrary: i)
  case (Cons x xs)
  then show ?case by (cases i) simp_all
qed simp

lemma spliced_windows:
  fixes v :: "16 word" and en :: endian and marks :: "nat list" and iter :: "nat list \<Rightarrow> nat list"
  assumes fit: "ifd0 + 2 + cnt * 12 + 4 \<le> length tiff"
  defines "stop \<equiv> ifd0 + 2 + cnt * 12"
  defines "u \<equiv> spliced_tiff iter tiff en ifd0 cnt v marks"
  defines "nxt \<equiv> en_nat en (take 4 (drop stop tiff))"
  shows "take ifd0 u = take ifd0 tiff"
    and "take 2 (drop ifd0 u) = en_bytes en 2 (cnt + 1)"
    and "\<And>i. i < cnt \<Longrightarrow> take 12 (drop (ifd0 + 2 + i * 12) u) = moved_entry tiff en marks (ifd0 + 2 + i * 12)"
    and "take 12 (drop stop u) = orientation_entry en v"
    and "take 4 (drop (stop + 12) u) = en_bytes en 4 (if stop \<in> set marks then nxt + 12 else nxt)"
    and "drop (stop + 16) u = move_fields tiff en (stop + 4) (iter marks) (drop (stop + 4) tiff)"
proof -
  let ?C = "concat (map (\<lambda>i. moved_entry tiff en marks (ifd0 + 2 + i * 12)) [0..<cnt])"
  let ?N = "en_bytes en 4 (if stop \<in> set marks then nxt + 12 else nxt)"
  let ?R = "move_fields tiff en (stop + 4) (iter marks) (drop (stop + 4) tiff)"
  have u: "u = take ifd0 tiff @ en_bytes en 2 (cnt + 1) @ ?C @ orientation_entry en v @ ?N @ ?R"
    unfolding u_def spliced_tiff_def Let_def stop_def[symmetric] nxt_def[symmetric] ..
  have ent: "\<forall>i\<in>set [0..<cnt]. ifd0 + 2 + i * 12 + 12 \<le> length tiff" using fit by auto
  have lc: "length ?C = cnt * 12" using length_concat_entries[OF ent, of en marks] by simp
  have lh: "length (take ifd0 tiff) = ifd0" using fit by simp
  show "take ifd0 u = take ifd0 tiff" "take 2 (drop ifd0 u) = en_bytes en 2 (cnt + 1)"
    unfolding u using lh by simp_all
  show "take 12 (drop (ifd0 + 2 + i * 12) u) = moved_entry tiff en marks (ifd0 + 2 + i * 12)" if i: "i < cnt" for i
  proof -
    have "drop (ifd0 + 2 + i * 12) u = drop (i * 12) (?C @ orientation_entry en v @ ?N @ ?R)"
      unfolding u using lh by simp
    moreover have "\<forall>i\<in>set [0..<cnt]. length (moved_entry tiff en marks (ifd0 + 2 + i * 12)) = 12"
      using ent length_moved_entry by blast
    then have "take 12 (drop (i * 12) (?C @ orientation_entry en v @ ?N @ ?R))
        = moved_entry tiff en marks (ifd0 + 2 + ([0..<cnt] ! i) * 12)"
      by (rule concat_chunk) (use i in simp)
    moreover have "[0..<cnt] ! i = i" using i by simp
    ultimately show ?thesis by (simp only:)
  qed
  have d: "drop stop u = orientation_entry en v @ ?N @ ?R"
    unfolding u using lh lc by (simp add: stop_def)
  show "take 12 (drop stop u) = orientation_entry en v" unfolding d by simp
  have "drop (stop + 12) u = drop 12 (drop stop u)" "drop (stop + 16) u = drop 16 (drop stop u)"
    by (simp_all add: add.commute)
  then show "take 4 (drop (stop + 12) u) = ?N" "drop (stop + 16) u = ?R" unfolding d by simp_all
qed

lemma moved_entry_low: "p + k \<le> 8 \<Longrightarrow> e + 12 \<le> length tiff \<Longrightarrow>
   take k (drop p (moved_entry tiff en marks e)) = take k (drop (e + p) tiff)"
  by (simp add: moved_entry_def drop_take add.commute)

text \<open>Windows of a window.\<close>

lemma sub_window: "take n (drop e u) = w \<Longrightarrow> p + k \<le> n \<Longrightarrow> take k (drop (e + p) u) = take k (drop p w)"
  by (auto simp: drop_take add.commute)

lemma spliced_orientation:
  assumes x: "ifd0_of tiff = Some (en, ifd0, cnt)" and c: "cnt < 0xFFFF"
    and none: "orientation_slots en tiff ifd0 cnt = []"
  shows "tiff_orientation (spliced_tiff iter tiff en ifd0 cnt v marks) = Some v"
proof -
  define u where "u = spliced_tiff iter tiff en ifd0 cnt v marks"
  note b = ifd0_of_bounds[OF x]
  note w = spliced_windows[OF b(2), where iter = iter and en = en and v = v and marks = marks, folded u_def]
  define stop where "stop = ifd0 + 2 + cnt * 12"
  have lu: "length u = length tiff + 12" unfolding u_def by (rule length_spliced_tiff[OF b(2)])
  have io: "ifd0_of u = Some (en, ifd0, cnt + 1)"
  proof (rule ifd0_of_cong[OF x])
    have "take 8 (take ifd0 u) = take 8 (take ifd0 tiff)" by (simp only: w(1))
    then show "take 8 u = take 8 tiff" using b(1) by (simp add: min_def)
    show "ifd0 + 2 + (cnt + 1) * 12 + 4 \<le> length u" using lu b(2) by simp
    show "en_nat en (take 2 (drop ifd0 u)) = cnt + 1" using w(2) c by (simp add: en_nat_bytes)
  qed
  have tg: "u16_at en u (ifd0 + 2 + j * 12) = u16_at en tiff (ifd0 + 2 + j * 12)" if j: "j < cnt" for j
  proof (rule u16_at_same)
    have e: "ifd0 + 2 + j * 12 + 12 \<le> length tiff" using b(2) j by simp
    show "take 2 (drop (ifd0 + 2 + j * 12) u) = take 2 (drop (ifd0 + 2 + j * 12) tiff)"
      using sub_window[OF w(3)[OF j], of 0 2] moved_entry_low[OF _ e, of 0 2 en marks] by simp
  qed
  have oe: "take k (drop (stop + p) u) = take k (drop p (orientation_entry en v))" if "p + k \<le> 12" for p k
    by (rule sub_window[OF w(4)[folded stop_def] that])
  have f: "u16_at en u stop = Some 0x0112" "u16_at en u (stop + 2) = Some 3"
      "u32_at en u (stop + 4) = Some 1" "u16_at en u (stop + 8) = Some v"
    using oe[of 0 2] oe[of 2 2] oe[of 4 4] oe[of 8 2]
      u16_at_written[of stop u en "0x0112"] u16_at_written[of "stop + 2" u en 3]
      u32_at_written[of "stop + 4" u en 1] u16_at_written[of "stop + 8" u en "unat v"]
    by (simp_all add: orientation_entry_def)
  have "orientation_slots en u ifd0 (cnt + 1) = [cnt]"
  proof -
    have "filter (\<lambda>i. u16_at en u (ifd0 + 2 + i * 12) = Some ORIENTATION_TAG) [0..<cnt]
        = orientation_slots en tiff ifd0 cnt"
      unfolding orientation_slots_def by (rule filter_cong) (simp_all only: tg set_upt atLeastLessThan_iff refl)
    then show ?thesis using f(1) none by (simp add: orientation_slots_def ORIENTATION_TAG_def stop_def)
  qed
  then show ?thesis
    unfolding u_def[symmetric] tiff_orientation_def io
    using f by (simp add: short_value_def stop_def)
qed

text \<open>An orientation entry that is not a single SHORT, whose value bytes mean something else.\<close>

definition odd_orientation :: "bytes \<Rightarrow> bool" where
  "odd_orientation jpeg =
     (case find_exif_app1 jpeg of
        None \<Rightarrow> False
      | Some (pos, tlen) \<Rightarrow>
          (case slice jpeg (pos + 10) (pos + tlen) of
             None \<Rightarrow> False
           | Some tiff \<Rightarrow>
               (case ifd0_of tiff of
                  None \<Rightarrow> False
                | Some (en, ifd0, cnt) \<Rightarrow>
                    orientation_slots en tiff ifd0 cnt \<noteq> [] \<and> tiff_orientation tiff = None)))"

lemma exif_orientation_of:
  "find_exif_app1 jpeg = Some (pos, tlen) \<Longrightarrow> slice jpeg (pos + 10) (pos + tlen) = Some tiff \<Longrightarrow>
   exif_orientation jpeg = tiff_orientation tiff"
  by (simp add: exif_orientation_def)

lemma slice_tiff: "10 \<le> tlen \<Longrightarrow> pos + tlen \<le> length jpeg \<Longrightarrow>
   slice jpeg (pos + 10) (pos + tlen) = Some (drop (pos + 10) (take (pos + tlen) jpeg))"
  by (simp add: slice_def take_drop add.commute)

lemma splice_sets_orientation:
  assumes f: "find_exif_app1 jpeg = Some (pos, tlen)"
    and sp: "splice_orientation_into_app1 iter jpeg (pos, tlen) v = Some (Done (Some out))"
    and odd: "\<not> odd_orientation jpeg"
  shows "exif_orientation out = Some v"
  using sp
proof (cases rule: splice_results)
  case none
  then show ?thesis by simp
next
  case (rewrite en ifd0 cnt tiff i)
  let ?q = "ifd0 + 2 + i * 12 + 8"
  let ?w = "en_bytes en 2 (unat v)"
  have lt: "length tiff = tlen - 10" using rewrite(1-3) by simp
  have e: "ifd0 + 2 + i * 12 + 12 \<le> length tiff" using ifd0_of_bounds(2)[OF rewrite(4)] rewrite(7) by simp
  then have b: "pos + 10 \<le> pos + 10 + ?q" "pos + 10 + ?q + 2 \<le> pos + tlen" using lt rewrite(1) by simp_all
  have out: "out = take (pos + 10 + ?q) jpeg @ ?w @ drop (pos + 10 + ?q + 2) jpeg" using rewrite(8) by simp
  have fo: "find_exif_app1 out = Some (pos, tlen)"
    unfolding out by (rule patched_rewrite(1)[OF f rewrite(2) b]) simp
  have lo: "pos + tlen \<le> length out" using rewrite(2) b by (simp add: out)
  have "drop (pos + 10) (take (pos + tlen) out) = take ?q tiff @ ?w @ drop (?q + 2) tiff"
    unfolding out rewrite(3) using b rewrite(2) by (simp add: drop_take add.commute)
  then have "exif_orientation out = tiff_orientation (take ?q tiff @ ?w @ drop (?q + 2) tiff)"
    using exif_orientation_of[OF fo slice_tiff[OF _ lo]] rewrite(1) by simp
  also have "\<dots> = Some v"
  proof -
    have "tiff_orientation tiff \<noteq> None"
      using odd f slice_tiff[OF _ rewrite(2)] rewrite(1,3-5) by (simp add: odd_orientation_def)
    then have "u16_at en tiff (ifd0 + 2 + i * 12 + 2) = Some 3 \<and> u32_at en tiff (ifd0 + 2 + i * 12 + 4) = Some 1"
      using rewrite(4-6) by (auto simp: tiff_orientation_def short_value_def split: list.splits if_splits)
    then show ?thesis
      using rewritten_orientation[OF rewrite(4,7,5) rewrite(6)[symmetric], of v] by simp
  qed
  finally show ?thesis .
next
  case (spliced en ifd0 cnt tiff marks)
  let ?u = "spliced_tiff iter tiff en ifd0 cnt v marks"
  let ?h = "take pos jpeg @ [0xFF, 0xE1] @ en_bytes Big 2 (tlen + 10) @ take 6 (drop (pos + 4) jpeg)"
  have out: "out = ?h @ ?u @ drop (pos + tlen) jpeg" using spliced(10) by simp
  have fo: "find_exif_app1 out = Some (pos, tlen + 12)"
    unfolding out using splice_found[OF f spliced(1-3), of "?u @ drop (pos + tlen) jpeg"] by simp
  have lu: "length ?u = tlen - 10 + 12"
    using length_spliced_tiff[OF ifd0_of_bounds(2)[OF spliced(5)]] spliced(1,2,4) by simp
  have "length ?h = pos + 10" using spliced(1,2) by simp
  then have "slice out (pos + 10) (pos + (tlen + 12)) = Some ?u"
    using lu spliced(1) by (intro slice_mid[OF out]) simp_all
  then have "exif_orientation out = tiff_orientation ?u" by (rule exif_orientation_of[OF fo])
  also have "\<dots> = Some v" by (rule spliced_orientation[OF spliced(5,7,8)])
  finally show ?thesis .
qed

lemma inject_orientation:
  assumes "4 \<le> length jpeg" "jpeg ! 0 = 0xFF" "jpeg ! 1 = 0xD8" "find_exif_app1 jpeg = None"
  shows "exif_orientation (inject_exif_orientation jpeg v) = Some v"
proof -
  let ?j = "take 2 jpeg @ minimal_app1 v @ drop 2 jpeg"
  have l: "length (minimal_app1 v) = 36" by (simp add: minimal_app1_def exif_header_def)
  have eq: "?j = (take 2 jpeg @ take 10 (minimal_app1 v)) @ drop 10 (minimal_app1 v) @ drop 2 jpeg"
    by (metis append.assoc append_take_drop_id)
  have "slice ?j (2 + 10) (2 + 36) = Some (drop 10 (minimal_app1 v))"
    using assms(1) l by (intro slice_mid[OF eq]) simp_all
  then have "exif_orientation ?j = tiff_orientation (drop 10 (minimal_app1 v))"
    by (rule exif_orientation_of[OF inject_found[OF assms(1-3)]])
  then show ?thesis using assms by (simp add: inject_exif_orientation_def minimal_orientation)
qed

lemma splice_rewrites:
  assumes f: "find_exif_app1 jpeg = Some (pos, tlen)" and x: "exif_orientation jpeg \<noteq> None"
  shows "(\<exists>out. splice_orientation_into_app1 iter jpeg (pos, tlen) v = Some (Done (Some out)))
     \<and> \<not> odd_orientation jpeg"
proof -
  note fd = find_exif_app1_found[OF f]
  obtain tiff where sl: "slice jpeg (pos + 10) (pos + tlen) = Some tiff" and o: "tiff_orientation tiff \<noteq> None"
    using x f by (auto simp: exif_orientation_def split: option.splits)
  obtain en ifd0 cnt where io: "ifd0_of tiff = Some (en, ifd0, cnt)"
    and s: "orientation_slots en tiff ifd0 cnt \<noteq> []"
    using o by (auto simp: tiff_orientation_def split: option.splits list.splits)
  note b = ifd0_of_bounds[OF io]
  have t: "10 \<le> tlen" "pos + tlen \<le> length jpeg" using sl by (auto simp: slice_def split: if_splits)
  then have tf: "tiff = drop (pos + 10) (take (pos + tlen) jpeg)" using sl slice_tiff[OF t] by simp
  have lt: "length tiff = tlen - 10" using t tf by simp
  have t14: "14 \<le> tlen" using lt b(3) t(1) by simp
  define i where "i = last (orientation_slots en tiff ifd0 cnt)"
  have i: "i < cnt" unfolding i_def by (rule orientation_slots_bound, rule last_in_set, rule s)
  have c: "\<not> (cnt = 0 \<or> cnt \<ge> 0xFFFF)" using b(2) lt fd(4) i by simp
  have fit: "pos + 10 + (ifd0 + 2 + i * 12 + 8) + 2 \<le> length jpeg" using b(2) i lt t by simp
  have "splice_orientation_into_app1 iter jpeg (pos, tlen) v
      = Some (rewrite_value jpeg pos en (ifd0 + 2 + i * 12 + 8) v)"
    using splice_eq[OF t14 t(2), of iter v, folded tf] io c s
    by (cases "orientation_slots en tiff ifd0 cnt") (simp_all add: i_def del: last.simps)
  then show ?thesis
    using rewrite_value_eq[OF fit] f sl io o by (simp add: odd_orientation_def)
qed

text \<open>C33. The requested orientation is the one that is read afterwards.  For a valid orientation
  that the file does not yet carry (and that is not the default on a file without one) and a JPEG
  with a start of scan: without an Exif segment, or with one whose IFD0 carries an orientation, the
  call returns a file that reads back the requested value; and whatever the file, if the call returns
  something else than its input, that reads back the requested value, unless the file had an
  orientation entry that is not a single SHORT.\<close>

theorem ensure_sets_orientation:
  assumes v: "1 \<le> v" "v \<le> 8" "kamadak jpeg \<noteq> Some v" "v \<noteq> 1 \<or> kamadak jpeg \<noteq> None"
    and j: "has_sos jpeg" "4 \<le> length jpeg" "jpeg ! 0 = 0xFF" "jpeg ! 1 = 0xD8"
  shows "(find_exif_app1 jpeg = None \<or> exif_orientation jpeg \<noteq> None \<longrightarrow>
       (\<exists>out. ensure_exif_orientation kamadak iter jpeg v = Some (Done out) \<and> exif_orientation out = Some v))
    \<and> (\<forall>out. ensure_exif_orientation kamadak iter jpeg v = Some (Done out) \<longrightarrow> out \<noteq> jpeg \<longrightarrow>
         \<not> odd_orientation jpeg \<longrightarrow> exif_orientation out = Some v)"
proof (cases "find_exif_app1 jpeg")
  case None
  then have "ensure_exif_orientation kamadak iter jpeg v = Some (Done (inject_exif_orientation jpeg v))"
    using v j by (auto simp: ensure_exif_orientation_def Let_def)
  then show ?thesis using inject_orientation[OF j(2-4) None] by simp
next
  case (Some loc)
  obtain pos tlen where loc: "find_exif_app1 jpeg = Some (pos, tlen)" using Some by (cases loc) auto
  have en: "ensure_exif_orientation kamadak iter jpeg v =
      map_option (\<lambda>r. bind_out r (\<lambda>x. Done (case x of None \<Rightarrow> jpeg | Some out \<Rightarrow> out)))
        (splice_orientation_into_app1 iter jpeg (pos, tlen) v)"
    using v j loc by (auto simp: ensure_exif_orientation_def Let_def)
  have "exif_orientation out = Some v"
    if o: "ensure_exif_orientation kamadak iter jpeg v = Some (Done out)" "out \<noteq> jpeg" "\<not> odd_orientation jpeg" for out
  proof -
    obtain r where r: "splice_orientation_into_app1 iter jpeg (pos, tlen) v = Some r"
      "bind_out r (\<lambda>x. Done (case x of None \<Rightarrow> jpeg | Some out \<Rightarrow> out)) = Done out"
      using o(1) en by auto
    then have "r = Done (Some out)"
      using o(2) by (cases r) (auto split: option.splits)
    then show ?thesis using splice_sets_orientation[OF loc _ o(3)] r(1) by simp
  qed
  moreover have "\<exists>out. ensure_exif_orientation kamadak iter jpeg v = Some (Done out) \<and> exif_orientation out = Some v"
    if x: "exif_orientation jpeg \<noteq> None"
  proof -
    obtain out where "splice_orientation_into_app1 iter jpeg (pos, tlen) v = Some (Done (Some out))"
      and "\<not> odd_orientation jpeg" using splice_rewrites[OF loc x, of iter v] by blast
    then show ?thesis using splice_sets_orientation[OF loc] en by auto
  qed
  ultimately show ?thesis using loc by simp
qed

section \<open>The walk over the directories\<close>

lemma u16_at_len: "u16_at en t p = Some w \<Longrightarrow> p + 2 \<le> length t"
  by (simp add: u16_at_iff)

fun pc_table :: "walk_pc \<Rightarrow> nat" where
  "pc_table (Walk_ifd off d) = off"
| "pc_table (At_entry off n i d) = off"

lemma entry_act_Descend: "entry_act tiff en e4 d e = Some (Descend old) \<Longrightarrow> e4 \<le> old \<and> old \<le> length tiff"
  by (auto simp: entry_act_def bind_eq_Some_conv Let_def split: if_splits)

lemma chain_act_Descend: "chain_act tiff en e4 d p = Some (Descend nxt) \<Longrightarrow> e4 \<le> nxt \<and> nxt \<le> length tiff"
  by (auto simp: chain_act_def bind_eq_Some_conv Let_def split: if_splits)

text \<open>The walk as a big-step relation: one rule per way through the function, so that what a
  returning walk does is proved by rule induction.\<close>

definition table_size :: "bytes \<Rightarrow> endian \<Rightarrow> nat \<Rightarrow> nat option" where
  "table_size tiff en off =
     (case u16_at en tiff off of
        None \<Rightarrow> None
      | Some nw \<Rightarrow>
          if unat nw = 0 \<or> unat nw > 0x2000 \<or> off + 2 + unat nw * 12 + 4 > length tiff then None
          else Some (unat nw))"

inductive walks :: "bytes \<Rightarrow> endian \<Rightarrow> nat \<Rightarrow> walk_pc \<Rightarrow> nat list \<Rightarrow> nat list option \<Rightarrow> bool"
  for tiff :: bytes and en :: endian and e4 :: nat where
  bad_table: "table_size tiff en off = None \<Longrightarrow> walks tiff en e4 (Walk_ifd off d) marks None"
| table: "table_size tiff en off = Some n \<Longrightarrow> walks tiff en e4 (At_entry off n 0 d) marks r \<Longrightarrow>
    walks tiff en e4 (Walk_ifd off d) marks r"
| bad_entry: "i < n \<Longrightarrow> entry_act tiff en e4 d (off + 2 + i * 12) = None \<Longrightarrow>
    walks tiff en e4 (At_entry off n i d) marks None"
| skip_entry: "i < n \<Longrightarrow> entry_act tiff en e4 d (off + 2 + i * 12) = Some Skip \<Longrightarrow>
    walks tiff en e4 (At_entry off n (i + 1) d) marks r \<Longrightarrow> walks tiff en e4 (At_entry off n i d) marks r"
| mark_entry: "i < n \<Longrightarrow> entry_act tiff en e4 d (off + 2 + i * 12) = Some Mark \<Longrightarrow>
    walks tiff en e4 (At_entry off n (i + 1) d) (List.insert (off + 2 + i * 12 + 8) marks) r \<Longrightarrow>
    walks tiff en e4 (At_entry off n i d) marks r"
| bad_sub: "i < n \<Longrightarrow> entry_act tiff en e4 d (off + 2 + i * 12) = Some (Descend old) \<Longrightarrow>
    walks tiff en e4 (Walk_ifd old (d + 1)) (List.insert (off + 2 + i * 12 + 8) marks) None \<Longrightarrow>
    walks tiff en e4 (At_entry off n i d) marks None"
| sub_entry: "i < n \<Longrightarrow> entry_act tiff en e4 d (off + 2 + i * 12) = Some (Descend old) \<Longrightarrow>
    walks tiff en e4 (Walk_ifd old (d + 1)) (List.insert (off + 2 + i * 12 + 8) marks) (Some ms) \<Longrightarrow>
    walks tiff en e4 (At_entry off n (i + 1) d) ms r \<Longrightarrow> walks tiff en e4 (At_entry off n i d) marks r"
| bad_chain: "chain_act tiff en e4 d (off + 2 + n * 12) = None \<Longrightarrow> \<not> i < n \<Longrightarrow>
    walks tiff en e4 (At_entry off n i d) marks None"
| no_chain: "chain_act tiff en e4 d (off + 2 + n * 12) = Some Skip \<Longrightarrow> \<not> i < n \<Longrightarrow>
    walks tiff en e4 (At_entry off n i d) marks (Some marks)"
| mark_chain: "chain_act tiff en e4 d (off + 2 + n * 12) = Some Mark \<Longrightarrow> \<not> i < n \<Longrightarrow>
    walks tiff en e4 (At_entry off n i d) marks (Some (List.insert (off + 2 + n * 12) marks))"
| chain: "chain_act tiff en e4 d (off + 2 + n * 12) = Some (Descend nxt) \<Longrightarrow> \<not> i < n \<Longrightarrow>
    walks tiff en e4 (Walk_ifd nxt (d + 1)) (List.insert (off + 2 + n * 12) marks) r \<Longrightarrow>
    walks tiff en e4 (At_entry off n i d) marks r"

lemma walk_table: "walk_ifd tiff en e4 (Walk_ifd off d) marks =
   (case table_size tiff en off of
      None \<Rightarrow> Some None
    | Some n \<Rightarrow> walk_ifd tiff en e4 (At_entry off n 0 d) marks)"
  by (subst walk_ifd.simps, cases "u16_at en tiff off") (auto simp: table_size_def dest: u16_at_len)

lemmas walk_entry = walk_ifd.simps[of tiff en e4 "At_entry off n i d" marks, unfolded walk_pc.case]
  for tiff en e4 off n i d marks

lemma walks_walk_ifd: "walks tiff en e4 pc marks r \<Longrightarrow> walk_ifd tiff en e4 pc marks = Some r"
  by (induction rule: walks.induct) (simp_all add: walk_table walk_entry)

lemma walk_ifd_walks: "walk_ifd tiff en e4 pc marks = Some r \<Longrightarrow> walks tiff en e4 pc marks r"
proof (rule walk_ifd.raw_induct[where P = walks])
  fix walk tiff en e4 pc marks r
  assume IH: "\<And>tiff en e4 pc marks r. walk tiff en e4 pc marks = Some r \<Longrightarrow> walks tiff en e4 pc marks r"
  assume body: "(case pc of
        Walk_ifd off depth \<Rightarrow>
          if off + 2 > length tiff then Some None
          else (case u16_at en tiff off of
                  None \<Rightarrow> Some None
                | Some nw \<Rightarrow>
                    if unat nw = 0 \<or> unat nw > 0x2000 \<or> off + 2 + unat nw * 12 + 4 > length tiff
                    then Some None
                    else walk tiff en e4 (At_entry off (unat nw) 0 depth) marks)
      | At_entry off n i depth \<Rightarrow>
          if i < n then
            (case entry_act tiff en e4 depth (off + 2 + i * 12) of
               None \<Rightarrow> Some None
             | Some Skip \<Rightarrow> walk tiff en e4 (At_entry off n (i + 1) depth) marks
             | Some Mark \<Rightarrow>
                 walk tiff en e4 (At_entry off n (i + 1) depth)
                   (List.insert (off + 2 + i * 12 + 8) marks)
             | Some (Descend old) \<Rightarrow>
                 Option.bind (walk tiff en e4 (Walk_ifd old (depth + 1))
                                (List.insert (off + 2 + i * 12 + 8) marks)) (\<lambda>r.
                   case r of
                     None \<Rightarrow> Some None
                   | Some marks' \<Rightarrow> walk tiff en e4 (At_entry off n (i + 1) depth) marks'))
          else
            (case chain_act tiff en e4 depth (off + 2 + n * 12) of
               None \<Rightarrow> Some None
             | Some Skip \<Rightarrow> Some (Some marks)
             | Some Mark \<Rightarrow> Some (Some (List.insert (off + 2 + n * 12) marks))
             | Some (Descend nxt) \<Rightarrow>
                 walk tiff en e4 (Walk_ifd nxt (depth + 1))
                   (List.insert (off + 2 + n * 12) marks))) = Some r"
  show "walks tiff en e4 pc marks r"
  proof (cases pc)
    case (Walk_ifd off d)
    show ?thesis
    proof (cases "table_size tiff en off")
      case None
      then have "r = None" using body Walk_ifd
        by (auto simp: table_size_def split: option.splits if_splits)
      then show ?thesis using None Walk_ifd by (simp add: bad_table)
    next
      case (Some n)
      then have "walk tiff en e4 (At_entry off n 0 d) marks = Some r" using body Walk_ifd
        by (cases "u16_at en tiff off") (auto simp: table_size_def dest: u16_at_len split: if_splits)
      then show ?thesis using table[OF Some] IH Walk_ifd by blast
    qed
  next
    case (At_entry off n i d)
    note bd = body[unfolded At_entry walk_pc.case]
    show ?thesis
    proof (cases "i < n")
      case True
      note b = bd[unfolded if_P[OF True]]
      show ?thesis
      proof (cases "entry_act tiff en e4 d (off + 2 + i * 12)")
        case None
        then show ?thesis using b bad_entry[OF True None] At_entry by simp
      next
        case (Some act)
        show ?thesis
        proof (cases act)
          case Skip
          then show ?thesis using b Some skip_entry[OF True] IH At_entry by simp
        next
          case Mark
          then show ?thesis using b Some mark_entry[OF True] IH At_entry by simp
        next
          case (Descend old)
          note act = Some[unfolded Descend]
          let ?m = "List.insert (off + 2 + i * 12 + 8) marks"
          obtain y where y: "walk tiff en e4 (Walk_ifd old (d + 1)) ?m = Some y"
            and r: "(case y of None \<Rightarrow> Some None | Some ms \<Rightarrow> walk tiff en e4 (At_entry off n (i + 1) d) ms) = Some r"
            using b[unfolded act option.case field_act.case] unfolding bind_eq_Some_conv by blast
          note sub = IH[OF y]
          show ?thesis
          proof (cases y)
            case None
            then show ?thesis using r bad_sub[OF True act sub[unfolded None]] At_entry by simp
          next
            case (Some ms)
            have "walks tiff en e4 (At_entry off n (i + 1) d) ms r"
              by (rule IH) (use r Some in simp)
            then show ?thesis using sub_entry[OF True act sub[unfolded Some]] At_entry by simp
          qed
        qed
      qed
    next
      case False
      note b = bd[unfolded if_not_P[OF False]]
      show ?thesis
        using b bad_chain[OF _ False] no_chain[OF _ False] mark_chain[OF _ False] chain[OF _ False] IH At_entry
        by (auto split: option.splits field_act.splits)
    qed
  qed
qed

text \<open>Below the end of IFD0 a nested walk marks nothing.\<close>

lemma walk_marks_high:
  "walks tiff en e4 pc marks r \<Longrightarrow> e4 \<le> pc_table pc \<Longrightarrow> r = Some ms \<Longrightarrow> x < e4 \<Longrightarrow>
   x \<in> set ms \<longleftrightarrow> x \<in> set marks"
proof (induction arbitrary: ms rule: walks.induct)
  case (mark_entry i n d off marks r)
  have "x \<noteq> off + 2 + i * 12 + 8" using mark_entry.prems by simp
  then show ?case using mark_entry.IH[OF _ mark_entry.prems(2,3)] mark_entry.prems(1) by simp
next
  case (sub_entry i n d off old marks ms' r)
  have "x \<noteq> off + 2 + i * 12 + 8" using sub_entry.prems by simp
  then show ?case
    using sub_entry.IH(1)[OF _ refl sub_entry.prems(3)] sub_entry.IH(2)[OF _ sub_entry.prems(2,3)]
      entry_act_Descend[OF sub_entry.hyps(2)] sub_entry.prems(1) by simp
next
  case (mark_chain d off n i marks)
  have "x \<noteq> off + 2 + n * 12" using mark_chain.prems by simp
  then show ?case using mark_chain.prems by auto
next
  case (chain d off n nxt i marks r)
  have "x \<noteq> off + 2 + n * 12" using chain.prems by simp
  then show ?case
    using chain.IH[OF _ chain.prems(2,3)] chain_act_Descend[OF chain.hyps(1)] by simp
qed simp_all

text \<open>Of IFD0 itself exactly the fields are marked that the walk decides to mark.\<close>

lemma walk_marks_ifd0:
  "walks tiff en e4 pc marks r \<Longrightarrow> pc = At_entry off n i d \<Longrightarrow> off + 2 + n * 12 + 4 = e4 \<Longrightarrow> i \<le> n \<Longrightarrow>
   r = Some ms \<Longrightarrow> j < n \<Longrightarrow>
   off + 2 + j * 12 + 8 \<in> set ms \<longleftrightarrow>
     off + 2 + j * 12 + 8 \<in> set marks \<or> i \<le> j \<and> entry_act tiff en e4 d (off + 2 + j * 12) \<noteq> Some Skip"
proof (induction arbitrary: i ms rule: walks.induct)
  case (skip_entry k n' d' off' marks r)
  then show ?case by (cases "j = k") auto
next
  case (mark_entry k n' d' off' marks r)
  then show ?case by (cases "j = k") auto
next
  case (sub_entry k n' d' off' old marks ms' r)
  have eqs: "off' = off" "n' = n" "k = i" "d' = d" using sub_entry.prems(1) by simp_all
  have lt: "off + 2 + j * 12 + 8 < e4" using sub_entry.prems(2,5) by simp
  have "off + 2 + j * 12 + 8 \<in> set ms' \<longleftrightarrow>
      off + 2 + j * 12 + 8 \<in> set (List.insert (off' + 2 + k * 12 + 8) marks)"
    by (rule walk_marks_high[OF sub_entry.hyps(3) _ refl lt]) (use entry_act_Descend[OF sub_entry.hyps(2)] in simp)
  moreover have "off + 2 + j * 12 + 8 \<in> set ms \<longleftrightarrow> off + 2 + j * 12 + 8 \<in> set ms'
      \<or> i + 1 \<le> j \<and> entry_act tiff en e4 d (off + 2 + j * 12) \<noteq> Some Skip"
    by (rule sub_entry.IH(2)) (use sub_entry.prems sub_entry.hyps(1) eqs in simp_all)
  ultimately show ?case using sub_entry.hyps(2) eqs by (cases "j = i") auto
next
  case (chain d' off' n' nxt k marks r)
  have lt: "off + 2 + j * 12 + 8 < e4" using chain.prems(2,5) by simp
  have "off + 2 + j * 12 + 8 \<in> set ms \<longleftrightarrow>
      off + 2 + j * 12 + 8 \<in> set (List.insert (off' + 2 + n' * 12) marks)"
    by (rule walk_marks_high[OF chain.hyps(3) _ chain.prems(4) lt]) (use chain_act_Descend[OF chain.hyps(1)] in simp)
  then show ?case using chain.prems chain.hyps(2) by auto
qed auto

section \<open>Relocated values\<close>

text \<open>No relocated pointer field meets the \<open>n\<close> bytes at \<open>a\<close>.\<close>

definition clear_of :: "bytes \<Rightarrow> endian \<Rightarrow> nat \<Rightarrow> nat list \<Rightarrow> nat \<Rightarrow> nat \<Rightarrow> bool" where
  "clear_of tiff en e4 marks a n \<longleftrightarrow>
     (\<forall>m\<in>set marks. moved_field tiff en e4 m \<longrightarrow> m + 4 \<le> a \<or> a + n \<le> m)"

lemma move_fields_clear:
  "length rest = length tiff - e4 \<Longrightarrow> e4 \<le> a \<Longrightarrow> clear_of tiff en e4 ms a n \<Longrightarrow>
   take n (drop (a - e4) (move_fields tiff en e4 ms rest)) = take n (drop (a - e4) rest)"
proof (induction ms arbitrary: rest)
  case (Cons m ms)
  have c: "clear_of tiff en e4 ms a n" using Cons.prems(3) by (simp add: clear_of_def)
  show ?case
  proof (cases "moved_field tiff en e4 m")
    case True
    let ?b = "en_bytes en 4 (en_nat en (take 4 (drop m tiff)) + 12)"
    let ?rest = "take (m - e4) rest @ ?b @ drop (m - e4 + 4) rest"
    have m: "e4 \<le> m" "m + 4 \<le> length tiff" using True by (simp_all add: moved_field_def)
    have l: "length ?rest = length tiff - e4" using Cons.prems(1) m by simp
    have "m + 4 \<le> a \<or> a + n \<le> m" using Cons.prems(3) True by (simp add: clear_of_def)
    then have "take n (drop (a - e4) ?rest) = take n (drop (a - e4) rest)"
    proof
      assume "a + n \<le> m"
      then show ?thesis using Cons.prems(1,2) m by (intro window_prefix) simp_all
    next
      assume "m + 4 \<le> a"
      then obtain k where k: "a = m + 4 + k" using le_Suc_ex by blast
      then have "a - e4 = m - e4 + (4 + k)" using m by simp
      then show ?thesis using Cons.prems(1) m by (simp add: ac_simps)
    qed
    then show ?thesis using Cons.IH[OF l Cons.prems(2) c] True by simp
  next
    case False
    then show ?thesis using Cons.IH[OF Cons.prems(1,2) c] by simp
  qed
qed simp

text \<open>With pairwise disjoint fields, each relocated one holds the moved offset, in whatever order
  they are visited.\<close>

definition apart :: "nat list \<Rightarrow> bool" where
  "apart ms \<longleftrightarrow> (\<forall>a\<in>set ms. \<forall>b\<in>set ms. a = b \<or> a + 4 \<le> b \<or> b + 4 \<le> a)"

lemma move_fields_moved:
  "length rest = length tiff - e4 \<Longrightarrow> apart ms \<Longrightarrow> m \<in> set ms \<Longrightarrow> moved_field tiff en e4 m \<Longrightarrow>
   take 4 (drop (m - e4) (move_fields tiff en e4 ms rest))
     = en_bytes en 4 (en_nat en (take 4 (drop m tiff)) + 12)"
proof (induction ms arbitrary: rest)
  case (Cons k ms)
  have mb: "e4 \<le> m" "m + 4 \<le> length tiff" using Cons.prems(4) by (simp_all add: moved_field_def)
  have ap: "apart ms" using Cons.prems(2) by (simp add: apart_def)
  let ?rest = "if moved_field tiff en e4 k
     then take (k - e4) rest @ en_bytes en 4 (en_nat en (take 4 (drop k tiff)) + 12) @ drop (k - e4 + 4) rest
     else rest"
  have l: "length ?rest = length tiff - e4" using Cons.prems(1) by (auto simp: moved_field_def)
  show ?case
  proof (cases "m \<in> set ms")
    case True
    then show ?thesis using Cons.IH[OF l ap True Cons.prems(4)] by simp
  next
    case False
    then have k: "k = m" using Cons.prems(3) by simp
    have "clear_of tiff en e4 ms m 4"
      unfolding clear_of_def using Cons.prems(2) False k by (auto simp: apart_def)
    then show ?thesis
      using move_fields_clear[OF l mb(1)] Cons.prems(1,4) mb by (simp add: k)
  qed
qed simp

lemma move_fields_kept:
  assumes l: "length rest = length tiff - e4" and a: "apart ms" "m \<in> set ms"
    and n: "\<not> moved_field tiff en e4 m" "e4 \<le> m"
  shows "take 4 (drop (m - e4) (move_fields tiff en e4 ms rest)) = take 4 (drop (m - e4) rest)"
proof (rule move_fields_clear[OF l n(2)])
  show "clear_of tiff en e4 ms m 4"
    unfolding clear_of_def using a n(1) unfolding apart_def by metis
qed

text \<open>What a successful splice that inserted an entry did, in terms of the two TIFF blocks.\<close>

lemma splice_inserted:
  assumes f: "find_exif_app1 jpeg = Some (pos, tlen)" and sl: "slice jpeg (pos + 10) (pos + tlen) = Some tiff"
    and sp: "splice_orientation_into_app1 iter jpeg (pos, tlen) v = Some (Done (Some out))"
    and grown: "length out \<noteq> length jpeg"
    and sl': "slice out (pos + 10) (pos + tlen + 12) = Some tiff'"
  obtains en ifd0 cnt marks where "ifd0_of tiff = Some (en, ifd0, cnt)" "0 < cnt" "cnt < 0xFFFF"
    "walk_ifd tiff en (ifd0 + 2 + cnt * 12 + 4) (Walk_ifd ifd0 0) [] = Some (Some marks)"
    "tiff' = spliced_tiff iter tiff en ifd0 cnt v marks" "length tiff \<le> 65537"
  using sp
proof (cases rule: splice_results)
  case none
  then show thesis by simp
next
  case (rewrite en ifd0 cnt t i)
  have "ifd0 + 2 + i * 12 + 12 \<le> length t" using ifd0_of_bounds(2)[OF rewrite(4)] rewrite(7) by simp
  then have "length out = length jpeg" using rewrite(1-3,8) by simp
  then show thesis using grown by simp
next
  case (spliced en ifd0 cnt t marks)
  have t: "t = tiff" using sl slice_tiff[OF _ spliced(2)] spliced(1,4) by simp
  let ?u = "spliced_tiff iter tiff en ifd0 cnt v marks"
  let ?h = "take pos jpeg @ [0xFF, 0xE1] @ en_bytes Big 2 (tlen + 10) @ take 6 (drop (pos + 4) jpeg)"
  have out: "out = ?h @ ?u @ drop (pos + tlen) jpeg" using spliced(10) t by simp
  have lt: "length tiff = tlen - 10" using spliced(1,2,4) t by simp
  have lu: "length ?u = tlen - 10 + 12"
    using length_spliced_tiff[OF ifd0_of_bounds(2)[OF spliced(5)]] lt t by simp
  have "length ?h = pos + 10" using spliced(1,2) by simp
  then have "slice out (pos + 10) (pos + tlen + 12) = Some ?u"
    using lu spliced(1) by (intro slice_mid[OF out]) simp_all
  then have "tiff' = ?u" using sl' by simp
  moreover have "length tiff \<le> 65537" using lt find_exif_app1_found(4)[OF f] by simp
  ultimately show thesis using that spliced(5,6,7,9) t by blast
qed

text \<open>Bytes behind IFD0 move by 12.\<close>

lemma spliced_behind:
  assumes fit: "ifd0 + 2 + cnt * 12 + 4 \<le> length tiff" and a: "ifd0 + 2 + cnt * 12 + 4 \<le> a"
    and iter: "\<forall>ms. set (iter ms) = set ms"
    and clear: "clear_of tiff en (ifd0 + 2 + cnt * 12 + 4) marks a n"
  shows "take n (drop (a + 12) (spliced_tiff iter tiff en ifd0 cnt v marks)) = take n (drop a tiff)"
proof -
  let ?e4 = "ifd0 + 2 + cnt * 12 + 4"
  let ?u = "spliced_tiff iter tiff en ifd0 cnt v marks"
  have "drop (a + 12) ?u = drop (a - ?e4) (drop (ifd0 + 2 + cnt * 12 + 16) ?u)"
    using a by (simp add: add.commute)
  also have "\<dots> = drop (a - ?e4) (move_fields tiff en ?e4 (iter marks) (drop ?e4 tiff))"
    by (simp only: spliced_windows(6)[OF fit])
  finally have "take n (drop (a + 12) ?u) = take n (drop (a - ?e4) (drop ?e4 tiff))"
    using move_fields_clear[OF _ a, of "drop ?e4 tiff" tiff en "iter marks" n] clear iter
    by (simp add: clear_of_def)
  then show ?thesis using a by simp
qed

lemma entry_act_out_of_line:
  assumes e: "e + 12 \<le> length tiff" and t: "u16_at en tiff (e + 2) = Some ty" "u32_at en tiff (e + 4) = Some c"
    and s: "tiff_value_size ty c = Some sz" "4 < sz" and o: "u32_at en tiff (e + 8) = Some old"
  shows "entry_act tiff en e4 d e \<noteq> Some Skip \<longleftrightarrow> e4 \<le> unat old \<and> unat old \<le> length tiff"
proof -
  let ?w = "take 12 (drop e tiff)"
  have sl: "slice tiff e (e + 12) = Some ?w" using e by (simp add: slice_def)
  have w: "take k (drop p ?w) = take k (drop (e + p) tiff)" if "p + k \<le> 12" for p k
    using that by (simp add: drop_take add.commute)
  have "u16_at en ?w 0 = u16_at en tiff e" by (rule u16_at_same) (use w[of 0 2] in simp)
  then obtain tag where tg: "u16_at en ?w 0 = Some tag" using e u16_at_inside[of e tiff en] by auto
  have ty: "u16_at en ?w 2 = Some ty" using t(1) u16_at_same[OF w[of 2 2], of en] by simp
  have c: "u32_at en ?w 4 = Some c" using t(2) u32_at_same[OF w[of 4 4], of en] by simp
  have o': "u32_at en ?w 8 = Some old" using o u32_at_same[OF w[of 8 4], of en] by simp
  show ?thesis
    unfolding entry_act_def sl bind.bind_lunit tg ty c s(1) o' Let_def
    using s(2) by simp
qed

lemma moved_entry_field:
  assumes e: "e + 12 \<le> length tiff"
  shows "take 4 (drop 8 (moved_entry tiff en marks e)) =
    en_bytes en 4 (if e + 8 \<in> set marks then en_nat en (take 4 (drop (e + 8) tiff)) + 12
                   else en_nat en (take 4 (drop (e + 8) tiff)))"
  using e en_bytes_nat[of en "take 4 (drop (e + 8) tiff)"]
  by (simp add: moved_entry_def drop_take add.commute)

lemma ifd0_marked:
  assumes x: "ifd0_of tiff = Some (en, ifd0, cnt)"
    and w: "walk_ifd tiff en (ifd0 + 2 + cnt * 12 + 4) (Walk_ifd ifd0 0) [] = Some (Some marks)" and i: "i < cnt"
  shows "ifd0 + 2 + i * 12 + 8 \<in> set marks \<longleftrightarrow>
     entry_act tiff en (ifd0 + 2 + cnt * 12 + 4) 0 (ifd0 + 2 + i * 12) \<noteq> Some Skip"
proof -
  note b = ifd0_of_bounds[OF x]
  obtain n where n: "table_size tiff en ifd0 = Some n"
    using w by (cases "table_size tiff en ifd0") (simp_all add: walk_table)
  obtain nw where nw: "u16_at en tiff ifd0 = Some nw" "n = unat nw"
    using n by (auto simp: table_size_def split: option.splits if_splits)
  have "n = cnt" using unat_u16_at[OF nw(1)] nw(2) b(7) by simp
  then have "walks tiff en (ifd0 + 2 + cnt * 12 + 4) (At_entry ifd0 cnt 0 0) [] (Some marks)"
    using w n by (intro walk_ifd_walks) (simp add: walk_table)
  from walk_marks_ifd0[OF this refl refl _ refl i] show ?thesis by simp
qed


text \<open>Pointer fields inside the tables behind IFD0 (Exif, GPS and thumbnail directories) are
  relocated, but not all of them: when a splice grew the file, a field that the walk marked behind
  IFD0 holds afterwards its offset plus 12 exactly if twelve more bytes follow that offset in the old
  block; a field that points into the last eleven bytes keeps its offset although the bytes it named
  have moved by 12.\<close>

theorem sub_pointers_relocated:
  assumes f: "find_exif_app1 jpeg = Some (pos, tlen)" and sl: "slice jpeg (pos + 10) (pos + tlen) = Some tiff"
    and sp: "splice_orientation_into_app1 iter jpeg (pos, tlen) v = Some (Done (Some out))"
    and grown: "length out \<noteq> length jpeg"
    and sl': "slice out (pos + 10) (pos + tlen + 12) = Some tiff'"
    and iter: "\<forall>ms. set (iter ms) = set ms"
    and x: "ifd0_of tiff = Some (en, ifd0, cnt)" "e4 = ifd0 + 2 + cnt * 12 + 4"
    and w: "walk_ifd tiff en e4 (Walk_ifd ifd0 0) [] = Some (Some marks)" "apart marks"
    and m: "m \<in> set marks" "e4 \<le> m" "u32_at en tiff m = Some old" "e4 \<le> unat old" "unat old < length tiff"
      "clear_of tiff en e4 marks (unat old) 1"
  shows "u32_at en tiff' (m + 12) = Some (if unat old + 12 \<le> length tiff then old + 12 else old)
    \<and> tiff' ! (unat old + 12) = tiff ! unat old"
proof -
  have u: "tiff' = spliced_tiff iter tiff en ifd0 cnt v marks" and short: "length tiff \<le> 65537"
    using splice_inserted[OF f sl sp grown sl'] x w(1) by (metis option.inject prod.inject)+
  note b = ifd0_of_bounds[OF x(1)]
  note win = spliced_windows[OF b(2), where iter = iter and en = en and v = v and marks = marks, folded u]
  have e4: "ifd0 + 2 + cnt * 12 + 4 = e4" using x(2) by simp
  have ml: "m + 4 \<le> length tiff" using m(3) by (simp add: u32_at_iff)
  have on: "en_nat en (take 4 (drop m tiff)) = unat old" using unat_u32_at[OF m(3)] by simp
  have ap: "apart (iter marks)" "m \<in> set (iter marks)" using w(2) m(1) iter by (simp_all add: apart_def)
  let ?M = "move_fields tiff en e4 (iter marks) (drop e4 tiff)"
  have rest: "drop (m + 12) tiff' = drop (m - e4) ?M"
  proof -
    have "m + 12 = (m - e4) + (ifd0 + 2 + cnt * 12 + 16)" using m(2) x(2) by simp
    then have "drop (m + 12) tiff' = drop (m - e4) (drop (ifd0 + 2 + cnt * 12 + 16) tiff')"
      by (simp only: drop_drop)
    then show ?thesis by (simp only: win(6) e4)
  qed
  have mf: "moved_field tiff en e4 m \<longleftrightarrow> unat old + 12 \<le> length tiff"
    using m(2,4) ml on by (simp add: moved_field_def)
  have "take 4 (drop (m + 12) tiff') = en_bytes en 4 (if unat old + 12 \<le> length tiff then unat old + 12 else unat old)"
  proof (cases "unat old + 12 \<le> length tiff")
    case True
    then show ?thesis unfolding rest using move_fields_moved[OF _ ap, of "drop e4 tiff" tiff e4 en] mf on by simp
  next
    case False
    have "take 4 (drop m tiff) = en_bytes en 4 (unat old)"
      using en_bytes_nat[of en "take 4 (drop m tiff)"] ml on by simp
    then show ?thesis
      unfolding rest using move_fields_kept[OF _ ap, of "drop e4 tiff" tiff e4 en] mf m(2) False by simp
  qed
  from u32_at_written[OF this]
  have "u32_at en tiff' (m + 12) = Some (if unat old + 12 \<le> length tiff then old + 12 else old)"
    by (simp split: if_splits)
  moreover have "take 1 (drop (unat old + 12) tiff') = take 1 (drop (unat old) tiff)"
    unfolding u by (rule spliced_behind[OF b(2) _ iter]) (use m(4,6) e4 in simp_all)
  then have "hd (take 1 (drop (unat old + 12) tiff')) = hd (take 1 (drop (unat old) tiff))" by simp
  moreover have "length tiff' = length tiff + 12" unfolding u by (rule length_spliced_tiff[OF b(2)])
  ultimately show ?thesis using m(5) by (simp add: hd_drop_conv_nth)
qed

section \<open>Termination of the walk\<close>

text \<open>The tables a table refers to, at some depth of the recursion.\<close>

definition refers :: "bytes \<Rightarrow> endian \<Rightarrow> nat \<Rightarrow> (nat \<times> nat) set" where
  "refers tiff en e4 = {(off, old). off \<le> length tiff \<and> old \<le> length tiff \<and>
     (\<exists>n d. table_size tiff en off = Some n \<and>
       ((\<exists>i<n. entry_act tiff en e4 d (off + 2 + i * 12) = Some (Descend old))
        \<or> chain_act tiff en e4 d (off + 2 + n * 12) = Some (Descend old)))}"

lemma table_size_len: "table_size tiff en off = Some n \<Longrightarrow> off \<le> length tiff"
  by (auto simp: table_size_def split: option.splits if_splits dest: u16_at_len)

lemma refers_finite: "finite (refers tiff en e4)"
  by (rule finite_subset[of _ "{..length tiff} \<times> {..length tiff}"]) (auto simp: refers_def)

lemma walk_loop_returns:
  assumes t: "table_size tiff en off = Some n"
    and sub: "\<And>old d marks. (off, old) \<in> refers tiff en e4 \<Longrightarrow>
       \<exists>r. walk_ifd tiff en e4 (Walk_ifd old d) marks = Some r"
  shows "\<exists>r. walk_ifd tiff en e4 (At_entry off n i d) marks = Some r"
proof (induction "n - i" arbitrary: i marks)
  case 0
  show ?case
  proof (cases "chain_act tiff en e4 d (off + 2 + n * 12)")
    case (Some act)
    show ?thesis
    proof (cases act)
      case (Descend nxt)
      then have "(off, nxt) \<in> refers tiff en e4"
        using t Some chain_act_Descend[OF Some[unfolded Descend]] table_size_len[OF t]
        unfolding refers_def by blast
      then show ?thesis using sub 0 Some Descend by (simp add: walk_entry)
    qed (use 0 Some in \<open>simp_all add: walk_entry\<close>)
  qed (use 0 in \<open>simp add: walk_entry\<close>)
next
  case (Suc k)
  then have i: "i < n" "k = n - (i + 1)" by simp_all
  note IH = Suc.hyps(1)[OF i(2)]
  show ?case
  proof (cases "entry_act tiff en e4 d (off + 2 + i * 12)")
    case (Some act)
    show ?thesis
    proof (cases act)
      case (Descend old)
      then have "(off, old) \<in> refers tiff en e4"
        using t i Some entry_act_Descend[OF Some[unfolded Descend]] table_size_len[OF t]
        unfolding refers_def by blast
      then obtain r where r: "walk_ifd tiff en e4 (Walk_ifd old (d + 1)) (List.insert (off + 2 + i * 12 + 8) marks) = Some r"
        using sub by blast
      obtain r' where "walk_ifd tiff en e4 (At_entry off n (i + 1) d) ms = Some (r' ms)" for ms
        using IH by metis
      then show ?thesis using r i Some Descend by (subst walk_entry) (simp split: option.split)
    qed (use IH i Some in \<open>simp_all add: walk_entry\<close>)
  qed (use i in \<open>simp add: walk_entry\<close>)
qed

text \<open>The walk over the directories returns for every file whose directory references have no
  cycle, so that the call as a whole returns.\<close>

theorem walk_terminates:
  assumes "acyclic (refers tiff en e4)"
  shows "\<exists>r. walk_ifd tiff en e4 (Walk_ifd off d) marks = Some r"
proof -
  have "wf ((refers tiff en e4)\<inverse>)"
    by (rule finite_acyclic_wf_converse[OF refers_finite assms])
  then show ?thesis
  proof (induction off arbitrary: d marks rule: wf_induct_rule)
    case (less off)
    show ?case
    proof (cases "table_size tiff en off")
      case None
      then show ?thesis by (simp add: walk_table)
    next
      case (Some n)
      then show ?thesis using walk_loop_returns[OF Some, of e4 0] less by (simp add: walk_table)
    qed
  qed
qed

text \<open>A directory with an inline reference to itself behind harmless entries.\<close>

definition self_reference :: "bytes \<Rightarrow> endian \<Rightarrow> nat \<Rightarrow> nat \<Rightarrow> nat \<Rightarrow> bool" where
  "self_reference tiff en e4 off j \<longleftrightarrow>
     (\<exists>n. table_size tiff en off = Some n \<and> j < n
       \<and> (\<forall>d. entry_act tiff en e4 d (off + 2 + j * 12) = Some (Descend off)
            \<and> (\<forall>i<j. entry_act tiff en e4 d (off + 2 + i * 12) \<in> {Some Skip, Some Mark})))"

lemma walks_not_self:
  assumes T: "table_size tiff en off = Some n" and j: "j < n"
    and D: "\<And>d. entry_act tiff en e4 d (off + 2 + j * 12) = Some (Descend off)"
    and B: "\<And>d i. i < j \<Longrightarrow> entry_act tiff en e4 d (off + 2 + i * 12) \<in> {Some Skip, Some Mark}"
  shows "walks tiff en e4 pc marks r \<Longrightarrow> pc = Walk_ifd off d \<or> (\<exists>i\<le>j. pc = At_entry off n i d) \<Longrightarrow> False"
proof (induction arbitrary: d rule: walks.induct)
  case (bad_table off' d' marks)
  then show ?case using T by simp
next
  case (table off' n' d' marks r)
  then show ?case using T by simp
next
  case (bad_entry i n' d' off' marks)
  then have "off' = off" "i \<le> j" by simp_all
  then show ?case using bad_entry.hyps(2) D B[of i d'] by (cases "i = j") auto
next
  case (skip_entry i n' d' off' marks r)
  then have "off' = off" "i \<le> j" "n' = n" by simp_all
  then show ?case using skip_entry.hyps(2) skip_entry.IH[of d'] D by (cases "i = j") auto
next
  case (mark_entry i n' d' off' marks r)
  then have "off' = off" "i \<le> j" "n' = n" by simp_all
  then show ?case using mark_entry.hyps(2) mark_entry.IH[of d'] D by (cases "i = j") auto
next
  case (bad_sub i n' d' off' old marks)
  then have "off' = off" "i \<le> j" by simp_all
  then show ?case using bad_sub.hyps(2) bad_sub.IH[of "d' + 1"] D[of d'] B[of i d'] by (cases "i = j") auto
next
  case (sub_entry i n' d' off' old marks ms r)
  then have "off' = off" "i \<le> j" by simp_all
  then show ?case using sub_entry.hyps(2) sub_entry.IH(1)[of "d' + 1"] D[of d'] B[of i d'] by (cases "i = j") auto
qed (use j in auto)

text \<open>C37. Nothing bounds the recursion on directory references inside the entries: when a directory
  contains, behind entries that only mark or are skipped, an inline reference to itself, the walk
  does not return from it, whatever the depth at which it is entered.\<close>

theorem cyclic_walk_diverges:
  assumes "self_reference tiff en e4 off j"
  shows "walk_ifd tiff en e4 (Walk_ifd off d) marks = None"
proof (rule ccontr)
  assume "walk_ifd tiff en e4 (Walk_ifd off d) marks \<noteq> None"
  then obtain r where "walks tiff en e4 (Walk_ifd off d) marks r" using walk_ifd_walks by blast
  moreover obtain n where n: "table_size tiff en off = Some n" "j < n"
    "\<And>d. entry_act tiff en e4 d (off + 2 + j * 12) = Some (Descend off)"
    "\<And>d i. i < j \<Longrightarrow> entry_act tiff en e4 d (off + 2 + i * 12) \<in> {Some Skip, Some Mark}"
    using assms unfolding self_reference_def by blast
  ultimately show False using walks_not_self[OF n] by blast
qed

section \<open>Rotations\<close>

text \<open>The rest of the multiplication table.\<close>

lemma image_table:
  assumes "image_laws im"
  shows "rotate90 im (rotate90 im i) = rotate180 im i" "rotate90 im (rotate180 im i) = rotate270 im i"
    "rotate90 im (rotate270 im i) = i" "rotate270 im (rotate90 im i) = i"
    "rotate180 im (rotate90 im i) = rotate270 im i" "rotate180 im (rotate270 im i) = rotate90 im i"
    "rotate270 im (rotate270 im i) = rotate180 im i" "rotate270 im (rotate180 im i) = rotate90 im i"
    "rotate180 im (rotate180 im i) = i"
    "rotate90 im (fliph im i) = fliph im (rotate270 im i)" "rotate270 im (fliph im i) = fliph im (rotate90 im i)"
    "rotate180 im (fliph im i) = fliph im (rotate180 im i)" "flipv im i = fliph im (rotate180 im i)"
proof -
  have L: "rotate90 im (rotate90 im i) = rotate180 im i" "rotate90 im (rotate180 im i) = rotate270 im i"
    "rotate90 im (rotate270 im i) = i" "rotate270 im (rotate90 im i) = i"
    "rotate90 im (fliph im i) = fliph im (rotate270 im i)" "flipv im i = fliph im (rotate180 im i)" for i
    using assms unfolding image_laws_def by blast+
  show "rotate90 im (rotate90 im i) = rotate180 im i" "rotate90 im (rotate180 im i) = rotate270 im i"
    "rotate90 im (rotate270 im i) = i" "rotate270 im (rotate90 im i) = i"
    "rotate90 im (fliph im i) = fliph im (rotate270 im i)" "flipv im i = fliph im (rotate180 im i)"
    by (fact L)+
  show SR: "rotate180 im (rotate90 im i) = rotate270 im i" for i by (metis L(1,2))
  show ST: "rotate180 im (rotate270 im i) = rotate90 im i" for i by (metis L(1,3))
  show TS: "rotate270 im (rotate180 im i) = rotate90 im i" for i by (metis L(1,4))
  show "rotate270 im (rotate270 im i) = rotate180 im i" by (metis L(2) TS L(1))
  show "rotate180 im (rotate180 im i) = i" by (metis L(1,2,3))
  show "rotate270 im (fliph im i) = fliph im (rotate90 im i)" by (metis L(3,4,5))
  show "rotate180 im (fliph im i) = fliph im (rotate180 im i)" by (metis L(1,2,5) TS)
qed

lemma rotations_valid:
  "rotate_orientation_cw cur \<in> {1..8}" "rotate_orientation_ccw cur \<in> {1..8}" "rotate_orientation_180 cur \<in> {1..8}"
  by (simp_all add: rotate_orientation_cw_def rotate_orientation_ccw_def rotate_orientation_180_def Let_def)

lemma orientation_cases: "v \<in> {1..8} \<Longrightarrow> v \<in> {1, 2, 3, 4, 5, 6, 7, 8 :: 16 word}"
proof -
  assume "v \<in> {1..8}"
  then have "unat v \<in> {1..8}" by (simp add: word_le_nat_alt)
  then have "unat v \<in> {1, 2, 3, 4, 5, 6, 7, 8}" by auto
  then show ?thesis by (auto simp: word_unat_eq_iff)
qed

lemma rotations_group:
  "rotate_orientation_cw (Some (rotate_orientation_cw cur)) = rotate_orientation_180 cur"
  "v \<in> {1..8} \<Longrightarrow> rotate_orientation_ccw (Some (rotate_orientation_cw (Some v))) = v"
proof -
  show "rotate_orientation_cw (Some (rotate_orientation_cw cur)) = rotate_orientation_180 cur"
    by (simp add: rotate_orientation_cw_def rotate_orientation_180_def Let_def)
  assume "v \<in> {1..8}"
  then show "rotate_orientation_ccw (Some (rotate_orientation_cw (Some v))) = v"
    using orientation_cases[of v]
    by (auto simp: rotate_orientation_cw_def rotate_orientation_ccw_def Let_def)
qed

lemma rotations_shown:
  assumes laws: "image_laws im"
  shows "apply_orientation_to_image im img (rotate_orientation_cw (Some c))
      = rotate90 im (apply_orientation_to_image im img c)"
    "apply_orientation_to_image im img (rotate_orientation_ccw (Some c))
      = rotate270 im (apply_orientation_to_image im img c)"
    "apply_orientation_to_image im img (rotate_orientation_180 (Some c))
      = rotate180 im (apply_orientation_to_image im img c)"
  by (simp_all add: rotate_orientation_cw_def rotate_orientation_ccw_def rotate_orientation_180_def
      apply_orientation_to_image_def Let_def image_table[OF laws])

text \<open>C36. The three rotations of a stored orientation always give one of the eight EXIF orientations,
  undo each other on valid ones, and mean what they say: a picture shown with the rotated orientation
  is the picture shown with the old one, turned by a quarter clockwise, a quarter counter-clockwise or
  a half; a missing or unknown orientation counts as upright.\<close>

theorem orientation_rotations:
  assumes laws: "image_laws im"
  shows "rotate_orientation_cw cur \<in> {1..8} \<and> rotate_orientation_ccw cur \<in> {1..8} \<and> rotate_orientation_180 cur \<in> {1..8}
    \<and> rotate_orientation_cw (Some (rotate_orientation_cw cur)) = rotate_orientation_180 cur
    \<and> (v \<in> {1..8} \<longrightarrow> rotate_orientation_ccw (Some (rotate_orientation_cw (Some v))) = v)
    \<and> (let shown = apply_orientation_to_image im img (case cur of None \<Rightarrow> 1 | Some c \<Rightarrow> c) in
       apply_orientation_to_image im img (rotate_orientation_cw cur) = rotate90 im shown
     \<and> apply_orientation_to_image im img (rotate_orientation_ccw cur) = rotate270 im shown
     \<and> apply_orientation_to_image im img (rotate_orientation_180 cur) = rotate180 im shown)"
proof -
  define c where "c = (case cur of None \<Rightarrow> 1 | Some c \<Rightarrow> c)"
  have rot: "rotate_orientation_cw cur = rotate_orientation_cw (Some c)"
    "rotate_orientation_ccw cur = rotate_orientation_ccw (Some c)"
    "rotate_orientation_180 cur = rotate_orientation_180 (Some c)"
    by (simp_all add: c_def rotate_orientation_cw_def rotate_orientation_ccw_def rotate_orientation_180_def
        split: option.split)
  show ?thesis
    unfolding rot c_def[symmetric] Let_def
    by (intro conjI impI; (rule rotations_valid | rule rotations_group; assumption? | rule rotations_shown[OF laws]))
qed

section \<open>Concrete files\<close>

text \<open>A JPEG from the segments of a TIFF block, a file without Exif data, one whose IFD0 holds a
  camera model, one with an Exif directory that holds an exposure time at the very end of the
  segment, and one whose Exif directory refers to itself.\<close>

definition jpeg_of :: "bytes \<Rightarrow> bytes" where
  "jpeg_of tiff = [0xFF, 0xD8, 0xFF, 0xE1] @ en_bytes Big 2 (length tiff + 8) @ exif_header @ tiff @ [0xFF, 0xDA, 0, 0]"

definition plain_jpeg :: bytes where "plain_jpeg = [0xFF, 0xD8, 0xFF, 0xDA, 0, 2]"

definition model_tiff :: bytes where
  "model_tiff = [0x49, 0x49, 0x2A, 0, 8, 0, 0, 0,  1, 0,
     0x10, 1, 2, 0, 6, 0, 0, 0, 26, 0, 0, 0,  0, 0, 0, 0,  67, 97, 110, 111, 110, 0]"

definition exposure_tiff :: bytes where
  "exposure_tiff = [0x49, 0x49, 0x2A, 0, 8, 0, 0, 0,  1, 0,
     0x69, 0x87, 4, 0, 1, 0, 0, 0, 26, 0, 0, 0,  0, 0, 0, 0,
     1, 0,  0x9A, 0x82, 5, 0, 1, 0, 0, 0, 44, 0, 0, 0,  0, 0, 0, 0,  1, 0, 0, 0, 125, 0, 0, 0]"

definition cyclic_tiff :: bytes where
  "cyclic_tiff = [0x49, 0x49, 0x2A, 0, 8, 0, 0, 0,  1, 0,
     0x69, 0x87, 4, 0, 1, 0, 0, 0, 26, 0, 0, 0,  0, 0, 0, 0,
     1, 0,  0x69, 0x87, 4, 0, 1, 0, 0, 0, 26, 0, 0, 0,  0, 0, 0, 0]"

lemmas tiff_eval = u16_at_def u32_at_def endian_u16_def endian_u32_def slice_def en_nat_def Let_def
  tiff_value_size_def checked_mul_u32_def entry_act_def chain_act_def sub_ifd_tag_def table_size_def
  EXIF_SUB_IFD_TAG_def GPS_SUB_IFD_TAG_def ORIENTATION_TAG_def

lemma exposure_walk: "walk_ifd exposure_tiff Little 26 (Walk_ifd 8 0) [] = Some (Some [36, 18])"
  by (simp add: walk_table walk_entry tiff_eval exposure_tiff_def)

lemma model_walk: "walk_ifd model_tiff Little 26 (Walk_ifd 8 0) [] = Some (Some [18])"
  by (simp add: walk_table walk_entry tiff_eval model_tiff_def)

lemma ifd0s: "ifd0_of exposure_tiff = Some (Little, 8, 1)" "ifd0_of model_tiff = Some (Little, 8, 1)"
    "ifd0_of cyclic_tiff = Some (Little, 8, 1)"
  by (simp_all add: ifd0_of_def endian_parse_def str_bytes_def tiff_eval exposure_tiff_def model_tiff_def cyclic_tiff_def)

lemma slots: "orientation_slots Little exposure_tiff 8 1 = []" "orientation_slots Little model_tiff 8 1 = []"
   "orientation_slots Little cyclic_tiff 8 1 = []"
  by (simp_all add: orientation_slots_def tiff_eval exposure_tiff_def model_tiff_def cyclic_tiff_def)

lemma find_jpeg_of:
  assumes "length tiff \<le> 65000"
  shows "find_exif_app1 (jpeg_of tiff) = Some (2, length tiff + 10)"
    "slice (jpeg_of tiff) (2 + 10) (2 + (length tiff + 10)) = Some tiff"
    "length (jpeg_of tiff) = length tiff + 16"
proof -
  obtain x y where xy: "en_bytes Big 2 (length tiff + 8) = [x, y]"
    using length_en_bytes[of Big 2 "length tiff + 8"]
    by (cases "en_bytes Big 2 (length tiff + 8)"; cases "tl (en_bytes Big 2 (length tiff + 8))") auto
  have l: "en_nat Big [x, y] = length tiff + 8"
    using assms en_nat_bytes[of Big 2 "length tiff + 8"] by (simp add: xy)
  have lh: "length exif_header = 6" by (simp add: exif_header_def)
  have j: "jpeg_of tiff = [0xFF, 0xD8, 0xFF, 0xE1, x, y] @ exif_header @ tiff @ [0xFF, 0xDA, 0, 0]"
    by (simp add: jpeg_of_def xy)
  show sl: "slice (jpeg_of tiff) (2 + 10) (2 + (length tiff + 10)) = Some tiff"
    unfolding j by (rule slice_mid[of _ "[0xFF, 0xD8, 0xFF, 0xE1, x, y] @ exif_header" _ "[0xFF, 0xDA, 0, 0]"])
      (simp_all add: lh)
  have "slice (jpeg_of tiff) (2 + 4) (2 + 10) = Some exif_header"
    unfolding j by (rule slice_mid[OF refl]) (simp_all add: lh)
  then have "app1_at (jpeg_of tiff) 2 (length tiff + 10)"
    using l lh by (simp add: app1_at_def j)
  then have "find_app1_loop (jpeg_of tiff) 2 = Some (2, length tiff + 10)" by (rule find_app1_loop_hit)
  then show "find_exif_app1 (jpeg_of tiff) = Some (2, length tiff + 10)"
    by (simp add: find_exif_app1_def j)
  show "length (jpeg_of tiff) = length tiff + 16" by (simp add: j lh)
qed

lemma splice_jpeg_of:
  assumes len: "8 \<le> length tiff" "length tiff \<le> 65000" and x: "ifd0_of tiff = Some (en, ifd0, cnt)" "0 < cnt" "cnt < 0xFFFF"
    and s: "orientation_slots en tiff ifd0 cnt = []"
    and w: "walk_ifd tiff en (ifd0 + 2 + cnt * 12 + 4) (Walk_ifd ifd0 0) [] = Some (Some marks)"
  obtains out where
    "splice_orientation_into_app1 iter (jpeg_of tiff) (2, length tiff + 10) v = Some (Done (Some out))"
    "length out = length (jpeg_of tiff) + 12"
    "slice out (2 + 10) (2 + (length tiff + 10) + 12) = Some (spliced_tiff iter tiff en ifd0 cnt v marks)"
proof -
  let ?j = "jpeg_of tiff"
  let ?u = "spliced_tiff iter tiff en ifd0 cnt v marks"
  note f = find_jpeg_of[OF len(2)]
  have t: "14 \<le> length tiff + 10" "2 + (length tiff + 10) \<le> length ?j" using len f(3) by simp_all
  have tf: "drop (2 + 10) (take (2 + (length tiff + 10)) ?j) = tiff"
    using f(2) slice_tiff[OF _ t(2)] by simp
  let ?h = "take 2 ?j @ [0xFF, 0xE1] @ en_bytes Big 2 (length tiff + 10 + 10) @ take 6 (drop (2 + 4) ?j)"
  let ?out = "?h @ ?u @ drop (2 + (length tiff + 10)) ?j"
  have "splice_orientation_into_app1 iter ?j (2, length tiff + 10) v = Some (Done (Some ?out))"
    unfolding splice_eq[OF t, of iter v, unfolded tf] using x s w len by simp
  moreover have lu: "length ?u = length tiff + 12" by (rule length_spliced_tiff[OF ifd0_of_bounds(2)[OF x(1)]])
  have lh: "length ?h = 2 + 10" using f(3) by simp
  moreover have "length ?out = length ?j + 12" using lu lh f(3) by simp
  moreover have "slice ?out (2 + 10) (2 + (length tiff + 10) + 12) = Some ?u"
    by (rule slice_mid[OF refl]) (use lu lh in simp_all)
  ultimately show thesis using that by blast
qed

theorem orientation_rotations_witness:
  "image_laws (raster_ops :: nat raster image_ops)
   \<and> apply_orientation_to_image raster_ops \<lparr>width = 2, height = 1, pixel = \<lambda>x y. nat x\<rparr> (rotate_orientation_cw (Some 3))
     = rotate90 raster_ops (apply_orientation_to_image raster_ops \<lparr>width = 2, height = 1, pixel = \<lambda>x y. nat x\<rparr> 3)
   \<and> rotate_orientation_ccw (Some (rotate_orientation_cw (Some 7))) = 7"
  using orientation_rotations[OF raster_laws, of "Some 3" 7 "\<lparr>width = 2, height = 1, pixel = \<lambda>x y. nat x\<rparr>"]
    raster_laws[where 'p = nat]
  by (simp add: Let_def)

theorem ensure_touches_only_exif_witness:
  "\<exists>r. ensure_exif_orientation (\<lambda>_. None) id plain_jpeg 6 = Some r \<and>
     (\<exists>pre seg seg' post. plain_jpeg = pre @ seg @ post \<and> r = Done (pre @ seg' @ post) \<and> patched_at pre seg seg' post)"
proof -
  have f: "find_exif_app1 plain_jpeg = None"
    by (simp add: find_exif_app1_def plain_jpeg_def find_app1_loop.simps)
  let ?r = "Done (inject_exif_orientation plain_jpeg 6)"
  have e: "ensure_exif_orientation (\<lambda>_. None) id plain_jpeg 6 = Some ?r"
    using f by (simp add: ensure_exif_orientation_def plain_jpeg_def)
  have "?r \<noteq> Done plain_jpeg"
    using f by (simp add: inject_exif_orientation_def plain_jpeg_def minimal_app1_def)
  then show ?thesis using e ensure_touches_only_exif[OF e] by blast
qed

theorem ensure_sets_orientation_witness:
  "\<exists>out. ensure_exif_orientation (\<lambda>_. None) id plain_jpeg 6 = Some (Done out) \<and> exif_orientation out = Some 6"
proof -
  have f: "find_exif_app1 plain_jpeg = None"
    by (simp add: find_exif_app1_def plain_jpeg_def find_app1_loop.simps)
  then show ?thesis
    using ensure_sets_orientation[of 6 "\<lambda>_. None" plain_jpeg id] by (simp add: plain_jpeg_def)
qed


theorem sub_pointers_relocated_witness:
  "\<exists>out tiff'. splice_orientation_into_app1 id (jpeg_of exposure_tiff) (2, 62) 6 = Some (Done (Some out))
     \<and> slice out 12 76 = Some tiff' \<and> u32_at Little exposure_tiff 36 = Some 44
     \<and> u32_at Little tiff' 48 = Some 44 \<and> tiff' ! 56 = exposure_tiff ! 44"
proof -
  have l: "length exposure_tiff = 52" by (simp add: exposure_tiff_def)
  have len: "8 \<le> length exposure_tiff" "length exposure_tiff \<le> 65000" by (simp_all add: l)
  have one: "(0 :: nat) < 1" "(1 :: nat) < 0xFFFF" by simp_all
  have wk: "walk_ifd exposure_tiff Little (8 + 2 + 1 * 12 + 4) (Walk_ifd 8 0) [] = Some (Some [36, 18])"
    by (simp add: exposure_walk)
  have eval_sums: "52 + 10 = (62 :: nat)" by simp
  have m: "u32_at Little exposure_tiff 36 = Some 44" by (simp add: tiff_eval exposure_tiff_def)
  obtain out where o: "splice_orientation_into_app1 id (jpeg_of exposure_tiff) (2, 62) 6 = Some (Done (Some out))"
    "length out \<noteq> length (jpeg_of exposure_tiff)"
    "slice out (2 + 10) (2 + 62 + 12) = Some (spliced_tiff id exposure_tiff Little 8 1 6 [36, 18])"
    by (rule splice_jpeg_of[OF len ifd0s(1) one slots(1) wk, of id 6, unfolded l eval_sums])
      (simp add: l find_jpeg_of(3))
  have c: "clear_of exposure_tiff Little 26 [36, 18] 44 1"
    by (simp add: clear_of_def moved_field_def)
  have "u32_at Little (spliced_tiff id exposure_tiff Little 8 1 6 [36, 18]) (36 + 12) = Some 44
     \<and> spliced_tiff id exposure_tiff Little 8 1 6 [36, 18] ! (unat (44 :: 32 word) + 12) = exposure_tiff ! unat (44 :: 32 word)"
    using sub_pointers_relocated[OF _ _ o _ ifd0s(1) _ exposure_walk _ _ _ m] find_jpeg_of[of exposure_tiff] l c
    by (simp add: apart_def)
  then show ?thesis using o m by auto
qed

lemma exposure_tables: "table_size exposure_tiff Little off = Some n \<Longrightarrow> n = 1 \<and> off \<in> {8, 14, 26, 32}"
proof -
  assume a: "table_size exposure_tiff Little off = Some n"
  then have "off < 52" by (auto simp: table_size_def u16_at_iff exposure_tiff_def split: option.splits)
  then have "off \<in> set [0..<52]" by simp
  moreover have "[0..<52] = [0, 1, 2, 3, 4, 5, 6, 7, 8, 9, 10, 11, 12, 13, 14, 15, 16, 17, 18, 19, 20, 21, 22, 23, 24, 25,
      26, 27, 28, 29, 30, 31, 32, 33, 34, 35, 36, 37, 38, 39, 40, 41, 42, 43, 44, 45, 46, 47, 48, 49,
      50, 51]"
    by code_simp
  ultimately have "off \<in> {0, 1, 2, 3, 4, 5, 6, 7, 8, 9, 10, 11, 12, 13, 14, 15, 16, 17, 18, 19, 20, 21, 22, 23, 24, 25,
      26, 27, 28, 29, 30, 31, 32, 33, 34, 35, 36, 37, 38, 39, 40, 41, 42, 43, 44, 45, 46, 47, 48, 49,
      50, 51}"
    by (simp only: list.set)
  then show ?thesis
    using a by (elim insertE emptyE) (simp_all add: tiff_eval exposure_tiff_def)
qed

lemma exposure_refers: "refers exposure_tiff Little 26 \<subseteq> {(8, 26)}"
proof
  fix x assume x: "x \<in> refers exposure_tiff Little 26"
  obtain off old n d where t: "x = (off, old)" "table_size exposure_tiff Little off = Some n"
    and act: "(\<exists>i<n. entry_act exposure_tiff Little 26 d (off + 2 + i * 12) = Some (Descend old))
        \<or> chain_act exposure_tiff Little 26 d (off + 2 + n * 12) = Some (Descend old)"
    using x unfolding refers_def by blast
  have n: "n = 1" and off: "off \<in> {8, 14, 26, 32}" using exposure_tables[OF t(2)] by simp_all
  have "entry_act exposure_tiff Little 26 d 10 = Some (Descend 26)"
    "entry_act exposure_tiff Little 26 d 28 = Some Mark"
    "entry_act exposure_tiff Little 26 d 16 = None" "entry_act exposure_tiff Little 26 d 34 = None"
    "chain_act exposure_tiff Little 26 d 28 = Some Skip" "chain_act exposure_tiff Little 26 d 46 = Some Skip"
    "chain_act exposure_tiff Little 26 d 22 = Some Skip" "chain_act exposure_tiff Little 26 d 40 = Some Skip"
    by (simp_all add: tiff_eval exposure_tiff_def)
  then show "x \<in> {(8, 26)}" using act off t(1) by (auto simp: n)
qed

theorem walk_terminates_witness:
  "acyclic (refers exposure_tiff Little 26) \<and> (\<exists>r. walk_ifd exposure_tiff Little 26 (Walk_ifd 8 0) [] = Some r)"
proof -
  have "acyclic {(8 :: nat, 26 :: nat)}" by (simp add: acyclic_insert) (simp add: acyclic_def)
  then have "acyclic (refers exposure_tiff Little 26)" using exposure_refers by (rule acyclic_subset)
  then show ?thesis using walk_terminates by blast
qed

theorem cyclic_walk_diverges_witness:
  "walk_ifd cyclic_tiff Little 26 (Walk_ifd 26 0) [] = None
   \<and> ensure_exif_orientation (\<lambda>_. None) id (jpeg_of cyclic_tiff) 6 = None"
proof -
  have l: "length cyclic_tiff = 44" by (simp add: cyclic_tiff_def)
  have sr: "self_reference cyclic_tiff Little 26 26 0"
    by (simp add: self_reference_def tiff_eval cyclic_tiff_def)
  note div = cyclic_walk_diverges[OF sr]
  have w: "walk_ifd cyclic_tiff Little 26 (Walk_ifd 8 0) [] = None"
  proof -
    have "table_size cyclic_tiff Little 8 = Some 1" "entry_act cyclic_tiff Little 26 0 10 = Some (Descend 26)"
      by (simp_all add: tiff_eval cyclic_tiff_def)
    then show ?thesis by (simp add: walk_table[of _ _ _ 8] walk_entry div)
  qed
  note f = find_jpeg_of[of cyclic_tiff, unfolded l, simplified]
  have tf: "drop 12 (take 56 (jpeg_of cyclic_tiff)) = cyclic_tiff"
    using f(2) slice_tiff[of 54 2 "jpeg_of cyclic_tiff"] f(3) by simp
  have sp: "splice_orientation_into_app1 id (jpeg_of cyclic_tiff) (2, 54) 6 = None"
    using splice_eq[of 54 2 "jpeg_of cyclic_tiff" id 6] f(3) w ifd0s(3) slots(3) by (simp add: tf)
  have "has_sos (jpeg_of cyclic_tiff)"
    by (simp add: jpeg_of_def cyclic_tiff_def en_bytes_def exif_header_def str_bytes_def numeral_2_eq_2)
  then have "ensure_exif_orientation (\<lambda>_. None) id (jpeg_of cyclic_tiff) 6 = None"
    using f(1) sp by (simp add: ensure_exif_orientation_def)
  then show ?thesis using div by simp
qed

end
