(* ===== verification/RateLimit.thy ===== *)
theory RateLimit
  imports Complex_Main Prelude
begin

text \<open>
  The HTTP rate limiter of \<open>rate_limit.rs\<close>: which address a request counts for, the token buckets
  behind the middleware, and the lockout of accounts after repeated login failures.

  An \<open>Instant\<close> is a number of nanoseconds of the monotonic clock; \<open>duration_since\<close> saturates at
  zero like subtraction on the naturals.  Token counts are rationals: the rounding of \<open>f64\<close> is not
  modelled.  A \<open>HashMap\<close> is an association list in its iteration order.
\<close>

unbundle bit_operations_syntax

section \<open>Addresses\<close>

datatype ip_addr = V4 byte byte byte byte | V6 bytes

definition v6_ok :: "ip_addr \<Rightarrow> bool" where
  "v6_ok ip = (case ip of V4 _ _ _ _ \<Rightarrow> True | V6 o16 \<Rightarrow> length o16 = 16)"

text \<open>\<open>IpAddr::to_canonical\<close>: an IPv4-mapped IPv6 address becomes the IPv4 address.\<close>

fun to_canonical :: "ip_addr \<Rightarrow> ip_addr" where
  "to_canonical (V4 a b c d) = V4 a b c d"
| "to_canonical (V6 o16) =
     (if length o16 = 16 \<and> take 12 o16 = replicate 10 0 @ [0xFF, 0xFF]
      then V4 (o16 ! 12) (o16 ! 13) (o16 ! 14) (o16 ! 15) else V6 o16)"

fun is_loopback :: "ip_addr \<Rightarrow> bool" where
  "is_loopback (V4 a b c d) = (a = 127)"
| "is_loopback (V6 o16) = (o16 = replicate 15 0 @ [1])"

text \<open>\<open>str::trim\<close> on header values, which are ASCII.\<close>

definition is_space :: "char \<Rightarrow> bool" where
  "is_space c = (let n = (of_char c :: nat) in n = 32 \<or> (9 \<le> n \<and> n \<le> 13))"

definition trim :: "string \<Rightarrow> string" where
  "trim s = rev (dropWhile is_space (rev (dropWhile is_space s)))"

text \<open>\<open>str::parse::<IpAddr>\<close>, after the parser of the standard library: a dotted quad without leading
  zeros, or groups of up to four hexadecimal digits with one optional \<open>::\<close> and an optional dotted
  quad at the end.\<close>

definition digit_val :: "nat \<Rightarrow> char \<Rightarrow> nat option" where
  "digit_val radix c = (let n = (of_char c :: nat);
       v = (if 48 \<le> n \<and> n \<le> 57 then Some (n - 48)
            else if 97 \<le> n \<and> n \<le> 102 then Some (n - 87)
            else if 65 \<le> n \<and> n \<le> 70 then Some (n - 55) else None) in
     case v of Some d \<Rightarrow> if d < radix then Some d else None | None \<Rightarrow> None)"

text \<open>\<open>read_number\<close>: the longest run of digits; more than \<open>k\<close> of them, or a value over the maximum,
  fails.\<close>

definition read_number :: "nat \<Rightarrow> nat \<Rightarrow> nat \<Rightarrow> bool \<Rightarrow> string \<Rightarrow> (nat \<times> string) option" where
  "read_number radix k mx zero_prefix s =
     (let ds = takeWhile (\<lambda>c. digit_val radix c \<noteq> None) s; rest = drop (length ds) s;
          v = foldl (\<lambda>acc c. acc * radix + the (digit_val radix c)) 0 ds in
      if ds = [] \<or> length ds > k \<or> v > mx
         \<or> (\<not> zero_prefix \<and> hd ds = CHR ''0'' \<and> length ds > 1) then None
      else Some (v, rest))"

definition read_octet :: "string \<Rightarrow> (byte \<times> string) option" where
  "read_octet s = map_option (\<lambda>(v, r). (word_of_nat v, r)) (read_number 10 3 255 False s)"

definition expect :: "char \<Rightarrow> string \<Rightarrow> string option" where
  "expect c s = (case s of [] \<Rightarrow> None | d # ds \<Rightarrow> if c = d then Some ds else None)"

definition read_ipv4 :: "string \<Rightarrow> ((byte \<times> byte \<times> byte \<times> byte) \<times> string) option" where
  "read_ipv4 s =
     Option.bind (read_octet s) (\<lambda>(a, s). Option.bind (expect CHR ''.'' s) (\<lambda>s.
     Option.bind (read_octet s) (\<lambda>(b, s). Option.bind (expect CHR ''.'' s) (\<lambda>s.
     Option.bind (read_octet s) (\<lambda>(c, s). Option.bind (expect CHR ''.'' s) (\<lambda>s.
     Option.bind (read_octet s) (\<lambda>(d, s). Some ((a, b, c, d), s))))))))"

text \<open>\<open>read_groups\<close>: the groups read so far as bytes, whether an IPv4 tail ended them.  The separator is
  read together with the group that follows it, or not at all.\<close>

definition sep :: "nat \<Rightarrow> string \<Rightarrow> string option" where
  "sep i s = (if i = 0 then Some s else expect CHR '':'' s)"

function read_groups :: "nat \<Rightarrow> nat \<Rightarrow> bytes \<Rightarrow> string \<Rightarrow> bytes \<times> bool \<times> string" where
  "read_groups limit i acc s =
     (if i < limit then
        (case (if i + 1 < limit then Option.bind (sep i s) read_ipv4 else None) of
           Some ((a, b, c, d), r) \<Rightarrow> (acc @ [a, b, c, d], True, r)
         | None \<Rightarrow>
             (case Option.bind (sep i s) (read_number 16 4 65535 True) of
                Some (v, r) \<Rightarrow>
                  read_groups limit (i + 1) (acc @ [word_of_nat (v div 256), word_of_nat v]) r
              | None \<Rightarrow> (acc, False, s)))
      else (acc, False, s))"
  by pat_completeness auto
termination
  by (relation "measure (\<lambda>(limit, i, acc, s). limit - i)") auto

declare read_groups.simps [simp del]

definition read_ipv6 :: "string \<Rightarrow> (bytes \<times> string) option" where
  "read_ipv6 s =
     (let (head, head_v4, r) = read_groups 8 0 [] s in
      if length head = 16 then Some (head, r)
      else if head_v4 then None
      else Option.bind (expect CHR '':'' r) (\<lambda>r. Option.bind (expect CHR '':'' r) (\<lambda>r.
        let (tail, _, r) = read_groups (8 - (length head div 2 + 1)) 0 [] r in
        Some (head @ replicate (16 - length head - length tail) 0 @ tail, r))))"

definition parse_ip :: "string \<Rightarrow> ip_addr option" where
  "parse_ip s =
     (case read_ipv4 s of
        Some ((a, b, c, d), r) \<Rightarrow> if r = [] then Some (V4 a b c d) else None
      | None \<Rightarrow> (case read_ipv6 s of Some (g, r) \<Rightarrow> if r = [] then Some (V6 g) else None | None \<Rightarrow> None))"

text \<open>\<open>rsplit(',').next()\<close>: what follows the last comma.\<close>

definition last_entry :: "string \<Rightarrow> string" where
  "last_entry s = rev (takeWhile (\<lambda>c. c \<noteq> CHR '','') (rev s))"

definition parse_client_ip ::
  "ip_addr option \<Rightarrow> string option \<Rightarrow> string option \<Rightarrow> ip_addr list \<Rightarrow> ip_addr" where
  "parse_client_ip peer x_real_ip x_forwarded_for trusted_proxies =
     (let peer = (case map_option to_canonical peer of None \<Rightarrow> V4 127 0 0 1 | Some p \<Rightarrow> p);
          trusted_proxy = (is_loopback peer \<or> (\<exists>tp\<in>set trusted_proxies. to_canonical tp = peer)) in
      if \<not> trusted_proxy then peer
      else case Option.bind x_real_ip (\<lambda>v. parse_ip (trim v)) of
        Some p \<Rightarrow> p
      | None \<Rightarrow>
          (case Option.bind x_forwarded_for (\<lambda>xff. parse_ip (trim (last_entry xff))) of
             Some p \<Rightarrow> p
           | None \<Rightarrow> peer))"

section \<open>Token buckets\<close>

record bucket =
  tokens :: rat
  last_update :: nat

definition token_bucket_new :: "rat \<Rightarrow> nat \<Rightarrow> bucket" where
  "token_bucket_new max_tokens now = \<lparr>tokens = max_tokens, last_update = now\<rparr>"

definition consume :: "rat \<Rightarrow> rat \<Rightarrow> rat \<Rightarrow> nat \<Rightarrow> bucket \<Rightarrow> bool \<times> bucket" where
  "consume max_tokens refill_rate amount now b =
     (let elapsed = rat_of_nat (now - last_update b) / 1000000000;
          tk = min (tokens b + elapsed * refill_rate) max_tokens in
      if tk \<ge> amount then (True, \<lparr>tokens = tk - amount, last_update = now\<rparr>)
      else (False, \<lparr>tokens = tk, last_update = now\<rparr>))"

record limiter_state =
  buckets :: "(ip_addr \<times> bucket) list"
  last_cleanup :: nat

definition SHARD_COUNT :: nat where "SHARD_COUNT = 16"

fun octets :: "ip_addr \<Rightarrow> bytes" where
  "octets (V4 a b c d) = replicate 12 0 @ [a, b, c, d]"
| "octets (V6 o16) = o16"

definition shard_index :: "ip_addr \<Rightarrow> nat" where
  "shard_index ip =
     unat (foldl (\<lambda>hash b. (hash XOR ucast b) * 0x100000001b3) (0xcbf29ce484222325 :: u64) (octets ip))
     mod SHARD_COUNT"

definition rate_limiter_new :: "nat \<Rightarrow> limiter_state list" where
  "rate_limiter_new now = replicate SHARD_COUNT \<lparr>buckets = [], last_cleanup = now\<rparr>"

definition as_secs :: "nat \<Rightarrow> nat" where "as_secs ns = ns div 1000000000"

definition MAX_BUCKETS :: nat where "MAX_BUCKETS = 10000"

text \<open>\<open>str::starts_with\<close> and \<open>str::contains\<close>.\<close>

definition starts_with :: "string \<Rightarrow> string \<Rightarrow> bool" where
  "starts_with s p \<longleftrightarrow> take (length p) s = p"

fun contains_str :: "string \<Rightarrow> string \<Rightarrow> bool" where
  "contains_str [] p = (p = [])"
| "contains_str (c # s) p = (starts_with (c # s) p \<or> contains_str s p)"

definition exempt_path :: "string \<Rightarrow> bool" where
  "exempt_path path \<longleftrightarrow> path \<in> set [''/ping'', ''/health'', ''/metrics'', ''/api-doc/openapi.json'', ''/swagger-ui'',
       ''/api/auth/setup-status'']
     \<or> (\<exists>p\<in>set [''/swagger-ui/'', ''/api/thumbnail/'', ''/api/face/'', ''/api/image/'', ''/api/images/'',
       ''/api/video/'', ''/api/videos/'']. starts_with path p)"

definition is_login_path :: "string \<Rightarrow> bool" where
  "is_login_path path \<longleftrightarrow> contains_str path ''/user-login'' \<or> contains_str path ''/login''
     \<or> contains_str path ''/register''"

definition path_limits :: "string \<Rightarrow> rat \<times> rat" where
  "path_limits path = (if is_login_path path then (10, 1 / 2) else (2000, 100))"

text \<open>\<open>retain\<close> of the buckets used within ten minutes.\<close>

definition drop_stale :: "nat \<Rightarrow> (ip_addr \<times> bucket) list \<Rightarrow> (ip_addr \<times> bucket) list" where
  "drop_stale now bs = filter (\<lambda>(_, b). as_secs (now - last_update b) < 600) bs"

definition cleanup :: "nat \<Rightarrow> limiter_state \<Rightarrow> limiter_state" where
  "cleanup now st =
     (if as_secs (now - last_cleanup st) > 60 \<or> length (buckets st) \<ge> MAX_BUCKETS
      then st\<lparr>buckets := drop_stale now (buckets st), last_cleanup := now\<rparr> else st)"

text \<open>\<open>min_by_key\<close>: the first entry with the least key.\<close>

fun oldest :: "(ip_addr \<times> bucket) list \<Rightarrow> ip_addr option" where
  "oldest [] = None"
| "oldest [(ip, b)] = Some ip"
| "oldest ((ip, b) # (ip2, b2) # bs) =
     (if last_update b \<le> last_update b2 then oldest ((ip, b) # bs) else oldest ((ip2, b2) # bs))"

definition evict :: "nat \<Rightarrow> ip_addr \<Rightarrow> limiter_state \<Rightarrow> limiter_state" where
  "evict now ip st =
     (if length (buckets st) \<ge> MAX_BUCKETS \<and> map_of (buckets st) ip = None then
        let bs = drop_stale now (buckets st) in
        if length bs \<ge> MAX_BUCKETS then
          (case oldest bs of
             Some o_ip \<Rightarrow> st\<lparr>buckets := filter (\<lambda>(i, _). i \<noteq> o_ip) bs\<rparr>
           | None \<Rightarrow> st\<lparr>buckets := bs\<rparr>)
        else st\<lparr>buckets := bs\<rparr>
      else st)"

text \<open>\<open>entry(ip).or_insert_with\<close> followed by the update of the entry in place.\<close>

fun put_bucket :: "ip_addr \<Rightarrow> bucket \<Rightarrow> (ip_addr \<times> bucket) list \<Rightarrow> (ip_addr \<times> bucket) list" where
  "put_bucket ip b [] = [(ip, b)]"
| "put_bucket ip b ((i, c) # bs) = (if i = ip then (i, b) # bs else (i, c) # put_bucket ip b bs)"

text \<open>One request on its shard: the clock is read for the sweep, for a new bucket and for the
  consumption.\<close>

definition shard_call :: "ip_addr \<Rightarrow> rat \<times> rat \<Rightarrow> nat \<Rightarrow> nat \<Rightarrow> nat \<Rightarrow> limiter_state \<Rightarrow> bool \<times> limiter_state" where
  "shard_call ip limits now now_new now_use st =
     (let (max_tokens, refill_rate) = limits;
          st = evict now ip (cleanup now st);
          b = (case map_of (buckets st) ip of Some b \<Rightarrow> b | None \<Rightarrow> token_bucket_new max_tokens now_new);
          (allowed, b) = consume max_tokens refill_rate 1 now_use b in
      (allowed, st\<lparr>buckets := put_bucket ip b (buckets st)\<rparr>))"

record http_req =
  peer_addr :: "ip_addr option"
  x_real_ip :: "string option"
  x_forwarded_for :: "string option"
  req_path :: string

datatype verdict = Forward | TooManyRequests

definition middleware_call :: "ip_addr list \<Rightarrow> http_req \<Rightarrow> nat \<Rightarrow> nat \<Rightarrow> nat \<Rightarrow> limiter_state list
    \<Rightarrow> verdict \<times> limiter_state list" where
  "middleware_call trusted req now now_new now_use shards =
     (let ip = parse_client_ip (peer_addr req) (x_real_ip req) (x_forwarded_for req) trusted;
          path = req_path req in
      if exempt_path path then (Forward, shards)
      else let k = shard_index ip;
               (allowed, st) = shard_call ip (path_limits path) now now_new now_use (shards ! k) in
           (if allowed then Forward else TooManyRequests, shards[k := st]))"

section \<open>Account lockout\<close>

definition LOGIN_FAILURE_THRESHOLD :: nat where "LOGIN_FAILURE_THRESHOLD = 8"
definition LOGIN_FAILURE_WINDOW_SECS :: nat where "LOGIN_FAILURE_WINDOW_SECS = 900"

type_synonym failure_store = "(string \<times> nat list) list"

definition recent :: "nat \<Rightarrow> nat list \<Rightarrow> nat list" where
  "recent now ts = filter (\<lambda>t. as_secs (now - t) < LOGIN_FAILURE_WINDOW_SECS) ts"

fun put_failures :: "string \<Rightarrow> nat list \<Rightarrow> failure_store \<Rightarrow> failure_store" where
  "put_failures k v [] = [(k, v)]"
| "put_failures k v ((j, w) # s) = (if j = k then (j, v) # s else (j, w) # put_failures k v s)"

text \<open>\<open>lower\<close> is \<open>str::to_lowercase\<close>, whose Unicode tables are not modelled.\<close>

definition account_key :: "(string \<Rightarrow> string) \<Rightarrow> string \<Rightarrow> string" where
  "account_key lower username = lower (trim username)"

definition login_allowed_for_account ::
  "(string \<Rightarrow> string) \<Rightarrow> string \<Rightarrow> nat \<Rightarrow> failure_store \<Rightarrow> bool \<times> failure_store" where
  "login_allowed_for_account lower username now store =
     (let key = account_key lower username in
      if key = [] then (False, store)
      else let (allowed, store) =
               (case map_of store key of
                  Some failures \<Rightarrow> let f = recent now failures in
                    (length f < LOGIN_FAILURE_THRESHOLD, put_failures key f store)
                | None \<Rightarrow> (True, store)) in
           (allowed,
            if length store > 500
            then filter (\<lambda>(_, f). f \<noteq> []) (map (\<lambda>(k, f). (k, recent now f)) store) else store))"

definition record_login_failure :: "(string \<Rightarrow> string) \<Rightarrow> string \<Rightarrow> nat \<Rightarrow> failure_store \<Rightarrow> failure_store" where
  "record_login_failure lower username now store =
     (let key = account_key lower username in
      if key = [] then store
      else let failures = (case map_of store key of Some f \<Rightarrow> f | None \<Rightarrow> []);
               failures = recent now (failures @ [now]) in
           filter (\<lambda>(_, v). v \<noteq> []) (put_failures key failures store))"

definition clear_login_failures :: "(string \<Rightarrow> string) \<Rightarrow> string \<Rightarrow> failure_store \<Rightarrow> failure_store" where
  "clear_login_failures lower username store =
     (let key = account_key lower username in
      if key = [] then store else filter (\<lambda>(k, _). k \<noteq> key) store)"

section \<open>Runs of requests\<close>

text \<open>A request with the three clock readings of its handling, and a sequence of them.\<close>

type_synonym arrival = "http_req \<times> nat \<times> nat \<times> nat"

definition client_ip :: "ip_addr list \<Rightarrow> http_req \<Rightarrow> ip_addr" where
  "client_ip trusted req = parse_client_ip (peer_addr req) (x_real_ip req) (x_forwarded_for req) trusted"

fun run_calls :: "ip_addr list \<Rightarrow> arrival list \<Rightarrow> limiter_state list \<Rightarrow> verdict list \<times> limiter_state list" where
  "run_calls trusted [] shards = ([], shards)"
| "run_calls trusted ((req, now, now_new, now_use) # as) shards =
     (let (v, shards) = middleware_call trusted req now now_new now_use shards;
          (vs, shards) = run_calls trusted as shards in (v # vs, shards))"

fun clock_ok :: "nat \<Rightarrow> arrival list \<Rightarrow> bool" where
  "clock_ok t [] = True"
| "clock_ok t ((req, now, now_new, now_use) # as) =
     (t \<le> now \<and> now \<le> now_new \<and> now_new \<le> now_use \<and> clock_ok now_use as)"

text \<open>C20. The forwarding headers of a peer that is neither the local host nor a listed proxy have no
  influence: whatever they say, the request is counted for the canonical address of the peer, and the
  limiter decides and changes the same.\<close>

theorem untrusted_headers_ignored:
  assumes "peer_addr req = Some p" "\<not> is_loopback (to_canonical p)" "to_canonical p \<notin> to_canonical ` set trusted"
  shows "client_ip trusted (req\<lparr>x_real_ip := a, x_forwarded_for := b\<rparr>) = to_canonical p
    \<and> middleware_call trusted (req\<lparr>x_real_ip := a, x_forwarded_for := b\<rparr>) now now_new now_use shards
      = middleware_call trusted req now now_new now_use shards"
proof -
  have ne: "\<not> (\<exists>tp\<in>set trusted. to_canonical tp = to_canonical p)"
    using assms(3) by (metis imageI)
  have "client_ip trusted (req\<lparr>x_real_ip := a, x_forwarded_for := b\<rparr>) = to_canonical p"
    "client_ip trusted req = to_canonical p"
    using assms(1,2) ne by (simp_all add: client_ip_def parse_client_ip_def Let_def)
  then show ?thesis by (simp add: middleware_call_def client_ip_def)
qed

theorem untrusted_headers_ignored_witness:
  "client_ip [V4 10 0 0 1] \<lparr>peer_addr = Some (V6 [0, 0, 0, 0, 0, 0, 0, 0, 0, 0, 0xFF, 0xFF, 192, 168, 1, 7]),
     x_real_ip = Some ''1.2.3.4'', x_forwarded_for = None, req_path = ''/auth/user-login''\<rparr> = V4 192 168 1 7
   \<and> client_ip [V4 10 0 0 1] \<lparr>peer_addr = Some (V4 10 0 0 1),
     x_real_ip = Some '' 1.2.3.4'', x_forwarded_for = None, req_path = ''/auth/user-login''\<rparr> = V4 1 2 3 4"
proof -
  let ?p = "V6 [0, 0, 0, 0, 0, 0, 0, 0, 0, 0, 0xFF, 0xFF, 192, 168, 1, 7]"
  have c: "to_canonical ?p = V4 192 168 1 7" by code_simp
  have "parse_ip (trim '' 1.2.3.4'') = Some (V4 1 2 3 4)" by code_simp
  then have "client_ip [V4 10 0 0 1] \<lparr>peer_addr = Some (V4 10 0 0 1),
     x_real_ip = Some '' 1.2.3.4'', x_forwarded_for = None, req_path = ''/auth/user-login''\<rparr> = V4 1 2 3 4"
    by (simp add: client_ip_def parse_client_ip_def)
  moreover have "client_ip [V4 10 0 0 1] (\<lparr>peer_addr = Some ?p, x_real_ip = None, x_forwarded_for = None,
      req_path = ''/auth/user-login''\<rparr>\<lparr>x_real_ip := Some ''1.2.3.4'', x_forwarded_for := None\<rparr>) = to_canonical ?p"
    by (rule untrusted_headers_ignored[THEN conjunct1]) (simp_all only: c, simp_all)
  ultimately show ?thesis unfolding c by simp
qed

section \<open>The invariant of the limiter\<close>

definition shard_ok :: "nat \<Rightarrow> limiter_state \<Rightarrow> bool" where
  "shard_ok k st \<longleftrightarrow> distinct (map fst (buckets st)) \<and> length (buckets st) \<le> MAX_BUCKETS
     \<and> (\<forall>(ip, b)\<in>set (buckets st). shard_index ip = k \<and> 0 \<le> tokens b \<and> tokens b \<le> 2000)"

definition limiter_ok :: "limiter_state list \<Rightarrow> bool" where
  "limiter_ok shards \<longleftrightarrow> length shards = SHARD_COUNT \<and> (\<forall>k<SHARD_COUNT. shard_ok k (shards ! k))"

lemma shard_index_bound: "shard_index ip < SHARD_COUNT"
  by (simp add: shard_index_def SHARD_COUNT_def)

lemma drop_stale_sub: "set (drop_stale now bs) \<subseteq> set bs" "length (drop_stale now bs) \<le> length bs"
    "distinct (map fst bs) \<Longrightarrow> distinct (map fst (drop_stale now bs))"
  by (auto simp: drop_stale_def distinct_map_filter intro: inj_on_subset)

lemma put_bucket_fst: "set (map fst (put_bucket ip b bs)) = insert ip (set (map fst bs))"
  by (induction bs rule: put_bucket.induct) auto

lemma put_bucket_distinct: "distinct (map fst bs) \<Longrightarrow> distinct (map fst (put_bucket ip b bs))"
proof (induction bs)
  case (Cons x bs)
  then show ?case using put_bucket_fst[of ip b bs] by (cases x) auto
qed simp

lemma put_bucket_set: "set (put_bucket ip b bs) \<subseteq> insert (ip, b) (set bs)"
  by (induction bs rule: put_bucket.induct) auto

lemma put_bucket_map_of: "map_of (put_bucket ip b bs) = (map_of bs)(ip \<mapsto> b)"
  by (induction bs rule: put_bucket.induct) auto

lemma put_bucket_length: "length (put_bucket ip b bs) = (if ip \<in> fst ` set bs then length bs else Suc (length bs))"
  by (induction bs rule: put_bucket.induct) auto

lemma oldest_mem: "oldest bs = Some ip \<Longrightarrow> ip \<in> fst ` set bs"
  by (induction bs rule: oldest.induct) (auto split: if_splits)

lemma oldest_Some: "bs \<noteq> [] \<Longrightarrow> \<exists>ip. oldest bs = Some ip"
  by (induction bs rule: oldest.induct) auto

lemma cleanup_ok: "shard_ok k st \<Longrightarrow> shard_ok k (cleanup now st)"
  using drop_stale_sub[where now = now and bs = "buckets st"] by (fastforce simp: shard_ok_def cleanup_def)

text \<open>After the eviction a shard has room for the address of the request.\<close>

lemma evict_ok:
  assumes ok: "shard_ok k st"
  shows "shard_ok k (evict now ip st)"
    "ip \<in> fst ` set (buckets (evict now ip st)) \<or> length (buckets (evict now ip st)) < MAX_BUCKETS"
proof -
  let ?bs = "drop_stale now (buckets st)"
  have d: "distinct (map fst ?bs)" "length ?bs \<le> MAX_BUCKETS"
    "\<forall>(ip, b)\<in>set ?bs. shard_index ip = k \<and> 0 \<le> tokens b \<and> tokens b \<le> 2000"
    using ok drop_stale_sub[where now = now and bs = "buckets st"] by (auto simp: shard_ok_def)
  have fl: "distinct (map fst (filter (\<lambda>(i, _). i \<noteq> x) ?bs))" for x
    using d(1) by (rule distinct_map_filter)
  have lt: "length (filter (\<lambda>(i, _). i \<noteq> x) ?bs) < MAX_BUCKETS" if old: "oldest ?bs = Some x" for x
  proof -
    obtain b where "(x, b) \<in> set ?bs" using oldest_mem[OF old] by auto
    then have "length (filter (\<lambda>(i, _). i \<noteq> x) ?bs) < length ?bs"
      by (intro length_filter_less[of "(x, b)"]) auto
    then show ?thesis using d(2) by simp
  qed
  have le: "length (filter (\<lambda>(i, _). i \<noteq> x) ?bs) \<le> MAX_BUCKETS" for x
    using d(2) length_filter_le le_trans by blast
  show "shard_ok k (evict now ip st)"
    using ok d fl le by (auto simp: evict_def shard_ok_def Let_def split: option.splits)
  have "map_of (buckets st) ip \<noteq> None \<Longrightarrow> ip \<in> fst ` set (buckets st)"
    by (simp add: map_of_eq_None_iff)
  moreover have "MAX_BUCKETS \<le> length ?bs \<Longrightarrow> oldest ?bs \<noteq> None"
    using oldest_Some[of ?bs] by (cases "?bs = []") (auto simp: MAX_BUCKETS_def)
  ultimately show "ip \<in> fst ` set (buckets (evict now ip st)) \<or> length (buckets (evict now ip st)) < MAX_BUCKETS"
    using lt by (auto simp: evict_def Let_def split: option.splits)
qed

lemma consume_range:
  assumes "consume mx rate 1 now b = (a, b')" "0 \<le> tokens b" "0 \<le> rate" "0 \<le> mx" "mx \<le> 2000"
  shows "0 \<le> tokens b' \<and> tokens b' \<le> 2000"
proof -
  have "0 \<le> rat_of_nat (now - last_update b) / 1000000000 * rate" using assms(3) by simp
  then show ?thesis using assms by (auto simp: consume_def Let_def split: if_splits)
qed

lemma shard_call_ok:
  assumes ok: "shard_ok k st" and ip: "shard_index ip = k" and c: "shard_call ip (path_limits path) now nw us st = (a, st')"
  shows "shard_ok k st'"
proof -
  define s1 where "s1 = evict now ip (cleanup now st)"
  define mx where "mx = fst (path_limits path)"
  define rate where "rate = snd (path_limits path)"
  have l: "path_limits path = (mx, rate)" "0 \<le> rate" "0 \<le> mx" "mx \<le> 2000"
    by (simp_all add: mx_def rate_def path_limits_def)
  define b where "b = (case map_of (buckets s1) ip of Some b \<Rightarrow> b | None \<Rightarrow> token_bucket_new mx nw)"
  obtain a' b' where u: "consume mx rate 1 us b = (a', b')" by (cases "consume mx rate 1 us b")
  have st': "st' = s1\<lparr>buckets := put_bucket ip b' (buckets s1)\<rparr>"
    using c l(1) u by (simp add: shard_call_def s1_def[symmetric] b_def[symmetric] Let_def)
  have s1: "shard_ok k s1" "ip \<in> fst ` set (buckets s1) \<or> length (buckets s1) < MAX_BUCKETS"
    unfolding s1_def by (rule evict_ok[OF cleanup_ok[OF ok]])+
  have "0 \<le> tokens b"
    using s1(1) l unfolding b_def
    by (auto simp: shard_ok_def token_bucket_new_def split: option.split dest!: map_of_SomeD)
  then have "0 \<le> tokens b' \<and> tokens b' \<le> 2000" using consume_range[OF u] l by simp
  then show ?thesis
    using s1 ip put_bucket_distinct[of "buckets s1" ip b'] put_bucket_set[of ip b' "buckets s1"]
      put_bucket_length[of ip b' "buckets s1"]
    unfolding st' shard_ok_def by auto
qed

lemma middleware_call_eq:
  "middleware_call trusted req now nw us sh =
     (if exempt_path (req_path req) then (Forward, sh)
      else let k = shard_index (client_ip trusted req);
               r = shard_call (client_ip trusted req) (path_limits (req_path req)) now nw us (sh ! k) in
        (if fst r then Forward else TooManyRequests, sh[k := snd r]))"
  by (simp add: middleware_call_def client_ip_def Let_def case_prod_beta)

lemma middleware_ok:
  assumes "limiter_ok sh"
  shows "limiter_ok (snd (middleware_call trusted req now nw us sh))"
proof -
  let ?ip = "client_ip trusted req"
  let ?k = "shard_index ?ip"
  have k: "?k < SHARD_COUNT" by (rule shard_index_bound)
  obtain a st where c: "shard_call ?ip (path_limits (req_path req)) now nw us (sh ! ?k) = (a, st)" by fastforce
  have "shard_ok ?k (sh ! ?k)" using assms k by (simp add: limiter_ok_def)
  then have "shard_ok ?k st" using shard_call_ok[OF _ refl c] by simp
  then have "limiter_ok (sh[?k := st])"
    using assms k by (auto simp: limiter_ok_def nth_list_update)
  then show ?thesis using assms c by (simp add: middleware_call_eq Let_def)
qed

lemma run_calls_ok: "limiter_ok sh \<Longrightarrow> limiter_ok (snd (run_calls trusted as sh))"
proof (induction as arbitrary: sh)
  case (Cons a as)
  obtain req now nw us where a: "a = (req, now, nw, us)" by (cases a) auto
  obtain v sh' where m: "middleware_call trusted req now nw us sh = (v, sh')" by fastforce
  have "limiter_ok sh'" using middleware_ok[OF Cons.prems, of trusted req now nw us] by (simp add: m)
  then have "limiter_ok (snd (run_calls trusted as sh'))" by (rule Cons.IH)
  then show ?case by (simp add: a m case_prod_beta)
qed simp

lemma limiter_new_ok: "limiter_ok (rate_limiter_new t)"
  by (simp add: limiter_ok_def rate_limiter_new_def shard_ok_def)

text \<open>Whatever requests arrive, the limiter stays bounded and sorted: sixteen shards, each with at
  most 10000 buckets, one per address, every address in the shard of its hash, and every bucket with
  between zero and 2000 tokens.\<close>

theorem limiter_bounded: "limiter_ok (snd (run_calls trusted as (rate_limiter_new t)))"
  by (rule run_calls_ok[OF limiter_new_ok])

section \<open>The login limit\<close>

text \<open>What a sequence of requests can still get through for an address whose bucket holds at most
  ten tokens, up to time \<open>T\<close>: its tokens and what flows in until then.\<close>

definition credit :: "nat \<Rightarrow> nat \<Rightarrow> bucket option \<Rightarrow> rat" where
  "credit T t b = (case b of
       None \<Rightarrow> 10 + rat_of_nat (T - t) / 2000000000
     | Some c \<Rightarrow> tokens c + rat_of_nat (T - last_update c) / 2000000000)"

definition bucket_ok :: "nat \<Rightarrow> bucket option \<Rightarrow> bool" where
  "bucket_ok t b = (case b of None \<Rightarrow> True | Some c \<Rightarrow> 0 \<le> tokens c \<and> last_update c \<le> t)"

definition bucket_of :: "limiter_state list \<Rightarrow> ip_addr \<Rightarrow> bucket option" where
  "bucket_of sh ip = map_of (buckets (sh ! shard_index ip)) ip"

lemma rat_diff: "(a :: nat) \<le> b \<Longrightarrow> rat_of_nat (b - a) = rat_of_nat b - rat_of_nat a"
  by (rule of_nat_diff)

lemma credit_later: "t \<le> t' \<Longrightarrow> t' \<le> T \<Longrightarrow> credit T t' b \<le> credit T t b"
  by (auto simp: credit_def rat_diff divide_simps split: option.split)

text \<open>A bucket that is swept was idle for ten minutes and would have been full again.\<close>

lemma credit_stale:
  assumes "bucket_ok t (Some c)" "t \<le> now" "now \<le> T" "\<not> as_secs (now - last_update c) < 600"
  shows "credit T now None \<le> credit T t (Some c)"
proof -
  have le: "last_update c \<le> now" "0 \<le> tokens c" using assms(1,2) by (simp_all add: bucket_ok_def)
  have "600 * 1000000000 \<le> now - last_update c"
    using assms(4) by (simp add: as_secs_def less_eq_div_iff_mult_less_eq)
  then have "600 * 1000000000 \<le> rat_of_nat (now - last_update c)"
    by (metis of_nat_le_iff of_nat_mult of_nat_numeral)
  then have "600 * 1000000000 \<le> rat_of_nat now - rat_of_nat (last_update c)" using le by (simp add: rat_diff)
  then show ?thesis using le assms(3) by (simp add: credit_def rat_diff field_simps)
qed

lemma consume_credit:
  assumes u: "consume 10 (1 / 2) 1 us b = (a, b')" and b: "0 \<le> tokens b" "last_update b \<le> us" and T: "us \<le> T"
  shows "(if a then 1 else 0) + credit T us (Some b') \<le> credit T us (Some b)" "bucket_ok us (Some b')"
proof -
  let ?tk = "min (tokens b + rat_of_nat (us - last_update b) / 1000000000 * (1 / 2)) 10"
  have nn: "0 \<le> rat_of_nat (us - last_update b) / 1000000000 * (1 / 2)" by simp
  have b': "tokens b' = (if a then ?tk - 1 else ?tk)" "last_update b' = us" "a \<longrightarrow> 1 \<le> ?tk"
    using u by (auto simp: consume_def Let_def split: if_splits)
  have le: "?tk \<le> tokens b + rat_of_nat (us - last_update b) / 1000000000 * (1 / 2)" by simp
  show "(if a then 1 else 0) + credit T us (Some b') \<le> credit T us (Some b)"
    using b' le b T by (simp add: credit_def rat_diff diff_divide_distrib split: if_splits)
  have "0 \<le> ?tk" using nn b(1) by (simp only: min_def split: if_split) simp
  then show "bucket_ok us (Some b')" using b' by (auto simp: bucket_ok_def)
qed

lemma map_of_filter: "distinct (map fst bs) \<Longrightarrow>
   map_of (filter P (bs :: ('k \<times> 'v) list)) ip = (case map_of bs ip of None \<Rightarrow> None | Some b \<Rightarrow> if P (ip, b) then Some b else None)"
proof (induction bs)
  case (Cons x bs)
  have "map_of bs (fst x) = None" using Cons.prems by (simp add: map_of_eq_None_iff)
  then show ?case using Cons by (cases x) (auto split: option.splits)
qed simp

definition swept :: "nat \<Rightarrow> bucket option \<Rightarrow> bucket option \<Rightarrow> bool" where
  "swept now old new \<longleftrightarrow> new = old
     \<or> (\<exists>c. old = Some c \<and> new = None \<and> \<not> as_secs (now - last_update c) < 600)"

lemma swept_credit:
  assumes "swept now old new" "bucket_ok t old" "t \<le> now" "now \<le> T"
  shows "credit T now new \<le> credit T t old" "bucket_ok now new"
  using assms credit_stale[of t _ now T] credit_later[of t now T old]
  by (auto simp: swept_def bucket_ok_def split: option.splits)

lemma prepared:
  assumes ok: "shard_ok k st" and room: "length (buckets st) < MAX_BUCKETS"
  shows "swept now (map_of (buckets st) x) (map_of (buckets (evict now ip (cleanup now st))) x)"
proof -
  have d: "distinct (map fst (buckets st))" using ok by (simp add: shard_ok_def)
  have "length (buckets (cleanup now st)) < MAX_BUCKETS"
    using room drop_stale_sub(2)[of now "buckets st"] by (simp add: cleanup_def)
  then have e: "evict now ip (cleanup now st) = cleanup now st" by (simp add: evict_def)
  show ?thesis
    unfolding e unfolding cleanup_def drop_stale_def
    by (auto simp: swept_def map_of_filter[OF d] split: option.split)
qed

lemma call_credit:
  assumes ok: "limiter_ok sh" and room: "\<forall>k<SHARD_COUNT. length (buckets (sh ! k)) < MAX_BUCKETS"
    and b: "bucket_ok t (bucket_of sh A)" and clock: "t \<le> now" "now \<le> nw" "nw \<le> us" "us \<le> T"
    and login: "client_ip trusted req = A \<Longrightarrow> \<not> exempt_path (req_path req) \<Longrightarrow> is_login_path (req_path req)"
    and c: "middleware_call trusted req now nw us sh = (v, sh')"
  shows "(if client_ip trusted req = A \<and> \<not> exempt_path (req_path req) \<and> v = Forward then 1 else 0)
      + credit T us (bucket_of sh' A) \<le> credit T t (bucket_of sh A) \<and> bucket_ok us (bucket_of sh' A)"
proof (cases "exempt_path (req_path req)")
  case True
  then have "sh' = sh" using c by (simp add: middleware_call_eq)
  then show ?thesis
    using True credit_later[of t us T "bucket_of sh A"] clock b
    by (auto simp: bucket_ok_def split: option.splits)
next
  case ne: False
  define ip where "ip = client_ip trusted req"
  define k where "k = shard_index ip"
  have k: "k < SHARD_COUNT" "k < length sh" using shard_index_bound ok by (simp_all add: k_def limiter_ok_def)
  define s1 where "s1 = evict now ip (cleanup now (sh ! k))"
  define mx where "mx = fst (path_limits (req_path req))"
  define rate where "rate = snd (path_limits (req_path req))"
  define b0 where "b0 = (case map_of (buckets s1) ip of Some b \<Rightarrow> b | None \<Rightarrow> token_bucket_new mx nw)"
  have pl: "path_limits (req_path req) = (mx, rate)" by (simp add: mx_def rate_def)
  obtain a b' where u: "consume mx rate 1 us b0 = (a, b')" by fastforce
  have call: "shard_call ip (path_limits (req_path req)) now nw us (sh ! k) = (a, s1\<lparr>buckets := put_bucket ip b' (buckets s1)\<rparr>)"
    using u by (simp add: shard_call_def pl s1_def[symmetric] b0_def[symmetric] Let_def)
  have v: "v = (if a then Forward else TooManyRequests)"
    and sh': "sh' = sh[k := s1\<lparr>buckets := put_bucket ip b' (buckets s1)\<rparr>]"
    using c ne call by (simp_all add: middleware_call_eq ip_def[symmetric] k_def[symmetric] Let_def)
  have sw: "swept now (map_of (buckets (sh ! k)) x) (map_of (buckets s1) x)" for x
    unfolding s1_def by (rule prepared[of k]) (use ok room k in \<open>simp_all add: limiter_ok_def\<close>)
  show ?thesis
  proof (cases "ip = A")
    case True
    have old: "bucket_of sh A = map_of (buckets (sh ! k)) A" by (simp add: bucket_of_def k_def True)
    have new: "bucket_of sh' A = Some b'" using k(2) by (simp add: bucket_of_def sh' True[symmetric] k_def[symmetric] put_bucket_map_of)
    have lim: "mx = 10" "rate = 1 / 2" using login ne True by (simp_all add: mx_def rate_def path_limits_def ip_def)
    have "bucket_ok now (map_of (buckets s1) A)" "credit T now (map_of (buckets s1) A) \<le> credit T t (bucket_of sh A)"
      using swept_credit[OF sw, of t A T] b clock old by simp_all
    moreover have b0: "0 \<le> tokens b0" "last_update b0 \<le> us"
      "credit T us (Some b0) \<le> credit T now (map_of (buckets s1) A)"
    proof -
      show "0 \<le> tokens b0" "last_update b0 \<le> us" "credit T us (Some b0) \<le> credit T now (map_of (buckets s1) A)"
        using \<open>bucket_ok now (map_of (buckets s1) A)\<close> clock True
        by (auto simp: b0_def lim token_bucket_new_def bucket_ok_def credit_def rat_diff divide_simps split: option.splits)
    qed
    moreover note consume_credit[OF u[unfolded lim] b0(1,2) clock(4)]
    ultimately show ?thesis using ne v new True by (auto simp: ip_def[symmetric])
  next
    case False
    have new: "bucket_of sh' A = (if shard_index A = k then map_of (buckets s1) A else bucket_of sh A)"
      using k False by (simp add: bucket_of_def sh' nth_list_update put_bucket_map_of)
    have "credit T now (bucket_of sh' A) \<le> credit T t (bucket_of sh A) \<and> bucket_ok now (bucket_of sh' A)"
    proof (cases "shard_index A = k")
      case True
      then show ?thesis using swept_credit[OF sw, of t A T] b clock new by (simp add: bucket_of_def)
    next
      case False
      then show ?thesis using new b clock credit_later[of t now T] by (auto simp: bucket_ok_def split: option.splits)
    qed
    then show ?thesis
      using False credit_later[of now us T "bucket_of sh' A"] clock
      by (auto simp: ip_def[symmetric] bucket_ok_def split: option.splits)
  qed
qed

definition passed :: "ip_addr list \<Rightarrow> ip_addr \<Rightarrow> arrival list \<Rightarrow> verdict list \<Rightarrow> nat" where
  "passed trusted A as vs = length (filter (\<lambda>((req, _), v). client_ip trusted req = A
     \<and> \<not> exempt_path (req_path req) \<and> v = Forward) (zip as vs))"

lemma middleware_keys:
  assumes "limiter_ok sh"
  shows "fst ` set (buckets (snd (middleware_call trusted req now nw us sh) ! k))
    \<subseteq> insert (client_ip trusted req) (fst ` set (buckets (sh ! k)))"
proof -
  let ?ip = "client_ip trusted req"
  let ?j = "shard_index ?ip"
  have j: "?j < length sh" using assms shard_index_bound by (simp add: limiter_ok_def)
  have e: "set (buckets (evict now ip (cleanup now st))) \<subseteq> set (buckets st)" for ip st
    by (auto simp: evict_def cleanup_def drop_stale_def Let_def split: option.splits)
  have p: "fst ` set (put_bucket ip b bs) = insert ip (fst ` set bs)" for ip b bs
    using put_bucket_fst[of ip b bs] by simp
  have "fst ` set (buckets (snd (shard_call ?ip (path_limits (req_path req)) now nw us st)))
      \<subseteq> insert ?ip (fst ` set (buckets st))" for st
    using e[of ?ip st] by (auto simp: shard_call_def Let_def case_prod_beta p)
  then show ?thesis using j by (cases "k = ?j") (auto simp: middleware_call_eq Let_def)
qed

lemma room_of_keys:
  assumes "limiter_ok sh" "\<forall>k<SHARD_COUNT. fst ` set (buckets (sh ! k)) \<subseteq> S" "finite S" "card S < MAX_BUCKETS"
  shows "\<forall>k<SHARD_COUNT. length (buckets (sh ! k)) < MAX_BUCKETS"
proof (intro allI impI)
  fix k assume k: "k < SHARD_COUNT"
  have "length (buckets (sh ! k)) = card (fst ` set (buckets (sh ! k)))"
    using assms(1) k by (metis limiter_ok_def shard_ok_def distinct_card length_map list.set_map)
  also have "\<dots> \<le> card S" using assms(2,3) k by (intro card_mono) simp_all
  finally show "length (buckets (sh ! k)) < MAX_BUCKETS" using assms(4) by simp
qed

lemma login_run:
  assumes "limiter_ok sh" "\<forall>k<SHARD_COUNT. fst ` set (buckets (sh ! k)) \<subseteq> S" "finite S" "card S < MAX_BUCKETS"
    and "(\<lambda>(req, _). client_ip trusted req) ` set as \<subseteq> S"
    and "bucket_ok t (bucket_of sh A)" "clock_ok t as" "\<forall>(_, _, _, us)\<in>set as. us \<le> T" "t \<le> T"
    and "\<forall>(req, _)\<in>set as. client_ip trusted req = A \<and> \<not> exempt_path (req_path req) \<longrightarrow> is_login_path (req_path req)"
  shows "rat_of_nat (passed trusted A as (fst (run_calls trusted as sh))) \<le> credit T t (bucket_of sh A)"
  using assms
proof (induction as arbitrary: sh t)
  case Nil
  then show ?case by (auto simp: passed_def credit_def bucket_ok_def split: option.splits)
next
  case (Cons a as)
  obtain req now nw us where a: "a = (req, now, nw, us)" by (cases a) auto
  obtain v sh' where m: "middleware_call trusted req now nw us sh = (v, sh')" by fastforce
  have ck: "t \<le> now" "now \<le> nw" "nw \<le> us" "us \<le> T" "clock_ok us as" using Cons.prems(7,8) a by auto
  have ok': "limiter_ok sh'" using middleware_ok[OF Cons.prems(1), of trusted req now nw us] m by simp
  have lg: "is_login_path (req_path req)" if "client_ip trusted req = A" "\<not> exempt_path (req_path req)"
    using Cons.prems(10) that a by auto
  have step: "(if client_ip trusted req = A \<and> \<not> exempt_path (req_path req) \<and> v = Forward then 1 else 0)
      + credit T us (bucket_of sh' A) \<le> credit T t (bucket_of sh A)" "bucket_ok us (bucket_of sh' A)"
    using call_credit[OF Cons.prems(1) room_of_keys[OF Cons.prems(1-4)] Cons.prems(6) ck(1-4) lg m] by blast+
  have keys: "\<forall>k<SHARD_COUNT. fst ` set (buckets (sh' ! k)) \<subseteq> S"
  proof (intro allI impI)
    fix k assume k: "k < SHARD_COUNT"
    have "snd (middleware_call trusted req now nw us sh) = sh'" by (simp only: m snd_conv)
    then have "fst ` set (buckets (sh' ! k)) \<subseteq> insert (client_ip trusted req) (fst ` set (buckets (sh ! k)))"
      using middleware_keys[OF Cons.prems(1), of trusted req now nw us k] by (simp only:)
    moreover have "client_ip trusted req \<in> S" using Cons.prems(5) a by simp
    then have "insert (client_ip trusted req) (fst ` set (buckets (sh ! k))) \<subseteq> S" using Cons.prems(2) k by simp
    ultimately show "fst ` set (buckets (sh' ! k)) \<subseteq> S" by (rule subset_trans)
  qed
  have "rat_of_nat (passed trusted A as (fst (run_calls trusted as sh'))) \<le> credit T us (bucket_of sh' A)"
    by (rule Cons.IH[OF ok' keys Cons.prems(3,4) _ step(2) ck(5)]) (use Cons.prems ck in auto)
  moreover have "passed trusted A (a # as) (fst (run_calls trusted (a # as) sh)) =
      (if client_ip trusted req = A \<and> \<not> exempt_path (req_path req) \<and> v = Forward then 1 else 0)
      + passed trusted A as (fst (run_calls trusted as sh'))"
    by (simp add: a m passed_def case_prod_beta)
  ultimately show ?case
    using step(1) by (cases "client_ip trusted req = A \<and> \<not> exempt_path (req_path req) \<and> v = Forward") simp_all
qed

text \<open>A client that only asks for login endpoints gets at most ten requests plus one per two
  seconds through, whatever the other clients do, as long as fewer than 10000 addresses appear.\<close>

theorem login_limit_bound:
  assumes "clock_ok t as" "\<forall>(_, _, _, us)\<in>set as. us \<le> T" "t \<le> T"
    and "\<forall>(req, _)\<in>set as. client_ip trusted req = A \<and> \<not> exempt_path (req_path req) \<longrightarrow> is_login_path (req_path req)"
    and "card ((\<lambda>(req, _). client_ip trusted req) ` set as) < MAX_BUCKETS"
  shows "rat_of_nat (passed trusted A as (fst (run_calls trusted as (rate_limiter_new t))))
    \<le> 10 + rat_of_nat (T - t) / 2000000000"
proof -
  have "bucket_of (rate_limiter_new t) A = None"
    using shard_index_bound by (simp add: bucket_of_def rate_limiter_new_def)
  then show ?thesis
    using login_run[OF limiter_new_ok _ _ assms(5) subset_refl _ assms(1-4), of t]
    by (simp add: rate_limiter_new_def bucket_ok_def credit_def)
qed

section \<open>The shared bucket\<close>

text \<open>Every twenty milliseconds one ordinary and one login request.\<close>

fun alternate :: "http_req \<Rightarrow> http_req \<Rightarrow> nat \<Rightarrow> nat \<Rightarrow> arrival list" where
  "alternate g l t 0 = []"
| "alternate g l t (Suc n) = (g, t, t, t) # (l, t, t, t) # alternate g l (t + 20000000) n"

lemma fresh_kept:
  assumes ok: "shard_ok k st" and b: "map_of (buckets st) ip = Some b" "as_secs (now - last_update b) < 600"
  shows "map_of (buckets (evict now ip (cleanup now st))) ip = Some b"
proof -
  have d: "distinct (map fst (buckets st))" using ok by (simp add: shard_ok_def)
  have "map_of (buckets (cleanup now st)) ip = Some b"
    using b by (simp add: cleanup_def drop_stale_def map_of_filter[OF d])
  then show ?thesis by (simp add: evict_def)
qed

lemma call_present:
  assumes ok: "limiter_ok sh" and ip: "client_ip trusted req = A" "\<not> exempt_path (req_path req)"
    and b: "bucket_of sh A = Some \<lparr>tokens = x, last_update = u\<rparr>" "as_secs (t - u) < 600"
    and l: "path_limits (req_path req) = (mx, rate)"
    and y: "y = min (x + rat_of_nat (t - u) / 1000000000 * rate) mx" "1 \<le> y"
  obtains sh' where "middleware_call trusted req t t t sh = (Forward, sh')" "limiter_ok sh'"
    "bucket_of sh' A = Some \<lparr>tokens = y - 1, last_update = t\<rparr>"
proof -
  let ?k = "shard_index A"
  have k: "?k < SHARD_COUNT" "?k < length sh" using shard_index_bound ok by (simp_all add: limiter_ok_def)
  have "map_of (buckets (evict t A (cleanup t (sh ! ?k)))) A = Some \<lparr>tokens = x, last_update = u\<rparr>"
    by (rule fresh_kept[of ?k]) (use ok k b in \<open>simp_all add: limiter_ok_def bucket_of_def\<close>)
  then have c: "fst (shard_call A (mx, rate) t t t (sh ! ?k))"
    "map_of (buckets (snd (shard_call A (mx, rate) t t t (sh ! ?k)))) A = Some \<lparr>tokens = y - 1, last_update = t\<rparr>"
    using y by (simp_all add: shard_call_def consume_def Let_def put_bucket_map_of)
  define sh' where "sh' = sh[?k := snd (shard_call A (mx, rate) t t t (sh ! ?k))]"
  have m: "middleware_call trusted req t t t sh = (Forward, sh')"
    using c(1) ip l by (simp add: middleware_call_eq sh'_def Let_def)
  moreover have "limiter_ok sh'" using middleware_ok[OF ok, of trusted req t t t] m by simp
  moreover have "bucket_of sh' A = Some \<lparr>tokens = y - 1, last_update = t\<rparr>"
    using c(2) k by (simp add: bucket_of_def sh'_def)
  ultimately show thesis by (rule that)
qed

lemma alternate_run:
  assumes "limiter_ok sh" "bucket_of sh A = Some \<lparr>tokens = 9, last_update = u\<rparr>"
    and g: "client_ip trusted g = A" "\<not> exempt_path (req_path g)" "\<not> is_login_path (req_path g)"
    and l: "client_ip trusted l = A" "\<not> exempt_path (req_path l)" "is_login_path (req_path l)"
  shows "fst (run_calls trusted (alternate g l (u + 20000000) n) sh) = replicate (2 * n) Forward"
  using assms(1,2)
proof (induction n arbitrary: sh u)
  case (Suc n)
  obtain sh1 where m1: "middleware_call trusted g (u + 20000000) (u + 20000000) (u + 20000000) sh = (Forward, sh1)"
    "limiter_ok sh1" "bucket_of sh1 A = Some \<lparr>tokens = 10, last_update = u + 20000000\<rparr>"
    by (rule call_present[OF Suc.prems(1) g(1,2) Suc.prems(2), of "u + 20000000" 2000 100 11])
      (use g in \<open>simp_all add: as_secs_def path_limits_def\<close>)
  obtain sh2 where m2: "middleware_call trusted l (u + 20000000) (u + 20000000) (u + 20000000) sh1 = (Forward, sh2)"
    "limiter_ok sh2" "bucket_of sh2 A = Some \<lparr>tokens = 9, last_update = u + 20000000\<rparr>"
    by (rule call_present[OF m1(2) l(1,2) m1(3), of "u + 20000000" 10 "1 / 2" 10])
      (use l in \<open>simp_all add: as_secs_def path_limits_def\<close>)
  show ?case using Suc.IH[OF m2(2,3)] m1 m2 by (simp add: case_prod_beta)
qed simp

text \<open>Login and other requests of an address draw on one bucket, so ordinary requests lift the
  login limit: a client that sends one ordinary request before every login request, every twenty
  milliseconds, is never refused, and makes fifty login attempts per second where the limit for login
  requests alone is one per two seconds.\<close>

theorem login_limit_bypassed:
  assumes g: "client_ip trusted g = A" "\<not> exempt_path (req_path g)" "\<not> is_login_path (req_path g)"
    and l: "client_ip trusted l = A" "\<not> exempt_path (req_path l)" "is_login_path (req_path l)"
  shows "fst (run_calls trusted (alternate g l t n) (rate_limiter_new t)) = replicate (2 * n) Forward"
proof (cases n)
  case (Suc m)
  let ?k = "shard_index A"
  let ?s0 = "rate_limiter_new t"
  have k: "?k < length ?s0" "?s0 ! ?k = \<lparr>buckets = [], last_cleanup = t\<rparr>"
    using shard_index_bound by (simp_all add: rate_limiter_new_def)
  define s1 where "s1 = ?s0[?k := \<lparr>buckets = [(A, \<lparr>tokens = 1999, last_update = t\<rparr>)], last_cleanup = t\<rparr>]"
  have m1: "middleware_call trusted g t t t ?s0 = (Forward, s1)"
    using g k by (simp add: middleware_call_eq s1_def shard_call_def path_limits_def cleanup_def evict_def
        consume_def token_bucket_new_def Let_def as_secs_def MAX_BUCKETS_def)
  have ok1: "limiter_ok s1" using middleware_ok[OF limiter_new_ok, of trusted g t t t t] m1 by simp
  have b1: "bucket_of s1 A = Some \<lparr>tokens = 1999, last_update = t\<rparr>" using k by (simp add: bucket_of_def s1_def)
  obtain s2 where m2: "middleware_call trusted l t t t s1 = (Forward, s2)"
    "limiter_ok s2" "bucket_of s2 A = Some \<lparr>tokens = 9, last_update = t\<rparr>"
    by (rule call_present[OF ok1 l(1,2) b1, of t 10 "1 / 2" 10])
      (use l in \<open>simp_all add: as_secs_def path_limits_def\<close>)
  show ?thesis
    using alternate_run[OF m2(2,3) g l, of m] m1 m2(1) Suc by (simp add: case_prod_beta)
qed simp

definition lan_req :: "string \<Rightarrow> http_req" where
  "lan_req path = \<lparr>peer_addr = Some (V4 192 168 1 7), x_real_ip = None, x_forwarded_for = None, req_path = path\<rparr>"

lemma lan_reqs: "client_ip [] (lan_req p) = V4 192 168 1 7"
    "\<not> exempt_path ''/api/search''" "\<not> is_login_path ''/api/search''"
    "\<not> exempt_path ''/auth/user-login''" "is_login_path ''/auth/user-login''"
  by (simp_all add: client_ip_def parse_client_ip_def lan_req_def exempt_path_def is_login_path_def starts_with_def)

theorem login_limit_bypassed_witness:
  "fst (run_calls [] (alternate (lan_req ''/api/search'') (lan_req ''/auth/user-login'') 5 100) (rate_limiter_new 5))
     = replicate 200 Forward"
  using login_limit_bypassed[of "[]" "lan_req ''/api/search''" "V4 192 168 1 7" "lan_req ''/auth/user-login''" 5 100] lan_reqs
  by (simp add: lan_req_def)

theorem login_limit_bound_witness:
  "rat_of_nat (passed [] (V4 192 168 1 7) (replicate 12 (lan_req ''/auth/user-login'', 5, 5, 5))
     (fst (run_calls [] (replicate 12 (lan_req ''/auth/user-login'', 5, 5, 5)) (rate_limiter_new 5)))) \<le> 10"
proof -
  have "clock_ok 5 (replicate n (lan_req ''/auth/user-login'', 5, 5, 5))" for n by (induction n) simp_all
  then show ?thesis
    using login_limit_bound[of 5 "replicate 12 (lan_req ''/auth/user-login'', 5, 5, 5)" 5 "[]" "V4 192 168 1 7"] lan_reqs
    by (simp add: MAX_BUCKETS_def lan_req_def)
qed

section \<open>The lockout\<close>

text \<open>What happens to an account: an attempt is checked, fails or succeeds.\<close>

datatype account_event = Check string nat | Failure string nat | Success string

fun event_time :: "account_event \<Rightarrow> nat" where
  "event_time (Check u t) = t"
| "event_time (Failure u t) = t"
| "event_time (Success u) = 0"

fun run_events :: "(string \<Rightarrow> string) \<Rightarrow> account_event list \<Rightarrow> failure_store \<Rightarrow> bool list" where
  "run_events lower [] store = []"
| "run_events lower (Check u t # es) store =
     (let (ok, store) = login_allowed_for_account lower u t store in ok # run_events lower es store)"
| "run_events lower (Failure u t # es) store = run_events lower es (record_login_failure lower u t store)"
| "run_events lower (Success u # es) store = run_events lower es (clear_login_failures lower u store)"

text \<open>The contract: an attempt is allowed when the account has fewer than eight failures since its
  last success that are younger than fifteen minutes.  Nothing is ever swept.\<close>

fun spec_events :: "(string \<Rightarrow> string) \<Rightarrow> account_event list \<Rightarrow> (string \<Rightarrow> nat list) \<Rightarrow> bool list" where
  "spec_events lower [] hist = []"
| "spec_events lower (Check u t # es) hist =
     (account_key lower u \<noteq> [] \<and> length (recent t (hist (account_key lower u))) < LOGIN_FAILURE_THRESHOLD)
     # spec_events lower es hist"
| "spec_events lower (Failure u t # es) hist =
     spec_events lower es (hist(account_key lower u := hist (account_key lower u) @ [t]))"
| "spec_events lower (Success u # es) hist = spec_events lower es (hist(account_key lower u := []))"

fun ordered :: "nat \<Rightarrow> account_event list \<Rightarrow> bool" where
  "ordered t [] = True"
| "ordered t (Success u # es) = ordered t es"
| "ordered t (e # es) = (t \<le> event_time e \<and> ordered (event_time e) es)"

definition stored :: "failure_store \<Rightarrow> string \<Rightarrow> nat list" where
  "stored store k = (case map_of store k of None \<Rightarrow> [] | Some f \<Rightarrow> f)"

definition store_rel :: "nat \<Rightarrow> failure_store \<Rightarrow> (string \<Rightarrow> nat list) \<Rightarrow> bool" where
  "store_rel t store hist \<longleftrightarrow> distinct (map fst store)
     \<and> (\<forall>k t'. t \<le> t' \<longrightarrow> k \<noteq> [] \<longrightarrow> recent t' (stored store k) = recent t' (hist k))"

lemma recent_recent: "t \<le> t' \<Longrightarrow> recent t' (recent t ts) = recent t' ts"
proof -
  assume "t \<le> t'"
  then have "as_secs (t - x) \<le> as_secs (t' - x)" for x
    by (simp add: as_secs_def div_le_mono)
  then have "as_secs (t' - x) < LOGIN_FAILURE_WINDOW_SECS \<Longrightarrow> as_secs (t - x) < LOGIN_FAILURE_WINDOW_SECS" for x
    using le_less_trans by blast
  then show ?thesis unfolding recent_def filter_filter by (intro filter_cong) auto
qed

lemma recent_append: "recent t (a @ b) = recent t a @ recent t b"
  by (simp add: recent_def)

lemma put_failures_map_of: "map_of (put_failures k v s) = (map_of s)(k \<mapsto> v)"
  by (induction s rule: put_failures.induct) auto

lemma put_failures_keys: "set (map fst (put_failures k v s)) = insert k (set (map fst s))"
  by (induction s rule: put_failures.induct) auto

lemma put_failures_distinct: "distinct (map fst s) \<Longrightarrow> distinct (map fst (put_failures k v s))"
proof (induction s)
  case (Cons x s)
  then show ?case using put_failures_keys[of k v s] by (cases x) auto
qed simp

lemma stored_put: "stored (put_failures k v s) j = (if j = k then v else stored s j)"
  by (simp add: stored_def put_failures_map_of)

lemma stored_filter:
  assumes "distinct (map fst s)"
  shows "stored (filter (\<lambda>(_, f). f \<noteq> []) s) j = stored s j"
proof -
  show ?thesis by (auto simp: stored_def map_of_filter[OF assms] split: option.splits)
qed

lemma stored_recent: "stored (map (\<lambda>(k, f). (k, recent t f)) s) j = recent t (stored s j)"
  by (induction s) (auto simp: stored_def recent_def split: option.splits)

lemma check_rel:
  assumes r: "store_rel t0 store hist" and t: "t0 \<le> t" and c: "login_allowed_for_account lower u t store = (ok, store')"
  shows "ok = (account_key lower u \<noteq> [] \<and> length (recent t (hist (account_key lower u))) < LOGIN_FAILURE_THRESHOLD)"
    "store_rel t store' hist"
proof -
  let ?k = "account_key lower u"
  have d: "distinct (map fst store)" and eq: "\<And>k t'. t0 \<le> t' \<Longrightarrow> k \<noteq> [] \<Longrightarrow> recent t' (stored store k) = recent t' (hist k)"
    using r by (simp_all add: store_rel_def)
  define s1 where "s1 = (if map_of store ?k = None then store else put_failures ?k (recent t (stored store ?k)) store)"
  have d1: "distinct (map fst s1)" using d put_failures_distinct by (simp add: s1_def)
  have st1: "recent t' (stored s1 j) = recent t' (stored store j)" if "t \<le> t'" for j t'
    using recent_recent[OF that] by (auto simp: s1_def stored_put)
  have d2: "distinct (map fst (filter (\<lambda>(_, f). f \<noteq> []) (map (\<lambda>(k, f). (k, recent t f)) s1)))"
    using d1 by (intro distinct_map_filter) (simp add: comp_def case_prod_beta)
  show "ok = (?k \<noteq> [] \<and> length (recent t (hist ?k)) < LOGIN_FAILURE_THRESHOLD)"
    using c eq[OF t, of ?k]
    by (auto simp: login_allowed_for_account_def stored_def recent_def LOGIN_FAILURE_THRESHOLD_def Let_def
        split: if_splits option.splits)
  have "store' = (if ?k = [] then store else if length s1 > 500
      then filter (\<lambda>(_, f). f \<noteq> []) (map (\<lambda>(k, f). (k, recent t f)) s1) else s1)"
    using c by (auto simp: login_allowed_for_account_def s1_def stored_def Let_def split: if_splits option.splits)
  moreover have "recent t' (stored (filter (\<lambda>(_, f). f \<noteq> []) (map (\<lambda>(k, f). (k, recent t f)) s1)) j) = recent t' (stored s1 j)"
    if "t \<le> t'" for j t'
    using stored_filter[of "map (\<lambda>(k, f). (k, recent t f)) s1" j] d1 recent_recent[OF that]
    by (simp add: stored_recent comp_def case_prod_beta)
  ultimately show "store_rel t store' hist"
    using d d1 d2 st1 eq t unfolding store_rel_def by (auto split: if_splits)
qed

lemma failure_rel:
  assumes r: "store_rel t0 store hist" and t: "t0 \<le> t"
  shows "store_rel t (record_login_failure lower u t store) (hist(account_key lower u := hist (account_key lower u) @ [t]))"
proof (cases "account_key lower u = []")
  case True
  then show ?thesis using r t by (auto simp: record_login_failure_def store_rel_def)
next
  case False
  let ?k = "account_key lower u"
  have d: "distinct (map fst store)" and eq: "\<And>k t'. t0 \<le> t' \<Longrightarrow> k \<noteq> [] \<Longrightarrow> recent t' (stored store k) = recent t' (hist k)"
    using r by (simp_all add: store_rel_def)
  define p where "p = put_failures ?k (recent t (stored store ?k @ [t])) store"
  have dp: "distinct (map fst p)" unfolding p_def by (rule put_failures_distinct[OF d])
  have st: "record_login_failure lower u t store = filter (\<lambda>(_, v). v \<noteq> []) p"
    using False by (simp add: record_login_failure_def p_def stored_def Let_def)
  have "recent t' (stored p j) = recent t' ((hist(?k := hist ?k @ [t])) j)" if "t \<le> t'" "j \<noteq> []" for j t'
    using that eq[of t' j] t recent_recent[OF that(1)] by (auto simp: p_def stored_put recent_append)
  then show ?thesis
    using stored_filter[OF dp] distinct_map_filter[OF dp] by (simp add: store_rel_def st)
qed

lemma success_rel:
  assumes r: "store_rel t store hist"
  shows "store_rel t (clear_login_failures lower u store) (hist(account_key lower u := []))"
proof (cases "account_key lower u = []")
  case True
  then show ?thesis using r by (auto simp: clear_login_failures_def store_rel_def)
next
  case False
  have d: "distinct (map fst store)" using r by (simp add: store_rel_def)
  have "stored (filter (\<lambda>(k, _). k \<noteq> account_key lower u) store) j = (if j = account_key lower u then [] else stored store j)" for j
    by (auto simp: stored_def map_of_filter[OF d] split: option.splits)
  then show ?thesis
    using r False distinct_map_filter[OF d] by (auto simp: clear_login_failures_def store_rel_def recent_def Let_def)
qed

lemma run_events_spec:
  "store_rel t store hist \<Longrightarrow> ordered t es \<Longrightarrow> run_events lower es store = spec_events lower es hist"
proof (induction es arbitrary: t store hist)
  case (Cons e es)
  show ?case
  proof (cases e)
    case (Check u t')
    obtain ok store' where c: "login_allowed_for_account lower u t' store = (ok, store')" by fastforce
    have "t \<le> t'" "ordered t' es" using Cons.prems(2) Check by simp_all
    then show ?thesis
      using check_rel[OF Cons.prems(1) _ c] Cons.IH[of t' store' hist] c Check by simp
  next
    case (Failure u t')
    then have t: "t \<le> t'" "ordered t' es" using Cons.prems(2) by simp_all
    show ?thesis
      unfolding Failure run_events.simps spec_events.simps
      by (rule Cons.IH[OF failure_rel[OF Cons.prems(1) t(1)] t(2)])
  next
    case (Success u)
    then have t: "ordered t es" using Cons.prems(2) by simp
    show ?thesis
      unfolding Success run_events.simps spec_events.simps
      by (rule Cons.IH[OF success_rel[OF Cons.prems(1)] t])
  qed
qed simp

text \<open>C19. The account lockout implements its contract: whatever attempts are checked, failed and
  succeeded in order of time, on whatever accounts, each check answers whether the named account (its
  name trimmed and in lower case, and not empty) has had fewer than eight failures within the last
  fifteen minutes since its last success; the sweeps of the table never change an answer.\<close>

theorem lockout_refines_history:
  assumes "ordered t es"
  shows "run_events lower es [] = spec_events lower es (\<lambda>_. [])"
  by (rule run_events_spec[OF _ assms]) (simp add: store_rel_def stored_def)

theorem lockout_refines_history_witness:
  "run_events id (map (Failure ''bob'') [1, 2, 3, 4, 5, 6, 7, 8] @ [Check '' bob'' 900000000000, Check ''bob'' 900000000002,
      Success ''bob'', Check ''bob'' 900000000003]) []
     = [False, True, True]"
  using lockout_refines_history[of 0 "map (Failure ''bob'') [1, 2, 3, 4, 5, 6, 7, 8] @ [Check '' bob'' 900000000000,
      Check ''bob'' 900000000002, Success ''bob'', Check ''bob'' 900000000003]" id]
  by (simp add: account_key_def trim_def is_space_def recent_def as_secs_def LOGIN_FAILURE_WINDOW_SECS_def
      LOGIN_FAILURE_THRESHOLD_def)

end
