(* ===== verification/Accounts.thy ===== *)
theory Accounts
  imports RateLimit
begin

text \<open>
  Accounts and sessions: \<open>auth_utils.rs\<close>, \<open>services/auth.rs\<close> and \<open>services/user_management.rs\<close>.
  The state is the table of users, the process-wide cache of roles and the table of login failures.
  Every handler is a function from the request, what the environment answers and the state to the
  response and the new state.

  Parameters are the token library (\<open>jsonwebtoken\<close>), the password hash (\<open>argon2\<close>), the parser of
  UUIDs, and which database call of a request fails.  UUIDs are their canonical text.  A transaction
  that is dropped without a commit leaves the table as it was.
\<close>

section \<open>State and environment\<close>

record claims =
  c_user_id :: string
  c_username :: string
  c_email :: string
  c_role :: string
  c_exp :: nat
  c_scope :: "string option"

record user_row =
  u_id :: string
  u_username :: string
  u_email :: string
  u_password_hash :: string
  u_role :: string
  u_active :: bool

record cached_status =
  cs_role :: string
  cs_active :: bool
  cs_at :: nat

record accounts =
  users :: "user_row list"
  user_cache :: "(string \<times> cached_status) list"
  failures :: failure_store

record auth_ext =
  parse_uuid :: "string \<Rightarrow> string option"
  jwt_decode :: "string \<Rightarrow> nat \<Rightarrow> string \<Rightarrow> claims option"
  jwt_encode :: "string \<Rightarrow> claims \<Rightarrow> string option"
  argon_hash :: "nat \<Rightarrow> string \<Rightarrow> string option"
  argon_verify :: "string \<Rightarrow> string \<Rightarrow> bool option"
  to_lowercase :: "string \<Rightarrow> string"

text \<open>One request: the clock in nanoseconds and in seconds of the calendar, the salt drawn, the id the
  database would generate, and the failing database calls in the order of the handler.\<close>

record call_env =
  e_now :: nat
  e_unix :: nat
  e_salt :: nat
  e_new_id :: string
  e_fails :: "nat \<Rightarrow> bool"

datatype response = Status nat string | Listed "user_row list" | Created_user string

datatype login_error = Login_error nat string

record login_outcome =
  lo_token :: string
  lo_user_id :: string
  lo_username :: string
  lo_role :: string

section \<open>The table of users\<close>

datatype db_error = Unique_violation | Query_failed

definition find_user :: "user_row list \<Rightarrow> string \<Rightarrow> user_row option" where
  "find_user us i = find (\<lambda>u. u_id u = i) us"

text \<open>\<open>INSERT INTO users\<close> under the constraints of the schema: columns of at most 255 characters (the
  role 50), unique id, user name and email.\<close>

definition insert_user :: "user_row \<Rightarrow> user_row list \<Rightarrow> db_error + user_row list" where
  "insert_user u us =
     (if length (u_username u) > 255 \<or> length (u_email u) > 255 \<or> length (u_password_hash u) > 255
         \<or> length (u_role u) > 50 then Inl Query_failed
      else if (\<exists>v\<in>set us. u_id v = u_id u \<or> u_username v = u_username u \<or> u_email v = u_email u)
      then Inl Unique_violation
      else Inr (us @ [u]))"

definition update_users :: "string \<Rightarrow> (user_row \<Rightarrow> user_row) \<Rightarrow> user_row list \<Rightarrow> user_row list" where
  "update_users i f us = map (\<lambda>u. if u_id u = i then f u else u) us"

section \<open>The cache of roles\<close>

definition cache_remove :: "string \<Rightarrow> (string \<times> cached_status) list \<Rightarrow> (string \<times> cached_status) list" where
  "cache_remove i cache = filter (\<lambda>(k, _). k \<noteq> i) cache"

definition invalidate_user_cache :: "string \<Rightarrow> accounts \<Rightarrow> accounts" where
  "invalidate_user_cache i w = w\<lparr>user_cache := cache_remove i (user_cache w)\<rparr>"

definition secs :: "nat \<Rightarrow> nat" where "secs n = n * 1000000000"

definition get_cached_or_query_user_status ::
  "call_env \<Rightarrow> string \<Rightarrow> accounts \<Rightarrow> (string + string \<times> bool) \<times> accounts" where
  "get_cached_or_query_user_status E i w =
     (let w = (if length (user_cache w) > 500
               then w\<lparr>user_cache := filter (\<lambda>(_, c). e_now E - cs_at c < secs 60) (user_cache w)\<rparr> else w);
          hit = (case map_of (user_cache w) i of
                   Some c \<Rightarrow> if e_now E - cs_at c < secs 5 then Some (cs_role c, cs_active c) else None
                 | None \<Rightarrow> None) in
      case hit of
        Some s \<Rightarrow> (Inr s, w)
      | None \<Rightarrow>
          if e_fails E 0 then (Inl ''Database connection failed'', w)
          else if e_fails E 1 then (Inl ''Database error'', w)
          else (case find_user (users w) i of
                  Some u \<Rightarrow>
                    (Inr (u_role u, u_active u),
                     w\<lparr>user_cache := (i, \<lparr>cs_role = u_role u, cs_active = u_active u, cs_at = e_now E\<rparr>)
                                     # cache_remove i (user_cache w)\<rparr>)
                | None \<Rightarrow> (Inl ''User not found'', w)))"

section \<open>Tokens of a request\<close>

definition bearer :: string where "bearer = ''Bearer ''"

text \<open>\<open>trim_start_matches\<close>: the prefix is removed as often as it occurs.\<close>

function trim_bearer :: "string \<Rightarrow> string" where
  "trim_bearer s = (if starts_with s bearer then trim_bearer (drop (length bearer) s) else s)"
  by pat_completeness auto
termination
proof (relation "measure length")
  fix s assume "starts_with s bearer"
  then have "s \<noteq> []" by (auto simp: starts_with_def bearer_def)
  then show "(drop (length bearer) s, s) \<in> measure length" by (simp add: bearer_def)
qed simp

declare trim_bearer.simps [simp del]

definition request_token :: "string option \<Rightarrow> string option \<Rightarrow> string option" where
  "request_token authorization cookie =
     (case authorization of
        Some s \<Rightarrow> if starts_with s bearer then Some (trim_bearer s) else cookie
      | None \<Rightarrow> cookie)"

definition MEDIA_READ_SAFE_HANDLERS :: "string list" where
  "MEDIA_READ_SAFE_HANDLERS = [''get_image'', ''get_video'']"

definition authenticate_request :: "auth_ext \<Rightarrow> call_env \<Rightarrow> string option \<Rightarrow> string option \<Rightarrow> string
    \<Rightarrow> string + string \<Rightarrow> accounts \<Rightarrow> (response + claims) \<times> accounts" where
  "authenticate_request X E authorization cookie handler_name api_secret w =
     (case api_secret of
        Inl e \<Rightarrow> (Inl (Status 500 e), w)
      | Inr secret \<Rightarrow>
          (case Option.bind (request_token authorization cookie) (jwt_decode X secret (e_unix E)) of
             None \<Rightarrow> (Inl (Status 401 ''Authentication required''), w)
           | Some cl \<Rightarrow>
               if c_scope cl = Some ''media_read'' \<and> handler_name \<notin> set MEDIA_READ_SAFE_HANDLERS
               then (Inl (Status 403 ''Insufficient token scope''), w)
               else (case parse_uuid X (c_user_id cl) of
                       None \<Rightarrow> (Inl (Status 401 ''Invalid user ID in token''), w)
                     | Some i \<Rightarrow>
                         (case get_cached_or_query_user_status E i w of
                            (Inl e, w) \<Rightarrow> (Inl (Status 401 ''User not found or database error''), w)
                          | (Inr (role, active), w) \<Rightarrow>
                              if \<not> active then (Inl (Status 401 ''Account is disabled''), w)
                              else (Inr (cl\<lparr>c_role := role\<rparr>), w)))))"

definition media_paths :: "string list" where
  "media_paths = [''/api/image/'', ''/api/video/'', ''/api/media/'', ''/api/images/'', ''/api/videos/'',
     ''/api/faces/'', ''/api/thumbnail/'']"

text \<open>\<open>impl FromRequest for Claims\<close>; the secret is the configured key or the empty string.  A status that
  could not be determined is the error of the lookup.\<close>

definition from_request :: "auth_ext \<Rightarrow> call_env \<Rightarrow> string option \<Rightarrow> string option \<Rightarrow> string \<Rightarrow> string
    \<Rightarrow> string option \<Rightarrow> accounts \<Rightarrow> (response + claims) \<times> accounts" where
  "from_request X E authorization cookie http_method path secret w =
     (case request_token authorization cookie of
        None \<Rightarrow> (Inl (Status 401 ''Authentication required''), w)
      | Some tok \<Rightarrow>
          (case jwt_decode X (case secret of Some s \<Rightarrow> s | None \<Rightarrow> []) (e_unix E) tok of
             None \<Rightarrow> (Inl (Status 401 ''Invalid token''), w)
           | Some cl \<Rightarrow>
               if c_scope cl = Some ''media_read''
                  \<and> (http_method \<noteq> ''GET'' \<or> \<not> (\<exists>p\<in>set media_paths. starts_with path p))
               then (Inl (Status 403 ''Token is restricted to media read access only''), w)
               else (case parse_uuid X (c_user_id cl) of
                       None \<Rightarrow> (Inl (Status 401 ''Invalid user ID in token''), w)
                     | Some i \<Rightarrow>
                         (case get_cached_or_query_user_status E i w of
                            (Inl e, w) \<Rightarrow> (Inl (Status (if e = ''User not found'' then 401 else 500) e), w)
                          | (Inr (role, active), w) \<Rightarrow>
                              if \<not> active then (Inl (Status 401 ''Account is disabled''), w)
                              else (Inr (cl\<lparr>c_role := role\<rparr>), w)))))"

section \<open>Login\<close>

text \<open>The result carries whether the password was compared, which the bound on guesses counts.  The
  failure of the statement that stamps the login is ignored.\<close>

definition perform_login :: "auth_ext \<Rightarrow> call_env \<Rightarrow> string + string \<Rightarrow> string \<Rightarrow> string \<Rightarrow> accounts
    \<Rightarrow> bool \<times> (login_error + login_outcome) \<times> accounts" where
  "perform_login X E api_key username password w =
     (if trim username = [] \<or> password = []
      then (False, Inl (Login_error 400 ''Username and password are required''), w)
      else let (allowed, store) = login_allowed_for_account (to_lowercase X) username (e_now E) (failures w);
               w = w\<lparr>failures := store\<rparr>;
               failed = w\<lparr>failures := record_login_failure (to_lowercase X) username (e_now E) store\<rparr> in
      if \<not> allowed then (False, Inl (Login_error 429 ''Too many failed attempts. Try again later.''), w)
      else if e_fails E 0 then (False, Inl (Login_error 500 ''Database connection failed''), w)
      else if e_fails E 1 then (False, Inl (Login_error 500 ''Login failed''), w)
      else (case find (\<lambda>u. u_username u = username) (users w) of
              None \<Rightarrow> (False, Inl (Login_error 401 ''Invalid username or password''), failed)
            | Some u \<Rightarrow>
                if \<not> u_active u then (False, Inl (Login_error 401 ''Account is disabled''), failed)
                else (case argon_verify X password (u_password_hash u) of
                        Some True \<Rightarrow>
                          (case api_key of
                             Inl e \<Rightarrow> (True, Inl (Login_error 500 (''Configuration error: '' @ e)), w)
                           | Inr key \<Rightarrow>
                               (case jwt_encode X key \<lparr>c_user_id = u_id u, c_username = username, c_email = [],
                                      c_role = u_role u, c_exp = e_unix E + 7 * 86400, c_scope = None\<rparr> of
                                  None \<Rightarrow> (True, Inl (Login_error 500 ''Failed to generate token''), w)
                                | Some t \<Rightarrow>
                                    (True, Inr \<lparr>lo_token = t, lo_user_id = u_id u, lo_username = u_username u,
                                               lo_role = u_role u\<rparr>,
                                     w\<lparr>failures := clear_login_failures (to_lowercase X) username store\<rparr>)))
                      | Some False \<Rightarrow> (True, Inl (Login_error 401 ''Invalid username or password''), failed)
                      | None \<Rightarrow> (True, Inl (Login_error 500 ''Authentication failed''), w))))"

text \<open>The claims of the image token that a login and \<open>get_me\<close> hand out.\<close>

definition image_claims :: "call_env \<Rightarrow> string \<Rightarrow> string \<Rightarrow> string \<Rightarrow> string \<Rightarrow> claims" where
  "image_claims E user_id username email role =
     \<lparr>c_user_id = user_id, c_username = username, c_email = email, c_role = role,
      c_exp = e_unix E + 24 * 3600, c_scope = Some ''media_read''\<rparr>"

section \<open>Setup and user management\<close>

definition setup_status :: "call_env \<Rightarrow> accounts \<Rightarrow> response + bool" where
  "setup_status E w = (if e_fails E 0 \<or> e_fails E 1 then Inl (Status 500 []) else Inr (users w = []))"

definition setup_admin :: "auth_ext \<Rightarrow> call_env \<Rightarrow> string \<Rightarrow> string \<Rightarrow> accounts \<Rightarrow> response \<times> accounts" where
  "setup_admin X E username password w =
     (if length username < 3 \<or> length password < 8 then (Status 400 ''Username must be >= 3 chars and password >= 8 chars'', w)
      else if e_fails E 0 then (Status 500 [], w)
      else if e_fails E 1 then (Status 500 ''Database transaction failed'', w)
      else if e_fails E 2 then (Status 500 ''Failed to acquire setup lock'', w)
      else if e_fails E 3 then (Status 500 ''Database query failed'', w)
      else if length (users w) > 0 then (Status 403 ''Setup already completed'', w)
      else (case argon_hash X (e_salt E) password of
              None \<Rightarrow> (Status 500 [], w)
            | Some h \<Rightarrow>
                (case (if e_fails E 4 then Inl Query_failed
                       else insert_user \<lparr>u_id = e_new_id E, u_username = username, u_email = username @ ''@local'',
                              u_password_hash = h, u_role = ''admin'', u_active = True\<rparr> (users w)) of
                   Inl e \<Rightarrow> (Status 500 ''Setup failed'', w)
                 | Inr us \<Rightarrow>
                     if e_fails E 5 then (Status 500 ''Failed to commit setup'', w)
                     else (Status 201 ''ok'', w\<lparr>users := us\<rparr>))))"

definition register_user :: response where
  "register_user = Status 403 ''Registration is disabled. Contact your administrator.''"

definition valid_role :: "string \<Rightarrow> bool" where
  "valid_role r \<longleftrightarrow> r \<in> set [''admin'', ''user'', ''viewer'']"

definition list_users :: "call_env \<Rightarrow> claims \<Rightarrow> accounts \<Rightarrow> response" where
  "list_users E cl w =
     (if c_role cl \<noteq> ''admin'' then Status 403 ''Admin only''
      else if e_fails E 2 then Status 500 ''Failed to get database connection''
      else if e_fails E 3 then Status 500 ''Failed to list users''
      else Listed (users w))"

definition create_user :: "auth_ext \<Rightarrow> call_env \<Rightarrow> claims \<Rightarrow> string \<Rightarrow> string \<Rightarrow> string option \<Rightarrow> accounts \<Rightarrow> response \<times> accounts" where
  "create_user X E cl username password role w =
     (if c_role cl \<noteq> ''admin'' then (Status 403 ''Admin only'', w)
      else if length username < 3 \<or> length password < 8
      then (Status 400 ''Username must be >= 3 chars and password >= 8 chars'', w)
      else let r = (case role of Some r \<Rightarrow> r | None \<Rightarrow> ''user'') in
      if \<not> valid_role r then (Status 400 ''Role must be admin, user, or viewer'', w)
      else (case argon_hash X (e_salt E) password of
              None \<Rightarrow> (Status 500 ''Failed to hash password'', w)
            | Some h \<Rightarrow>
                if e_fails E 2 then (Status 500 ''Failed to get database connection'', w)
                else (case (if e_fails E 3 then Inl Query_failed
                            else insert_user \<lparr>u_id = e_new_id E, u_username = username, u_email = username @ ''@local'',
                                   u_password_hash = h, u_role = r, u_active = True\<rparr> (users w)) of
                        Inl Unique_violation \<Rightarrow> (Status 400 ''Username already exists'', w)
                      | Inl Query_failed \<Rightarrow> (Status 500 ''Database query failed'', w)
                      | Inr us \<Rightarrow> (Created_user (e_new_id E), w\<lparr>users := us\<rparr>))))"

record update_body =
  ub_role :: "string option"
  ub_active :: "bool option"
  ub_password :: "string option"

text \<open>The statements of the transaction in \<open>update_user\<close>; an early return drops it.\<close>

definition update_tx :: "auth_ext \<Rightarrow> call_env \<Rightarrow> string \<Rightarrow> update_body \<Rightarrow> user_row list \<Rightarrow> response + user_row list" where
  "update_tx X E target body us =
     bind_res (case ub_role body of
        None \<Rightarrow> Inr us
      | Some r \<Rightarrow>
          if \<not> valid_role r then Inl (Status 400 ''Invalid role'')
          else if e_fails E 5 then Inl (Status 500 ''Failed to update role'')
          else Inr (update_users target (\<lambda>u. u\<lparr>u_role := r\<rparr>) us)) (\<lambda>us.
     bind_res (case ub_active body of
        None \<Rightarrow> Inr us
      | Some a \<Rightarrow>
          if e_fails E 6 then Inl (Status 500 ''Failed to update active status'')
          else Inr (update_users target (\<lambda>u. u\<lparr>u_active := a\<rparr>) us)) (\<lambda>us.
     case ub_password body of
        None \<Rightarrow> Inr us
      | Some p \<Rightarrow>
          if length p < 8 then Inl (Status 400 ''Password must be >= 8 chars'')
          else (case argon_hash X (e_salt E) p of
                  None \<Rightarrow> Inl (Status 500 ''Failed to hash password'')
                | Some h \<Rightarrow>
                    if e_fails E 7 then Inl (Status 500 ''Failed to update password'')
                    else Inr (update_users target (\<lambda>u. u\<lparr>u_password_hash := h\<rparr>) us))))"

definition update_user :: "auth_ext \<Rightarrow> call_env \<Rightarrow> claims \<Rightarrow> string \<Rightarrow> update_body \<Rightarrow> accounts \<Rightarrow> response \<times> accounts" where
  "update_user X E cl path body w =
     (if c_role cl \<noteq> ''admin'' then (Status 403 ''Admin only'', w)
      else case parse_uuid X path of
        None \<Rightarrow> (Status 400 ''Invalid user ID'', w)
      | Some target \<Rightarrow>
          if target = c_user_id cl \<and> (ub_role body = Some ''user'' \<or> ub_role body = Some ''viewer'')
          then (Status 400 ''Cannot remove your own admin role'', w)
          else if target = c_user_id cl \<and> ub_active body = Some False
          then (Status 400 ''Cannot deactivate your own account'', w)
          else if e_fails E 2 then (Status 500 ''Failed to get database connection'', w)
          else if e_fails E 3 then (Status 500 ''Failed to start transaction'', w)
          else if e_fails E 4 then (Status 500 ''Database error'', w)
          else if find_user (users w) target = None then (Status 404 ''User not found'', w)
          else (case update_tx X E target body (users w) of
                  Inl r \<Rightarrow> (r, w)
                | Inr us \<Rightarrow>
                    if e_fails E 8 then (Status 500 ''Failed to commit changes'', w)
                    else (Status 200 ''ok'', invalidate_user_cache target (w\<lparr>users := us\<rparr>))))"

definition delete_user :: "auth_ext \<Rightarrow> call_env \<Rightarrow> claims \<Rightarrow> string \<Rightarrow> accounts \<Rightarrow> response \<times> accounts" where
  "delete_user X E cl path w =
     (if c_role cl \<noteq> ''admin'' then (Status 403 ''Admin only'', w)
      else case parse_uuid X path of
        None \<Rightarrow> (Status 400 ''Invalid user ID'', w)
      | Some target \<Rightarrow>
          if target = c_user_id cl then (Status 400 ''Cannot delete your own account'', w)
          else if e_fails E 2 then (Status 500 ''Failed to get database connection'', w)
          else if e_fails E 3 then (Status 500 ''Database query failed'', w)
          else if find_user (users w) target = None then (Status 404 ''User not found'', w)
          else (Status 200 ''ok'', invalidate_user_cache target
                  (w\<lparr>users := filter (\<lambda>u. u_id u \<noteq> target) (users w)\<rparr>)))"

text \<open>\<open>ON CONFLICT (id) DO NOTHING\<close>: only a conflict on the id is ignored.\<close>

definition ensure_user_exists :: "auth_ext \<Rightarrow> call_env \<Rightarrow> claims \<Rightarrow> accounts \<Rightarrow> (response + unit) \<times> accounts" where
  "ensure_user_exists X E cl w =
     (case parse_uuid X (c_user_id cl) of
        None \<Rightarrow> (Inl (Status 400 ''Invalid user ID''), w)
      | Some i \<Rightarrow>
          if e_fails E 2 then (Inl (Status 500 ''Database error''), w)
          else if find_user (users w) i \<noteq> None then (Inr (), w)
          else let email = (if c_email cl = [] then c_username cl @ ''@relay'' else c_email cl) in
               (case (if e_fails E 3 then Inl Query_failed
                      else insert_user \<lparr>u_id = i, u_username = c_username cl, u_email = email,
                             u_password_hash = ''relay-managed'', u_role = c_role cl, u_active = True\<rparr> (users w)) of
                  Inl e \<Rightarrow> (Inl (Status 500 ''Failed to create user''), w)
                | Inr us \<Rightarrow> (Inr (), w\<lparr>users := us\<rparr>)))"

section \<open>Requests\<close>

text \<open>The requests that can change the accounts, with the token they carry, and their handling: the
  extractor of the claims runs before the handler.\<close>

datatype account_req =
    Login "string + string" string string
  | Setup string string
  | Authenticated string
  | Create string string "string option"
  | Update string update_body
  | Delete string
  | Ensure

record account_call =
  ac_req :: account_req
  ac_authorization :: "string option"
  ac_cookie :: "string option"
  ac_method :: string
  ac_path :: string

definition handle :: "auth_ext \<Rightarrow> string \<Rightarrow> call_env \<Rightarrow> account_call \<Rightarrow> accounts \<Rightarrow> accounts" where
  "handle X secret E c w =
     (case ac_req c of
        Login api_key username password \<Rightarrow> snd (snd (perform_login X E api_key username password w))
      | Setup username password \<Rightarrow> snd (setup_admin X E username password w)
      | Authenticated handler_name \<Rightarrow>
          snd (authenticate_request X E (ac_authorization c) (ac_cookie c) handler_name (Inr secret) w)
      | _ \<Rightarrow>
          (case from_request X E (ac_authorization c) (ac_cookie c) (ac_method c) (ac_path c) (Some secret) w of
             (Inl r, w) \<Rightarrow> w
           | (Inr cl, w) \<Rightarrow>
               (case ac_req c of
                  Create username password role \<Rightarrow> snd (create_user X E cl username password role w)
                | Update path body \<Rightarrow> snd (update_user X E cl path body w)
                | Delete path \<Rightarrow> snd (delete_user X E cl path w)
                | Ensure \<Rightarrow> snd (ensure_user_exists X E cl w)
                | _ \<Rightarrow> w)))"

inductive reachable :: "auth_ext \<Rightarrow> string \<Rightarrow> accounts \<Rightarrow> accounts \<Rightarrow> bool" for X secret w0 where
  start: "reachable X secret w0 w0"
| step: "reachable X secret w0 w \<Longrightarrow> reachable X secret w0 (handle X secret E c w)"

section \<open>The cache agrees with the table\<close>

definition status_of :: "user_row list \<Rightarrow> string \<Rightarrow> (string \<times> bool) option" where
  "status_of us i = map_option (\<lambda>u. (u_role u, u_active u)) (find_user us i)"

definition coherent :: "accounts \<Rightarrow> bool" where
  "coherent w \<longleftrightarrow> (\<forall>(i, c)\<in>set (user_cache w). status_of (users w) i = Some (cs_role c, cs_active c))"

lemma find_user_Some: "find_user us i = Some u \<Longrightarrow> u \<in> set us \<and> u_id u = i"
  by (auto simp: find_user_def find_Some_iff)

lemma status_append: "status_of us i = Some s \<Longrightarrow> status_of (us @ vs) i = Some s"
  by (induction us) (auto simp: status_of_def find_user_def)

lemma status_update:
  assumes "\<And>u. u_id (f u) = u_id u" "i \<noteq> j"
  shows "status_of (update_users j f us) i = status_of us i"
  using assms by (induction us) (auto simp: status_of_def find_user_def update_users_def)

lemma status_filter: "i \<noteq> j \<Longrightarrow> status_of (filter (\<lambda>u. u_id u \<noteq> j) us) i = status_of us i"
  by (induction us) (auto simp: status_of_def find_user_def)

lemma insert_user_status: "insert_user u us = Inr vs \<Longrightarrow> status_of us i = Some s \<Longrightarrow> status_of vs i = Some s"
  by (auto simp: insert_user_def status_append split: if_splits)

lemma coherent_users:
  assumes "coherent w" "\<And>i s. status_of (users w) i = Some s \<Longrightarrow> status_of us i = Some s"
  shows "coherent (w\<lparr>users := us\<rparr>)"
  using assms by (auto simp: coherent_def)

lemma coherent_sub: "coherent w \<Longrightarrow> set c \<subseteq> set (user_cache w) \<Longrightarrow> coherent (w\<lparr>user_cache := c\<rparr>)"
  by (auto simp: coherent_def)

text \<open>A lookup answers what the table says, and keeps the cache in agreement with it.\<close>

lemma status_lookup:
  assumes co: "coherent w" and g: "get_cached_or_query_user_status E i w = (r, w')"
  shows "coherent w'" "users w' = users w" "failures w' = failures w" "r = Inr s \<Longrightarrow> status_of (users w) i = Some s"
proof -
  define w1 where "w1 = (if length (user_cache w) > 500
      then w\<lparr>user_cache := filter (\<lambda>(_, c). e_now E - cs_at c < secs 60) (user_cache w)\<rparr> else w)"
  have w1: "coherent w1" "users w1 = users w" "failures w1 = failures w"
    using co by (auto simp: w1_def intro: coherent_sub)
  define hit where "hit = (case map_of (user_cache w1) i of
       Some c \<Rightarrow> if e_now E - cs_at c < secs 5 then Some (cs_role c, cs_active c) else None | None \<Rightarrow> None)"
  have hit: "status_of (users w) i = Some s" if "hit = Some s" for s
    using that w1 by (auto simp: hit_def coherent_def split: option.splits if_splits dest!: map_of_SomeD)
  have eq: "get_cached_or_query_user_status E i w = (case hit of
        Some s \<Rightarrow> (Inr s, w1)
      | None \<Rightarrow>
          if e_fails E 0 then (Inl ''Database connection failed'', w1)
          else if e_fails E 1 then (Inl ''Database error'', w1)
          else (case find_user (users w1) i of
                  Some u \<Rightarrow>
                    (Inr (u_role u, u_active u),
                     w1\<lparr>user_cache := (i, \<lparr>cs_role = u_role u, cs_active = u_active u, cs_at = e_now E\<rparr>)
                                     # cache_remove i (user_cache w1)\<rparr>)
                | None \<Rightarrow> (Inl ''User not found'', w1)))"
    unfolding get_cached_or_query_user_status_def w1_def[symmetric] Let_def hit_def ..
  have new: "coherent (w1\<lparr>user_cache := (i, \<lparr>cs_role = u_role u, cs_active = u_active u, cs_at = e_now E\<rparr>)
      # cache_remove i (user_cache w1)\<rparr>)" if "find_user (users w1) i = Some u" for u
    using w1(1) that by (auto simp: coherent_def cache_remove_def status_of_def)
  show "coherent w'" "users w' = users w" "failures w' = failures w"
    using g w1 new unfolding eq by (auto split: option.splits if_splits)
  show "r = Inr s \<Longrightarrow> status_of (users w) i = Some s"
    using g w1(2) hit unfolding eq by (auto simp: status_of_def split: option.splits if_splits)
qed

lemma from_request_status:
  assumes co: "coherent w" and f: "from_request X E au ck m p sec w = (r, w')"
  shows "coherent w'" "users w' = users w"
    "r = Inr cl \<Longrightarrow> \<exists>i t tok. parse_uuid X (c_user_id cl) = Some i \<and> status_of (users w) i = Some (c_role cl, True)
       \<and> (\<exists>cl0. jwt_decode X (case sec of Some s \<Rightarrow> s | None \<Rightarrow> []) t tok = Some cl0 \<and> c_user_id cl0 = c_user_id cl)"
proof -
  show "coherent w'" "users w' = users w"
    using f co status_lookup(1,2)[OF co]
    by (auto simp: from_request_def split: option.splits if_splits prod.splits sum.splits)
  assume r: "r = Inr cl"
  obtain tok cl0 i role active where t: "jwt_decode X (case sec of Some s \<Rightarrow> s | None \<Rightarrow> []) (e_unix E) tok = Some cl0"
    "parse_uuid X (c_user_id cl0) = Some i" "get_cached_or_query_user_status E i w = (Inr (role, active), w')"
    "active" "cl = cl0\<lparr>c_role := role\<rparr>"
    using f r by (auto simp: from_request_def split: option.splits if_splits prod.splits sum.splits)
  then show "\<exists>i t tok. parse_uuid X (c_user_id cl) = Some i \<and> status_of (users w) i = Some (c_role cl, True)
       \<and> (\<exists>cl0. jwt_decode X (case sec of Some s \<Rightarrow> s | None \<Rightarrow> []) t tok = Some cl0 \<and> c_user_id cl0 = c_user_id cl)"
    using status_lookup(4)[OF co t(3) refl] by auto
qed

lemma authenticate_state:
  assumes "coherent w" "authenticate_request X E au ck h sec w = (r, w')"
  shows "coherent w'" "users w' = users w"
  using assms status_lookup(1,2)[OF assms(1)]
  by (auto simp: authenticate_request_def split: option.splits if_splits prod.splits sum.splits)

lemma login_state:
  assumes "perform_login X E k un pw w = (b, r, w')"
  shows "users w' = users w" "user_cache w' = user_cache w"
  using assms by (auto simp: perform_login_def Let_def split: prod.splits if_splits option.splits bool.splits sum.splits)

text \<open>A committed update changes the row of the target alone, to the requested role and activity.\<close>

lemma update_tx_Ok:
  assumes "update_tx X E target body us = Inr vs"
  obtains f where "vs = update_users target f us" "\<And>u. u_id (f u) = u_id u"
    "\<And>u. u_role (f u) = (case ub_role body of None \<Rightarrow> u_role u | Some r \<Rightarrow> r)"
    "\<And>u. u_active (f u) = (case ub_active body of None \<Rightarrow> u_active u | Some a \<Rightarrow> a)"
    "\<And>r. ub_role body = Some r \<Longrightarrow> valid_role r"
proof -
  define fr :: "user_row \<Rightarrow> user_row" where "fr = (\<lambda>u. case ub_role body of None \<Rightarrow> u | Some r \<Rightarrow> u\<lparr>u_role := r\<rparr>)"
  define fa :: "user_row \<Rightarrow> user_row" where "fa = (\<lambda>u. case ub_active body of None \<Rightarrow> u | Some a \<Rightarrow> u\<lparr>u_active := a\<rparr>)"
  have upd: "update_users target g (update_users target f us) = update_users target (g \<circ> f) us"
    if "\<And>u. u_id (f u) = u_id u" for f g and us :: "user_row list"
    using that by (simp add: update_users_def comp_def)
  have upd0: "update_users target (\<lambda>u. u) us = us" for us by (simp add: update_users_def)
  have ids: "u_id (fr u) = u_id u" "u_id (fa u) = u_id u" for u
    by (simp_all add: fr_def fa_def split: option.split)
  have r: "\<And>r. ub_role body = Some r \<Longrightarrow> valid_role r"
    using assms by (cases "ub_role body") (auto simp: update_tx_def bind_res_Ok_iff split: if_splits)
  have eq: "update_tx X E target body us = bind_res (Inr (update_users target (fa \<circ> fr) us)) (\<lambda>us.
     case ub_password body of
        None \<Rightarrow> Inr us
      | Some p \<Rightarrow>
          if length p < 8 then Inl (Status 400 ''Password must be >= 8 chars'')
          else (case argon_hash X (e_salt E) p of
                  None \<Rightarrow> Inl (Status 500 ''Failed to hash password'')
                | Some h \<Rightarrow>
                    if e_fails E 7 then Inl (Status 500 ''Failed to update password'')
                    else Inr (update_users target (\<lambda>u. u\<lparr>u_password_hash := h\<rparr>) us)))"
    using assms ids upd
    by (cases "ub_role body"; cases "ub_active body")
      (auto simp: update_tx_def fr_def fa_def comp_def upd0 split: if_splits)
  show thesis
  proof (cases "ub_password body")
    case None
    then show thesis
      using assms eq ids r by (intro that[of "fa \<circ> fr"]) (auto simp: fr_def fa_def split: option.splits)
  next
    case (Some p)
    then obtain h where "vs = update_users target (\<lambda>u. u\<lparr>u_password_hash := h\<rparr>) (update_users target (fa \<circ> fr) us)"
      using assms eq by (auto split: if_splits option.splits)
    then have "vs = update_users target ((\<lambda>u. u\<lparr>u_password_hash := h\<rparr>) \<circ> (fa \<circ> fr)) us"
      using upd[of "fa \<circ> fr"] ids by simp
    then show thesis
      using ids r by (intro that[of "(\<lambda>u. u\<lparr>u_password_hash := h\<rparr>) \<circ> (fa \<circ> fr)"])
        (auto simp: fr_def fa_def split: option.splits)
  qed
qed

lemma update_tx_ids:
  assumes "update_tx X E target body us = Inr vs" "i \<noteq> target"
  shows "status_of vs i = status_of us i"
  using assms(2) by (rule_tac update_tx_Ok[OF assms(1)]) (simp add: status_update)

lemma update_coherent:
  assumes "coherent w" "update_user X E cl path body w = (r, w')"
  shows "coherent w'"
  using assms update_tx_ids
  by (auto simp: update_user_def invalidate_user_cache_def cache_remove_def coherent_def
      split: if_splits option.splits sum.splits)

lemma delete_coherent:
  assumes "coherent w" "delete_user X E cl path w = (r, w')"
  shows "coherent w'"
  using assms
  by (auto simp: delete_user_def invalidate_user_cache_def cache_remove_def coherent_def status_filter
      split: if_splits option.splits)

lemma create_coherent:
  assumes "coherent w" "create_user X E cl un pw role w = (r, w')"
  shows "coherent w'"
  using assms coherent_users[OF assms(1)] insert_user_status
  by (auto simp: create_user_def Let_def split: if_splits option.splits sum.splits db_error.splits)

lemma setup_coherent:
  assumes "coherent w" "setup_admin X E un pw w = (r, w')"
  shows "coherent w'"
  using assms coherent_users[OF assms(1)] insert_user_status
  by (auto simp: setup_admin_def split: if_splits option.splits sum.splits)

lemma ensure_coherent:
  assumes "coherent w" "ensure_user_exists X E cl w = (r, w')"
  shows "coherent w'"
  using assms coherent_users[OF assms(1)] insert_user_status
  by (auto simp: ensure_user_exists_def Let_def split: if_splits option.splits sum.splits)

section \<open>An administrator remains\<close>

definition has_admin :: "accounts \<Rightarrow> bool" where
  "has_admin w \<longleftrightarrow> (\<exists>u\<in>set (users w). status_of (users w) (u_id u) = Some (''admin'', True))"

text \<open>Tokens carry the canonical form of a user id, as those issued at login do.\<close>

definition canonical_tokens :: "auth_ext \<Rightarrow> string \<Rightarrow> bool" where
  "canonical_tokens X secret \<longleftrightarrow>
     (\<forall>t tok cl. jwt_decode X secret t tok = Some cl \<longrightarrow> parse_uuid X (c_user_id cl) = Some (c_user_id cl))"

lemma has_adminI: "status_of (users w) i = Some (''admin'', True) \<Longrightarrow> has_admin w"
  unfolding has_admin_def status_of_def using find_user_Some by fastforce

lemma has_admin_status: "has_admin w \<Longrightarrow> \<exists>i. status_of (users w) i = Some (''admin'', True)"
  by (auto simp: has_admin_def)

lemma update_self: "status_of us i = Some (r, a) \<Longrightarrow> (\<And>u. u_id (f u) = u_id u) \<Longrightarrow>
   \<exists>u. u_role u = r \<and> u_active u = a \<and> status_of (update_users i f us) i = Some (u_role (f u), u_active (f u))"
  by (induction us) (auto simp: status_of_def find_user_def update_users_def split: if_splits)

text \<open>An administrator who updates or deletes accounts is still one afterwards.\<close>

lemma update_keeps_actor:
  assumes a: "status_of (users w) (c_user_id cl) = Some (c_role cl, True)" and u: "update_user X E cl path body w = (r, w')"
    and changed: "users w' \<noteq> users w"
  shows "status_of (users w') (c_user_id cl) = Some (''admin'', True)"
proof -
  obtain target us where t: "c_role cl = ''admin''" "parse_uuid X path = Some target"
    "\<not> (target = c_user_id cl \<and> (ub_role body = Some ''user'' \<or> ub_role body = Some ''viewer''))"
    "\<not> (target = c_user_id cl \<and> ub_active body = Some False)"
    "update_tx X E target body (users w) = Inr us" "users w' = us"
    using u changed by (auto simp: update_user_def invalidate_user_cache_def split: if_splits option.splits sum.splits)
  obtain f where f: "us = update_users target f (users w)" "\<And>u. u_id (f u) = u_id u"
    "\<And>u. u_role (f u) = (case ub_role body of None \<Rightarrow> u_role u | Some r \<Rightarrow> r)"
    "\<And>u. u_active (f u) = (case ub_active body of None \<Rightarrow> u_active u | Some a \<Rightarrow> a)"
    "\<And>r. ub_role body = Some r \<Longrightarrow> valid_role r"
    using update_tx_Ok[OF t(5)] by blast
  show ?thesis
  proof (cases "target = c_user_id cl")
    case True
    obtain u where "u_role u = ''admin''" "u_active u"
      "status_of us (c_user_id cl) = Some (u_role (f u), u_active (f u))"
      using update_self[OF a, of f] f(1,2) t(1) True by auto
    moreover have "ub_role body = None \<or> ub_role body = Some ''admin''" "ub_active body = None \<or> ub_active body = Some True"
      using t(3,4) f(5) True by (cases "ub_role body"; cases "ub_active body"; auto simp: valid_role_def)+
    ultimately show ?thesis using f(3,4) t(6) by auto
  next
    case False
    then show ?thesis using a t(1,6) f(1,2) by (simp add: status_update)
  qed
qed

lemma delete_keeps_actor:
  assumes a: "status_of (users w) (c_user_id cl) = Some (c_role cl, True)" and u: "delete_user X E cl path w = (r, w')"
    and changed: "users w' \<noteq> users w"
  shows "status_of (users w') (c_user_id cl) = Some (''admin'', True)"
  using u changed a
  by (auto simp: delete_user_def invalidate_user_cache_def status_filter split: if_splits option.splits)

lemma create_keeps:
  assumes "create_user X E cl un pw role w = (r, w')" "status_of (users w) i = Some s"
  shows "status_of (users w') i = Some s"
  using assms insert_user_status[OF _ assms(2)]
  by (auto simp: create_user_def Let_def split: if_splits option.splits sum.splits db_error.splits)

lemma ensure_keeps:
  assumes "ensure_user_exists X E cl w = (r, w')" "status_of (users w) i = Some s"
  shows "status_of (users w') i = Some s"
  using assms insert_user_status[OF _ assms(2)]
  by (auto simp: ensure_user_exists_def Let_def split: if_splits option.splits sum.splits)

lemma setup_keeps:
  assumes "setup_admin X E un pw w = (r, w')" "status_of (users w) i = Some s"
  shows "status_of (users w') i = Some s"
  using assms insert_user_status[OF _ assms(2)]
  by (auto simp: setup_admin_def split: if_splits option.splits sum.splits)

lemma setup_first:
  assumes "setup_admin X E un pw w = (r, w')" "users w' \<noteq> users w"
  shows "has_admin w'"
  using assms
  by (auto simp: setup_admin_def insert_user_def has_admin_def status_of_def find_user_def
      split: if_splits option.splits sum.splits)

definition account_inv :: "accounts \<Rightarrow> bool" where
  "account_inv w \<longleftrightarrow> coherent w \<and> (users w = [] \<or> has_admin w)"

lemma authorized_step:
  assumes can: "canonical_tokens X secret" and inv: "account_inv w"
    and f: "from_request X E au ck m p (Some secret) w = (Inr cl, w1)"
  shows "account_inv w1 \<and> status_of (users w1) (c_user_id cl) = Some (c_role cl, True) \<and> has_admin w1"
proof -
  have co: "coherent w" using inv by (simp add: account_inv_def)
  have w1: "coherent w1" "users w1 = users w" using from_request_status(1,2)[OF co f] by simp_all
  obtain i t tok cl0 where i: "parse_uuid X (c_user_id cl) = Some i" "status_of (users w) i = Some (c_role cl, True)"
    and tok: "jwt_decode X secret t tok = Some cl0" "c_user_id cl0 = c_user_id cl"
    using from_request_status(3)[OF co f refl] by auto
  have "parse_uuid X (c_user_id cl0) = Some (c_user_id cl0)"
    using can tok(1) by (simp add: canonical_tokens_def)
  then have s: "status_of (users w) (c_user_id cl) = Some (c_role cl, True)" using i tok(2) by simp
  then have "users w \<noteq> []" by (auto simp: status_of_def find_user_def)
  then have "has_admin w" using inv by (simp add: account_inv_def)
  then show ?thesis using w1 s by (simp add: account_inv_def has_admin_def)
qed

lemma rejected_step:
  assumes inv: "account_inv w" and f: "from_request X E au ck m p sec w = (r, w1)"
  shows "account_inv w1"
  using inv from_request_status(1,2)[OF _ f] by (auto simp: account_inv_def has_admin_def)

lemma managed_step:
  assumes inv: "account_inv w1" "has_admin w1" and s: "status_of (users w1) (c_user_id cl) = Some (c_role cl, True)"
  shows "account_inv (snd (create_user X E cl un pw role w1))" "account_inv (snd (update_user X E cl path body w1))"
    "account_inv (snd (delete_user X E cl path w1))" "account_inv (snd (ensure_user_exists X E cl w1))"
proof -
  have co: "coherent w1" using inv by (simp add: account_inv_def)
  obtain i where i: "status_of (users w1) i = Some (''admin'', True)" using has_admin_status[OF inv(2)] by blast
  obtain r w' where c: "create_user X E cl un pw role w1 = (r, w')" by fastforce
  show "account_inv (snd (create_user X E cl un pw role w1))"
    using create_coherent[OF co c] has_adminI[OF create_keeps[OF c i]] by (simp add: c account_inv_def)
  obtain r w' where u: "update_user X E cl path body w1 = (r, w')" by fastforce
  have "has_admin w'"
    using update_keeps_actor[OF s u] has_adminI inv(2) by (cases "users w' = users w1") (simp_all add: has_admin_def)
  then show "account_inv (snd (update_user X E cl path body w1))"
    using update_coherent[OF co u] by (simp add: u account_inv_def)
  obtain r w' where d: "delete_user X E cl path w1 = (r, w')" by fastforce
  have "has_admin w'"
    using delete_keeps_actor[OF s d] has_adminI inv(2) by (cases "users w' = users w1") (simp_all add: has_admin_def)
  then show "account_inv (snd (delete_user X E cl path w1))"
    using delete_coherent[OF co d] by (simp add: d account_inv_def)
  obtain r w' where e: "ensure_user_exists X E cl w1 = (r, w')" by fastforce
  show "account_inv (snd (ensure_user_exists X E cl w1))"
    using ensure_coherent[OF co e] has_adminI[OF ensure_keeps[OF e i]] by (simp add: e account_inv_def)
qed

lemma handle_inv:
  assumes can: "canonical_tokens X secret" and inv: "account_inv w"
  shows "account_inv (handle X secret E c w)"
proof -
  have co: "coherent w" using inv by (simp add: account_inv_def)
  obtain q w1 where f: "from_request X E (ac_authorization c) (ac_cookie c) (ac_method c) (ac_path c) (Some secret) w = (q, w1)"
    by fastforce
  have rej: "account_inv w1" by (rule rejected_step[OF inv f])
  have auth: "account_inv w1 \<and> status_of (users w1) (c_user_id cl) = Some (c_role cl, True) \<and> has_admin w1"
    if "q = Inr cl" for cl
    using authorized_step[OF can inv] f that by blast
  show ?thesis
  proof (cases "ac_req c")
    case (Login k un pw)
    obtain b r w' where l: "perform_login X E k un pw w = (b, r, w')" by (rule prod_cases3)
    have "handle X secret E c w = w'" using l Login by (simp add: handle_def)
    moreover have "account_inv w'"
      using inv login_state[OF l] by (simp add: account_inv_def coherent_def has_admin_def)
    ultimately show ?thesis by simp
  next
    case (Setup un pw)
    obtain r w' where s: "setup_admin X E un pw w = (r, w')" by fastforce
    have "users w' = [] \<or> has_admin w'"
    proof (cases "users w' = users w")
      case True
      then show ?thesis using inv by (simp add: account_inv_def has_admin_def)
    next
      case False
      then show ?thesis using setup_first[OF s] by simp
    qed
    then show ?thesis using setup_coherent[OF co s] s Setup by (simp add: handle_def account_inv_def)
  next
    case (Authenticated h)
    obtain r w' where s: "authenticate_request X E (ac_authorization c) (ac_cookie c) h (Inr secret) w = (r, w')" by fastforce
    then show ?thesis
      using authenticate_state[OF co s] inv Authenticated by (simp add: handle_def account_inv_def has_admin_def)
  next
    case (Create un pw role)
    then show ?thesis using f rej auth managed_step(1) by (cases q) (simp_all add: handle_def)
  next
    case (Update path body)
    then show ?thesis using f rej auth managed_step(2) by (cases q) (simp_all add: handle_def)
  next
    case (Delete path)
    then show ?thesis using f rej auth managed_step(3) by (cases q) (simp_all add: handle_def)
  next
    case Ensure
    then show ?thesis using f rej auth managed_step(4) by (cases q) (simp_all add: handle_def)
  qed
qed


text \<open>The automatic creation of unknown users never happens: a request is authenticated against the
  table of users before it.\<close>

lemma provisioning_unreachable:
  assumes "account_inv w" "canonical_tokens X secret" "ac_req c = Ensure"
  shows "users (handle X secret E c w) = users w"
proof -
  obtain q w1 where f: "from_request X E (ac_authorization c) (ac_cookie c) (ac_method c) (ac_path c) (Some secret) w = (q, w1)"
    by fastforce
  have co: "coherent w" using assms(1) by (simp add: account_inv_def)
  note fs = from_request_status[OF co f]
  show ?thesis
  proof (cases q)
    case (Inl r)
    then show ?thesis using f fs(2) assms(3) by (simp add: handle_def)
  next
    case (Inr cl)
    obtain i where "parse_uuid X (c_user_id cl) = Some i" "status_of (users w) i = Some (c_role cl, True)"
      using fs(3)[OF Inr] by blast
    then show ?thesis
      using f fs(2) assms(3) Inr by (auto simp: handle_def ensure_user_exists_def status_of_def)
  qed
qed

section \<open>Restricted tokens\<close>


section \<open>Guessing passwords\<close>

text \<open>A sequence of login attempts, and how many of those for one account are answered with 401, that
  is, tell that the password (or the name) is wrong.\<close>

type_synonym attempt = "call_env \<times> (string + string) \<times> string \<times> string"

fun login_answers :: "auth_ext \<Rightarrow> attempt list \<Rightarrow> accounts \<Rightarrow> (login_error + login_outcome) list" where
  "login_answers X [] w = []"
| "login_answers X ((E, key, un, pw) # as) w =
     (let (_, r, w) = perform_login X E key un pw w in r # login_answers X as w)"

fun refused :: "login_error + login_outcome \<Rightarrow> bool" where
  "refused (Inl (Login_error code m)) = (code = 401)"
| "refused (Inr lo) = False"

definition wrong_guesses :: "auth_ext \<Rightarrow> string \<Rightarrow> attempt list \<Rightarrow> (login_error + login_outcome) list \<Rightarrow> nat" where
  "wrong_guesses X k as rs = length (filter (\<lambda>((E, key, un, pw), r). account_key (to_lowercase X) un = k \<and> refused r) (zip as rs))"

fun in_window :: "nat \<Rightarrow> nat \<Rightarrow> attempt list \<Rightarrow> bool" where
  "in_window t0 t [] = True"
| "in_window t0 t ((E, key, un, pw) # as) =
     (t \<le> e_now E \<and> as_secs (e_now E - t0) < LOGIN_FAILURE_WINDOW_SECS \<and> in_window t0 (e_now E) as)"

text \<open>The failures since \<open>t0\<close> in the store.\<close>

definition since :: "nat \<Rightarrow> nat \<Rightarrow> failure_store \<Rightarrow> string \<Rightarrow> nat" where
  "since t0 t store k = length (filter (\<lambda>x. t0 \<le> x) (recent t (stored store k)))"

lemma recent_since:
  assumes "as_secs (t - t0) < LOGIN_FAILURE_WINDOW_SECS"
  shows "filter (\<lambda>x. t0 \<le> x) (recent t xs) = filter (\<lambda>x. t0 \<le> x) xs"
proof -
  have "as_secs (t - x) < LOGIN_FAILURE_WINDOW_SECS" if "t0 \<le> x" for x
  proof -
    have "as_secs (t - x) \<le> as_secs (t - t0)" using that by (simp add: as_secs_def div_le_mono)
    then show ?thesis using assms by simp
  qed
  then show ?thesis unfolding recent_def filter_filter by (intro filter_cong) auto
qed

lemma store_rel_refl: "distinct (map fst store) \<Longrightarrow> store_rel t store (stored store)"
  by (simp add: store_rel_def)

lemma since_rel:
  assumes "store_rel t store' hist" "k \<noteq> []" "t \<le> t'"
  shows "since t0 t' store' k = length (filter (\<lambda>x. t0 \<le> x) (recent t' (hist k)))"
  using assms by (simp add: since_def store_rel_def)

lemma since_allowed:
  assumes "length (recent t (stored store k)) < LOGIN_FAILURE_THRESHOLD"
  shows "since t0 t store k < LOGIN_FAILURE_THRESHOLD"
  using assms length_filter_le[of "\<lambda>x. t0 \<le> x" "recent t (stored store k)"] unfolding since_def by linarith

text \<open>What an attempt does to the store of failures.\<close>

lemma login_cases:
  assumes l: "perform_login X E key un pw w = (b, r, w')"
    and c: "login_allowed_for_account (to_lowercase X) un (e_now E) (failures w) = (allowed, s1)"
  obtains (rejected) "failures w' = failures w" "\<not> refused r" "\<And>lo. r \<noteq> Inr lo"
  | (unknown) "failures w' = s1" "\<not> refused r" "\<And>lo. r \<noteq> Inr lo"
  | (wrong) "allowed" "failures w' = record_login_failure (to_lowercase X) un (e_now E) s1" "refused r" "\<And>lo. r \<noteq> Inr lo"
  | (right) lo where "failures w' = clear_login_failures (to_lowercase X) un s1" "r = Inr lo"
proof (cases "trim un = [] \<or> pw = []")
  case True
  then show thesis using l rejected by (auto simp: perform_login_def)
next
  case False
  note l' = l[unfolded perform_login_def if_not_P[OF False] c prod.case Let_def]
  show thesis
  proof (cases "\<not> allowed \<or> e_fails E 0 \<or> e_fails E 1")
    case True
    then show thesis using l' unknown by (auto split: if_splits)
  next
    case ok: False
    show thesis
    proof (cases "find (\<lambda>u. u_username u = un) (users w)")
      case None
      then show thesis using l' ok wrong by auto
    next
      case (Some u)
      show thesis
      proof (cases "u_active u")
        case False
        then show thesis using l' ok Some wrong by auto
      next
        case True
        show thesis
        proof (cases "argon_verify X pw (u_password_hash u)")
          case None
          then show thesis using l' ok Some True unknown by auto
        next
          case v: (Some good)
          show thesis
          proof (cases good)
            case False
            then show thesis using l' ok Some True v wrong by auto
          next
            case g: True
            show thesis
              using l' ok Some True v g unknown right by (auto split: sum.splits option.splits)
          qed
        qed
      qed
    qed
  qed
qed

text \<open>One attempt: the failures of an account since the beginning of the window grow by one with each
  refusal for it, do not grow beyond the threshold, and are forgotten only by a success.\<close>

lemma attempt_since:
  assumes d: "distinct (map fst (failures w))" and k: "k \<noteq> []"
    and win: "as_secs (e_now E - t0) < LOGIN_FAILURE_WINDOW_SECS" "t0 \<le> e_now E"
    and l: "perform_login X E key un pw w = (b, r, w')"
    and fail: "account_key (to_lowercase X) un = k \<Longrightarrow> \<not> (\<exists>lo. r = Inr lo)"
  shows "distinct (map fst (failures w'))"
    "since t0 (e_now E) (failures w') k = since t0 (e_now E) (failures w) k
       + (if account_key (to_lowercase X) un = k \<and> refused r then 1 else 0)"
    "account_key (to_lowercase X) un = k \<Longrightarrow> refused r \<Longrightarrow> since t0 (e_now E) (failures w) k < LOGIN_FAILURE_THRESHOLD"
proof -
  let ?t = "e_now E"
  let ?j = "account_key (to_lowercase X) un"
  let ?h = "stored (failures w)"
  obtain allowed s1 where c: "login_allowed_for_account (to_lowercase X) un ?t (failures w) = (allowed, s1)" by fastforce
  note ck = check_rel[OF store_rel_refl[OF d] le_refl c]
  have d1: "distinct (map fst s1)" using ck(2) by (simp add: store_rel_def)
  have s1: "since t0 ?t s1 k = since t0 ?t (failures w) k"
    using since_rel[OF ck(2) k le_refl] by (simp add: since_def)
  note fr = failure_rel[OF ck(2) le_refl, of "to_lowercase X" un]
  note sr = success_rel[OF ck(2), of "to_lowercase X" un]
  have now: "recent ?t [?t] = [?t]" by (simp add: recent_def as_secs_def LOGIN_FAILURE_WINDOW_SECS_def)
  have rec: "since t0 ?t (record_login_failure (to_lowercase X) un ?t s1) k
      = since t0 ?t (failures w) k + (if ?j = k then 1 else 0)"
    using since_rel[OF fr k le_refl] win(2) by (auto simp: since_def recent_append now)
  have clr: "since t0 ?t (clear_login_failures (to_lowercase X) un s1) k = since t0 ?t (failures w) k" if "?j \<noteq> k"
    using since_rel[OF sr k le_refl] that by (simp add: since_def)
  from l c show "distinct (map fst (failures w'))"
    by (cases rule: login_cases) (use d d1 fr sr in \<open>simp_all add: store_rel_def\<close>)
  from l c show "since t0 ?t (failures w') k = since t0 ?t (failures w) k + (if ?j = k \<and> refused r then 1 else 0)"
  proof (cases rule: login_cases)
    case (right lo)
    then show ?thesis using clr fail by auto
  qed (use s1 rec in simp_all)
  assume j: "?j = k" "refused r"
  from l c show "since t0 ?t (failures w) k < LOGIN_FAILURE_THRESHOLD"
  proof (cases rule: login_cases)
    case wrong
    then show ?thesis using ck(1) j(1) by (intro since_allowed) simp
  qed (use j(2) in auto)
qed

lemma guesses_bounded:
  assumes "distinct (map fst (failures w))" "k \<noteq> []" "t0 \<le> t" "in_window t0 t as"
    "\<forall>((E, key, un, pw), r)\<in>set (zip as (login_answers X as w)). account_key (to_lowercase X) un = k \<longrightarrow> \<not> (\<exists>lo. r = Inr lo)"
    "since t0 t (failures w) k \<le> LOGIN_FAILURE_THRESHOLD" "as_secs (t - t0) < LOGIN_FAILURE_WINDOW_SECS"
  shows "since t0 t (failures w) k + wrong_guesses X k as (login_answers X as w) \<le> LOGIN_FAILURE_THRESHOLD"
  using assms
proof (induction as arbitrary: w t)
  case (Cons a as)
  obtain E key un pw where a: "a = (E, key, un, pw)" by (cases a) auto
  obtain b r w' where l: "perform_login X E key un pw w = (b, r, w')" by (rule prod_cases3)
  let ?t = "e_now E"
  have win: "as_secs (?t - t0) < LOGIN_FAILURE_WINDOW_SECS" "t0 \<le> ?t" "t \<le> ?t" "in_window t0 ?t as"
    using Cons.prems(3,4) a by simp_all
  have nofail: "account_key (to_lowercase X) un = k \<Longrightarrow> \<not> (\<exists>lo. r = Inr lo)"
    using Cons.prems(5) a l by simp
  note at = attempt_since[OF Cons.prems(1,2) win(1,2) l nofail]
  have eq: "since t0 ?t (failures w) k = since t0 t (failures w) k"
    using recent_since[OF win(1)] recent_since[OF Cons.prems(7)] by (simp add: since_def)
  have le: "since t0 ?t (failures w') k \<le> LOGIN_FAILURE_THRESHOLD"
    using at(2,3) eq Cons.prems(6) by (cases "account_key (to_lowercase X) un = k \<and> refused r") auto
  have "since t0 ?t (failures w') k + wrong_guesses X k as (login_answers X as w') \<le> LOGIN_FAILURE_THRESHOLD"
    by (rule Cons.IH[OF at(1) Cons.prems(2) win(2,4) _ le win(1)]) (use Cons.prems(5) a l in auto)
  moreover have "wrong_guesses X k (a # as) (login_answers X (a # as) w) =
      (if account_key (to_lowercase X) un = k \<and> refused r then 1 else 0) + wrong_guesses X k as (login_answers X as w')"
    by (simp add: wrong_guesses_def a l)
  ultimately show ?case using at(2) eq by simp
qed (simp add: wrong_guesses_def)


section \<open>The lock of the cache\<close>

text \<open>
  The operations of \<open>get_cached_or_query_user_status\<close> on the \<open>RwLock\<close> of the cache, in order.  The
  guard of the first \<open>read\<close> lives until the end of the block unless the sweep drops it, so with at most
  500 entries the second \<open>read\<close> is requested while the first is held.  After a miss the entry is
  inserted under \<open>write\<close>.
\<close>

datatype lock_op = Acquire_read | Release_read | Acquire_write | Release_write

definition lookup_ops :: "nat \<Rightarrow> lock_op list" where
  "lookup_ops entries =
     (if entries > 500
      then [Acquire_read, Release_read, Acquire_write, Release_write, Acquire_read, Release_read]
      else [Acquire_read, Acquire_read, Release_read, Release_read])"

definition insert_ops :: "lock_op list" where
  "insert_ops = [Acquire_write, Release_write]"

definition miss_ops :: "nat \<Rightarrow> lock_op list" where
  "miss_ops entries = lookup_ops entries @ insert_ops"

text \<open>The lock: who reads, who writes, who waits to write; and what each thread has still to do.  With
  \<open>writers_first\<close> a waiting writer holds up new readers, as the lock of the standard library does on
  Linux and may do on every platform.\<close>

record lock_state =
  readers :: "nat list"
  writer :: "nat option"
  waiting :: "nat list"
  todo :: "lock_op list list"

inductive lock_step :: "bool \<Rightarrow> lock_state \<Rightarrow> lock_state \<Rightarrow> bool" for writers_first where
  read_lock: "t < length (todo s) \<Longrightarrow> todo s ! t = Acquire_read # ops \<Longrightarrow> writer s = None \<Longrightarrow>
    \<not> (writers_first \<and> waiting s \<noteq> []) \<Longrightarrow>
    lock_step writers_first s (s\<lparr>readers := t # readers s, todo := (todo s)[t := ops]\<rparr>)"
| read_unlock: "t < length (todo s) \<Longrightarrow> todo s ! t = Release_read # ops \<Longrightarrow>
    lock_step writers_first s (s\<lparr>readers := remove1 t (readers s), todo := (todo s)[t := ops]\<rparr>)"
| write_wait: "t < length (todo s) \<Longrightarrow> todo s ! t = Acquire_write # ops \<Longrightarrow> readers s \<noteq> [] \<or> writer s \<noteq> None \<Longrightarrow>
    t \<notin> set (waiting s) \<Longrightarrow> lock_step writers_first s (s\<lparr>waiting := waiting s @ [t]\<rparr>)"
| write_lock: "t < length (todo s) \<Longrightarrow> todo s ! t = Acquire_write # ops \<Longrightarrow> readers s = [] \<Longrightarrow> writer s = None \<Longrightarrow>
    lock_step writers_first s (s\<lparr>writer := Some t, waiting := remove1 t (waiting s), todo := (todo s)[t := ops]\<rparr>)"
| write_unlock: "t < length (todo s) \<Longrightarrow> todo s ! t = Release_write # ops \<Longrightarrow>
    lock_step writers_first s (s\<lparr>writer := None, todo := (todo s)[t := ops]\<rparr>)"

inductive_cases lock_stepE: "lock_step writers_first s s'"

definition idle_lock :: "lock_op list list \<Rightarrow> lock_state" where
  "idle_lock ps = \<lparr>readers = [], writer = None, waiting = [], todo = ps\<rparr>"

text \<open>Two requests can block each other for ever: while the cache holds at most 500 entries, one
  request that looks up a role and another that inserts one reach a state in which neither can take a
  step, the first holding a read lock and asking for a second one, the other waiting to write, and no
  later request gets past the lock either.\<close>

theorem role_lookup_deadlock:
  assumes "n \<le> 500"
  shows "\<exists>s. (lock_step True)\<^sup>*\<^sup>* (idle_lock [miss_ops n, insert_ops, lookup_ops n]) s
    \<and> (\<forall>s'. \<not> lock_step True s s') \<and> (\<forall>ops\<in>set (todo s). ops \<noteq> [])"
proof -
  let ?miss = "[Acquire_read, Release_read, Release_read, Acquire_write, Release_write]"
  let ?look = "[Acquire_read, Acquire_read, Release_read, Release_read]"
  let ?s1 = "\<lparr>readers = [0], writer = None, waiting = [], todo = [?miss, insert_ops, ?look]\<rparr>"
  let ?s2 = "\<lparr>readers = [0], writer = None, waiting = [1], todo = [?miss, insert_ops, ?look]\<rparr>"
  let ?s0 = "idle_lock [miss_ops n, insert_ops, lookup_ops n]"
  have s0: "todo ?s0 = [Acquire_read # ?miss, insert_ops, ?look]" "readers ?s0 = []" "writer ?s0 = None" "waiting ?s0 = []"
    using assms by (simp_all add: idle_lock_def miss_ops_def lookup_ops_def insert_ops_def)
  have "lock_step True ?s0 ?s1"
    using lock_step.read_lock[of 0 ?s0 ?miss True] s0 by (simp add: idle_lock_def)
  moreover have "lock_step True ?s1 ?s2"
    using lock_step.write_wait[of 1 ?s1 "[Release_write]" True] by (simp add: insert_ops_def)
  moreover have "\<not> lock_step True ?s2 s'" for s'
  proof
    have td: "(t = 0 \<or> t = 2) \<and> hd (todo ?s2 ! t) = Acquire_read \<or> t = 1 \<and> hd (todo ?s2 ! t) = Acquire_write"
      if "t < length (todo ?s2)" for t
    proof -
      have "t = 0 \<or> t = 1 \<or> t = 2" using that by auto
      then show ?thesis by (auto simp: insert_ops_def)
    qed
    assume "lock_step True ?s2 s'"
    then show False
    proof (cases rule: lock_step.cases)
      case (read_lock t ops)
      then show ?thesis by simp
    next
      case (read_unlock t ops)
      show ?thesis using td[OF read_unlock(2)] read_unlock(3) by auto
    next
      case (write_wait t ops)
      have "t = 1" using td[OF write_wait(2)] write_wait(3) by auto
      then show ?thesis using write_wait(5) by simp
    next
      case (write_lock t ops)
      then show ?thesis by simp
    next
      case (write_unlock t ops)
      show ?thesis using td[OF write_unlock(2)] write_unlock(3) by auto
    qed
  qed
  moreover have "\<forall>ops\<in>set (todo ?s2). ops \<noteq> []" by (simp add: insert_ops_def)
  ultimately have "(lock_step True)\<^sup>*\<^sup>* ?s0 ?s2" "\<forall>s'. \<not> lock_step True ?s2 s'" "\<forall>ops\<in>set (todo ?s2). ops \<noteq> []"
    by (simp_all only: converse_rtranclp_into_rtranclp[OF _ r_into_rtranclp] not_False_eq_True simp_thms)
  then show ?thesis by blast
qed

theorem role_lookup_deadlock_witness:
  "\<exists>s. (lock_step True)\<^sup>*\<^sup>* (idle_lock [miss_ops 3, insert_ops, lookup_ops 3]) s
    \<and> (\<forall>s'. \<not> lock_step True s s') \<and> (\<forall>ops\<in>set (todo s). ops \<noteq> [])"
  using role_lookup_deadlock[of 3] by simp

section \<open>A concrete library\<close>

text \<open>Tokens are the printed fields, hashes are the password behind a mark: enough to run the handlers.\<close>

definition toy_ext :: auth_ext where
  "toy_ext = \<lparr>
     parse_uuid = \<lambda>s. if s \<noteq> [] then Some s else None,
     jwt_decode = \<lambda>secret t tok. if tok = [] then None
       else Some \<lparr>c_user_id = tl tok, c_username = [], c_email = [], c_role = ''user'', c_exp = t,
                  c_scope = (if hd tok = CHR ''m'' then Some ''media_read'' else None)\<rparr>,
     jwt_encode = \<lambda>secret cl. Some (CHR ''t'' # c_user_id cl),
     argon_hash = \<lambda>salt pw. Some (CHR ''#'' # pw),
     argon_verify = \<lambda>pw h. Some (h = CHR ''#'' # pw),
     to_lowercase = map ascii_lower\<rparr>"

definition ok_env :: "nat \<Rightarrow> string \<Rightarrow> call_env" where
  "ok_env t i = \<lparr>e_now = t, e_unix = t, e_salt = 0, e_new_id = i, e_fails = \<lambda>_. False\<rparr>"

definition toy_accounts :: accounts where
  "toy_accounts = \<lparr>users = [\<lparr>u_id = ''a'', u_username = ''bob'', u_email = ''bob@local'', u_password_hash = ''#longsecret'',
      u_role = ''admin'', u_active = True\<rparr>], user_cache = [], failures = []\<rparr>"




end
