(* ===== verification/QueryBuilder.thy ===== *)
theory QueryBuilder
  imports Complex_Main Prelude
begin

text \<open>
  The SQL of the thumbnail listings: \<open>query_builder.rs\<close> and the two functions of \<open>media_utils.rs\<close>
  that assemble a query and its parameters with it (\<open>list_thumbnails\<close>, \<open>total_thumbnails\<close>).  Queries
  are the strings the code formats, parameters the list it pushes; the database itself is not modelled.

  Parameters are \<open>chrono\<close>'s date parser, the parser of UUIDs and the rendering of an \<open>f64\<close>, of which
  only is used that it contains no dollar sign.  An \<open>f64\<close> is its bit pattern, never computed with here:
  the product \<open>radius_km * 1000.0\<close> is a parameter too.
\<close>

section \<open>The builder\<close>

definition validate_table_name :: "string \<Rightarrow> bool" where
  "validate_table_name tbl \<longleftrightarrow> tbl \<in> set [''images'', ''videos'', ''starred_images'', ''starred_videos'',
     ''p2p_shards'', ''users'', ''persons'', ''faces'', ''image_labels'', ''video_labels'']"

definition SAFE_FALLBACK_QUERY :: string where
  "SAFE_FALLBACK_QUERY = ''SELECT 1 WHERE false''"

record builder =
  b_table :: string
  conditions :: "string list"
  param_count :: nat
  user_id_param :: "nat option"
  label_id_param :: "nat option"
  table_validated :: bool

definition builder_new :: "string \<Rightarrow> builder" where
  "builder_new tbl = \<lparr>b_table = tbl, conditions = [''t.deleted_at IS NULL''], param_count = 0,
     user_id_param = None, label_id_param = None, table_validated = validate_table_name tbl\<rparr>"

text \<open>\<open>${}\<close> of a format string.\<close>

definition dollar :: "nat \<Rightarrow> string" where
  "dollar n = CHR ''$'' # show_nat n"

definition add_custom_condition :: "string \<Rightarrow> builder \<Rightarrow> builder" where
  "add_custom_condition c b = b\<lparr>conditions := conditions b @ [c]\<rparr>"

definition with_user_id :: "builder \<Rightarrow> builder" where
  "with_user_id b = (let n = param_count b + 1 in b\<lparr>param_count := n, user_id_param := Some n\<rparr>)"

definition with_param_condition :: "string \<Rightarrow> builder \<Rightarrow> builder" where
  "with_param_condition c b =
     (let n = param_count b + 1 in b\<lparr>param_count := n, conditions := conditions b @ [c @ dollar n]\<rparr>)"

definition with_device_id :: "builder \<Rightarrow> builder" where
  "with_device_id = with_param_condition ''t.deviceid = ''"

definition with_start_date :: "builder \<Rightarrow> builder" where
  "with_start_date = with_param_condition ''t.created_at >= ''"

definition with_end_date :: "builder \<Rightarrow> builder" where
  "with_end_date = with_param_condition ''t.created_at < ''"

definition with_user_id_filter :: "builder \<Rightarrow> builder" where
  "with_user_id_filter b = (case user_id_param b of
       Some p \<Rightarrow> add_custom_condition (''t.user_id = '' @ dollar p) b | None \<Rightarrow> b)"

definition with_starred_only :: "builder \<Rightarrow> builder" where
  "with_starred_only = add_custom_condition ''s.hash IS NOT NULL''"

definition with_label_id :: "builder \<Rightarrow> builder" where
  "with_label_id b = (let n = param_count b + 1 in b\<lparr>param_count := n, label_id_param := Some n\<rparr>)"

definition with_has_thumbnail :: "builder \<Rightarrow> builder" where
  "with_has_thumbnail = add_custom_condition ''t.has_thumbnail = true''"

definition with_no_exif :: "builder \<Rightarrow> builder" where
  "with_no_exif = add_custom_condition ''t.exif IS NULL''"

definition is_images_table :: "builder \<Rightarrow> bool" where "is_images_table b \<longleftrightarrow> b_table b = ''images''"
definition is_videos_table :: "builder \<Rightarrow> bool" where "is_videos_table b \<longleftrightarrow> b_table b = ''videos''"

fun join :: "string \<Rightarrow> string list \<Rightarrow> string" where
  "join d [] = []"
| "join d [x] = x"
| "join d (x # y # xs) = x @ d @ join d (y # xs)"

definition build_where_clause :: "builder \<Rightarrow> string" where
  "build_where_clause b = (if conditions b = [] then [] else ''WHERE '' @ join '' AND '' (conditions b))"

definition select_clause :: "builder \<Rightarrow> nat option \<Rightarrow> nat option \<Rightarrow> string" where
  "select_clause b lon_param lat_param =
     (if is_images_table b then
        (case (lon_param, lat_param) of
           (Some lon_p, Some lat_p) \<Rightarrow>
             ''SELECT t.hash, t.name, t.created_at, t.place, t.deviceid, CASE WHEN s.hash IS NOT NULL THEN true ELSE false END as starred, ST_Distance(t.location, ST_MakePoint(''
             @ dollar lon_p @ '', '' @ dollar lat_p
             @ '')::geography) / 1000.0 as distance_km, 'image' as media_type, t.file_size_bytes::bigint as file_size_bytes, t.aesthetic_score''
         | _ \<Rightarrow>
             ''SELECT t.hash, t.name, t.created_at, t.place, t.deviceid, CASE WHEN s.hash IS NOT NULL THEN true ELSE false END as starred, NULL::double precision as distance_km, 'image' as media_type, t.file_size_bytes::bigint as file_size_bytes, t.aesthetic_score'')
      else ''SELECT t.hash, t.name, t.created_at, NULL as place, t.deviceid, CASE WHEN s.hash IS NOT NULL THEN true ELSE false END as starred, NULL::double precision as distance_km, 'video' as media_type, t.file_size_bytes as file_size_bytes, NULL::real as aesthetic_score'')"

definition starred_table :: "builder \<Rightarrow> string" where
  "starred_table b = (if is_images_table b then ''starred_images'' else ''starred_videos'')"

definition starred_join :: "string \<Rightarrow> builder \<Rightarrow> string" where
  "starred_join kind b = kind @ '' JOIN '' @ starred_table b @ '' s ON t.hash = s.hash'' @
     (case user_id_param b of Some p \<Rightarrow> '' AND s.user_id = '' @ dollar p | None \<Rightarrow> [])"

definition label_join_clause :: "builder \<Rightarrow> string" where
  "label_join_clause b =
     (case label_id_param b of
        Some p \<Rightarrow>
          (if is_images_table b
           then ''INNER JOIN image_labels l ON t.hash = l.image_hash AND t.user_id = l.image_user_id AND l.label_id = '' @ dollar p
           else ''INNER JOIN video_labels l ON t.hash = l.video_hash AND t.user_id = l.video_user_id AND l.label_id = '' @ dollar p)
      | None \<Rightarrow> [])"

definition build_select_body :: "builder \<Rightarrow> nat option \<Rightarrow> nat option \<Rightarrow> string" where
  "build_select_body b lon_param lat_param =
     (if \<not> table_validated b then SAFE_FALLBACK_QUERY
      else select_clause b lon_param lat_param @ '' FROM '' @ b_table b @ '' t '' @ starred_join ''LEFT'' b @ '' ''
        @ label_join_clause b @ '' '' @ build_where_clause b)"

definition order_clause :: "string \<Rightarrow> string option \<Rightarrow> string option \<Rightarrow> string" where
  "order_clause prefix sort_by sort_order =
     (let dir = (if sort_order = Some ''asc'' then ''ASC'' else ''DESC'') in
      if sort_by = Some ''size'' then ''ORDER BY file_size_bytes '' @ dir @ '' NULLS LAST, hash '' @ dir
      else if sort_by = Some ''quality'' then ''ORDER BY aesthetic_score '' @ dir @ '' NULLS LAST, hash '' @ dir
      else ''ORDER BY '' @ prefix @ ''created_at '' @ dir @ '', '' @ prefix @ ''hash '' @ dir)"

definition build_select_query :: "builder \<Rightarrow> nat \<Rightarrow> nat \<Rightarrow> nat option \<Rightarrow> nat option \<Rightarrow> string option \<Rightarrow> string option \<Rightarrow> string" where
  "build_select_query b limit_param offset_param lon_param lat_param sort_by sort_order =
     (if \<not> table_validated b then SAFE_FALLBACK_QUERY
      else build_select_body b lon_param lat_param @ '' '' @ order_clause ''t.'' sort_by sort_order
        @ '' LIMIT '' @ dollar limit_param @ '' OFFSET '' @ dollar offset_param)"

definition build_count_query :: "builder \<Rightarrow> bool \<Rightarrow> string" where
  "build_count_query b use_inner_join =
     (if \<not> table_validated b then SAFE_FALLBACK_QUERY
      else ''SELECT COUNT(*) FROM '' @ b_table b @ '' t ''
        @ (if use_inner_join then starred_join ''INNER'' b
           else if user_id_param b \<noteq> None then starred_join ''LEFT'' b else []) @ '' ''
        @ label_join_clause b @ '' '' @ build_where_clause b)"

section \<open>The listings\<close>

record query_ext =
  q_parse_uuid :: "string \<Rightarrow> string option"
  q_start :: "string \<Rightarrow> nat option"
  q_end :: "string \<Rightarrow> nat option"
  q_times_1000 :: "64 word \<Rightarrow> 64 word"
  q_show :: "64 word \<Rightarrow> string"

record listing =
  l_user_id :: string
  l_device_id :: "string option"
  l_table :: string
  l_media_type :: string
  l_starred_only :: bool
  l_start_date :: "string option"
  l_end_date :: "string option"
  l_lat :: "64 word option"
  l_lon :: "64 word option"
  l_radius_km :: "64 word option"
  l_label_id :: "int option"
  l_user_filter :: bool
  l_no_exif :: bool

datatype sql_param = P_user string | P_device string | P_label int | P_start nat | P_end nat
  | P_lon "64 word" | P_lat "64 word" | P_limit int | P_offset int

text \<open>The closure \<open>apply_filters\<close> of both functions; the count has one condition more.\<close>

definition apply_filters :: "listing \<Rightarrow> builder \<Rightarrow> builder" where
  "apply_filters L b =
     (let b = with_user_id b;
          b = (if l_user_filter L then with_user_id_filter b else b);
          b = (if l_device_id L \<noteq> None then with_device_id b else b);
          wrong_table = (l_media_type L = ''image'' \<and> \<not> is_images_table b
                         \<or> l_media_type L = ''video'' \<and> \<not> is_videos_table b);
          b = (if wrong_table then add_custom_condition ''1 = 0'' b else b);
          b = (if l_starred_only L then with_starred_only b else b);
          b = (if l_label_id L \<noteq> None then with_label_id b else b);
          b = (if l_start_date L \<noteq> None then with_start_date b else b);
          b = (if l_end_date L \<noteq> None then with_end_date b else b) in
      if l_no_exif L \<and> is_images_table b then with_no_exif b else b)"

text \<open>The default radius \<open>10.0\<close> as an \<open>f64\<close>.\<close>

definition TEN :: "64 word" where
  "TEN = 0x4024000000000000"

definition has_location :: "listing \<Rightarrow> bool" where
  "has_location L \<longleftrightarrow> l_lat L \<noteq> None \<and> l_lon L \<noteq> None"

definition location_filter :: "query_ext \<Rightarrow> listing \<Rightarrow> builder \<Rightarrow> builder" where
  "location_filter X L b =
     (let radius_km = (case l_radius_km L of Some r \<Rightarrow> r | None \<Rightarrow> TEN);
          b1 = add_custom_condition ''t.location IS NOT NULL'' b in
      add_custom_condition (''ST_DWithin(t.location, ST_MakePoint('' @ dollar (param_count b + 1) @ '', ''
        @ dollar (param_count b + 2) @ '')::geography, '' @ q_show X (q_times_1000 X radius_km) @ '')'') b1)"

text \<open>The parameters in the order they are pushed; a date that does not parse is not pushed.\<close>

definition filter_params :: "query_ext \<Rightarrow> string \<Rightarrow> listing \<Rightarrow> bool \<Rightarrow> sql_param list" where
  "filter_params X user L located =
     [P_user user]
     @ (case l_device_id L of Some d \<Rightarrow> [P_device d] | None \<Rightarrow> [])
     @ (case l_label_id L of Some l \<Rightarrow> [P_label l] | None \<Rightarrow> [])
     @ (case Option.bind (l_start_date L) (q_start X) of Some t \<Rightarrow> [P_start t] | None \<Rightarrow> [])
     @ (case Option.bind (l_end_date L) (q_end X) of Some t \<Rightarrow> [P_end t] | None \<Rightarrow> [])
     @ (if located then [P_lon (the (l_lon L)), P_lat (the (l_lat L))] else [])"

definition list_thumbnails :: "query_ext \<Rightarrow> listing \<Rightarrow> 64 word \<Rightarrow> 64 word \<Rightarrow> string option \<Rightarrow> string option
    \<Rightarrow> (string \<times> sql_param list) option" where
  "list_thumbnails X L off lmt sort_by sort_order =
     (case q_parse_uuid X (l_user_id L) of
        None \<Rightarrow> None
      | Some user \<Rightarrow>
          if l_table L = ''all'' then
            let img = apply_filters L (builder_new ''images'');
                n = param_count img;
                located = has_location L;
                img = (if located then location_filter X L img else img);
                idx = (if located then (Some (n + 1), Some (n + 2)) else (None, None));
                vid = apply_filters L (builder_new ''videos'');
                vid = (if located then add_custom_condition ''1 = 0'' vid else vid);
                max_param = param_count img + (if located then 2 else 0) in
            Some (''SELECT * FROM (SELECT DISTINCT ON (hash) hash, name, created_at, place, deviceid, starred, distance_km, media_type, file_size_bytes, aesthetic_score FROM (''
                  @ build_select_body img (fst idx) (snd idx) @ '' UNION ALL '' @ build_select_body vid None None
                  @ '') combined ORDER BY hash, aesthetic_score DESC NULLS LAST) deduped ''
                  @ order_clause [] sort_by sort_order @ '' LIMIT '' @ dollar (max_param + 1) @ '' OFFSET '' @ dollar (max_param + 2),
                  filter_params X user L located @ [P_limit (sint lmt), P_offset (sint off)])
          else
            let b = apply_filters L (builder_new (l_table L));
                n = param_count b;
                located = (has_location L \<and> l_table L = ''images'');
                b = (if located then location_filter X L b else b);
                idx = (if located then (Some (n + 1), Some (n + 2)) else (None, None));
                d = (if located then 2 else 0) in
            Some (build_select_query b (param_count b + 1 + d) (param_count b + 2 + d) (fst idx) (snd idx) sort_by sort_order,
                  filter_params X user L located @ [P_limit (sint lmt), P_offset (sint off)]))"

definition count_filters :: "listing \<Rightarrow> builder \<Rightarrow> builder" where
  "count_filters L b = apply_filters L (with_has_thumbnail b)"

definition total_thumbnails :: "query_ext \<Rightarrow> listing \<Rightarrow> (string \<times> sql_param list) option" where
  "total_thumbnails X L =
     (case q_parse_uuid X (l_user_id L) of
        None \<Rightarrow> None
      | Some user \<Rightarrow>
          if l_table L = ''all'' then
            let located = has_location L;
                img = count_filters L (builder_new ''images'');
                img = (if located then location_filter X L img else img);
                vid = count_filters L (builder_new ''videos'');
                vid = (if located then add_custom_condition ''1 = 0'' vid else vid) in
            Some (''SELECT ('' @ build_count_query img (l_starred_only L) @ '') + (''
                  @ build_count_query vid (l_starred_only L) @ '')'',
                  filter_params X user L located)
          else
            let located = (has_location L \<and> l_table L = ''images'');
                b = count_filters L (builder_new (l_table L));
                b = (if located then location_filter X L b else b) in
            Some (build_count_query b (l_starred_only L), filter_params X user L located))"

section \<open>Placeholders\<close>

definition is_digit :: "char \<Rightarrow> bool" where
  "is_digit c \<longleftrightarrow> 48 \<le> (of_char c :: nat) \<and> (of_char c :: nat) \<le> 57"

text \<open>The parameter numbers a query refers to, in the order of the text.\<close>

fun placeholders :: "string \<Rightarrow> nat list" where
  "placeholders [] = []"
| "placeholders (c # s) =
     (let ds = takeWhile is_digit s in
      (if c = CHR ''$'' \<and> ds \<noteq> [] then [read_digits 0 ds] else []) @ placeholders s)"

definition opens :: "string \<Rightarrow> bool" where
  "opens s \<longleftrightarrow> s = [] \<or> \<not> is_digit (hd s)"

definition closes :: "string \<Rightarrow> bool" where
  "closes s \<longleftrightarrow> s = [] \<or> \<not> is_digit (last s) \<and> last s \<noteq> CHR ''$''"

lemma placeholders_opens: "opens t \<Longrightarrow> placeholders (s @ t) = placeholders s @ placeholders t"
proof (induction s)
  case (Cons c s)
  have "takeWhile is_digit (s @ t) = takeWhile is_digit s"
    using Cons.prems by (cases t) (auto simp: opens_def takeWhile_append takeWhile_eq_all_conv[THEN iffD2])
  then show ?case using Cons by (simp add: Let_def)
qed simp

lemma placeholders_closes: "closes s \<Longrightarrow> placeholders (s @ t) = placeholders s @ placeholders t"
proof (induction s)
  case (Cons c s)
  show ?case
  proof (cases "s = []")
    case False
    with Cons.prems have c: "closes s" and n: "\<not> is_digit (last s)" by (auto simp: closes_def)
    have "takeWhile is_digit (s @ t) = takeWhile is_digit s"
      using False n by (intro takeWhile_append1[of "last s"]) auto
    then show ?thesis using Cons.IH[OF c] by (simp add: Let_def)
  qed (use Cons.prems in \<open>simp add: closes_def\<close>)
qed simp

lemma placeholders_none: "CHR ''$'' \<notin> set s \<Longrightarrow> placeholders s = []"
  by (induction s) (auto simp: Let_def)

lemma show_nat_is_digit: "c \<in> set (show_nat n) \<Longrightarrow> is_digit c"
  using show_nat_digits[of c n] by (simp add: is_digit_def)

lemma show_nat_no_dollar: "CHR ''$'' \<notin> set (show_nat n)"
proof
  assume "CHR ''$'' \<in> set (show_nat n)"
  then show False by (auto dest: show_nat_digits)
qed

lemma show_nat_nonempty: "show_nat n \<noteq> []"
  by (subst show_nat.simps) simp

lemma placeholders_dollar [simp]: "placeholders (dollar n) = [n]"
proof -
  have "takeWhile is_digit (show_nat n) = show_nat n"
    using show_nat_is_digit by (intro takeWhile_eq_all_conv[THEN iffD2]) blast
  note * = this
  show ?thesis
    unfolding dollar_def placeholders.simps Let_def *
    by (simp add: read_show_nat show_nat_nonempty placeholders_none[OF show_nat_no_dollar])
qed

lemma opens_dollar [simp]: "opens (dollar n @ s)" "opens (dollar n)"
  by (simp_all add: opens_def dollar_def is_digit_def)

lemma placeholders_dollar_then: "placeholders (dollar n @ s) = n # placeholders s" if "opens s"
  using placeholders_opens[OF that, of "dollar n"] by simp

section \<open>The numbers a builder refers to\<close>

text \<open>The references of the three places a builder puts a number in: the join on the user's stars, the join on
  the label and the conditions.\<close>

definition refs :: "builder \<Rightarrow> nat set" where
  "refs b = set_option (user_id_param b) \<union> set_option (label_id_param b)
     \<union> (\<Union>c \<in> set (conditions b). set (placeholders c))"

definition numbered :: "builder \<Rightarrow> bool" where
  "numbered b \<longleftrightarrow> refs b = {1..param_count b}"

lemma placeholders_join:
  "placeholders (join '' AND '' cs) = concat (map placeholders cs)"
proof (induction "'' AND ''" cs rule: join.induct)
  case (3 x y xs)
  have "placeholders (x @ '' AND '' @ join '' AND '' (y # xs))
      = placeholders x @ placeholders ('' AND '' @ join '' AND '' (y # xs))"
    by (rule placeholders_opens) (simp add: opens_def is_digit_def)
  also have "placeholders ('' AND '' @ join '' AND '' (y # xs)) = placeholders (join '' AND '' (y # xs))"
    by (subst placeholders_closes) (simp_all add: closes_def is_digit_def placeholders_none)
  finally show ?case using 3 by simp
qed simp_all

lemma opens_char: "opens (c # s) \<longleftrightarrow> \<not> is_digit c"
  by (simp add: opens_def)

lemma placeholders_where:
  "placeholders (build_where_clause b) = concat (map placeholders (conditions b))"
proof -
  have "placeholders (''WHERE '' @ s) = placeholders s" for s
    by (subst placeholders_closes) (simp_all add: closes_def is_digit_def placeholders_none)
  then show ?thesis by (simp add: build_where_clause_def placeholders_join)
qed

lemma opens_where: "opens (build_where_clause b)"
  by (simp add: build_where_clause_def opens_def is_digit_def)

lemma placeholders_lit:
  "CHR ''$'' \<notin> set a \<Longrightarrow> closes a \<Longrightarrow> placeholders (a @ t) = placeholders t"
  by (simp add: placeholders_closes placeholders_none)

lemma placeholders_label_join:
  "placeholders (label_join_clause b) = (case label_id_param b of Some p \<Rightarrow> [p] | None \<Rightarrow> [])"
  by (auto simp: label_join_clause_def placeholders_none placeholders_opens is_digit_def split: option.splits)

lemma opens_label_join: "opens (label_join_clause b)"
  by (auto simp: label_join_clause_def opens_def is_digit_def split: option.splits)

text \<open>Scanning a text that mixes literals, numbers and parts already scanned.\<close>

lemma placeholders_char: "c \<noteq> CHR ''$'' \<Longrightarrow> placeholders (c # s) = placeholders s"
  by (simp add: Let_def)

lemmas scan = placeholders_char placeholders_dollar_then placeholders_opens opens_char opens_where opens_label_join
  is_digit_def placeholders_where placeholders_label_join

lemma placeholders_starred_join:
  "placeholders (starred_join ''LEFT'' b) = (case user_id_param b of Some p \<Rightarrow> [p] | None \<Rightarrow> [])"
  "placeholders (starred_join ''INNER'' b) = (case user_id_param b of Some p \<Rightarrow> [p] | None \<Rightarrow> [])"
  by (auto simp: starred_join_def starred_table_def scan placeholders_dollar split: option.splits)

lemma placeholders_select:
  "placeholders (select_clause b lon_p lat_p)
     = (case (lon_p, lat_p) of (Some x, Some y) \<Rightarrow> if is_images_table b then [x, y] else [] | _ \<Rightarrow> [])"
  by (auto simp: select_clause_def scan split: option.splits)

lemma placeholders_table: "validate_table_name tbl \<Longrightarrow> placeholders (tbl @ s) = placeholders s"
  by (auto simp: validate_table_name_def scan)

lemma placeholders_body:
  assumes "table_validated b" and "validate_table_name (b_table b)"
  shows "placeholders (build_select_body b lon_p lat_p) = placeholders (select_clause b lon_p lat_p)
     @ (case user_id_param b of Some p \<Rightarrow> [p] | None \<Rightarrow> []) @ (case label_id_param b of Some p \<Rightarrow> [p] | None \<Rightarrow> [])
     @ concat (map placeholders (conditions b))"
  using assms by (auto simp: build_select_body_def placeholders_table scan placeholders_starred_join)

lemma placeholders_order: "placeholders (order_clause ''t.'' sb so @ s) = placeholders s" "placeholders (order_clause [] sb so @ s) = placeholders s"
  by (auto simp: order_clause_def Let_def scan)

lemma placeholders_count:
  assumes "table_validated b" and "validate_table_name (b_table b)"
  shows "placeholders (build_count_query b inner) =
     (case user_id_param b of Some p \<Rightarrow> [p] | None \<Rightarrow> []) @ (case label_id_param b of Some p \<Rightarrow> [p] | None \<Rightarrow> [])
     @ concat (map placeholders (conditions b))"
  using assms by (auto simp: build_count_query_def placeholders_table scan placeholders_starred_join split: option.splits)

lemma set_placeholders_body:
  assumes "table_validated b" and "validate_table_name (b_table b)"
  shows "set (placeholders (build_select_body b lon_p lat_p)) = set (placeholders (select_clause b lon_p lat_p)) \<union> refs b"
  using assms by (auto simp: placeholders_body refs_def split: option.splits)

lemma set_placeholders_count:
  assumes "table_validated b" and "validate_table_name (b_table b)"
  shows "set (placeholders (build_count_query b inner)) = refs b"
  using assms by (auto simp: placeholders_count refs_def split: option.splits)

section \<open>The builder numbers its parameters without gaps\<close>

lemma refs_param: "refs (with_param_condition c b) = refs b \<union> {param_count b + 1}"
  if "CHR ''$'' \<notin> set c"
proof -
  have "placeholders (c @ dollar n) = [n]" for n
    using that by (simp add: placeholders_opens placeholders_none)
  then show ?thesis by (auto simp: with_param_condition_def refs_def Let_def)
qed

lemma numbered_param: "numbered b \<Longrightarrow> CHR ''$'' \<notin> set c \<Longrightarrow> numbered (with_param_condition c b)"
  by (auto simp: numbered_def refs_param) (auto simp: with_param_condition_def Let_def)

lemma numbered_custom: "numbered b \<Longrightarrow> set (placeholders c) \<subseteq> refs b \<Longrightarrow> numbered (add_custom_condition c b)"
  by (auto simp: numbered_def refs_def add_custom_condition_def)

lemma numbered_label: "numbered b \<Longrightarrow> label_id_param b = None \<Longrightarrow> numbered (with_label_id b)"
  by (auto simp: numbered_def refs_def with_label_id_def Let_def)

lemma numbered_user: "numbered b \<Longrightarrow> user_id_param b = None \<Longrightarrow> numbered (with_user_id b)"
  by (auto simp: numbered_def refs_def with_user_id_def Let_def)

lemmas builder_ops = with_user_id_def with_param_condition_def with_device_id_def with_start_date_def
  with_end_date_def with_user_id_filter_def with_starred_only_def with_label_id_def with_has_thumbnail_def
  with_no_exif_def add_custom_condition_def Let_def

lemma builder_frame [simp]:
  "b_table (add_custom_condition c b) = b_table b" "b_table (with_user_id b) = b_table b"
  "b_table (with_param_condition c b) = b_table b" "b_table (with_user_id_filter b) = b_table b"
  "b_table (with_label_id b) = b_table b"
  "table_validated (add_custom_condition c b) = table_validated b" "table_validated (with_user_id b) = table_validated b"
  "table_validated (with_param_condition c b) = table_validated b"
  "table_validated (with_user_id_filter b) = table_validated b" "table_validated (with_label_id b) = table_validated b"
  "param_count (add_custom_condition c b) = param_count b" "param_count (with_user_id b) = param_count b + 1"
  "param_count (with_param_condition c b) = param_count b + 1" "param_count (with_user_id_filter b) = param_count b"
  "param_count (with_label_id b) = param_count b + 1"
  "label_id_param (add_custom_condition c b) = label_id_param b" "label_id_param (with_user_id b) = label_id_param b"
  "label_id_param (with_param_condition c b) = label_id_param b"
  "label_id_param (with_user_id_filter b) = label_id_param b"
  "user_id_param (add_custom_condition c b) = user_id_param b"
  "user_id_param (with_param_condition c b) = user_id_param b" "user_id_param (with_label_id b) = user_id_param b"
  "user_id_param (with_user_id_filter b) = user_id_param b"
  by (simp_all add: builder_ops split: option.splits)

lemma builder_new_frame [simp]:
  "b_table (builder_new tbl) = tbl" "table_validated (builder_new tbl) = validate_table_name tbl"
  "param_count (builder_new tbl) = 0" "user_id_param (builder_new tbl) = None" "label_id_param (builder_new tbl) = None"
  "conditions (builder_new tbl) = [''t.deleted_at IS NULL'']"
  by (simp_all add: builder_new_def)

lemma numbered_new: "numbered (builder_new tbl)"
  by (simp add: numbered_def refs_def builder_new_def placeholders_none)

lemma numbered_user_filter: "numbered b \<Longrightarrow> numbered (with_user_id_filter b)"
  unfolding with_user_id_filter_def
  by (auto split: option.splits intro!: numbered_custom simp: scan refs_def)

lemma numbered_plain: "numbered b \<Longrightarrow> CHR ''$'' \<notin> set c \<Longrightarrow> numbered (add_custom_condition c b)"
  by (rule numbered_custom) (simp_all add: placeholders_none)

text \<open>The two halves of \<open>apply_filters\<close>: up to the label's parameter, and from it on.\<close>

definition filters_until_label :: "listing \<Rightarrow> builder \<Rightarrow> builder" where
  "filters_until_label L b =
     (let b = with_user_id b;
          b = (if l_user_filter L then with_user_id_filter b else b);
          b = (if l_device_id L \<noteq> None then with_device_id b else b);
          b = (if l_media_type L = ''image'' \<and> \<not> is_images_table b \<or> l_media_type L = ''video'' \<and> \<not> is_videos_table b
               then add_custom_condition ''1 = 0'' b else b) in
      if l_starred_only L then with_starred_only b else b)"

lemma apply_filters_split:
  "apply_filters L b =
     (let b = filters_until_label L b;
          b = (if l_label_id L \<noteq> None then with_label_id b else b);
          b = (if l_start_date L \<noteq> None then with_start_date b else b);
          b = (if l_end_date L \<noteq> None then with_end_date b else b) in
      if l_no_exif L \<and> is_images_table b then with_no_exif b else b)"
  by (simp only: apply_filters_def filters_until_label_def Let_def)

lemma filters_until_label_frame [simp]:
  "b_table (filters_until_label L b) = b_table b" "table_validated (filters_until_label L b) = table_validated b"
  "label_id_param (filters_until_label L b) = label_id_param b"
  "user_id_param (filters_until_label L b) = Some (param_count b + 1)"
  "param_count (filters_until_label L b) = param_count b + 1 + of_bool (l_device_id L \<noteq> None)"
  by (simp_all add: filters_until_label_def Let_def with_device_id_def with_starred_only_def)
     (simp add: with_user_id_def Let_def)

lemma numbered_until_label:
  assumes "numbered b" and "user_id_param b = None"
  shows "numbered (filters_until_label L b)"
proof -
  have u: "numbered (with_user_id b)" using assms by (rule numbered_user)
  show ?thesis
    by (simp add: filters_until_label_def Let_def with_device_id_def with_starred_only_def u
        numbered_plain numbered_param numbered_user_filter)
qed

lemma apply_filters_frame [simp]:
  "b_table (apply_filters L b) = b_table b" "table_validated (apply_filters L b) = table_validated b"
  "user_id_param (apply_filters L b) = Some (param_count b + 1)"
  "param_count (apply_filters L b) = param_count b + 1 + of_bool (l_device_id L \<noteq> None) + of_bool (l_label_id L \<noteq> None)
     + of_bool (l_start_date L \<noteq> None) + of_bool (l_end_date L \<noteq> None)"
  by (simp_all add: apply_filters_split Let_def with_no_exif_def with_start_date_def with_end_date_def)

lemma numbered_apply_filters:
  assumes "numbered b" and "user_id_param b = None" and "label_id_param b = None"
  shows "numbered (apply_filters L b)"
proof -
  have u: "numbered (filters_until_label L b)" using assms(1,2) by (rule numbered_until_label)
  have l: "numbered (with_label_id (filters_until_label L b))"
    using u by (rule numbered_label) (simp add: assms(3))
  show ?thesis
    by (simp add: apply_filters_split Let_def with_no_exif_def with_start_date_def with_end_date_def u l
        numbered_plain numbered_param)
qed

lemma location_filter_frame [simp]:
  "b_table (location_filter X L b) = b_table b" "table_validated (location_filter X L b) = table_validated b"
  "param_count (location_filter X L b) = param_count b" "user_id_param (location_filter X L b) = user_id_param b"
  by (simp_all add: location_filter_def Let_def)

lemma refs_location:
  assumes "\<forall>f. CHR ''$'' \<notin> set (q_show X f)"
  shows "refs (location_filter X L b) = refs b \<union> {param_count b + 1, param_count b + 2}"
proof -
  have tail: "placeholders ('')::geography, '' @ q_show X f @ '')'') = []" for f
    using assms by (intro placeholders_none) auto
  have "placeholders (''ST_DWithin(t.location, ST_MakePoint('' @ dollar i @ '', '' @ dollar j @ '')::geography, '' @ q_show X f @ '')'')
      = [i, j]" for i j f
    using tail[of f] by (simp add: scan)
  moreover have "placeholders ''t.location IS NOT NULL'' = []" by (rule placeholders_none) simp
  ultimately show ?thesis
    by (auto simp: location_filter_def add_custom_condition_def Let_def refs_def)
qed

lemma refs_custom_plain: "CHR ''$'' \<notin> set c \<Longrightarrow> refs (add_custom_condition c b) = refs b"
  by (auto simp: refs_def add_custom_condition_def placeholders_none)

lemma numbered_filters: "refs (apply_filters L (builder_new tbl)) = {1..param_count (apply_filters L (builder_new tbl))}"
  using numbered_apply_filters[OF numbered_new] by (simp add: numbered_def)

lemma numbered_count_filters: "refs (count_filters L (builder_new tbl)) = {1..param_count (count_filters L (builder_new tbl))}"
proof -
  have "numbered (with_has_thumbnail (builder_new tbl))"
    unfolding with_has_thumbnail_def by (intro numbered_plain numbered_new) simp
  from numbered_apply_filters[OF this] show ?thesis
    by (simp add: numbered_def count_filters_def with_has_thumbnail_def)
qed

lemma count_filters_frame [simp]:
  "b_table (count_filters L b) = b_table b" "table_validated (count_filters L b) = table_validated b"
  "param_count (count_filters L b) = param_count (apply_filters L b)"
  by (simp_all add: count_filters_def with_has_thumbnail_def)

text \<open>The dates of a request are in the format of the parser.\<close>

definition dates_parse :: "query_ext \<Rightarrow> listing \<Rightarrow> bool" where
  "dates_parse X L \<longleftrightarrow> (case l_start_date L of Some d \<Rightarrow> q_start X d \<noteq> None | None \<Rightarrow> True)
     \<and> (case l_end_date L of Some d \<Rightarrow> q_end X d \<noteq> None | None \<Rightarrow> True)"

lemma length_filter_params:
  assumes "dates_parse X L"
  shows "length (filter_params X user L located) = param_count (apply_filters L (builder_new tbl)) + (if located then 2 else 0)"
  using assms by (auto simp: filter_params_def dates_parse_def split: option.splits)

lemma length_filter_params_le:
  "length (filter_params X user L located) \<le> param_count (apply_filters L (builder_new tbl)) + (if located then 2 else 0)"
  by (auto simp: filter_params_def split: option.splits)

lemma table_names [simp]: "validate_table_name ''images''" "validate_table_name ''videos''"
  by (simp_all add: validate_table_name_def)

lemma upt_two: "{1..n} \<union> {n + 1, n + 2} = {1..n + (2::nat)}"
  by auto

lemma refs_located:
  assumes "\<forall>f. CHR ''$'' \<notin> set (q_show X f)" and "refs b = {1..param_count b}"
  shows "refs (if c then location_filter X L b else b) = {1..param_count b + (if c then 2 else 0)}"
  using assms(2) upt_two[of "param_count b"] by (simp add: refs_location[OF assms(1)])

text \<open>The numbers of the two shapes of a listing's query.\<close>

lemma list_all_placeholders:
  assumes "\<forall>f. CHR ''$'' \<notin> set (q_show X f)" and "l_table L = ''all''"
    and "list_thumbnails X L off lmt sb so = Some (q, ps)"
  shows "set (placeholders q) = {1..param_count (apply_filters L (builder_new ''images'')) + (if has_location L then 4 else 2)}"
proof -
  let ?i = "apply_filters L (builder_new ''images'')" and ?v = "apply_filters L (builder_new ''videos'')"
  let ?n = "param_count ?i"
  define i where "i = (if has_location L then location_filter X L ?i else ?i)"
  define v where "v = (if has_location L then add_custom_condition ''1 = 0'' ?v else ?v)"
  define x where "x = (if has_location L then (Some (?n + 1), Some (?n + 2)) else (None, None))"
  have ri: "refs i = {1..?n + (if has_location L then 2 else 0)}"
    unfolding i_def by (rule refs_located[OF assms(1) numbered_filters])
  have rv: "refs v = {1..?n}"
    unfolding v_def using numbered_filters[of L "''videos''"] by (simp add: refs_custom_plain)
  have t: "table_validated i" "b_table i = ''images''" "table_validated v" "b_table v = ''videos''"
    by (simp_all add: i_def v_def table_names)
  have si: "set (placeholders (build_select_body i (fst x) (snd x))) = {1..?n + (if has_location L then 2 else 0)}"
    using t ri by (auto simp: set_placeholders_body table_names placeholders_select x_def split: if_splits)
  have sv: "set (placeholders (build_select_body v None None)) = {1..?n}"
    using t rv by (simp add: set_placeholders_body table_names placeholders_select)
  define m where "m = ?n + (if has_location L then 2 else 0)"
  have q: "q = ''SELECT * FROM (SELECT DISTINCT ON (hash) hash, name, created_at, place, deviceid, starred, distance_km, media_type, file_size_bytes, aesthetic_score FROM (''
      @ build_select_body i (fst x) (snd x) @ '' UNION ALL '' @ build_select_body v None None
      @ '') combined ORDER BY hash, aesthetic_score DESC NULLS LAST) deduped ''
      @ order_clause [] sb so @ '' LIMIT '' @ dollar (m + 1) @ '' OFFSET '' @ dollar (m + 2)"
    using assms(2,3) unfolding i_def v_def x_def m_def
    by (auto simp: list_thumbnails_def Let_def split: option.splits)
  have "set (placeholders q) = {1..?n + (if has_location L then 2 else 0)} \<union> {1..?n} \<union> {m + 1, m + 2}"
    unfolding q by (simp add: scan placeholders_order si sv Un_assoc)
  then show ?thesis by (auto simp: m_def)
qed

text \<open>Whether a listing or count carries the two numbers of a location.\<close>

definition located_query :: "listing \<Rightarrow> bool" where
  "located_query L \<longleftrightarrow> has_location L \<and> (l_table L = ''all'' \<or> l_table L = ''images'')"

lemma list_one_placeholders:
  assumes "\<forall>f. CHR ''$'' \<notin> set (q_show X f)" and "l_table L \<noteq> ''all''" and "validate_table_name (l_table L)"
    and "list_thumbnails X L off lmt sb so = Some (q, ps)"
  shows "set (placeholders q) = {1..param_count (apply_filters L (builder_new (l_table L))) + (if located_query L then 4 else 2)}"
proof -
  let ?b = "apply_filters L (builder_new (l_table L))"
  let ?n = "param_count ?b"
  let ?c = "has_location L \<and> l_table L = ''images''"
  define b where "b = (if ?c then location_filter X L ?b else ?b)"
  define x where "x = (if ?c then (Some (?n + 1), Some (?n + 2)) else (None, None))"
  define m where "m = ?n + (if ?c then 2 else 0)"
  have r: "refs b = {1..m}"
    unfolding b_def m_def by (rule refs_located[OF assms(1) numbered_filters])
  have t: "table_validated b" "b_table b = l_table L" by (simp_all add: b_def assms(3))
  have sb: "set (placeholders (build_select_body b (fst x) (snd x))) = {1..m}"
    using t r assms(3) by (auto simp: set_placeholders_body placeholders_select x_def m_def split: if_splits)
  have q: "q = build_select_query b (m + 1) (m + 2) (fst x) (snd x) sb so"
    using assms(2,4) unfolding b_def x_def m_def
    by (auto simp: list_thumbnails_def Let_def split: option.splits if_splits)
  have "set (placeholders q) = {1..m} \<union> {m + 1, m + 2}"
    unfolding q by (simp add: build_select_query_def t scan placeholders_order sb)
  then show ?thesis using assms(2) by (auto simp: m_def located_query_def)
qed

lemma list_thumbnails_placeholders:
  assumes "\<forall>f. CHR ''$'' \<notin> set (q_show X f)" and "l_table L = ''all'' \<or> validate_table_name (l_table L)"
    and "list_thumbnails X L off lmt sb so = Some (q, ps)"
  shows "set (placeholders q) = {1..param_count (apply_filters L (builder_new tbl)) + (if located_query L then 4 else 2)}"
  using list_all_placeholders[OF assms(1) _ assms(3)] list_one_placeholders[OF assms(1) _ _ assms(3)] assms(2)
  by (cases "l_table L = ''all''") (auto simp: located_query_def)

lemma total_thumbnails_placeholders:
  assumes "\<forall>f. CHR ''$'' \<notin> set (q_show X f)" and "l_table L = ''all'' \<or> validate_table_name (l_table L)"
    and "total_thumbnails X L = Some (q, ps)"
  shows "set (placeholders q) = {1..param_count (apply_filters L (builder_new tbl)) + (if located_query L then 2 else 0)}"
proof (cases "l_table L = ''all''")
  case True
  let ?i = "count_filters L (builder_new ''images'')" and ?v = "count_filters L (builder_new ''videos'')"
  define i where "i = (if has_location L then location_filter X L ?i else ?i)"
  define v where "v = (if has_location L then add_custom_condition ''1 = 0'' ?v else ?v)"
  have ri: "refs i = {1..param_count ?i + (if has_location L then 2 else 0)}"
    unfolding i_def by (rule refs_located[OF assms(1) numbered_count_filters])
  have rv: "refs v = {1..param_count ?v}"
    unfolding v_def using numbered_count_filters[of L "''videos''"] by (simp add: refs_custom_plain)
  have t: "table_validated i" "b_table i = ''images''" "table_validated v" "b_table v = ''videos''"
    by (simp_all add: i_def v_def table_names)
  have q: "q = ''SELECT ('' @ build_count_query i (l_starred_only L) @ '') + ('' @ build_count_query v (l_starred_only L) @ '')''"
    using True assms(3) unfolding i_def v_def by (auto simp: total_thumbnails_def Let_def split: option.splits)
  have "set (placeholders q) = refs i \<union> refs v"
    unfolding q using t by (simp add: scan set_placeholders_count table_names)
  then show ?thesis using True by (auto simp: ri rv located_query_def)
next
  case False
  let ?c = "has_location L \<and> l_table L = ''images''"
  let ?b = "count_filters L (builder_new (l_table L))"
  define b where "b = (if ?c then location_filter X L ?b else ?b)"
  have r: "refs b = {1..param_count ?b + (if ?c then 2 else 0)}"
    unfolding b_def by (rule refs_located[OF assms(1) numbered_count_filters])
  have t: "table_validated b" "b_table b = l_table L" using False assms(2) by (simp_all add: b_def)
  have q: "q = build_count_query b (l_starred_only L)"
    using False assms(3) unfolding b_def by (auto simp: total_thumbnails_def Let_def split: option.splits if_splits)
  have "set (placeholders q) = refs b" unfolding q using False t assms(2) by (simp add: set_placeholders_count)
  then show ?thesis using False by (auto simp: r located_query_def)
qed

lemma list_thumbnails_params:
  assumes "list_thumbnails X L off lmt sb so = Some (q, ps)"
  shows "\<exists>user. q_parse_uuid X (l_user_id L) = Some user
    \<and> ps = filter_params X user L (located_query L) @ [P_limit (sint lmt), P_offset (sint off)]"
  using assms by (auto simp: list_thumbnails_def Let_def located_query_def split: option.splits if_splits)

lemma total_thumbnails_params:
  assumes "total_thumbnails X L = Some (q, ps)"
  shows "\<exists>user. q_parse_uuid X (l_user_id L) = Some user \<and> ps = filter_params X user L (located_query L)"
  using assms by (auto simp: total_thumbnails_def Let_def located_query_def split: option.splits if_splits)

text \<open>Where the filters put their conditions and numbers.\<close>

lemma conditions_frame [simp]:
  "conditions (add_custom_condition c b) = conditions b @ [c]" "conditions (with_user_id b) = conditions b"
  "conditions (with_label_id b) = conditions b"
  "conditions (with_param_condition c b) = conditions b @ [c @ dollar (param_count b + 1)]"
  by (simp_all add: builder_ops)

lemma user_filter_condition:
  "conditions (with_user_id_filter (with_user_id b)) = conditions b @ [''t.user_id = '' @ dollar (param_count b + 1)]"
  by (simp add: builder_ops)

lemma filters_until_label_conditions:
  "l_user_filter L \<Longrightarrow> ''t.user_id = '' @ dollar (param_count b + 1) \<in> set (conditions (filters_until_label L b))"
  "l_device_id L = Some d \<Longrightarrow> ''t.deviceid = '' @ dollar (param_count b + 2) \<in> set (conditions (filters_until_label L b))"
  by (simp_all add: filters_until_label_def Let_def with_device_id_def with_starred_only_def user_filter_condition)

lemma apply_filters_conditions:
  "c \<in> set (conditions (filters_until_label L b)) \<Longrightarrow> c \<in> set (conditions (apply_filters L b))"
  "l_start_date L = Some d \<Longrightarrow> ''t.created_at >= '' @ dollar (param_count (filters_until_label L b)
      + of_bool (l_label_id L \<noteq> None) + 1) \<in> set (conditions (apply_filters L b))"
  "l_end_date L = Some d \<Longrightarrow> ''t.created_at < '' @ dollar (param_count (filters_until_label L b)
      + of_bool (l_label_id L \<noteq> None) + of_bool (l_start_date L \<noteq> None) + 1) \<in> set (conditions (apply_filters L b))"
  by (simp_all add: apply_filters_split Let_def with_start_date_def with_end_date_def with_no_exif_def
      del: filters_until_label_frame(5))

lemma apply_filters_label:
  "l_label_id L = Some l \<Longrightarrow> label_id_param (apply_filters L b) = Some (param_count b + 2 + of_bool (l_device_id L \<noteq> None))"
proof -
  assume "l_label_id L = Some l"
  moreover have "label_id_param (with_label_id b') = Some (param_count b' + 1)" for b' by (simp add: builder_ops)
  ultimately show ?thesis
    by (simp add: apply_filters_split Let_def with_start_date_def with_end_date_def with_no_exif_def)
qed

section \<open>Properties\<close>

text \<open>C38. With dates the parser reads, the numbers in the query of a listing and in the query of its count are
  exactly the positions of the parameters sent with it: none is missing, none is unused, whatever combination of
  filters, table and location is asked for.\<close>

theorem listing_parameters_match:
  assumes "\<forall>f. CHR ''$'' \<notin> set (q_show X f)" and "l_table L = ''all'' \<or> validate_table_name (l_table L)"
    and "dates_parse X L"
    and "list_thumbnails X L off lmt sb so = Some (q, ps)" and "total_thumbnails X L = Some (r, rs)"
  shows "set (placeholders q) = {1..length ps} \<and> set (placeholders r) = {1..length rs}"
proof -
  let ?n = "param_count (apply_filters L (builder_new []))"
  have "length ps = ?n + (if located_query L then 2 else 0) + 2"
    using list_thumbnails_params[OF assms(4)] length_filter_params[OF assms(3), of _ _ "[]"] by auto
  moreover have "length rs = ?n + (if located_query L then 2 else 0)"
    using total_thumbnails_params[OF assms(5)] length_filter_params[OF assms(3), of _ _ "[]"] by auto
  ultimately show ?thesis
    using list_thumbnails_placeholders[OF assms(1,2,4), of "[]"] total_thumbnails_placeholders[OF assms(1,2,5), of "[]"]
    by auto
qed

definition sample_ext :: query_ext where
  "sample_ext = \<lparr>q_parse_uuid = Some, q_start = (\<lambda>d. if d = ''2024-05-01'' then Some 1714521600 else None),
     q_end = (\<lambda>d. if d = ''2024-05-01'' then Some 1714608000 else None), q_times_1000 = id, q_show = (\<lambda>_. ''10000'')\<rparr>"

definition sample_listing :: "string \<Rightarrow> listing" where
  "sample_listing d = \<lparr>l_user_id = ''u'', l_device_id = Some ''phone'', l_table = ''all'', l_media_type = ''all'',
     l_starred_only = True, l_start_date = Some d, l_end_date = None, l_lat = Some 1, l_lon = Some 2, l_radius_km = None,
     l_label_id = Some 7, l_user_filter = True, l_no_exif = True\<rparr>"

lemma sample_ext_plain: "\<forall>f. CHR ''$'' \<notin> set (q_show sample_ext f)"
  by (simp add: sample_ext_def)

lemma listings_defined:
  "q_parse_uuid X (l_user_id L) = Some u \<Longrightarrow> \<exists>q ps r rs. list_thumbnails X L off lmt sb so = Some (q, ps)
     \<and> total_thumbnails X L = Some (r, rs)"
  by (simp add: list_thumbnails_def total_thumbnails_def Let_def)

lemma sample_fields [simp]:
  "q_parse_uuid sample_ext = Some" "q_start sample_ext d = (if d = ''2024-05-01'' then Some 1714521600 else None)"
  "l_user_id (sample_listing d) = ''u''" "l_table (sample_listing d) = ''all''" "l_start_date (sample_listing d) = Some d"
  "l_end_date (sample_listing d) = None" "l_user_filter (sample_listing d)" "l_device_id (sample_listing d) = Some ''phone''"
  "l_label_id (sample_listing d) = Some 7"
  by (simp_all add: sample_ext_def sample_listing_def)

theorem listing_parameters_match_witness:
  "dates_parse sample_ext (sample_listing ''2024-05-01'') \<and>
   (\<exists>q ps r rs. list_thumbnails sample_ext (sample_listing ''2024-05-01'') 0 50 None None = Some (q, ps)
      \<and> total_thumbnails sample_ext (sample_listing ''2024-05-01'') = Some (r, rs)
      \<and> set (placeholders q) = {1..length ps} \<and> set (placeholders r) = {1..length rs})"
proof -
  have d: "dates_parse sample_ext (sample_listing ''2024-05-01'')" by (simp add: dates_parse_def)
  obtain q ps r rs where "list_thumbnails sample_ext (sample_listing ''2024-05-01'') 0 50 None None = Some (q, ps)"
    and "total_thumbnails sample_ext (sample_listing ''2024-05-01'') = Some (r, rs)"
    using listings_defined[of sample_ext "sample_listing ''2024-05-01''" "''u''" 0 50 None None] by auto
  with listing_parameters_match[OF sample_ext_plain _ d this] d show ?thesis by auto
qed

text \<open>C39. A date the parser rejects still gets a number in the query but no parameter: the query of the listing
  and the query of its count refer to a parameter that is not sent.\<close>

theorem unparsable_date_unbound:
  assumes "\<forall>f. CHR ''$'' \<notin> set (q_show X f)" and "l_table L = ''all'' \<or> validate_table_name (l_table L)"
    and "\<not> dates_parse X L"
    and "list_thumbnails X L off lmt sb so = Some (q, ps)" and "total_thumbnails X L = Some (r, rs)"
  shows "(\<exists>k \<in> set (placeholders q). length ps < k) \<and> (\<exists>k \<in> set (placeholders r). length rs < k)"
proof -
  let ?n = "param_count (apply_filters L (builder_new []))"
  have short: "length (filter_params X user L c) < ?n + (if c then 2 else 0)" for user c
    using assms(3) by (auto simp: filter_params_def dates_parse_def split: option.splits)
  have "length ps < ?n + (if located_query L then 2 else 0) + 2"
    using list_thumbnails_params[OF assms(4)] short by fastforce
  moreover have "length rs < ?n + (if located_query L then 2 else 0)"
    using total_thumbnails_params[OF assms(5)] short by blast
  moreover have "k \<in> {1..k}" if "length zs < k" for k and zs :: "sql_param list" using that by simp
  ultimately show ?thesis
    using list_thumbnails_placeholders[OF assms(1,2,4), of "[]"] total_thumbnails_placeholders[OF assms(1,2,5), of "[]"]
    by (intro conjI bexI[of _ "?n + (if located_query L then 2 else 0) + 2"] bexI[of _ "?n + (if located_query L then 2 else 0)"])
       auto
qed

theorem unparsable_date_unbound_witness:
  "\<exists>q ps r rs. list_thumbnails sample_ext (sample_listing ''01.05.2024'') 0 50 None None = Some (q, ps)
      \<and> total_thumbnails sample_ext (sample_listing ''01.05.2024'') = Some (r, rs)
      \<and> (\<exists>k \<in> set (placeholders q). length ps < k) \<and> (\<exists>k \<in> set (placeholders r). length rs < k)"
proof -
  have d: "\<not> dates_parse sample_ext (sample_listing ''01.05.2024'')" by (simp add: dates_parse_def)
  obtain q ps r rs where "list_thumbnails sample_ext (sample_listing ''01.05.2024'') 0 50 None None = Some (q, ps)"
    and "total_thumbnails sample_ext (sample_listing ''01.05.2024'') = Some (r, rs)"
    using listings_defined[of sample_ext "sample_listing ''01.05.2024''" "''u''" 0 50 None None] by auto
  with unparsable_date_unbound[OF sample_ext_plain _ d this] show ?thesis by auto
qed

text \<open>Each filter refers to its own parameter: the condition on the owner to the requesting user, which is also
  the user of the join on stars, the conditions on device and dates and the join on the label to the values of the
  request, in the listing and in the count.\<close>

theorem filters_bound:
  assumes "dates_parse X L" and "f = apply_filters L \<or> f = count_filters L" and "b = f (builder_new tbl)"
    and "ps = filter_params X user L located"
  shows "user_id_param b = Some 1 \<and> ps ! 0 = P_user user
    \<and> (l_user_filter L \<longrightarrow> ''t.user_id = '' @ dollar 1 \<in> set (conditions b))
    \<and> (\<forall>d. l_device_id L = Some d \<longrightarrow> (\<exists>k. ''t.deviceid = '' @ dollar (k + 1) \<in> set (conditions b) \<and> ps ! k = P_device d))
    \<and> (\<forall>l. l_label_id L = Some l \<longrightarrow> (\<exists>k. label_id_param b = Some (k + 1) \<and> ps ! k = P_label l))
    \<and> (\<forall>d. l_start_date L = Some d \<longrightarrow>
         (\<exists>k. ''t.created_at >= '' @ dollar (k + 1) \<in> set (conditions b) \<and> ps ! k = P_start (the (q_start X d))))
    \<and> (\<forall>d. l_end_date L = Some d \<longrightarrow>
         (\<exists>k. ''t.created_at < '' @ dollar (k + 1) \<in> set (conditions b) \<and> ps ! k = P_end (the (q_end X d))))"
proof -
  obtain a where b: "b = apply_filters L a" and a: "param_count a = 0"
    using assms(2,3) by (auto simp: count_filters_def with_has_thumbnail_def)
  let ?d = "of_bool (l_device_id L \<noteq> None) :: nat" and ?l = "of_bool (l_label_id L \<noteq> None) :: nat"
    and ?s = "of_bool (l_start_date L \<noteq> None) :: nat"
  have dev: "ps ! 1 = P_device d" if "l_device_id L = Some d" for d
    using that by (simp add: assms(4) filter_params_def)
  have lab: "ps ! (?d + 1) = P_label l" if "l_label_id L = Some l" for l
    using that by (auto simp: assms(4) filter_params_def split: option.splits)
  have st: "ps ! (?d + ?l + 1) = P_start (the (q_start X d))" if "l_start_date L = Some d" for d
    using that assms(1) by (auto simp: assms(4) filter_params_def dates_parse_def split: option.splits)
  have en: "ps ! (?d + ?l + ?s + 1) = P_end (the (q_end X d))" if "l_end_date L = Some d" for d
    using that assms(1) by (auto simp: assms(4) filter_params_def dates_parse_def split: option.splits)
  note c = apply_filters_conditions[where L = L and b = a] filters_until_label_conditions[where L = L and b = a]
  show ?thesis
  proof (intro conjI allI impI)
    show "user_id_param b = Some 1" by (simp add: b a)
    show "ps ! 0 = P_user user" by (simp add: assms(4) filter_params_def)
    show "''t.user_id = '' @ dollar 1 \<in> set (conditions b)" if "l_user_filter L"
      using c(1)[OF c(4)[OF that]] by (simp add: b a)
    show "\<exists>k. ''t.deviceid = '' @ dollar (k + 1) \<in> set (conditions b) \<and> ps ! k = P_device d" if "l_device_id L = Some d" for d
      using c(1)[OF c(5)[OF that]] dev[OF that] by (intro exI[of _ 1]) (simp add: b a)
    show "\<exists>k. label_id_param b = Some (k + 1) \<and> ps ! k = P_label l" if "l_label_id L = Some l" for l
      using apply_filters_label[OF that, of a] lab[OF that] by (intro exI[of _ "?d + 1"]) (simp add: b a)
    show "\<exists>k. ''t.created_at >= '' @ dollar (k + 1) \<in> set (conditions b) \<and> ps ! k = P_start (the (q_start X d))"
      if "l_start_date L = Some d" for d
      using c(2)[OF that] st[OF that] by (intro exI[of _ "?d + ?l + 1"]) (simp add: b a add_ac)
    show "\<exists>k. ''t.created_at < '' @ dollar (k + 1) \<in> set (conditions b) \<and> ps ! k = P_end (the (q_end X d))"
      if "l_end_date L = Some d" for d
      using c(3)[OF that] en[OF that] by (intro exI[of _ "?d + ?l + ?s + 1"]) (simp add: b a add_ac)
  qed
qed

theorem filters_bound_witness:
  "let b = apply_filters (sample_listing ''2024-05-01'') (builder_new ''images'');
       ps = filter_params sample_ext ''u'' (sample_listing ''2024-05-01'') False in
   user_id_param b = Some 1 \<and> ps ! 0 = P_user ''u'' \<and> ''t.user_id = '' @ dollar 1 \<in> set (conditions b)
   \<and> (\<exists>k. label_id_param b = Some (k + 1) \<and> ps ! k = P_label 7)
   \<and> (\<exists>k. ''t.created_at >= '' @ dollar (k + 1) \<in> set (conditions b) \<and> ps ! k = P_start 1714521600)"
  using filters_bound[of sample_ext "sample_listing ''2024-05-01''" "apply_filters (sample_listing ''2024-05-01'')"
      "apply_filters (sample_listing ''2024-05-01'') (builder_new ''images'')" "''images''"
      "filter_params sample_ext ''u'' (sample_listing ''2024-05-01'') False" "''u''" False]
  by (simp only: Let_def) (simp add: dates_parse_def)

end
