(* ===== verification/MediaStore.thy ===== *)
theory MediaStore
  imports Externals_Model Accounts "HOL-Library.AList"
begin

text \<open>
  The local store of media files: names and paths (\<open>media_utils.rs\<close>), dates and coordinates read from names and EXIF
  (\<open>media_utils.rs\<close>, \<open>geo_utils.rs\<close>), the ingest of a file (\<open>services/ingest.rs\<close>) and the upload handlers
  (\<open>services/upload.rs\<close>).

  The file system maps paths, lists of components, to contents; every call on it and on the database may fail as the
  environment of the request says, and a failing copy leaves a prefix behind.  Strings are the bytes of their UTF-8
  form.  Parameters are the crates: \<open>chrono\<close>'s parsers, the EXIF reader, JSON rendering, the arithmetic of
  \<open>f64\<close> (a bit pattern), Unicode lower-casing and lossy decoding.
\<close>

section \<open>Names and paths\<close>

type_synonym path = "string list"

definition is_valid_content_hash :: "string \<Rightarrow> bool" where
  "is_valid_content_hash s \<longleftrightarrow> length s = 64 \<and> list_all is_lower_hex s"

definition is_ascii_digit :: "char \<Rightarrow> bool" where
  "is_ascii_digit c = (let n = (of_char c :: nat) in 48 \<le> n \<and> n \<le> 57)"

definition is_ascii_alphanumeric :: "char \<Rightarrow> bool" where
  "is_ascii_alphanumeric c = (let n = (of_char c :: nat) in
     48 \<le> n \<and> n \<le> 57 \<or> 65 \<le> n \<and> n \<le> 90 \<or> 97 \<le> n \<and> n \<le> 122)"

definition is_valid_media_ext :: "string \<Rightarrow> bool" where
  "is_valid_media_ext s \<longleftrightarrow> s \<noteq> [] \<and> length s \<le> 10 \<and> list_all is_ascii_alphanumeric s"

definition get_subdirectory_path :: "path \<Rightarrow> string \<Rightarrow> path" where
  "get_subdirectory_path base_dir hash = (if length hash < 2 then base_dir else base_dir @ [take 2 hash])"

definition media_file_name :: "string \<Rightarrow> string \<Rightarrow> string" where
  "media_file_name hash ext = hash @ ''.'' @ ext"

fun show_path :: "path \<Rightarrow> string" where
  "show_path [] = []"
| "show_path [c] = c"
| "show_path (c # d # cs) = c @ ''/'' @ show_path (d # cs)"

text \<open>\<open>std::fs::canonicalize\<close> is an argument: it resolves links, or fails.\<close>

definition safe_resolve_content_path ::
  "(path \<Rightarrow> string + path) \<Rightarrow> path \<Rightarrow> string \<Rightarrow> string \<Rightarrow> string + path" where
  "safe_resolve_content_path canonicalize base_dir hash ext =
     (if \<not> is_valid_content_hash hash then Inl (''Invalid content hash: '' @ hash)
      else if \<not> is_valid_media_ext ext then Inl (''Invalid media extension: '' @ ext)
      else case canonicalize base_dir of
        Inl e \<Rightarrow> Inl (''Cannot canonicalize base dir '' @ show_path base_dir @ '': '' @ e)
      | Inr base \<Rightarrow>
          let resolved = base @ [take 2 hash, media_file_name hash ext] in
          (case canonicalize resolved of
             Inl e \<Rightarrow> Inl (''Cannot canonicalize '' @ show_path resolved @ '': '' @ e)
           | Inr canonical \<Rightarrow>
               if take (length base) canonical \<noteq> base
               then Inl (''Resolved path escapes media directory: '' @ show_path canonical)
               else Inr canonical))"

text \<open>\<open>Path::file_name\<close> and \<open>Path::extension\<close>: empty and \<open>.\<close> components are dropped, a final \<open>..\<close> has no name,
  and a name whose only dot is its first character has no extension.\<close>

fun split_on :: "char \<Rightarrow> string \<Rightarrow> string list" where
  "split_on d [] = [[]]"
| "split_on d (c # s) = (if c = d then [] # split_on d s else (c # hd (split_on d s)) # tl (split_on d s))"

definition path_file_name :: "string \<Rightarrow> string option" where
  "path_file_name s = (case rev (filter (\<lambda>c. c \<noteq> [] \<and> c \<noteq> ''.'') (split_on CHR ''/'' s)) of
       [] \<Rightarrow> None | c # _ \<Rightarrow> if c = ''..'' then None else Some c)"

definition split_ext :: "string \<Rightarrow> string \<times> string option" where
  "split_ext f = (let r = rev f; ext = takeWhile (\<lambda>c. c \<noteq> CHR ''.'') r; stem = drop (length ext + 1) r in
     if CHR ''.'' \<notin> set f \<or> stem = [] then (f, None) else (rev stem, Some (rev ext)))"

definition path_extension :: "string \<Rightarrow> string option" where
  "path_extension s = Option.bind (path_file_name s) (\<lambda>f. snd (split_ext f))"

definition path_file_stem :: "string \<Rightarrow> string option" where
  "path_file_stem s = map_option (\<lambda>f. fst (split_ext f)) (path_file_name s)"

section \<open>Parameters\<close>

record media_ext =
  x_lower :: "string \<Rightarrow> string"
  x_utf8_lossy :: "bytes \<Rightarrow> string"
  x_rfc3339 :: "string \<Rightarrow> int option"
  x_date :: "string \<Rightarrow> int option"
  x_datetime :: "string \<Rightarrow> int option"
  x_exif_datetime :: "string \<Rightarrow> int option"
  x_exif_fields :: "bytes \<Rightarrow> (nat \<times> string \<times> bool \<times> string) list option"
  x_orientation :: "bytes \<Rightarrow> 16 word option"
  x_json :: "(string \<times> string) list \<Rightarrow> string"
  f_parse :: "string \<Rightarrow> 64 word option"
  f_add :: "64 word \<Rightarrow> 64 word \<Rightarrow> 64 word"
  f_div :: "64 word \<Rightarrow> 64 word \<Rightarrow> 64 word"
  f_neg :: "64 word \<Rightarrow> 64 word"
  f_le :: "64 word \<Rightarrow> 64 word \<Rightarrow> bool"
  f_zero :: "64 word \<Rightarrow> bool"

section \<open>Kinds and dates from names\<close>

definition determine_image_type :: "media_ext \<Rightarrow> string \<Rightarrow> string" where
  "determine_image_type X name =
     (let l = x_lower X name in
      if contains_str l ''dcim/camera'' then ''camera''
      else if contains_str l ''whatsapp'' then ''whatsapp''
      else if contains_str l ''screenshot'' then ''screenshot'' else ''other'')"

definition determine_video_type :: "media_ext \<Rightarrow> string \<Rightarrow> string" where
  "determine_video_type X name =
     (let l = x_lower X name in
      if contains_str l ''dcim/camera'' \<or> contains_str l ''dji'' then ''camera''
      else if contains_str l ''whatsapp'' then ''whatsapp''
      else if contains_str l ''screen'' then ''screen_recording'' else ''other'')"

text \<open>\<open>str::find\<close> answers a byte position.\<close>

fun find_str :: "string \<Rightarrow> string \<Rightarrow> nat option" where
  "find_str needle [] = (if needle = [] then Some 0 else None)"
| "find_str needle (c # s) =
     (if take (length needle) (c # s) = needle then Some 0 else map_option Suc (find_str needle s))"

text \<open>\<open>chars().nth\<close> counts characters: the bytes that do not continue one.\<close>

definition continuation :: "char \<Rightarrow> bool" where
  "continuation c = (let n = (of_char c :: nat) in 128 \<le> n \<and> n < 192)"

definition chars_nth :: "string \<Rightarrow> nat \<Rightarrow> char option" where
  "chars_nth s n = (let cs = filter (\<lambda>c. \<not> continuation c) s in if n < length cs then Some (cs ! n) else None)"

text \<open>A slice that is not on character boundaries contains a byte that is no digit, so that testing the bytes
  gives the answer of \<open>str::get\<close> and the test together.\<close>

definition slice :: "string \<Rightarrow> nat \<Rightarrow> nat \<Rightarrow> string option" where
  "slice s a b = (if b \<le> length s then Some (take (b - a) (drop a s)) else None)"

definition try_parse_datetime_underscore :: "media_ext \<Rightarrow> string \<Rightarrow> nat \<Rightarrow> int option" where
  "try_parse_datetime_underscore X name start_pos =
     (if length name < start_pos + 15 then None
      else if chars_nth name (start_pos + 8) \<noteq> Some CHR ''_'' then None
      else Option.bind (slice name start_pos (start_pos + 8)) (\<lambda>date_part.
           Option.bind (slice name (start_pos + 9) (start_pos + 15)) (\<lambda>time_part.
           if \<not> list_all is_ascii_digit date_part \<or> \<not> list_all is_ascii_digit time_part then None
           else x_datetime X (date_part @ '' '' @ time_part))))"

definition try_parse_whatsapp_format :: "media_ext \<Rightarrow> string \<Rightarrow> nat \<Rightarrow> int option" where
  "try_parse_whatsapp_format X name start_pos =
     (let date_end = start_pos + 8 in
      if length name < date_end + 7 \<or> slice name date_end (date_end + 3) \<noteq> Some ''-wa'' then None
      else Option.bind (slice name start_pos date_end) (\<lambda>date_part.
           Option.bind (slice name (date_end + 3) (date_end + 7)) (\<lambda>millis_part.
           if \<not> list_all is_ascii_digit date_part \<or> \<not> list_all is_ascii_digit millis_part then None
           else map_option (\<lambda>d. d + int (read_digits 0 millis_part mod 1000)) (x_date X date_part))))"

definition try_parse_date_only :: "media_ext \<Rightarrow> string \<Rightarrow> nat \<Rightarrow> int option" where
  "try_parse_date_only X name start_pos =
     Option.bind (slice name start_pos (start_pos + 8)) (\<lambda>date_part.
       if \<not> list_all is_ascii_digit date_part then None else x_date X date_part)"

definition or_else :: "'a option \<Rightarrow> 'a option \<Rightarrow> 'a option" where
  "or_else x y = (case x of Some v \<Rightarrow> Some v | None \<Rightarrow> y)"

text \<open>\<open>if let Some(pos) = lower_name.find(..)\<close>.\<close>

definition at_prefix :: "string \<Rightarrow> string \<Rightarrow> (nat \<Rightarrow> int option) \<Rightarrow> int option" where
  "at_prefix l p f = (case find_str p l of Some pos \<Rightarrow> f (pos + length p) | None \<Rightarrow> None)"

definition parse_date_from_image_name :: "media_ext \<Rightarrow> string \<Rightarrow> int option" where
  "parse_date_from_image_name X image_name =
     (let l = x_lower X image_name in
      or_else (at_prefix l ''img_'' (try_parse_datetime_underscore X l))
        (at_prefix l ''img-'' (\<lambda>p. or_else (try_parse_whatsapp_format X l p) (try_parse_date_only X l p))))"

definition parse_date_from_video_name :: "media_ext \<Rightarrow> string \<Rightarrow> int option" where
  "parse_date_from_video_name X video_name =
     (let l = x_lower X video_name in
      or_else (at_prefix l ''dji_'' (try_parse_datetime_underscore X l))
     (or_else (at_prefix l ''sl_mo_vid_'' (try_parse_datetime_underscore X l))
     (or_else (at_prefix l ''vid_'' (try_parse_datetime_underscore X l))
        (at_prefix l ''vid-'' (\<lambda>p. or_else (try_parse_whatsapp_format X l p) (try_parse_date_only X l p))))))"

section \<open>Coordinates\<close>

definition parse_rational :: "media_ext \<Rightarrow> string \<Rightarrow> 64 word option" where
  "parse_rational X rational_str =
     (let cleaned = trim rational_str in
      case find_str ''/'' cleaned of
        Some slash_pos \<Rightarrow>
          Option.bind (f_parse X (trim (take slash_pos cleaned))) (\<lambda>numerator.
          Option.bind (f_parse X (trim (drop (slash_pos + 1) cleaned))) (\<lambda>denominator.
          if f_zero X denominator then None else Some (f_div X numerator denominator)))
      | None \<Rightarrow> f_parse X cleaned)"

fun split_whitespace :: "string \<Rightarrow> string list" where
  "split_whitespace [] = []"
| "split_whitespace (c # s) =
     (if is_space c then split_whitespace s
      else (case s of
              [] \<Rightarrow> [[c]]
            | d # _ \<Rightarrow> if is_space d then [c] # split_whitespace s
                      else (case split_whitespace s of [] \<Rightarrow> [[c]] | w # ws \<Rightarrow> (c # w) # ws)))"

function replace_all :: "string \<Rightarrow> string \<Rightarrow> string" where
  "replace_all p [] = []"
| "replace_all p (c # s) =
     (if p \<noteq> [] \<and> take (length p) (c # s) = p then replace_all p (drop (length p) (c # s))
      else c # replace_all p s)"
  by pat_completeness auto
termination by (relation "measure (length \<circ> snd)") (auto simp: neq_Nil_conv)

text \<open>\<open>60.0\<close>, \<open>3600.0\<close> and the bounds of coordinates as \<open>f64\<close>.\<close>

definition F60 :: "64 word" where "F60 = 0x404E000000000000"
definition F3600 :: "64 word" where "F3600 = 0x40AC200000000000"

definition to_decimal :: "media_ext \<Rightarrow> 64 word \<Rightarrow> 64 word \<Rightarrow> 64 word \<Rightarrow> string \<Rightarrow> 64 word" where
  "to_decimal X degrees minutes seconds reference =
     (let decimal = f_add X (f_add X degrees (f_div X minutes F60)) (f_div X seconds F3600) in
      if reference = ''S'' \<or> reference = ''W'' then f_neg X decimal else decimal)"

text \<open>The degree sign is the two bytes C2 B0; the code removes the character, the quote and the double quote.\<close>

definition clean_coordinate :: "string \<Rightarrow> string" where
  "clean_coordinate s = filter (\<lambda>c. c \<noteq> CHR 39 \<and> c \<noteq> CHR 34)
     (replace_all [char_of (0xC2 :: nat), char_of (0xB0 :: nat)]
       (replace_all ''sec'' (replace_all ''min'' (replace_all ''deg'' s))))"

definition parse_gps_coordinate :: "media_ext \<Rightarrow> string \<Rightarrow> string \<Rightarrow> 64 word option" where
  "parse_gps_coordinate X coord_str reference =
     (if CHR ''/'' \<in> set coord_str \<and> CHR '','' \<in> set coord_str then
        (case map trim (split_on CHR '','' coord_str) of
           p0 # p1 # p2 # _ \<Rightarrow>
             Option.bind (parse_rational X p0) (\<lambda>degrees.
             Option.bind (parse_rational X p1) (\<lambda>minutes.
             (case split_whitespace p2 of
                [] \<Rightarrow> None
              | seconds_str # _ \<Rightarrow>
                  map_option (\<lambda>seconds. to_decimal X degrees minutes seconds reference) (parse_rational X seconds_str))))
         | _ \<Rightarrow> None)
      else
        (case List.map_filter (f_parse X) (split_whitespace (clean_coordinate coord_str)) of
           degrees # minutes # rest \<Rightarrow>
             Some (to_decimal X degrees minutes (case rest of s # _ \<Rightarrow> s | [] \<Rightarrow> 0) reference)
         | _ \<Rightarrow> None))"

type_synonym exif_json = "(string \<times> string) list"

definition extract_gps_coordinates :: "media_ext \<Rightarrow> exif_json \<Rightarrow> (64 word \<times> 64 word) option" where
  "extract_gps_coordinates X exif =
     Option.bind (map_of exif ''GPSLatitude'') (\<lambda>lat_str.
     Option.bind (map_of exif ''GPSLongitude'') (\<lambda>lon_str.
     Option.bind (map_of exif ''GPSLatitudeRef'') (\<lambda>lat_ref.
     Option.bind (map_of exif ''GPSLongitudeRef'') (\<lambda>lon_ref.
     Option.bind (parse_gps_coordinate X lat_str lat_ref) (\<lambda>latitude.
     map_option (Pair latitude) (parse_gps_coordinate X lon_str lon_ref))))))"

section \<open>Content kinds\<close>

datatype media_kind = K_image | K_video

fun show_kind :: "media_kind \<Rightarrow> string" where
  "show_kind K_image = ''image''"
| "show_kind K_video = ''video''"

definition IMAGE_EXTS :: "string list" where
  "IMAGE_EXTS = [''jpg'', ''jpeg'', ''png'', ''gif'', ''webp'', ''heic'', ''heif'', ''tiff'', ''tif'', ''bmp'']"

definition VIDEO_EXTS :: "string list" where
  "VIDEO_EXTS = [''mp4'', ''mov'', ''avi'', ''mkv'', ''webm'', ''m4v'', ''mpg'', ''mpeg'']"

definition begins :: "bytes \<Rightarrow> bytes \<Rightarrow> bool" where
  "begins p data \<longleftrightarrow> take (length p) data = p"

definition field_at :: "nat \<Rightarrow> bytes \<Rightarrow> bytes" where
  "field_at i data = take 4 (drop i data)"

definition image_brands :: "bytes list" where
  "image_brands = map str_bytes [''heic'', ''heix'', ''hevc'', ''heim'', ''heis'', ''hevm'', ''hevs'', ''mif1'', ''avif'']"

definition video_brands :: "bytes list" where
  "video_brands = map str_bytes [''isom'', ''iso2'', ''mp41'', ''mp42'', ''avc1'', ''dash'', ''M4V '', ''msf1'', ''avis'', ''qt  '']"

definition sniff_media_kind :: "bytes \<Rightarrow> media_kind option" where
  "sniff_media_kind data =
     (if begins [0xFF, 0xD8, 0xFF] data then Some K_image
      else if begins (0x89 # str_bytes ''PNG'') data then Some K_image
      else if begins (str_bytes ''GIF8'') data then Some K_image
      else if length data \<ge> 12 \<and> field_at 0 data = str_bytes ''RIFF'' \<and> field_at 8 data = str_bytes ''WEBP'' then Some K_image
      else if begins (str_bytes ''II*'' @ [0]) data \<or> begins (str_bytes ''MM'' @ [0] @ str_bytes ''*'') data then Some K_image
      else if begins (str_bytes ''BM'') data \<and> length data > 6 then Some K_image
      else if length data \<ge> 12 \<and> field_at 4 data = str_bytes ''ftyp'' \<and> field_at 8 data \<in> set image_brands then Some K_image
      else if length data \<ge> 12 \<and> field_at 4 data = str_bytes ''ftyp'' \<and> field_at 8 data \<in> set video_brands then Some K_video
      else if length data \<ge> 12 \<and> field_at 0 data = str_bytes ''RIFF'' \<and> field_at 8 data = str_bytes ''AVI '' then Some K_video
      else if begins [0x1A, 0x45, 0xDF, 0xA3] data then Some K_video
      else None)"

section \<open>The library\<close>

text \<open>A row of \<open>images\<close> or \<open>videos\<close> with the columns these handlers use; times are milliseconds, \<open>exif\<close> is
  \<open>metadata\<close> in a row of \<open>videos\<close>.\<close>

record media_row =
  m_user :: string
  m_hash :: string
  m_device :: string
  m_type :: "string option"
  m_name :: string
  m_ext :: string
  m_created :: int
  m_added :: int
  m_exif :: "string option"
  m_thumb :: bool
  m_verified :: "int option"
  m_status :: int
  m_location :: "(64 word \<times> 64 word) option"
  m_place :: "string option"
  m_orientation :: "16 word option"
  m_size :: "int option"
  m_dups_checked :: "int option"
  m_deleted :: "int option"

record library =
  lib_files :: "path \<Rightarrow> bytes option"
  lib_images :: "media_row list"
  lib_videos :: "media_row list"
  lib_sources :: "(string \<times> string \<times> media_kind \<times> string) list"
  lib_stars :: "(media_kind \<times> string \<times> string) list"
  lib_pairs :: "(string \<times> string \<times> string) list"

fun rows_of :: "media_kind \<Rightarrow> library \<Rightarrow> media_row list" where
  "rows_of K_image L = lib_images L"
| "rows_of K_video L = lib_videos L"

fun set_rows :: "media_kind \<Rightarrow> media_row list \<Rightarrow> library \<Rightarrow> library" where
  "set_rows K_image rs L = L\<lparr>lib_images := rs\<rparr>"
| "set_rows K_video rs L = L\<lparr>lib_videos := rs\<rparr>"

definition owned :: "string \<Rightarrow> string \<Rightarrow> media_row \<Rightarrow> bool" where
  "owned user hash r \<longleftrightarrow> m_user r = user \<and> m_hash r = hash"

definition live :: "media_row \<Rightarrow> bool" where
  "live r \<longleftrightarrow> m_deleted r = None"

text \<open>\<open>UPDATE .. WHERE user_id = .. AND hash = .. AND ..\<close>.\<close>

definition update_where :: "media_kind \<Rightarrow> string \<Rightarrow> string \<Rightarrow> (media_row \<Rightarrow> bool) \<Rightarrow> (media_row \<Rightarrow> media_row) \<Rightarrow> library \<Rightarrow> library" where
  "update_where k user hash c f L =
     set_rows k (map (\<lambda>r. if owned user hash r \<and> c r then f r else r) (rows_of k L)) L"

definition matched :: "media_kind \<Rightarrow> string \<Rightarrow> string \<Rightarrow> (media_row \<Rightarrow> bool) \<Rightarrow> library \<Rightarrow> nat" where
  "matched k user hash c L = length (filter (\<lambda>r. owned user hash r \<and> c r) (rows_of k L))"

text \<open>\<open>INSERT .. ON CONFLICT (user_id, hash) DO UPDATE\<close>: the limits of the columns are checked first.\<close>

definition fits :: "media_row \<Rightarrow> bool" where
  "fits r \<longleftrightarrow> length (m_hash r) \<le> 255 \<and> length (m_device r) \<le> 255 \<and> length (m_name r) \<le> 255 \<and> length (m_ext r) \<le> 10
     \<and> length (case m_type r of Some t \<Rightarrow> t | None \<Rightarrow> []) \<le> 255 \<and> m_status r \<in> {-1, 0, 1}"

definition upsert_media :: "media_kind \<Rightarrow> media_row \<Rightarrow> (media_row \<Rightarrow> media_row) \<Rightarrow> library \<Rightarrow> library option" where
  "upsert_media k r f L =
     (if \<not> fits r then None
      else if list_ex (owned (m_user r) (m_hash r)) (rows_of k L)
      then Some (update_where k (m_user r) (m_hash r) (\<lambda>_. True) f L)
      else Some (set_rows k (rows_of k L @ [r]) L))"

definition note_source :: "string \<Rightarrow> string \<Rightarrow> media_kind \<Rightarrow> string \<Rightarrow> library \<Rightarrow> library" where
  "note_source user hash k device L = L\<lparr>lib_sources := List.insert (user, hash, k, device) (lib_sources L)\<rparr>"

definition put_path :: "path \<Rightarrow> bytes \<Rightarrow> library \<Rightarrow> library" where
  "put_path p data L = L\<lparr>lib_files := (lib_files L)(p := Some data)\<rparr>"

definition drop_path :: "path \<Rightarrow> library \<Rightarrow> library" where
  "drop_path p L = L\<lparr>lib_files := (lib_files L)(p := None)\<rparr>"

record media_cfg =
  images_dir :: path
  videos_dir :: path
  temp_root :: path
  enable_local_geocoding :: bool
  enable_external_geocoding :: bool

text \<open>One request: the clock, the failing calls by number, the outcome of \<open>rename\<close>, after how many bytes a copy
  fails, how many bytes the first read returns, the names drawn, the chunk whose write fails and the bytes of it written,
  and the answers of the geocoders.\<close>

datatype rename_result = Renamed | Cross_device | Rename_failed string

record req_env =
  r_now :: int
  r_fails :: "nat \<Rightarrow> bool"
  r_rename :: rename_result
  r_copy_stops :: "nat option"
  r_head :: nat
  r_uuid :: "nat \<Rightarrow> string"
  r_write_stops :: "nat \<Rightarrow> nat option"
  r_boundaries :: "string list option"
  r_nominatim :: "string option"

section \<open>Ingest\<close>

datatype ingest_error =
    Bad_extension string | Wrong_kind media_kind | Unrecognized | Io_error string | Db_error string

record ingest_result =
  in_hash :: string
  in_name :: string
  in_filename :: string
  in_path :: path

definition validate_media_file :: "req_env \<Rightarrow> path \<Rightarrow> media_kind \<Rightarrow> string \<Rightarrow> library \<Rightarrow> ingest_error + unit" where
  "validate_media_file R temp_path expected_kind ext L =
     (let allowed = (if expected_kind = K_image then IMAGE_EXTS else VIDEO_EXTS) in
      if ext \<notin> set allowed then Inl (Bad_extension ext)
      else if r_fails R 0 then Inl (Io_error ''open or read'')
      else case lib_files L temp_path of
        None \<Rightarrow> Inl (Io_error ''No such file or directory'')
      | Some data \<Rightarrow>
          (case sniff_media_kind (take (min 16 (r_head R)) data) of
             Some kind \<Rightarrow> if kind = expected_kind then Inr () else Inl (Wrong_kind kind)
           | None \<Rightarrow> Inl Unrecognized))"

text \<open>\<open>fs::copy\<close> creates or truncates the target and copies; a failure leaves what was copied.\<close>

definition fs_copy :: "req_env \<Rightarrow> path \<Rightarrow> path \<Rightarrow> library \<Rightarrow> (string + unit) \<times> library" where
  "fs_copy R src dst L =
     (case lib_files L src of
        None \<Rightarrow> (Inl ''No such file or directory'', L)
      | Some data \<Rightarrow>
          (case r_copy_stops R of
             Some n \<Rightarrow> (Inl ''copy failed'', put_path dst (take n data) L)
           | None \<Rightarrow> (Inr (), put_path dst data L)))"

definition rename_or_copy :: "req_env \<Rightarrow> path \<Rightarrow> path \<Rightarrow> library \<Rightarrow> (string + unit) \<times> library" where
  "rename_or_copy R src dst L =
     (case r_rename R of
        Renamed \<Rightarrow>
          (case lib_files L src of
             None \<Rightarrow> (Inl ''No such file or directory'', L)
           | Some data \<Rightarrow> (Inr (), put_path dst data (drop_path src L)))
      | Cross_device \<Rightarrow>
          (case fs_copy R src dst L of
             (Inl e, L) \<Rightarrow> (Inl e, L)
           | (Inr _, L) \<Rightarrow> if r_fails R 2 then (Inl ''remove failed'', L) else (Inr (), drop_path src L))
      | Rename_failed e \<Rightarrow> (Inl e, L))"

text \<open>The steps both kinds share: validation, target directory, move or copy, the row, the source and the size.  The
  image path reports the size as an \<open>i32\<close>, the video path as an \<open>i64\<close>.\<close>

definition new_row :: "string \<Rightarrow> string \<Rightarrow> string \<Rightarrow> string \<Rightarrow> string \<Rightarrow> int \<Rightarrow> media_row" where
  "new_row user hash device name ext now =
     \<lparr>m_user = user, m_hash = hash, m_device = device, m_type = None, m_name = name, m_ext = ext, m_created = now,
      m_added = now, m_exif = None, m_thumb = False, m_verified = None, m_status = 0, m_location = None, m_place = None,
      m_orientation = None, m_size = None, m_dups_checked = None, m_deleted = None\<rparr>"

definition size_column :: "media_kind \<Rightarrow> bytes \<Rightarrow> int" where
  "size_column k data = (case k of K_image \<Rightarrow> min (int (length data)) (2 ^ 31 - 1) | K_video \<Rightarrow> int (length data))"

definition unless :: "bool \<Rightarrow> (library \<Rightarrow> library) \<Rightarrow> library \<Rightarrow> library" where
  "unless failed f L = (if failed then L else f L)"

definition media_dir :: "media_cfg \<Rightarrow> media_kind \<Rightarrow> path" where
  "media_dir cfg k = (case k of K_image \<Rightarrow> images_dir cfg | K_video \<Rightarrow> videos_dir cfg)"

definition target_path :: "media_cfg \<Rightarrow> media_kind \<Rightarrow> string \<Rightarrow> string \<Rightarrow> path" where
  "target_path cfg k hash ext = media_dir cfg k @ [take 2 hash, media_file_name hash ext]"

definition store_media :: "req_env \<Rightarrow> media_cfg \<Rightarrow> media_kind \<Rightarrow> path \<Rightarrow> string \<Rightarrow> string \<Rightarrow> string \<Rightarrow> string \<Rightarrow> string \<Rightarrow> bool
    \<Rightarrow> library \<Rightarrow> (ingest_error + ingest_result) \<times> library" where
  "store_media R cfg k temp_path name ext hash device_id user_id move_file L =
     (case validate_media_file R temp_path k ext L of
        Inl e \<Rightarrow> (Inl e, L)
      | Inr _ \<Rightarrow>
          let target = target_path cfg k hash ext in
          if r_fails R 1 then (Inl (Io_error ''create_dir_all''), L)
          else (case (if move_file then rename_or_copy R temp_path target L else fs_copy R temp_path target L) of
                  (Inl e, L) \<Rightarrow> (Inl (Io_error e), L)
                | (Inr _, L) \<Rightarrow>
                    if r_fails R 3 then (Inl (Db_error ''pool''), L)
                    else (case (if r_fails R 4 then None
                                else upsert_media k (new_row user_id hash device_id name ext (r_now R)) (\<lambda>r. r\<lparr>m_deleted := None\<rparr>) L) of
                            None \<Rightarrow> (Inl (Db_error ''insert''), L)
                          | Some L \<Rightarrow>
                              let L = unless (r_fails R 5) (note_source user_id hash k device_id) L;
                                  L = (case lib_files L target of
                                         Some data \<Rightarrow> unless (r_fails R 6) (update_where k user_id hash (\<lambda>_. True)
                                                        (\<lambda>r. r\<lparr>m_size := Some (size_column k data)\<rparr>)) L
                                       | None \<Rightarrow> L) in
                              (Inr \<lparr>in_hash = hash, in_name = name, in_filename = media_file_name hash ext, in_path = target\<rparr>, L))))"

text \<open>\<open>extract_exif_from_image\<close>: the thumbnail's fields are skipped and quotes stripped; a repeated tag overwrites.\<close>

definition trim_quotes :: "string \<Rightarrow> string" where
  "trim_quotes s = rev (dropWhile (\<lambda>c. c = CHR 34) (rev (dropWhile (\<lambda>c. c = CHR 34) s)))"

definition extract_exif_from_image :: "media_ext \<Rightarrow> string \<Rightarrow> bytes \<Rightarrow> exif_json option" where
  "extract_exif_from_image X ext data =
     (if ext \<notin> set [''jpg'', ''jpeg'', ''tiff'', ''tif'', ''heic'', ''heif''] then None
      else case x_exif_fields X data of
        None \<Rightarrow> None
      | Some fs \<Rightarrow>
          let m = fold (\<lambda>(ifd, tag, ascii, v) m. if ifd = 1 then m else AList.update tag (if ascii then trim_quotes v else v) m) fs [] in
          if m = [] then None else Some m)"

definition in_range :: "media_ext \<Rightarrow> 64 word \<Rightarrow> 64 word \<Rightarrow> 64 word \<Rightarrow> bool" where
  "in_range X lo hi v \<longleftrightarrow> f_le X lo v \<and> f_le X v hi"

definition join_places :: "string list \<Rightarrow> string" where
  "join_places ps = (case remdups (rev ps) of qs \<Rightarrow> (case rev qs of [] \<Rightarrow> [] | r # rs \<Rightarrow> r @ concat (map (\<lambda>p. '', '' @ p) rs)))"

definition reverse_geocode :: "media_ext \<Rightarrow> req_env \<Rightarrow> media_cfg \<Rightarrow> 64 word \<Rightarrow> 64 word \<Rightarrow> string option" where
  "reverse_geocode X R cfg latitude longitude =
     (if \<not> in_range X 0xC056800000000000 0x4056800000000000 latitude
         \<or> \<not> in_range X 0xC066800000000000 0x4066800000000000 longitude then None
      else case (if enable_local_geocoding cfg
                 then (case r_boundaries R of Some (n # ns) \<Rightarrow> Some (join_places (n # ns)) | _ \<Rightarrow> None) else None) of
        Some place \<Rightarrow> Some place
      | None \<Rightarrow> if enable_external_geocoding cfg then r_nominatim R else None)"

definition fresh_date :: "req_env \<Rightarrow> media_row \<Rightarrow> bool" where
  "fresh_date R r \<longleftrightarrow> m_created r > r_now R - 60000"

text \<open>The metadata written after the row exists; every statement may fail and its failure is ignored.\<close>

definition note_exif :: "media_ext \<Rightarrow> req_env \<Rightarrow> string \<Rightarrow> string \<Rightarrow> exif_json option \<Rightarrow> 16 word option \<Rightarrow> library \<Rightarrow> library" where
  "note_exif X R user hash exif orient L =
     (case exif of
        None \<Rightarrow> L
      | Some j \<Rightarrow>
          let L = unless (r_fails R 8) (update_where K_image user hash (\<lambda>r. m_exif r = None) (\<lambda>r. r\<lparr>m_exif := Some (x_json X j)\<rparr>)) L in
          (case orient of
             Some v \<Rightarrow> unless (r_fails R 9) (update_where K_image user hash (\<lambda>r. m_orientation r = None) (\<lambda>r. r\<lparr>m_orientation := Some v\<rparr>)) L
           | None \<Rightarrow> L))"

definition note_date :: "req_env \<Rightarrow> media_kind \<Rightarrow> string \<Rightarrow> string \<Rightarrow> int option \<Rightarrow> library \<Rightarrow> library" where
  "note_date R k user hash best_date L =
     (case best_date of
        Some dt \<Rightarrow> unless (r_fails R 10) (update_where k user hash (fresh_date R) (\<lambda>r. r\<lparr>m_created := dt\<rparr>)) L
      | None \<Rightarrow> L)"

definition note_location :: "media_ext \<Rightarrow> req_env \<Rightarrow> media_cfg \<Rightarrow> string \<Rightarrow> string \<Rightarrow> (64 word \<times> 64 word) option \<Rightarrow> library \<Rightarrow> library" where
  "note_location X R cfg user hash gps L =
     (case gps of
        None \<Rightarrow> L
      | Some (lat, lon) \<Rightarrow>
          let updated = (if r_fails R 11 then 0 else matched K_image user hash (\<lambda>r. m_location r = None) L);
              L = unless (r_fails R 11) (update_where K_image user hash (\<lambda>r. m_location r = None) (\<lambda>r. r\<lparr>m_location := Some (lon, lat)\<rparr>)) L in
          if updated > 0 then
            (case reverse_geocode X R cfg lat lon of
               Some place \<Rightarrow> unless (r_fails R 12) (update_where K_image user hash (\<lambda>r. m_place r = None) (\<lambda>r. r\<lparr>m_place := Some place\<rparr>)) L
             | None \<Rightarrow> L)
          else L)"

definition ingest_ext :: "media_ext \<Rightarrow> string \<Rightarrow> string" where
  "ingest_ext X name = x_lower X (case path_extension name of Some e \<Rightarrow> e | None \<Rightarrow> [])"

definition process_image_file :: "media_ext \<Rightarrow> req_env \<Rightarrow> media_cfg \<Rightarrow> path \<Rightarrow> string \<Rightarrow> string \<Rightarrow> string \<Rightarrow> string \<Rightarrow> bool
    \<Rightarrow> int option \<Rightarrow> library \<Rightarrow> (ingest_error + ingest_result) \<times> library" where
  "process_image_file X R cfg temp_path name hash device_id user_id move_file client_created_at L =
     (case store_media R cfg K_image temp_path name (ingest_ext X name) hash device_id user_id move_file L of
        (Inl e, L) \<Rightarrow> (Inl e, L)
      | (Inr res, L) \<Rightarrow>
          let stored = lib_files L (in_path res);
              exif = (if r_fails R 7 then None else Option.bind stored (extract_exif_from_image X (ingest_ext X name)));
              orient = (if r_fails R 13 then None else Option.bind stored (x_orientation X));
              exif_date = Option.bind exif (\<lambda>j. Option.bind (map_of j ''DateTimeOriginal'') (x_exif_datetime X));
              best_date = or_else (or_else exif_date (parse_date_from_image_name X name)) client_created_at in
          (Inr res, note_location X R cfg user_id hash (Option.bind exif (extract_gps_coordinates X))
                      (note_date R K_image user_id hash best_date (note_exif X R user_id hash exif orient L))))"

definition process_video_file :: "media_ext \<Rightarrow> req_env \<Rightarrow> media_cfg \<Rightarrow> path \<Rightarrow> string \<Rightarrow> string \<Rightarrow> string \<Rightarrow> string \<Rightarrow> bool
    \<Rightarrow> int option \<Rightarrow> library \<Rightarrow> (ingest_error + ingest_result) \<times> library" where
  "process_video_file X R cfg temp_path name hash device_id user_id move_file client_created_at L =
     (case store_media R cfg K_video temp_path name (ingest_ext X name) hash device_id user_id move_file L of
        (Inl e, L) \<Rightarrow> (Inl e, L)
      | (Inr res, L) \<Rightarrow>
          (Inr res, note_date R K_video user_id hash (or_else (parse_date_from_video_name X name) client_created_at) L))"

section \<open>Streams\<close>

text \<open>A part of a multipart body: the chunks that arrive before the stream ends, by its end or by an error, which the
  loops of the code do not tell apart; \<open>pt_complete\<close> is what they do not look at.\<close>

record part =
  pt_name :: string
  pt_filename :: "string option"
  pt_chunks :: "bytes list"
  pt_complete :: bool

definition MAX_METADATA_FIELD_BYTES :: nat where
  "MAX_METADATA_FIELD_BYTES = 64 * 1024"

fun collect_field :: "bytes list \<Rightarrow> bytes \<Rightarrow> bytes" where
  "collect_field [] acc = acc"
| "collect_field (c # cs) acc =
     collect_field cs (if length acc < MAX_METADATA_FIELD_BYTES
                       then acc @ take (min (length c) (MAX_METADATA_FIELD_BYTES - length acc)) c else acc)"

definition read_field_string :: "media_ext \<Rightarrow> part \<Rightarrow> string" where
  "read_field_string X p = x_utf8_lossy X (collect_field (pt_chunks p) [])"

datatype web_error = Web_error nat string

fun stream_chunks :: "req_env \<Rightarrow> path \<Rightarrow> nat \<Rightarrow> nat \<Rightarrow> nat \<Rightarrow> bytes list \<Rightarrow> library \<Rightarrow> (web_error + nat) \<times> library" where
  "stream_chunks R p max_bytes written i [] L = (Inr written, L)"
| "stream_chunks R p max_bytes written i (c # cs) L =
     (let written = written + length c; old = (case lib_files L p of Some d \<Rightarrow> d | None \<Rightarrow> []) in
      if written > max_bytes
      then (Inl (Web_error 413 ''File exceeds the upload limit''), unless (r_fails R 23) (drop_path p) L)
      else case r_write_stops R i of
        Some n \<Rightarrow> (Inl (Web_error 500 ''Failed to write temp file''), put_path p (old @ take n c) L)
      | None \<Rightarrow> stream_chunks R p max_bytes written (Suc i) cs (put_path p (old @ c) L))"

definition content_hash :: "ext \<Rightarrow> bytes \<Rightarrow> string" where
  "content_hash E data = hex_encode E (blake3 E data)"

definition fallback_dir :: "media_cfg \<Rightarrow> path" where
  "fallback_dir cfg = temp_root cfg @ [''reminisce_uploads'']"

definition streaming_hash_to_temp :: "ext \<Rightarrow> req_env \<Rightarrow> media_cfg \<Rightarrow> nat \<Rightarrow> path \<Rightarrow> nat \<Rightarrow> part \<Rightarrow> library
    \<Rightarrow> (web_error + path \<times> string) \<times> library" where
  "streaming_hash_to_temp E R cfg drawn temp_dir max_bytes field L =
     (let file = r_uuid R drawn @ ''.tmp'';
          first = (if r_fails R 20 then fallback_dir cfg else temp_dir) @ [file];
          second = fallback_dir cfg @ [file] in
      if r_fails R 21 \<and> r_fails R 22 then (Inl (Web_error 500 ''Failed to create temp file''), L)
      else let p = (if r_fails R 21 then second else first) in
        (case stream_chunks R p max_bytes 0 0 (pt_chunks field) (put_path p [] L) of
           (Inl e, L) \<Rightarrow> (Inl e, L)
         | (Inr _, L) \<Rightarrow>
             if r_fails R 24 then (Inl (Web_error 500 ''Failed to flush temp file''), L)
             else if r_fails R 25 then (Inl (Web_error 500 ''Failed to sync temp file''), L)
             else (Inr (p, content_hash E (concat (pt_chunks field))), L)))"

text \<open>\<open>hash_file_blake3\<close> reads the whole file or fails.\<close>

definition hash_file_blake3 :: "ext \<Rightarrow> bool \<Rightarrow> path \<Rightarrow> library \<Rightarrow> string + string" where
  "hash_file_blake3 E fails p L =
     (case lib_files L p of
        None \<Rightarrow> Inl ''No such file or directory''
      | Some data \<Rightarrow> if fails then Inl ''read error'' else Inr (content_hash E data))"

definition cleanup_temp_files :: "req_env \<Rightarrow> path option \<Rightarrow> library \<Rightarrow> library" where
  "cleanup_temp_files R p L = (case p of Some p \<Rightarrow> unless (r_fails R 26) (drop_path p) L | None \<Rightarrow> L)"

section \<open>Upload handlers\<close>

text \<open>The fields collected by the loop over the parts of a single upload; a later part replaces an earlier one of the
  same name.\<close>

record upload_form =
  uf_hash :: "string option"
  uf_name :: "string option"
  uf_device :: "string option"
  uf_created :: "int option"
  uf_temp :: "(path \<times> string) option"

definition empty_form :: upload_form where
  "empty_form = \<lparr>uf_hash = None, uf_name = None, uf_device = None, uf_created = None, uf_temp = None\<rparr>"

definition MAX_IMAGE_BYTES :: nat where "MAX_IMAGE_BYTES = 200 * 1024 * 1024"
definition MAX_VIDEO_BYTES :: nat where "MAX_VIDEO_BYTES = 20 * 1024 * 1024 * 1024"

definition max_upload :: "media_kind \<Rightarrow> nat" where
  "max_upload k = (case k of K_image \<Rightarrow> MAX_IMAGE_BYTES | K_video \<Rightarrow> MAX_VIDEO_BYTES)"

fun read_form :: "media_ext \<Rightarrow> ext \<Rightarrow> req_env \<Rightarrow> media_cfg \<Rightarrow> media_kind \<Rightarrow> nat \<Rightarrow> part list \<Rightarrow> upload_form \<Rightarrow> library
    \<Rightarrow> (web_error + upload_form) \<times> library" where
  "read_form X E R cfg k i [] form L = (Inr form, L)"
| "read_form X E R cfg k i (p # ps) form L =
     (if pt_name p = ''hash'' then read_form X E R cfg k (Suc i) ps (form\<lparr>uf_hash := Some (read_field_string X p)\<rparr>) L
      else if pt_name p = ''name'' then read_form X E R cfg k (Suc i) ps (form\<lparr>uf_name := Some (read_field_string X p)\<rparr>) L
      else if pt_name p = ''device_id'' then read_form X E R cfg k (Suc i) ps (form\<lparr>uf_device := Some (read_field_string X p)\<rparr>) L
      else if pt_name p = ''created_at''
      then read_form X E R cfg k (Suc i) ps (form\<lparr>uf_created := x_rfc3339 X (trim (read_field_string X p))\<rparr>) L
      else if pt_name p = show_kind k
      then (case streaming_hash_to_temp E R cfg i (media_dir cfg k @ [''.tmp'']) (max_upload k) p L of
              (Inl e, L) \<Rightarrow> (Inl e, L)
            | (Inr t, L) \<Rightarrow> read_form X E R cfg k (Suc i) ps (form\<lparr>uf_temp := Some t\<rparr>) L)
      else read_form X E R cfg k (Suc i) ps form L)"

datatype upload_response =
    Uploaded ingest_result
  | Upload_error nat string
  | Ingest_failed ingest_error
  | Batch "(string \<times> (ingest_error + ingest_result)) list"

definition upload_name :: "media_kind \<Rightarrow> string" where
  "upload_name k = ''Missing '' @ show_kind k"

text \<open>\<open>upload_image\<close> and \<open>upload_video\<close> for the authenticated user; only the former removes the temporary file after a
  failed ingest.\<close>

definition upload_media :: "media_ext \<Rightarrow> ext \<Rightarrow> req_env \<Rightarrow> media_cfg \<Rightarrow> media_kind \<Rightarrow> string \<Rightarrow> part list \<Rightarrow> library
    \<Rightarrow> upload_response \<times> library" where
  "upload_media X E R cfg k user parts L =
     (case read_form X E R cfg k 0 parts empty_form L of
        (Inl (Web_error c m), L) \<Rightarrow> (Upload_error c m, L)
      | (Inr form, L) \<Rightarrow>
          (case uf_hash form of
             None \<Rightarrow> (Upload_error 400 ''Missing hash'', L)
           | Some hash \<Rightarrow>
          (case uf_name form of
             None \<Rightarrow> (Upload_error 400 ''Missing name'', L)
           | Some name \<Rightarrow>
          (case uf_temp form of
             None \<Rightarrow> (Upload_error 400 (upload_name k), L)
           | Some (temp_path, calculated_hash) \<Rightarrow>
               let device_id = (case uf_device form of Some d \<Rightarrow> d | None \<Rightarrow> ''web-client'') in
               if calculated_hash \<noteq> hash
               then (Upload_error 400 ''Hash verification failed'', cleanup_temp_files R (Some temp_path) L)
               else (case (if k = K_image then process_image_file X R cfg temp_path name hash device_id user True (uf_created form) L
                           else process_video_file X R cfg temp_path name hash device_id user True (uf_created form) L) of
                       (Inr res, L) \<Rightarrow> (Uploaded res, L)
                     | (Inl e, L) \<Rightarrow>
                         (Ingest_failed e, if k = K_image then cleanup_temp_files R (Some temp_path) L else L))))))"

definition upload_image where "upload_image X E R cfg = upload_media X E R cfg K_image"
definition upload_video where "upload_video X E R cfg = upload_media X E R cfg K_video"

definition MAX_BATCH_FILES :: nat where "MAX_BATCH_FILES = 50"
definition MAX_BATCH_TOTAL_BYTES :: nat where "MAX_BATCH_TOTAL_BYTES = 1024 * 1024 * 1024"

text \<open>The environment of each item is drawn anew; the results are pairs of the item's name or hash with its outcome.\<close>

fun batch_loop :: "media_ext \<Rightarrow> ext \<Rightarrow> (nat \<Rightarrow> req_env) \<Rightarrow> media_cfg \<Rightarrow> string \<Rightarrow> string \<Rightarrow> nat \<Rightarrow> nat \<Rightarrow> part list
    \<Rightarrow> (string \<times> (ingest_error + ingest_result)) list \<Rightarrow> library \<Rightarrow> upload_response \<times> library" where
  "batch_loop X E Rs cfg device user count bytes_so_far [] results L = (Batch results, L)"
| "batch_loop X E Rs cfg device user count bytes_so_far (p # ps) results L =
     (let count = count + 1; R = Rs count;
          filename = (case pt_filename p of Some f \<Rightarrow> f | None \<Rightarrow> ''unknown'') in
      if count > MAX_BATCH_FILES \<or> bytes_so_far > MAX_BATCH_TOTAL_BYTES
      then (Upload_error 413 ''Batch limit exceeded'', L)
      else case streaming_hash_to_temp E R cfg 0 (images_dir cfg @ [''.tmp'']) MAX_IMAGE_BYTES p L of
        (Inl (Web_error c m), L) \<Rightarrow>
          batch_loop X E Rs cfg device user count bytes_so_far ps (results @ [(filename, Inl (Io_error m))]) L
      | (Inr (temp_path, hash), L) \<Rightarrow>
          let bytes_so_far = bytes_so_far + (case lib_files L temp_path of
                Some d \<Rightarrow> if r_fails R 27 then 0 else length d | None \<Rightarrow> 0) in
          (case process_image_file X R cfg temp_path filename hash device user True None L of
             (Inr res, L) \<Rightarrow> batch_loop X E Rs cfg device user count bytes_so_far ps (results @ [(hash, Inr res)]) L
           | (Inl e, L) \<Rightarrow> batch_loop X E Rs cfg device user count bytes_so_far ps (results @ [(hash, Inl e)])
                            (cleanup_temp_files R (Some temp_path) L)))"

definition batch_upload_image :: "media_ext \<Rightarrow> ext \<Rightarrow> (nat \<Rightarrow> req_env) \<Rightarrow> media_cfg \<Rightarrow> string option \<Rightarrow> string \<Rightarrow> part list \<Rightarrow> library
    \<Rightarrow> upload_response \<times> library" where
  "batch_upload_image X E Rs cfg device user parts L =
     batch_loop X E Rs cfg (case device of Some d \<Rightarrow> d | None \<Rightarrow> ''web-client'') user 0 0 parts [] L"

text \<open>The metadata uploads; the video form has neither coordinates nor place.\<close>

record metadata_req =
  mq_device :: string
  mq_hash :: string
  mq_type :: "string option"
  mq_created :: "string option"
  mq_name :: string
  mq_ext :: string
  mq_exif :: "string option"
  mq_thumb :: "bool option"
  mq_verified :: "string option"
  mq_status :: "int option"
  mq_lat :: "64 word option"
  mq_lon :: "64 word option"
  mq_place :: "string option"

definition metadata_row :: "media_ext \<Rightarrow> req_env \<Rightarrow> media_kind \<Rightarrow> string \<Rightarrow> metadata_req \<Rightarrow> media_row" where
  "metadata_row X R k user q =
     (let from_name = (if k = K_image then parse_date_from_image_name X (mq_name q) else parse_date_from_video_name X (mq_name q));
          created = (case or_else (Option.bind (mq_created q) (x_rfc3339 X)) from_name of Some t \<Rightarrow> t | None \<Rightarrow> r_now R) in
      (new_row user (mq_hash q) (mq_device q) (mq_name q) (mq_ext q) created)\<lparr>
        m_type := mq_type q, m_added := r_now R, m_exif := mq_exif q, m_thumb := (mq_thumb q = Some True),
        m_verified := Option.bind (mq_verified q) (x_rfc3339 X),
        m_status := (case mq_status q of Some s \<Rightarrow> s | None \<Rightarrow> 0),
        m_location := (if k = K_image then Some (case mq_lon q of Some v \<Rightarrow> v | None \<Rightarrow> 0, case mq_lat q of Some v \<Rightarrow> v | None \<Rightarrow> 0) else None),
        m_place := (if k = K_image then mq_place q else None)\<rparr>)"

text \<open>The \<open>SET\<close> list of the conflict clause.\<close>

definition merge_metadata :: "media_kind \<Rightarrow> media_row \<Rightarrow> media_row \<Rightarrow> media_row" where
  "merge_metadata k new old =
     old\<lparr>m_type := m_type new, m_name := m_name new, m_ext := m_ext new,
         m_exif := (if k = K_image then or_else (m_exif new) (m_exif old) else m_exif new),
         m_thumb := m_thumb new, m_verified := m_verified new, m_status := max (m_status old) (m_status new),
         m_location := (if k = K_image then m_location new else m_location old),
         m_place := (if k = K_image then m_place new else m_place old), m_added := m_added new\<rparr>"

definition upload_metadata :: "media_ext \<Rightarrow> req_env \<Rightarrow> media_kind \<Rightarrow> string \<Rightarrow> metadata_req \<Rightarrow> library \<Rightarrow> (nat \<times> string) \<times> library" where
  "upload_metadata X R k user q L =
     (if \<not> is_valid_content_hash (mq_hash q) then ((400, ''Invalid hash: must be 64 lowercase hex characters''), L)
      else if \<not> is_valid_media_ext (mq_ext q) then ((400, ''Invalid file extension''), L)
      else if r_fails R 0 then ((500, ''Database connection failed''), L)
      else let row = metadata_row X R k user q in
        (case (if r_fails R 1 then None else upsert_media k row (merge_metadata k row) L) of
           None \<Rightarrow> ((500, ''Database error''), L)
         | Some L \<Rightarrow> ((200, ''Metadata updated''), unless (r_fails R 2) (note_source user (mq_hash q) k (mq_device q)) L)))"

definition upload_image_metadata where "upload_image_metadata X R = upload_metadata X R K_image"
definition upload_video_metadata where "upload_video_metadata X R = upload_metadata X R K_video"

text \<open>The deduplication checks of clients, and of the directory import.\<close>

definition internal_check_exist :: "req_env \<Rightarrow> media_kind \<Rightarrow> string \<Rightarrow> string list \<Rightarrow> library \<Rightarrow> (nat \<times> string) + string list" where
  "internal_check_exist R k user hashes L =
     (if r_fails R 0 then Inl (500, ''Failed to get database connection'')
      else if hashes = [] then Inr []
      else if r_fails R 1 then Inl (500, ''Failed to check existence'')
      else Inr (map m_hash (filter (\<lambda>r. m_user r = user \<and> m_hash r \<in> set hashes \<and> live r) (rows_of k L))))"

definition internal_check_images_exist where "internal_check_images_exist R = internal_check_exist R K_image"
definition internal_check_videos_exist where "internal_check_videos_exist R = internal_check_exist R K_video"

definition filter_existing_hashes :: "req_env \<Rightarrow> media_kind \<Rightarrow> string \<Rightarrow> string list \<Rightarrow> library \<Rightarrow> string list" where
  "filter_existing_hashes R k user hashes L =
     (case internal_check_exist R k user hashes L of Inr hs \<Rightarrow> hs | Inl _ \<Rightarrow> [])"

section \<open>Files are named by their content\<close>

definition content_addressed :: "ext \<Rightarrow> media_cfg \<Rightarrow> library \<Rightarrow> bool" where
  "content_addressed E cfg L \<longleftrightarrow> (\<forall>k hash ext data. is_valid_content_hash hash \<longrightarrow>
     lib_files L (target_path cfg k hash ext) = Some data \<longrightarrow> content_hash E data = hash)"

text \<open>No copy in the request stops halfway.\<close>

definition copies_complete :: "req_env \<Rightarrow> bool" where
  "copies_complete R \<longleftrightarrow> r_copy_stops R = None"

lemma rows_of_set_rows [simp]:
  "rows_of k (set_rows k rs L) = rs" "k \<noteq> k' \<Longrightarrow> rows_of k (set_rows k' rs L) = rows_of k L"
  by (cases k; cases k'; simp)+

lemma files_frame [simp]:
  "lib_files (set_rows k rs L) = lib_files L" "lib_files (update_where k u h c f L) = lib_files L"
  "lib_files (note_source u h k d L) = lib_files L" "rows_of k (put_path p data L) = rows_of k L"
  "rows_of k (drop_path p L) = rows_of k L" "rows_of k (note_source u h k' d L) = rows_of k L"
  "lib_files (put_path p data L) = (lib_files L)(p := Some data)" "lib_files (drop_path p L) = (lib_files L)(p := None)"
  by (cases k; simp add: update_where_def note_source_def put_path_def drop_path_def)+

lemma unless_files [simp]: "(\<And>L. lib_files (f L) = lib_files L) \<Longrightarrow> lib_files (unless b f L) = lib_files L"
  by (simp add: unless_def)

lemma upsert_files: "upsert_media k r f L = Some L' \<Longrightarrow> lib_files L' = lib_files L"
  by (auto simp: upsert_media_def split: if_splits)

lemma valid_hash_no_dot: "is_valid_content_hash h \<Longrightarrow> CHR ''.'' \<notin> set h"
  by (auto simp: is_valid_content_hash_def list_all_iff is_lower_hex_def Let_def)

lemma media_file_name_inj:
  assumes "is_valid_content_hash h" and "is_valid_content_hash h'" and "media_file_name h e = media_file_name h' e'"
  shows "h = h' \<and> e = e'"
proof -
  have "length h = length h'" using assms(1,2) by (simp add: is_valid_content_hash_def)
  then show ?thesis using assms(3) by (simp add: media_file_name_def)
qed

lemma target_path_inj:
  assumes "is_valid_content_hash h" and "is_valid_content_hash h'" and "target_path cfg k h e = target_path cfg k' h' e'"
  shows "h = h' \<and> e = e'"
proof -
  have "last (target_path cfg k h e) = last (target_path cfg k' h' e')" using assms(3) by simp
  then have "media_file_name h e = media_file_name h' e'" by (simp add: target_path_def)
  then show ?thesis by (rule media_file_name_inj[OF assms(1,2)])
qed

text \<open>Temporary files lie outside the tree of a content hash.\<close>

definition temp_place :: "path \<Rightarrow> bool" where
  "temp_place p \<longleftrightarrow> (\<exists>d f. p = d @ [''.tmp'', f] \<or> p = d @ [''reminisce_uploads'', f])"

lemma temp_not_target:
  assumes "temp_place p" and "is_valid_content_hash h"
  shows "p \<noteq> target_path cfg k h e"
proof
  assume eq: "p = target_path cfg k h e"
  have "length (take 2 h) = 2" using assms(2) by (simp add: is_valid_content_hash_def)
  then have "length (last (butlast p)) = 2" unfolding eq by (simp add: target_path_def butlast_append)
  moreover from assms(1) have "last (butlast p) = ''.tmp'' \<or> last (butlast p) = ''reminisce_uploads''"
    by (auto simp: temp_place_def butlast_append)
  ultimately show False by auto
qed

lemma content_addressed_temp:
  assumes "content_addressed E cfg L" and "temp_place p"
  shows "content_addressed E cfg (put_path p data L)" and "content_addressed E cfg (drop_path p L)"
proof -
  have n: "target_path cfg k h e \<noteq> p" if "is_valid_content_hash h" for k h e
    using temp_not_target[OF assms(2) that, of cfg k e] by blast
  show "content_addressed E cfg (put_path p data L)" "content_addressed E cfg (drop_path p L)"
    using assms(1) n by (simp_all add: content_addressed_def)
qed

lemma content_addressed_drop: "content_addressed E cfg L \<Longrightarrow> content_addressed E cfg (drop_path p L)"
  by (auto simp: content_addressed_def split: if_splits)

lemma content_addressed_target:
  assumes "content_addressed E cfg L" and "is_valid_content_hash h" and "content_hash E data = h"
  shows "content_addressed E cfg (put_path (target_path cfg k h e) data L)"
  using assms by (auto simp: content_addressed_def split: if_splits dest: target_path_inj)

lemma content_addressed_files: "lib_files L' = lib_files L \<Longrightarrow> content_addressed E cfg L' = content_addressed E cfg L"
  by (simp add: content_addressed_def)

lemma content_hash_valid: "blake3_ok E \<Longrightarrow> hex_ok E \<Longrightarrow> is_valid_content_hash (content_hash E data)"
  by (simp add: is_valid_content_hash_def content_hash_def hex_encode_lower) (simp add: hex_ok_def blake3_ok_def)

text \<open>Moving or copying a file whose content has the given hash.\<close>

lemma place_content_addressed:
  assumes "content_addressed E cfg L" and "is_valid_content_hash h" and "lib_files L src = Some data"
    and "content_hash E data = h" and "copies_complete R"
    and "(if mv then rename_or_copy R src (target_path cfg k h e) L else fs_copy R src (target_path cfg k h e) L) = (r, L')"
  shows "content_addressed E cfg L'"
  using assms content_addressed_target[OF content_addressed_drop[OF assms(1)] assms(2,4), of k e src]
    content_addressed_target[OF assms(1,2,4), of k e]
    content_addressed_drop[OF content_addressed_target[OF assms(1,2,4), of k e], of src]
  by (auto simp: rename_or_copy_def fs_copy_def copies_complete_def split: if_splits rename_result.splits)

lemma store_media_content_addressed:
  assumes "content_addressed E cfg L" and "is_valid_content_hash h" and "lib_files L src = Some data"
    and "content_hash E data = h" and "copies_complete R"
    and "store_media R cfg k src name e h dev user mv L = (r, L')"
  shows "content_addressed E cfg L'"
proof -
  obtain r1 L1 where p: "(if mv then rename_or_copy R src (target_path cfg k h e) L else fs_copy R src (target_path cfg k h e) L) = (r1, L1)"
    by (cases "if mv then rename_or_copy R src (target_path cfg k h e) L else fs_copy R src (target_path cfg k h e) L") auto
  have c: "content_addressed E cfg L1" by (rule place_content_addressed[OF assms(1-5) p])
  have "lib_files L' = lib_files L \<or> lib_files L' = lib_files L1"
    using assms(6) p by (auto simp: store_media_def Let_def split: sum.splits if_splits option.splits dest!: upsert_files)
  then show ?thesis using c assms(1) content_addressed_files by blast
qed

lemma note_files [simp]:
  "lib_files (note_exif X R user h exif orient L) = lib_files L" "lib_files (note_date R k user h d L) = lib_files L"
  "lib_files (note_location X R cfg user h gps L) = lib_files L"
  by (simp_all add: note_exif_def note_date_def note_location_def Let_def split: option.splits prod.splits)

lemma process_files:
  "lib_files (snd (process_image_file X R cfg src name h dev user mv cl L))
     = lib_files (snd (store_media R cfg K_image src name (ingest_ext X name) h dev user mv L))"
  "lib_files (snd (process_video_file X R cfg src name h dev user mv cl L))
     = lib_files (snd (store_media R cfg K_video src name (ingest_ext X name) h dev user mv L))"
  by (simp_all add: process_image_file_def process_video_file_def Let_def split: prod.splits sum.splits)

lemma process_content_addressed:
  assumes "content_addressed E cfg L" and "is_valid_content_hash h" and "lib_files L src = Some data"
    and "content_hash E data = h" and "copies_complete R"
  shows "content_addressed E cfg (snd (process_image_file X R cfg src name h dev user mv cl L))"
    and "content_addressed E cfg (snd (process_video_file X R cfg src name h dev user mv cl L))"
proof -
  have s: "content_addressed E cfg (snd (store_media R cfg k src name e h dev user mv L))" for k e
    using store_media_content_addressed[OF assms, of k name e dev user mv] by (metis prod.collapse)
  show "content_addressed E cfg (snd (process_image_file X R cfg src name h dev user mv cl L))"
    "content_addressed E cfg (snd (process_video_file X R cfg src name h dev user mv cl L))"
    by (simp_all only: content_addressed_files[OF process_files(1)] content_addressed_files[OF process_files(2)] s)
qed

text \<open>Streaming: the temporary file holds the chunks, everything else keeps its content.\<close>

lemma stream_chunks_files:
  assumes "stream_chunks R p mx w i cs L = (r, L')" and "q \<noteq> p"
  shows "lib_files L' q = lib_files L q"
  using assms
proof (induction R p mx w i cs L arbitrary: r L' rule: stream_chunks.induct)
  case (2 R p mx w i c cs L)
  then show ?case by (auto simp: Let_def unless_def split: if_splits option.splits)
qed simp

lemma stream_chunks_ok:
  assumes "stream_chunks R p mx w i cs L = (Inr n, L')" and "lib_files L p = Some d"
  shows "lib_files L' p = Some (d @ concat cs)"
  using assms
proof (induction R p mx w i cs L arbitrary: d rule: stream_chunks.induct)
  case (2 R p mx w i c cs L)
  from 2(2) have w: "\<not> mx < w + length c" and s: "r_write_stops R i = None"
    and rec: "stream_chunks R p mx (w + length c) (Suc i) cs (put_path p (d @ c) L) = (Inr n, L')"
    using 2(3) by (auto simp: Let_def split: if_splits option.splits)
  show ?case
    using 2(1)[OF refl _ w s, where d = "d @ c"] rec 2(3) by simp
qed simp

lemma stream_chunks_bound: "stream_chunks R p mx w i cs L = (Inr n, L') \<Longrightarrow> cs \<noteq> [] \<Longrightarrow> w + length (concat cs) \<le> mx"
proof (induction R p mx w i cs L rule: stream_chunks.induct)
  case (2 R p mx w i c cs L)
  then show ?case by (cases cs) (fastforce simp: Let_def split: if_splits option.splits)+
qed simp

lemma streaming_temp:
  assumes "streaming_hash_to_temp E R cfg i (d @ [''.tmp'']) mx p L = (r, L')"
  shows "\<exists>t. temp_place t \<and> (\<forall>q. q \<noteq> t \<longrightarrow> lib_files L' q = lib_files L q)
    \<and> (\<forall>t' h. r = Inr (t', h) \<longrightarrow> t' = t \<and> lib_files L' t = Some (concat (pt_chunks p)) \<and> h = content_hash E (concat (pt_chunks p)))"
proof (cases "r_fails R 21 \<and> r_fails R 22")
  case True
  then have "r = Inl (Web_error 500 ''Failed to create temp file'')" "L' = L"
    using assms by (simp_all add: streaming_hash_to_temp_def Let_def)
  then show ?thesis by (intro exI[of _ "[''.tmp'', []]"]) (auto simp: temp_place_def intro: exI[of _ "[]"])
next
  case False
  let ?f = "r_uuid R i @ ''.tmp''"
  define t where "t = (if r_fails R 21 then fallback_dir cfg @ [?f]
    else (if r_fails R 20 then fallback_dir cfg else d @ [''.tmp'']) @ [?f])"
  have place: "temp_place t" by (auto simp: t_def temp_place_def fallback_dir_def)
  obtain r1 L1 where s: "stream_chunks R t mx 0 0 (pt_chunks p) (put_path t [] L) = (r1, L1)" by force
  have L': "L' = L1" and r: "r = Inr (t', h) \<Longrightarrow> \<exists>n. r1 = Inr n \<and> t' = t \<and> h = content_hash E (concat (pt_chunks p))" for t' h
    using assms s False by (auto simp: streaming_hash_to_temp_def Let_def t_def split: sum.splits if_splits)
  have f: "q \<noteq> t \<Longrightarrow> lib_files L' q = lib_files L q" for q
    using stream_chunks_files[OF s, of q] by (simp add: L')
  have "lib_files L' t = Some (concat (pt_chunks p))" if "r1 = Inr n" for n
    using stream_chunks_ok[OF s[unfolded that], of "[]"] by (simp add: L')
  then show ?thesis using place f r by blast
qed

lemma content_addressed_at_temp:
  assumes "content_addressed E cfg L" and "temp_place t" and "\<forall>q. q \<noteq> t \<longrightarrow> lib_files L' q = lib_files L q"
  shows "content_addressed E cfg L'"
proof -
  have "target_path cfg k h e \<noteq> t" if "is_valid_content_hash h" for k h e
    using temp_not_target[OF assms(2) that, of cfg k e] by blast
  then show ?thesis using assms(1,3) by (simp add: content_addressed_def)
qed

text \<open>The form of an upload: its temporary file has the hash computed for it.\<close>

definition form_ok :: "ext \<Rightarrow> upload_form \<Rightarrow> library \<Rightarrow> bool" where
  "form_ok E form L \<longleftrightarrow> (\<forall>t h. uf_temp form = Some (t, h) \<longrightarrow>
     temp_place t \<and> (\<exists>data. lib_files L t = Some data \<and> content_hash E data = h))"

lemma read_form_ok:
  assumes "read_form X E R cfg k i ps form L = (r, L')" and "form_ok E form L" and "content_addressed E cfg L"
  shows "content_addressed E cfg L' \<and> (\<forall>f. r = Inr f \<longrightarrow> form_ok E f L')"
  using assms
proof (induction X E R cfg k i ps form L arbitrary: r L' rule: read_form.induct)
  case (2 X E R cfg k i p ps form L)
  show ?case
  proof (cases "pt_name p = ''hash'' \<or> pt_name p = ''name'' \<or> pt_name p = ''device_id'' \<or> pt_name p = ''created_at'' \<or> pt_name p \<noteq> show_kind k")
    case True
    then show ?thesis using 2 by (auto simp: form_ok_def split: if_splits)
  next
    case False
    obtain r1 L1 where s: "streaming_hash_to_temp E R cfg i (media_dir cfg k @ [''.tmp'']) (max_upload k) p L = (r1, L1)" by force
    obtain t where t: "temp_place t" "\<forall>q. q \<noteq> t \<longrightarrow> lib_files L1 q = lib_files L q"
      "\<And>t' h. r1 = Inr (t', h) \<Longrightarrow> t' = t \<and> lib_files L1 t = Some (concat (pt_chunks p)) \<and> h = content_hash E (concat (pt_chunks p))"
      using streaming_temp[OF s] by blast
    have c: "content_addressed E cfg L1" by (rule content_addressed_at_temp[OF 2(9) t(1,2)])
    show ?thesis
    proof (cases r1)
      case (Inl e)
      then show ?thesis using 2(7) False s c by (cases k) auto
    next
      case (Inr th)
      obtain t' h where th: "th = (t', h)" by force
      have fo: "form_ok E (form\<lparr>uf_temp := Some th\<rparr>) L1"
        using t(1) t(3)[of t' h] Inr th by (auto simp: form_ok_def)
      have rec: "read_form X E R cfg k (Suc i) ps (form\<lparr>uf_temp := Some th\<rparr>) L1 = (r, L')"
        using 2(7) False s Inr by (cases k) auto
      show ?thesis
        using 2(5)[OF _ _ _ _ _ s[symmetric] Inr rec fo c] False by blast
    qed
  qed
qed simp

lemma cleanup_content_addressed: "content_addressed E cfg L \<Longrightarrow> content_addressed E cfg (cleanup_temp_files R p L)"
  by (cases p) (simp_all add: cleanup_temp_files_def unless_def content_addressed_drop)

lemma upload_content_addressed:
  assumes "blake3_ok E" and "hex_ok E" and "copies_complete R" and "content_addressed E cfg L"
  shows "content_addressed E cfg (snd (upload_media X E R cfg k user parts L))"
proof -
  obtain r L1 where f: "read_form X E R cfg k 0 parts empty_form L = (r, L1)" by force
  have "form_ok E empty_form L" by (simp add: form_ok_def empty_form_def)
  from read_form_ok[OF f this assms(4)] have c: "content_addressed E cfg L1" and ok: "\<And>g. r = Inr g \<Longrightarrow> form_ok E g L1" by auto
  show ?thesis
  proof (cases r)
    case (Inl e)
    then show ?thesis using f c by (cases e) (simp add: upload_media_def)
  next
    case (Inr g)
    show ?thesis
    proof (cases "\<exists>h n t. uf_hash g = Some h \<and> uf_name g = Some n \<and> uf_temp g = Some (t, h)")
      case False
      then show ?thesis using f c Inr by (auto simp: upload_media_def cleanup_content_addressed split: option.splits)
    next
      case True
      then obtain h n t where g: "uf_hash g = Some h" "uf_name g = Some n" "uf_temp g = Some (t, h)" by blast
      from ok[OF Inr] g(3) obtain data where d: "lib_files L1 t = Some data" "content_hash E data = h"
        by (auto simp: form_ok_def)
      have v: "is_valid_content_hash h" using content_hash_valid[OF assms(1,2), of data] d(2) by simp
      note p = process_content_addressed[OF c v d assms(3)]
      show ?thesis
        using f Inr g p(1)[of X n "case uf_device g of Some d \<Rightarrow> d | None \<Rightarrow> ''web-client''" user True "uf_created g"]
          p(2)[of X n "case uf_device g of Some d \<Rightarrow> d | None \<Rightarrow> ''web-client''" user True "uf_created g"]
        by (auto simp: upload_media_def Let_def cleanup_content_addressed split: prod.splits sum.splits)
    qed
  qed
qed

lemma batch_content_addressed:
  assumes "blake3_ok E" and "hex_ok E" and "\<forall>i. copies_complete (Rs i)"
  shows "content_addressed E cfg L \<Longrightarrow> content_addressed E cfg (snd (batch_loop X E Rs cfg dev user n b ps res L))"
proof (induction ps arbitrary: n b res L)
  case (Cons p ps)
  let ?R = "Rs (n + 1)"
  let ?f = "case pt_filename p of Some f \<Rightarrow> f | None \<Rightarrow> ''unknown''"
  obtain r L1 where s: "streaming_hash_to_temp E ?R cfg 0 (images_dir cfg @ [''.tmp'']) MAX_IMAGE_BYTES p L = (r, L1)" by force
  obtain t where t: "temp_place t" "\<forall>q. q \<noteq> t \<longrightarrow> lib_files L1 q = lib_files L q"
    "\<And>t' h. r = Inr (t', h) \<Longrightarrow> t' = t \<and> lib_files L1 t = Some (concat (pt_chunks p)) \<and> h = content_hash E (concat (pt_chunks p))"
    using streaming_temp[OF s] by blast
  have c: "content_addressed E cfg L1" by (rule content_addressed_at_temp[OF Cons.prems t(1,2)])
  show ?case
  proof (cases "n + 1 > MAX_BATCH_FILES \<or> b > MAX_BATCH_TOTAL_BYTES")
    case False
    show ?thesis
    proof (cases r)
      case (Inl e)
      then show ?thesis using s c False Cons.IH by (cases e) (simp add: Let_def)
    next
      case (Inr th)
      obtain t' h where th: "th = (t', h)" by force
      have h: "t' = t" "lib_files L1 t = Some (concat (pt_chunks p))" "content_hash E (concat (pt_chunks p)) = h"
        using t(3)[of t' h] Inr th by auto
      have v: "is_valid_content_hash h" using content_hash_valid[OF assms(1,2)] h(3) by metis
      obtain r2 L2 where pr: "process_image_file X ?R cfg t ?f h dev user True None L1 = (r2, L2)" by force
      have c2: "content_addressed E cfg L2"
        using process_content_addressed(1)[OF c v h(2,3), of ?R X ?f dev user True None] assms(3) pr by simp
      show ?thesis using s Inr th h(1) pr c2 False Cons.IH
        by (cases r2) (simp_all add: Let_def cleanup_content_addressed)
    qed
  qed (use Cons.prems in \<open>auto simp: Let_def\<close>)
qed simp

section \<open>Ownership\<close>

text \<open>What belongs to other users.\<close>

definition others :: "string \<Rightarrow> library \<Rightarrow> media_row list \<times> media_row list \<times> (string \<times> string \<times> media_kind \<times> string) list
    \<times> (media_kind \<times> string \<times> string) list \<times> (string \<times> string \<times> string) list" where
  "others user L = (filter (\<lambda>r. m_user r \<noteq> user) (lib_images L), filter (\<lambda>r. m_user r \<noteq> user) (lib_videos L),
     filter (\<lambda>(u, _). u \<noteq> user) (lib_sources L), filter (\<lambda>(_, u, _). u \<noteq> user) (lib_stars L),
     filter (\<lambda>(u, _). u \<noteq> user) (lib_pairs L))"

definition keeps_owner :: "(media_row \<Rightarrow> media_row) \<Rightarrow> bool" where
  "keeps_owner f \<longleftrightarrow> (\<forall>r. m_user (f r) = m_user r)"

lemma others_update_where [simp]:
  assumes "keeps_owner f"
  shows "others user (update_where k user h c f L) = others user L"
proof -
  have *: "filter (\<lambda>r. m_user r \<noteq> user) (map (\<lambda>r. if owned user h r \<and> c r then f r else r) rs) = filter (\<lambda>r. m_user r \<noteq> user) rs" for rs
    using assms by (induction rs) (auto simp: owned_def keeps_owner_def)
  show ?thesis by (cases k) (simp_all add: others_def update_where_def *)
qed

lemma others_frame [simp]:
  "others user (put_path p data L) = others user L" "others user (drop_path p L) = others user L"
  "others user (note_source user h k d L) = others user L"
  by (simp_all add: others_def put_path_def drop_path_def note_source_def List.insert_def)

lemma others_unless [simp]: "(\<And>L. others user (f L) = others user L) \<Longrightarrow> others user (unless b f L) = others user L"
  by (simp add: unless_def)

lemma others_upsert:
  assumes "upsert_media k r f L = Some L'" and "m_user r = user" and "keeps_owner f"
  shows "others user L' = others user L"
proof (cases "list_ex (owned (m_user r) (m_hash r)) (rows_of k L)")
  case True
  then have "L' = update_where k user (m_hash r) (\<lambda>_. True) f L" using assms(1,2) by (auto simp: upsert_media_def split: if_splits)
  then show ?thesis using assms(3) by simp
next
  case False
  then have "L' = set_rows k (rows_of k L @ [r]) L" using assms(1) by (auto simp: upsert_media_def split: if_splits)
  then show ?thesis using assms(2) by (cases k) (simp_all add: others_def)
qed

lemma others_place:
  "others user (snd (rename_or_copy R src dst L)) = others user L" "others user (snd (fs_copy R src dst L)) = others user L"
  by (simp_all add: rename_or_copy_def fs_copy_def split: rename_result.splits option.splits)

lemma others_store: "store_media R cfg k src name e h dev user mv L = (r, L') \<Longrightarrow> others user L' = others user L"
proof -
  assume s: "store_media R cfg k src name e h dev user mv L = (r, L')"
  obtain r1 L1 where p: "(if mv then rename_or_copy R src (target_path cfg k h e) L else fs_copy R src (target_path cfg k h e) L) = (r1, L1)"
    by (cases "if mv then rename_or_copy R src (target_path cfg k h e) L else fs_copy R src (target_path cfg k h e) L") auto
  have o1: "others user L1 = others user L"
    using others_place[of user R src "target_path cfg k h e" L] p by (metis snd_conv)
  have up: "others user L2 = others user L1" if "upsert_media k (new_row user h dev name e (r_now R)) (\<lambda>r. r\<lparr>m_deleted := None\<rparr>) L1 = Some L2" for L2
    using others_upsert[OF that, of user] by (simp add: new_row_def keeps_owner_def)
  have "others user L' = others user L \<or> others user L' = others user L1"
    using s p by (auto simp: store_media_def Let_def up keeps_owner_def split: sum.splits if_splits option.splits)
  then show ?thesis using o1 by auto
qed

lemma others_note [simp]:
  "others user (note_exif X R user h exif orient L) = others user L" "others user (note_date R k user h d L) = others user L"
  "others user (note_location X R cfg user h gps L) = others user L"
  by (simp_all add: note_exif_def note_date_def note_location_def Let_def keeps_owner_def split: option.splits prod.splits)

lemma others_process:
  "others user (snd (process_image_file X R cfg src name h dev user mv cl L)) = others user L"
  "others user (snd (process_video_file X R cfg src name h dev user mv cl L)) = others user L"
  by (auto simp: process_image_file_def process_video_file_def Let_def split: prod.splits sum.splits dest: others_store)

lemma others_stream: "others user (snd (stream_chunks R p mx w i cs L)) = others user L"
  by (induction R p mx w i cs L rule: stream_chunks.induct) (simp_all add: Let_def split: option.splits)

lemma others_streaming: "others user (snd (streaming_hash_to_temp E R cfg i d mx p L)) = others user L"
proof -
  have "others user L1 = others user L" if "stream_chunks R q mx 0 0 cs (put_path q [] L) = (r, L1)" for q cs r L1
    using others_stream[of user R q mx 0 0 cs "put_path q [] L"] that by simp
  then show ?thesis by (auto simp: streaming_hash_to_temp_def Let_def split: prod.splits sum.splits)
qed

lemma others_read_form: "others user (snd (read_form X E R cfg k i ps form L)) = others user L"
proof (induction X E R cfg k i ps form L rule: read_form.induct)
  case (2 X E R cfg k i p ps form L)
  have s: "others user L1 = others user L"
    if "streaming_hash_to_temp E R cfg i (media_dir cfg k @ [''.tmp'']) (max_upload k) p L = (r1, L1)" for r1 L1
    using others_streaming[of user E R cfg i "media_dir cfg k @ [''.tmp'']" "max_upload k" p L] that by simp
  show ?case using 2 s by (auto split: prod.splits sum.splits)
qed simp

lemma others_cleanup [simp]: "others user (cleanup_temp_files R p L) = others user L"
  by (simp add: cleanup_temp_files_def split: option.splits)

lemma others_upload: "others user (snd (upload_media X E R cfg k user parts L)) = others user L"
proof -
  obtain r L1 where f: "read_form X E R cfg k 0 parts empty_form L = (r, L1)" by force
  have o1: "others user L1 = others user L" using others_read_form[of user X E R cfg k 0 parts empty_form L] f by simp
  have p: "process_image_file X R cfg t n h d user True c L1 = (r2, L2) \<Longrightarrow> others user L2 = others user L1"
    "process_video_file X R cfg t n h d user True c L1 = (r2, L2) \<Longrightarrow> others user L2 = others user L1" for t n h d c r2 L2
    using others_process[of user X R cfg t n h d True c L1] by (metis snd_conv)+
  have "others user (snd (upload_media X E R cfg k user parts L)) = others user L1"
    using f by (auto simp: upload_media_def Let_def split: sum.splits web_error.splits option.splits prod.splits dest: p)
  then show ?thesis using o1 by simp
qed

lemma others_batch: "others user (snd (batch_loop X E Rs cfg dev user n b ps res L)) = others user L"
proof (induction ps arbitrary: n b res L)
  case (Cons p ps)
  have s: "others user L1 = others user L"
    if "streaming_hash_to_temp E (Rs (n + 1)) cfg 0 (images_dir cfg @ [''.tmp'']) MAX_IMAGE_BYTES p L = (r1, L1)" for r1 L1
    using others_streaming[of user E "Rs (n + 1)" cfg 0 "images_dir cfg @ [''.tmp'']" MAX_IMAGE_BYTES p L] that by simp
  have q: "others user L2 = others user L1" if "process_image_file X (Rs (n + 1)) cfg t f h dev user True None L1 = (r2, L2)" for t f h L1 r2 L2
    using others_process(1)[of user X "Rs (n + 1)" cfg t f h dev True None L1] that by simp
  show ?case using Cons.IH by (auto simp: Let_def s q split: prod.splits sum.splits web_error.splits dest: s q)
qed simp

section \<open>Accepted uploads\<close>

definition quiet :: "req_env \<Rightarrow> bool" where
  "quiet R \<longleftrightarrow> (\<forall>n. \<not> r_fails R n) \<and> (\<forall>i. r_write_stops R i = None) \<and> r_rename R = Renamed \<and> r_head R \<ge> 16"

lemma stream_chunks_quiet:
  "quiet R \<Longrightarrow> w + length (concat cs) \<le> mx \<Longrightarrow> \<exists>n L'. stream_chunks R p mx w i cs L = (Inr n, L')"
  by (induction R p mx w i cs L rule: stream_chunks.induct) (auto simp: quiet_def Let_def)

lemma streaming_quiet:
  assumes "quiet R" and "length (concat (pt_chunks p)) \<le> mx" and t_def: "t = d @ [r_uuid R i @ ''.tmp'']"
  shows "\<exists>L'. streaming_hash_to_temp E R cfg i d mx p L = (Inr (t, content_hash E (concat (pt_chunks p))), L')
    \<and> lib_files L' = (lib_files L)(t := Some (concat (pt_chunks p))) \<and> rows_of k L' = rows_of k L"
proof -
  obtain n L1 where s: "stream_chunks R t mx 0 0 (pt_chunks p) (put_path t [] L) = (Inr n, L1)"
    using stream_chunks_quiet[OF assms(1), of 0 "pt_chunks p" mx t 0 "put_path t [] L"] assms(2) by auto
  have f: "lib_files L1 = (lib_files L)(t := Some (concat (pt_chunks p)))"
    using stream_chunks_files[OF s] stream_chunks_ok[OF s, of "[]"] by (intro ext) auto
  have r: "rows_of k (snd (stream_chunks R q mx w j cs M)) = rows_of k M" for q w j cs M
    by (induction R q mx w j cs M rule: stream_chunks.induct) (simp_all add: Let_def unless_def split: option.splits)
  have "rows_of k L1 = rows_of k L" using r[of t 0 0 "pt_chunks p" "put_path t [] L"] s by simp
  then show ?thesis using s f assms(1) by (intro exI[of _ L1]) (simp add: streaming_hash_to_temp_def quiet_def Let_def t_def)
qed

text \<open>The row of an accepted file, and that later statements keep it live.\<close>

definition has_row :: "media_kind \<Rightarrow> string \<Rightarrow> string \<Rightarrow> library \<Rightarrow> bool" where
  "has_row k user hash L \<longleftrightarrow> (\<exists>r \<in> set (rows_of k L). owned user hash r \<and> live r)"

lemma has_row_update:
  assumes "has_row k user hash L" and "\<And>r. m_user (f r) = m_user r \<and> m_hash (f r) = m_hash r \<and> m_deleted (f r) = m_deleted r"
  shows "has_row k user hash (update_where k u h c f L)"
proof -
  let ?g = "\<lambda>r. if owned u h r \<and> c r then f r else r"
  obtain r where r: "r \<in> set (rows_of k L)" "owned user hash r" "live r" using assms(1) by (auto simp: has_row_def)
  have "?g r \<in> set (rows_of k (update_where k u h c f L))" using r(1) by (simp add: update_where_def image_iff) blast
  moreover have "owned user hash (?g r)" "live (?g r)" using r(2,3) assms(2)[of r] by (simp_all add: owned_def live_def)
  ultimately show ?thesis unfolding has_row_def by blast
qed

lemma has_row_unless: "has_row k user hash L \<Longrightarrow> (\<And>L. has_row k user hash L \<Longrightarrow> has_row k user hash (f L)) \<Longrightarrow> has_row k user hash (unless b f L)"
  by (simp add: unless_def)

lemma has_row_upsert:
  assumes "fits r" and "live r"
  shows "\<exists>L'. upsert_media k r (\<lambda>r. r\<lparr>m_deleted := None\<rparr>) L = Some L' \<and> lib_files L' = lib_files L \<and> has_row k (m_user r) (m_hash r) L'"
proof (cases "list_ex (owned (m_user r) (m_hash r)) (rows_of k L)")
  case True
  then obtain x where "x \<in> set (rows_of k L)" "owned (m_user r) (m_hash r) x" by (auto simp: list_ex_iff)
  then have "x\<lparr>m_deleted := None\<rparr> \<in> set (rows_of k (update_where k (m_user r) (m_hash r) (\<lambda>_. True) (\<lambda>r. r\<lparr>m_deleted := None\<rparr>) L))"
    and "owned (m_user r) (m_hash r) (x\<lparr>m_deleted := None\<rparr>)"
    by (auto simp: update_where_def owned_def intro!: image_eqI[of _ _ x])
  then have "has_row k (m_user r) (m_hash r) (update_where k (m_user r) (m_hash r) (\<lambda>_. True) (\<lambda>r. r\<lparr>m_deleted := None\<rparr>) L)"
    unfolding has_row_def live_def by (intro bexI[of _ "x\<lparr>m_deleted := None\<rparr>"]) simp_all
  then show ?thesis using True assms(1) by (simp add: upsert_media_def)
next
  case False
  then show ?thesis using assms by (simp add: upsert_media_def has_row_def owned_def)
qed

lemma has_row_note:
  "has_row K_image user h L \<Longrightarrow> has_row K_image user h (note_exif X R u g exif orient L)"
  "has_row k user h L \<Longrightarrow> has_row k user h (note_date R k u g d L)"
  "has_row K_image user h L \<Longrightarrow> has_row K_image user h (note_location X R cfg u g gps L)"
  by (auto simp: note_exif_def note_date_def note_location_def Let_def split: option.splits prod.splits
      intro!: has_row_unless has_row_update)

lemma has_row_source: "has_row k user h L \<Longrightarrow> has_row k user h (note_source u g k' d L)"
  by (simp add: has_row_def)

lemma store_media_quiet:
  assumes "quiet R" and "lib_files L t = Some data" and "e \<in> set (if k = K_image then IMAGE_EXTS else VIDEO_EXTS)"
    and "sniff_media_kind (take 16 data) = Some k" and "fits (new_row user h dev name e (r_now R))"
    and "t \<noteq> target_path cfg k h e"
  shows "\<exists>L'. store_media R cfg k t name e h dev user True L
      = (Inr \<lparr>in_hash = h, in_name = name, in_filename = media_file_name h e, in_path = target_path cfg k h e\<rparr>, L')
    \<and> lib_files L' = (lib_files L)(t := None, target_path cfg k h e := Some data) \<and> has_row k user h L'"
proof -
  let ?p = "target_path cfg k h e"
  define L1 where "L1 = put_path ?p data (drop_path t L)"
  have lv: "live (new_row user h dev name e (r_now R))" by (simp add: live_def new_row_def)
  obtain L2 where u: "upsert_media k (new_row user h dev name e (r_now R)) (\<lambda>r. r\<lparr>m_deleted := None\<rparr>) L1 = Some L2"
    and f2: "lib_files L2 = lib_files L1" and h2: "has_row k user h L2"
    using has_row_upsert[OF assms(5) lv, of k L1] by (auto simp: new_row_def)
  have v: "validate_media_file R t k e L = Inr ()"
    using assms(1-4) by (simp add: validate_media_file_def quiet_def min_def Let_def)
  have mv: "rename_or_copy R t ?p L = (Inr (), L1)"
    using assms(1,2) by (simp add: rename_or_copy_def quiet_def L1_def)
  have p: "lib_files L2 ?p = Some data" by (simp add: f2 L1_def)
  show ?thesis
    using assms(1) v mv u p h2 f2
    by (auto simp: store_media_def quiet_def Let_def L1_def unless_def intro!: has_row_update has_row_source)
qed

lemma process_quiet:
  assumes "quiet R" and "lib_files L t = Some data" and "ingest_ext X name = e"
    and "e \<in> set (if k = K_image then IMAGE_EXTS else VIDEO_EXTS)"
    and "sniff_media_kind (take 16 data) = Some k" and "fits (new_row user h dev name e (r_now R))"
    and "t \<noteq> target_path cfg k h e"
  shows "\<exists>L'. (if k = K_image then process_image_file X R cfg t name h dev user True cl L
               else process_video_file X R cfg t name h dev user True cl L)
      = (Inr \<lparr>in_hash = h, in_name = name, in_filename = media_file_name h e, in_path = target_path cfg k h e\<rparr>, L')
    \<and> lib_files L' = (lib_files L)(t := None, target_path cfg k h e := Some data) \<and> has_row k user h L'"
proof -
  obtain L1 where s: "store_media R cfg k t name e h dev user True L
      = (Inr \<lparr>in_hash = h, in_name = name, in_filename = media_file_name h e, in_path = target_path cfg k h e\<rparr>, L1)"
    and f: "lib_files L1 = (lib_files L)(t := None, target_path cfg k h e := Some data)" and r: "has_row k user h L1"
    using store_media_quiet[OF assms(1,2,4-7)] by blast
  show ?thesis
  proof (cases k)
    case K_image
    then show ?thesis using s f r assms(3) by (auto simp: process_image_file_def Let_def intro!: has_row_note)
  next
    case K_video
    then show ?thesis using s f r assms(3) by (auto simp: process_video_file_def intro!: has_row_note)
  qed
qed

section \<open>Sequences of requests\<close>

lemma metadata_files: "lib_files (snd (upload_metadata X R k user q L)) = lib_files L"
  by (auto simp: upload_metadata_def Let_def unless_def split: option.splits dest: upsert_files)

lemma others_metadata: "others user (snd (upload_metadata X R k user q L)) = others user L"
proof -
  have r: "m_user (metadata_row X R k user q) = user" by (simp add: metadata_row_def new_row_def Let_def)
  have "others user L1 = others user L"
    if "upsert_media k (metadata_row X R k user q) (merge_metadata k (metadata_row X R k user q)) L = Some L1" for L1
    by (rule others_upsert[OF that r]) (simp add: keeps_owner_def merge_metadata_def)
  then show ?thesis by (auto simp: upload_metadata_def Let_def unless_def split: option.splits)
qed

text \<open>What belongs to one user, and the contract the handlers share: a request of a user leaves alone what belongs to
  others, so that it survives any sequence of requests of other users.\<close>

definition mine :: "string \<Rightarrow> library \<Rightarrow> media_row list \<times> media_row list \<times> (string \<times> string \<times> media_kind \<times> string) list
    \<times> (media_kind \<times> string \<times> string) list \<times> (string \<times> string \<times> string) list" where
  "mine user L = (filter (\<lambda>r. m_user r = user) (lib_images L), filter (\<lambda>r. m_user r = user) (lib_videos L),
     filter (\<lambda>(u, _). u = user) (lib_sources L), filter (\<lambda>(_, u, _). u = user) (lib_stars L),
     filter (\<lambda>(u, _). u = user) (lib_pairs L))"

lemma filter_through:
  assumes "filter P xs = filter P ys" and "\<And>x. Q x \<Longrightarrow> P x"
  shows "filter Q xs = filter Q ys"
proof -
  have "filter Q zs = filter Q (filter P zs)" for zs
    using assms(2) by (auto simp: filter_filter intro!: filter_cong)
  then show ?thesis using assms(1) by metis
qed

lemma mine_others: "others user L' = others user L \<Longrightarrow> user \<noteq> u \<Longrightarrow> mine u L' = mine u L"
  unfolding others_def mine_def prod.inject by (elim conjE, intro conjI; erule filter_through; auto)

locale scoped_handler =
  fixes serve :: "string \<Rightarrow> 'q \<Rightarrow> library \<Rightarrow> library"
  assumes keeps_others: "others user (serve user q L) = others user L"
begin

lemma run_keeps: "\<forall>(user, q) \<in> set qs. user \<noteq> u \<Longrightarrow> mine u (fold (\<lambda>(user, q). serve user q) qs L) = mine u L"
proof (induction qs arbitrary: L)
  case (Cons x qs)
  obtain user q where x: "x = (user, q)" by force
  then have "mine u (serve user q L) = mine u L" using Cons.prems by (intro mine_others[OF keeps_others]) auto
  then show ?case using Cons x by simp
qed simp

end

datatype upload_req =
    Single_upload req_env media_kind "part list"
  | Batch_of "nat \<Rightarrow> req_env" "string option" "part list"
  | Metadata_of req_env media_kind metadata_req

fun handle_upload :: "media_ext \<Rightarrow> ext \<Rightarrow> media_cfg \<Rightarrow> string \<Rightarrow> upload_req \<Rightarrow> library \<Rightarrow> library" where
  "handle_upload X E cfg user (Single_upload R k parts) L = snd (upload_media X E R cfg k user parts L)"
| "handle_upload X E cfg user (Batch_of Rs device parts) L = snd (batch_upload_image X E Rs cfg device user parts L)"
| "handle_upload X E cfg user (Metadata_of R k q) L = snd (upload_metadata X R k user q L)"

lemma others_handle_upload: "others user (handle_upload X E cfg user q L) = others user L"
  by (cases q) (simp_all add: others_upload others_metadata batch_upload_image_def others_batch)

interpretation uploads: scoped_handler "handle_upload X E cfg" for X E cfg
  by unfold_locales (rule others_handle_upload)

text \<open>The libraries that uploads of every kind lead to, in any order and with any failures but a copy that stops
  halfway.\<close>

inductive upload_reach :: "media_ext \<Rightarrow> ext \<Rightarrow> media_cfg \<Rightarrow> library \<Rightarrow> library \<Rightarrow> bool" for X E cfg L0 where
  start: "upload_reach X E cfg L0 L0"
| single: "upload_reach X E cfg L0 L \<Longrightarrow> copies_complete R
    \<Longrightarrow> upload_reach X E cfg L0 (snd (upload_media X E R cfg k user parts L))"
| batch: "upload_reach X E cfg L0 L \<Longrightarrow> \<forall>i. copies_complete (Rs i)
    \<Longrightarrow> upload_reach X E cfg L0 (snd (batch_upload_image X E Rs cfg device user parts L))"
| metadata: "upload_reach X E cfg L0 L \<Longrightarrow> upload_reach X E cfg L0 (snd (upload_metadata X R k user q L))"

section \<open>Concrete requests\<close>

definition sample_x :: media_ext where
  "sample_x = \<lparr>x_lower = id, x_utf8_lossy = map (\<lambda>b. char_of (unat b)), x_rfc3339 = Map.empty, x_date = Map.empty,
     x_datetime = Map.empty, x_exif_datetime = Map.empty, x_exif_fields = Map.empty, x_orientation = Map.empty,
     x_json = (\<lambda>_. []), f_parse = Map.empty, f_add = (+), f_div = (\<lambda>a b. a), f_neg = id, f_le = (\<le>), f_zero = (\<lambda>v. v = 0)\<rparr>"

definition sample_env :: req_env where
  "sample_env = \<lparr>r_now = 0, r_fails = (\<lambda>_. False), r_rename = Renamed, r_copy_stops = None, r_head = 16,
     r_uuid = (\<lambda>i. replicate (Suc i) CHR ''u''), r_write_stops = Map.empty, r_boundaries = None, r_nominatim = None\<rparr>"

definition sample_cfg :: media_cfg where
  "sample_cfg = \<lparr>images_dir = [''images''], videos_dir = [''videos''], temp_root = [''tmp''],
     enable_local_geocoding = False, enable_external_geocoding = False\<rparr>"

definition empty_library :: library where
  "empty_library = \<lparr>lib_files = Map.empty, lib_images = [], lib_videos = [], lib_sources = [], lib_stars = [], lib_pairs = []\<rparr>"

definition jpeg_head :: bytes where "jpeg_head = [0xFF, 0xD8, 0xFF, 0xE0]"

definition text_part :: "string \<Rightarrow> string \<Rightarrow> part" where
  "text_part n v = \<lparr>pt_name = n, pt_filename = None, pt_chunks = [str_bytes v], pt_complete = True\<rparr>"

definition image_part :: "bool \<Rightarrow> part" where
  "image_part c = \<lparr>pt_name = ''image'', pt_filename = Some ''a.jpg'', pt_chunks = [[0xFF, 0xD8], [0xFF, 0xE0]], pt_complete = c\<rparr>"

lemma lossy_str_bytes: "map (\<lambda>b. char_of (unat b)) (str_bytes v) = v"
proof -
  have "unat (word_of_nat (of_char c) :: byte) = of_char c" for c :: char
    by (rule unat_byte_of_nat) (metis of_char_of char_of_mod_256 mod_less_divisor zero_less_numeral of_char_mod_256)
  then show ?thesis by (simp add: str_bytes_def comp_def map_idI)
qed

lemma read_text_part: "length v \<le> 65536 \<Longrightarrow> read_field_string sample_x (text_part n v) = v"
  using lossy_str_bytes[of v]
  by (simp add: read_field_string_def text_part_def sample_x_def MAX_METADATA_FIELD_BYTES_def)

lemma quiet_sample: "quiet sample_env"
  by (simp add: quiet_def sample_env_def)

lemma sample_ingest: "ingest_ext sample_x ''a.jpg'' = ''jpg''"
  by (simp add: ingest_ext_def sample_x_def path_extension_def path_file_name_def split_ext_def Let_def)

lemma sample_sniff: "sniff_media_kind (take 16 jpeg_head) = Some K_image"
  by (simp add: sniff_media_kind_def begins_def jpeg_head_def)

lemma sample_hash_length: "length (content_hash Externals_Model.toy_ext jpeg_head) = 64"
  using content_hash_valid[OF toy_blake3_ok toy_hex_ok] by (simp add: is_valid_content_hash_def)

section \<open>Properties\<close>



text \<open>C14. Whatever uploads of images, videos, batches and metadata are made, in any order and whatever else fails, a file
  stored under a content hash has that hash, as long as no copy stops halfway.\<close>

theorem uploads_content_addressed:
  assumes "upload_reach X E cfg L0 L" and "blake3_ok E" and "hex_ok E" and "content_addressed E cfg L0"
  shows "content_addressed E cfg L"
  using assms(1)
proof (induction rule: upload_reach.induct)
  case (single L R k user parts)
  then show ?case by (intro upload_content_addressed[OF assms(2,3)])
next
  case (batch L Rs device user parts)
  then show ?case unfolding batch_upload_image_def by (intro batch_content_addressed[OF assms(2,3)])
next
  case (metadata L R k user q)
  then show ?case by (simp add: content_addressed_files[OF metadata_files])
qed (rule assms(4))

theorem uploads_content_addressed_witness:
  "content_addressed Externals_Model.toy_ext sample_cfg
     (snd (upload_media sample_x Externals_Model.toy_ext sample_env sample_cfg K_image ''alice''
        [text_part ''hash'' (content_hash Externals_Model.toy_ext jpeg_head), text_part ''name'' ''a.jpg'', image_part True] empty_library))"
proof -
  have "copies_complete sample_env" by (simp add: copies_complete_def sample_env_def)
  from upload_reach.single[OF upload_reach.start this]
  have "upload_reach sample_x Externals_Model.toy_ext sample_cfg empty_library
     (snd (upload_media sample_x Externals_Model.toy_ext sample_env sample_cfg K_image ''alice''
        [text_part ''hash'' (content_hash Externals_Model.toy_ext jpeg_head), text_part ''name'' ''a.jpg'', image_part True] empty_library))" .
  moreover have "content_addressed Externals_Model.toy_ext sample_cfg empty_library"
    by (simp add: content_addressed_def empty_library_def)
  ultimately show ?thesis by (rule uploads_content_addressed[OF _ toy_blake3_ok toy_hex_ok])
qed





text \<open>When the temporary directory is on another device and the copy that then replaces the rename stops halfway,
  the file already stored under the same hash is left truncated, also when it belongs to another user; the upload
  itself is refused.\<close>

theorem interrupted_copy_truncates:
  assumes "r_rename R = Cross_device" and "r_copy_stops R = Some n" and "lib_files L t = Some data"
    and "ingest_ext X name \<in> set IMAGE_EXTS" and "sniff_media_kind (take 16 data) = Some K_image"
    and "\<forall>n. \<not> r_fails R n" and "16 \<le> r_head R"
  shows "process_image_file X R cfg t name h dev user True cl L
      = (Inl (Io_error ''copy failed''), put_path (target_path cfg K_image h (ingest_ext X name)) (take n data) L)"
  using assms by (simp add: process_image_file_def store_media_def validate_media_file_def rename_or_copy_def fs_copy_def Let_def min_def)

theorem interrupted_copy_truncates_witness:
  "process_image_file sample_x (sample_env\<lparr>r_rename := Cross_device, r_copy_stops := Some 1\<rparr>) sample_cfg [''t''] ''a.jpg'' ''h'' ''d'' ''mallory'' True None
      (put_path [''t''] jpeg_head (put_path (target_path sample_cfg K_image ''h'' ''jpg'') jpeg_head empty_library))
   = (Inl (Io_error ''copy failed''), put_path (target_path sample_cfg K_image ''h'' ''jpg'') [0xFF]
      (put_path [''t''] jpeg_head (put_path (target_path sample_cfg K_image ''h'' ''jpg'') jpeg_head empty_library)))"
  using interrupted_copy_truncates[of "sample_env\<lparr>r_rename := Cross_device, r_copy_stops := Some 1\<rparr>" 1
      "put_path [''t''] jpeg_head (put_path (target_path sample_cfg K_image ''h'' ''jpg'') jpeg_head empty_library)" "[''t'']" jpeg_head
      sample_x "''a.jpg''" sample_cfg "''h''" "''d''" "''mallory''" None] sample_ingest sample_sniff
  by (simp add: sample_env_def IMAGE_EXTS_def) (simp add: jpeg_head_def)

text \<open>C1. A path served for a hash and an extension is what the file system resolves for the file of that name in the
  resolved media directory, and lies inside that directory, whatever links there are; the two components added are
  plain names, without separator and not the parent directory.\<close>

definition plain :: "string \<Rightarrow> bool" where
  "plain c \<longleftrightarrow> c \<noteq> [] \<and> c \<noteq> ''.'' \<and> c \<noteq> ''..'' \<and> CHR ''/'' \<notin> set c \<and> CHR 0x00 \<notin> set c"

theorem resolved_inside:
  assumes "safe_resolve_content_path canonicalize base_dir hash ext = Inr p"
  shows "\<exists>base rest. canonicalize base_dir = Inr base \<and> p = base @ rest
    \<and> canonicalize (base @ [take 2 hash, media_file_name hash ext]) = Inr p
    \<and> plain (take 2 hash) \<and> plain (media_file_name hash ext)"
proof -
  have h: "is_valid_content_hash hash" and x: "is_valid_media_ext ext"
    using assms by (auto simp: safe_resolve_content_path_def split: if_splits)
  obtain base where b: "canonicalize base_dir = Inr base"
    and p: "canonicalize (base @ [take 2 hash, media_file_name hash ext]) = Inr p" and t: "take (length base) p = base"
    using assms h x by (auto simp: safe_resolve_content_path_def Let_def split: sum.splits if_splits)
  have hx: "is_lower_hex c" if "c \<in> set hash" for c using h that by (auto simp: is_valid_content_hash_def list_all_iff)
  have c1: "CHR ''/'' \<notin> set hash" "CHR 0x00 \<notin> set hash" "CHR ''.'' \<notin> set hash"
    by (auto dest!: hx simp: is_lower_hex_def Let_def)
  have c2: "CHR ''/'' \<notin> set ext" "CHR 0x00 \<notin> set ext"
    using x by (auto simp: is_valid_media_ext_def list_all_iff is_ascii_alphanumeric_def Let_def)
  have len: "length hash = 64" using h by (simp add: is_valid_content_hash_def)
  have "plain (take 2 hash)"
  proof -
    have "set (take 2 hash) \<subseteq> set hash" by (rule set_take_subset)
    then have "CHR ''/'' \<notin> set (take 2 hash)" "CHR 0x00 \<notin> set (take 2 hash)" "CHR ''.'' \<notin> set (take 2 hash)"
      using c1 by auto
    then show ?thesis using len by (auto simp: plain_def)
  qed
  moreover have "plain (media_file_name hash ext)"
  proof -
    have "length (media_file_name hash ext) > 2" using len by (simp add: media_file_name_def)
    then have "media_file_name hash ext \<noteq> ''.''" "media_file_name hash ext \<noteq> ''..''" "media_file_name hash ext \<noteq> []" by auto
    then show ?thesis using c1 c2 by (simp add: plain_def) (simp add: media_file_name_def)
  qed
  moreover have "p = base @ drop (length base) p" using t by (metis append_take_drop_id)
  ultimately show ?thesis using b p by blast
qed

theorem resolved_inside_witness:
  "\<exists>p. safe_resolve_content_path Inr [''srv'', ''images''] (replicate 64 CHR ''a'') ''jpg'' = Inr p
     \<and> (\<exists>rest. p = [''srv'', ''images''] @ rest) \<and> plain (media_file_name (replicate 64 CHR ''a'') ''jpg'')"
proof -
  have "safe_resolve_content_path Inr [''srv'', ''images''] (replicate 64 CHR ''a'') ''jpg''
      = Inr ([''srv'', ''images''] @ [take 2 (replicate 64 CHR ''a''), media_file_name (replicate 64 CHR ''a'') ''jpg''])"
    by (simp add: safe_resolve_content_path_def is_valid_content_hash_def is_valid_media_ext_def list_all_iff
        is_lower_hex_def is_ascii_alphanumeric_def Let_def)
  with resolved_inside[OF this] show ?thesis by auto
qed

end
